(* ===== verification/Tbox_Prelude.thy ===== *)
theory Tbox_Prelude
  imports Main "HOL-Library.Word" "HOL-Library.Multiset"
begin

text \<open>
  Shared vocabulary of the development: the machine integer types of the 64-bit Linux
  target the code is built for, the value a C++ pointer may have (\<open>None\<close> is the null
  pointer), the collections of simplification and introduction rules the components fill,
  and generic facts on lists, options and words that several components use.
\<close>

unbundle bit_operations_syntax

section \<open>Types\<close>

type_synonym u8 = "8 word"
type_synonym u16 = "16 word"
type_synonym u32 = "32 word"
type_synonym u64 = "64 word"
type_synonym usize = "64 word"
type_synonym bytes = "8 word list"
type_synonym 'a ptr = "'a option"

text \<open>The exceptions and undefined reads of C++ that the models make visible.\<close>

datatype cxx_error =
    OutOfRange        \<comment> \<open>\<open>std::out_of_range\<close>, or an index outside a fixed array\<close>
  | LengthError       \<comment> \<open>\<open>std::length_error\<close>: a container at its maximal size\<close>
  | BadAlloc          \<comment> \<open>\<open>std::bad_alloc\<close>: \<open>new\<close> cannot satisfy the request\<close>
  | BadUnionMember    \<comment> \<open>a union member is read that was not the one last written\<close>
  | AssertFail        \<comment> \<open>\<open>TBOX_ASSERT\<close> fails\<close>
  | NullDeref         \<comment> \<open>a null pointer is dereferenced\<close>
  | UseAfterFree      \<comment> \<open>an object is used or freed that is not alive\<close>
  | InvalidArgument   \<comment> \<open>\<open>std::invalid_argument\<close>\<close>

section \<open>Collections of rules\<close>

named_theorems tbox_defs \<open>definitions of operations, to unfold when one operation is analysed\<close>
named_theorems tbox_inv \<open>every operation keeps its component's invariant\<close>

section \<open>Words\<close>

lemma unat_Suc_le_max:
  fixes w :: "'a::len word"
  assumes "w \<noteq> - 1"
  shows "unat (w + 1) = Suc (unat w)"
  using assms by (metis add.commute add_eq_0_iff unatSuc)

lemma word_succ_nonzero:
  fixes w :: "'a::len word"
  assumes "w \<noteq> - 1"
  shows "w + 1 \<noteq> 0"
  using assms unat_Suc_le_max [OF assms] by (metis unat_0 nat.distinct(1))

lemma unat_u64_less: "unat (w :: u64) < 18446744073709551616"
  using unsigned_less [of w] by simp

lemma unat_of_nat_u64 [simp]: "n < 18446744073709551616 \<Longrightarrow> unat (of_nat n :: u64) = n"
  by (simp add: unat_of_nat)

lemma unat_u64_max [simp]: "unat (- 1 :: u64) = 18446744073709551615"
  by (simp add: unsigned_minus_1_eq_mask mask_eq_exp_minus_1)

lemma of_nat_u64_ne_max: "n < 18446744073709551615 \<Longrightarrow> (of_nat n :: u64) \<noteq> - 1"
  by (auto dest: arg_cong [of _ _ unat] simp: unat_of_nat)

lemma word_of_unat: "unat (w :: 'a::len word) = n \<Longrightarrow> w = of_nat n"
  by auto

section \<open>Lists\<close>

lemma length_filter_update:
  assumes "i < length xs"
  shows "length (filter P (xs[i := v])) + of_bool (P (xs ! i)) =
         length (filter P xs) + of_bool (P v)"
  using assms
proof (induction xs arbitrary: i)
  case Nil
  then show ?case by simp
next
  case (Cons x xs)
  then show ?case by (cases i) auto
qed

lemma length_filter_pos:
  assumes "i < length xs" and "P (xs ! i)"
  shows "0 < length (filter P xs)"
  using assms by (metis filter_empty_conv length_greater_0_conv nth_mem)

lemma nth_update_append [simp]: "(xs @ [x])[length xs := y] = xs @ [y]"
  by simp

text \<open>\<open>memcpy\<close> of \<open>src\<close> into \<open>dst\<close> at offset \<open>i\<close>; \<open>None\<close> when it would write outside the block.\<close>

definition mem_write :: "'a list \<Rightarrow> nat \<Rightarrow> 'a list \<Rightarrow> 'a list option" where
  "mem_write dst i src =
     (if i + length src \<le> length dst then Some (take i dst @ src @ drop (i + length src) dst)
      else None)"

definition mem_slice :: "'a list \<Rightarrow> nat \<Rightarrow> nat \<Rightarrow> 'a list" where
  "mem_slice m i n = take n (drop i m)"

lemma length_mem_slice [simp]: "i + n \<le> length m \<Longrightarrow> length (mem_slice m i n) = n"
  by (simp add: mem_slice_def)

lemma mem_write_length: "mem_write dst i src = Some m \<Longrightarrow> length m = length dst"
  by (auto simp: mem_write_def split: if_splits)

lemma mem_slice_0 [simp]: "mem_slice m i 0 = []"
  by (simp add: mem_slice_def)

lemma mem_slice_take: "k \<le> n \<Longrightarrow> take k (mem_slice m i n) = mem_slice m i k"
  by (simp add: mem_slice_def min_def)

lemma mem_slice_drop: "drop k (mem_slice m i n) = mem_slice m (i + k) (n - k)"
  by (simp add: mem_slice_def drop_take add.commute)

text \<open>A write right after a slice extends it; a write into a region the slice does not meet
  leaves it unchanged.\<close>

lemma mem_slice_write_after:
  assumes "mem_write m (i + n) src = Some m'"
  shows "mem_slice m' i (n + length src) = mem_slice m i n @ src"
  using assms by (auto simp: mem_write_def mem_slice_def drop_take split: if_splits)

lemma mem_slice_write_exact:
  assumes "mem_write m i src = Some m'"
  shows "mem_slice m' i (length src) = src"
  using mem_slice_write_after [of m i 0 src m'] assms by simp

end
