(* ===== verification/Byte_Fifo.thy ===== *)
theory Byte_Fifo
  imports Tbox_Prelude
begin

text \<open>
  The contract of a first-in first-out byte store, as the connections of the network modules
  use one: appending extends the content at its end, fetching takes a prefix away. The store may
  limit how much it is able to hold: \<open>used\<close> measures how close it is to \<open>limit\<close>.
  The locale shows once what every client relies on: over any sequence of appends and fetches,
  the fetched bytes followed by what is left are the appended bytes, in order, none lost and none
  duplicated.
\<close>

datatype 'd fifo_op = Put "'d list" | Take usize

fun fifo_run :: "('d list \<Rightarrow> 's \<Rightarrow> cxx_error + 's) \<Rightarrow> (usize \<Rightarrow> 's \<Rightarrow> cxx_error + 'd option list \<times> 's) \<Rightarrow>
    'd fifo_op list \<Rightarrow> 's \<Rightarrow> cxx_error + 'd option list \<times> 's" where
  "fifo_run push pop [] s = Inr ([], s)"
| "fifo_run push pop (Put d # ops) s =
     (case push d s of Inl e \<Rightarrow> Inl e | Inr s' \<Rightarrow> fifo_run push pop ops s')"
| "fifo_run push pop (Take n # ops) s =
     (case pop n s of
        Inl e \<Rightarrow> Inl e
      | Inr (out, s') \<Rightarrow>
          (case fifo_run push pop ops s' of Inl e \<Rightarrow> Inl e | Inr (outs, s'') \<Rightarrow> Inr (out @ outs, s'')))"

fun fifo_input :: "'d fifo_op list \<Rightarrow> 'd list" where
  "fifo_input [] = []"
| "fifo_input (Put d # ops) = d @ fifo_input ops"
| "fifo_input (Take n # ops) = fifo_input ops"

locale byte_fifo =
  fixes inv :: "'s \<Rightarrow> bool"
    and content :: "'s \<Rightarrow> 'd option list"
    and used :: "'s \<Rightarrow> nat"
    and limit :: nat
    and push :: "'d list \<Rightarrow> 's \<Rightarrow> cxx_error + 's"
    and pop :: "usize \<Rightarrow> 's \<Rightarrow> cxx_error + 'd option list \<times> 's"
  assumes push_law: "inv s \<Longrightarrow> used s + length d < limit \<Longrightarrow> push d s = Inr s' \<Longrightarrow>
      inv s' \<and> content s' = content s @ map Some d \<and> used s' \<le> used s + length d"
    and push_error: "inv s \<Longrightarrow> used s + length d < limit \<Longrightarrow> push d s = Inl e \<Longrightarrow> e = BadAlloc"
    and pop_law: "inv s \<Longrightarrow> \<exists>s'. pop n s = Inr (take (unat n) (content s), s') \<and> inv s' \<and>
      content s' = drop (unat n) (content s) \<and> used s' \<le> used s"
begin

lemma run_in_order:
  assumes "inv s" and "used s + length (fifo_input ops) < limit"
    and "fifo_run push pop ops s = Inr (out, s')"
  shows "inv s' \<and> out @ content s' = content s @ map Some (fifo_input ops)"
  using assms
proof (induction ops arbitrary: s out)
  case Nil
  then show ?case by simp
next
  case (Cons x ops)
  show ?case
  proof (cases x)
    case (Put d)
    with Cons.prems(3) obtain s1 where p: "push d s = Inr s1"
      and run: "fifo_run push pop ops s1 = Inr (out, s')"
      by (auto split: sum.splits)
    have "used s + length d < limit" using Cons.prems(2) Put by simp
    from push_law [OF Cons.prems(1) this p] have
      s1: "inv s1" "content s1 = content s @ map Some d" "used s1 \<le> used s + length d" by auto
    then have "used s1 + length (fifo_input ops) < limit"
      using Cons.prems(2) Put by simp
    from Cons.IH [OF s1(1) this run] s1 Put show ?thesis by simp
  next
    case (Take n)
    obtain s1 where p: "pop n s = Inr (take (unat n) (content s), s1)"
      and s1: "inv s1" "content s1 = drop (unat n) (content s)" "used s1 \<le> used s"
      using pop_law [OF Cons.prems(1)] by blast
    with Cons.prems(3) Take obtain outs where run: "fifo_run push pop ops s1 = Inr (outs, s')"
      and out: "out = take (unat n) (content s) @ outs"
      by (auto split: sum.splits)
    have "used s1 + length (fifo_input ops) < limit"
      using Cons.prems(2) Take s1(3) by simp
    from Cons.IH [OF s1(1) this run] s1 out Take show ?thesis
      by (metis append_assoc append_take_drop_id fifo_input.simps(3))
  qed
qed

lemma run_error:
  assumes "inv s" and "used s + length (fifo_input ops) < limit"
    and "fifo_run push pop ops s = Inl e"
  shows "e = BadAlloc"
  using assms
proof (induction ops arbitrary: s)
  case Nil
  then show ?case by simp
next
  case (Cons x ops)
  show ?case
  proof (cases x)
    case (Put d)
    have lim: "used s + length d < limit" using Cons.prems(2) Put by simp
    show ?thesis
    proof (cases "push d s")
      case (Inl e')
      with push_error [OF Cons.prems(1) lim] Cons.prems(3) Put show ?thesis by simp
    next
      case (Inr s1)
      with push_law [OF Cons.prems(1) lim] have s1: "inv s1" "used s1 \<le> used s + length d" by auto
      then have "used s1 + length (fifo_input ops) < limit" using Cons.prems(2) Put by simp
      with Cons.IH [OF s1(1)] Cons.prems(3) Put Inr show ?thesis by simp
    qed
  next
    case (Take n)
    obtain s1 where p: "pop n s = Inr (take (unat n) (content s), s1)"
      and s1: "inv s1" "used s1 \<le> used s"
      using pop_law [OF Cons.prems(1)] by blast
    have "used s1 + length (fifo_input ops) < limit"
      using Cons.prems(2) Take s1(2) by simp
    with Cons.IH [OF s1(1)] Cons.prems(3) Take p show ?thesis by (auto split: sum.splits)
  qed
qed

end

end
