(* ===== verification/Buffer.thy ===== *)
theory Buffer
  imports Byte_Fifo
begin

text \<open>
  The byte buffer of \<open>modules/util/buffer.h\<close> and \<open>modules/util/buffer.cpp\<close>: a heap block with
  a read and a write index. A byte of a fresh block is indeterminate, so a block is a list of
  \<open>u8 option\<close>; sizes and indices are 64-bit words and wrap as \<open>size_t\<close> does. \<open>avail\<close> is the
  allocator's answer for a request of a size; \<open>new\<close> throws when it is false.
\<close>

section \<open>State and operations\<close>

type_synonym block = "u8 option list"

record buffer =
  buffer_ptr :: "block ptr"
  buffer_size :: usize
  read_index :: usize
  write_index :: usize

definition new_block :: "(usize \<Rightarrow> bool) \<Rightarrow> usize \<Rightarrow> cxx_error + block" where
  "new_block avail n = (if avail n then Inr (replicate (unat n) None) else Inl BadAlloc)"

definition buf_init :: buffer where
  "buf_init = \<lparr>buffer_ptr = None, buffer_size = 0, read_index = 0, write_index = 0\<rparr>"

definition buf_new :: "(usize \<Rightarrow> bool) \<Rightarrow> usize \<Rightarrow> cxx_error + buffer" where
  "buf_new avail reverse_size =
     (if reverse_size > 0 then
        (case new_block avail reverse_size of
           Inl e \<Rightarrow> Inl e
         | Inr m \<Rightarrow> Inr (buf_init\<lparr>buffer_ptr := Some m, buffer_size := reverse_size\<rparr>))
      else Inr buf_init)"

definition buf_swap :: "buffer \<Rightarrow> buffer \<Rightarrow> buffer \<times> buffer" where
  "buf_swap this other = (other, this)"

definition buf_reset :: "buffer \<Rightarrow> buffer" where
  "buf_reset b = fst (buf_swap b buf_init)"

definition buf_writableSize :: "buffer \<Rightarrow> usize" where
  "buf_writableSize b = buffer_size b - write_index b"

definition buf_readableSize :: "buffer \<Rightarrow> usize" where
  "buf_readableSize b = write_index b - read_index b"

text \<open>The bytes of the block from \<open>readableBegin()\<close>, \<open>readableSize()\<close> of them; an empty range
  may be read through a null pointer.\<close>

definition read_block :: "block ptr \<Rightarrow> usize \<Rightarrow> usize \<Rightarrow> cxx_error + block" where
  "read_block p i n =
     (case p of
        None \<Rightarrow> (if n = 0 then Inr [] else Inl NullDeref)
      | Some m \<Rightarrow> (if unat i + unat n \<le> length m then Inr (mem_slice m (unat i) (unat n))
                   else Inl OutOfRange))"

definition write_block :: "block ptr \<Rightarrow> usize \<Rightarrow> block \<Rightarrow> cxx_error + block ptr" where
  "write_block p i src =
     (case p of
        None \<Rightarrow> (if src = [] then Inr None else Inl NullDeref)
      | Some m \<Rightarrow> (case mem_write m (unat i) src of
                     None \<Rightarrow> Inl OutOfRange | Some m' \<Rightarrow> Inr (Some m')))"

definition buf_ensureWritableSize :: "(usize \<Rightarrow> bool) \<Rightarrow> usize \<Rightarrow> buffer \<Rightarrow> cxx_error + bool \<times> buffer" where
  "buf_ensureWritableSize avail write_size b =
     (if write_size = 0 then Inr (True, b)
      else if buf_writableSize b \<ge> write_size then Inr (True, b)
      else if buf_writableSize b + read_index b \<ge> write_size then
        (case read_block (buffer_ptr b) (read_index b) (write_index b - read_index b) of
           Inl e \<Rightarrow> Inl e
         | Inr src \<Rightarrow>
             (case write_block (buffer_ptr b) 0 src of
                Inl e \<Rightarrow> Inl e
              | Inr p \<Rightarrow> Inr (True, b\<lparr>buffer_ptr := p,
                                   write_index := write_index b - read_index b,
                                   read_index := 0\<rparr>)))
      else
        (let new_size = push_bit 1 (write_index b + write_size)
         in case new_block avail new_size of
              Inl e \<Rightarrow> Inl e
            | Inr p_buff \<Rightarrow>
                (case buffer_ptr b of
                   None \<Rightarrow> Inr (True, b\<lparr>buffer_ptr := Some p_buff, buffer_size := new_size\<rparr>)
                 | Some m \<Rightarrow>
                     (case read_block (Some m) (read_index b) (write_index b - read_index b) of
                        Inl e \<Rightarrow> Inl e
                      | Inr src \<Rightarrow>
                          (case write_block (Some p_buff) (read_index b) src of
                             Inl e \<Rightarrow> Inl e
                           | Inr p \<Rightarrow> Inr (True, b\<lparr>buffer_ptr := p, buffer_size := new_size\<rparr>))))))"

definition buf_hasWritten :: "usize \<Rightarrow> buffer \<Rightarrow> buffer" where
  "buf_hasWritten write_size b =
     (if write_index b + write_size > buffer_size b then b\<lparr>write_index := buffer_size b\<rparr>
      else b\<lparr>write_index := write_index b + write_size\<rparr>)"

definition buf_append :: "(usize \<Rightarrow> bool) \<Rightarrow> bytes \<Rightarrow> buffer \<Rightarrow> cxx_error + usize \<times> buffer" where
  "buf_append avail data b =
     (let data_size = of_nat (length data)
      in case buf_ensureWritableSize avail data_size b of
           Inl e \<Rightarrow> Inl e
         | Inr (ok, b1) \<Rightarrow>
             (if ok then
                (case write_block (buffer_ptr b1) (write_index b1) (map Some data) of
                   Inl e \<Rightarrow> Inl e
                 | Inr p \<Rightarrow> Inr (data_size, buf_hasWritten data_size (b1\<lparr>buffer_ptr := p\<rparr>)))
              else Inr (0, b1)))"

definition buf_hasRead :: "usize \<Rightarrow> buffer \<Rightarrow> buffer" where
  "buf_hasRead read_size b =
     (if read_index b + read_size > write_index b then b\<lparr>read_index := 0, write_index := 0\<rparr>
      else
        (let b1 = b\<lparr>read_index := read_index b + read_size\<rparr>
         in if read_index b1 = write_index b1 then b1\<lparr>read_index := 0, write_index := 0\<rparr> else b1))"

definition buf_hasReadAll :: "buffer \<Rightarrow> buffer" where
  "buf_hasReadAll b = b\<lparr>read_index := 0, write_index := 0\<rparr>"

text \<open>\<open>fetch\<close> returns the size it read; the model also returns the bytes it copied to the
  caller's memory.\<close>

definition buf_fetch :: "usize \<Rightarrow> buffer \<Rightarrow> cxx_error + (usize \<times> block) \<times> buffer" where
  "buf_fetch buff_size b =
     (let read_size = (if buff_size > buf_readableSize b then buf_readableSize b else buff_size)
      in case read_block (buffer_ptr b) (read_index b) read_size of
           Inl e \<Rightarrow> Inl e
         | Inr out \<Rightarrow> Inr ((read_size, out), buf_hasRead read_size b))"

definition buf_cloneFrom :: "(usize \<Rightarrow> bool) \<Rightarrow> buffer \<Rightarrow> buffer \<Rightarrow> cxx_error + buffer" where
  "buf_cloneFrom avail other b =
     (if buf_readableSize other > 0 then
        (case new_block avail (buf_readableSize other) of
           Inl e \<Rightarrow> Inl e
         | Inr p_buff \<Rightarrow>
             (case read_block (buffer_ptr other) (read_index other) (buf_readableSize other) of
                Inl e \<Rightarrow> Inl e
              | Inr src \<Rightarrow>
                  (case write_block (Some p_buff) 0 src of
                     Inl e \<Rightarrow> Inl e
                   | Inr p \<Rightarrow> Inr (b\<lparr>buffer_ptr := p, buffer_size := buf_readableSize other,
                                     write_index := buf_readableSize other, read_index := 0\<rparr>))))
      else Inr (b\<lparr>buffer_ptr := None, buffer_size := 0, write_index := 0, read_index := 0\<rparr>))"

text \<open>The copy and move constructors and assignments; assigning a buffer to itself is the
  identity and the cases below are for two different objects. A move returns the new value of
  the source as well.\<close>

definition buf_copy :: "(usize \<Rightarrow> bool) \<Rightarrow> buffer \<Rightarrow> cxx_error + buffer" where
  "buf_copy avail other = buf_cloneFrom avail other buf_init"

definition buf_move :: "buffer \<Rightarrow> buffer \<times> buffer" where
  "buf_move other = buf_swap buf_init other"

definition buf_assign_copy :: "(usize \<Rightarrow> bool) \<Rightarrow> buffer \<Rightarrow> buffer \<Rightarrow> cxx_error + buffer" where
  "buf_assign_copy avail this other = buf_cloneFrom avail other this"

definition buf_assign_move :: "buffer \<Rightarrow> buffer \<Rightarrow> buffer \<times> buffer" where
  "buf_assign_move this other = buf_swap (buf_reset this) other"

definition buf_shrink :: "(usize \<Rightarrow> bool) \<Rightarrow> buffer \<Rightarrow> cxx_error + buffer" where
  "buf_shrink avail b =
     (case buf_copy avail b of Inl e \<Rightarrow> Inl e | Inr tmp \<Rightarrow> Inr (fst (buf_swap b tmp)))"

section \<open>Invariant and abstract content\<close>

definition buf_inv :: "buffer \<Rightarrow> bool" where
  "buf_inv b \<longleftrightarrow>
     (case buffer_ptr b of None \<Rightarrow> buffer_size b = 0 | Some m \<Rightarrow> length m = unat (buffer_size b)) \<and>
     read_index b \<le> write_index b \<and> write_index b \<le> buffer_size b"

definition buf_content :: "buffer \<Rightarrow> block" where
  "buf_content b =
     (case buffer_ptr b of
        None \<Rightarrow> []
      | Some m \<Rightarrow> mem_slice m (unat (read_index b)) (unat (write_index b) - unat (read_index b)))"

lemma unat_diff_le: "b \<le> a \<Longrightarrow> unat (a - b) = unat a - unat (b :: usize)"
  by (simp add: unat_sub)

lemma unat_add_lt: "unat a + unat b < 18446744073709551616 \<Longrightarrow> unat (a + b) = unat a + unat (b :: usize)"
  by (simp add: unat_word_ariths)

lemma buf_inv_nat:
  assumes "buf_inv b"
  shows "unat (read_index b) \<le> unat (write_index b)" and "unat (write_index b) \<le> unat (buffer_size b)"
  using assms by (simp_all add: buf_inv_def word_le_nat_alt)

lemma buf_readableSize_unat:
  "buf_inv b \<Longrightarrow> unat (buf_readableSize b) = unat (write_index b) - unat (read_index b)"
  by (simp add: buf_readableSize_def buf_inv_def unat_diff_le)

lemma buf_writableSize_unat:
  "buf_inv b \<Longrightarrow> unat (buf_writableSize b) = unat (buffer_size b) - unat (write_index b)"
  by (simp add: buf_writableSize_def buf_inv_def unat_diff_le)

lemma length_buf_content: "buf_inv b \<Longrightarrow> length (buf_content b) = unat (buf_readableSize b)"
  using buf_inv_nat [of b] buf_readableSize_unat [of b]
  by (auto simp: buf_content_def buf_inv_def mem_slice_def split: option.splits)

lemma buf_inv_null: "buf_inv b \<Longrightarrow> buffer_ptr b = None \<Longrightarrow> read_index b = 0 \<and> write_index b = 0"
  by (auto simp: buf_inv_def)

lemma buf_inv_init [simp]: "buf_inv buf_init" and buf_content_init [simp]: "buf_content buf_init = []"
  by (simp_all add: buf_inv_def buf_init_def buf_content_def)

text \<open>Reading a prefix of the readable range gives a prefix of the content.\<close>

lemma read_block_content:
  assumes "buf_inv b" and "unat n \<le> unat (buf_readableSize b)"
  shows "read_block (buffer_ptr b) (read_index b) n = Inr (take (unat n) (buf_content b))"
proof (cases "buffer_ptr b")
  case None
  with assms buf_inv_null [OF assms(1)] show ?thesis
    by (simp add: read_block_def buf_readableSize_def buf_content_def unat_eq_0)
next
  case (Some m)
  with assms buf_inv_nat [OF assms(1)] buf_readableSize_unat [OF assms(1)] show ?thesis
    by (auto simp: read_block_def buf_content_def buf_inv_def mem_slice_take)
qed

lemma read_block_all:
  assumes "buf_inv b"
  shows "read_block (buffer_ptr b) (read_index b) (write_index b - read_index b) = Inr (buf_content b)"
  using read_block_content [OF assms, of "buf_readableSize b"] length_buf_content [OF assms]
  by (simp add: buf_readableSize_def)

lemma write_block_Some:
  "write_block (Some m) i src = Inr p \<longleftrightarrow> (\<exists>m'. p = Some m' \<and> mem_write m (unat i) src = Some m')"
  by (cases "mem_write m (unat i) src") (auto simp: write_block_def)

lemma unat_double:
  assumes "unat (x :: usize) < 9223372036854775808"
  shows "unat (push_bit 1 x) = 2 * unat x"
  using assms by (simp add: push_bit_eq_mult unat_word_ariths)

text \<open>The three ways \<open>ensureWritableSize\<close> makes room.\<close>

lemma ensure_move:
  assumes inv: "buf_inv b"
    and b': "b' = b\<lparr>buffer_ptr := p, write_index := write_index b - read_index b, read_index := 0\<rparr>"
    and wr: "write_block (buffer_ptr b) 0 (buf_content b) = Inr p"
  shows "buf_inv b' \<and> buf_content b' = buf_content b \<and>
         unat (buf_writableSize b') = unat (buffer_size b) - unat (buf_readableSize b)"
proof (cases "buffer_ptr b")
  case None
  with assms buf_inv_null [OF inv] show ?thesis
    by (auto simp: buf_inv_def buf_content_def write_block_def buf_writableSize_def buf_readableSize_def)
next
  case (Some m)
  with wr obtain m' where p: "p = Some m'" and mw: "mem_write m 0 (buf_content b) = Some m'"
    by (auto simp: write_block_Some)
  have len: "length (buf_content b) = unat (write_index b - read_index b)"
    using length_buf_content [OF inv] by (simp add: buf_readableSize_def)
  have le: "write_index b - read_index b \<le> buffer_size b"
    using buf_inv_nat [OF inv] inv by (simp add: word_le_nat_alt unat_diff_le buf_inv_def)
  have "buf_inv b'"
    using inv Some p b' mem_write_length [OF mw] le by (simp add: buf_inv_def)
  moreover have "buf_content b' = buf_content b"
    using mem_slice_write_exact [OF mw] p b' len by (simp add: buf_content_def)
  ultimately show ?thesis
    using le b' by (simp add: buf_writableSize_def buf_readableSize_def unat_diff_le)
qed

lemma ensure_grow:
  assumes inv: "buf_inv b" and small: "unat (write_index b) + unat n < 9223372036854775808"
    and ns: "ns = push_bit 1 (write_index b + n)"
    and m: "buffer_ptr b = Some m"
    and wr: "write_block (Some (replicate (unat ns) None)) (read_index b) (buf_content b) = Inr p"
    and b': "b' = b\<lparr>buffer_ptr := p, buffer_size := ns\<rparr>"
  shows "buf_inv b' \<and> buf_content b' = buf_content b \<and> unat n \<le> unat (buf_writableSize b')"
proof -
  have add: "unat (write_index b + n) = unat (write_index b) + unat n"
    using small by (intro unat_add_lt) simp
  have uns: "unat ns = 2 * (unat (write_index b) + unat n)"
    unfolding ns add [symmetric] by (rule unat_double) (use small add in linarith)
  from wr obtain m' where p: "p = Some m'"
    and mw: "mem_write (replicate (unat ns) None) (unat (read_index b)) (buf_content b) = Some m'"
    by (auto simp: write_block_Some)
  have wns: "write_index b \<le> ns" using uns by (simp add: word_le_nat_alt)
  have "buf_inv b'"
    using inv p b' mem_write_length [OF mw] wns by (simp add: buf_inv_def)
  moreover have "buf_content b' = buf_content b"
    using mem_slice_write_exact [OF mw] p b' length_buf_content [OF inv] buf_readableSize_unat [OF inv]
    by (simp add: buf_content_def)
  moreover have "unat (buf_writableSize b') = unat ns - unat (write_index b)"
    using wns b' by (simp add: buf_writableSize_def unat_diff_le)
  ultimately show ?thesis using uns by simp
qed

lemma ensure_grow_null:
  assumes "buf_inv b" and "buffer_ptr b = None" and small: "unat n < 9223372036854775808"
    and "b' = b\<lparr>buffer_ptr := Some (replicate (unat (push_bit 1 n)) None), buffer_size := push_bit 1 n\<rparr>"
  shows "buf_inv b' \<and> buf_content b' = buf_content b \<and> unat n \<le> unat (buf_writableSize b')"
  using assms buf_inv_null [OF assms(1,2)] unat_double [OF small]
  by (simp add: buf_inv_def buf_content_def buf_writableSize_def)

lemma ensureWritableSize_spec:
  assumes inv: "buf_inv b" and small: "unat (write_index b) + unat n < 9223372036854775808"
    and en: "buf_ensureWritableSize avail n b = Inr (ok, b')"
  shows "ok \<and> buf_inv b' \<and> buf_content b' = buf_content b \<and> unat n \<le> unat (buf_writableSize b')"
proof -
  consider (zero) "n = 0" | (room) "n \<noteq> 0" "n \<le> buf_writableSize b"
    | (move) "n \<noteq> 0" "\<not> n \<le> buf_writableSize b" "n \<le> buf_writableSize b + read_index b"
    | (grow) "n \<noteq> 0" "\<not> n \<le> buf_writableSize b" "\<not> n \<le> buf_writableSize b + read_index b"
    by blast
  then show ?thesis
  proof cases
    case zero
    with inv en show ?thesis by (simp add: buf_ensureWritableSize_def)
  next
    case room
    with inv en show ?thesis by (simp add: buf_ensureWritableSize_def word_le_nat_alt)
  next
    case move
    with en obtain p where wr: "write_block (buffer_ptr b) 0 (buf_content b) = Inr p" and ok
      and b': "b' = b\<lparr>buffer_ptr := p, write_index := write_index b - read_index b, read_index := 0\<rparr>"
      by (auto simp: buf_ensureWritableSize_def read_block_all [OF inv] split: sum.splits)
    have "buf_writableSize b + read_index b = buffer_size b - buf_readableSize b"
      by (simp add: buf_writableSize_def buf_readableSize_def)
    moreover have "buf_readableSize b \<le> buffer_size b"
      using buf_inv_nat [OF inv] by (simp add: word_le_nat_alt buf_readableSize_unat [OF inv])
    ultimately have "unat n \<le> unat (buffer_size b) - unat (buf_readableSize b)"
      using move(3) by (simp add: word_le_nat_alt unat_diff_le)
    with ensure_move [OF inv b' wr] \<open>ok\<close> show ?thesis by simp
  next
    case grow
    let ?ns = "push_bit 1 (write_index b + n)"
    show ?thesis
    proof (cases "buffer_ptr b")
      case None
      with grow en have ok and "b' = b\<lparr>buffer_ptr := Some (replicate (unat ?ns) None), buffer_size := ?ns\<rparr>"
        by (auto simp: buf_ensureWritableSize_def new_block_def Let_def split: if_splits)
      with ensure_grow_null [OF inv None] small buf_inv_null [OF inv None] show ?thesis by auto
    next
      case (Some m)
      with grow en obtain p where ok
        and "write_block (Some (replicate (unat ?ns) None)) (read_index b) (buf_content b) = Inr p"
        and "b' = b\<lparr>buffer_ptr := p, buffer_size := ?ns\<rparr>"
        using read_block_all [OF inv]
        by (auto simp: buf_ensureWritableSize_def new_block_def Let_def split: if_splits sum.splits)
      with ensure_grow [OF inv small refl Some] show ?thesis by blast
    qed
  qed
qed

lemma ensureWritableSize_error:
  assumes inv: "buf_inv b" and small: "unat (write_index b) + unat n < 9223372036854775808"
    and en: "buf_ensureWritableSize avail n b = Inl e"
  shows "e = BadAlloc"
proof -
  have mv: "write_block (buffer_ptr b) 0 (buf_content b) \<noteq> Inl x" for x
    using length_buf_content [OF inv] buf_inv_nat [OF inv] buf_readableSize_unat [OF inv] inv
    by (auto simp: write_block_def mem_write_def buf_inv_def buf_content_def split: option.splits if_splits)
  let ?ns = "push_bit 1 (write_index b + n)"
  have "unat (write_index b + n) = unat (write_index b) + unat n"
    using small by (intro unat_add_lt) simp
  then have "unat ?ns = 2 * (unat (write_index b) + unat n)"
    using small unat_double [of "write_index b + n"] by simp
  then have gr: "write_block (Some (replicate (unat ?ns) None)) (read_index b) (buf_content b) \<noteq> Inl x" for x
    using length_buf_content [OF inv] buf_inv_nat [OF inv] buf_readableSize_unat [OF inv]
    by (simp add: write_block_def mem_write_def)
  show ?thesis
    using en mv gr read_block_all [OF inv]
    by (auto simp: buf_ensureWritableSize_def new_block_def Let_def split: if_splits sum.splits option.splits)
qed

text \<open>Marking written bytes extends the content by what the block holds there.\<close>

lemma buf_hasWritten_spec:
  assumes inv: "buf_inv b" and n: "unat n \<le> unat (buf_writableSize b)"
    and m: "buffer_ptr b = Some m"
    and mw: "mem_write m (unat (write_index b)) src = Some m'" and len: "length src = unat n"
  shows "buf_inv (buf_hasWritten n (b\<lparr>buffer_ptr := Some m'\<rparr>)) \<and>
         buf_content (buf_hasWritten n (b\<lparr>buffer_ptr := Some m'\<rparr>)) = buf_content b @ src"
proof -
  have add: "unat (write_index b + n) = unat (write_index b) + unat n"
    using n unat_u64_less [of "buffer_size b"] buf_inv_nat [OF inv]
    by (intro unat_add_lt) (simp add: buf_writableSize_unat [OF inv])
  have le: "\<not> buffer_size b < write_index b + n"
    using n buf_inv_nat [OF inv] add
    by (simp add: word_less_nat_alt buf_writableSize_unat [OF inv])
  let ?b = "b\<lparr>buffer_ptr := Some m', write_index := write_index b + n\<rparr>"
  have b': "buf_hasWritten n (b\<lparr>buffer_ptr := Some m'\<rparr>) = ?b"
    using le by (simp add: buf_hasWritten_def)
  have "buf_inv ?b"
    using inv m mem_write_length [OF mw] le add by (auto simp: buf_inv_def word_le_nat_alt not_less word_less_nat_alt)
  moreover have "buf_content ?b = buf_content b @ src"
    using mem_slice_write_after [of m "unat (read_index b)" "unat (write_index b) - unat (read_index b)" src m']
      mw m add len buf_inv_nat [OF inv]
    by (simp add: buf_content_def)
  ultimately show ?thesis using b' by simp
qed

lemma buf_append_spec:
  assumes inv: "buf_inv b" and small: "unat (write_index b) + length data < 9223372036854775808"
    and ap: "buf_append avail data b = Inr (n, b')"
  shows "unat n = length data \<and> buf_inv b' \<and> buf_content b' = buf_content b @ map Some data"
proof -
  let ?n = "of_nat (length data) :: usize"
  have un: "unat ?n = length data" using small by simp
  from ap obtain ok b1 where en: "buf_ensureWritableSize avail ?n b = Inr (ok, b1)"
    by (auto simp: buf_append_def Let_def split: sum.splits)
  have "unat (write_index b) + unat ?n < 9223372036854775808" using small un by simp
  note s = ensureWritableSize_spec [OF inv this en]
  with ap en obtain p where n: "n = ?n" and b': "b' = buf_hasWritten ?n (b1\<lparr>buffer_ptr := p\<rparr>)"
    and wr: "write_block (buffer_ptr b1) (write_index b1) (map Some data) = Inr p"
    by (auto simp: buf_append_def Let_def split: sum.splits)
  show ?thesis
  proof (cases "buffer_ptr b1")
    case None
    with wr have d: "data = []" and p: "p = None"
      by (auto simp: write_block_def split: if_splits)
    have "b1\<lparr>buffer_ptr := None\<rparr> = b1" using None by (cases b1) simp
    moreover have "buf_hasWritten 0 b1 = b1"
      using s by (auto simp: buf_hasWritten_def buf_inv_def dest: leD)
    ultimately have "b' = b1" using b' d p by simp
    then show ?thesis using s n d by simp
  next
    case (Some m)
    with wr obtain m' where "p = Some m'" and "mem_write m (unat (write_index b1)) (map Some data) = Some m'"
      by (auto simp: write_block_Some)
    with buf_hasWritten_spec [of b1 ?n m "map Some data" m'] s Some un n b' show ?thesis by simp
  qed
qed

lemma buf_hasRead_spec:
  assumes inv: "buf_inv b" and n: "unat n \<le> unat (buf_readableSize b)"
  shows "buf_inv (buf_hasRead n b) \<and> buf_content (buf_hasRead n b) = drop (unat n) (buf_content b) \<and>
         write_index (buf_hasRead n b) \<le> write_index b"
proof -
  have add: "unat (read_index b + n) = unat (read_index b) + unat n"
    using n buf_inv_nat [OF inv] unat_u64_less [of "write_index b"]
    by (intro unat_add_lt) (simp add: buf_readableSize_unat [OF inv])
  have le: "read_index b + n \<le> write_index b"
    using n buf_inv_nat [OF inv] add by (simp add: word_le_nat_alt buf_readableSize_unat [OF inv])
  show ?thesis
  proof (cases "read_index b + n = write_index b")
    case True
    then have "unat n = length (buf_content b)"
      using add length_buf_content [OF inv] buf_readableSize_unat [OF inv]
      by (metis diff_add_inverse)
    with True inv show ?thesis
      by (auto simp: buf_hasRead_def buf_inv_def buf_content_def split: option.splits)
  next
    case False
    with le inv add buf_inv_nat [OF inv] show ?thesis
      by (auto simp: buf_hasRead_def buf_inv_def buf_content_def mem_slice_drop not_less
          Let_def split: option.splits)
  qed
qed

lemma buf_fetch_spec:
  assumes inv: "buf_inv b"
  shows "\<exists>b'. buf_fetch n b = Inr ((of_nat (min (unat n) (length (buf_content b))),
             take (unat n) (buf_content b)), b') \<and>
           buf_inv b' \<and> buf_content b' = drop (unat n) (buf_content b) \<and> write_index b' \<le> write_index b"
proof -
  let ?k = "if n > buf_readableSize b then buf_readableSize b else n"
  have k: "unat ?k = min (unat n) (length (buf_content b))"
    by (simp add: length_buf_content [OF inv] word_less_nat_alt min_def)
  then have le: "unat ?k \<le> unat (buf_readableSize b)"
    by (simp add: length_buf_content [OF inv])
  have "?k = of_nat (min (unat n) (length (buf_content b)))"
    unfolding k [symmetric] by simp
  moreover have "take (unat ?k) (buf_content b) = take (unat n) (buf_content b)"
    and "drop (unat ?k) (buf_content b) = drop (unat n) (buf_content b)"
    unfolding k by (auto simp: min_def)
  ultimately show ?thesis
    using read_block_content [OF inv le] buf_hasRead_spec [OF inv le]
    by (simp add: buf_fetch_def Let_def)
qed

lemma buf_append_write_index:
  assumes inv: "buf_inv b" and ap: "buf_append avail data b = Inr (n, b')"
    and small: "unat (write_index b) + length data < 9223372036854775808"
  shows "unat (write_index b') \<le> unat (write_index b) + length data"
proof -
  let ?n = "of_nat (length data) :: usize"
  have un: "unat ?n = length data" using small by simp
  from ap obtain ok b1 where en: "buf_ensureWritableSize avail ?n b = Inr (ok, b1)"
    by (auto simp: buf_append_def Let_def split: sum.splits)
  have w1: "unat (write_index b1) \<le> unat (write_index b)"
    using en inv
    by (auto simp: buf_ensureWritableSize_def Let_def buf_inv_def unat_diff_le split: if_splits sum.splits option.splits)
  have "unat (write_index (buf_hasWritten ?n b2)) \<le> unat (write_index b2) + length data"
    if "unat (write_index b2) + length data < 9223372036854775808" for b2
  proof -
    have "unat (write_index b2 + ?n) = unat (write_index b2) + length data"
      using that un by (subst unat_add_lt) simp_all
    then show ?thesis by (auto simp: buf_hasWritten_def word_less_nat_alt)
  qed
  note h = this
  show ?thesis
  proof (cases ok)
    case True
    with ap en obtain p where "b' = buf_hasWritten ?n (b1\<lparr>buffer_ptr := p\<rparr>)"
      by (auto simp: buf_append_def Let_def split: sum.splits)
    then show ?thesis using h [of "b1\<lparr>buffer_ptr := p\<rparr>"] w1 small by simp
  next
    case False
    with ap en w1 show ?thesis by (auto simp: buf_append_def Let_def)
  qed
qed

lemma buf_append_error:
  assumes inv: "buf_inv b" and small: "unat (write_index b) + length data < 9223372036854775808"
    and ap: "buf_append avail data b = Inl e"
  shows "e = BadAlloc"
proof -
  let ?n = "of_nat (length data) :: usize"
  have un: "unat ?n = length data" using small by simp
  then have small': "unat (write_index b) + unat ?n < 9223372036854775808" using small by simp
  show ?thesis
  proof (cases "buf_ensureWritableSize avail ?n b")
    case (Inl e')
    with ensureWritableSize_error [OF inv small'] ap show ?thesis by (simp add: buf_append_def Let_def)
  next
    case (Inr v)
    then obtain ok b1 where en: "buf_ensureWritableSize avail ?n b = Inr (ok, b1)" by (cases v) auto
    note s = ensureWritableSize_spec [OF inv small' en]
    have "write_block (buffer_ptr b1) (write_index b1) (map Some data) \<noteq> Inl x" for x
      using s un buf_writableSize_unat [of b1] buf_inv_nat [of b1]
      by (auto simp: write_block_def mem_write_def buf_inv_def split: option.splits if_splits)
    with ap en s show ?thesis by (auto simp: buf_append_def Let_def split: sum.splits)
  qed
qed

section \<open>The buffer is a byte queue\<close>

definition buf_put :: "(usize \<Rightarrow> bool) \<Rightarrow> bytes \<Rightarrow> buffer \<Rightarrow> cxx_error + buffer" where
  "buf_put avail data b = (case buf_append avail data b of Inl e \<Rightarrow> Inl e | Inr (_, b') \<Rightarrow> Inr b')"

definition buf_get :: "usize \<Rightarrow> buffer \<Rightarrow> cxx_error + block \<times> buffer" where
  "buf_get n b = (case buf_fetch n b of Inl e \<Rightarrow> Inl e | Inr ((_, out), b') \<Rightarrow> Inr (out, b'))"

interpretation bufq: byte_fifo buf_inv buf_content "\<lambda>b. unat (write_index b)" 9223372036854775808
    "buf_put avail" buf_get for avail
proof unfold_locales
  fix s d s'
  assume inv: "buf_inv s" and lim: "unat (write_index s) + length d < 9223372036854775808"
    and "buf_put avail d s = Inr s'"
  then obtain n where ap: "buf_append avail d s = Inr (n, s')"
    by (auto simp: buf_put_def split: sum.splits)
  from buf_append_spec [OF inv lim ap] buf_append_write_index [OF inv ap lim]
  show "buf_inv s' \<and> buf_content s' = buf_content s @ map Some d \<and>
      unat (write_index s') \<le> unat (write_index s) + length d" by simp
next
  fix s d e
  assume inv: "buf_inv s" and lim: "unat (write_index s) + length d < 9223372036854775808"
    and "buf_put avail d s = Inl e"
  then have "buf_append avail d s = Inl e" by (auto simp: buf_put_def split: sum.splits)
  with buf_append_error [OF inv lim] show "e = BadAlloc" by blast
next
  fix s n
  assume "buf_inv s"
  from buf_fetch_spec [OF this, of n]
  show "\<exists>s'. buf_get n s = Inr (take (unat n) (buf_content s), s') \<and> buf_inv s' \<and>
      buf_content s' = drop (unat n) (buf_content s) \<and> unat (write_index s') \<le> unat (write_index s)"
    by (auto simp: buf_get_def word_le_nat_alt)
qed

lemma buf_cloneFrom_spec:
  assumes inv: "buf_inv other" and cl: "buf_cloneFrom avail other b = Inr b'"
  shows "buf_inv b' \<and> buf_content b' = buf_content other \<and> buffer_size b' = buf_readableSize other"
proof (cases "buf_readableSize other > 0")
  case True
  let ?n = "buf_readableSize other"
  have rd: "read_block (buffer_ptr other) (read_index other) ?n = Inr (buf_content other)"
    using read_block_all [OF inv] by (simp add: buf_readableSize_def)
  from True cl obtain p where
    wr: "write_block (Some (replicate (unat ?n) None)) 0 (buf_content other) = Inr p"
    and b': "b' = b\<lparr>buffer_ptr := p, buffer_size := ?n, write_index := ?n, read_index := 0\<rparr>"
    by (auto simp: buf_cloneFrom_def new_block_def rd split: sum.splits if_splits)
  from wr obtain m where p: "p = Some m" and mw: "mem_write (replicate (unat ?n) None) 0 (buf_content other) = Some m"
    by (auto simp: write_block_Some)
  show ?thesis
    using b' p mem_write_length [OF mw] mem_slice_write_exact [OF mw] length_buf_content [OF inv]
    by (simp add: buf_inv_def buf_content_def)
next
  case False
  then have "buf_content other = []" using length_buf_content [OF inv] by (simp add: word_greater_zero_iff)
  with False cl show ?thesis
    by (auto simp: buf_cloneFrom_def buf_inv_def buf_content_def word_greater_zero_iff)
qed

section \<open>Properties of the buffer\<close>

text \<open>(C3) Over any sequence of \<open>Buffer::append\<close> and \<open>Buffer::fetch\<close> on a new buffer, the fetched bytes
  followed by the readable bytes that are left are exactly the appended bytes, in order, as long
  as fewer than 2^63 bytes are appended.\<close>

theorem buffer_fifo:
  assumes "length (fifo_input ops) < 9223372036854775808"
    and "fifo_run (buf_put avail) buf_get ops buf_init = Inr (out, b)"
  shows "out @ buf_content b = map Some (fifo_input ops) \<and> buf_inv b"
proof -
  have "unat (write_index buf_init) + length (fifo_input ops) < 9223372036854775808"
    using assms(1) by (simp add: buf_init_def)
  from bufq.run_in_order [OF buf_inv_init this assms(2)] show ?thesis by simp
qed

theorem buffer_fifo_witness:
  "\<exists>b. fifo_run (buf_put (\<lambda>_. True)) buf_get [Put [1, 2], Take 1, Put [3]] buf_init = Inr ([Some 1], b) \<and>
       [Some 1] @ buf_content b = [Some 1, Some 2, Some 3]"
proof -
  have r: "fifo_run (buf_put (\<lambda>_. True)) buf_get [Put [1, 2], Take 1, Put [3]] buf_init =
      Inr ([Some 1], \<lparr>buffer_ptr = Some [Some 1, Some 2, Some 3, None], buffer_size = 4,
                      read_index = 1, write_index = 3\<rparr>)"
    by code_simp
  from buffer_fifo [OF _ r] r show ?thesis by auto
qed

text \<open>\<open>Buffer::ensureWritableSize\<close> reports success only with the room it was asked for, and
  keeps the readable bytes, whether it moves them or allocates a larger block; the one failure
  is the allocator's.\<close>

theorem buffer_ensure_writable:
  assumes "buf_inv b" and "unat (write_index b) + unat n < 9223372036854775808"
  shows "(case buf_ensureWritableSize avail n b of
            Inl e \<Rightarrow> e = BadAlloc
          | Inr (ok, b') \<Rightarrow> ok \<and> buf_inv b' \<and> buf_content b' = buf_content b \<and>
                            n \<le> buf_writableSize b')"
proof (cases "buf_ensureWritableSize avail n b")
  case (Inl e)
  with ensureWritableSize_error [OF assms] show ?thesis by simp
next
  case (Inr v)
  then obtain ok b' where v: "v = (ok, b')" by (cases v) auto
  with Inr ensureWritableSize_spec [OF assms, of avail ok b'] show ?thesis
    by (simp add: word_le_nat_alt)
qed

theorem buffer_ensure_writable_witness:
  "buf_inv buf_init \<and>
   (case buf_ensureWritableSize (\<lambda>_. True) 10 buf_init of
      Inl e \<Rightarrow> e = BadAlloc
    | Inr (ok, b') \<Rightarrow> ok \<and> buf_inv b' \<and> buf_content b' = buf_content buf_init \<and> 10 \<le> buf_writableSize b')"
proof -
  have "unat (write_index buf_init) + unat (10 :: usize) < 9223372036854775808"
    by (simp add: buf_init_def)
  from buffer_ensure_writable [OF buf_inv_init this, of "\<lambda>_. True"] show ?thesis by simp
qed

text \<open>\<open>Buffer::shrink\<close> and copying keep exactly the readable bytes and allocate exactly their
  number.\<close>

theorem buffer_shrink:
  assumes "buf_inv b" and "buf_shrink avail b = Inr b'"
  shows "buf_inv b' \<and> buf_content b' = buf_content b \<and>
         unat (buffer_size b') = length (buf_content b)"
  using assms buf_cloneFrom_spec [OF assms(1), of avail buf_init b'] length_buf_content [OF assms(1)]
  by (auto simp: buf_shrink_def buf_copy_def buf_swap_def split: sum.splits)

theorem buffer_shrink_witness:
  "\<exists>b'. buf_shrink (\<lambda>_. True) buf_init = Inr b' \<and> buf_content b' = []"
proof -
  obtain b' where "buf_shrink (\<lambda>_. True) buf_init = Inr b'"
    by (simp add: buf_shrink_def buf_copy_def buf_cloneFrom_def buf_readableSize_def buf_init_def)
  with buffer_shrink [OF buf_inv_init this] show ?thesis by auto
qed

text \<open>The doubling in \<open>Buffer::ensureWritableSize\<close> is done in \<open>size_t\<close> without a check: a
  request of 2^63 bytes on an empty buffer reports success with no writable byte at all.\<close>

theorem buffer_ensure_overflow:
  "\<exists>b'. buf_ensureWritableSize (\<lambda>_. True) 9223372036854775808 buf_init = Inr (True, b') \<and>
        buf_writableSize b' = 0"
  by (simp add: buf_ensureWritableSize_def buf_init_def buf_writableSize_def new_block_def Let_def
      push_bit_eq_mult)

end
