(* ===== verification/Cabinet.thy ===== *)
theory Cabinet
  imports Tbox_Prelude
begin

text \<open>
  The object cabinet of \<open>modules/base/cabinet.hpp\<close> and its tokens
  (\<open>modules/base/cabinet_token.h\<close>): a vector of cells with an intrusive free list. A
  token is a position and the id the cell had when the token was handed out.
  The model keeps the union of a cell as a datatype, so reading the wrong member is an
  error value and not a silent default.
\<close>

section \<open>Tokens\<close>

record token =
  tok_id :: usize
  tok_pos :: usize

abbreviation mk_token :: "usize \<Rightarrow> usize \<Rightarrow> token" where
  "mk_token i p \<equiv> \<lparr>tok_id = i, tok_pos = p\<rparr>"

definition null_token :: token where
  "null_token = mk_token 0 0"

definition token_reset :: "token \<Rightarrow> token" where
  "token_reset t = t\<lparr>tok_id := 0, tok_pos := 0\<rparr>"

definition token_isNull :: "token \<Rightarrow> bool" where
  "token_isNull t \<longleftrightarrow> tok_id t = 0"

definition token_equal :: "token \<Rightarrow> token \<Rightarrow> bool" where
  "token_equal a b \<longleftrightarrow> tok_id a = tok_id b \<and> tok_pos a = tok_pos b"

definition token_less :: "token \<Rightarrow> token \<Rightarrow> bool" where
  "token_less a b \<longleftrightarrow> (if tok_id a \<noteq> tok_id b then tok_id a < tok_id b else tok_pos a < tok_pos b)"

definition token_hash :: "token \<Rightarrow> usize" where
  "token_hash t = push_bit 8 (tok_id t) OR (tok_pos t AND 0xff)"

section \<open>The cabinet\<close>

datatype 'a cell_union = ObjPtr "'a ptr" | NextFree usize

record 'a cell =
  cell_id :: usize
  cell_slot :: "'a cell_union"

record 'a cabinet =
  last_id :: usize
  cells :: "'a cell list"
  first_free :: usize
  cab_count :: usize

text \<open>\<open>std::numeric_limits<Pos>::max()\<close>, the end of the free list.\<close>

definition pos_max :: usize where
  "pos_max = - 1"

text \<open>\<open>std::vector<Cell>::max_size()\<close> on the target: the largest pointer difference
  divided by the 16 bytes of a cell. \<open>push_back\<close> throws beyond it.\<close>

definition vector_max_size :: nat where
  "vector_max_size = 576460752303423487"

definition empty_cell :: "'a cell" where
  "empty_cell = \<lparr>cell_id = 0, cell_slot = ObjPtr None\<rparr>"

definition cab_empty :: "'a cabinet" where
  "cab_empty = \<lparr>last_id = 0, cells = [], first_free = pos_max, cab_count = 0\<rparr>"

definition cab_allocId :: "'a cabinet \<Rightarrow> usize \<times> 'a cabinet" where
  "cab_allocId c =
     (let base = (if last_id c = - 1 then 0 else last_id c); i = base + 1
      in (i, c\<lparr>last_id := i\<rparr>))"

definition cab_allocPos :: "'a cabinet \<Rightarrow> cxx_error + usize \<times> 'a cabinet" where
  "cab_allocPos c =
     (if first_free c \<noteq> pos_max then
        (if unat (first_free c) < length (cells c) then
           (case cell_slot (cells c ! unat (first_free c)) of
              NextFree n \<Rightarrow> Inr (first_free c, c\<lparr>first_free := n\<rparr>)
            | ObjPtr _ \<Rightarrow> Inl BadUnionMember)
         else Inl OutOfRange)
      else if length (cells c) < vector_max_size then
        (let cs = cells c @ [empty_cell] in Inr (of_nat (length cs - 1), c\<lparr>cells := cs\<rparr>))
      else Inl LengthError)"

definition cab_alloc :: "'a ptr \<Rightarrow> 'a cabinet \<Rightarrow> cxx_error + token \<times> 'a cabinet" where
  "cab_alloc obj c =
     (let (i, c1) = cab_allocId c
      in case cab_allocPos c1 of
           Inl e \<Rightarrow> Inl e
         | Inr (p, c2) \<Rightarrow>
             (if unat p < length (cells c2) then
                Inr (mk_token i p,
                     c2\<lparr>cells := (cells c2)[unat p := \<lparr>cell_id = i, cell_slot = ObjPtr obj\<rparr>],
                        cab_count := cab_count c2 + 1\<rparr>)
              else Inl OutOfRange))"

definition cab_update :: "token \<Rightarrow> 'a ptr \<Rightarrow> 'a cabinet \<Rightarrow> bool \<times> 'a cabinet" where
  "cab_update t obj c =
     (if token_isNull t \<or> \<not> unat (tok_pos t) < length (cells c) then (False, c)
      else if cell_id (cells c ! unat (tok_pos t)) = tok_id t then
        (True, c\<lparr>cells := (cells c)[unat (tok_pos t) :=
                   (cells c ! unat (tok_pos t))\<lparr>cell_slot := ObjPtr obj\<rparr>]\<rparr>)
      else (False, c))"

definition cab_free :: "token \<Rightarrow> 'a cabinet \<Rightarrow> cxx_error + 'a ptr \<times> 'a cabinet" where
  "cab_free t c =
     (if token_isNull t \<or> \<not> unat (tok_pos t) < length (cells c) then Inr (None, c)
      else if cell_id (cells c ! unat (tok_pos t)) = tok_id t then
        (case cell_slot (cells c ! unat (tok_pos t)) of
           NextFree _ \<Rightarrow> Inl BadUnionMember
         | ObjPtr obj \<Rightarrow>
             Inr (obj, c\<lparr>cells := (cells c)[unat (tok_pos t) :=
                           \<lparr>cell_id = 0, cell_slot = NextFree (first_free c)\<rparr>],
                         first_free := tok_pos t,
                         cab_count := cab_count c - 1\<rparr>))
      else Inr (None, c))"

definition cab_clear :: "'a cabinet \<Rightarrow> 'a cabinet" where
  "cab_clear c = c\<lparr>last_id := 0, cells := [], first_free := pos_max, cab_count := 0\<rparr>"

definition cab_at :: "token \<Rightarrow> 'a cabinet \<Rightarrow> cxx_error + 'a ptr" where
  "cab_at t c =
     (if token_isNull t \<or> \<not> unat (tok_pos t) < length (cells c) then Inr None
      else if cell_id (cells c ! unat (tok_pos t)) = tok_id t then
        (case cell_slot (cells c ! unat (tok_pos t)) of
           NextFree _ \<Rightarrow> Inl BadUnionMember
         | ObjPtr obj \<Rightarrow> Inr obj)
      else Inr None)"

definition cab_size :: "'a cabinet \<Rightarrow> usize" where
  "cab_size c = cab_count c"

definition cab_isEmpty :: "'a cabinet \<Rightarrow> bool" where
  "cab_isEmpty c \<longleftrightarrow> cab_size c = 0"

text \<open>\<open>foreach\<close> calls its argument on the object pointer of every used cell, in order;
  the model returns that sequence of arguments.\<close>

fun cab_foreach_cells :: "'a cell list \<Rightarrow> cxx_error + 'a ptr list" where
  "cab_foreach_cells [] = Inr []"
| "cab_foreach_cells (x # xs) =
     (if cell_id x \<noteq> 0 then
        (case cell_slot x of
           NextFree _ \<Rightarrow> Inl BadUnionMember
         | ObjPtr obj \<Rightarrow>
             (case cab_foreach_cells xs of Inl e \<Rightarrow> Inl e | Inr ys \<Rightarrow> Inr (obj # ys)))
      else cab_foreach_cells xs)"

definition cab_foreach :: "'a cabinet \<Rightarrow> cxx_error + 'a ptr list" where
  "cab_foreach c = cab_foreach_cells (cells c)"

section \<open>The invariant\<close>

text \<open>\<open>free_chain cs p fs\<close>: following \<open>next_free\<close> from position \<open>p\<close> visits the unused
  cells \<open>fs\<close> and ends at \<open>pos_max\<close>.\<close>

primrec free_chain :: "'a cell list \<Rightarrow> usize \<Rightarrow> nat list \<Rightarrow> bool" where
  "free_chain cs p [] \<longleftrightarrow> p = pos_max"
| "free_chain cs p (x # xs) \<longleftrightarrow>
     p \<noteq> pos_max \<and> unat p = x \<and> x < length cs \<and> cell_id (cs ! x) = 0 \<and>
     (case cell_slot (cs ! x) of NextFree q \<Rightarrow> free_chain cs q xs | ObjPtr _ \<Rightarrow> False)"

definition used :: "'a cell \<Rightarrow> bool" where
  "used x \<longleftrightarrow> cell_id x \<noteq> 0"

definition cell_ok :: "'a cell \<Rightarrow> bool" where
  "cell_ok x \<longleftrightarrow> (used x \<longrightarrow> (\<exists>obj. cell_slot x = ObjPtr obj))"

definition cab_inv_via :: "nat list \<Rightarrow> 'a cabinet \<Rightarrow> bool" where
  "cab_inv_via fs c \<longleftrightarrow>
     free_chain (cells c) (first_free c) fs \<and> distinct fs \<and>
     (\<forall>p < length (cells c). \<not> used (cells c ! p) \<longrightarrow> p \<in> set fs) \<and>
     list_all cell_ok (cells c) \<and>
     cab_count c = of_nat (length (filter used (cells c))) \<and>
     length (cells c) \<le> vector_max_size"

definition cab_inv :: "'a cabinet \<Rightarrow> bool" where
  "cab_inv c \<longleftrightarrow> (\<exists>fs. cab_inv_via fs c)"

text \<open>The abstract view: which token finds which object.\<close>

definition cab_lookup :: "'a cabinet \<Rightarrow> token \<Rightarrow> 'a ptr option" where
  "cab_lookup c t =
     (if tok_id t \<noteq> 0 \<and> unat (tok_pos t) < length (cells c) \<and>
         cell_id (cells c ! unat (tok_pos t)) = tok_id t
      then (case cell_slot (cells c ! unat (tok_pos t)) of ObjPtr obj \<Rightarrow> Some obj | NextFree _ \<Rightarrow> None)
      else None)"

lemma free_chain_unused: "free_chain cs p fs \<Longrightarrow> x \<in> set fs \<Longrightarrow> x < length cs \<and> \<not> used (cs ! x)"
  by (induction fs arbitrary: p) (auto simp: used_def split: cell_union.splits)

lemma free_chain_update [simp]: "x \<notin> set fs \<Longrightarrow> free_chain (cs[x := v]) p fs = free_chain cs p fs"
  by (induction fs arbitrary: p) (auto split: cell_union.splits)

lemma free_chain_append: "free_chain cs p fs \<Longrightarrow> free_chain (cs @ ys) p fs"
  by (induction fs arbitrary: p) (auto simp: nth_append split: cell_union.splits)

lemma vector_max_lt: "n \<le> vector_max_size \<Longrightarrow> n < 18446744073709551615"
  by (simp add: vector_max_size_def)

lemma cab_invE:
  assumes "cab_inv c"
  obtains fs where "cab_inv_via fs c"
  using assms by (auto simp: cab_inv_def)

lemma cab_inv_empty: "cab_inv cab_empty"
  unfolding cab_inv_def by (rule exI [of _ "[]"]) (simp add: cab_inv_via_def cab_empty_def)

lemma cab_inv_clear: "cab_inv (cab_clear c)"
  unfolding cab_inv_def by (rule exI [of _ "[]"]) (simp add: cab_inv_via_def cab_clear_def)

lemma cab_lookup_clear: "cab_lookup (cab_clear c) = Map.empty"
  by (auto simp: cab_lookup_def cab_clear_def)

text \<open>The id a call of \<open>allocId\<close> hands out is never 0, the id of an unused cell.\<close>

lemma cab_allocId_nonzero: "cab_allocId c = (i, c') \<Longrightarrow> i \<noteq> 0"
  by (auto simp: cab_allocId_def Let_def word_succ_nonzero split: if_splits)

lemma cab_allocId_frame: "cab_allocId c = (i, c') \<Longrightarrow> c' = c\<lparr>last_id := i\<rparr>"
  by (auto simp: cab_allocId_def Let_def)

lemma cab_inv_via_last_id [simp]: "cab_inv_via fs (c\<lparr>last_id := i\<rparr>) = cab_inv_via fs c"
  by (simp add: cab_inv_via_def)

text \<open>What \<open>allocPos\<close> returns: the head of the free list, or a new cell at the end.\<close>

lemma cab_allocPos_reuse:
  assumes "cab_inv_via (x # fs) c"
  obtains q where "cab_allocPos c = Inr (of_nat x, c\<lparr>first_free := q\<rparr>)"
    and "free_chain (cells c) q fs" and "x < length (cells c)" and "\<not> used (cells c ! x)"
    and "unat (of_nat x :: usize) = x"
proof -
  from assms have "x < length (cells c)" and "length (cells c) \<le> vector_max_size"
    by (auto simp: cab_inv_via_def)
  then have x: "unat (of_nat x :: usize) = x"
    by (simp add: vector_max_size_def)
  with assms that show thesis
    by (auto simp: cab_inv_via_def cab_allocPos_def used_def split: cell_union.splits)
qed

lemma cab_allocPos_fresh:
  assumes "cab_inv_via [] c" and "length (cells c) < vector_max_size"
  shows "cab_allocPos c = Inr (of_nat (length (cells c)), c\<lparr>cells := cells c @ [empty_cell]\<rparr>)"
  using assms by (simp add: cab_allocPos_def cab_inv_via_def Let_def)

lemma cab_alloc_reuse:
  assumes inv: "cab_inv_via (x # fs) c" and id: "cab_allocId c = (i, c1)"
  obtains q where
    "cab_alloc obj c = Inr (mk_token i (of_nat x),
       c\<lparr>last_id := i, first_free := q,
         cells := (cells c)[x := \<lparr>cell_id = i, cell_slot = ObjPtr obj\<rparr>],
         cab_count := cab_count c + 1\<rparr>)"
    and "free_chain (cells c) q fs" and "x < length (cells c)" and "\<not> used (cells c ! x)"
    and "unat (of_nat x :: usize) = x"
proof -
  have "cab_inv_via (x # fs) (c\<lparr>last_id := i\<rparr>)" using inv by simp
  then obtain q where "cab_allocPos (c\<lparr>last_id := i\<rparr>) =
      Inr (of_nat x, c\<lparr>last_id := i, first_free := q\<rparr>)"
    and "free_chain (cells c) q fs" and "x < length (cells c)" and "\<not> used (cells c ! x)"
    and "unat (of_nat x :: usize) = x"
    by (rule cab_allocPos_reuse) auto
  with cab_allocId_frame [OF id] id that show thesis
    by (simp add: cab_alloc_def)
qed

lemma cab_alloc_fresh:
  assumes inv: "cab_inv_via [] c" and len: "length (cells c) < vector_max_size"
    and id: "cab_allocId c = (i, c1)"
  shows "cab_alloc obj c = Inr (mk_token i (of_nat (length (cells c))),
       c\<lparr>last_id := i, cells := cells c @ [\<lparr>cell_id = i, cell_slot = ObjPtr obj\<rparr>],
         cab_count := cab_count c + 1\<rparr>)"
proof -
  have "cab_inv_via [] (c\<lparr>last_id := i\<rparr>)" using inv by simp
  from cab_allocPos_fresh [OF this] len have
    "cab_allocPos (c\<lparr>last_id := i\<rparr>) =
       Inr (of_nat (length (cells c)), c\<lparr>last_id := i, cells := cells c @ [empty_cell]\<rparr>)"
    by simp
  moreover have "unat (of_nat (length (cells c)) :: usize) = length (cells c)"
    using len by (simp add: vector_max_size_def)
  ultimately show ?thesis
    using cab_allocId_frame [OF id] id by (simp add: cab_alloc_def)
qed

lemma cab_alloc_overflow:
  assumes inv: "cab_inv_via [] c" and len: "\<not> length (cells c) < vector_max_size"
  shows "cab_alloc obj c = Inl LengthError"
  using assms cab_allocId_frame [of c] 
  by (cases "cab_allocId c") (auto simp: cab_alloc_def cab_allocPos_def cab_inv_via_def)

section \<open>Every operation keeps the invariant and acts as a map on tokens\<close>

lemma cell_ok_used [simp]: "cell_ok \<lparr>cell_id = i, cell_slot = ObjPtr obj\<rparr>"
  by (simp add: cell_ok_def)

lemma cell_ok_unused [simp]: "cell_ok \<lparr>cell_id = 0, cell_slot = s\<rparr>"
  by (simp add: cell_ok_def used_def)

lemma list_all_update: "list_all P xs \<Longrightarrow> P v \<Longrightarrow> list_all P (xs[i := v])"
  by (auto simp: list_all_iff dest: set_update_subset_insert [THEN subsetD])

lemma cab_inv_via_cell_ok: "cab_inv_via fs c \<Longrightarrow> p < length (cells c) \<Longrightarrow> cell_ok (cells c ! p)"
  by (simp add: cab_inv_via_def list_all_length)

lemma cab_inv_via_alloc_reuse:
  assumes "cab_inv_via (x # fs) c" and "free_chain (cells c) q fs" and "\<not> used (cells c ! x)"
    and "x < length (cells c)" and "i \<noteq> 0"
  shows "cab_inv_via fs (c\<lparr>last_id := i, first_free := q,
           cells := (cells c)[x := \<lparr>cell_id = i, cell_slot = ObjPtr obj\<rparr>],
           cab_count := cab_count c + 1\<rparr>)"
  using assms length_filter_update [of x "cells c" used "\<lparr>cell_id = i, cell_slot = ObjPtr obj\<rparr>"]
  by (auto simp: cab_inv_via_def list_all_update nth_list_update used_def split: if_splits)

lemma cab_inv_via_alloc_fresh:
  assumes "cab_inv_via [] c" and "length (cells c) < vector_max_size" and "i \<noteq> 0"
  shows "cab_inv_via [] (c\<lparr>last_id := i, cells := cells c @ [\<lparr>cell_id = i, cell_slot = ObjPtr obj\<rparr>],
           cab_count := cab_count c + 1\<rparr>)"
  using assms by (auto simp: cab_inv_via_def nth_append used_def less_Suc_eq)

lemma cab_lookup_cell_update:
  assumes "x < length (cells c)" and "\<not> used (cells c ! x)" and "i \<noteq> 0"
    and "unat (of_nat x :: usize) = x"
  shows "cab_lookup (c\<lparr>last_id := j, first_free := q,
           cells := (cells c)[x := \<lparr>cell_id = i, cell_slot = ObjPtr obj\<rparr>], cab_count := n\<rparr>) =
         (cab_lookup c)(mk_token i (of_nat x) \<mapsto> obj)"
  using assms
  by (intro ext) (auto simp: cab_lookup_def used_def nth_list_update split: if_splits)

lemma mk_token_eqI: "i = tok_id t \<Longrightarrow> unat (tok_pos t) = n \<Longrightarrow> t = mk_token i (of_nat n)"
  by (cases t) auto

lemma token_eqI:
  fixes t u :: token
  shows "tok_id t = tok_id u \<Longrightarrow> unat (tok_pos u) = unat (tok_pos t) \<Longrightarrow> t = u"
  by (cases t; cases u) (auto dest: word_unat_eq_iff [THEN iffD2])

lemma cab_lookup_cell_append:
  assumes "unat (of_nat (length (cells c)) :: usize) = length (cells c)" and "i \<noteq> 0"
  shows "cab_lookup (c\<lparr>last_id := j, cells := cells c @ [\<lparr>cell_id = i, cell_slot = ObjPtr obj\<rparr>],
           cab_count := n\<rparr>) = (cab_lookup c)(mk_token i (of_nat (length (cells c))) \<mapsto> obj)"
  using assms
  by (intro ext)
    (auto simp: cab_lookup_def nth_append less_Suc_eq intro: mk_token_eqI split: if_splits)

lemma cab_alloc_spec:
  assumes "cab_inv c" and "cab_alloc obj c = Inr (t, c')"
  shows "cab_inv c' \<and> \<not> token_isNull t \<and> cab_lookup c t = None \<and>
         cab_lookup c' = (cab_lookup c)(t \<mapsto> obj)"
proof -
  obtain fs where inv: "cab_inv_via fs c" using assms(1) by (rule cab_invE)
  obtain i c1 where id: "cab_allocId c = (i, c1)" by fastforce
  note i = cab_allocId_nonzero [OF id]
  show ?thesis
  proof (cases fs)
    case (Cons x xs)
    with inv have inv': "cab_inv_via (x # xs) c" by simp
    from this id show ?thesis
    proof (rule cab_alloc_reuse [where obj = obj])
      fix q
      assume al: "cab_alloc obj c = Inr (mk_token i (of_nat x),
           c\<lparr>last_id := i, first_free := q,
             cells := (cells c)[x := \<lparr>cell_id = i, cell_slot = ObjPtr obj\<rparr>],
             cab_count := cab_count c + 1\<rparr>)"
        and q: "free_chain (cells c) q xs" and x: "x < length (cells c)" "\<not> used (cells c ! x)"
        and ux: "unat (of_nat x :: usize) = x"
      from cab_inv_via_alloc_reuse [OF inv' q x(2,1) i] al assms(2) have "cab_inv c'"
        by (auto simp: cab_inv_def)
      moreover have "cab_lookup c (mk_token i (of_nat x)) = None"
        using x i ux by (simp add: cab_lookup_def used_def)
      ultimately show ?thesis
        using al assms(2) cab_lookup_cell_update [OF x i ux] i by (auto simp: token_isNull_def)
    qed
  next
    case Nil
    with inv have inv': "cab_inv_via [] c" by simp
    show ?thesis
    proof (cases "length (cells c) < vector_max_size")
      case True
      then have ul: "unat (of_nat (length (cells c)) :: usize) = length (cells c)"
        by (simp add: vector_max_size_def)
      note al = cab_alloc_fresh [OF inv' True id, where obj = obj]
      from cab_inv_via_alloc_fresh [OF inv' True i] al assms(2) have "cab_inv c'"
        by (auto simp: cab_inv_def)
      moreover have "cab_lookup c (mk_token i (of_nat (length (cells c)))) = None"
        using ul by (simp add: cab_lookup_def)
      ultimately show ?thesis
        using al assms(2) cab_lookup_cell_append [OF ul i] i by (auto simp: token_isNull_def)
    next
      case False
      from cab_alloc_overflow [OF inv' this] assms(2) show ?thesis by simp
    qed
  qed
qed

lemma cab_alloc_error:
  assumes "cab_inv c"
  shows "cab_alloc obj c = Inl e \<longleftrightarrow>
           e = LengthError \<and> first_free c = pos_max \<and> length (cells c) = vector_max_size"
proof -
  obtain fs where inv: "cab_inv_via fs c" using assms by (rule cab_invE)
  obtain i c1 where id: "cab_allocId c = (i, c1)" by fastforce
  show ?thesis
  proof (cases fs)
    case (Cons x xs)
    with inv have inv': "cab_inv_via (x # xs) c" by simp
    then have "first_free c \<noteq> pos_max" by (simp add: cab_inv_via_def)
    moreover from inv' id obtain v where "cab_alloc obj c = Inr v"
      by (rule cab_alloc_reuse [where obj = obj]) auto
    ultimately show ?thesis by simp
  next
    case Nil
    with inv have inv': "cab_inv_via [] c" by simp
    then have "first_free c = pos_max" and "length (cells c) \<le> vector_max_size"
      by (simp_all add: cab_inv_via_def)
    with inv' id cab_alloc_fresh [OF inv' _ id, of obj] cab_alloc_overflow [OF inv', of obj]
    show ?thesis by (cases "length (cells c) < vector_max_size") auto
  qed
qed

lemma cab_at_lookup:
  assumes "cab_inv c"
  shows "cab_at t c = Inr (case cab_lookup c t of Some obj \<Rightarrow> obj | None \<Rightarrow> None)"
proof -
  obtain fs where inv: "cab_inv_via fs c" using assms by (rule cab_invE)
  show ?thesis
    using cab_inv_via_cell_ok [OF inv, of "unat (tok_pos t)"]
    by (auto simp: cab_at_def cab_lookup_def token_isNull_def cell_ok_def used_def)
qed

lemma cab_update_spec:
  assumes "cab_inv c"
  shows "\<exists>c'. cab_update t obj c = (cab_lookup c t \<noteq> None, c') \<and> cab_inv c' \<and>
           cab_lookup c' = (if cab_lookup c t \<noteq> None then (cab_lookup c)(t \<mapsto> obj) else cab_lookup c)"
proof (cases "cab_lookup c t")
  case None
  obtain fs where inv: "cab_inv_via fs c" using assms by (rule cab_invE)
  have "cab_update t obj c = (False, c)"
    using None cab_inv_via_cell_ok [OF inv, of "unat (tok_pos t)"]
    by (auto simp: cab_lookup_def cab_update_def token_isNull_def cell_ok_def used_def split: if_splits)
  with None assms show ?thesis by simp
next
  case (Some old)
  obtain fs where inv: "cab_inv_via fs c" using assms by (rule cab_invE)
  let ?p = "unat (tok_pos t)" and ?x = "cells c ! unat (tok_pos t)"
  from Some have t: "tok_id t \<noteq> 0" "?p < length (cells c)" "cell_id ?x = tok_id t"
    by (auto simp: cab_lookup_def split: if_splits)
  let ?v = "?x\<lparr>cell_slot := ObjPtr obj\<rparr>"
  let ?c = "c\<lparr>cells := (cells c)[?p := ?v]\<rparr>"
  have up: "cab_update t obj c = (True, ?c)"
    using t by (simp add: cab_update_def token_isNull_def)
  have nf: "?p \<notin> set fs"
    using inv t free_chain_unused [of "cells c" "first_free c" fs ?p]
    by (auto simp: cab_inv_via_def used_def)
  have "cab_inv_via fs ?c"
    using inv t nf length_filter_update [of ?p "cells c" used ?v]
    by (auto simp: cab_inv_via_def list_all_update cell_ok_def used_def nth_list_update split: if_splits)
  moreover have "cab_lookup ?c = (cab_lookup c)(t \<mapsto> obj)"
    using t by (intro ext) (auto simp: cab_lookup_def nth_list_update dest: token_eqI split: if_splits)
  ultimately show ?thesis using up Some by (auto simp: cab_inv_def)
qed

lemma cab_free_spec:
  assumes "cab_inv c"
  shows "\<exists>c'. cab_free t c = Inr (case cab_lookup c t of Some obj \<Rightarrow> obj | None \<Rightarrow> None, c') \<and>
           cab_inv c' \<and> cab_lookup c' = (cab_lookup c)(t := None)"
proof (cases "cab_lookup c t")
  case None
  obtain fs where inv: "cab_inv_via fs c" using assms by (rule cab_invE)
  have "cab_free t c = Inr (None, c)"
    using None cab_inv_via_cell_ok [OF inv, of "unat (tok_pos t)"]
    by (auto simp: cab_lookup_def cab_free_def token_isNull_def cell_ok_def used_def split: if_splits)
  with None assms show ?thesis by (auto simp: fun_eq_iff)
next
  case (Some obj)
  obtain fs where inv: "cab_inv_via fs c" using assms by (rule cab_invE)
  let ?p = "unat (tok_pos t)" and ?x = "cells c ! unat (tok_pos t)"
  from Some have t: "tok_id t \<noteq> 0" "?p < length (cells c)" "cell_id ?x = tok_id t"
    and o: "cell_slot ?x = ObjPtr obj"
    by (auto simp: cab_lookup_def split: if_splits cell_union.splits)
  let ?v = "\<lparr>cell_id = 0, cell_slot = NextFree (first_free c)\<rparr>"
  let ?c = "c\<lparr>cells := (cells c)[?p := ?v], first_free := tok_pos t, cab_count := cab_count c - 1\<rparr>"
  have fr: "cab_free t c = Inr (obj, ?c)"
    using t o by (simp add: cab_free_def token_isNull_def)
  have nf: "?p \<notin> set fs"
    using inv t free_chain_unused [of "cells c" "first_free c" fs ?p]
    by (auto simp: cab_inv_via_def used_def)
  have np: "tok_pos t \<noteq> pos_max"
    using inv t(2) unat_u64_max by (auto simp: cab_inv_via_def pos_max_def vector_max_size_def simp del: unat_u64_max)
  have cnt: "cab_count c - 1 = of_nat (length (filter used ((cells c)[?p := ?v])))"
    using inv t length_filter_update [of ?p "cells c" used ?v, symmetric]
    by (simp add: cab_inv_via_def used_def)
  have "cab_inv_via (?p # fs) ?c"
    using inv t nf np cnt
    by (auto simp: cab_inv_via_def list_all_update used_def nth_list_update split: if_splits)
  moreover have "cab_lookup ?c = (cab_lookup c)(t := None)"
    using t by (intro ext) (auto simp: cab_lookup_def nth_list_update dest: token_eqI split: if_splits)
  ultimately show ?thesis using fr Some by (auto simp: cab_inv_def)
qed

section \<open>The interface the other components rely on\<close>

text \<open>
  A token store promises four laws over an abstract lookup function. The event loop's timers,
  the timer pool, the request pool and the thread pool are clients of a cabinet and use it
  through these laws only.
\<close>

locale token_store =
  fixes inv :: "'s \<Rightarrow> bool"
    and look :: "'s \<Rightarrow> token \<Rightarrow> 'a ptr option"
    and alloc :: "'a ptr \<Rightarrow> 's \<Rightarrow> cxx_error + token \<times> 's"
    and release :: "token \<Rightarrow> 's \<Rightarrow> cxx_error + 'a ptr \<times> 's"
    and upd :: "token \<Rightarrow> 'a ptr \<Rightarrow> 's \<Rightarrow> bool \<times> 's"
    and get :: "token \<Rightarrow> 's \<Rightarrow> cxx_error + 'a ptr"
  assumes alloc_law: "inv s \<Longrightarrow> alloc p s = Inr (t, s') \<Longrightarrow>
      inv s' \<and> \<not> token_isNull t \<and> look s t = None \<and> look s' = (look s)(t \<mapsto> p)"
    and release_law: "inv s \<Longrightarrow> \<exists>s'. release t s =
      Inr (case look s t of Some p \<Rightarrow> p | None \<Rightarrow> None, s') \<and> inv s' \<and> look s' = (look s)(t := None)"
    and upd_law: "inv s \<Longrightarrow> \<exists>s'. upd t p s = (look s t \<noteq> None, s') \<and> inv s' \<and>
      look s' = (if look s t \<noteq> None then (look s)(t \<mapsto> p) else look s)"
    and get_law: "inv s \<Longrightarrow> get t s = Inr (case look s t of Some p \<Rightarrow> p | None \<Rightarrow> None)"
begin

lemma alloc_inv: "inv s \<Longrightarrow> alloc p s = Inr (t, s') \<Longrightarrow> inv s'"
  using alloc_law by blast

lemma release_Inr:
  assumes "inv s" and "release t s = Inr (r, s')"
  shows "r = (case look s t of Some p \<Rightarrow> p | None \<Rightarrow> None)" and "inv s'"
    and "look s' = (look s)(t := None)"
  using release_law [OF assms(1), of t] assms(2) by auto

lemma get_after_alloc:
  assumes "inv s" and "alloc p s = Inr (t, s')"
  shows "get t s' = Inr p"
  using alloc_law [OF assms] get_law [of s' t] by simp

lemma get_other_after_alloc:
  assumes "inv s" and "alloc p s = Inr (t, s')" and "look s u \<noteq> None"
  shows "u \<noteq> t" and "get u s' = get u s"
  using alloc_law [OF assms(1,2)] get_law [of s' u] get_law [OF assms(1), of u] assms(3) by auto

lemma release_after_alloc:
  assumes "inv s" and "alloc p s = Inr (t, s')"
  obtains s'' where "release t s' = Inr (p, s'')" and "inv s''" and "look s'' = look s"
proof -
  from alloc_law [OF assms] have s': "inv s'" "look s t = None" "look s' = (look s)(t \<mapsto> p)" by auto
  obtain s'' where "release t s' = Inr (p, s'')" "inv s''" "look s'' = (look s')(t := None)"
    using release_law [OF s'(1), of t] s'(3) by auto
  with s' that show thesis by (simp add: fun_upd_idem)
qed

lemma get_after_release:
  assumes "inv s" and "release t s = Inr (r, s')"
  shows "get t s' = Inr None" and "u \<noteq> t \<Longrightarrow> get u s' = get u s"
  using release_Inr [OF assms] get_law [OF assms(1)] get_law [of s'] by auto

lemma release_twice:
  assumes "inv s" and "release t s = Inr (r, s')"
  obtains s'' where "release t s' = Inr (None, s'')" and "look s'' = look s'"
proof -
  note r = release_Inr [OF assms]
  obtain s'' where "release t s' = Inr (case look s' t of Some p \<Rightarrow> p | None \<Rightarrow> None, s'')"
    "look s'' = (look s')(t := None)"
    using release_law [OF r(2), of t] by blast
  with r(3) that show thesis by (auto simp: fun_upd_idem)
qed

end

interpretation cab: token_store cab_inv cab_lookup cab_alloc cab_free cab_update cab_at
proof unfold_locales
  fix s :: "'a cabinet" and p t s'
  assume "cab_inv s" and "cab_alloc p s = Inr (t, s')"
  then show "cab_inv s' \<and> \<not> token_isNull t \<and> cab_lookup s t = None \<and>
      cab_lookup s' = (cab_lookup s)(t \<mapsto> p)" by (rule cab_alloc_spec)
next
  fix s :: "'a cabinet" and t
  assume "cab_inv s"
  then show "\<exists>s'. cab_free t s = Inr (case cab_lookup s t of Some p \<Rightarrow> p | None \<Rightarrow> None, s') \<and>
      cab_inv s' \<and> cab_lookup s' = (cab_lookup s)(t := None)" by (rule cab_free_spec)
next
  fix s :: "'a cabinet" and t p
  assume "cab_inv s"
  then show "\<exists>s'. cab_update t p s = (cab_lookup s t \<noteq> None, s') \<and> cab_inv s' \<and>
      cab_lookup s' = (if cab_lookup s t \<noteq> None then (cab_lookup s)(t \<mapsto> p) else cab_lookup s)"
    by (rule cab_update_spec)
next
  fix s :: "'a cabinet" and t
  assume "cab_inv s"
  then show "cab_at t s = Inr (case cab_lookup s t of Some p \<Rightarrow> p | None \<Rightarrow> None)"
    by (rule cab_at_lookup)
qed

section \<open>Runs of operations\<close>

datatype 'a cab_op = OpAlloc "'a ptr" | OpUpdate token "'a ptr" | OpFree token

fun cab_step :: "'a cab_op \<Rightarrow> 'a cabinet \<Rightarrow> cxx_error + 'a cabinet" where
  "cab_step (OpAlloc obj) c = (case cab_alloc obj c of Inl e \<Rightarrow> Inl e | Inr (_, c') \<Rightarrow> Inr c')"
| "cab_step (OpUpdate t obj) c = Inr (snd (cab_update t obj c))"
| "cab_step (OpFree t) c = (case cab_free t c of Inl e \<Rightarrow> Inl e | Inr (_, c') \<Rightarrow> Inr c')"

fun cab_run :: "'a cab_op list \<Rightarrow> 'a cabinet \<Rightarrow> cxx_error + 'a cabinet" where
  "cab_run [] c = Inr c"
| "cab_run (x # xs) c = (case cab_step x c of Inl e \<Rightarrow> Inl e | Inr c' \<Rightarrow> cab_run xs c')"

fun is_alloc :: "'a cab_op \<Rightarrow> bool" where
  "is_alloc (OpAlloc _) = True"
| "is_alloc _ = False"

text \<open>As long as the id counter does not wrap, every id in use is at most the counter.\<close>

definition ids_bounded :: "'a cabinet \<Rightarrow> bool" where
  "ids_bounded c \<longleftrightarrow> (\<forall>t. cab_lookup c t \<noteq> None \<longrightarrow> tok_id t \<le> last_id c)"

lemma cab_alloc_id:
  assumes "cab_alloc obj c = Inr (t, c')" and "last_id c \<noteq> - 1"
  shows "tok_id t = last_id c + 1 \<and> last_id c' = last_id c + 1"
proof -
  have "last_id (snd v) = last_id d" if "cab_allocPos d = Inr v" for d :: "'a cabinet" and v
    using that by (auto simp: cab_allocPos_def Let_def split: if_splits cell_union.splits)
  with assms show ?thesis
    by (fastforce simp: cab_alloc_def cab_allocId_def Let_def split: sum.splits prod.splits if_splits)
qed

lemma cab_free_last_id: "cab_free t c = Inr (r, c') \<Longrightarrow> last_id c' = last_id c"
  by (auto simp: cab_free_def split: if_splits cell_union.splits)

lemma cab_update_last_id: "last_id (snd (cab_update t obj c)) = last_id c"
  by (simp add: cab_update_def)

text \<open>One step keeps every token that is stale, as long as the counter does not wrap.\<close>

lemma cab_step_stale:
  assumes inv: "cab_inv c" and ids: "ids_bounded c" and st: "cab_step x c = Inr c'"
    and room: "is_alloc x \<Longrightarrow> last_id c \<noteq> - 1"
  shows "cab_inv c' \<and> ids_bounded c' \<and>
         unat (last_id c') = unat (last_id c) + (if is_alloc x then 1 else 0) \<and>
         (\<forall>t. tok_id t \<le> last_id c \<longrightarrow> cab_lookup c t = None \<longrightarrow> cab_lookup c' t = None)"
proof (cases x)
  case (OpAlloc obj)
  with st obtain t where al: "cab_alloc obj c = Inr (t, c')"
    by (auto split: sum.splits)
  from room OpAlloc have nm: "last_id c \<noteq> - 1" by simp
  note id = cab_alloc_id [OF al nm] and spec = cab_alloc_spec [OF inv al]
  have lt: "last_id c < last_id c + 1"
    using unat_Suc_le_max [OF nm] by (simp add: word_less_nat_alt)
  have "ids_bounded c'"
    using ids spec id lt by (fastforce simp: ids_bounded_def)
  moreover have "u \<noteq> t" if "tok_id u \<le> last_id c" for u
    using that id lt by auto
  ultimately show ?thesis
    using spec id OpAlloc unat_Suc_le_max [OF nm] by auto
next
  case (OpUpdate t obj)
  with st cab_update_spec [OF inv, of t obj] cab_update_last_id [of t obj c] ids show ?thesis
    by (auto simp: ids_bounded_def split: if_splits)
next
  case (OpFree t)
  with st obtain r where fr: "cab_free t c = Inr (r, c')"
    by (auto split: sum.splits)
  with OpFree cab.release_Inr [OF inv fr] cab_free_last_id [OF fr] ids show ?thesis
    by (auto simp: ids_bounded_def)
qed

lemma cab_run_stale:
  assumes "cab_inv c" and "ids_bounded c" and "cab_run xs c = Inr c'"
    and "unat (last_id c) + length (filter is_alloc xs) < 18446744073709551616"
    and "tok_id t \<le> last_id c" and "cab_lookup c t = None"
  shows "cab_inv c' \<and> cab_lookup c' t = None"
  using assms
proof (induction xs arbitrary: c)
  case Nil
  then show ?case by simp
next
  case (Cons x xs)
  then obtain c1 where st: "cab_step x c = Inr c1" and run: "cab_run xs c1 = Inr c'"
    by (auto split: sum.splits)
  have "last_id c \<noteq> - 1" if "is_alloc x"
    using that Cons.prems(4) by auto
  note s = cab_step_stale [OF Cons.prems(1,2) st this]
  have "unat (last_id c1) + length (filter is_alloc xs) < 18446744073709551616"
    using s Cons.prems(4) by (simp split: if_splits)
  moreover have "tok_id t \<le> last_id c1"
    using s Cons.prems(5) by (simp add: word_le_nat_alt split: if_splits)
  moreover have "cab_inv c1" and "ids_bounded c1" and "cab_lookup c1 t = None"
    using s Cons.prems(5,6) by simp_all
  ultimately show ?case using run by (intro Cons.IH)
qed

lemma ids_bounded_empty: "ids_bounded cab_empty"
  by (simp add: ids_bounded_def cab_lookup_def cab_empty_def)

lemma cab_step_inv: "cab_inv c \<Longrightarrow> cab_step x c = Inr c' \<Longrightarrow> cab_inv c'"
proof (cases x)
  case (OpUpdate t obj)
  assume "cab_inv c" and "cab_step x c = Inr c'"
  with OpUpdate cab_update_spec [of c t obj] show ?thesis by auto
qed (auto split: sum.splits dest: cab.alloc_inv cab.release_Inr(2))

lemma cab_run_inv: "cab_inv c \<Longrightarrow> cab_run xs c = Inr c' \<Longrightarrow> cab_inv c'"
proof (induction xs arbitrary: c)
  case (Cons x xs)
  then obtain c1 where st: "cab_step x c = Inr c1" and run: "cab_run xs c1 = Inr c'"
    by (auto split: sum.splits)
  from cab_step_inv [OF Cons.prems(1) st] run show ?case by (rule Cons.IH)
qed simp

lemma cab_step_error:
  assumes "cab_inv c" and "cab_step x c = Inl e"
  shows "e = LengthError"
proof (cases x)
  case (OpFree t)
  with cab_free_spec [OF assms(1), of t] assms(2) show ?thesis by auto
qed (use assms cab_alloc_error [OF assms(1)] in \<open>auto split: sum.splits\<close>)

lemma cab_run_append:
  "cab_run (xs @ ys) c = (case cab_run xs c of Inl e \<Rightarrow> Inl e | Inr c' \<Rightarrow> cab_run ys c')"
  by (induction xs arbitrary: c) (auto split: sum.splits)

lemma cab_run_ids:
  assumes "cab_inv c" and "ids_bounded c" and "cab_run xs c = Inr c'"
    and "unat (last_id c) + length (filter is_alloc xs) < 18446744073709551616"
  shows "ids_bounded c' \<and> unat (last_id c') = unat (last_id c) + length (filter is_alloc xs)"
  using assms
proof (induction xs arbitrary: c)
  case (Cons x xs)
  then obtain c1 where st: "cab_step x c = Inr c1" and run: "cab_run xs c1 = Inr c'"
    by (auto split: sum.splits)
  have "last_id c \<noteq> - 1" if "is_alloc x"
    using that Cons.prems(4) by auto
  note s = cab_step_stale [OF Cons.prems(1,2) st this]
  have "unat (last_id c1) + length (filter is_alloc xs) < 18446744073709551616"
    using s Cons.prems(4) by (simp split: if_splits)
  then have "ids_bounded c' \<and> unat (last_id c') = unat (last_id c1) + length (filter is_alloc xs)"
    using s run by (intro Cons.IH) simp_all
  then show ?case using s by simp
qed simp

text \<open>The number of used cells is the number of tokens that find an object.\<close>

definition cell_token :: "'a cabinet \<Rightarrow> nat \<Rightarrow> token" where
  "cell_token c p = mk_token (cell_id (cells c ! p)) (of_nat p)"

lemma dom_cab_lookup:
  assumes "cab_inv c"
  shows "dom (cab_lookup c) = cell_token c ` {p. p < length (cells c) \<and> used (cells c ! p)}"
proof -
  obtain fs where inv: "cab_inv_via fs c" using assms by (rule cab_invE)
  have "unat (of_nat p :: usize) = p" if "p < length (cells c)" for p
    using that inv by (simp add: cab_inv_via_def vector_max_size_def)
  with cab_inv_via_cell_ok [OF inv] show ?thesis
    by (fastforce simp: dom_def cab_lookup_def cell_token_def cell_ok_def used_def image_iff
        intro: mk_token_eqI split: if_splits)
qed

lemma card_dom_cab_lookup:
  assumes "cab_inv c"
  shows "card (dom (cab_lookup c)) = length (filter used (cells c))"
proof -
  obtain fs where inv: "cab_inv_via fs c" using assms by (rule cab_invE)
  have u: "unat (of_nat p :: usize) = p" if "p < length (cells c)" for p
    using that inv by (simp add: cab_inv_via_def vector_max_size_def)
  have "inj_on (cell_token c) {p. p < length (cells c) \<and> used (cells c ! p)}"
    by (rule inj_onI) (auto simp: cell_token_def dest: arg_cong [of _ _ unat] simp: u)
  then show ?thesis
    by (simp add: dom_cab_lookup [OF assms] card_image length_filter_conv_card)
qed

section \<open>Properties of the cabinet\<close>

text \<open>\<open>Cabinet::alloc\<close> hands out a token that found nothing before, that finds the stored
  object afterwards, and leaves what every other token finds unchanged.\<close>

theorem cabinet_alloc_at:
  assumes "cab_inv c" and "cab_alloc obj c = Inr (t, c')"
  shows "cab_at t c = Inr None \<and> cab_at t c' = Inr obj \<and>
         (\<forall>u. u \<noteq> t \<longrightarrow> cab_at u c' = cab_at u c) \<and> cab_inv c'"
proof -
  note s = cab_alloc_spec [OF assms]
  have "cab_at u c' = cab_at u c" if "u \<noteq> t" for u
    using that s cab.get_law [of c' u] cab.get_law [OF assms(1), of u] by simp
  with s cab.get_after_alloc [OF assms] cab.get_law [OF assms(1), of t] show ?thesis by auto
qed

theorem cabinet_alloc_at_witness:
  "\<exists>t c'. cab_alloc (Some (7::nat)) cab_empty = Inr (t, c') \<and> cab_at t c' = Inr (Some 7)"
proof -
  obtain t c' where al: "cab_alloc (Some (7::nat)) cab_empty = Inr (t, c')"
    by (simp add: cab_alloc_def cab_allocId_def cab_allocPos_def cab_empty_def vector_max_size_def)
  with cabinet_alloc_at [OF cab_inv_empty al] show ?thesis by blast
qed





text \<open>\<open>Cabinet::clear\<close> resets the id counter, so a token from before a \<open>clear\<close> can find an
  object stored after it, although the header says a token whose object was deleted is
  invalid.\<close>

theorem cabinet_clear_revives_token:
  "\<exists>t c1 c2. cab_alloc (Some a) cab_empty = Inr (t, c1) \<and>
     cab_at t (cab_clear c1) = Inr None \<and>
     cab_alloc (Some b) (cab_clear c1) = Inr (t, c2) \<and> cab_at t c2 = Inr (Some b)"
  by (simp add: cab_alloc_def cab_allocId_def cab_allocPos_def cab_empty_def cab_clear_def
      cab_at_def token_isNull_def vector_max_size_def)

end
