(* ===== verification/Object_Pool.thy ===== *)
theory Object_Pool
  imports Tbox_Prelude
begin

text \<open>
  The object pool of \<open>modules/base/object_pool.hpp\<close>: freed blocks are kept on an intrusive
  list, up to \<open>keep_number_\<close> of them, and handed out again before \<open>malloc\<close> is called. A block is
  the union of the link and the object's storage; the memory the pool got from \<open>malloc\<close> and has
  not given back is the map \<open>pool_mem\<close>. \<open>malloc\<close> answers from the memory in use, with null when
  it has none.
\<close>

section \<open>State and operations\<close>

type_synonym addr = nat

datatype 'a pblock = LinkBlk "addr ptr" | ObjBlk 'a

type_synonym 'a pmem = "addr \<Rightarrow> 'a pblock option"

record pool_stat =
  total_alloc_times :: usize
  total_free_times :: usize
  peak_alloc_number :: usize
  peak_free_number :: usize

record 'a pool =
  keep_number :: usize
  free_number :: usize
  free_header :: "addr ptr"
  stat :: pool_stat
  pool_mem :: "'a pmem"

definition pool_init :: "usize \<Rightarrow> 'a pool" where
  "pool_init num =
     \<lparr>keep_number = num, free_number = 0, free_header = None,
      stat = \<lparr>total_alloc_times = 0, total_free_times = 0, peak_alloc_number = 0, peak_free_number = 0\<rparr>,
      pool_mem = Map.empty\<rparr>"

definition pool_default :: "'a pool" where
  "pool_default = pool_init (- 1)"

text \<open>The constructor is run in place and the statistics are brought up to date.\<close>

definition count_alloc :: "pool_stat \<Rightarrow> pool_stat" where
  "count_alloc st =
     (let st1 = st\<lparr>total_alloc_times := total_alloc_times st + 1\<rparr>;
          curr_alloc_number = total_alloc_times st1 - total_free_times st1
      in if curr_alloc_number > peak_alloc_number st1
         then st1\<lparr>peak_alloc_number := curr_alloc_number\<rparr> else st1)"

definition pool_construct :: "addr \<Rightarrow> 'a \<Rightarrow> 'a pool \<Rightarrow> 'a pool" where
  "pool_construct a obj p = p\<lparr>pool_mem := (pool_mem p)(a \<mapsto> ObjBlk obj), stat := count_alloc (stat p)\<rparr>"

definition pool_alloc :: "('a pmem \<Rightarrow> addr ptr) \<Rightarrow> 'a \<Rightarrow> 'a pool \<Rightarrow> cxx_error + addr \<times> 'a pool" where
  "pool_alloc malloc obj p =
     (case free_header p of
        None \<Rightarrow>
          (case malloc (pool_mem p) of
             None \<Rightarrow> Inl AssertFail
           | Some a \<Rightarrow> Inr (a, pool_construct a obj p))
      | Some a \<Rightarrow>
          (case pool_mem p a of
             Some (LinkBlk nxt) \<Rightarrow>
               Inr (a, pool_construct a obj (p\<lparr>free_header := nxt, free_number := free_number p - 1\<rparr>))
           | Some (ObjBlk _) \<Rightarrow> Inl BadUnionMember
           | None \<Rightarrow> Inl UseAfterFree))"

definition pool_free :: "addr ptr \<Rightarrow> 'a pool \<Rightarrow> cxx_error + 'a pool" where
  "pool_free ptr p =
     (case ptr of
        None \<Rightarrow> Inl AssertFail
      | Some a \<Rightarrow>
          (case pool_mem p a of
             Some (ObjBlk _) \<Rightarrow>
               (let p1 =
                  (if free_number p < keep_number p then
                     (let p' = p\<lparr>pool_mem := (pool_mem p)(a \<mapsto> LinkBlk (free_header p)),
                                 free_header := Some a,
                                 free_number := free_number p + 1\<rparr>
                      in if free_number p' > peak_free_number (stat p')
                         then p'\<lparr>stat := (stat p')\<lparr>peak_free_number := free_number p'\<rparr>\<rparr> else p')
                   else p\<lparr>pool_mem := (pool_mem p)(a := None)\<rparr>)
                in Inr (p1\<lparr>stat := (stat p1)\<lparr>total_free_times := total_free_times (stat p1) + 1\<rparr>\<rparr>))
           | _ \<Rightarrow> Inl UseAfterFree))"

definition pool_getStat :: "'a pool \<Rightarrow> pool_stat" where
  "pool_getStat p = stat p"

text \<open>The destructor gives the listed blocks back; \<open>fuel\<close> bounds the rounds of its loop and
  \<open>None\<close> is a loop that has not ended.\<close>

fun pool_destroy :: "nat \<Rightarrow> 'a pool \<Rightarrow> (cxx_error + 'a pool) option" where
  "pool_destroy fuel p =
     (case free_header p of
        None \<Rightarrow> Some (Inr p)
      | Some a \<Rightarrow>
          (case fuel of
             0 \<Rightarrow> None
           | Suc f \<Rightarrow>
               (case pool_mem p a of
                  Some (LinkBlk nxt) \<Rightarrow>
                    pool_destroy f (p\<lparr>pool_mem := (pool_mem p)(a := None), free_header := nxt\<rparr>)
                | _ \<Rightarrow> Some (Inl UseAfterFree))))"

declare pool_destroy.simps [simp del]

text \<open>Reading and writing a field of an object through its pointer.\<close>

definition obj_read :: "'a pool \<Rightarrow> addr \<Rightarrow> cxx_error + 'a" where
  "obj_read p a = (case pool_mem p a of Some (ObjBlk obj) \<Rightarrow> Inr obj | _ \<Rightarrow> Inl UseAfterFree)"

definition obj_write :: "addr \<Rightarrow> 'a \<Rightarrow> 'a pool \<Rightarrow> 'a pool" where
  "obj_write a obj p = p\<lparr>pool_mem := (pool_mem p)(a \<mapsto> ObjBlk obj)\<rparr>"

section \<open>Invariant\<close>

text \<open>The objects that are alive.\<close>

definition pool_live :: "'a pool \<Rightarrow> addr \<Rightarrow> 'a option" where
  "pool_live p a = (case pool_mem p a of Some (ObjBlk obj) \<Rightarrow> Some obj | _ \<Rightarrow> None)"

fun link_chain :: "'a pmem \<Rightarrow> addr ptr \<Rightarrow> addr list \<Rightarrow> bool" where
  "link_chain m h [] \<longleftrightarrow> h = None"
| "link_chain m h (a # as) \<longleftrightarrow> h = Some a \<and> (\<exists>nxt. m a = Some (LinkBlk nxt) \<and> link_chain m nxt as)"

definition pool_inv_via :: "addr list \<Rightarrow> 'a pool \<Rightarrow> bool" where
  "pool_inv_via as p \<longleftrightarrow>
     link_chain (pool_mem p) (free_header p) as \<and> distinct as \<and>
     (\<forall>a nxt. pool_mem p a = Some (LinkBlk nxt) \<longrightarrow> a \<in> set as) \<and>
     length as = unat (free_number p) \<and> free_number p \<le> keep_number p \<and>
     finite (dom (pool_live p)) \<and>
     of_nat (card (dom (pool_live p))) = total_alloc_times (stat p) - total_free_times (stat p)"

definition pool_inv :: "'a pool \<Rightarrow> bool" where
  "pool_inv p \<longleftrightarrow> (\<exists>as. pool_inv_via as p)"

lemma link_chain_upd [simp]: "a \<notin> set as \<Longrightarrow> link_chain (m(a := b)) h as \<longleftrightarrow> link_chain m h as"
  by (induction as arbitrary: h) auto

lemma link_chain_head: "link_chain m (Some a) as \<Longrightarrow> \<exists>as' nxt. as = a # as' \<and> m a = Some (LinkBlk nxt) \<and> link_chain m nxt as'"
  by (cases as) auto

lemma link_chain_None [simp]: "link_chain m None as \<longleftrightarrow> as = []"
  by (cases as) auto

lemma link_chain_links: "link_chain m h as \<Longrightarrow> a \<in> set as \<Longrightarrow> \<exists>nxt. m a = Some (LinkBlk nxt)"
  by (induction as arbitrary: h) auto

lemma pool_live_upd [simp]:
  "pool_live (p\<lparr>pool_mem := (pool_mem p)(a \<mapsto> ObjBlk obj)\<rparr>) = (pool_live p)(a \<mapsto> obj)"
  "pool_live (p\<lparr>pool_mem := (pool_mem p)(a \<mapsto> LinkBlk nxt)\<rparr>) = (pool_live p)(a := None)"
  "pool_live (p\<lparr>pool_mem := (pool_mem p)(a := None)\<rparr>) = (pool_live p)(a := None)"
  by (auto simp: pool_live_def)

lemma pool_live_more [simp]:
  "pool_live (p\<lparr>stat := st\<rparr>) = pool_live p"
  "pool_live (p\<lparr>free_header := h\<rparr>) = pool_live p"
  "pool_live (p\<lparr>free_number := n\<rparr>) = pool_live p"
  by (auto simp: pool_live_def fun_eq_iff)

lemma count_alloc_totals [simp]:
  "total_alloc_times (count_alloc st) = total_alloc_times st + 1"
  "total_free_times (count_alloc st) = total_free_times st"
  "peak_free_number (count_alloc st) = peak_free_number st"
  by (simp_all add: count_alloc_def Let_def)

lemma pool_init_inv [simp]: "pool_inv (pool_init num)"
  by (auto simp: pool_inv_def pool_inv_via_def pool_init_def pool_live_def dom_def intro!: exI [of _ "[]"])

lemma pool_live_init [simp]: "pool_live (pool_init num) = Map.empty"
  by (simp add: pool_init_def pool_live_def fun_eq_iff)

lemma unat_pred: "unat (w :: u64) = Suc n \<Longrightarrow> unat (w - 1) = n"
  by (metis diff_Suc_1 unat_minus_one unat_0 nat.distinct(1))

lemma pool_construct_inv:
  assumes inv: "pool_inv_via as p" and fresh: "pool_live p a = None" "a \<notin> set as"
  shows "pool_inv_via as (pool_construct a obj p)"
proof -
  have live: "pool_live (pool_construct a obj p) = (pool_live p)(a \<mapsto> obj)"
    by (auto simp: pool_construct_def pool_live_def fun_eq_iff)
  have "card (dom ((pool_live p)(a \<mapsto> obj))) = Suc (card (dom (pool_live p)))"
    using inv fresh by (simp add: pool_inv_via_def card_insert_if domIff)
  with inv fresh live show ?thesis
    unfolding pool_inv_via_def by (auto simp: pool_construct_def)
qed

text \<open>\<open>alloc\<close> hands out a block that holds no live object; the other objects stay as they are.\<close>

definition malloc_fresh :: "('a pmem \<Rightarrow> addr ptr) \<Rightarrow> bool" where
  "malloc_fresh malloc \<longleftrightarrow> (\<forall>m a. malloc m = Some a \<longrightarrow> m a = None)"

lemma pool_alloc_spec:
  assumes inv: "pool_inv p" and fresh: "malloc_fresh malloc" and al: "pool_alloc malloc obj p = Inr (a, p')"
  shows "pool_inv p' \<and> pool_live p a = None \<and> pool_live p' = (pool_live p)(a \<mapsto> obj)"
proof -
  from inv obtain as where via: "pool_inv_via as p" by (auto simp: pool_inv_def)
  note v = via [unfolded pool_inv_via_def]
  show ?thesis
  proof (cases "free_header p")
    case None
    with al have ma: "malloc (pool_mem p) = Some a" and p': "p' = pool_construct a obj p"
      by (auto simp: pool_alloc_def split: option.splits)
    have none: "pool_mem p a = None" using ma fresh by (simp add: malloc_fresh_def)
    have "as = []" using v None by simp
    with pool_construct_inv [OF via, of a obj] none p' show ?thesis
      by (auto simp: pool_inv_def pool_live_def pool_construct_def fun_eq_iff)
  next
    case (Some b)
    from link_chain_head [of "pool_mem p" b as] v Some obtain as' nxt where
      as: "as = b # as'" "pool_mem p b = Some (LinkBlk nxt)" "link_chain (pool_mem p) nxt as'" by auto
    let ?q = "p\<lparr>free_header := nxt, free_number := free_number p - 1\<rparr>"
    from al Some as have ab: "a = b" and p': "p' = pool_construct a obj ?q"
      by (auto simp: pool_alloc_def)
    have n: "unat (free_number p - 1) = length as'" using v as by (intro unat_pred) simp
    then have kn: "free_number p - 1 \<le> keep_number p"
      using v as by (simp add: word_le_nat_alt)
    have live_none: "pool_live p a = None" using as ab by (simp add: pool_live_def)
    define r where "r = pool_construct a obj ?q"
    have live: "pool_live r = (pool_live p)(a \<mapsto> obj)"
      by (auto simp: r_def pool_construct_def pool_live_def fun_eq_iff)
    have card: "card (dom (pool_live r)) = Suc (card (dom (pool_live p)))"
      using v live live_none by (simp add: card_insert_if domIff)
    have "pool_inv_via as' r"
      using v as ab n kn card live unfolding pool_inv_via_def
      by (auto simp: r_def pool_construct_def)
    with live live_none p' show ?thesis by (auto simp: pool_inv_def r_def)
  qed
qed

lemma card_dom_remove:
  "finite (dom f) \<Longrightarrow> f a = Some x \<Longrightarrow> card (dom f) = Suc (card (dom (f(a := None))))"
  using card.remove [of "dom f" a] by (simp add: domIff)

lemma pool_free_spec:
  assumes inv: "pool_inv p" and live: "pool_live p a = Some obj"
  shows "\<exists>p'. pool_free (Some a) p = Inr p' \<and> pool_inv p' \<and> pool_live p' = (pool_live p)(a := None)"
proof -
  from inv obtain as where via: "pool_inv_via as p" by (auto simp: pool_inv_def)
  note v = via [unfolded pool_inv_via_def]
  have m: "pool_mem p a = Some (ObjBlk obj)"
    using live by (auto simp: pool_live_def split: option.splits pblock.splits)
  have notin: "a \<notin> set as" using link_chain_links [of _ _ as a] v m by fastforce
  have card: "card (dom (pool_live p)) = Suc (card (dom ((pool_live p)(a := None))))"
    using v live by (intro card_dom_remove) auto
  have dec: "of_nat (card (dom ((pool_live p)(a := None)))) =
      total_alloc_times (stat p) - (total_free_times (stat p) + 1)"
    using v card by (simp add: algebra_simps)
  obtain p' where p': "pool_free (Some a) p = Inr p'" by (simp add: pool_free_def m Let_def)
  show ?thesis
  proof (cases "free_number p < keep_number p")
    case True
    then have nx: "unat (free_number p + 1) = Suc (unat (free_number p))"
      by (intro unat_Suc_le_max) auto
    have liv: "pool_live p' = (pool_live p)(a := None)"
      using p' True by (auto simp: pool_free_def m Let_def pool_live_def fun_eq_iff split: if_splits)
    have "pool_inv_via (a # as) p'"
      using p' True v m notin nx dec liv unfolding pool_inv_via_def
      by (auto simp: pool_free_def Let_def inc_le split: if_splits)
    with p' liv show ?thesis by (auto simp: pool_inv_def)
  next
    case False
    have liv: "pool_live p' = (pool_live p)(a := None)"
      using p' False by (auto simp: pool_free_def m Let_def pool_live_def fun_eq_iff)
    have "pool_inv_via as p'"
      using p' False v m notin dec liv unfolding pool_inv_via_def
      by (auto simp: pool_free_def Let_def split: if_splits)
    with p' liv show ?thesis by (auto simp: pool_inv_def)
  qed
qed

lemma pool_free_dead: "pool_live p a = None \<Longrightarrow> pool_free (Some a) p = Inl UseAfterFree"
  by (auto simp: pool_free_def pool_live_def split: option.splits pblock.splits)

lemma obj_read_live: "obj_read p a = (case pool_live p a of None \<Rightarrow> Inl UseAfterFree | Some x \<Rightarrow> Inr x)"
  by (auto simp: obj_read_def pool_live_def split: option.splits pblock.splits)

lemma obj_write_spec:
  assumes "pool_inv p" and "pool_live p a = Some obj"
  shows "pool_inv (obj_write a obj' p) \<and> pool_live (obj_write a obj' p) = (pool_live p)(a \<mapsto> obj')"
proof -
  from assms(1) obtain as where via: "pool_inv_via as p" by (auto simp: pool_inv_def)
  have m: "pool_mem p a = Some (ObjBlk obj)"
    using assms(2) by (auto simp: pool_live_def split: option.splits pblock.splits)
  then have "a \<notin> set as" using link_chain_links [of _ _ as a] via by (fastforce simp: pool_inv_via_def)
  moreover have "insert a (dom (pool_live p)) = dom (pool_live p)" using assms(2) by auto
  ultimately have "pool_inv_via as (obj_write a obj' p)"
    using via m unfolding pool_inv_via_def by (auto simp: obj_write_def)
  then show ?thesis by (auto simp: pool_inv_def obj_write_def)
qed

section \<open>The contract of an object store\<close>

text \<open>What the users of a pool rely on: a new object is at an address where none was alive, freeing
  ends exactly one life, and writing through a pointer changes one live object.\<close>

locale object_store =
  fixes ok :: "'s \<Rightarrow> bool" and live :: "'s \<Rightarrow> addr \<Rightarrow> 'a option"
    and create :: "'a \<Rightarrow> 's \<Rightarrow> cxx_error + addr \<times> 's"
    and destroy :: "addr ptr \<Rightarrow> 's \<Rightarrow> cxx_error + 's"
    and upd :: "addr \<Rightarrow> 'a \<Rightarrow> 's \<Rightarrow> 's"
  assumes create_ok: "ok s \<Longrightarrow> create x s = Inr (a, s') \<Longrightarrow>
      ok s' \<and> live s a = None \<and> live s' = (live s)(a \<mapsto> x)"
    and destroy_ok: "ok s \<Longrightarrow> live s a = Some x \<Longrightarrow>
      \<exists>s'. destroy (Some a) s = Inr s' \<and> ok s' \<and> live s' = (live s)(a := None)"
    and destroy_dead: "live s a = None \<Longrightarrow> destroy (Some a) s = Inl UseAfterFree"
    and upd_ok: "ok s \<Longrightarrow> live s a = Some x \<Longrightarrow> ok (upd a y s) \<and> live (upd a y s) = (live s)(a \<mapsto> y)"
begin

lemma create_other: "ok s \<Longrightarrow> create x s = Inr (a, s') \<Longrightarrow> b \<noteq> a \<Longrightarrow> live s' b = live s b"
  using create_ok by fastforce

lemma create_keeps: "ok s \<Longrightarrow> create x s = Inr (a, s') \<Longrightarrow> live s b = Some y \<Longrightarrow> b \<noteq> a \<and> live s' b = Some y"
  using create_ok by fastforce

lemma double_destroy:
  assumes "ok s" and "destroy (Some a) s = Inr s'"
  shows "destroy (Some a) s' = Inl UseAfterFree"
proof (cases "live s a")
  case None
  with destroy_dead assms(2) show ?thesis by fastforce
next
  case (Some x)
  from destroy_ok [OF assms(1) Some] assms(2) have "live s' a = None" by auto
  then show ?thesis by (rule destroy_dead)
qed

end

locale allocator =
  fixes malloc :: "'a pmem \<Rightarrow> addr ptr"
  assumes fresh: "malloc_fresh malloc"

sublocale allocator \<subseteq> store: object_store pool_inv pool_live "pool_alloc malloc" pool_free obj_write
proof unfold_locales
  fix s s' :: "'a pool" and x a
  assume "pool_inv s" and "pool_alloc malloc x s = Inr (a, s')"
  then show "pool_inv s' \<and> pool_live s a = None \<and> pool_live s' = (pool_live s)(a \<mapsto> x)"
    by (rule pool_alloc_spec [OF _ fresh])
next
  fix s :: "'a pool" and a x
  assume "pool_inv s" and "pool_live s a = Some x"
  then show "\<exists>s'. pool_free (Some a) s = Inr s' \<and> pool_inv s' \<and> pool_live s' = (pool_live s)(a := None)"
    by (rule pool_free_spec)
next
  fix s :: "'a pool" and a
  assume "pool_live s a = None"
  then show "pool_free (Some a) s = Inl UseAfterFree" by (rule pool_free_dead)
next
  fix s :: "'a pool" and a x y
  assume "pool_inv s" and "pool_live s a = Some x"
  then show "pool_inv (obj_write a y s) \<and> pool_live (obj_write a y s) = (pool_live s)(a \<mapsto> y)"
    by (rule obj_write_spec)
qed

text \<open>An executable allocator: the first unused address of a bounded arena.\<close>

definition first_fit :: "nat \<Rightarrow> 'a pmem \<Rightarrow> addr ptr" where
  "first_fit n m = List.find (\<lambda>a. m a = None) [1..<n]"

lemma first_fit_fresh: "malloc_fresh (first_fit n)"
  by (auto simp: malloc_fresh_def first_fit_def find_Some_iff)

interpretation ff: allocator "first_fit n" for n
  by unfold_locales (rule first_fit_fresh)

section \<open>Properties of the pool\<close>

datatype 'a pool_op = PAlloc 'a | PFree addr

fun pool_step :: "('a pmem \<Rightarrow> addr ptr) \<Rightarrow> 'a pool_op \<Rightarrow> 'a pool \<Rightarrow> cxx_error + 'a pool" where
  "pool_step malloc (PAlloc x) p = (case pool_alloc malloc x p of Inl e \<Rightarrow> Inl e | Inr (_, p') \<Rightarrow> Inr p')"
| "pool_step malloc (PFree a) p = pool_free (Some a) p"

fun pool_run :: "('a pmem \<Rightarrow> addr ptr) \<Rightarrow> 'a pool_op list \<Rightarrow> 'a pool \<Rightarrow> cxx_error + 'a pool" where
  "pool_run malloc [] p = Inr p"
| "pool_run malloc (c # cs) p = (case pool_step malloc c p of Inl e \<Rightarrow> Inl e | Inr p' \<Rightarrow> pool_run malloc cs p')"

lemma pool_step_inv:
  assumes "malloc_fresh malloc" and "pool_inv p" and "pool_step malloc c p = Inr p'"
  shows "pool_inv p'"
proof (cases c)
  case (PAlloc x)
  with assms pool_alloc_spec [OF assms(2,1)] show ?thesis by (auto split: sum.splits)
next
  case (PFree a)
  with assms show ?thesis
    using pool_free_spec [OF assms(2), of a] pool_free_dead [of p a] by (cases "pool_live p a") auto
qed

lemma pool_run_inv: "malloc_fresh malloc \<Longrightarrow> pool_inv p \<Longrightarrow> pool_run malloc cs p = Inr p' \<Longrightarrow> pool_inv p'"
  by (induction cs arbitrary: p) (auto split: sum.splits dest: pool_step_inv)

text \<open>(C33) After any sequence of \<open>alloc\<close> and \<open>free\<close> on a new pool, \<open>alloc\<close> returns the address of a
  block that holds no live object and leaves every live object untouched; the cached blocks never
  outnumber \<open>keep_number_\<close>; and \<open>total_alloc_times - total_free_times\<close> is the number of live
  objects.\<close>

theorem pool_alloc_disjoint:
  assumes "malloc_fresh malloc" and "pool_run malloc ops (pool_init keep) = Inr p"
    and "pool_alloc malloc x p = Inr (a, p')"
  shows "pool_live p a = None \<and> pool_live p' = (pool_live p)(a \<mapsto> x) \<and> free_number p' \<le> keep_number p' \<and>
         total_alloc_times (pool_getStat p') - total_free_times (pool_getStat p') =
           of_nat (card (dom (pool_live p')))"
proof -
  have inv: "pool_inv p" by (rule pool_run_inv [OF assms(1) pool_init_inv assms(2)])
  from pool_alloc_spec [OF inv assms(1,3)] show ?thesis
    by (auto simp: pool_inv_def pool_inv_via_def pool_getStat_def)
qed

theorem pool_alloc_disjoint_witness:
  "\<exists>p p'. pool_run (first_fit 9) [PAlloc (7 :: nat), PAlloc 8, PFree 1] (pool_init 64) = Inr p \<and>
     pool_alloc (first_fit 9) 9 p = Inr (1, p') \<and> pool_live p' = (pool_live p)(1 \<mapsto> 9)"
proof -
  obtain p where p: "pool_run (first_fit 9) [PAlloc (7 :: nat), PAlloc 8, PFree 1] (pool_init 64) = Inr p"
    and h: "free_header p = Some 1" "pool_mem p 1 = Some (LinkBlk None)"
    by (simp add: pool_alloc_def first_fit_def upt_rec pool_construct_def pool_init_def pool_free_def Let_def)
  then obtain p' where p': "pool_alloc (first_fit 9) 9 p = Inr (1, p')" by (auto simp: pool_alloc_def)
  from pool_alloc_disjoint [OF first_fit_fresh p p'] p p' show ?thesis by auto
qed

lemma pool_destroy_chain:
  assumes "link_chain (pool_mem p) (free_header p) as" and "distinct as" and "length as \<le> fuel"
  shows "\<exists>p'. pool_destroy fuel p = Some (Inr p') \<and> pool_live p' = pool_live p \<and>
              (\<forall>a. pool_mem p' a = (if a \<in> set as then None else pool_mem p a))"
  using assms
proof (induction as arbitrary: p fuel)
  case Nil
  then show ?case by (subst pool_destroy.simps) simp
next
  case (Cons a as)
  obtain f where f: "fuel = Suc f" using Cons.prems(3) by (cases fuel) auto
  from Cons.prems(1) f obtain nxt where h: "free_header p = Some a" "pool_mem p a = Some (LinkBlk nxt)"
      "link_chain (pool_mem p) nxt as" "fuel = Suc f" by auto
  let ?q = "p\<lparr>pool_mem := (pool_mem p)(a := None), free_header := nxt\<rparr>"
  have "link_chain (pool_mem ?q) (free_header ?q) as" using h Cons.prems by simp
  moreover have "distinct as" "length as \<le> f" using Cons.prems h by auto
  ultimately obtain p' where
    "pool_destroy f ?q = Some (Inr p')" "pool_live p' = pool_live ?q"
    "\<forall>b. pool_mem p' b = (if b \<in> set as then None else pool_mem ?q b)" using Cons.IH [of ?q f] by blast
  moreover have "pool_live ?q = pool_live p" using h by (auto simp: pool_live_def fun_eq_iff)
  ultimately show ?case using h by (subst pool_destroy.simps) auto
qed

text \<open>The destructor's loop ends after at most \<open>free_number_\<close> rounds and gives back every
  cached block and nothing else: when no object is alive, no memory of the pool is left.\<close>

theorem pool_destroy_releases:
  assumes "pool_inv p" and "unat (free_number p) \<le> fuel"
  shows "\<exists>p'. pool_destroy fuel p = Some (Inr p') \<and> pool_live p' = pool_live p \<and>
              (\<forall>a. pool_mem p' a = map_option ObjBlk (pool_live p a))"
proof -
  from assms(1) obtain as where via: "pool_inv_via as p" by (auto simp: pool_inv_def)
  then have c: "link_chain (pool_mem p) (free_header p) as" "distinct as" "length as \<le> fuel"
    using assms(2) by (auto simp: pool_inv_via_def)
  from pool_destroy_chain [OF this] obtain p' where
    p': "pool_destroy fuel p = Some (Inr p')" "pool_live p' = pool_live p"
    "\<And>a. pool_mem p' a = (if a \<in> set as then None else pool_mem p a)" by auto
  have "pool_mem p' a = map_option ObjBlk (pool_live p a)" for a
    using p'(3) [of a] via link_chain_links [OF c(1), of a]
    by (auto simp: pool_live_def pool_inv_via_def split: option.splits pblock.splits)
  with p' show ?thesis by auto
qed

theorem pool_destroy_releases_witness:
  "\<exists>p'. pool_destroy 5 (pool_init 3 :: nat pool) = Some (Inr p') \<and> (\<forall>a. pool_mem p' a = None)"
  using pool_destroy_releases [OF pool_init_inv [of 3, where 'a = nat], of 5]
  by (auto simp: pool_init_def pool_live_def)

end
