(* ===== verification/Std_Heap.thy ===== *)
theory Std_Heap
  imports Tbox_Prelude "HOL-Library.Multiset"
begin

text \<open>
  The heap algorithms of the C++ standard library that the event loop and the timer code use on
  vectors: \<open>std::push_heap\<close>, \<open>std::pop_heap\<close> and \<open>std::make_heap\<close>, for a comparator that orders by
  a key with the smallest key at the front (\<open>CommonLoop::TimerCmp\<close>). The standard fixes what the
  algorithms establish and not the arrangement they leave; the locale \<open>std_heap\<close> states that
  contract, the definitions below are the usual binary heap, and the interpretation at the end
  shows that they meet it. Clients use the contract only.
\<close>

section \<open>Definitions\<close>

definition swap_at :: "'a list \<Rightarrow> nat \<Rightarrow> nat \<Rightarrow> 'a list" where
  "swap_at xs i j = xs[i := xs ! j, j := xs ! i]"

fun sift_up :: "('a \<Rightarrow> 'k::linorder) \<Rightarrow> 'a list \<Rightarrow> nat \<Rightarrow> 'a list" where
  "sift_up k xs i =
     (if i = 0 then xs
      else if k (xs ! i) < k (xs ! ((i - 1) div 2))
           then sift_up k (swap_at xs i ((i - 1) div 2)) ((i - 1) div 2)
           else xs)"

definition min_child :: "('a \<Rightarrow> 'k::linorder) \<Rightarrow> 'a list \<Rightarrow> nat \<Rightarrow> nat \<Rightarrow> nat" where
  "min_child k xs n i =
     (if 2 * i + 2 < n \<and> k (xs ! (2 * i + 2)) < k (xs ! (2 * i + 1)) then 2 * i + 2 else 2 * i + 1)"

function sift_down :: "('a \<Rightarrow> 'k::linorder) \<Rightarrow> nat \<Rightarrow> 'a list \<Rightarrow> nat \<Rightarrow> 'a list" where
  "sift_down k n xs i =
     (if 2 * i + 1 < n \<and> k (xs ! min_child k xs n i) < k (xs ! i)
      then sift_down k n (swap_at xs i (min_child k xs n i)) (min_child k xs n i)
      else xs)"
  by pat_completeness auto
termination
  by (relation "measure (\<lambda>(k, n, xs, i). n - i)") (auto simp: min_child_def)

declare sift_up.simps [simp del] sift_down.simps [simp del]

definition push_heap :: "('a \<Rightarrow> 'k::linorder) \<Rightarrow> 'a list \<Rightarrow> 'a list" where
  "push_heap k xs = (if xs = [] then [] else sift_up k xs (length xs - 1))"

definition pop_heap :: "('a \<Rightarrow> 'k::linorder) \<Rightarrow> 'a list \<Rightarrow> 'a list" where
  "pop_heap k xs =
     (if xs = [] then [] else sift_down k (length xs - 1) (swap_at xs 0 (length xs - 1)) 0)"

definition make_heap :: "('a \<Rightarrow> 'k::linorder) \<Rightarrow> 'a list \<Rightarrow> 'a list" where
  "make_heap k xs = foldr (\<lambda>i ys. sift_down k (length xs) ys i) [0..<length xs div 2] xs"

section \<open>The heap condition\<close>

definition heap_at :: "('a \<Rightarrow> 'k::linorder) \<Rightarrow> nat \<Rightarrow> 'a list \<Rightarrow> nat \<Rightarrow> bool" where
  "heap_at k n xs p \<longleftrightarrow>
     (2 * p + 1 < n \<longrightarrow> k (xs ! p) \<le> k (xs ! (2 * p + 1))) \<and>
     (2 * p + 2 < n \<longrightarrow> k (xs ! p) \<le> k (xs ! (2 * p + 2)))"

definition is_heap :: "('a \<Rightarrow> 'k::linorder) \<Rightarrow> 'a list \<Rightarrow> bool" where
  "is_heap k xs \<longleftrightarrow> (\<forall>p < length xs. heap_at k (length xs) xs p)"

lemma length_swap_at [simp]: "length (swap_at xs i j) = length xs"
  by (simp add: swap_at_def)

lemma mset_swap_at: "i < length xs \<Longrightarrow> j < length xs \<Longrightarrow> mset (swap_at xs i j) = mset xs"
  using mset_swap [of j xs i] by (simp add: swap_at_def)

lemma nth_swap_at:
  "i < length xs \<Longrightarrow> j < length xs \<Longrightarrow>
   swap_at xs i j ! l = (if l = j then xs ! i else if l = i then xs ! j else xs ! l)"
  by (cases "l < length xs") (auto simp: swap_at_def nth_list_update)

lemma parent_child: "0 < c \<Longrightarrow> c = 2 * ((c - 1) div 2) + 1 \<or> c = 2 * ((c - 1) div 2) + (2 :: nat)"
  by presburger

lemma heap_at_child:
  assumes "heap_at k n xs ((c - 1) div 2)" and "0 < c" and "c < n"
  shows "k (xs ! ((c - 1) div 2)) \<le> k (xs ! c)"
  using parent_child [OF assms(2)] assms unfolding heap_at_def by (metis)

lemma is_heap_front_least:
  assumes "is_heap k xs" and "i < length xs"
  shows "k (xs ! 0) \<le> k (xs ! i)"
  using assms(2)
proof (induction i rule: less_induct)
  case (less i)
  show ?case
  proof (cases "i = 0")
    case False
    then have p: "(i - 1) div 2 < i" by linarith
    with less.prems assms(1) have "heap_at k (length xs) xs ((i - 1) div 2)" by (simp add: is_heap_def)
    from heap_at_child [OF this] False less.prems have "k (xs ! ((i - 1) div 2)) \<le> k (xs ! i)" by simp
    with less.IH [OF p] p less.prems show ?thesis by simp
  qed simp
qed

section \<open>Sifting\<close>

lemma sift_up_length [simp]: "length (sift_up k xs i) = length xs"
  by (induction k xs i rule: sift_up.induct) (subst sift_up.simps, simp)

lemma sift_up_mset: "i < length xs \<Longrightarrow> mset (sift_up k xs i) = mset xs"
proof (induction k xs i rule: sift_up.induct)
  case (1 k xs i)
  have "(i - 1) div 2 < length xs" using 1(2) by linarith
  with 1 show ?case by (subst sift_up.simps) (simp add: mset_swap_at)
qed

text \<open>\<open>i\<close> is the only place where a parent may be larger than its child, and the children of
  \<open>i\<close> are not smaller than the parent of \<open>i\<close>.\<close>

definition up_pre :: "('a \<Rightarrow> 'k::linorder) \<Rightarrow> 'a list \<Rightarrow> nat \<Rightarrow> bool" where
  "up_pre k xs i \<longleftrightarrow>
     (\<forall>c. 0 < c \<longrightarrow> c < length xs \<longrightarrow> c \<noteq> i \<longrightarrow> k (xs ! ((c - 1) div 2)) \<le> k (xs ! c)) \<and>
     (\<forall>c. 0 < i \<longrightarrow> 0 < c \<longrightarrow> c < length xs \<longrightarrow> (c - 1) div 2 = i \<longrightarrow> k (xs ! ((i - 1) div 2)) \<le> k (xs ! c))"

lemma is_heap_children:
  "is_heap k xs \<longleftrightarrow> (\<forall>c. 0 < c \<longrightarrow> c < length xs \<longrightarrow> k (xs ! ((c - 1) div 2)) \<le> k (xs ! c))"
proof
  assume h: "is_heap k xs"
  show "\<forall>c. 0 < c \<longrightarrow> c < length xs \<longrightarrow> k (xs ! ((c - 1) div 2)) \<le> k (xs ! c)"
  proof (intro allI impI)
    fix c assume c: "0 < c" "c < length xs"
    then have "(c - 1) div 2 < length xs" by linarith
    with h have "heap_at k (length xs) xs ((c - 1) div 2)" by (simp add: is_heap_def)
    from heap_at_child [OF this c] show "k (xs ! ((c - 1) div 2)) \<le> k (xs ! c)" .
  qed
next
  assume h: "\<forall>c. 0 < c \<longrightarrow> c < length xs \<longrightarrow> k (xs ! ((c - 1) div 2)) \<le> k (xs ! c)"
  have "k (xs ! p) \<le> k (xs ! (2 * p + 1))" if "2 * p + 1 < length xs" for p
    using h [rule_format, of "2 * p + 1"] that by simp
  moreover have "k (xs ! p) \<le> k (xs ! (2 * p + 2))" if "2 * p + 2 < length xs" for p
    using h [rule_format, of "2 * p + 2"] that by simp
  ultimately show "is_heap k xs" by (simp add: is_heap_def heap_at_def)
qed

lemma up_pre_swap:
  assumes pre: "up_pre k xs i" and i: "0 < i" "i < length xs"
    and lt: "k (xs ! i) < k (xs ! ((i - 1) div 2))"
  shows "up_pre k (swap_at xs i ((i - 1) div 2)) ((i - 1) div 2)"
proof -
  define p where "p = (i - 1) div 2"
  let ?ys = "swap_at xs i p"
  have p: "p < length xs" "p < i" using i unfolding p_def by linarith+
  have nth: "?ys ! l = (if l = p then xs ! i else if l = i then xs ! p else xs ! l)" for l
    using nth_swap_at [OF i(2) p(1)] by simp
  note pre' = pre [unfolded up_pre_def p_def [symmetric]] and lt' = lt [folded p_def]
  have le: "k (xs ! ((c - 1) div 2)) \<le> k (xs ! c)" if "0 < c" "c < length xs" "c \<noteq> i" for c
    using pre' that by blast
  have le2: "k (xs ! p) \<le> k (xs ! c)" if "0 < c" "c < length xs" "(c - 1) div 2 = i" for c
    using pre' that i by blast
  have c1: "k (?ys ! ((c - 1) div 2)) \<le> k (?ys ! c)" if c: "0 < c" "c < length xs" "c \<noteq> p" for c
  proof (cases "c = i")
    case True
    then show ?thesis using p lt' p_def [symmetric] by (simp add: nth)
  next
    case False
    have nc: "(c - 1) div 2 \<noteq> c" using c(1) by linarith
    show ?thesis
    proof (cases "(c - 1) div 2 = i")
      case True
      then have "(c - 1) div 2 \<noteq> p" using p(2) by linarith
      then show ?thesis using True False c le2 [OF c(1,2) True] by (simp add: nth)
    next
      case pi: False
      show ?thesis
      proof (cases "(c - 1) div 2 = p")
        case True
        then have "k (xs ! p) \<le> k (xs ! c)" using le [OF c(1,2) False] by simp
        then show ?thesis using True False c lt' by (simp add: nth)
      next
        case pp: False
        then show ?thesis using pi False c le [OF c(1,2) False] by (simp add: nth)
      qed
    qed
  qed
  have c2: "k (?ys ! ((p - 1) div 2)) \<le> k (?ys ! c)"
    if c: "0 < p" "0 < c" "c < length xs" "(c - 1) div 2 = p" for c
  proof -
    have q: "(p - 1) div 2 < p" using c(1) by linarith
    have b: "k (xs ! ((p - 1) div 2)) \<le> k (xs ! p)" using le [OF c(1) p(1)] p(2) by simp
    have cp: "c \<noteq> p" using c(2,4) by linarith
    show ?thesis
    proof (cases "c = i")
      case True
      then show ?thesis using q p(2) b cp by (simp add: nth)
    next
      case False
      then have "k (xs ! p) \<le> k (xs ! c)" using le [OF c(2,3)] c(4) by simp
      then show ?thesis using False q p(2) b cp by (simp add: nth)
    qed
  qed
  from c1 c2 show ?thesis unfolding up_pre_def p_def [symmetric] by simp
qed

lemma sift_up_heap: "i < length xs \<Longrightarrow> up_pre k xs i \<Longrightarrow> is_heap k (sift_up k xs i)"
proof (induction k xs i rule: sift_up.induct)
  case (1 k xs i)
  show ?case
  proof (cases "i = 0 \<or> \<not> k (xs ! i) < k (xs ! ((i - 1) div 2))")
    case True
    then have "\<forall>c. 0 < c \<longrightarrow> c < length xs \<longrightarrow> k (xs ! ((c - 1) div 2)) \<le> k (xs ! c)"
      using 1(3) unfolding up_pre_def by (metis linorder_not_less not_gr_zero)
    then have "is_heap k xs" by (simp add: is_heap_children)
    with True show ?thesis by (subst sift_up.simps) auto
  next
    case False
    moreover from False 1(2) have "(i - 1) div 2 < length xs" by linarith
    ultimately show ?thesis
      using 1(1) up_pre_swap [OF 1(3) _ 1(2)] by (subst sift_up.simps) auto
  qed
qed

lemma sift_down_length [simp]: "length (sift_down k n xs i) = length xs"
  by (induction k n xs i rule: sift_down.induct) (subst sift_down.simps, simp)

lemma min_child_less: "2 * i + 1 < n \<Longrightarrow> min_child k xs n i < n"
  by (simp add: min_child_def)

lemma sift_down_mset: "n \<le> length xs \<Longrightarrow> mset (sift_down k n xs i) = mset xs"
proof (induction k n xs i rule: sift_down.induct)
  case (1 k n xs i)
  show ?case
  proof (cases "2 * i + 1 < n \<and> k (xs ! min_child k xs n i) < k (xs ! i)")
    case True
    then have "min_child k xs n i < length xs" "i < length xs" using min_child_less [of i n k xs] 1(2) by auto
    with 1(1) [OF True] 1(2) True show ?thesis by (subst sift_down.simps) (simp add: mset_swap_at)
  qed (subst sift_down.simps, auto)
qed

lemma sift_down_above: "n \<le> length xs \<Longrightarrow> n \<le> j \<Longrightarrow> sift_down k n xs i ! j = xs ! j"
proof (induction k n xs i rule: sift_down.induct)
  case (1 k n xs i)
  show ?case
  proof (cases "2 * i + 1 < n \<and> k (xs ! min_child k xs n i) < k (xs ! i)")
    case True
    then have c: "min_child k xs n i < n" "i < n" using min_child_less [of i n k xs] by auto
    with 1(2,3) have "swap_at xs i (min_child k xs n i) ! j = xs ! j" by (simp add: nth_swap_at)
    with 1(1) [OF True] 1(2,3) True show ?thesis by (subst sift_down.simps) simp
  qed (subst sift_down.simps, auto)
qed

text \<open>From \<open>s\<close> on, only \<open>i\<close> may be larger than a child, and no child of \<open>i\<close> is smaller than
  the parent of \<open>i\<close>.\<close>

definition down_pre :: "('a \<Rightarrow> 'k::linorder) \<Rightarrow> nat \<Rightarrow> nat \<Rightarrow> 'a list \<Rightarrow> nat \<Rightarrow> bool" where
  "down_pre k n s xs i \<longleftrightarrow>
     s \<le> i \<and> (\<forall>p. s \<le> p \<longrightarrow> p \<noteq> i \<longrightarrow> heap_at k n xs p) \<and>
     (\<forall>q c. s \<le> q \<longrightarrow> (i = 2 * q + 1 \<or> i = 2 * q + 2) \<longrightarrow> (c = 2 * i + 1 \<or> c = 2 * i + 2) \<longrightarrow>
        c < n \<longrightarrow> k (xs ! q) \<le> k (xs ! c))"

lemma min_child_least:
  assumes "2 * i + 1 < n"
  shows "k (xs ! min_child k xs n i) \<le> k (xs ! (2 * i + 1))"
    and "2 * i + 2 < n \<Longrightarrow> k (xs ! min_child k xs n i) \<le> k (xs ! (2 * i + 2))"
  by (auto simp: min_child_def)

lemma heap_atI:
  "(\<And>c. c = 2 * p + 1 \<or> c = 2 * p + 2 \<Longrightarrow> c < n \<Longrightarrow> k (xs ! p) \<le> k (xs ! c)) \<Longrightarrow> heap_at k n xs p"
  by (simp add: heap_at_def)

lemma heap_atD: "heap_at k n xs p \<Longrightarrow> c = 2 * p + 1 \<or> c = 2 * p + 2 \<Longrightarrow> c < n \<Longrightarrow> k (xs ! p) \<le> k (xs ! c)"
  by (auto simp: heap_at_def)

lemma down_pre_swap:
  assumes pre: "down_pre k n s xs i" and n: "n \<le> length xs" and i: "2 * i + 1 < n"
    and lt: "k (xs ! min_child k xs n i) < k (xs ! i)"
  shows "down_pre k n s (swap_at xs i (min_child k xs n i)) (min_child k xs n i)"
proof -
  define m where "m = min_child k xs n i"
  have m: "m = 2 * i + 1 \<or> m = 2 * i + 2" "m < n" using i by (auto simp: m_def min_child_def)
  have least: "k (xs ! m) \<le> k (xs ! c)" if "c = 2 * i + 1 \<or> c = 2 * i + 2" "c < n" for c
    using that min_child_least [OF i, of k xs] unfolding m_def by auto
  have lens: "i < length xs" "m < length xs" using i n m by auto
  let ?ys = "swap_at xs i m"
  have nth: "?ys ! l = (if l = m then xs ! i else if l = i then xs ! m else xs ! l)" for l
    using nth_swap_at [OF lens] by simp
  have si: "s \<le> i" and ok: "\<And>p. s \<le> p \<Longrightarrow> p \<noteq> i \<Longrightarrow> heap_at k n xs p"
    and gp: "\<And>q c. s \<le> q \<Longrightarrow> i = 2 * q + 1 \<or> i = 2 * q + 2 \<Longrightarrow> c = 2 * i + 1 \<or> c = 2 * i + 2 \<Longrightarrow>
               c < n \<Longrightarrow> k (xs ! q) \<le> k (xs ! c)"
    using pre unfolding down_pre_def by blast+
  have im: "i < m" using m by auto
  have "heap_at k n ?ys p" if p: "s \<le> p" "p \<noteq> m" for p
  proof (rule heap_atI)
    fix c assume c: "c = 2 * p + 1 \<or> c = 2 * p + 2" "c < n"
    show "k (?ys ! p) \<le> k (?ys ! c)"
    proof (cases "p = i")
      case True
      then have "c \<noteq> i" using c by auto
      then show ?thesis using True im lt [folded m_def] least [of c] c by (auto simp: nth)
    next
      case False
      note h = heap_atD [OF ok [OF p(1) False] c]
      show ?thesis
      proof (cases "c = i")
        case True
        then have "k (xs ! p) \<le> k (xs ! m)" using gp [OF p(1) _ m(1) m(2)] c by auto
        then show ?thesis using True im False p by (simp add: nth)
      next
        case ci: False
        have "c \<noteq> m" using c m False by auto
        then show ?thesis using ci False p h by (simp add: nth)
      qed
    qed
  qed
  moreover have "k (?ys ! q) \<le> k (?ys ! c)"
    if q: "s \<le> q" "m = 2 * q + 1 \<or> m = 2 * q + 2" and c: "c = 2 * m + 1 \<or> c = 2 * m + 2" "c < n" for q c
  proof -
    have "q = i" using q m by auto
    moreover have "heap_at k n xs m" using ok [of m] si im by auto
    ultimately show ?thesis using heap_atD [of k n xs m, OF _ c] im c by (auto simp: nth)
  qed
  ultimately show ?thesis using si im unfolding down_pre_def m_def [symmetric] by auto
qed

lemma sift_down_heap:
  "n \<le> length xs \<Longrightarrow> down_pre k n s xs i \<Longrightarrow> s \<le> p \<Longrightarrow> heap_at k n (sift_down k n xs i) p"
proof (induction k n xs i rule: sift_down.induct)
  case (1 k n xs i)
  show ?case
  proof (cases "2 * i + 1 < n \<and> k (xs ! min_child k xs n i) < k (xs ! i)")
    case True
    then have "heap_at k n (sift_down k n (swap_at xs i (min_child k xs n i)) (min_child k xs n i)) p"
      using 1(1) [OF True] 1(2,4) down_pre_swap [OF 1(3,2)] by simp
    with True show ?thesis by (subst sift_down.simps) simp
  next
    case False
    have "heap_at k n xs i"
    proof (rule heap_atI)
      fix c assume c: "c = 2 * i + 1 \<or> c = 2 * i + 2" "c < n"
      then have i: "2 * i + 1 < n" by auto
      have "k (xs ! min_child k xs n i) \<le> k (xs ! c)" using min_child_least [OF i, of k xs] c by auto
      with False i show "k (xs ! i) \<le> k (xs ! c)" by simp
    qed
    with 1(3,4) have "heap_at k n xs p" unfolding down_pre_def by blast
    with False show ?thesis by (subst sift_down.simps) auto
  qed
qed

section \<open>The contract of the standard, and the algorithms' interpretation\<close>

locale std_heap =
  fixes push :: "('a \<Rightarrow> 'k::linorder) \<Rightarrow> 'a list \<Rightarrow> 'a list"
    and pop :: "('a \<Rightarrow> 'k) \<Rightarrow> 'a list \<Rightarrow> 'a list"
    and make :: "('a \<Rightarrow> 'k) \<Rightarrow> 'a list \<Rightarrow> 'a list"
  assumes push_mset: "mset (push k xs) = mset xs"
    and push_is_heap: "is_heap k (butlast xs) \<Longrightarrow> is_heap k (push k xs)"
    and pop_mset: "mset (pop k xs) = mset xs"
    and pop_is_heap: "is_heap k xs \<Longrightarrow> is_heap k (butlast (pop k xs))"
    and pop_last: "is_heap k xs \<Longrightarrow> xs \<noteq> [] \<Longrightarrow> last (pop k xs) = hd xs"
    and make_mset: "mset (make k xs) = mset xs"
    and make_is_heap: "is_heap k (make k xs)"
begin

lemma push_back_heap: "is_heap k xs \<Longrightarrow> is_heap k (push k (xs @ [x]))"
  using push_is_heap [of k "xs @ [x]"] by simp

lemma push_set [simp]: "set (push k xs) = set xs"
  by (metis push_mset set_mset_mset)

lemma make_set [simp]: "set (make k xs) = set xs"
  by (metis make_mset set_mset_mset)

lemma pop_set [simp]: "set (pop k xs) = set xs"
  by (metis pop_mset set_mset_mset)

lemma push_length [simp]: "length (push k xs) = length xs"
  by (metis push_mset size_mset)

lemma make_length [simp]: "length (make k xs) = length xs"
  by (metis make_mset size_mset)

lemma pop_length [simp]: "length (pop k xs) = length xs"
  by (metis pop_mset size_mset)

lemma push_distinct [simp]: "distinct (push k xs) \<longleftrightarrow> distinct xs"
  by (metis push_mset mset_eq_imp_distinct_iff)

lemma pop_distinct [simp]: "distinct (pop k xs) \<longleftrightarrow> distinct xs"
  by (metis pop_mset mset_eq_imp_distinct_iff)

lemma make_distinct [simp]: "distinct (make k xs) \<longleftrightarrow> distinct xs"
  by (metis make_mset mset_eq_imp_distinct_iff)

text \<open>Popping a heap: the front goes to the back, the rest is a heap of the other elements.\<close>

lemma pop_split:
  assumes "is_heap k xs" and "xs \<noteq> []"
  shows "pop k xs = butlast (pop k xs) @ [hd xs]" and "mset (butlast (pop k xs)) = mset xs - {#hd xs#}"
proof -
  have ne: "pop k xs \<noteq> []" using assms(2) by (metis pop_length length_0_conv)
  then show e: "pop k xs = butlast (pop k xs) @ [hd xs]"
    using append_butlast_last_id [OF ne] pop_last [OF assms] by simp
  have "mset xs = mset (butlast (pop k xs)) + {#hd xs#}"
    by (metis e pop_mset mset_append mset_single_iff_right)
  then show "mset (butlast (pop k xs)) = mset xs - {#hd xs#}" by simp
qed

text \<open>The erase idiom: give one element the strictly least key, rebuild, pop and drop the back.
  Exactly that element goes.\<close>

lemma make_pop_erase:
  assumes "x \<in> set xs" and least: "\<forall>y \<in> set xs. y \<noteq> x \<longrightarrow> k x < k y"
  shows "mset (butlast (pop k (make k xs))) = mset xs - {#x#}" and "is_heap k (butlast (pop k (make k xs)))"
proof -
  have ne: "make k xs \<noteq> []" using assms(1) by (metis make_length length_0_conv length_pos_if_in_set less_irrefl)
  obtain i where i: "i < length (make k xs)" "make k xs ! i = x"
    using assms(1) by (metis make_set in_set_conv_nth)
  have "k (make k xs ! 0) \<le> k x" using is_heap_front_least [OF make_is_heap i(1)] i(2) by simp
  moreover have "make k xs ! 0 \<in> set xs" using ne by (metis make_set nth_mem length_greater_0_conv)
  ultimately have "make k xs ! 0 = x" using least by (metis linorder_not_less)
  then have "hd (make k xs) = x" using ne by (simp add: hd_conv_nth)
  then show "mset (butlast (pop k (make k xs))) = mset xs - {#x#}"
    using pop_split(2) [OF make_is_heap ne] by (simp add: make_mset)
  show "is_heap k (butlast (pop k (make k xs)))" by (rule pop_is_heap [OF make_is_heap])
qed

end

lemma push_heap_is_heap:
  assumes "is_heap k (butlast xs)"
  shows "is_heap k (push_heap k xs)"
proof (cases "xs = []")
  case False
  let ?l = "length xs - 1"
  have "up_pre k xs ?l"
    unfolding up_pre_def
  proof (intro conjI allI impI)
    fix c assume c: "0 < c" "c < length xs" "c \<noteq> ?l"
    then have "c < ?l" "(c - 1) div 2 < ?l" by linarith+
    moreover have "k (butlast xs ! ((c - 1) div 2)) \<le> k (butlast xs ! c)"
      using assms c \<open>c < ?l\<close> by (simp add: is_heap_children)
    ultimately show "k (xs ! ((c - 1) div 2)) \<le> k (xs ! c)" by (simp add: nth_butlast)
  next
    fix c assume "0 < c" "c < length xs" "(c - 1) div 2 = ?l"
    then show "k (xs ! ((?l - 1) div 2)) \<le> k (xs ! c)" by linarith
  qed
  with False show ?thesis by (simp add: push_heap_def sift_up_heap)
qed (simp add: push_heap_def is_heap_def)

lemma pop_heap_last:
  assumes "xs \<noteq> []"
  shows "last (pop_heap k xs) = hd xs"
proof -
  have "length (pop_heap k xs) = length xs" by (simp add: pop_heap_def)
  then have "last (pop_heap k xs) = pop_heap k xs ! (length xs - 1)"
    using assms by (metis last_conv_nth length_0_conv)
  then show ?thesis
    using assms by (simp add: pop_heap_def sift_down_above nth_swap_at hd_conv_nth)
qed

lemma pop_heap_is_heap:
  assumes h: "is_heap k xs"
  shows "is_heap k (butlast (pop_heap k xs))"
proof (cases "xs = []")
  case False
  let ?n = "length xs - 1"
  let ?ys = "swap_at xs 0 ?n"
  have "down_pre k ?n 0 ?ys 0"
    unfolding down_pre_def
  proof (intro conjI allI impI)
    fix p :: nat assume p: "0 \<le> p" "p \<noteq> 0"
    show "heap_at k ?n ?ys p"
    proof (rule heap_atI)
      fix c assume c: "c = 2 * p + 1 \<or> c = 2 * p + 2" "c < ?n"
      then have "heap_at k (length xs) xs p" using h by (auto simp: is_heap_def)
      with c have "k (xs ! p) \<le> k (xs ! c)" by (auto intro: heap_atD)
      with c p False show "k (?ys ! p) \<le> k (?ys ! c)" by (auto simp: nth_swap_at)
    qed
  qed auto
  from sift_down_heap [OF _ this] have "heap_at k ?n (pop_heap k xs) p" for p
    using False by (simp add: pop_heap_def)
  then show ?thesis
    using False by (auto simp: is_heap_def heap_at_def nth_butlast pop_heap_def)
qed (simp add: pop_heap_def is_heap_def)

lemma make_heap_from:
  assumes "j \<le> length xs div 2"
  shows "length (foldr (\<lambda>i ys. sift_down k (length xs) ys i) [j..<length xs div 2] xs) = length xs \<and>
         mset (foldr (\<lambda>i ys. sift_down k (length xs) ys i) [j..<length xs div 2] xs) = mset xs \<and>
         (\<forall>p \<ge> j. heap_at k (length xs) (foldr (\<lambda>i ys. sift_down k (length xs) ys i) [j..<length xs div 2] xs) p)"
  using assms
proof (induction rule: inc_induct)
  case base
  then show ?case by (auto simp: heap_at_def)
next
  case (step j)
  let ?ys = "foldr (\<lambda>i ys. sift_down k (length xs) ys i) [Suc j..<length xs div 2] xs"
  have e: "[j..<length xs div 2] = j # [Suc j..<length xs div 2]"
    using step.hyps by (simp add: upt_conv_Cons)
  have "down_pre k (length xs) j ?ys j"
    using step.IH unfolding down_pre_def by auto
  with step.IH sift_down_heap [of "length xs" ?ys k j j] sift_down_mset [of "length xs" ?ys k j]
  show ?case by (simp add: e)
qed

interpretation timer_heap: std_heap push_heap pop_heap make_heap
proof unfold_locales
  show "mset (push_heap k xs) = mset xs" for k :: "'a \<Rightarrow> 'k::linorder" and xs
    by (simp add: push_heap_def sift_up_mset)
  show "mset (pop_heap k xs) = mset xs" for k :: "'a \<Rightarrow> 'k::linorder" and xs
    by (simp add: pop_heap_def sift_down_mset mset_swap_at)
  show "mset (make_heap k xs) = mset xs" for k :: "'a \<Rightarrow> 'k::linorder" and xs
    using make_heap_from [of 0 xs k] by (simp add: make_heap_def)
  show "is_heap k (make_heap k xs)" for k :: "'a \<Rightarrow> 'k::linorder" and xs
    using make_heap_from [of 0 xs k] by (simp add: make_heap_def is_heap_def)
qed (simp_all add: push_heap_is_heap pop_heap_is_heap pop_heap_last)

end
