(* ===== verification/Event_Loop.thy ===== *)
theory Event_Loop
  imports Cabinet Object_Pool Std_Heap
begin

text \<open>
  The event loop of \<open>modules/event\<close>: the deferred-task queues of \<open>common_loop_run.cpp\<close>, the
  timers of \<open>common_loop_timer.cpp\<close>, the start and end of a run in \<open>common_loop.cpp\<close> and the
  rounds of \<open>engines/epoll/loop.cpp\<close>.

  A callback is a name \<open>'f\<close>; the parameter \<open>body\<close> gives the calls on the loop that a callback
  makes when it is run in a state, and a call carries the clock readings and the thread it is
  made with. Timers live in the object pool and are named by their address, so that a use of a
  freed timer is an error of the model. The eventfd that wakes the loop is its kernel counter,
  absent while the loop is not running. \<open>trace\<close> is a history of what has run; log output and
  its time stamps are left out.
\<close>

section \<open>State\<close>

datatype 'f func = User 'f | FreeTimer addr

record 'f run_item =
  item_id :: u64
  item_func :: "'f func option"

record 'f timer =
  timer_token :: token
  timer_interval :: u64
  timer_expired :: u64
  timer_repeat :: u64
  timer_cb :: "'f option"

datatype loop_event = RanTask u64 | FiredTimer token u64

record 'f loop =
  cb_level :: int
  loop_thread_id :: "nat option"
  has_commit_run_req :: bool
  run_event :: "u64 option"
  run_in_loop_id_alloc :: u64
  run_next_id_alloc :: u64
  run_in_loop_queue :: "'f run_item list"
  run_next_queue :: "'f run_item list"
  tmp_queue :: "'f run_item list"
  run_in_loop_peak_num :: usize
  run_next_peak_num :: usize
  timer_cabinet :: "addr cabinet"
  timer_min_heap :: "addr list"
  timer_pool :: "'f timer pool"
  keep_running :: bool
  trace :: "loop_event list"

definition loop_init :: "'f loop" where
  "loop_init =
     \<lparr>cb_level = 0, loop_thread_id = None, has_commit_run_req = False, run_event = None,
      run_in_loop_id_alloc = 0, run_next_id_alloc = 1,
      run_in_loop_queue = [], run_next_queue = [], tmp_queue = [],
      run_in_loop_peak_num = 0, run_next_peak_num = 0,
      timer_cabinet = cab_empty, timer_min_heap = [], timer_pool = pool_init 64,
      keep_running = True, trace = []\<rparr>"

section \<open>Deferred tasks\<close>

definition allocRunInLoopId :: "'f loop \<Rightarrow> u64 \<times> 'f loop" where
  "allocRunInLoopId l =
     (let a = run_in_loop_id_alloc l + 2; a' = (if a = 0 then a + 2 else a)
      in (a', l\<lparr>run_in_loop_id_alloc := a'\<rparr>))"

definition allocRunNextId :: "'f loop \<Rightarrow> u64 \<times> 'f loop" where
  "allocRunNextId l = (let a = run_next_id_alloc l + 2 in (a, l\<lparr>run_next_id_alloc := a\<rparr>))"

text \<open>The eventfd counter: a write of one is refused at the maximum, a read takes it to zero.\<close>

definition eventfd_write :: "u64 option \<Rightarrow> u64 option" where
  "eventfd_write fd = map_option (\<lambda>c. if c < - 2 then c + 1 else c) fd"

definition eventfd_read :: "u64 option \<Rightarrow> u64 option" where
  "eventfd_read fd = map_option (\<lambda>_. 0) fd"

definition commitRunRequest :: "'f loop \<Rightarrow> 'f loop" where
  "commitRunRequest l =
     (if \<not> has_commit_run_req l
      then l\<lparr>run_event := eventfd_write (run_event l), has_commit_run_req := True\<rparr> else l)"

definition finishRunRequest :: "'f loop \<Rightarrow> 'f loop" where
  "finishRunRequest l = l\<lparr>run_event := eventfd_read (run_event l), has_commit_run_req := False\<rparr>"

definition isRunningLockless :: "'f loop \<Rightarrow> bool" where
  "isRunningLockless l \<longleftrightarrow> run_event l \<noteq> None"

definition isInLoopThreadLockless :: "nat \<Rightarrow> 'f loop \<Rightarrow> bool" where
  "isInLoopThreadLockless tid l \<longleftrightarrow> loop_thread_id l = Some tid"

definition runInLoop :: "'f func option \<Rightarrow> 'f loop \<Rightarrow> u64 \<times> 'f loop" where
  "runInLoop f l =
     (let (i, l1) = allocRunInLoopId l;
          l2 = l1\<lparr>run_in_loop_queue := run_in_loop_queue l1 @ [\<lparr>item_id = i, item_func = f\<rparr>]\<rparr>;
          l3 = (if isRunningLockless l2 then commitRunRequest l2 else l2);
          queue_size = of_nat (length (run_in_loop_queue l3))
      in (i, if queue_size > run_in_loop_peak_num l3 then l3\<lparr>run_in_loop_peak_num := queue_size\<rparr> else l3))"

definition runNext :: "'f func option \<Rightarrow> 'f loop \<Rightarrow> u64 \<times> 'f loop" where
  "runNext f l =
     (let (i, l1) = allocRunNextId l;
          l2 = l1\<lparr>run_next_queue := run_next_queue l1 @ [\<lparr>item_id = i, item_func = f\<rparr>]\<rparr>;
          queue_size = of_nat (length (run_next_queue l2))
      in (i, if queue_size > run_next_peak_num l2 then l2\<lparr>run_next_peak_num := queue_size\<rparr> else l2))"

definition loop_run :: "nat \<Rightarrow> 'f func option \<Rightarrow> 'f loop \<Rightarrow> u64 \<times> 'f loop" where
  "loop_run tid f l =
     (let can_run_next = \<not> (isRunningLockless l \<and> \<not> isInLoopThreadLockless tid l)
      in if can_run_next then runNext f l else runInLoop f l)"

definition RemoveRunFuncItemById :: "u64 \<Rightarrow> 'f run_item list \<Rightarrow> bool \<times> 'f run_item list" where
  "RemoveRunFuncItemById i q =
     (list_ex (\<lambda>it. item_id it = i) q, filter (\<lambda>it. item_id it \<noteq> i) q)"

definition loop_cancel :: "u64 \<Rightarrow> 'f loop \<Rightarrow> bool \<times> 'f loop" where
  "loop_cancel i l =
     (if i = 0 then (False, l)
      else
        (let (found, q) = RemoveRunFuncItemById i (tmp_queue l)
         in if found then (True, l\<lparr>tmp_queue := q\<rparr>)
            else if odd i then
              (let (found, q) = RemoveRunFuncItemById i (run_next_queue l)
               in (found, l\<lparr>run_next_queue := q\<rparr>))
            else
              (let (found, q) = RemoveRunFuncItemById i (run_in_loop_queue l)
               in (found, l\<lparr>run_in_loop_queue := q\<rparr>))))"

section \<open>Timers\<close>

text \<open>The key of \<open>TimerCmp\<close>. The heap algorithms compare through the stored pointers; every
  pointer of the vector has to be alive when they run.\<close>

definition timer_key :: "'f timer pool \<Rightarrow> addr \<Rightarrow> u64" where
  "timer_key p a = (case pool_live p a of Some t \<Rightarrow> timer_expired t | None \<Rightarrow> 0)"

definition all_live :: "'f timer pool \<Rightarrow> addr list \<Rightarrow> bool" where
  "all_live p as \<longleftrightarrow> list_all (\<lambda>a. pool_live p a \<noteq> None) as"

definition new_timer :: "'f timer" where
  "new_timer = \<lparr>timer_token = null_token, timer_interval = 0, timer_expired = 0, timer_repeat = 0,
                timer_cb = None\<rparr>"

definition addTimer ::
  "('f timer pmem \<Rightarrow> addr ptr) \<Rightarrow> u64 \<Rightarrow> u64 \<Rightarrow> u64 \<Rightarrow> 'f option \<Rightarrow> 'f loop \<Rightarrow> cxx_error + token \<times> 'f loop" where
  "addTimer malloc now interval rpt cb l =
     (if cb = None then Inl AssertFail
      else
        (case pool_alloc malloc new_timer (timer_pool l) of
           Inl e \<Rightarrow> Inl e
         | Inr (t, pool1) \<Rightarrow>
             (case cab_alloc (Some t) (timer_cabinet l) of
                Inl e \<Rightarrow> Inl e
              | Inr (tok, cab1) \<Rightarrow>
                  (let pool2 = obj_write t \<lparr>timer_token = tok, timer_interval = interval,
                                  timer_expired = now + interval, timer_repeat = rpt, timer_cb = cb\<rparr> pool1;
                       heap = timer_min_heap l @ [t]
                   in if all_live pool2 heap then
                        Inr (tok, l\<lparr>timer_cabinet := cab1, timer_pool := pool2,
                                    timer_min_heap := push_heap (timer_key pool2) heap\<rparr>)
                      else Inl UseAfterFree))))"

definition deleteTimer :: "nat \<Rightarrow> token \<Rightarrow> 'f loop \<Rightarrow> cxx_error + 'f loop" where
  "deleteTimer tid tok l =
     (case cab_free tok (timer_cabinet l) of
        Inl e \<Rightarrow> Inl e
      | Inr (None, cab1) \<Rightarrow> Inr (l\<lparr>timer_cabinet := cab1\<rparr>)
      | Inr (Some a, cab1) \<Rightarrow>
          (case obj_read (timer_pool l) a of
             Inl e \<Rightarrow> Inl e
           | Inr t \<Rightarrow>
               (let pool1 = obj_write a (t\<lparr>timer_expired := 0\<rparr>) (timer_pool l);
                    k = timer_key pool1
                in if \<not> all_live pool1 (timer_min_heap l) then Inl UseAfterFree
                   else if timer_min_heap l = [] then Inl OutOfRange
                   else Inr (snd (loop_run tid (Some (FreeTimer a))
                          (l\<lparr>timer_cabinet := cab1, timer_pool := pool1,
                             timer_min_heap := butlast (pop_heap k (make_heap k (timer_min_heap l)))\<rparr>))))))"

definition getWaitTime :: "u64 \<Rightarrow> 'f loop \<Rightarrow> cxx_error + int" where
  "getWaitTime now l =
     (if run_next_queue l \<noteq> [] then Inr 0
      else
        (case timer_min_heap l of
           [] \<Rightarrow> Inr (- 1)
         | a # _ \<Rightarrow>
             (case obj_read (timer_pool l) a of
                Inl e \<Rightarrow> Inl e
              | Inr t \<Rightarrow>
                  (let wait_time = sint (timer_expired t - now)
                   in Inr (if wait_time < 0 then 0 else wait_time)))))"

section \<open>Callbacks\<close>

datatype 'f call =
    CRunInLoop "'f option"
  | CRunNext "'f option"
  | CRun "'f option"
  | CCancel u64
  | CAddTimer u64 u64 u64 "'f option"
  | CDeleteTimer token
  | CStopLoop

fun exec_call :: "('f timer pmem \<Rightarrow> addr ptr) \<Rightarrow> nat \<Rightarrow> 'f call \<Rightarrow> 'f loop \<Rightarrow> cxx_error + 'f loop" where
  "exec_call malloc tid (CRunInLoop f) l = Inr (snd (runInLoop (map_option User f) l))"
| "exec_call malloc tid (CRunNext f) l = Inr (snd (runNext (map_option User f) l))"
| "exec_call malloc tid (CRun f) l = Inr (snd (loop_run tid (map_option User f) l))"
| "exec_call malloc tid (CCancel i) l = Inr (snd (loop_cancel i l))"
| "exec_call malloc tid (CAddTimer now interval rpt cb) l =
     (case addTimer malloc now interval rpt cb l of Inl e \<Rightarrow> Inl e | Inr (_, l') \<Rightarrow> Inr l')"
| "exec_call malloc tid (CDeleteTimer tok) l = deleteTimer tid tok l"
| "exec_call malloc tid CStopLoop l = Inr (l\<lparr>keep_running := False\<rparr>)"

fun exec_calls :: "('f timer pmem \<Rightarrow> addr ptr) \<Rightarrow> nat \<Rightarrow> 'f call list \<Rightarrow> 'f loop \<Rightarrow> cxx_error + 'f loop" where
  "exec_calls malloc tid [] l = Inr l"
| "exec_calls malloc tid (c # cs) l =
     (case exec_call malloc tid c l of Inl e \<Rightarrow> Inl e | Inr l' \<Rightarrow> exec_calls malloc tid cs l')"

fun call_func :: "('f timer pmem \<Rightarrow> addr ptr) \<Rightarrow> ('f \<Rightarrow> 'f loop \<Rightarrow> 'f call list) \<Rightarrow> nat \<Rightarrow> 'f func \<Rightarrow> 'f loop \<Rightarrow>
    cxx_error + 'f loop" where
  "call_func malloc body tid (User f) l = exec_calls malloc tid (body f l) l"
| "call_func malloc body tid (FreeTimer a) l =
     (case pool_free (Some a) (timer_pool l) of Inl e \<Rightarrow> Inl e | Inr p \<Rightarrow> Inr (l\<lparr>timer_pool := p\<rparr>))"

text \<open>\<open>if (f) { ++cb_level_; f(); --cb_level_; }\<close>\<close>

definition call_cb :: "('f timer pmem \<Rightarrow> addr ptr) \<Rightarrow> ('f \<Rightarrow> 'f loop \<Rightarrow> 'f call list) \<Rightarrow> nat \<Rightarrow> 'f func option \<Rightarrow>
    'f loop \<Rightarrow> cxx_error + 'f loop" where
  "call_cb malloc body tid fo l =
     (case fo of
        None \<Rightarrow> Inr l
      | Some f \<Rightarrow>
          (case call_func malloc body tid f (l\<lparr>cb_level := cb_level l + 1\<rparr>) of
             Inl e \<Rightarrow> Inl e
           | Inr l' \<Rightarrow> Inr (l'\<lparr>cb_level := cb_level l' - 1\<rparr>)))"

text \<open>Running one task of a queue.\<close>

definition run_item_func :: "('f timer pmem \<Rightarrow> addr ptr) \<Rightarrow> ('f \<Rightarrow> 'f loop \<Rightarrow> 'f call list) \<Rightarrow> nat \<Rightarrow>
    'f run_item \<Rightarrow> 'f loop \<Rightarrow> cxx_error + 'f loop" where
  "run_item_func malloc body tid it l =
     call_cb malloc body tid (item_func it) (l\<lparr>trace := trace l @ [RanTask (item_id it)]\<rparr>)"

section \<open>A callback does not extend the queue that is being drained\<close>

lemma length_RemoveById: "length (snd (RemoveRunFuncItemById i q)) \<le> length q"
  by (simp add: RemoveRunFuncItemById_def)

lemma tmp_runInLoop [simp]: "tmp_queue (snd (runInLoop f l)) = tmp_queue l"
  by (auto simp: runInLoop_def allocRunInLoopId_def commitRunRequest_def Let_def)

lemma tmp_runNext [simp]: "tmp_queue (snd (runNext f l)) = tmp_queue l"
  by (auto simp: runNext_def allocRunNextId_def Let_def)

lemma tmp_loop_run [simp]: "tmp_queue (snd (loop_run tid f l)) = tmp_queue l"
  by (simp add: loop_run_def Let_def)

lemma tmp_cancel: "length (tmp_queue (snd (loop_cancel i l))) \<le> length (tmp_queue l)"
  by (auto simp: loop_cancel_def RemoveRunFuncItemById_def Let_def)

lemma tmp_addTimer: "addTimer malloc now iv r cb l = Inr (t, l') \<Longrightarrow> tmp_queue l' = tmp_queue l"
  by (auto simp: addTimer_def Let_def split: if_splits sum.splits)

lemma tmp_deleteTimer: "deleteTimer tid tok l = Inr l' \<Longrightarrow> tmp_queue l' = tmp_queue l"
  by (auto simp: deleteTimer_def Let_def split: if_splits sum.splits option.splits)

lemma tmp_exec_call: "exec_call malloc tid c l = Inr l' \<Longrightarrow> length (tmp_queue l') \<le> length (tmp_queue l)"
  by (cases c) (auto simp: tmp_cancel tmp_addTimer tmp_deleteTimer split: sum.splits)

lemma tmp_exec_calls: "exec_calls malloc tid cs l = Inr l' \<Longrightarrow> length (tmp_queue l') \<le> length (tmp_queue l)"
  by (induction cs arbitrary: l) (auto split: sum.splits dest!: tmp_exec_call intro: order_trans)

lemma tmp_call_func: "call_func malloc body tid f l = Inr l' \<Longrightarrow> length (tmp_queue l') \<le> length (tmp_queue l)"
  by (cases f) (auto split: sum.splits dest: tmp_exec_calls)

lemma tmp_run_item:
  "run_item_func malloc body tid it l = Inr l' \<Longrightarrow> length (tmp_queue l') \<le> length (tmp_queue l)"
  by (auto simp: run_item_func_def call_cb_def split: option.splits sum.splits dest!: tmp_call_func)

section \<open>The handlers\<close>

text \<open>The loops of \<open>handleNextFunc\<close> and \<open>handleRunInLoopFunc\<close> over \<open>tmp_func_queue_\<close>.\<close>

function drain_tmp :: "('f timer pmem \<Rightarrow> addr ptr) \<Rightarrow> ('f \<Rightarrow> 'f loop \<Rightarrow> 'f call list) \<Rightarrow> nat \<Rightarrow> 'f loop \<Rightarrow>
    cxx_error + 'f loop" where
  "drain_tmp malloc body tid l =
     (case tmp_queue l of
        [] \<Rightarrow> Inr l
      | it # rest \<Rightarrow>
          (case run_item_func malloc body tid it (l\<lparr>tmp_queue := rest\<rparr>) of
             Inl e \<Rightarrow> Inl e
           | Inr l' \<Rightarrow> drain_tmp malloc body tid l'))"
  by pat_completeness auto
termination
  by (relation "measure (\<lambda>(m, b, tid, l). length (tmp_queue l))") (auto dest!: tmp_run_item)

declare drain_tmp.simps [simp del]

definition handleNextFunc :: "('f timer pmem \<Rightarrow> addr ptr) \<Rightarrow> ('f \<Rightarrow> 'f loop \<Rightarrow> 'f call list) \<Rightarrow> nat \<Rightarrow> 'f loop \<Rightarrow>
    cxx_error + 'f loop" where
  "handleNextFunc malloc body tid l =
     drain_tmp malloc body tid (l\<lparr>run_next_queue := tmp_queue l, tmp_queue := run_next_queue l\<rparr>)"

definition handleRunInLoopFunc :: "('f timer pmem \<Rightarrow> addr ptr) \<Rightarrow> ('f \<Rightarrow> 'f loop \<Rightarrow> 'f call list) \<Rightarrow> nat \<Rightarrow> 'f loop \<Rightarrow>
    cxx_error + 'f loop" where
  "handleRunInLoopFunc malloc body tid l =
     drain_tmp malloc body tid
       (finishRunRequest (l\<lparr>run_in_loop_queue := tmp_queue l, tmp_queue := run_in_loop_queue l\<rparr>))"

text \<open>\<open>cleanupDeferredTasks\<close>: the tasks are moved to local queues, and the rounds are counted
  down in \<open>remain_loop_count\<close>, whose last value is returned with the state.\<close>

fun run_items :: "('f timer pmem \<Rightarrow> addr ptr) \<Rightarrow> ('f \<Rightarrow> 'f loop \<Rightarrow> 'f call list) \<Rightarrow> nat \<Rightarrow> 'f run_item list \<Rightarrow>
    'f loop \<Rightarrow> cxx_error + 'f loop" where
  "run_items malloc body tid [] l = Inr l"
| "run_items malloc body tid (it # its) l =
     (case run_item_func malloc body tid it l of Inl e \<Rightarrow> Inl e | Inr l' \<Rightarrow> run_items malloc body tid its l')"

definition cleanup_round :: "('f timer pmem \<Rightarrow> addr ptr) \<Rightarrow> ('f \<Rightarrow> 'f loop \<Rightarrow> 'f call list) \<Rightarrow> nat \<Rightarrow> 'f loop \<Rightarrow>
    cxx_error + 'f loop" where
  "cleanup_round malloc body tid l =
     (let run_next_tasks = run_next_queue l; run_in_loop_tasks = run_in_loop_queue l
      in case run_items malloc body tid run_next_tasks (l\<lparr>run_next_queue := [], run_in_loop_queue := []\<rparr>) of
           Inl e \<Rightarrow> Inl e
         | Inr l' \<Rightarrow> run_items malloc body tid run_in_loop_tasks l')"

fun cleanup_rounds :: "('f timer pmem \<Rightarrow> addr ptr) \<Rightarrow> ('f \<Rightarrow> 'f loop \<Rightarrow> 'f call list) \<Rightarrow> nat \<Rightarrow> nat \<Rightarrow> 'f loop \<Rightarrow>
    cxx_error + int \<times> 'f loop" where
  "cleanup_rounds malloc body tid remain l =
     (if run_in_loop_queue l = [] \<and> run_next_queue l = [] then Inr (int remain, l)
      else
        (case remain of
           0 \<Rightarrow> Inr (- 1, l)
         | Suc r \<Rightarrow>
             (case cleanup_round malloc body tid l of
                Inl e \<Rightarrow> Inl e
              | Inr l' \<Rightarrow> cleanup_rounds malloc body tid r l')))"

declare cleanup_rounds.simps [simp del]

text \<open>The flag is whether the warning about recursive actions is logged.\<close>

definition cleanupDeferredTasks :: "('f timer pmem \<Rightarrow> addr ptr) \<Rightarrow> ('f \<Rightarrow> 'f loop \<Rightarrow> 'f call list) \<Rightarrow> nat \<Rightarrow>
    'f loop \<Rightarrow> cxx_error + bool \<times> 'f loop" where
  "cleanupDeferredTasks malloc body tid l =
     (case cleanup_rounds malloc body tid 100 l of
        Inl e \<Rightarrow> Inl e
      | Inr (remain_loop_count, l') \<Rightarrow> Inr (remain_loop_count = 0, l'))"

text \<open>One round of \<open>handleExpiredTimers\<close> for the timer at the front, before its callback.\<close>

definition expire_front :: "addr \<Rightarrow> 'f timer \<Rightarrow> 'f loop \<Rightarrow> cxx_error + 'f loop" where
  "expire_front a t l =
     (if \<not> all_live (timer_pool l) (timer_min_heap l) then Inl UseAfterFree
      else
        (let popped = pop_heap (timer_key (timer_pool l)) (timer_min_heap l)
         in if timer_repeat t = 1 then
              (case cab_free (timer_token t) (timer_cabinet l) of
                 Inl e \<Rightarrow> Inl e
               | Inr (_, cab1) \<Rightarrow>
                   (case pool_free (Some a) (timer_pool l) of
                      Inl e \<Rightarrow> Inl e
                    | Inr pool1 \<Rightarrow> Inr (l\<lparr>timer_min_heap := butlast popped, timer_cabinet := cab1,
                                           timer_pool := pool1\<rparr>)))
            else
              (let t1 = t\<lparr>timer_expired := timer_expired t + timer_interval t\<rparr>;
                   pool1 = obj_write a t1 (timer_pool l);
                   heap1 = push_heap (timer_key pool1) popped;
                   t2 = (if timer_repeat t1 \<noteq> 0 then t1\<lparr>timer_repeat := timer_repeat t1 - 1\<rparr> else t1)
               in Inr (l\<lparr>timer_min_heap := heap1, timer_pool := obj_write a t2 pool1\<rparr>))))"

text \<open>\<open>handleExpiredTimers\<close> reads the clock once; its loop may run for ever (a persistent timer
  of interval 0), so \<open>fuel\<close> bounds the rounds and \<open>None\<close> is a loop that has not ended.\<close>

fun handleExpiredTimers :: "('f timer pmem \<Rightarrow> addr ptr) \<Rightarrow> ('f \<Rightarrow> 'f loop \<Rightarrow> 'f call list) \<Rightarrow> nat \<Rightarrow> nat \<Rightarrow> u64 \<Rightarrow>
    'f loop \<Rightarrow> (cxx_error + 'f loop) option" where
  "handleExpiredTimers malloc body tid fuel now l =
     (case timer_min_heap l of
        [] \<Rightarrow> Some (Inr l)
      | a # _ \<Rightarrow>
          (case obj_read (timer_pool l) a of
             Inl e \<Rightarrow> Some (Inl e)
           | Inr t \<Rightarrow>
               (if now < timer_expired t then Some (Inr l)
                else
                  (case fuel of
                     0 \<Rightarrow> None
                   | Suc n \<Rightarrow>
                       (case expire_front a t l of
                          Inl e \<Rightarrow> Some (Inl e)
                        | Inr l1 \<Rightarrow>
                            (case call_cb malloc body tid (map_option User (timer_cb t))
                                    (l1\<lparr>trace := trace l1 @ [FiredTimer (timer_token t) (timer_expired t)]\<rparr>) of
                               Inl e \<Rightarrow> Some (Inl e)
                             | Inr l2 \<Rightarrow> handleExpiredTimers malloc body tid n now l2))))))"

declare handleExpiredTimers.simps [simp del]

section \<open>Running the loop\<close>

definition resetStat :: "'f loop \<Rightarrow> 'f loop" where
  "resetStat l = l\<lparr>run_in_loop_peak_num := 0, run_next_peak_num := 0\<rparr>"

definition runThisBeforeLoop :: "nat \<Rightarrow> 'f loop \<Rightarrow> 'f loop" where
  "runThisBeforeLoop tid l =
     (let l1 = l\<lparr>loop_thread_id := Some tid, run_event := Some 0\<rparr>;
          l2 = (if run_in_loop_queue l1 \<noteq> [] then commitRunRequest l1 else l1)
      in resetStat l2)"

definition runThisAfterLoop :: "('f timer pmem \<Rightarrow> addr ptr) \<Rightarrow> ('f \<Rightarrow> 'f loop \<Rightarrow> 'f call list) \<Rightarrow> nat \<Rightarrow> 'f loop \<Rightarrow>
    cxx_error + 'f loop" where
  "runThisAfterLoop malloc body tid l =
     (case cleanupDeferredTasks malloc body tid l of
        Inl e \<Rightarrow> Inl e
      | Inr (_, l') \<Rightarrow> Inr (l'\<lparr>loop_thread_id := None, run_event := None\<rparr>))"

text \<open>What \<open>epoll_wait\<close> reports: the loop's own eventfd, whose callback is
  \<open>handleRunInLoopFunc\<close>, or another descriptor, whose callback is the user's.\<close>

datatype 'f ready = RunReady | FdReady 'f

fun dispatch_ready :: "('f timer pmem \<Rightarrow> addr ptr) \<Rightarrow> ('f \<Rightarrow> 'f loop \<Rightarrow> 'f call list) \<Rightarrow> nat \<Rightarrow> 'f ready list \<Rightarrow>
    'f loop \<Rightarrow> cxx_error + 'f loop" where
  "dispatch_ready malloc body tid [] l = Inr l"
| "dispatch_ready malloc body tid (r # rs) l =
     (case (case r of RunReady \<Rightarrow> handleRunInLoopFunc malloc body tid l
                    | FdReady f \<Rightarrow> call_func malloc body tid (User f) l) of
        Inl e \<Rightarrow> Inl e
      | Inr l' \<Rightarrow> dispatch_ready malloc body tid rs l')"

definition loop_round :: "('f timer pmem \<Rightarrow> addr ptr) \<Rightarrow> ('f \<Rightarrow> 'f loop \<Rightarrow> 'f call list) \<Rightarrow> nat \<Rightarrow> nat \<Rightarrow> u64 \<Rightarrow>
    'f ready list \<Rightarrow> 'f loop \<Rightarrow> (cxx_error + 'f loop) option" where
  "loop_round malloc body tid fuel now rs l =
     (case handleExpiredTimers malloc body tid fuel now l of
        None \<Rightarrow> None
      | Some (Inl e) \<Rightarrow> Some (Inl e)
      | Some (Inr l1) \<Rightarrow>
          Some (case dispatch_ready malloc body tid rs l1 of
                  Inl e \<Rightarrow> Inl e
                | Inr l2 \<Rightarrow> handleNextFunc malloc body tid l2))"

end
