(* ===== verification/Event_Loop_Timer.thy ===== *)
theory Event_Loop_Timer
  imports Event_Loop
begin

text \<open>
  Safety and liveness of the loop's timers (\<open>modules/event/common_loop_timer.cpp\<close>): the relation
  between the heap vector, the cabinet and the object pool that every operation and every callback
  keeps, so that no freed timer is ever used; the order in which timers fire; and when
  \<open>handleExpiredTimers\<close> ends.
\<close>

section \<open>The timer invariant\<close>

text \<open>Timers that are waiting to be freed by a deferred task.\<close>

definition func_pending :: "'f func option \<Rightarrow> addr multiset" where
  "func_pending f = (case f of Some (FreeTimer a) \<Rightarrow> {#a#} | _ \<Rightarrow> {#})"

primrec pending :: "'f run_item list \<Rightarrow> addr multiset" where
  "pending [] = {#}"
| "pending (it # q) = func_pending (item_func it) + pending q"

definition loop_pending :: "'f run_item list \<Rightarrow> 'f loop \<Rightarrow> addr multiset" where
  "loop_pending xs l = pending xs + pending (tmp_queue l) + pending (run_next_queue l) +
     pending (run_in_loop_queue l)"

text \<open>\<open>lo\<close> is a lower bound of every expiry, \<open>z\<close> says that intervals are positive. Clock
  readings and intervals are below 2^62 milliseconds, so that no expiry wraps.\<close>

definition timer_ok :: "bool \<Rightarrow> u64 \<Rightarrow> 'f timer \<Rightarrow> bool" where
  "timer_ok z lo t \<longleftrightarrow>
     lo \<le> timer_expired t \<and> unat (timer_expired t) < 2 ^ 63 \<and> unat (timer_interval t) < 2 ^ 62 \<and>
     (z \<longrightarrow> 0 < timer_interval t)"

definition timer_inv :: "bool \<Rightarrow> u64 \<Rightarrow> 'f run_item list \<Rightarrow> 'f loop \<Rightarrow> bool" where
  "timer_inv z lo xs l \<longleftrightarrow>
     cab_inv (timer_cabinet l) \<and> pool_inv (timer_pool l) \<and>
     distinct (timer_min_heap l) \<and> is_heap (timer_key (timer_pool l)) (timer_min_heap l) \<and>
     (\<forall>a \<in> set (timer_min_heap l). \<exists>t. pool_live (timer_pool l) a = Some t \<and>
        cab_lookup (timer_cabinet l) (timer_token t) = Some (Some a) \<and> timer_ok z lo t) \<and>
     (\<forall>tok p. cab_lookup (timer_cabinet l) tok = Some p \<longrightarrow>
        (\<exists>a t. p = Some a \<and> a \<in> set (timer_min_heap l) \<and> pool_live (timer_pool l) a = Some t \<and>
               timer_token t = tok)) \<and>
     (\<forall>a. count (loop_pending xs l) a \<le> 1) \<and>
     (\<forall>a \<in># loop_pending xs l. a \<notin> set (timer_min_heap l) \<and> pool_live (timer_pool l) a \<noteq> None)"

text \<open>A result is safe when it is a state with a property, or one of the two failures that the
  code reports: a cabinet at its maximal size, or an assertion on a failed allocation.\<close>

definition safely :: "('s \<Rightarrow> bool) \<Rightarrow> cxx_error + 's \<Rightarrow> bool" where
  "safely P r \<longleftrightarrow> (case r of Inl e \<Rightarrow> e = LengthError \<or> e = AssertFail | Inr s \<Rightarrow> P s)"

lemma safely_Inr [simp]: "safely P (Inr s) = P s"
  and safely_Inl [simp]: "safely P (Inl e) \<longleftrightarrow> e = LengthError \<or> e = AssertFail"
  by (simp_all add: safely_def)

lemma safelyD: "safely P r \<Longrightarrow> r = Inr s \<Longrightarrow> P s"
  by simp

lemma safely_bind:
  assumes "safely P r" and "\<And>s. P s \<Longrightarrow> safely Q (f s)"
  shows "safely Q (case r of Inl e \<Rightarrow> Inl e | Inr s \<Rightarrow> f s)"
  using assms by (cases r) auto

lemma safely_mono: "safely P r \<Longrightarrow> (\<And>s. P s \<Longrightarrow> Q s) \<Longrightarrow> safely Q r"
  by (cases r) auto

lemma timer_inv_init [simp]: "timer_inv z lo [] loop_init"
  using cab_inv_empty cab_lookup_clear [of cab_empty]
  by (auto simp: timer_inv_def loop_init_def is_heap_def loop_pending_def cab_lookup_def cab_empty_def)

lemma is_heap_cong: "(\<And>x. x \<in> set xs \<Longrightarrow> k x = k' x) \<Longrightarrow> is_heap k xs = is_heap k' xs"
  by (auto simp: is_heap_def heap_at_def)

lemma timer_inv_live:
  "timer_inv z lo xs l \<Longrightarrow> a \<in> set (timer_min_heap l) \<Longrightarrow> \<exists>t. pool_live (timer_pool l) a = Some t \<and>
     cab_lookup (timer_cabinet l) (timer_token t) = Some (Some a) \<and> timer_ok z lo t"
  by (simp add: timer_inv_def)

lemma timer_inv_all_live: "timer_inv z lo xs l \<Longrightarrow> all_live (timer_pool l) (timer_min_heap l)"
  by (auto simp: all_live_def list_all_iff dest: timer_inv_live)

lemma timer_inv_frame:
  assumes "timer_inv z lo xs l"
    and "timer_cabinet l' = timer_cabinet l" and "timer_pool l' = timer_pool l"
    and "timer_min_heap l' = timer_min_heap l" and "loop_pending xs' l' \<subseteq># loop_pending xs l"
  shows "timer_inv z lo xs' l'"
proof -
  have "count (loop_pending xs' l') a \<le> count (loop_pending xs l) a" for a
    using assms(5) by (rule mset_subset_eq_count)
  then have "count (loop_pending xs' l') a \<le> 1" for a
    using assms(1) by (metis timer_inv_def order_trans)
  with assms show ?thesis unfolding timer_inv_def by (auto dest: mset_subset_eqD)
qed

lemma pending_append [simp]: "pending (q @ r) = pending q + pending r"
  by (induction q) simp_all

lemma func_pending_simps [simp]:
  "func_pending (Some (FreeTimer a)) = {#a#}" "func_pending (map_option User f) = {#}"
  "func_pending None = {#}" "func_pending (Some (User g)) = {#}"
  by (auto simp: func_pending_def split: option.splits)

lemma pending_filter: "pending (filter P q) \<subseteq># pending q"
  by (induction q) (auto intro: subset_mset.add_mono subset_mset.order_trans [OF _ mset_subset_eq_add_right])

section \<open>Task calls leave the timers alone\<close>

lemma runInLoop_frame:
  "timer_cabinet (snd (runInLoop f l)) = timer_cabinet l"
  "timer_pool (snd (runInLoop f l)) = timer_pool l"
  "timer_min_heap (snd (runInLoop f l)) = timer_min_heap l"
  "loop_pending xs (snd (runInLoop f l)) = loop_pending xs l + func_pending f"
  by (auto simp: runInLoop_def allocRunInLoopId_def commitRunRequest_def Let_def loop_pending_def)

lemma runNext_frame:
  "timer_cabinet (snd (runNext f l)) = timer_cabinet l"
  "timer_pool (snd (runNext f l)) = timer_pool l"
  "timer_min_heap (snd (runNext f l)) = timer_min_heap l"
  "loop_pending xs (snd (runNext f l)) = loop_pending xs l + func_pending f"
  by (auto simp: runNext_def allocRunNextId_def Let_def loop_pending_def)

lemma loop_run_frame:
  "timer_cabinet (snd (loop_run tid f l)) = timer_cabinet l"
  "timer_pool (snd (loop_run tid f l)) = timer_pool l"
  "timer_min_heap (snd (loop_run tid f l)) = timer_min_heap l"
  "loop_pending xs (snd (loop_run tid f l)) = loop_pending xs l + func_pending f"
  by (simp_all add: loop_run_def Let_def runInLoop_frame runNext_frame)

lemma loop_cancel_frame:
  "timer_cabinet (snd (loop_cancel i l)) = timer_cabinet l"
  "timer_pool (snd (loop_cancel i l)) = timer_pool l"
  "timer_min_heap (snd (loop_cancel i l)) = timer_min_heap l"
  "loop_pending xs (snd (loop_cancel i l)) \<subseteq># loop_pending xs l"
  by (auto simp: loop_cancel_def RemoveRunFuncItemById_def Let_def loop_pending_def
      intro!: subset_mset.add_mono pending_filter)

section \<open>Adding, deleting and expiring timers\<close>

definition call_ok :: "bool \<Rightarrow> u64 \<Rightarrow> 'f call \<Rightarrow> bool" where
  "call_ok z lo c \<longleftrightarrow>
     (case c of
        CAddTimer now interval rpt cb \<Rightarrow>
          lo \<le> now \<and> unat now < 2 ^ 62 \<and> unat interval < 2 ^ 62 \<and> (z \<longrightarrow> 0 < interval)
      | _ \<Rightarrow> True)"

lemma unat_add_62:
  fixes a b :: u64
  assumes "unat a < 2 ^ 62" and "unat b < 2 ^ 62"
  shows "unat (a + b) = unat a + unat b" and "unat (a + b) < 2 ^ 63" and "a \<le> a + b"
proof -
  show e: "unat (a + b) = unat a + unat b" using assms by (simp add: unat_word_ariths)
  with assms show "unat (a + b) < 2 ^ 63" "a \<le> a + b" by (simp_all add: word_le_nat_alt)
qed

lemma addTimer_safe:
  assumes inv: "timer_inv z lo xs l" and mf: "malloc_fresh malloc"
    and ok: "call_ok z lo (CAddTimer now iv r cb)"
  shows "safely (\<lambda>(tok, l'). timer_inv z lo xs l' \<and>
      (\<exists>a t. a \<notin> set (timer_min_heap l) \<and> pool_live (timer_pool l) a = None \<and>
        mset (timer_min_heap l') = add_mset a (mset (timer_min_heap l)) \<and>
        pool_live (timer_pool l') = (pool_live (timer_pool l))(a \<mapsto> t) \<and>
        t = \<lparr>timer_token = tok, timer_interval = iv, timer_expired = now + iv, timer_repeat = r, timer_cb = cb\<rparr>))
      (addTimer malloc now iv r cb l)"
proof (cases "addTimer malloc now iv r cb l")
  case (Inl e)
  have pe: "e' = AssertFail" if "pool_alloc malloc new_timer (timer_pool l) = Inl e'" for e'
  proof -
    from inv obtain as where via: "pool_inv_via as (timer_pool l)" by (auto simp: timer_inv_def pool_inv_def)
    show ?thesis
    proof (cases "free_header (timer_pool l)")
      case None
      with that show ?thesis by (auto simp: pool_alloc_def split: option.splits)
    next
      case (Some b)
      with via link_chain_head [of "pool_mem (timer_pool l)" b as] that show ?thesis
        by (auto simp: pool_alloc_def pool_inv_via_def)
    qed
  qed
  have ce: "e' = LengthError" if "cab_alloc p (timer_cabinet l) = Inl e'" for p e'
    using cab_alloc_error [of "timer_cabinet l" p e'] that inv by (simp add: timer_inv_def)
  show ?thesis
  proof (cases "cb = None \<or> (\<exists>e'. pool_alloc malloc new_timer (timer_pool l) = Inl e')")
    case True
    with Inl pe show ?thesis by (auto simp: addTimer_def split: if_splits)
  next
    case False
    then obtain a p1 where p1: "pool_alloc malloc new_timer (timer_pool l) = Inr (a, p1)"
      by (cases "pool_alloc malloc new_timer (timer_pool l)") auto
    show ?thesis
    proof (cases "cab_alloc (Some a) (timer_cabinet l)")
      case (Inl e')
      with False p1 ce show ?thesis by (auto simp: addTimer_def)
    next
      case (Inr v)
      obtain tok c1 where v: "v = (tok, c1)" by (cases v)
      have ps: "pool_inv p1" "pool_live (timer_pool l) a = None" "pool_live p1 = (pool_live (timer_pool l))(a \<mapsto> new_timer)"
        using pool_alloc_spec [OF _ mf p1] inv by (auto simp: timer_inv_def)
      have "all_live (obj_write a t p1) (timer_min_heap l @ [a])" for t
        using obj_write_spec [OF ps(1), of a new_timer t] ps timer_inv_all_live [OF inv]
        by (auto simp: all_live_def list_all_iff)
      with \<open>addTimer malloc now iv r cb l = Inl e\<close> False p1 Inr v show ?thesis
        by (auto simp: addTimer_def Let_def)
    qed
  qed
next
  case (Inr v)
  obtain tok l' where v: "v = (tok, l')" by (cases v)
  let ?tm = "\<lparr>timer_token = tok, timer_interval = iv, timer_expired = now + iv, timer_repeat = r, timer_cb = cb\<rparr>"
  from Inr v obtain a p1 c1 where p1: "pool_alloc malloc new_timer (timer_pool l) = Inr (a, p1)"
    and c1: "cab_alloc (Some a) (timer_cabinet l) = Inr (tok, c1)"
    and l': "l' = l\<lparr>timer_cabinet := c1, timer_pool := obj_write a ?tm p1,
               timer_min_heap := push_heap (timer_key (obj_write a ?tm p1)) (timer_min_heap l @ [a])\<rparr>"
    by (auto simp: addTimer_def Let_def split: if_splits sum.splits)
  have ps: "pool_inv p1" "pool_live (timer_pool l) a = None" "pool_live p1 = (pool_live (timer_pool l))(a \<mapsto> new_timer)"
    using pool_alloc_spec [OF _ mf p1] inv by (auto simp: timer_inv_def)
  define p2 where "p2 = obj_write a ?tm p1"
  have p2: "pool_inv p2" "pool_live p2 = (pool_live (timer_pool l))(a \<mapsto> ?tm)"
    using obj_write_spec [OF ps(1), of a new_timer ?tm] ps by (simp_all add: p2_def)
  have cs: "cab_inv c1" "cab_lookup (timer_cabinet l) tok = None" "cab_lookup c1 = (cab_lookup (timer_cabinet l))(tok \<mapsto> Some a)"
    using cab.alloc_law [OF _ c1] inv by (auto simp: timer_inv_def)
  have nin: "a \<notin> set (timer_min_heap l)" using inv ps(2) by (auto dest: timer_inv_live)
  have tok: "timer_ok z lo ?tm"
    using ok unat_add_62 [of now iv] by (auto simp: call_ok_def timer_ok_def)
  have keys: "timer_key p2 b = timer_key (timer_pool l) b" if "b \<in> set (timer_min_heap l)" for b
    using that nin p2(2) by (auto simp: timer_key_def)
  have "is_heap (timer_key p2) (timer_min_heap l)"
    using inv is_heap_cong [of "timer_min_heap l" "timer_key p2" "timer_key (timer_pool l)", OF keys]
    by (simp add: timer_inv_def)
  then have heap: "is_heap (timer_key p2) (timer_min_heap l')"
    unfolding l' by (simp add: p2_def [symmetric] timer_heap.push_back_heap)
  have hs: "set (timer_min_heap l') = insert a (set (timer_min_heap l))"
    "distinct (timer_min_heap l')" "mset (timer_min_heap l') = add_mset a (mset (timer_min_heap l))"
    using inv nin unfolding l' by (auto simp: timer_inv_def timer_heap.push_mset)
  have flds: "timer_pool l' = p2" "timer_cabinet l' = c1" "loop_pending xs l' = loop_pending xs l"
    by (simp_all add: l' p2_def loop_pending_def)
  have one: "\<exists>t. pool_live p2 b = Some t \<and> cab_lookup c1 (timer_token t) = Some (Some b) \<and> timer_ok z lo t"
    if "b \<in> set (timer_min_heap l')" for b
  proof (cases "b = a")
    case True
    then show ?thesis using p2(2) cs(3) tok by simp
  next
    case False
    then have b: "b \<in> set (timer_min_heap l)" using that hs by simp
    from timer_inv_live [OF inv b] cs p2(2) False show ?thesis by fastforce
  qed
  have two: "\<exists>b t. p = Some b \<and> b \<in> set (timer_min_heap l') \<and> pool_live p2 b = Some t \<and> timer_token t = tk"
    if "cab_lookup c1 tk = Some p" for tk p
  proof (cases "tk = tok")
    case True
    then show ?thesis using that cs(3) p2(2) hs by auto
  next
    case False
    then have "cab_lookup (timer_cabinet l) tk = Some p" using that cs(3) by simp
    then obtain b t where "p = Some b" "b \<in> set (timer_min_heap l)" "pool_live (timer_pool l) b = Some t" "timer_token t = tk"
      using inv unfolding timer_inv_def by blast
    then show ?thesis using hs p2(2) nin by auto
  qed
  have "timer_inv z lo xs l'"
    using inv p2 cs(1) hs heap one two ps(2) unfolding timer_inv_def flds by auto
  then show ?thesis using Inr v nin ps(2) hs(3) p2(2) flds by auto
qed


text \<open>The heap vector loses at most elements and the timers that stay are unchanged.\<close>

definition heap_shrinks :: "'f loop \<Rightarrow> 'f loop \<Rightarrow> bool" where
  "heap_shrinks l l' \<longleftrightarrow> mset (timer_min_heap l') \<subseteq># mset (timer_min_heap l) \<and>
     (\<forall>b \<in> set (timer_min_heap l'). pool_live (timer_pool l') b = pool_live (timer_pool l) b)"

lemma heap_shrinks_refl:
  "timer_min_heap l' = timer_min_heap l \<Longrightarrow> timer_pool l' = timer_pool l \<Longrightarrow> heap_shrinks l l'"
  by (simp add: heap_shrinks_def)

lemma timer_lookup_unique:
  assumes "timer_inv z lo xs l" and "a \<in> set (timer_min_heap l)" and "pool_live (timer_pool l) a = Some t"
    and "b \<in> set (timer_min_heap l)" and "pool_live (timer_pool l) b = Some u" and "timer_token u = timer_token t"
  shows "b = a"
  using timer_inv_live [OF assms(1,2)] timer_inv_live [OF assms(1,4)] assms by auto

text \<open>Taking the timer \<open>a\<close> out of the heap and its token out of the cabinet, wherever the object
  goes, keeps the rest of the relation.\<close>

lemma timer_inv_remove:
  assumes inv: "timer_inv z lo xs l" and a: "a \<in> set (timer_min_heap l)"
    and t: "pool_live (timer_pool l) a = Some t"
    and cab: "cab_inv (timer_cabinet l')" "cab_lookup (timer_cabinet l') = (cab_lookup (timer_cabinet l))(timer_token t := None)"
    and pool: "pool_inv (timer_pool l')" "\<And>b. b \<noteq> a \<Longrightarrow> pool_live (timer_pool l') b = pool_live (timer_pool l) b"
    and heap: "mset (timer_min_heap l') = mset (timer_min_heap l) - {#a#}"
      "is_heap (timer_key (timer_pool l')) (timer_min_heap l')"
    and pend: "\<And>b. count (loop_pending xs l') b \<le> count (loop_pending xs l) b + (if b = a then 1 else 0)"
      "a \<in># loop_pending xs l' \<Longrightarrow> pool_live (timer_pool l') a \<noteq> None"
  shows "timer_inv z lo xs l' \<and> heap_shrinks l l'"
proof -
  have dist: "distinct (timer_min_heap l)" using inv by (simp add: timer_inv_def)
  then have "mset (timer_min_heap l') = mset (remove1 a (timer_min_heap l))" using heap by simp
  then have hs: "set (timer_min_heap l') = set (timer_min_heap l) - {a}" and dist': "distinct (timer_min_heap l')"
    using dist by (metis set_mset_mset set_remove1_eq, metis distinct_remove1 mset_eq_imp_distinct_iff)
  have one: "\<exists>u. pool_live (timer_pool l') b = Some u \<and>
      cab_lookup (timer_cabinet l') (timer_token u) = Some (Some b) \<and> timer_ok z lo u"
    if b: "b \<in> set (timer_min_heap l')" for b
  proof -
    have b': "b \<in> set (timer_min_heap l)" "b \<noteq> a" using b hs by auto
    from timer_inv_live [OF inv b'(1)] obtain u where u: "pool_live (timer_pool l) b = Some u"
      "cab_lookup (timer_cabinet l) (timer_token u) = Some (Some b)" "timer_ok z lo u" by auto
    have "timer_token u \<noteq> timer_token t" using timer_lookup_unique [OF inv a t b'(1) u(1)] b'(2) by blast
    with u b' pool cab show ?thesis by simp
  qed
  have two: "\<exists>b u. p = Some b \<and> b \<in> set (timer_min_heap l') \<and> pool_live (timer_pool l') b = Some u \<and> timer_token u = tk"
    if "cab_lookup (timer_cabinet l') tk = Some p" for tk p
  proof -
    from that cab have n: "tk \<noteq> timer_token t" "cab_lookup (timer_cabinet l) tk = Some p" by (auto split: if_splits)
    then obtain b u where "p = Some b" "b \<in> set (timer_min_heap l)" "pool_live (timer_pool l) b = Some u" "timer_token u = tk"
      using inv unfolding timer_inv_def by blast
    moreover from this n t have "b \<noteq> a" by auto
    ultimately show ?thesis using hs pool by auto
  qed
  have np: "count (loop_pending xs l) a = 0" using inv a unfolding timer_inv_def by (auto simp: not_in_iff [symmetric])
  have c1: "count (loop_pending xs l') b \<le> 1" for b
    using pend(1) [of b] np inv unfolding timer_inv_def by (cases "b = a") (auto intro: order_trans)
  have c2: "b \<notin> set (timer_min_heap l') \<and> pool_live (timer_pool l') b \<noteq> None" if "b \<in># loop_pending xs l'" for b
  proof (cases "b = a")
    case True
    then show ?thesis using pend(2) that hs by simp
  next
    case False
    then have "b \<in># loop_pending xs l" using pend(1) [of b] that by (simp add: count_greater_zero_iff [symmetric] del: count_greater_zero_iff)
    then show ?thesis using inv hs pool(2) [OF False] unfolding timer_inv_def by auto
  qed
  have "timer_inv z lo xs l'"
    using cab(1) pool(1) dist' heap(2) one two c1 c2 unfolding timer_inv_def by auto
  moreover have "heap_shrinks l l'" using heap(1) hs pool(2) by (auto simp: heap_shrinks_def)
  ultimately show ?thesis by simp
qed

lemma deleteTimer_safe:
  assumes inv: "timer_inv z lo xs l" and lo: "0 < lo"
  shows "\<exists>l'. deleteTimer tid tok l = Inr l' \<and> timer_inv z lo xs l' \<and> heap_shrinks l l' \<and>
           cab_lookup (timer_cabinet l') = (cab_lookup (timer_cabinet l))(tok := None)"
proof -
  have ci: "cab_inv (timer_cabinet l)" and pi: "pool_inv (timer_pool l)" using inv by (simp_all add: timer_inv_def)
  from cab.release_law [OF ci, of tok] obtain c1 where
    c1: "cab_free tok (timer_cabinet l) = Inr (case cab_lookup (timer_cabinet l) tok of Some p \<Rightarrow> p | None \<Rightarrow> None, c1)"
      "cab_inv c1" "cab_lookup c1 = (cab_lookup (timer_cabinet l))(tok := None)" by auto
  show ?thesis
  proof (cases "cab_lookup (timer_cabinet l) tok")
    case None
    let ?l = "l\<lparr>timer_cabinet := c1\<rparr>"
    have "cab_lookup c1 = cab_lookup (timer_cabinet l)" using c1 None by auto
    then have "timer_inv z lo xs ?l" using inv c1 by (simp add: timer_inv_def loop_pending_def)
    then show ?thesis using c1 None by (simp add: deleteTimer_def heap_shrinks_def)
  next
    case (Some p)
    then obtain a t where a: "p = Some a" "a \<in> set (timer_min_heap l)" "pool_live (timer_pool l) a = Some t" "timer_token t = tok"
      using inv unfolding timer_inv_def by blast
    define p1 where "p1 = obj_write a (t\<lparr>timer_expired := 0\<rparr>) (timer_pool l)"
    have p1: "pool_inv p1" "pool_live p1 = (pool_live (timer_pool l))(a \<mapsto> t\<lparr>timer_expired := 0\<rparr>)"
      using obj_write_spec [OF pi a(3)] by (simp_all add: p1_def)
    let ?k = "timer_key p1"
    define h where "h = butlast (pop_heap ?k (make_heap ?k (timer_min_heap l)))"
    define l1 where "l1 = l\<lparr>timer_cabinet := c1, timer_pool := p1, timer_min_heap := h\<rparr>"
    define l' where "l' = snd (loop_run tid (Some (FreeTimer a)) l1)"
    have ka: "?k a = 0" using p1(2) by (simp add: timer_key_def)
    have kb: "0 < ?k b" if "b \<in> set (timer_min_heap l)" "b \<noteq> a" for b
      using timer_inv_live [OF inv that(1)] that(2) p1(2) lo by (auto simp: timer_key_def timer_ok_def)
    have least: "\<forall>b \<in> set (timer_min_heap l). b \<noteq> a \<longrightarrow> ?k a < ?k b" using ka kb by simp
    note er = timer_heap.make_pop_erase [OF a(2) least, folded h_def]
    have al: "all_live p1 (timer_min_heap l)"
      using timer_inv_all_live [OF inv] p1(2) by (auto simp: all_live_def list_all_iff)
    have ne: "timer_min_heap l \<noteq> []" using a(2) by auto
    have del: "deleteTimer tid tok l = Inr l'"
      using c1(1) Some a al ne by (simp add: deleteTimer_def obj_read_live l'_def l1_def p1_def h_def Let_def)
    have flds: "timer_pool l' = p1" "timer_cabinet l' = c1" "timer_min_heap l' = h"
      "loop_pending xs l' = add_mset a (loop_pending xs l)"
      by (simp_all add: l'_def loop_run_frame l1_def) (simp add: loop_pending_def)
    have "timer_inv z lo xs l' \<and> heap_shrinks l l'"
      by (rule timer_inv_remove [OF inv a(2,3)]) (use flds c1 p1 er a in auto)
    then show ?thesis using del c1(3) flds by simp
  qed
qed

lemma expire_front_safe:
  assumes inv: "timer_inv z lo xs l" and ne: "timer_min_heap l = a # rest"
    and t: "pool_live (timer_pool l) a = Some t" and due: "timer_expired t \<le> now" and now: "unat now < 2 ^ 62"
  shows "\<exists>l'. expire_front a t l = Inr l' \<and> timer_inv z (timer_expired t) xs l' \<and>
     (if timer_repeat t = 1 then heap_shrinks l l' \<and> mset (timer_min_heap l') = mset rest
      else mset (timer_min_heap l') = mset (timer_min_heap l) \<and>
           (\<exists>t'. pool_live (timer_pool l') = (pool_live (timer_pool l))(a \<mapsto> t') \<and>
                 timer_expired t' = timer_expired t + timer_interval t))"
proof -
  let ?k = "timer_key (timer_pool l)" and ?lo = "timer_expired t"
  have ah: "a \<in> set (timer_min_heap l)" and hd: "hd (timer_min_heap l) = a" and ne': "timer_min_heap l \<noteq> []"
    using ne by simp_all
  have ci: "cab_inv (timer_cabinet l)" and pi: "pool_inv (timer_pool l)"
    and hp: "is_heap ?k (timer_min_heap l)" and di: "distinct (timer_min_heap l)"
    using inv by (simp_all add: timer_inv_def)
  have least: "?lo \<le> ?k b" if "b \<in> set (timer_min_heap l)" for b
  proof -
    from that obtain i where "i < length (timer_min_heap l)" "timer_min_heap l ! i = b" by (meson in_set_conv_nth)
    with is_heap_front_least [OF hp, of i] ne t show ?thesis by (simp add: timer_key_def)
  qed
  have inv': "timer_inv z ?lo xs l"
    using inv least unfolding timer_inv_def timer_ok_def by (fastforce simp: timer_key_def split: option.splits)
  have tk: "timer_ok z ?lo t" "cab_lookup (timer_cabinet l) (timer_token t) = Some (Some a)"
    using timer_inv_live [OF inv' ah] t by auto
  let ?pp = "pop_heap ?k (timer_min_heap l)"
  note sp = timer_heap.pop_split [OF hp ne', unfolded hd] and bh = timer_heap.pop_is_heap [OF hp]
  have bs: "set (butlast ?pp) = set (timer_min_heap l) - {a}"
    using sp(2) di by (metis mset_remove1 set_mset_mset set_remove1_eq)
  have al: "all_live (timer_pool l) (timer_min_heap l)" by (rule timer_inv_all_live [OF inv])
  show ?thesis
  proof (cases "timer_repeat t = 1")
    case True
    from cab.release_law [OF ci, of "timer_token t"] tk(2) obtain c1 where
      c1: "cab_free (timer_token t) (timer_cabinet l) = Inr (Some a, c1)"
        "cab_inv c1" "cab_lookup c1 = (cab_lookup (timer_cabinet l))(timer_token t := None)" by auto
    from pool_free_spec [OF pi t] obtain p1 where
      p1: "pool_free (Some a) (timer_pool l) = Inr p1" "pool_inv p1" "pool_live p1 = (pool_live (timer_pool l))(a := None)" by auto
    let ?l = "l\<lparr>timer_min_heap := butlast ?pp, timer_cabinet := c1, timer_pool := p1\<rparr>"
    have "?k b = timer_key p1 b" if "b \<in> set (butlast ?pp)" for b
      using that bs p1(3) by (simp add: timer_key_def)
    then have "is_heap (timer_key p1) (butlast ?pp)" using bh is_heap_cong by blast
    moreover have np: "a \<notin># loop_pending xs l" using inv ah unfolding timer_inv_def by auto
    ultimately have "timer_inv z ?lo xs ?l \<and> heap_shrinks l ?l"
      by (intro timer_inv_remove [OF inv' ah t]) (use c1 p1 sp in \<open>auto simp: loop_pending_def\<close>)
    moreover have "mset (butlast ?pp) = mset rest" using sp(2) ne by simp
    ultimately show ?thesis using True al c1 p1 by (simp add: expire_front_def Let_def)
  next
    case False
    define t1 where "t1 = t\<lparr>timer_expired := timer_expired t + timer_interval t\<rparr>"
    define t2 where "t2 = (if timer_repeat t1 \<noteq> 0 then t1\<lparr>timer_repeat := timer_repeat t1 - 1\<rparr> else t1)"
    define p1 where "p1 = obj_write a t1 (timer_pool l)"
    define p2 where "p2 = obj_write a t2 p1"
    have p1: "pool_inv p1" "pool_live p1 = (pool_live (timer_pool l))(a \<mapsto> t1)"
      using obj_write_spec [OF pi t] by (simp_all add: p1_def)
    have p2: "pool_inv p2" "pool_live p2 = (pool_live (timer_pool l))(a \<mapsto> t2)"
      using obj_write_spec [OF p1(1), of a t1 t2] p1(2) by (simp_all add: p2_def)
    have t2: "timer_expired t2 = timer_expired t + timer_interval t" "timer_token t2 = timer_token t"
      "timer_interval t2 = timer_interval t" by (simp_all add: t2_def t1_def)
    have k12: "timer_key p1 = timer_key p2"
      using p1(2) p2(2) t2(1) by (auto simp: timer_key_def t1_def fun_eq_iff)
    let ?h = "push_heap (timer_key p1) ?pp"
    have "?k b = timer_key p2 b" if "b \<in> set (butlast ?pp)" for b
      using that bs p2(2) by (simp add: timer_key_def)
    then have "is_heap (timer_key p2) (butlast ?pp)" using bh is_heap_cong by blast
    then have hh: "is_heap (timer_key p2) ?h" by (simp add: timer_heap.push_is_heap k12)
    have hm: "mset ?h = mset (timer_min_heap l)" by (simp add: timer_heap.push_mset timer_heap.pop_mset)
    then have hs: "set ?h = set (timer_min_heap l)" "distinct ?h"
      using di by (metis set_mset_mset, metis mset_eq_imp_distinct_iff)
    have "unat (timer_expired t) < 2 ^ 62" using due now by (simp add: word_le_nat_alt)
    then have ok2: "timer_ok z ?lo t2"
      using tk(1) unat_add_62 [of "timer_expired t" "timer_interval t"] by (simp add: timer_ok_def t2)
    let ?l = "l\<lparr>timer_min_heap := ?h, timer_pool := p2\<rparr>"
    have one: "\<exists>u. pool_live p2 b = Some u \<and> cab_lookup (timer_cabinet l) (timer_token u) = Some (Some b) \<and> timer_ok z ?lo u"
      if "b \<in> set (timer_min_heap l)" for b
      using timer_inv_live [OF inv' that] tk ok2 t2 p2(2) by (cases "b = a") auto
    have two: "\<exists>b u. p = Some b \<and> b \<in> set (timer_min_heap l) \<and> pool_live p2 b = Some u \<and> timer_token u = tkn"
      if "cab_lookup (timer_cabinet l) tkn = Some p" for tkn p
    proof -
      from that inv obtain b u where "p = Some b" "b \<in> set (timer_min_heap l)" "pool_live (timer_pool l) b = Some u" "timer_token u = tkn"
        unfolding timer_inv_def by blast
      then show ?thesis using p2(2) t t2 by (cases "b = a") auto
    qed
    have pe: "loop_pending xs ?l = loop_pending xs l" by (simp add: loop_pending_def)
    have "timer_inv z ?lo xs ?l"
      using inv' p2 hs hh one two unfolding timer_inv_def pe by auto
    then show ?thesis using False al hm p2(2) t2(1)
      by (auto simp: expire_front_def Let_def t1_def [symmetric] t2_def [symmetric] p1_def [symmetric] p2_def [symmetric])
  qed
qed


section \<open>Callbacks and handlers\<close>

text \<open>How much overdue work the heap holds at \<open>now\<close>: for each timer, the milliseconds from its
  expiry to \<open>now\<close>, counting the last one.\<close>

definition overdue :: "u64 \<Rightarrow> 'f loop \<Rightarrow> nat" where
  "overdue now l = sum_mset (image_mset (\<lambda>a. unat now + 1 - unat (timer_key (timer_pool l) a)) (mset (timer_min_heap l)))"

lemma overdue_shrinks:
  assumes "heap_shrinks l l'"
  shows "overdue now l' \<le> overdue now l"
proof -
  let ?f = "\<lambda>p a. unat now + 1 - unat (timer_key p a)"
  have "image_mset (?f (timer_pool l')) (mset (timer_min_heap l')) =
      image_mset (?f (timer_pool l)) (mset (timer_min_heap l'))"
    using assms by (intro image_mset_cong) (auto simp: heap_shrinks_def timer_key_def)
  moreover have "image_mset (?f (timer_pool l)) (mset (timer_min_heap l')) \<subseteq>#
      image_mset (?f (timer_pool l)) (mset (timer_min_heap l))"
    using assms by (intro image_mset_subseteq_mono) (simp add: heap_shrinks_def)
  then obtain D where "image_mset (?f (timer_pool l)) (mset (timer_min_heap l)) =
      image_mset (?f (timer_pool l)) (mset (timer_min_heap l')) + D" by (metis subset_mset.le_iff_add)
  ultimately show ?thesis by (simp add: overdue_def)
qed

text \<open>\<open>calm now l l'\<close>: between the two states no timer was added that is due at \<open>now\<close>.\<close>

definition calm :: "bool \<Rightarrow> u64 \<Rightarrow> 'f loop \<Rightarrow> 'f loop \<Rightarrow> bool" where
  "calm z now l l' \<longleftrightarrow> (z \<longrightarrow> overdue now l' \<le> overdue now l)"

lemma calm_shrinks: "heap_shrinks l l' \<Longrightarrow> calm z now l l'"
  by (simp add: calm_def overdue_shrinks)

lemma calm_refl: "timer_min_heap l' = timer_min_heap l \<Longrightarrow> timer_pool l' = timer_pool l \<Longrightarrow> calm z now l l'"
  by (simp add: calm_def overdue_def)

lemma calm_trans: "calm z now l l1 \<Longrightarrow> calm z now l1 l2 \<Longrightarrow> calm z now l l2"
  by (auto simp: calm_def)

text \<open>A call is made at or after \<open>now\<close>.\<close>

fun call_after :: "u64 \<Rightarrow> 'f call \<Rightarrow> bool" where
  "call_after now (CAddTimer now' iv r cb) \<longleftrightarrow> now \<le> now'"
| "call_after now _ \<longleftrightarrow> True"

lemma addTimer_calm:
  assumes "a \<notin> set (timer_min_heap l)" and "mset (timer_min_heap l') = add_mset a (mset (timer_min_heap l))"
    and "pool_live (timer_pool l') = (pool_live (timer_pool l))(a \<mapsto> t)" and "now < timer_expired t"
  shows "overdue now l' = overdue now l"
proof -
  have "image_mset (\<lambda>b. unat now + 1 - unat (timer_key (timer_pool l') b)) (mset (timer_min_heap l)) =
      image_mset (\<lambda>b. unat now + 1 - unat (timer_key (timer_pool l) b)) (mset (timer_min_heap l))"
    using assms by (intro image_mset_cong) (auto simp: timer_key_def)
  with assms show ?thesis by (simp add: overdue_def timer_key_def word_less_nat_alt)
qed

lemma exec_call_safe:
  assumes inv: "timer_inv z lo xs l" and mf: "malloc_fresh malloc" and lo: "0 < lo"
    and ok: "call_ok z lo c" "call_after now c"
  shows "safely (\<lambda>l'. timer_inv z lo xs l' \<and> calm z now l l') (exec_call malloc tid c l)"
proof (cases c)
  case (CAddTimer now' iv r cb)
  have lt: "now < now' + iv" if z using ok CAddTimer that unat_add_62 [of now' iv]
    by (simp add: call_ok_def word_le_nat_alt word_less_nat_alt)
  show ?thesis
  proof (cases "addTimer malloc now' iv r cb l")
    case (Inl e)
    with addTimer_safe [OF inv mf, of now' iv r cb] ok CAddTimer show ?thesis by simp
  next
    case (Inr v)
    obtain tok l' where v: "v = (tok, l')" by (cases v)
    let ?t = "\<lparr>timer_token = tok, timer_interval = iv, timer_expired = now' + iv, timer_repeat = r, timer_cb = cb\<rparr>"
    from addTimer_safe [OF inv mf, of now' iv r cb] ok CAddTimer Inr v obtain a where
      "timer_inv z lo xs l'" and a: "a \<notin> set (timer_min_heap l)"
      "mset (timer_min_heap l') = add_mset a (mset (timer_min_heap l))"
      "pool_live (timer_pool l') = (pool_live (timer_pool l))(a \<mapsto> ?t)" by auto
    moreover have "calm z now l l'" using addTimer_calm [OF a, of now] lt by (simp add: calm_def)
    ultimately show ?thesis using CAddTimer Inr v by simp
  qed
next
  case (CDeleteTimer tok)
  with deleteTimer_safe [OF inv lo, of tid tok] show ?thesis by (auto intro: calm_shrinks)
qed (auto intro!: timer_inv_frame [OF inv] calm_refl simp: runInLoop_frame runNext_frame loop_run_frame
    loop_cancel_frame, simp_all add: loop_pending_def)

definition body_ok :: "bool \<Rightarrow> u64 \<Rightarrow> ('f \<Rightarrow> 'f loop \<Rightarrow> 'f call list) \<Rightarrow> bool" where
  "body_ok z now body \<longleftrightarrow> (\<forall>f l c. c \<in> set (body f l) \<longrightarrow> call_ok z now c \<and> call_after now c)"

lemma call_ok_mono: "call_ok z lo' c \<Longrightarrow> lo \<le> lo' \<Longrightarrow> call_ok z lo c"
  by (auto simp: call_ok_def split: call.splits)

lemma exec_calls_safe:
  assumes "malloc_fresh malloc" and "0 < lo" and "timer_inv z lo xs l"
    and "\<And>c. c \<in> set cs \<Longrightarrow> call_ok z lo c \<and> call_after now c"
  shows "safely (\<lambda>l'. timer_inv z lo xs l' \<and> calm z now l l') (exec_calls malloc tid cs l)"
  using assms(3,4)
proof (induction cs arbitrary: l)
  case Nil
  then show ?case by (simp add: calm_refl)
next
  case (Cons c cs)
  have "safely (\<lambda>l'. timer_inv z lo xs l' \<and> calm z now l l') (exec_call malloc tid c l)"
    using exec_call_safe [OF Cons.prems(1) assms(1,2)] Cons.prems(2) [of c] by simp
  then show ?case
    unfolding exec_calls.simps
  proof (rule safely_bind)
    fix s assume s: "timer_inv z lo xs s \<and> calm z now l s"
    with Cons have "safely (\<lambda>l'. timer_inv z lo xs l' \<and> calm z now s l') (exec_calls malloc tid cs s)" by simp
    then show "safely (\<lambda>l'. timer_inv z lo xs l' \<and> calm z now l l') (exec_calls malloc tid cs s)"
      by (rule safely_mono) (use s calm_trans in blast)
  qed
qed

lemma timer_inv_simple [simp]:
  "timer_inv z lo xs (l\<lparr>cb_level := n\<rparr>) = timer_inv z lo xs l"
  "timer_inv z lo xs (l\<lparr>trace := tr\<rparr>) = timer_inv z lo xs l"
  by (simp_all add: timer_inv_def loop_pending_def)

lemma calm_simple [simp]:
  "calm z now (l\<lparr>cb_level := n\<rparr>) l' = calm z now l l'" "calm z now l (l'\<lparr>cb_level := n\<rparr>) = calm z now l l'"
  "calm z now (l\<lparr>trace := tr\<rparr>) l' = calm z now l l'"
  by (simp_all add: calm_def overdue_def)

lemma call_cb_user_safe:
  assumes "malloc_fresh malloc" and "0 < lo" and "lo \<le> now" and "body_ok z now body" and "timer_inv z lo xs l"
  shows "safely (\<lambda>l'. timer_inv z lo xs l' \<and> calm z now l l') (call_cb malloc body tid (map_option User f) l)"
proof (cases f)
  case None
  with assms show ?thesis by (simp add: call_cb_def calm_refl)
next
  case (Some g)
  let ?l = "l\<lparr>cb_level := cb_level l + 1\<rparr>"
  have "safely (\<lambda>l'. timer_inv z lo xs l' \<and> calm z now ?l l') (exec_calls malloc tid (body g ?l) ?l)"
    by (rule exec_calls_safe [OF assms(1,2)])
      (use assms in \<open>auto simp: body_ok_def intro: call_ok_mono\<close>)
  then show ?thesis unfolding call_cb_def Some by (auto intro: safely_bind)
qed

lemma pool_free_pending:
  assumes inv: "timer_inv z lo xs l" and p: "loop_pending xs l = add_mset a M" "loop_pending xs' l = M"
  shows "\<exists>p'. pool_free (Some a) (timer_pool l) = Inr p' \<and> timer_inv z lo xs' (l\<lparr>timer_pool := p'\<rparr>)"
proof -
  have ap: "a \<in># loop_pending xs l" using p by simp
  then obtain t where t: "pool_live (timer_pool l) a = Some t" and nin: "a \<notin> set (timer_min_heap l)"
    using inv unfolding timer_inv_def by auto
  have pi: "pool_inv (timer_pool l)" using inv by (simp add: timer_inv_def)
  from pool_free_spec [OF this t] obtain p' where
    p': "pool_free (Some a) (timer_pool l) = Inr p'" "pool_inv p'" "pool_live p' = (pool_live (timer_pool l))(a := None)" by auto
  let ?l = "l\<lparr>timer_pool := p'\<rparr>"
  have c: "count (add_mset a M) b \<le> 1" for b using inv p unfolding timer_inv_def by metis
  then have aM: "a \<notin># M" using c [of a] by (simp add: not_in_iff)
  have cM: "count M b \<le> 1" for b using c [of b] by (auto split: if_splits)
  have pe: "loop_pending xs' ?l = M" using p(2) by (simp add: loop_pending_def)
  have keys: "timer_key p' b = timer_key (timer_pool l) b" if "b \<in> set (timer_min_heap l)" for b
    using that nin p'(3) by (auto simp: timer_key_def)
  have heap: "is_heap (timer_key p') (timer_min_heap l)"
    using inv is_heap_cong [of "timer_min_heap l" "timer_key p'" "timer_key (timer_pool l)", OF keys]
    by (simp add: timer_inv_def)
  have same: "pool_live p' b = pool_live (timer_pool l) b" if "b \<in> set (timer_min_heap l) \<or> b \<in># M" for b
    using that nin aM p'(3) by auto
  have "\<forall>b \<in># M. b \<notin> set (timer_min_heap l) \<and> pool_live p' b \<noteq> None"
    using inv p(1) same unfolding timer_inv_def by auto
  moreover have "\<exists>b u. q = Some b \<and> b \<in> set (timer_min_heap l) \<and> pool_live p' b = Some u \<and> timer_token u = tk"
    if "cab_lookup (timer_cabinet l) tk = Some q" for tk q
    using that inv same unfolding timer_inv_def by metis
  ultimately have "timer_inv z lo xs' ?l"
    using inv heap p'(2) cM same unfolding timer_inv_def pe by simp
  with p' show ?thesis by blast
qed

lemma run_item_safe:
  assumes mf: "malloc_fresh malloc" and lo: "0 < lo" "lo \<le> now" and body: "body_ok z now body"
    and inv: "timer_inv z lo (it # xs) l"
  shows "safely (\<lambda>l'. timer_inv z lo xs l') (run_item_func malloc body tid it l)"
proof (cases "item_func it")
  case None
  with inv have "timer_inv z lo xs l" by (intro timer_inv_frame [OF inv]) (simp_all add: loop_pending_def)
  with None show ?thesis by (simp add: run_item_func_def call_cb_def)
next
  case (Some f)
  show ?thesis
  proof (cases f)
    case (User g)
    have "timer_inv z lo xs l"
      using Some User by (intro timer_inv_frame [OF inv]) (simp_all add: loop_pending_def)
    then have "safely (\<lambda>l'. timer_inv z lo xs l' \<and> calm z now (l\<lparr>trace := trace l @ [RanTask (item_id it)]\<rparr>) l')
        (run_item_func malloc body tid it l)"
      unfolding run_item_func_def 
      using call_cb_user_safe [OF mf lo body, of xs "l\<lparr>trace := trace l @ [RanTask (item_id it)]\<rparr>" tid "Some g"]
        Some User by simp
    then show ?thesis by (rule safely_mono) simp
  next
    case (FreeTimer a)
    let ?l = "l\<lparr>trace := trace l @ [RanTask (item_id it)], cb_level := cb_level l + 1\<rparr>"
    have i: "timer_inv z lo (it # xs) ?l" using inv by simp
    have p: "loop_pending (it # xs) ?l = add_mset a (loop_pending xs ?l)"
      using Some FreeTimer by (simp add: loop_pending_def)
    from pool_free_pending [OF i p refl] obtain p' where
      p': "pool_free (Some a) (timer_pool l) = Inr p'" "timer_inv z lo xs (?l\<lparr>timer_pool := p'\<rparr>)" by auto
    have "timer_inv z lo xs (l\<lparr>trace := trace l @ [RanTask (item_id it)], timer_pool := p'\<rparr>)"
      by (rule timer_inv_frame [OF p'(2)]) (simp_all add: loop_pending_def)
    with p'(1) Some FreeTimer show ?thesis by (simp add: run_item_func_def call_cb_def)
  qed
qed

lemma drain_tmp_safe:
  assumes "malloc_fresh malloc" and "0 < lo" and "lo \<le> now" and "body_ok z now body" and "timer_inv z lo xs l"
  shows "safely (\<lambda>l'. timer_inv z lo xs l' \<and> tmp_queue l' = []) (drain_tmp malloc body tid l)"
  using assms
proof (induction malloc body tid l rule: drain_tmp.induct)
  case (1 malloc body tid l)
  show ?case
  proof (cases "tmp_queue l")
    case Nil
    with 1 show ?thesis by (subst drain_tmp.simps) simp
  next
    case (Cons it rest)
    have "timer_inv z lo (it # xs) (l\<lparr>tmp_queue := rest\<rparr>)"
      using Cons by (intro timer_inv_frame [OF 1(6)]) (simp_all add: loop_pending_def ac_simps)
    note r = run_item_safe [OF 1(2-5) this]
    show ?thesis
    proof (cases "run_item_func malloc body tid it (l\<lparr>tmp_queue := rest\<rparr>)")
      case (Inl e)
      with r [of tid] show ?thesis using Cons by (subst drain_tmp.simps) simp
    next
      case (Inr l')
      with r [of tid] have "timer_inv z lo xs l'" by simp
      from 1(1) [OF Cons Inr 1(2-5) this] show ?thesis using Cons Inr by (subst drain_tmp.simps) simp
    qed
  qed
qed

lemma handleNextFunc_safe:
  assumes "malloc_fresh malloc" and "0 < lo" and "lo \<le> now" and "body_ok z now body" and "timer_inv z lo xs l"
  shows "safely (\<lambda>l'. timer_inv z lo xs l' \<and> tmp_queue l' = []) (handleNextFunc malloc body tid l)"
  unfolding handleNextFunc_def
  by (rule drain_tmp_safe [OF assms(1-4)], rule timer_inv_frame [OF assms(5)])
    (simp_all add: loop_pending_def ac_simps)

lemma handleRunInLoopFunc_safe:
  assumes "malloc_fresh malloc" and "0 < lo" and "lo \<le> now" and "body_ok z now body" and "timer_inv z lo xs l"
  shows "safely (\<lambda>l'. timer_inv z lo xs l' \<and> tmp_queue l' = []) (handleRunInLoopFunc malloc body tid l)"
  unfolding handleRunInLoopFunc_def
  by (rule drain_tmp_safe [OF assms(1-4)], rule timer_inv_frame [OF assms(5)])
    (simp_all add: loop_pending_def finishRunRequest_def ac_simps)


section \<open>Expired timers\<close>

lemma timer_inv_mono: "timer_inv z lo' xs l \<Longrightarrow> lo \<le> lo' \<Longrightarrow> timer_inv z lo xs l"
  unfolding timer_inv_def timer_ok_def by (meson order_trans)

lemma trace_exec_call: "exec_call malloc tid c l = Inr l' \<Longrightarrow> trace l' = trace l"
  by (cases c) (auto simp: runInLoop_def allocRunInLoopId_def commitRunRequest_def runNext_def allocRunNextId_def
      loop_run_def loop_cancel_def addTimer_def deleteTimer_def Let_def split: sum.splits option.splits if_splits prod.splits)

lemma trace_exec_calls: "exec_calls malloc tid cs l = Inr l' \<Longrightarrow> trace l' = trace l"
  by (induction cs arbitrary: l) (auto split: sum.splits dest: trace_exec_call)

lemma trace_call_cb: "call_cb malloc body tid f l = Inr l' \<Longrightarrow> trace l' = trace l"
  by (cases f; cases "the f") (auto simp: call_cb_def split: sum.splits dest: trace_exec_calls)

lemma trace_expire_front: "expire_front a t l = Inr l' \<Longrightarrow> trace l' = trace l"
  by (auto simp: expire_front_def Let_def split: sum.splits if_splits)

lemma overdue_expire_front:
  assumes inv: "timer_inv True lo xs l" and ne: "timer_min_heap l = a # rest"
    and t: "pool_live (timer_pool l) a = Some t" and due: "timer_expired t \<le> now" and now: "unat now < 2 ^ 62"
    and ex: "expire_front a t l = Inr l'"
  shows "overdue now l' < overdue now l"
proof -
  let ?g = "\<lambda>p a. unat now + 1 - unat (timer_key p a)"
  note sp = expire_front_safe [OF inv ne t due now]
  have ov: "overdue now l = ?g (timer_pool l) a + sum_mset (image_mset (?g (timer_pool l)) (mset rest))"
    using ne by (simp add: overdue_def)
  have ka: "timer_key (timer_pool l) a = timer_expired t" using t by (simp add: timer_key_def)
  have pos: "0 < ?g (timer_pool l) a" using due by (simp add: ka word_le_nat_alt)
  show ?thesis
  proof (cases "timer_repeat t = 1")
    case True
    with sp ex have sh: "heap_shrinks l l'" "mset (timer_min_heap l') = mset rest" by auto
    then have "image_mset (?g (timer_pool l')) (mset rest) = image_mset (?g (timer_pool l)) (mset rest)"
      by (intro image_mset_cong) (auto simp: heap_shrinks_def timer_key_def dest: mset_eq_setD)
    with sh have "overdue now l' = sum_mset (image_mset (?g (timer_pool l)) (mset rest))" by (simp add: overdue_def)
    with ov pos show ?thesis by simp
  next
    case False
    with sp ex obtain t' where t': "mset (timer_min_heap l') = mset (timer_min_heap l)"
      "pool_live (timer_pool l') = (pool_live (timer_pool l))(a \<mapsto> t')"
      "timer_expired t' = timer_expired t + timer_interval t" by auto
    have "a \<notin> set rest" using inv ne by (simp add: timer_inv_def)
    then have "image_mset (?g (timer_pool l')) (mset rest) = image_mset (?g (timer_pool l)) (mset rest)"
      using t'(2) by (intro image_mset_cong) (auto simp: timer_key_def)
    then have ov': "overdue now l' = ?g (timer_pool l') a + sum_mset (image_mset (?g (timer_pool l)) (mset rest))"
      using t'(1) ne by (simp add: overdue_def)
    have ka': "timer_key (timer_pool l') a = timer_expired t + timer_interval t" using t' by (simp add: timer_key_def)
    have "timer_ok True lo t" using timer_inv_live [OF inv, of a] ne t by auto
    then have i: "unat (timer_interval t) < 2 ^ 62" "0 < unat (timer_interval t)"
      by (auto simp: timer_ok_def word_less_nat_alt)
    have "unat (timer_expired t) < 2 ^ 62" using due now by (simp add: word_le_nat_alt)
    with i(1) unat_add_62 [of "timer_expired t" "timer_interval t"]
    have "unat (timer_key (timer_pool l') a) = unat (timer_key (timer_pool l) a) + unat (timer_interval t)"
      by (simp add: ka ka')
    then have "?g (timer_pool l') a < ?g (timer_pool l) a" using i(2) pos by linarith
    with ov ov' show ?thesis by simp
  qed
qed

text \<open>The timers that fired, in order, as the history records them.\<close>

definition fired_log :: "(token \<times> u64) list \<Rightarrow> loop_event list" where
  "fired_log fs = map (\<lambda>(tok, e). FiredTimer tok e) fs"

definition expired_done :: "u64 \<Rightarrow> u64 \<Rightarrow> 'f loop \<Rightarrow> 'f loop \<Rightarrow> bool" where
  "expired_done lo now l l' \<longleftrightarrow>
     (\<forall>a \<in> set (timer_min_heap l'). now < timer_key (timer_pool l') a) \<and>
     (\<exists>fs. trace l' = trace l @ fired_log fs \<and> sorted (map snd fs) \<and>
           (\<forall>(tok, e) \<in> set fs. lo \<le> e \<and> e \<le> now))"

lemma expired_done_step:
  assumes "expired_done e now l2 l'" and "trace l2 = trace l @ [FiredTimer tok e]" and "lo \<le> e" and "e \<le> now"
  shows "expired_done lo now l l'"
proof -
  from assms(1) obtain fs where fs: "trace l' = trace l2 @ fired_log fs" "sorted (map snd fs)"
    "\<forall>(tok, e') \<in> set fs. e \<le> e' \<and> e' \<le> now" by (auto simp: expired_done_def)
  have "trace l' = trace l @ fired_log ((tok, e) # fs)" using fs(1) assms(2) by (simp add: fired_log_def)
  moreover have "sorted (map snd ((tok, e) # fs))" using fs(2,3) by auto
  moreover have "\<forall>(tok, e') \<in> set ((tok, e) # fs). lo \<le> e' \<and> e' \<le> now" using fs(3) assms(3,4) by auto
  ultimately show ?thesis using assms(1) unfolding expired_done_def by blast
qed

lemma handleExpiredTimers_step:
  assumes mf: "malloc_fresh malloc" and lo: "0 < lo" "lo \<le> now" and now: "unat now < 2 ^ 62"
    and body: "body_ok z now body" and inv: "timer_inv z lo xs l" and ne: "timer_min_heap l = a # rest"
    and t: "pool_live (timer_pool l) a = Some t" and due: "timer_expired t \<le> now"
  shows "\<exists>l1. expire_front a t l = Inr l1 \<and>
    safely (\<lambda>l2. timer_inv z (timer_expired t) xs l2 \<and> trace l2 = trace l @ [FiredTimer (timer_token t) (timer_expired t)] \<and>
                 (z \<longrightarrow> overdue now l2 < overdue now l))
      (call_cb malloc body tid (map_option User (timer_cb t))
         (l1\<lparr>trace := trace l1 @ [FiredTimer (timer_token t) (timer_expired t)]\<rparr>))"
proof -
  let ?e = "timer_expired t"
  from expire_front_safe [OF inv ne t due now] obtain l1 where
    l1: "expire_front a t l = Inr l1" "timer_inv z ?e xs l1" by auto
  have le: "lo \<le> ?e" using timer_inv_live [OF inv, of a] ne t by (auto simp: timer_ok_def)
  then have e0: "0 < ?e" using lo by (meson less_le_trans)
  let ?l = "l1\<lparr>trace := trace l1 @ [FiredTimer (timer_token t) ?e]\<rparr>"
  have i: "timer_inv z ?e xs ?l" using l1 by simp
  have s: "safely (\<lambda>l2. timer_inv z ?e xs l2 \<and> calm z now ?l l2) (call_cb malloc body tid (map_option User (timer_cb t)) ?l)"
    by (rule call_cb_user_safe [OF mf e0 due body i])
  have ov: "overdue now l1 < overdue now l" if z
    using overdue_expire_front [OF _ ne t due now l1(1)] inv that by auto
  show ?thesis
  proof (cases "call_cb malloc body tid (map_option User (timer_cb t)) ?l")
    case (Inl e)
    with s l1(1) show ?thesis by simp
  next
    case (Inr l2)
    with s have "timer_inv z ?e xs l2" "z \<longrightarrow> overdue now l2 \<le> overdue now l1" by (auto simp: calm_def overdue_def)
    moreover have "trace l2 = trace l @ [FiredTimer (timer_token t) ?e]"
      using trace_call_cb [OF Inr] trace_expire_front [OF l1(1)] by simp
    ultimately show ?thesis using l1(1) Inr ov by auto
  qed
qed

lemma handleExpiredTimers_front:
  assumes "timer_inv z lo xs l" and "timer_min_heap l = a # rest"
  obtains t where "pool_live (timer_pool l) a = Some t" and "obj_read (timer_pool l) a = Inr t"
  using timer_inv_live [OF assms(1), of a] assms(2) by (auto simp: obj_read_live)

lemma heap_front_due:
  assumes inv: "timer_inv z lo xs l" and ne: "timer_min_heap l = a # rest"
    and t: "pool_live (timer_pool l) a = Some t" and lt: "now < timer_expired t"
  shows "\<forall>b \<in> set (timer_min_heap l). now < timer_key (timer_pool l) b"
proof
  fix b assume "b \<in> set (timer_min_heap l)"
  then obtain i where "i < length (timer_min_heap l)" "timer_min_heap l ! i = b" by (meson in_set_conv_nth)
  moreover have "is_heap (timer_key (timer_pool l)) (timer_min_heap l)" using inv by (simp add: timer_inv_def)
  ultimately have "timer_expired t \<le> timer_key (timer_pool l) b"
    using is_heap_front_least [of "timer_key (timer_pool l)" "timer_min_heap l" i] ne t by (simp add: timer_key_def)
  with lt show "now < timer_key (timer_pool l) b" by simp
qed

lemma handleExpiredTimers_safe:
  assumes "malloc_fresh malloc" and "0 < lo" and "lo \<le> now" and "unat now < 2 ^ 62"
    and "body_ok z now body" and "timer_inv z lo xs l"
  shows "case handleExpiredTimers malloc body tid fuel now l of
      None \<Rightarrow> \<not> (z \<and> overdue now l \<le> fuel)
    | Some r \<Rightarrow> safely (\<lambda>l'. timer_inv z lo xs l' \<and> expired_done lo now l l') r"
  using assms(2,3,6)
proof (induction fuel arbitrary: l lo)
  case (0 l lo)
  show ?case
  proof (cases "timer_min_heap l")
    case Nil
    with 0 show ?thesis by (subst handleExpiredTimers.simps) (auto simp: expired_done_def fired_log_def)
  next
    case (Cons a rest)
    from handleExpiredTimers_front [OF 0(3) Cons] obtain t where
      t: "pool_live (timer_pool l) a = Some t" "obj_read (timer_pool l) a = Inr t" .
    show ?thesis
    proof (cases "now < timer_expired t")
      case True
      with heap_front_due [OF 0(3) Cons t(1)] 0 Cons t show ?thesis
        by (subst handleExpiredTimers.simps) (auto simp: expired_done_def fired_log_def)
    next
      case False
      then have "overdue now l \<noteq> 0" using Cons t(1) by (simp add: overdue_def timer_key_def word_less_nat_alt)
      with False Cons t show ?thesis by (subst handleExpiredTimers.simps) auto
    qed
  qed
next
  case (Suc fuel l lo)
  show ?case
  proof (cases "timer_min_heap l")
    case Nil
    with Suc.prems show ?thesis by (subst handleExpiredTimers.simps) (auto simp: expired_done_def fired_log_def)
  next
    case (Cons a rest)
    from handleExpiredTimers_front [OF Suc.prems(3) Cons] obtain t where
      t: "pool_live (timer_pool l) a = Some t" "obj_read (timer_pool l) a = Inr t" .
    show ?thesis
    proof (cases "now < timer_expired t")
      case True
      with heap_front_due [OF Suc.prems(3) Cons t(1)] Suc.prems Cons t show ?thesis
        by (subst handleExpiredTimers.simps) (auto simp: expired_done_def fired_log_def)
    next
      case False
      then have due: "timer_expired t \<le> now" by simp
      have le: "lo \<le> timer_expired t"
        using timer_inv_live [OF Suc.prems(3), of a] Cons t by (auto simp: timer_ok_def)
      then have e0: "0 < timer_expired t" using Suc.prems(1) by (meson less_le_trans)
      from handleExpiredTimers_step [OF assms(1) Suc.prems(1,2) assms(4,5) Suc.prems(3) Cons t(1) due, of tid]
      obtain l1 where l1: "expire_front a t l = Inr l1" and
        sf: "safely (\<lambda>l2. timer_inv z (timer_expired t) xs l2 \<and> trace l2 = trace l @ [FiredTimer (timer_token t) (timer_expired t)] \<and>
                 (z \<longrightarrow> overdue now l2 < overdue now l))
          (call_cb malloc body tid (map_option User (timer_cb t))
             (l1\<lparr>trace := trace l1 @ [FiredTimer (timer_token t) (timer_expired t)]\<rparr>))" by blast
      show ?thesis
      proof (cases "call_cb malloc body tid (map_option User (timer_cb t))
             (l1\<lparr>trace := trace l1 @ [FiredTimer (timer_token t) (timer_expired t)]\<rparr>)")
        case (Inl e)
        with sf l1 False Cons t show ?thesis by (subst handleExpiredTimers.simps) simp
      next
        case (Inr l2)
        with sf have l2: "timer_inv z (timer_expired t) xs l2"
          "trace l2 = trace l @ [FiredTimer (timer_token t) (timer_expired t)]"
          "z \<longrightarrow> overdue now l2 < overdue now l" by auto
        have eq: "handleExpiredTimers malloc body tid (Suc fuel) now l = handleExpiredTimers malloc body tid fuel now l2"
          using Inr l1 False Cons t by (subst handleExpiredTimers.simps) simp
        have "safely (\<lambda>l'. timer_inv z lo xs l' \<and> expired_done lo now l l') r"
          if "safely (\<lambda>l'. timer_inv z (timer_expired t) xs l' \<and> expired_done (timer_expired t) now l2 l') r" for r
          using that by (rule safely_mono) (use le due l2 in \<open>blast intro: timer_inv_mono expired_done_step\<close>)
        with Suc.IH [OF e0 due l2(1)] l2(3) show ?thesis unfolding eq by (auto split: option.splits)
      qed
    qed
  qed
qed


section \<open>Clean-up\<close>

lemma run_items_safe:
  assumes "malloc_fresh malloc" and "0 < lo" and "lo \<le> now" and "body_ok z now body"
  shows "timer_inv z lo (its @ xs) l \<Longrightarrow> safely (timer_inv z lo xs) (run_items malloc body tid its l)"
proof (induction its arbitrary: l)
  case (Cons it its)
  have "safely (timer_inv z lo (its @ xs)) (run_item_func malloc body tid it l)"
    using run_item_safe [OF assms, of it "its @ xs" l tid] Cons.prems by simp
  then show ?case unfolding run_items.simps by (rule safely_bind) (rule Cons.IH)
qed simp

lemma cleanup_round_safe:
  assumes "malloc_fresh malloc" and "0 < lo" and "lo \<le> now" and "body_ok z now body" and "timer_inv z lo xs l"
  shows "safely (timer_inv z lo xs) (cleanup_round malloc body tid l)"
proof -
  let ?l = "l\<lparr>run_next_queue := [], run_in_loop_queue := []\<rparr>"
  have "timer_inv z lo (run_next_queue l @ run_in_loop_queue l @ xs) ?l"
    by (rule timer_inv_frame [OF assms(5)]) (simp_all add: loop_pending_def ac_simps)
  from run_items_safe [OF assms(1-4) this] show ?thesis
    unfolding cleanup_round_def Let_def by (rule safely_bind) (rule run_items_safe [OF assms(1-4)])
qed

lemma cleanup_rounds_safe:
  assumes "malloc_fresh malloc" and "0 < lo" and "lo \<le> now" and "body_ok z now body"
  shows "timer_inv z lo xs l \<Longrightarrow> safely (\<lambda>(n, l'). timer_inv z lo xs l') (cleanup_rounds malloc body tid r l)"
proof (induction r arbitrary: l)
  case 0
  then show ?case by (subst cleanup_rounds.simps) simp
next
  case (Suc r)
  show ?case
  proof (cases "run_in_loop_queue l = [] \<and> run_next_queue l = []")
    case True
    with Suc.prems show ?thesis by (subst cleanup_rounds.simps) simp
  next
    case False
    have "safely (\<lambda>(n, l'). timer_inv z lo xs l')
      (case cleanup_round malloc body tid l of Inl e \<Rightarrow> Inl e | Inr l' \<Rightarrow> cleanup_rounds malloc body tid r l')"
      using cleanup_round_safe [OF assms Suc.prems] by (rule safely_bind) (rule Suc.IH)
    with False show ?thesis by (subst cleanup_rounds.simps) auto
  qed
qed

lemma cleanupDeferredTasks_safe:
  assumes "malloc_fresh malloc" and "0 < lo" and "lo \<le> now" and "body_ok z now body" and "timer_inv z lo xs l"
  shows "safely (\<lambda>(w, l'). timer_inv z lo xs l') (cleanupDeferredTasks malloc body tid l)"
  using cleanup_rounds_safe [OF assms, of tid 100]
  by (auto simp: cleanupDeferredTasks_def safely_def split: sum.splits)

section \<open>Timers as a map from tokens\<close>

text \<open>What the users of the loop see: the timer a token stands for.\<close>

definition timers_of :: "'f loop \<Rightarrow> token \<Rightarrow> 'f timer option" where
  "timers_of l tok =
     (case cab_lookup (timer_cabinet l) tok of Some (Some a) \<Rightarrow> pool_live (timer_pool l) a | _ \<Rightarrow> None)"

locale timer_service =
  fixes ok :: "'s \<Rightarrow> bool" and timers :: "'s \<Rightarrow> token \<Rightarrow> 't option"
    and start :: "'a \<Rightarrow> 's \<Rightarrow> cxx_error + token \<times> 's" and stop :: "token \<Rightarrow> 's \<Rightarrow> cxx_error + 's"
    and good :: "'a \<Rightarrow> bool" and build :: "'a \<Rightarrow> token \<Rightarrow> 't"
  assumes start_law: "ok s \<Longrightarrow> good x \<Longrightarrow> start x s = Inr (tok, s') \<Longrightarrow>
      ok s' \<and> \<not> token_isNull tok \<and> timers s tok = None \<and> timers s' = (timers s)(tok \<mapsto> build x tok)"
    and stop_law: "ok s \<Longrightarrow> \<exists>s'. stop tok s = Inr s' \<and> ok s' \<and> timers s' = (timers s)(tok := None)"
begin

lemma stop_start:
  assumes "ok s" and "good x" and "start x s = Inr (tok, s')"
  shows "\<exists>s''. stop tok s' = Inr s'' \<and> timers s'' = timers s"
proof -
  from start_law [OF assms] have s': "ok s'" "timers s tok = None" "timers s' = (timers s)(tok \<mapsto> build x tok)" by auto
  from stop_law [OF s'(1), of tok] s' show ?thesis by (auto simp: fun_upd_idem)
qed

lemma stop_other:
  assumes "ok s" and "stop tok s = Inr s'" and "tok' \<noteq> tok"
  shows "timers s' tok' = timers s tok'"
  using stop_law [OF assms(1), of tok] assms(2,3) by auto

end

lemma timers_of_iff:
  assumes "timer_inv z lo xs l"
  shows "timers_of l tok = Some t \<longleftrightarrow>
    (\<exists>a \<in> set (timer_min_heap l). pool_live (timer_pool l) a = Some t \<and> timer_token t = tok)"
proof
  assume "timers_of l tok = Some t"
  then obtain a where a: "cab_lookup (timer_cabinet l) tok = Some (Some a)" "pool_live (timer_pool l) a = Some t"
    by (auto simp: timers_of_def split: option.splits)
  then show "\<exists>a \<in> set (timer_min_heap l). pool_live (timer_pool l) a = Some t \<and> timer_token t = tok"
    using assms unfolding timer_inv_def by (metis option.inject)
next
  assume "\<exists>a \<in> set (timer_min_heap l). pool_live (timer_pool l) a = Some t \<and> timer_token t = tok"
  then obtain a where "a \<in> set (timer_min_heap l)" "pool_live (timer_pool l) a = Some t" "timer_token t = tok" by auto
  with timer_inv_live [OF assms this(1)] show "timers_of l tok = Some t" by (auto simp: timers_of_def)
qed

lemma addTimer_timers_of:
  assumes inv: "timer_inv z lo xs l" and mf: "malloc_fresh malloc"
    and ok: "call_ok z lo (CAddTimer now iv r cb)" and ad: "addTimer malloc now iv r cb l = Inr (tok, l')"
  shows "timer_inv z lo xs l' \<and> \<not> token_isNull tok \<and> timers_of l tok = None \<and>
    timers_of l' = (timers_of l)(tok \<mapsto> \<lparr>timer_token = tok, timer_interval = iv, timer_expired = now + iv,
                                        timer_repeat = r, timer_cb = cb\<rparr>)"
proof -
  let ?t = "\<lparr>timer_token = tok, timer_interval = iv, timer_expired = now + iv, timer_repeat = r, timer_cb = cb\<rparr>"
  from addTimer_safe [OF inv mf ok] ad obtain a where inv': "timer_inv z lo xs l'"
    and a: "a \<notin> set (timer_min_heap l)" "mset (timer_min_heap l') = add_mset a (mset (timer_min_heap l))"
      "pool_live (timer_pool l') = (pool_live (timer_pool l))(a \<mapsto> ?t)" by auto
  have hs: "set (timer_min_heap l') = insert a (set (timer_min_heap l))" using a(2) by (metis set_mset_add_mset_insert set_mset_mset)
  from ad obtain b p1 c1 where c1: "cab_alloc (Some b) (timer_cabinet l) = Inr (tok, c1)" "timer_cabinet l' = c1"
    by (auto simp: addTimer_def Let_def split: if_splits sum.splits)
  have tn: "\<not> token_isNull tok" "cab_lookup (timer_cabinet l) tok = None"
    using cab.alloc_law [OF _ c1(1)] inv by (auto simp: timer_inv_def)
  then have none: "timers_of l tok = None" by (simp add: timers_of_def)
  have "timers_of l' tk = ((timers_of l)(tok \<mapsto> ?t)) tk" for tk
  proof (cases "tk = tok")
    case True
    then show ?thesis using timers_of_iff [OF inv', of tok ?t] a(3) hs by auto
  next
    case False
    have "timers_of l' tk = Some u \<longleftrightarrow> timers_of l tk = Some u" for u
      using False a hs by (auto simp: timers_of_iff [OF inv'] timers_of_iff [OF inv])
    then show ?thesis using False by (metis fun_upd_other option.exhaust)
  qed
  with inv' tn none show ?thesis by blast
qed

lemma deleteTimer_timers_of:
  assumes inv: "timer_inv z lo xs l" and lo: "0 < lo"
  shows "\<exists>l'. deleteTimer tid tok l = Inr l' \<and> timer_inv z lo xs l' \<and> timers_of l' = (timers_of l)(tok := None)"
proof -
  from deleteTimer_safe [OF inv lo, of tid tok] obtain l' where l': "deleteTimer tid tok l = Inr l'"
    "timer_inv z lo xs l'" "heap_shrinks l l'"
    "cab_lookup (timer_cabinet l') = (cab_lookup (timer_cabinet l))(tok := None)" by auto
  have "timers_of l' tk = ((timers_of l)(tok := None)) tk" for tk
  proof (cases "tk \<noteq> tok \<and> cab_lookup (timer_cabinet l) tk \<noteq> None")
    case True
    then obtain p where "cab_lookup (timer_cabinet l') tk = Some p" "cab_lookup (timer_cabinet l) tk = Some p"
      using l'(4) by auto
    moreover from this l'(2) obtain a where "p = Some a" "a \<in> set (timer_min_heap l')" unfolding timer_inv_def by blast
    ultimately show ?thesis using True l'(3) by (simp add: timers_of_def heap_shrinks_def)
  next
    case False
    then show ?thesis using l'(4) by (auto simp: timers_of_def)
  qed
  with l' show ?thesis by blast
qed

text \<open>\<open>addTimer\<close> with its arguments as one value.\<close>

definition start_timer :: "('f timer pmem \<Rightarrow> addr ptr) \<Rightarrow> u64 \<times> u64 \<times> u64 \<times> 'f option \<Rightarrow> 'f loop \<Rightarrow> cxx_error + token \<times> 'f loop" where
  "start_timer malloc x l = (case x of (now, iv, r, cb) \<Rightarrow> addTimer malloc now iv r cb l)"

definition built_timer :: "u64 \<times> u64 \<times> u64 \<times> 'f option \<Rightarrow> token \<Rightarrow> 'f timer" where
  "built_timer x tok = (case x of (now, iv, r, cb) \<Rightarrow>
     \<lparr>timer_token = tok, timer_interval = iv, timer_expired = now + iv, timer_repeat = r, timer_cb = cb\<rparr>)"

interpretation loop_timers: timer_service "timer_inv False 1 []" timers_of "start_timer (first_fit n)" "deleteTimer tid"
    "\<lambda>(now, iv, r, cb). call_ok False 1 (CAddTimer now iv r cb)" built_timer for n tid
proof unfold_locales
  fix s s' :: "'a loop" and x tok
  assume a: "timer_inv False 1 [] s" "(case x of (now, iv, r, cb) \<Rightarrow> call_ok False 1 (CAddTimer now iv r cb))"
    "start_timer (first_fit n) x s = Inr (tok, s')"
  obtain now iv r cb where x: "x = (now, iv, r, cb)" by (cases x) auto
  from a addTimer_timers_of [OF a(1) first_fit_fresh, of now iv r cb n tok s']
  show "timer_inv False 1 [] s' \<and> \<not> token_isNull tok \<and> timers_of s tok = None \<and>
      timers_of s' = (timers_of s)(tok \<mapsto> built_timer x tok)"
    by (simp add: x start_timer_def built_timer_def)
next
  fix s :: "'a loop" and tok
  assume "timer_inv False 1 [] s"
  from deleteTimer_timers_of [OF this]
  show "\<exists>s'. deleteTimer tid tok s = Inr s' \<and> timer_inv False 1 [] s' \<and> timers_of s' = (timers_of s)(tok := None)"
    by simp
qed

end
