(* ===== verification/Event_Loop_Reach.thy ===== *)
theory Event_Loop_Reach
  imports Event_Loop_Timer
begin

text \<open>
  The states of the event loop over whole runs: what one step of a run may be, the states that
  are reached from a new loop over any number of runs, and the properties of the timers in them.
  The clock reading of a step is part of the state and only goes forward; \<open>body\<close> is indexed by it.
\<close>

section \<open>Steps of a run\<close>

type_synonym 'f behaviour = "u64 \<Rightarrow> 'f \<Rightarrow> 'f loop \<Rightarrow> 'f call list"

inductive loop_step :: "('f timer pmem \<Rightarrow> addr ptr) \<Rightarrow> 'f behaviour \<Rightarrow> nat \<Rightarrow> u64 \<times> 'f loop \<Rightarrow> u64 \<times> 'f loop \<Rightarrow> bool"
  for malloc body tid where
  clock: "now \<le> now' \<Longrightarrow> unat now' < 2 ^ 62 \<Longrightarrow> loop_step malloc body tid (now, l) (now', l)"
| call: "call_ok False now c \<Longrightarrow> exec_call malloc t c l = Inr l' \<Longrightarrow> loop_step malloc body tid (now, l) (now, l')"
| timers: "handleExpiredTimers malloc (body now) tid fuel now l = Some (Inr l') \<Longrightarrow>
    loop_step malloc body tid (now, l) (now, l')"
| fd_event: "call_func malloc (body now) tid (User f) l = Inr l' \<Longrightarrow> loop_step malloc body tid (now, l) (now, l')"
| in_loop_tasks: "handleRunInLoopFunc malloc (body now) tid l = Inr l' \<Longrightarrow> loop_step malloc body tid (now, l) (now, l')"
| next_tasks: "handleNextFunc malloc (body now) tid l = Inr l' \<Longrightarrow> loop_step malloc body tid (now, l) (now, l')"

inductive loop_reach :: "('f timer pmem \<Rightarrow> addr ptr) \<Rightarrow> 'f behaviour \<Rightarrow> nat \<Rightarrow> u64 \<Rightarrow> 'f loop \<Rightarrow> bool"
  for malloc body tid where
  init: "0 < now \<Longrightarrow> unat now < 2 ^ 62 \<Longrightarrow> loop_reach malloc body tid now loop_init"
| start: "loop_reach malloc body tid now l \<Longrightarrow> loop_reach malloc body tid now (runThisBeforeLoop tid l)"
| step: "loop_reach malloc body tid now l \<Longrightarrow> loop_step malloc body tid (now, l) (now', l') \<Longrightarrow>
    loop_reach malloc body tid now' l'"
| finish: "loop_reach malloc body tid now l \<Longrightarrow> runThisAfterLoop malloc (body now) tid l = Inr l' \<Longrightarrow>
    loop_reach malloc body tid now l'"

inductive_cases loop_stepE: "loop_step malloc body tid (now, l) (now', l')"

definition behaviour_ok :: "'f behaviour \<Rightarrow> bool" where
  "behaviour_ok body \<longleftrightarrow> (\<forall>now. body_ok False now (body now))"

lemma timer_inv_queue_frame:
  assumes "timer_inv z lo [] l" and "timer_cabinet l' = timer_cabinet l" and "timer_pool l' = timer_pool l"
    and "timer_min_heap l' = timer_min_heap l" and "tmp_queue l' = tmp_queue l"
    and "run_next_queue l' = run_next_queue l" and "run_in_loop_queue l' = run_in_loop_queue l"
  shows "timer_inv z lo [] l'"
  by (rule timer_inv_frame [OF assms(1)]) (use assms in \<open>simp_all add: loop_pending_def\<close>)

lemma runThisBeforeLoop_inv: "timer_inv z lo [] l \<Longrightarrow> timer_inv z lo [] (runThisBeforeLoop tid l)"
  by (erule timer_inv_queue_frame) (auto simp: runThisBeforeLoop_def resetStat_def commitRunRequest_def Let_def)

lemma runThisAfterLoop_inv:
  assumes "malloc_fresh malloc" and "0 < lo" and "lo \<le> now" and "body_ok z now body" and "timer_inv z lo [] l"
    and "runThisAfterLoop malloc body tid l = Inr l'"
  shows "timer_inv z lo [] l'"
proof -
  from assms(6) obtain w l1 where w: "cleanupDeferredTasks malloc body tid l = Inr (w, l1)"
    "l' = l1\<lparr>loop_thread_id := None, run_event := None\<rparr>"
    by (auto simp: runThisAfterLoop_def split: sum.splits)
  with cleanupDeferredTasks_safe [OF assms(1-5), of tid] have "timer_inv z lo [] l1" by simp
  then show ?thesis by (rule timer_inv_queue_frame) (simp_all add: w(2))
qed

lemma loop_step_inv:
  assumes st: "loop_step malloc body tid (now, l) (now', l')" and mf: "malloc_fresh malloc"
    and body: "behaviour_ok body" and now: "0 < now" "unat now < 2 ^ 62" and inv: "timer_inv False 1 [] l"
  shows "0 < now' \<and> unat now' < 2 ^ 62 \<and> timer_inv False 1 [] l'"
proof -
  have b: "body_ok False now (body now)" using body by (simp add: behaviour_ok_def)
  have one: "(1::u64) \<le> now" using now(1) by (metis inc_le add_0)
  from st show ?thesis
  proof cases
    case clock
    then show ?thesis using now inv by (auto intro: less_le_trans)
  next
    case (call c t)
    have "call_ok False 1 c" using call(2) one by (auto intro: call_ok_mono)
    moreover have "call_after 0 c" by (cases c) auto
    ultimately have "safely (\<lambda>l'. timer_inv False 1 [] l' \<and> calm False 0 l l') (exec_call malloc t c l)"
      by (intro exec_call_safe [OF inv mf]) auto
    then show ?thesis using call now by auto
  next
    case (timers fuel)
    then show ?thesis using handleExpiredTimers_safe [OF mf _ one now(2) b inv, where tid = tid and fuel = fuel] now by auto
  next
    case (fd_event f)
    have "safely (\<lambda>l'. timer_inv False 1 [] l' \<and> calm False now l l') (exec_calls malloc tid (body now f l) l)"
      by (rule exec_calls_safe [OF mf _ inv]) (use b one in \<open>auto simp: body_ok_def intro: call_ok_mono\<close>)
    then show ?thesis using fd_event now by auto
  next
    case in_loop_tasks
    then show ?thesis using handleRunInLoopFunc_safe [OF mf _ one b inv, of tid] now by auto
  next
    case next_tasks
    then show ?thesis using handleNextFunc_safe [OF mf _ one b inv, of tid] now by auto
  qed
qed

lemma loop_reach_inv:
  assumes "loop_reach malloc body tid now l" and "malloc_fresh malloc" and "behaviour_ok body"
  shows "0 < now \<and> unat now < 2 ^ 62 \<and> timer_inv False 1 [] l"
  using assms
proof (induction rule: loop_reach.induct)
  case (init now)
  then show ?case by simp
next
  case (start now l)
  then show ?case using runThisBeforeLoop_inv by blast
next
  case (step now l now' l')
  then show ?case using loop_step_inv by blast
next
  case (finish now l l')
  then have i: "0 < now" "unat now < 2 ^ 62" "timer_inv False 1 [] l" by auto
  have one: "(1::u64) \<le> now" using i(1) by (metis inc_le add_0)
  have b: "body_ok False now (body now)" using finish by (simp add: behaviour_ok_def)
  from runThisAfterLoop_inv [OF finish(4) _ one b i(3) finish(2)] i show ?case by auto
qed

section \<open>A loop with one timer\<close>

lemma idle_behaviour [simp]: "behaviour_ok (\<lambda>now (f :: nat) (l :: nat loop). [] :: nat call list)"
  by (simp add: behaviour_ok_def body_ok_def)

lemma demo_add:
  "\<exists>l1. exec_call (first_fit 9) 1 (CAddTimer 5 10 1 (Some (0 :: nat))) loop_init = Inr l1 \<and>
     timer_min_heap l1 = [1] \<and> pool_live (timer_pool l1) 1 =
       Some \<lparr>timer_token = mk_token 1 0, timer_interval = 10, timer_expired = 15, timer_repeat = 1, timer_cb = Some 0\<rparr> \<and>
     trace l1 = []"
  by (simp add: loop_init_def addTimer_def pool_alloc_def first_fit_def upt_rec pool_init_def pool_construct_def
      cab_alloc_def cab_allocId_def cab_allocPos_def cab_empty_def pos_max_def vector_max_size_def empty_cell_def
      Let_def obj_write_def all_live_def pool_live_def push_heap_def sift_up.simps)

lemma sint_diff_63:
  fixes a b :: u64
  assumes "unat a < 2 ^ 63" and "unat b < 2 ^ 63"
  shows "sint (a - b) = int (unat a) - int (unat b)"
proof -
  have ua: "uint a = int (unat a)" "uint b = int (unat b)" by simp_all
  have "a - b = word_of_int (uint a - uint b)" by simp
  then have r: "sint (a - b) = signed_take_bit 63 (int (unat a) - int (unat b))"
    by (simp only: sint_sbintrunc' ua) simp
  have "int (unat a) < 2 ^ 63" "int (unat b) < 2 ^ 63" using assms by (simp_all only: zless_nat_eq_int_zless of_nat_less_numeral_power_cancel_iff)
  moreover have "0 \<le> int (unat a)" "0 \<le> int (unat b)" by (rule of_nat_0_le_iff)+
  ultimately show ?thesis unfolding r
    by (intro signed_take_bit_int_eq_self) linarith+
qed

section \<open>Properties of the timers\<close>

text \<open>(C6) In every state that a new loop can reach over any number of runs, with any callbacks
  and any calls from other threads, every pointer in the timer heap is alive, and none of the
  handlers can fail in any way but a full cabinet or a failed allocation: no freed timer is used
  and no timer is freed twice.\<close>

theorem loop_no_use_after_free:
  assumes "malloc_fresh malloc" and "behaviour_ok body" and "loop_reach malloc body tid now l"
  shows "all_live (timer_pool l) (timer_min_heap l) \<and>
    (\<exists>l'. deleteTimer t tok l = Inr l') \<and>
    safely (\<lambda>_. True) (addTimer malloc now 1 r cb l) \<and>
    safely (\<lambda>_. True) (handleNextFunc malloc (body now) tid l) \<and>
    safely (\<lambda>_. True) (handleRunInLoopFunc malloc (body now) tid l) \<and>
    safely (\<lambda>_. True) (runThisAfterLoop malloc (body now) tid l) \<and>
    (case handleExpiredTimers malloc (body now) tid fuel now l of None \<Rightarrow> True | Some res \<Rightarrow> safely (\<lambda>_. True) res)"
proof -
  from loop_reach_inv [OF assms(3,1,2)] have now: "0 < now" "unat now < 2 ^ 62" and inv: "timer_inv False 1 [] l" by auto
  have one: "(1::u64) \<le> now" using now(1) by (metis inc_le add_0)
  have b: "body_ok False now (body now)" using assms(2) by (simp add: behaviour_ok_def)
  have add: "safely (\<lambda>_. True) (addTimer malloc now 1 r cb l)"
    using addTimer_safe [OF inv assms(1), of now 1 r cb] one now by (auto simp: call_ok_def elim: safely_mono)
  have ex: "case handleExpiredTimers malloc (body now) tid fuel now l of None \<Rightarrow> True | Some res \<Rightarrow> safely (\<lambda>_. True) res"
    using handleExpiredTimers_safe [OF assms(1) _ one now(2) b inv, where tid = tid and fuel = fuel]
    by (auto split: option.splits elim: safely_mono)
  have nx: "safely (\<lambda>_. True) (handleNextFunc malloc (body now) tid l)"
    using handleNextFunc_safe [OF assms(1) _ one b inv, of tid] by (rule safely_mono) simp_all
  have il: "safely (\<lambda>_. True) (handleRunInLoopFunc malloc (body now) tid l)"
    using handleRunInLoopFunc_safe [OF assms(1) _ one b inv, of tid] by (rule safely_mono) simp_all
  have af: "safely (\<lambda>_. True) (runThisAfterLoop malloc (body now) tid l)"
    using cleanupDeferredTasks_safe [OF assms(1) _ one b inv, of tid]
    by (auto simp: runThisAfterLoop_def safely_def split: sum.splits)
  from timer_inv_all_live [OF inv] deleteTimer_safe [OF inv, of t tok] add ex nx il af show ?thesis by auto
qed

theorem loop_no_use_after_free_witness:
  "\<exists>l1. exec_call (first_fit 9) 1 (CAddTimer 5 10 1 (Some (0 :: nat))) loop_init = Inr l1 \<and>
     all_live (timer_pool l1) (timer_min_heap l1) \<and>
     safely (\<lambda>_. True) (handleNextFunc (first_fit 9) (\<lambda>_ _. []) 1 l1)"
proof -
  obtain l1 where l1: "exec_call (first_fit 9) 1 (CAddTimer 5 10 1 (Some (0 :: nat))) loop_init = Inr l1"
    using demo_add by blast
  have r: "loop_reach (first_fit 9) (\<lambda>now (f :: nat) (l :: nat loop). []) 1 5 l1"
    by (rule loop_reach.step [OF loop_reach.init loop_step.call [OF _ l1]]) (simp_all add: call_ok_def)
  from loop_no_use_after_free [OF first_fit_fresh idle_behaviour r] l1 show ?thesis by blast
qed





lemma zero_interval_round:
  assumes "timer_min_heap l = [a]" and "pool_live (timer_pool l) a = Some t"
    and "timer_interval t = 0" and "timer_repeat t = 0"
  shows "\<exists>l1. expire_front a t l = Inr l1 \<and> timer_min_heap l1 = [a] \<and> pool_live (timer_pool l1) a = Some t"
proof -
  have m: "pool_mem (timer_pool l) a = Some (ObjBlk t)"
    using assms(2) by (auto simp: pool_live_def split: option.splits pblock.splits)
  have s: "timer_min_heap l \<noteq> []" "length (timer_min_heap l) - 1 = 0" using assms(1) by simp_all
  show ?thesis
    using assms by (simp add: expire_front_def all_live_def Let_def push_heap_def pop_heap_def swap_at_def
        sift_down.simps sift_up.simps obj_write_def)
qed

text \<open>Without that premise it need not end: with one persistent timer of interval 0 that is
  due, no number of rounds is enough. \<open>TimerEvent::initialize\<close> and \<open>addTimer\<close> accept such an
  interval.\<close>

theorem zero_interval_never_ends:
  assumes "timer_min_heap l = [a]" and "pool_live (timer_pool l) a = Some t" and "timer_expired t \<le> now"
    and "timer_interval t = 0" and "timer_repeat t = 0"
  shows "handleExpiredTimers malloc (\<lambda>_ _. []) tid fuel now l = None"
  using assms(1,2)
proof (induction fuel arbitrary: l)
  case 0
  then show ?case using assms(3) by (subst handleExpiredTimers.simps) (simp add: obj_read_live)
next
  case (Suc fuel)
  from zero_interval_round [OF Suc.prems assms(4,5)] obtain l1 where
    l1: "expire_front a t l = Inr l1" "timer_min_heap l1 = [a]" "pool_live (timer_pool l1) a = Some t" by auto
  let ?l = "l1\<lparr>trace := trace l1 @ [FiredTimer (timer_token t) (timer_expired t)]\<rparr>"
  obtain l2 where l2: "call_cb malloc (\<lambda>_ _. []) tid (map_option User (timer_cb t)) ?l = Inr l2"
      "timer_min_heap l2 = [a]" "pool_live (timer_pool l2) a = Some t"
    using l1 by (cases "timer_cb t") (auto simp: call_cb_def)
  have "handleExpiredTimers malloc (\<lambda>_ _. []) tid (Suc fuel) now l = handleExpiredTimers malloc (\<lambda>_ _. []) tid fuel now l2"
    using Suc.prems assms(3) l1 l2(1) by (subst handleExpiredTimers.simps) (simp add: obj_read_live leD)
  with Suc.IH [OF l2(2,3)] show ?case by simp
qed

theorem zero_interval_never_ends_witness:
  "\<exists>l1. exec_call (first_fit 9) 1 (CAddTimer 5 0 0 (Some (0 :: nat))) loop_init = Inr l1 \<and>
     (\<forall>fuel. handleExpiredTimers (first_fit 9) (\<lambda>_ _. []) 1 fuel 5 l1 = None)"
proof -
  obtain l1 where l1: "exec_call (first_fit 9) 1 (CAddTimer 5 0 0 (Some (0 :: nat))) loop_init = Inr l1"
    "timer_min_heap l1 = [1]" "pool_live (timer_pool l1) 1 =
       Some \<lparr>timer_token = mk_token 1 0, timer_interval = 0, timer_expired = 5, timer_repeat = 0, timer_cb = Some 0\<rparr>"
    by (simp add: loop_init_def addTimer_def pool_alloc_def first_fit_def upt_rec pool_init_def pool_construct_def
      cab_alloc_def cab_allocId_def cab_allocPos_def cab_empty_def pos_max_def vector_max_size_def empty_cell_def
      Let_def obj_write_def all_live_def pool_live_def push_heap_def sift_up.simps)
  from zero_interval_never_ends [OF l1(2,3)] l1(1) show ?thesis by auto
qed

text \<open>(C14) Starting and stopping timers refines a map from tokens: \<open>addTimer\<close> adds one entry under a
  fresh token, with the expiry \<open>now + interval\<close>, and \<open>deleteTimer\<close> removes exactly the entry of
  its token, or nothing when the token is stale, although it rebuilds the heap around an entry
  whose expiry it sets to 0.\<close>

theorem timers_refine_map:
  assumes "malloc_fresh malloc" and "behaviour_ok body" and "loop_reach malloc body tid now l"
    and "unat interval < 2 ^ 62" and "addTimer malloc now interval rpt cb l = Inr (tok, l')"
  shows "timers_of l tok = None \<and>
    timers_of l' = (timers_of l)(tok \<mapsto> \<lparr>timer_token = tok, timer_interval = interval,
       timer_expired = now + interval, timer_repeat = rpt, timer_cb = cb\<rparr>) \<and>
    (\<exists>l''. deleteTimer t tok' l' = Inr l'' \<and> timers_of l'' = (timers_of l')(tok' := None))"
proof -
  from loop_reach_inv [OF assms(3,1,2)] have now: "0 < now" "unat now < 2 ^ 62" and inv: "timer_inv False 1 [] l" by auto
  have "(1::u64) \<le> now" using now(1) by (metis inc_le add_0)
  then have ok: "call_ok False 1 (CAddTimer now interval rpt cb)" using now assms(4) by (simp add: call_ok_def)
  note a = addTimer_timers_of [OF inv assms(1) ok assms(5)]
  from a deleteTimer_timers_of [of False 1 "[]" l' t tok'] show ?thesis by auto
qed

theorem timers_refine_map_witness:
  "\<exists>l1. exec_call (first_fit 9) 1 (CAddTimer 5 10 1 (Some (0 :: nat))) loop_init = Inr l1 \<and>
     (\<exists>l''. deleteTimer 1 (mk_token 1 0) l1 = Inr l'' \<and> timers_of l'' (mk_token 1 0) = None)"
proof -
  obtain l1 where l1: "exec_call (first_fit 9) 1 (CAddTimer 5 10 1 (Some (0 :: nat))) loop_init = Inr l1"
    using demo_add by blast
  then obtain tok where a: "addTimer (first_fit 9) 5 10 1 (Some (0 :: nat)) loop_init = Inr (tok, l1)"
    by (auto split: sum.splits)
  have r: "loop_reach (first_fit 9) (\<lambda>now (f :: nat) (l :: nat loop). []) 1 5 loop_init"
    by (rule loop_reach.init) simp_all
  from timers_refine_map [OF first_fit_fresh idle_behaviour r _ a, of 1 "mk_token 1 0"] l1 show ?thesis by auto
qed

text \<open>The wait time handed to \<open>epoll_wait\<close> is 0 when a next-round task is queued, otherwise the
  time to the earliest expiry (0 when it has passed), and -1 exactly when there is nothing to wait
  for: the loop never sleeps past a timer.\<close>

theorem getWaitTime_exact:
  assumes "malloc_fresh malloc" and "behaviour_ok body" and "loop_reach malloc body tid now l"
  shows "getWaitTime now l =
    Inr (if run_next_queue l \<noteq> [] then 0
         else if timer_min_heap l = [] then - 1
         else Min ((\<lambda>a. max 0 (int (unat (timer_key (timer_pool l) a)) - int (unat now))) ` set (timer_min_heap l)))"
proof (cases "timer_min_heap l")
  case Nil
  then show ?thesis by (simp add: getWaitTime_def)
next
  case (Cons a rest)
  from loop_reach_inv [OF assms(3,1,2)] have now: "0 < now" "unat now < 2 ^ 62" and inv: "timer_inv False 1 [] l" by auto
  from timer_inv_live [OF inv, of a] Cons obtain t where t: "pool_live (timer_pool l) a = Some t" "timer_ok False 1 t" by auto
  let ?f = "\<lambda>a. max 0 (int (unat (timer_key (timer_pool l) a)) - int (unat now))"
  have "sint (timer_expired t - now) = int (unat (timer_expired t)) - int (unat now)"
    using t(2) now(2) by (intro sint_diff_63) (simp_all add: timer_ok_def)
  then have v: "(if sint (timer_expired t - now) < 0 then 0 else sint (timer_expired t - now)) = ?f a"
    using t(1) by (simp add: timer_key_def)
  have "Min (?f ` set (timer_min_heap l)) = ?f a"
  proof (rule Min_eqI)
    fix y assume "y \<in> ?f ` set (timer_min_heap l)"
    then obtain b where b: "b \<in> set (timer_min_heap l)" "y = ?f b" by auto
    then obtain i where "i < length (timer_min_heap l)" "timer_min_heap l ! i = b" by (meson in_set_conv_nth)
    then have "timer_key (timer_pool l) a \<le> timer_key (timer_pool l) b"
      using is_heap_front_least [of "timer_key (timer_pool l)" "timer_min_heap l" i] inv Cons by (simp add: timer_inv_def)
    then have "int (unat (timer_key (timer_pool l) a)) \<le> int (unat (timer_key (timer_pool l) b))"
      by (simp add: word_le_nat_alt del: of_nat_unat)
    then show "?f a \<le> y" unfolding b(2) by linarith
  qed (use Cons in auto)
  with v Cons t show ?thesis by (simp add: getWaitTime_def obj_read_live Let_def)
qed

theorem getWaitTime_exact_witness:
  "\<exists>l1. exec_call (first_fit 9) 1 (CAddTimer 5 10 1 (Some (0 :: nat))) loop_init = Inr l1 \<and>
     getWaitTime 5 l1 = Inr (if run_next_queue l1 \<noteq> [] then 0 else 10)"
proof -
  obtain l1 where l1: "exec_call (first_fit 9) 1 (CAddTimer 5 10 1 (Some (0 :: nat))) loop_init = Inr l1"
    "timer_min_heap l1 = [1]" "pool_live (timer_pool l1) 1 =
       Some \<lparr>timer_token = mk_token 1 0, timer_interval = 10, timer_expired = 15, timer_repeat = 1, timer_cb = Some 0\<rparr>"
    using demo_add by blast
  have r: "loop_reach (first_fit 9) (\<lambda>now (f :: nat) (l :: nat loop). []) 1 5 l1"
    by (rule loop_reach.step [OF loop_reach.init loop_step.call [OF _ l1(1)]]) (simp_all add: call_ok_def)
  from getWaitTime_exact [OF first_fit_fresh idle_behaviour r] l1 show ?thesis
    by (auto simp: timer_key_def)
qed

end
