(* ===== verification/Event_Loop_Task.thy ===== *)
theory Event_Loop_Task
  imports Event_Loop_Reach "HOL-Library.Sublist"
begin

text \<open>
  The deferred tasks of \<open>modules/event/common_loop_run.cpp\<close>: ids and cancellation, the order in
  which tasks run, the wake-up of the loop from other threads, and the bounded clean-up.
\<close>

section \<open>The queue that is being drained\<close>

lemma subseq_tmp_cancel: "subseq (tmp_queue (snd (loop_cancel i l))) (tmp_queue l)"
  by (auto simp: loop_cancel_def RemoveRunFuncItemById_def Let_def subseq_filter_left)

lemma subseq_tmp_exec_call: "exec_call malloc tid c l = Inr l' \<Longrightarrow> subseq (tmp_queue l') (tmp_queue l)"
  by (cases c) (auto simp: tmp_addTimer tmp_deleteTimer subseq_tmp_cancel split: sum.splits)

lemma subseq_tmp_exec_calls: "exec_calls malloc tid cs l = Inr l' \<Longrightarrow> subseq (tmp_queue l') (tmp_queue l)"
  by (induction cs arbitrary: l) (auto split: sum.splits dest!: subseq_tmp_exec_call intro: subseq_order.order_trans)

lemma subseq_tmp_run_item: "run_item_func malloc body tid it l = Inr l' \<Longrightarrow> subseq (tmp_queue l') (tmp_queue l)"
  by (cases "item_func it"; cases "the (item_func it)")
    (auto simp: run_item_func_def call_cb_def split: sum.splits dest!: subseq_tmp_exec_calls)

lemma trace_run_item:
  "run_item_func malloc body tid it l = Inr l' \<Longrightarrow> trace l' = trace l @ [RanTask (item_id it)]"
  by (auto simp: run_item_func_def dest: trace_call_cb)

text \<open>Draining runs a subsequence of the queue, in order; when no callback cancels it runs all.\<close>

fun no_cancel :: "'f call \<Rightarrow> bool" where
  "no_cancel (CCancel _) \<longleftrightarrow> False"
| "no_cancel _ \<longleftrightarrow> True"

definition never_cancels :: "('f \<Rightarrow> 'f loop \<Rightarrow> 'f call list) \<Rightarrow> bool" where
  "never_cancels body \<longleftrightarrow> (\<forall>f l. list_all no_cancel (body f l))"

lemma tmp_exec_call_same: "no_cancel c \<Longrightarrow> exec_call malloc tid c l = Inr l' \<Longrightarrow> tmp_queue l' = tmp_queue l"
  by (cases c) (auto simp: tmp_addTimer tmp_deleteTimer split: sum.splits)

lemma tmp_exec_calls_same:
  "list_all no_cancel cs \<Longrightarrow> exec_calls malloc tid cs l = Inr l' \<Longrightarrow> tmp_queue l' = tmp_queue l"
  by (induction cs arbitrary: l) (auto split: sum.splits dest: tmp_exec_call_same)

lemma tmp_run_item_same:
  "never_cancels body \<Longrightarrow> run_item_func malloc body tid it l = Inr l' \<Longrightarrow> tmp_queue l' = tmp_queue l"
  by (cases "item_func it"; cases "the (item_func it)")
    (auto simp: run_item_func_def call_cb_def never_cancels_def split: sum.splits dest!: tmp_exec_calls_same [rotated])

lemma drain_tmp_order:
  "drain_tmp malloc body tid l = Inr l' \<Longrightarrow>
   tmp_queue l' = [] \<and>
   (\<exists>ran. trace l' = trace l @ map RanTask ran \<and> subseq ran (map item_id (tmp_queue l)) \<and>
          (never_cancels body \<longrightarrow> ran = map item_id (tmp_queue l)))"
proof (induction malloc body tid l rule: drain_tmp.induct)
  case (1 malloc body tid l)
  show ?case
  proof (cases "tmp_queue l")
    case Nil
    with 1(2) show ?thesis by (subst (asm) drain_tmp.simps) simp
  next
    case (Cons it rest)
    with 1(2) obtain l1 where l1: "run_item_func malloc body tid it (l\<lparr>tmp_queue := rest\<rparr>) = Inr l1"
      "drain_tmp malloc body tid l1 = Inr l'"
      by (subst (asm) drain_tmp.simps) (auto split: sum.splits)
    from 1(1) [OF Cons l1] obtain ran where ran: "tmp_queue l' = []" "trace l' = trace l1 @ map RanTask ran"
      "subseq ran (map item_id (tmp_queue l1))" "never_cancels body \<longrightarrow> ran = map item_id (tmp_queue l1)" by auto
    have tr: "trace l1 = trace l @ [RanTask (item_id it)]" using trace_run_item [OF l1(1)] by simp
    have sub: "subseq (tmp_queue l1) rest" using subseq_tmp_run_item [OF l1(1)] by simp
    have same: "never_cancels body \<longrightarrow> tmp_queue l1 = rest" using tmp_run_item_same [OF _ l1(1)] by auto
    have "subseq ran (map item_id rest)" using ran(3) subseq_map [OF sub] subseq_order.order_trans by blast
    then show ?thesis using ran tr same Cons by (intro conjI exI [of _ "item_id it # ran"]) auto
  qed
qed

section \<open>Ids of pending tasks\<close>

definition queued :: "'f loop \<Rightarrow> u64 list" where
  "queued l = map item_id (tmp_queue l @ run_next_queue l @ run_in_loop_queue l)"

text \<open>Ids are distinct and not 0; odd ids were given out by \<open>runNext\<close>, even ones by
  \<open>runInLoop\<close>. It holds as long as the two counters have not wrapped.\<close>

definition id_inv :: "'f loop \<Rightarrow> bool" where
  "id_inv l \<longleftrightarrow>
     distinct (queued l) \<and> odd (run_next_id_alloc l) \<and> even (run_in_loop_id_alloc l) \<and>
     (\<forall>i \<in> set (queued l). i \<noteq> 0 \<and> (if odd i then i \<le> run_next_id_alloc l else i \<le> run_in_loop_id_alloc l)) \<and>
     (\<forall>it \<in> set (run_next_queue l). odd (item_id it)) \<and> (\<forall>it \<in> set (run_in_loop_queue l). even (item_id it))"

lemma id_inv_init: "id_inv loop_init"
  by (simp add: id_inv_def loop_init_def queued_def)

lemma word_plus_2:
  fixes a :: u64
  assumes "a < - 2"
  shows "a < a + 2" and "a + 2 \<noteq> 0" and "odd (a + 2) = odd a"
proof -
  have u: "unat (a + 2) = unat a + 2"
    using assms unat_u64_less [of a] by (simp add: word_less_nat_alt unat_word_ariths)
  then show "a < a + 2" by (simp add: word_less_nat_alt)
  show "a + 2 \<noteq> 0" using u by (metis add_is_0 unat_0 zero_neq_numeral)
  show "odd (a + 2) = odd a" by simp
qed

lemma runNext_id_inv:
  assumes inv: "id_inv l" and w: "run_next_id_alloc l < - 2" and r: "runNext f l = (i, l')"
  shows "id_inv l' \<and> i \<notin> set (queued l) \<and> odd i \<and> set (queued l') = insert i (set (queued l)) \<and>
    run_next_queue l' = run_next_queue l @ [\<lparr>item_id = i, item_func = f\<rparr>]"
proof -
  note p = word_plus_2 [OF w]
  have i: "i = run_next_id_alloc l + 2" "run_next_id_alloc l' = i" "tmp_queue l' = tmp_queue l"
    "run_in_loop_queue l' = run_in_loop_queue l" "run_in_loop_id_alloc l' = run_in_loop_id_alloc l"
    "run_next_queue l' = run_next_queue l @ [\<lparr>item_id = i, item_func = f\<rparr>]"
    using r by (auto simp: runNext_def allocRunNextId_def Let_def)
  have odd_i: "odd i" using inv p(3) i(1) by (simp add: id_inv_def)
  have lt: "run_next_id_alloc l < i" using p(1) i(1) by simp
  have nin: "i \<notin> set (queued l)"
  proof
    assume "i \<in> set (queued l)"
    with inv odd_i have "i \<le> run_next_id_alloc l" by (auto simp: id_inv_def)
    with lt show False by simp
  qed
  have q: "set (queued l') = insert i (set (queued l))" by (auto simp: queued_def i)
  have d: "distinct (queued l')" using inv nin by (auto simp: id_inv_def queued_def i)
  have b: "j \<noteq> 0 \<and> (if odd j then j \<le> i else j \<le> run_in_loop_id_alloc l)" if "j \<in> set (queued l')" for j
    using that inv lt p(2) i(1) odd_i unfolding q by (auto simp: id_inv_def intro: order_trans)
  show ?thesis using d b q nin odd_i inv unfolding id_inv_def by (auto simp: i(2-6))
qed

lemma runInLoop_id_inv:
  assumes inv: "id_inv l" and w: "run_in_loop_id_alloc l < - 2" and r: "runInLoop f l = (i, l')"
  shows "id_inv l' \<and> i \<notin> set (queued l) \<and> even i \<and> set (queued l') = insert i (set (queued l)) \<and>
    run_in_loop_queue l' = run_in_loop_queue l @ [\<lparr>item_id = i, item_func = f\<rparr>]"
proof -
  note p = word_plus_2 [OF w]
  have i: "i = run_in_loop_id_alloc l + 2" "run_in_loop_id_alloc l' = i" "tmp_queue l' = tmp_queue l"
    "run_next_queue l' = run_next_queue l" "run_next_id_alloc l' = run_next_id_alloc l"
    "run_in_loop_queue l' = run_in_loop_queue l @ [\<lparr>item_id = i, item_func = f\<rparr>]"
    using r p(2) by (auto simp: runInLoop_def allocRunInLoopId_def commitRunRequest_def Let_def)
  have ev: "even i" using inv p(3) i(1) by (simp add: id_inv_def)
  have lt: "run_in_loop_id_alloc l < i" using p(1) i(1) by simp
  have nin: "i \<notin> set (queued l)"
  proof
    assume "i \<in> set (queued l)"
    with inv ev have "i \<le> run_in_loop_id_alloc l" by (auto simp: id_inv_def)
    with lt show False by simp
  qed
  have q: "set (queued l') = insert i (set (queued l))" by (auto simp: queued_def i)
  have d: "distinct (queued l')" using inv nin by (auto simp: id_inv_def queued_def i)
  have b: "j \<noteq> 0 \<and> (if odd j then j \<le> run_next_id_alloc l else j \<le> i)" if "j \<in> set (queued l')" for j
    using that inv lt p(2) i(1) ev unfolding q by (auto simp: id_inv_def intro: order_trans)
  show ?thesis using d b q nin ev inv unfolding id_inv_def by (auto simp: i(2-6))
qed

lemma cancel_spec:
  assumes inv: "id_inv l" and c: "loop_cancel i l = (found, l')"
  shows "found \<longleftrightarrow> i \<in> set (queued l)" and "queued l' = filter (\<lambda>j. j \<noteq> i) (queued l)" and "id_inv l'"
proof -
  let ?rm = "filter (\<lambda>it. item_id it \<noteq> i)"
  have none: "?rm q = q" if "i \<notin> item_id ` set q" for q :: "'a run_item list"
    using that by (intro filter_True) auto
  have dj: "i \<in> item_id ` set (tmp_queue l) \<Longrightarrow> i \<notin> item_id ` set (run_next_queue l) \<and> i \<notin> item_id ` set (run_in_loop_queue l)"
    using inv by (auto simp: id_inv_def queued_def)
  have od: "i \<in> item_id ` set (run_next_queue l) \<Longrightarrow> odd i" and ev: "i \<in> item_id ` set (run_in_loop_queue l) \<Longrightarrow> even i"
    and nz: "0 \<notin> set (queued l)"
    using inv by (auto simp: id_inv_def)
  have all: "tmp_queue l' = ?rm (tmp_queue l) \<and> run_next_queue l' = ?rm (run_next_queue l) \<and>
      run_in_loop_queue l' = ?rm (run_in_loop_queue l) \<and> (found \<longleftrightarrow> i \<in> set (queued l))"
  proof (cases "i = 0")
    case True
    then have "found = False" "l' = l" using c by (simp_all add: loop_cancel_def)
    with True nz show ?thesis by (auto simp: queued_def none image_iff)
  next
    case False
    show ?thesis
    proof (cases "i \<in> item_id ` set (tmp_queue l)")
      case True
      then have "list_ex (\<lambda>it. item_id it = i) (tmp_queue l)" by (auto simp: list_ex_iff)
      with c False have "found" "l' = l\<lparr>tmp_queue := ?rm (tmp_queue l)\<rparr>"
        by (auto simp: loop_cancel_def RemoveRunFuncItemById_def)
      with dj [OF True] True show ?thesis by (auto simp: none queued_def)
    next
      case nt: False
      then have nl: "\<not> list_ex (\<lambda>it. item_id it = i) (tmp_queue l)" by (auto simp: list_ex_iff)
      have le: "list_ex (\<lambda>it. item_id it = i) q \<longleftrightarrow> i \<in> item_id ` set q" for q :: "'a run_item list"
        by (auto simp: list_ex_iff)
      show ?thesis
      proof (cases "odd i")
        case True
        then have "i \<notin> item_id ` set (run_in_loop_queue l)" using ev by auto
        with True nl nt False c show ?thesis
          by (auto simp: loop_cancel_def RemoveRunFuncItemById_def none queued_def le)
      next
        case even: False
        then have "i \<notin> item_id ` set (run_next_queue l)" using od by auto
        with even nl nt False c show ?thesis
          by (auto simp: loop_cancel_def RemoveRunFuncItemById_def none queued_def le)
      qed
    qed
  qed
  then show "found \<longleftrightarrow> i \<in> set (queued l)" by blast
  have fm: "map item_id (?rm q) = filter (\<lambda>j. j \<noteq> i) (map item_id q)" for q :: "'a run_item list"
    by (simp add: filter_map o_def)
  show q': "queued l' = filter (\<lambda>j. j \<noteq> i) (queued l)" using all by (simp add: queued_def fm)
  have al: "run_next_id_alloc l' = run_next_id_alloc l" "run_in_loop_id_alloc l' = run_in_loop_id_alloc l"
    using c by (auto simp: loop_cancel_def RemoveRunFuncItemById_def Let_def split: if_splits)
  show "id_inv l'" using inv all unfolding id_inv_def q' al by auto
qed


section \<open>Wake-up\<close>

text \<open>While the loop runs, the eventfd counts exactly the committed request, and there is one
  whenever a task from another thread waits.\<close>

definition wake_inv :: "'f loop \<Rightarrow> bool" where
  "wake_inv l \<longleftrightarrow>
     run_event l = Some (if has_commit_run_req l then 1 else 0) \<and>
     (run_in_loop_queue l \<noteq> [] \<longrightarrow> has_commit_run_req l)"

lemma eventfd_write_zero [simp]: "eventfd_write (Some 0) = Some 1"
proof -
  have "(0 :: u64) < - 2" by (simp add: word_greater_zero_iff)
  then show ?thesis by (simp add: eventfd_write_def)
qed

lemma wake_runInLoop: "wake_inv l \<Longrightarrow> wake_inv (snd (runInLoop f l))"
  by (auto simp: wake_inv_def runInLoop_def allocRunInLoopId_def commitRunRequest_def isRunningLockless_def Let_def)

lemma wake_runNext: "wake_inv l \<Longrightarrow> wake_inv (snd (runNext f l))"
  by (auto simp: wake_inv_def runNext_def allocRunNextId_def Let_def)

lemma wake_loop_run: "wake_inv l \<Longrightarrow> wake_inv (snd (loop_run tid f l))"
  by (simp add: loop_run_def Let_def wake_runInLoop wake_runNext)

lemma wake_frame:
  "wake_inv l \<Longrightarrow> run_event l' = run_event l \<Longrightarrow> has_commit_run_req l' = has_commit_run_req l \<Longrightarrow>
   (run_in_loop_queue l = [] \<Longrightarrow> run_in_loop_queue l' = []) \<Longrightarrow> wake_inv l'"
  by (auto simp: wake_inv_def)

lemma wake_cancel: "wake_inv l \<Longrightarrow> wake_inv (snd (loop_cancel i l))"
  by (erule wake_frame) (auto simp: loop_cancel_def RemoveRunFuncItemById_def Let_def)

lemma wake_addTimer: "wake_inv l \<Longrightarrow> addTimer malloc now iv r cb l = Inr (tok, l') \<Longrightarrow> wake_inv l'"
  by (erule wake_frame) (auto simp: addTimer_def Let_def split: if_splits sum.splits)

lemma wake_deleteTimer:
  assumes "wake_inv l" and "deleteTimer tid tok l = Inr l'"
  shows "wake_inv l'"
proof -
  have "wake_inv (snd (loop_run tid (Some (FreeTimer a)) (l\<lparr>timer_cabinet := c, timer_pool := p, timer_min_heap := h\<rparr>)))" for a c p h
    by (rule wake_loop_run, rule wake_frame [OF assms(1)]) auto
  moreover have "wake_inv (l\<lparr>timer_cabinet := c\<rparr>)" for c by (rule wake_frame [OF assms(1)]) auto
  ultimately show ?thesis
    using assms(2) by (auto simp: deleteTimer_def Let_def split: sum.splits option.splits if_splits)
qed

lemma wake_exec_call: "wake_inv l \<Longrightarrow> exec_call malloc tid c l = Inr l' \<Longrightarrow> wake_inv l'"
  by (cases c) (auto simp: wake_runInLoop wake_runNext wake_loop_run wake_cancel wake_deleteTimer
      split: sum.splits dest: wake_addTimer intro: wake_frame)

lemma wake_exec_calls: "wake_inv l \<Longrightarrow> exec_calls malloc tid cs l = Inr l' \<Longrightarrow> wake_inv l'"
  by (induction cs arbitrary: l) (auto split: sum.splits dest: wake_exec_call)

lemma wake_call_cb:
  assumes "wake_inv l" and "call_cb malloc body tid f l = Inr l'"
  shows "wake_inv l'"
proof (cases f)
  case None
  with assms show ?thesis by (simp add: call_cb_def)
next
  case (Some g)
  have i: "wake_inv (l\<lparr>cb_level := cb_level l + 1\<rparr>)" by (rule wake_frame [OF assms(1)]) auto
  from assms(2) Some obtain l1 where l1: "call_func malloc body tid g (l\<lparr>cb_level := cb_level l + 1\<rparr>) = Inr l1"
    "l' = l1\<lparr>cb_level := cb_level l1 - 1\<rparr>" by (auto simp: call_cb_def split: sum.splits)
  have "wake_inv l1"
  proof (cases g)
    case (User u)
    with l1(1) wake_exec_calls [OF i] show ?thesis by auto
  next
    case (FreeTimer a)
    with l1(1) obtain p where "l1 = l\<lparr>cb_level := cb_level l + 1, timer_pool := p\<rparr>" by (auto split: sum.splits)
    then show ?thesis by (intro wake_frame [OF assms(1)]) auto
  qed
  then show ?thesis unfolding l1(2) by (rule wake_frame) auto
qed

lemma wake_run_item: "wake_inv l \<Longrightarrow> run_item_func malloc body tid it l = Inr l' \<Longrightarrow> wake_inv l'"
  unfolding run_item_func_def by (erule wake_call_cb [rotated]) (erule wake_frame, auto)

lemma wake_drain: "wake_inv l \<Longrightarrow> drain_tmp malloc body tid l = Inr l' \<Longrightarrow> wake_inv l'"
proof (induction malloc body tid l rule: drain_tmp.induct)
  case (1 malloc body tid l)
  show ?case
  proof (cases "tmp_queue l")
    case Nil
    with 1 show ?thesis by (subst (asm) drain_tmp.simps) simp
  next
    case (Cons it rest)
    with 1(3) obtain l1 where l1: "run_item_func malloc body tid it (l\<lparr>tmp_queue := rest\<rparr>) = Inr l1"
      "drain_tmp malloc body tid l1 = Inr l'"
      by (subst (asm) drain_tmp.simps) (auto split: sum.splits)
    have "wake_inv (l\<lparr>tmp_queue := rest\<rparr>)" by (rule wake_frame [OF 1(2)]) auto
    from 1(1) [OF Cons l1(1) wake_run_item [OF this l1(1)] l1(2)] show ?thesis .
  qed
qed

lemma wake_expired:
  "wake_inv l \<Longrightarrow> handleExpiredTimers malloc body tid fuel now l = Some (Inr l') \<Longrightarrow> wake_inv l' \<and> (tmp_queue l = [] \<longrightarrow> tmp_queue l' = [])"
proof (induction fuel arbitrary: l)
  case 0
  from "0.prems"(2) have "l' = l"
    by (subst (asm) handleExpiredTimers.simps) (auto split: list.splits sum.splits if_splits)
  with "0.prems"(1) show ?case by simp
next
  case (Suc fuel)
  show ?case
  proof (cases "l' = l")
    case True
    with Suc.prems show ?thesis by simp
  next
    case False
    with Suc.prems(2) obtain a rest t l1 l2 where
      l1: "expire_front a t l = Inr l1"
      and l2: "call_cb malloc body tid (map_option User (timer_cb t))
          (l1\<lparr>trace := trace l1 @ [FiredTimer (timer_token t) (timer_expired t)]\<rparr>) = Inr l2"
      and rec: "handleExpiredTimers malloc body tid fuel now l2 = Some (Inr l')"
      by (subst (asm) handleExpiredTimers.simps) (auto split: list.splits sum.splits if_splits)
    have f: "run_event l1 = run_event l" "has_commit_run_req l1 = has_commit_run_req l"
      "run_in_loop_queue l1 = run_in_loop_queue l" "tmp_queue l1 = tmp_queue l"
      using l1 by (auto simp: expire_front_def Let_def split: sum.splits if_splits)
    have "wake_inv (l1\<lparr>trace := trace l1 @ [FiredTimer (timer_token t) (timer_expired t)]\<rparr>)"
      by (rule wake_frame [OF Suc.prems(1)]) (use f in auto)
    from wake_call_cb [OF this l2] have i2: "wake_inv l2" .
    have "length (tmp_queue l2) \<le> length (tmp_queue l1)"
      using l2 by (auto simp: call_cb_def split: option.splits sum.splits dest!: tmp_exec_calls)
    with f Suc.IH [OF i2 rec] show ?thesis by auto
  qed
qed

lemma wake_handleRunInLoop:
  assumes "run_event l \<noteq> None" and "tmp_queue l = []" and "handleRunInLoopFunc malloc body tid l = Inr l'"
  shows "wake_inv l'"
  using assms(3) unfolding handleRunInLoopFunc_def
  by (rule wake_drain [rotated])
    (use assms(1,2) in \<open>auto simp: wake_inv_def finishRunRequest_def eventfd_read_def\<close>)

lemma wake_step:
  assumes "loop_step malloc body tid (now, l) (now', l')" and "wake_inv l" and "tmp_queue l = []"
  shows "wake_inv l' \<and> tmp_queue l' = []"
  using assms(1)
proof cases
  case clock
  then show ?thesis using assms by simp
next
  case (call c t)
  then show ?thesis using wake_exec_call [OF assms(2)] tmp_exec_call [of malloc t c l l'] assms(3) by auto
next
  case (timers fuel)
  then show ?thesis using wake_expired [OF assms(2)] assms(3) by blast
next
  case (fd_event f)
  then show ?thesis using wake_exec_calls [OF assms(2)] tmp_exec_calls [of malloc tid _ l l'] assms(3) by fastforce
next
  case in_loop_tasks
  moreover have "run_event l \<noteq> None" using assms(2) by (simp add: wake_inv_def)
  moreover have "tmp_queue l' = []" using drain_tmp_order [OF in_loop_tasks(2) [unfolded handleRunInLoopFunc_def]] by blast
  ultimately show ?thesis using wake_handleRunInLoop assms(3) by blast
next
  case next_tasks
  then have d: "drain_tmp malloc (body now) tid (l\<lparr>run_next_queue := tmp_queue l, tmp_queue := run_next_queue l\<rparr>) = Inr l'"
    by (simp add: handleNextFunc_def)
  have "wake_inv (l\<lparr>run_next_queue := tmp_queue l, tmp_queue := run_next_queue l\<rparr>)"
    by (rule wake_frame [OF assms(2)]) auto
  from wake_drain [OF this d] drain_tmp_order [OF d] show ?thesis by blast
qed

section \<open>Properties of the tasks\<close>



text \<open>\<open>cancel\<close> returns true exactly when the task is still waiting, in whichever queue it is,
  removes it and keeps every other waiting task in its place; the ids of waiting tasks stay
  distinct.\<close>

theorem cancel_exact:
  assumes "id_inv l" and "loop_cancel i l = (found, l')"
  shows "(found \<longleftrightarrow> i \<in> set (queued l)) \<and> queued l' = filter (\<lambda>j. j \<noteq> i) (queued l) \<and> id_inv l'"
  using cancel_spec [OF assms] by blast

theorem cancel_exact_witness:
  "id_inv (loop_init :: nat loop) \<and> (fst (loop_cancel 4 (loop_init :: nat loop)) \<longleftrightarrow> 4 \<in> set (queued (loop_init :: nat loop)))"
proof -
  obtain found l' where c: "loop_cancel 4 (loop_init :: nat loop) = (found, l')" by (cases "loop_cancel 4 (loop_init :: nat loop)")
  from cancel_exact [OF id_inv_init c] id_inv_init c show ?thesis by auto
qed

text \<open>A task handed in with \<open>runNext\<close> or \<open>runInLoop\<close> gets an id that no waiting task has, odd for
  the one and even and not 0 for the other, and goes to the end of its queue, as long as the
  64-bit counter has not run out.\<close>

theorem run_ids_unique:
  assumes "id_inv l" and "run_next_id_alloc l < - 2" and "run_in_loop_id_alloc l < - 2"
    and "runNext f l = (i, l1)" and "runInLoop f l = (j, l2)"
  shows "i \<notin> set (queued l) \<and> odd i \<and> id_inv l1 \<and> j \<notin> set (queued l) \<and> even j \<and> id_inv l2 \<and>
    run_next_queue l1 = run_next_queue l @ [\<lparr>item_id = i, item_func = f\<rparr>] \<and>
    run_in_loop_queue l2 = run_in_loop_queue l @ [\<lparr>item_id = j, item_func = f\<rparr>]"
  using runNext_id_inv [OF assms(1,2,4)] runInLoop_id_inv [OF assms(1,3,5)] by blast

theorem run_ids_unique_witness:
  "\<exists>i l1 j l2. runNext (Some (User (0 :: nat))) loop_init = (i, l1) \<and> runInLoop (Some (User (0 :: nat))) loop_init = (j, l2) \<and>
     odd i \<and> even j \<and> id_inv l1 \<and> id_inv l2"
proof -
  obtain i l1 where r: "runNext (Some (User (0 :: nat))) loop_init = (i, l1)" by (cases "runNext (Some (User (0 :: nat))) loop_init")
  obtain j l2 where s: "runInLoop (Some (User (0 :: nat))) loop_init = (j, l2)" by (cases "runInLoop (Some (User (0 :: nat))) loop_init")
  have "(1 :: u64) < - 2" "(0 :: u64) < - 2" by (simp_all add: word_less_nat_alt)
  then have "run_next_id_alloc (loop_init :: nat loop) < - 2" "run_in_loop_id_alloc (loop_init :: nat loop) < - 2"
    by (simp_all add: loop_init_def)
  from run_ids_unique [OF id_inv_init this r s] r s show ?thesis by auto
qed



text \<open>The premise on the stale request is needed, and \<open>runThisAfterLoop\<close> does not establish it:
  \<open>has_commit_run_req_\<close> is not reset when the eventfd is closed. After a run in which a task was
  committed but not yet picked up, a second run starts with an empty eventfd, and a task handed in
  then waits without any wake-up.\<close>

theorem lost_wakeup_after_restart:
  "\<exists>l1 l2. runThisAfterLoop (first_fit 9) (\<lambda>_ _. []) 1
        (snd (runInLoop (Some (User (0 :: nat))) (runThisBeforeLoop 1 loop_init))) = Inr l1 \<and>
     l2 = snd (runInLoop (Some (User (1 :: nat))) (runThisBeforeLoop 1 l1)) \<and>
     run_in_loop_queue l2 \<noteq> [] \<and> run_event l2 = Some 0"
  by (simp add: runThisAfterLoop_def cleanupDeferredTasks_def cleanup_rounds.simps cleanup_round_def
      run_item_func_def call_cb_def runInLoop_def allocRunInLoopId_def commitRunRequest_def
      runThisBeforeLoop_def resetStat_def isRunningLockless_def loop_init_def Let_def)

lemma cleanup_rounds_count:
  "cleanup_rounds malloc body tid r l = Inr (n, l') \<Longrightarrow>
   - 1 \<le> n \<and> n \<le> int r \<and> (n = - 1 \<longleftrightarrow> run_in_loop_queue l' \<noteq> [] \<or> run_next_queue l' \<noteq> [])"
proof (induction r arbitrary: l)
  case 0
  then show ?case by (subst (asm) cleanup_rounds.simps) (auto split: if_splits)
next
  case (Suc r)
  then show ?case by (subst (asm) (2) cleanup_rounds.simps) (fastforce split: if_splits sum.splits)
qed

text \<open>\<open>cleanupDeferredTasks\<close> always ends, after at most 100 rounds. Its warning about recursive
  actions is never logged when tasks are left over: the counter is then -1 and the test is for 0.\<close>

theorem cleanup_warning_misses:
  assumes "cleanupDeferredTasks malloc body tid l = Inr (warn, l')"
    and "run_in_loop_queue l' \<noteq> [] \<or> run_next_queue l' \<noteq> []"
  shows "\<not> warn"
  using assms cleanup_rounds_count [of malloc body tid 100 l _ l']
  by (auto simp: cleanupDeferredTasks_def split: sum.splits)

lemma respawn_rounds:
  assumes "run_in_loop_queue l = []" and "run_next_queue l = [\<lparr>item_id = i, item_func = Some (User f)\<rparr>]"
  shows "\<exists>l'. cleanup_rounds malloc (\<lambda>f _. [CRunNext (Some f)]) tid r l = Inr (- 1, l') \<and> run_next_queue l' \<noteq> []"
  using assms
proof (induction r arbitrary: l i)
  case 0
  then show ?case by (subst cleanup_rounds.simps) simp
next
  case (Suc r)
  let ?body = "\<lambda>f _. [CRunNext (Some f)]"
  obtain l1 where l1: "cleanup_round malloc ?body tid l = Inr l1" "run_in_loop_queue l1 = []"
      "\<exists>j. run_next_queue l1 = [\<lparr>item_id = j, item_func = Some (User f)\<rparr>]"
    using Suc.prems by (auto simp: cleanup_round_def run_item_func_def call_cb_def runNext_def allocRunNextId_def Let_def)
  then show ?case using Suc by (subst cleanup_rounds.simps) auto
qed

theorem cleanup_warning_misses_witness:
  "\<exists>warn l'. cleanupDeferredTasks (first_fit 9) (\<lambda>f _. [CRunNext (Some f)]) 1
       (snd (runNext (Some (User (0 :: nat))) loop_init)) = Inr (warn, l') \<and> run_next_queue l' \<noteq> [] \<and> \<not> warn"
proof -
  let ?l = "snd (runNext (Some (User (0 :: nat))) loop_init)"
  have q: "run_in_loop_queue ?l = []" "run_next_queue ?l = [\<lparr>item_id = 3, item_func = Some (User 0)\<rparr>]"
    by (simp_all add: runNext_def allocRunNextId_def loop_init_def Let_def)
  from respawn_rounds [OF q] obtain l' where
    "cleanup_rounds (first_fit 9) (\<lambda>f _. [CRunNext (Some f)]) 1 100 ?l = Inr (- 1, l')" "run_next_queue l' \<noteq> []" by blast
  then have c: "cleanupDeferredTasks (first_fit 9) (\<lambda>f _. [CRunNext (Some f)]) 1 ?l = Inr (False, l')"
    by (simp add: cleanupDeferredTasks_def)
  with cleanup_warning_misses [OF c] \<open>run_next_queue l' \<noteq> []\<close> show ?thesis by auto
qed

end
