(* ===== verification/State_Machine.thy ===== *)
theory State_Machine
  imports Tbox_Prelude
begin

text \<open>
  The hierarchical state machine of \<open>modules/flow/state_machine.cpp\<close>. Machines are objects named by
  an address in a store, so that one machine can be the sub-machine of several states; a pointer
  to a \<open>State\<close> is the id under which \<open>states_\<close> owns it, or the static \<open>_term_state_\<close>. Actions,
  guards and event functions are names \<open>'c\<close>; the environment \<open>env\<close> gives the answers of guards and
  event functions from the history of what has run, and the history \<open>sm_log\<close> records every call.
  Calls a callback makes back into a machine in transition are refused by \<open>cb_level_\<close>, which the
  property on reentrant calls states.
\<close>

section \<open>State\<close>

record 'x event =
  ev_id :: int
  ev_extra :: "'x option"

definition no_event :: "'x event" where
  "no_event = \<lparr>ev_id = 0, ev_extra = None\<rparr>"

record 'c route =
  r_event_id :: int
  r_next_state_id :: int
  r_guard :: "'c option"
  r_action :: "'c option"
  r_label :: string

record 'c state =
  s_id :: int
  enter_action :: "'c option"
  exit_action :: "'c option"
  s_label :: string
  sub_sm :: "nat option"
  routes :: "'c route list"
  events :: "int \<Rightarrow> 'c option"
  default_event :: "'c option"

datatype sptr = StatePtr int | TermPtr

record 'c sm =
  init_state_id :: int
  is_running :: bool
  last_state :: "sptr option"
  curr_state :: "sptr option"
  next_state :: "sptr option"
  states :: "int \<Rightarrow> 'c state option"
  state_changed_cb :: "'c option"
  sm_cb_level :: int

datatype ('c, 'x) sm_call = Act nat 'c "'x event" | Ask nat 'c "'x event" | Changed nat 'c int int "'x event"

record ('c, 'x) world =
  sms :: "nat \<Rightarrow> 'c sm"
  sm_log :: "('c, 'x) sm_call list"

record ('c, 'x) env =
  guard_of :: "'c \<Rightarrow> 'x event \<Rightarrow> ('c, 'x) sm_call list \<Rightarrow> bool"
  event_of :: "'c \<Rightarrow> 'x event \<Rightarrow> ('c, 'x) sm_call list \<Rightarrow> int"

definition NULL_STATE_ID :: int where "NULL_STATE_ID = - 1"
definition TERM_STATE_ID :: int where "TERM_STATE_ID = 0"
definition ANY_EVENT_ID :: int where "ANY_EVENT_ID = 0"

definition new_sm :: "'c sm" where
  "new_sm = \<lparr>init_state_id = NULL_STATE_ID, is_running = False, last_state = None, curr_state = None,
             next_state = None, states = Map.empty, state_changed_cb = None, sm_cb_level = 0\<rparr>"

definition term_state :: "'c state" where
  "term_state = \<lparr>s_id = TERM_STATE_ID, enter_action = None, exit_action = None, s_label = ''Term'',
                 sub_sm = None, routes = [], events = Map.empty, default_event = None\<rparr>"

definition state_of :: "'c sm \<Rightarrow> sptr \<Rightarrow> 'c state" where
  "state_of m p =
     (case p of TermPtr \<Rightarrow> term_state
              | StatePtr i \<Rightarrow> (case states m i of Some s \<Rightarrow> s | None \<Rightarrow> term_state))"

section \<open>Building a machine\<close>

definition findState :: "'c sm \<Rightarrow> int \<Rightarrow> sptr option" where
  "findState m i = (if i \<noteq> NULL_STATE_ID \<and> states m i \<noteq> None then Some (StatePtr i) else None)"

definition newState :: "int \<Rightarrow> 'c option \<Rightarrow> 'c option \<Rightarrow> string \<Rightarrow> 'c sm \<Rightarrow> bool \<times> 'c sm" where
  "newState i enter exit lbl m =
     (if is_running m then (False, m)
      else if states m i \<noteq> None then (False, m)
      else
        (let s = \<lparr>s_id = i, enter_action = enter, exit_action = exit, s_label = lbl, sub_sm = None,
                  routes = [], events = Map.empty, default_event = None\<rparr>;
             m1 = m\<lparr>states := (states m)(i \<mapsto> s)\<rparr>
         in (True, if init_state_id m1 = NULL_STATE_ID then m1\<lparr>init_state_id := i\<rparr> else m1)))"

definition addRoute :: "int \<Rightarrow> int \<Rightarrow> int \<Rightarrow> 'c option \<Rightarrow> 'c option \<Rightarrow> string \<Rightarrow> 'c sm \<Rightarrow> bool \<times> 'c sm" where
  "addRoute from ev to guard action lbl m =
     (if is_running m then (False, m)
      else
        (case findState m from of
           Some (StatePtr i) \<Rightarrow>
             (if to \<noteq> TERM_STATE_ID \<and> findState m to = None then (False, m)
              else
                (let s = state_of m (StatePtr i);
                     r = \<lparr>r_event_id = ev, r_next_state_id = to, r_guard = guard, r_action = action, r_label = lbl\<rparr>
                 in (True, m\<lparr>states := (states m)(i \<mapsto> s\<lparr>routes := routes s @ [r]\<rparr>)\<rparr>)))
         | _ \<Rightarrow> (False, m)))"

definition addEvent :: "int \<Rightarrow> int \<Rightarrow> 'c option \<Rightarrow> 'c sm \<Rightarrow> bool \<times> 'c sm" where
  "addEvent i ev action m =
     (if is_running m then (False, m)
      else if action = None then (False, m)
      else
        (case findState m i of
           Some (StatePtr j) \<Rightarrow>
             (let s = state_of m (StatePtr j);
                  s1 = (if ev \<noteq> ANY_EVENT_ID then s\<lparr>events := (events s)(ev := action)\<rparr>
                        else s\<lparr>default_event := action\<rparr>)
              in (True, m\<lparr>states := (states m)(j \<mapsto> s1)\<rparr>))
         | _ \<Rightarrow> (False, m)))"

definition setInitState :: "int \<Rightarrow> 'c sm \<Rightarrow> 'c sm" where
  "setInitState i m = m\<lparr>init_state_id := i\<rparr>"

definition setStateChangedCallback :: "'c option \<Rightarrow> 'c sm \<Rightarrow> 'c sm" where
  "setStateChangedCallback cb m = m\<lparr>state_changed_cb := cb\<rparr>"

definition setSubStateMachine :: "int \<Rightarrow> nat \<Rightarrow> 'c sm \<Rightarrow> bool \<times> 'c sm" where
  "setSubStateMachine i b m =
     (if is_running m then (False, m)
      else
        (case findState m i of
           Some (StatePtr j) \<Rightarrow>
             (True, m\<lparr>states := (states m)(j \<mapsto> (state_of m (StatePtr j))\<lparr>sub_sm := Some b\<rparr>)\<rparr>)
         | _ \<Rightarrow> (False, m)))"

section \<open>Running a machine\<close>

definition upd :: "nat \<Rightarrow> ('c sm \<Rightarrow> 'c sm) \<Rightarrow> ('c, 'x) world \<Rightarrow> ('c, 'x) world" where
  "upd a f w = w\<lparr>sms := (sms w)(a := f (sms w a))\<rparr>"

definition bump :: "int \<Rightarrow> nat \<Rightarrow> ('c, 'x) world \<Rightarrow> ('c, 'x) world" where
  "bump n a w = upd a (\<lambda>m. m\<lparr>sm_cb_level := sm_cb_level m + n\<rparr>) w"

definition sm_note :: "('c, 'x) sm_call \<Rightarrow> ('c, 'x) world \<Rightarrow> ('c, 'x) world" where
  "sm_note x w = w\<lparr>sm_log := sm_log w @ [x]\<rparr>"

definition act :: "nat \<Rightarrow> 'c option \<Rightarrow> 'x event \<Rightarrow> ('c, 'x) world \<Rightarrow> ('c, 'x) world" where
  "act a f ev w = (case f of None \<Rightarrow> w | Some c \<Rightarrow> sm_note (Act a c ev) w)"

definition isTerminated :: "'c sm \<Rightarrow> bool" where
  "isTerminated m \<longleftrightarrow> (case curr_state m of None \<Rightarrow> False | Some p \<Rightarrow> s_id (state_of m p) = TERM_STATE_ID)"

definition ptr_id :: "'c sm \<Rightarrow> sptr option \<Rightarrow> int" where
  "ptr_id m p = (case p of None \<Rightarrow> NULL_STATE_ID | Some q \<Rightarrow> s_id (state_of m q))"

definition currentState :: "'c sm \<Rightarrow> int" where "currentState m = ptr_id m (curr_state m)"
definition lastState :: "'c sm \<Rightarrow> int" where "lastState m = ptr_id m (last_state m)"
definition nextState :: "'c sm \<Rightarrow> int" where "nextState m = ptr_id m (next_state m)"

text \<open>\<open>fuel\<close> bounds the depth of nested sub-machines; \<open>None\<close> is a recursion that has not
  returned.\<close>

fun sm_start :: "nat \<Rightarrow> nat \<Rightarrow> ('c, 'x) world \<Rightarrow> (bool \<times> ('c, 'x) world) option" where
  "sm_start fuel a w =
     (let m = sms w a
      in if is_running m then Some (False, w)
         else if sm_cb_level m \<noteq> 0 then Some (False, w)
         else
           (case findState m (init_state_id m) of
              None \<Rightarrow> Some (False, w)
            | Some p \<Rightarrow>
                (let w1 = upd a (\<lambda>m. m\<lparr>is_running := True, curr_state := Some p\<rparr>) w;
                     w2 = bump (- 1) a (act a (enter_action (state_of m p)) no_event (bump 1 a w1))
                 in case sub_sm (state_of m p) of
                      None \<Rightarrow> Some (True, w2)
                    | Some b \<Rightarrow>
                        (case fuel of
                           0 \<Rightarrow> None
                         | Suc n \<Rightarrow>
                             (case sm_start n b w2 of None \<Rightarrow> None | Some (_, w3) \<Rightarrow> Some (True, w3))))))"

declare sm_start.simps [simp del]

definition sm_stop :: "nat \<Rightarrow> ('c, 'x) world \<Rightarrow> cxx_error + ('c, 'x) world" where
  "sm_stop a w =
     (let m = sms w a
      in if \<not> is_running m then Inr w
         else if sm_cb_level m \<noteq> 0 then Inr w
         else
           (case curr_state m of
              None \<Rightarrow> Inl NullDeref
            | Some p \<Rightarrow>
                (let w1 = bump (- 1) a (act a (exit_action (state_of m p)) no_event (bump 1 a w))
                 in Inr (upd a (\<lambda>m. m\<lparr>curr_state := None, is_running := False\<rparr>) w1))))"

definition sm_restart :: "nat \<Rightarrow> nat \<Rightarrow> ('c, 'x) world \<Rightarrow> (cxx_error + bool \<times> ('c, 'x) world) option" where
  "sm_restart fuel a w =
     (case sm_stop a w of
        Inl e \<Rightarrow> Some (Inl e)
      | Inr w1 \<Rightarrow> (case sm_start fuel a w1 of None \<Rightarrow> None | Some r \<Rightarrow> Some (Inr r)))"

text \<open>The event function of the state for this event, or its default one.\<close>

definition ask_event :: "('c, 'x) env \<Rightarrow> nat \<Rightarrow> 'c state \<Rightarrow> 'x event \<Rightarrow> ('c, 'x) world \<Rightarrow> int \<times> ('c, 'x) world" where
  "ask_event env a s ev w =
     (case (case events s (ev_id ev) of Some c \<Rightarrow> Some c | None \<Rightarrow> default_event s) of
        None \<Rightarrow> (NULL_STATE_ID, w)
      | Some c \<Rightarrow> (event_of env c ev (sm_log w), sm_note (Ask a c ev) w))"

text \<open>\<open>std::find_if\<close> over the routes: the guards are asked in order until one route fits.\<close>

fun find_route :: "('c, 'x) env \<Rightarrow> nat \<Rightarrow> 'x event \<Rightarrow> 'c route list \<Rightarrow> ('c, 'x) world \<Rightarrow>
    'c route option \<times> ('c, 'x) world" where
  "find_route env a ev [] w = (None, w)"
| "find_route env a ev (r # rs) w =
     (if r_event_id r \<noteq> ANY_EVENT_ID \<and> r_event_id r \<noteq> ev_id ev then find_route env a ev rs w
      else
        (case r_guard r of
           None \<Rightarrow> (Some r, w)
         | Some g \<Rightarrow>
             (let w1 = sm_note (Ask a g ev) w
              in if guard_of env g ev (sm_log w) then (Some r, w1) else find_route env a ev rs w1)))"

text \<open>The id of the next state and the action of the route, when there is a transition.\<close>

definition pick_next :: "('c, 'x) env \<Rightarrow> nat \<Rightarrow> 'x event \<Rightarrow> 'c state \<Rightarrow> ('c, 'x) world \<Rightarrow>
    (int \<times> 'c option) option \<times> ('c, 'x) world" where
  "pick_next env a ev cs w =
     (let (n1, w1a) = ask_event env a cs ev (bump 1 a w); w1 = bump (- 1) a w1a
      in if n1 = NULL_STATE_ID then
           (let (ro, wr) = find_route env a ev (routes cs) (bump 1 a w1); w2 = bump (- 1) a wr
            in case ro of None \<Rightarrow> (None, w2) | Some r \<Rightarrow> (Some (r_next_state_id r, r_action r), w2))
         else (Some (n1, None), w1))"

text \<open>The state object for an id; id 0 without a state of its own is \<open>_term_state_\<close>.\<close>

definition target :: "'c sm \<Rightarrow> int \<Rightarrow> sptr option" where
  "target m nid = (case findState m nid of Some p \<Rightarrow> Some p | None \<Rightarrow> (if nid = TERM_STATE_ID then Some TermPtr else None))"

text \<open>Leaving the current state and entering the next, up to the call of the state-changed
  callback, with \<open>cb_level_\<close> still raised.\<close>

definition sm_move :: "nat \<Rightarrow> 'x event \<Rightarrow> sptr \<Rightarrow> sptr \<Rightarrow> 'c option \<Rightarrow> ('c, 'x) world \<Rightarrow> ('c, 'x) world" where
  "sm_move a ev cp p ract w =
     (let cs = state_of (sms w a) cp;
          ns = state_of (sms w a) p;
          w4 = act a (exit_action cs) ev (bump 1 a w);
          w5 = upd a (\<lambda>m. m\<lparr>last_state := Some cp, curr_state := None\<rparr>) w4;
          w6 = act a ract ev w5;
          w7 = upd a (\<lambda>m. m\<lparr>curr_state := Some p, next_state := None\<rparr>) w6;
          w8 = act a (enter_action ns) ev w7
      in case state_changed_cb (sms w8 a) of
           None \<Rightarrow> w8
         | Some c \<Rightarrow> sm_note (Changed a c (s_id cs) (s_id ns) ev) w8)"

text \<open>From the event functions to the state-changed callback; true when a transition was made.\<close>

definition sm_transit :: "('c, 'x) env \<Rightarrow> nat \<Rightarrow> 'x event \<Rightarrow> ('c, 'x) world \<Rightarrow> cxx_error + bool \<times> ('c, 'x) world" where
  "sm_transit env a ev w =
     (case curr_state (sms w a) of
        None \<Rightarrow> Inl NullDeref
      | Some cp \<Rightarrow>
          (let (found, w2) = pick_next env a ev (state_of (sms w a) cp) w
           in case found of
                None \<Rightarrow> Inr (False, w2)
              | Some (nid, ract) \<Rightarrow>
                  (let np = target (sms w2 a) nid;
                       w3 = upd a (\<lambda>m. m\<lparr>next_state := np\<rparr>) w2
                   in case np of
                        None \<Rightarrow> Inr (False, w3)
                      | Some p \<Rightarrow> Inr (True, sm_move a ev cp p ract w3))))"

fun sm_run :: "('c, 'x) env \<Rightarrow> nat \<Rightarrow> nat \<Rightarrow> 'x event \<Rightarrow> ('c, 'x) world \<Rightarrow>
    (cxx_error + bool \<times> ('c, 'x) world) option" where
  "sm_run env fuel a ev w =
     (let m = sms w a
      in if \<not> is_running m then Some (Inr (False, w))
         else if sm_cb_level m \<noteq> 0 then Some (Inr (False, w))
         else
           (case curr_state m of
              None \<Rightarrow> Some (Inl NullDeref)
            | Some cp \<Rightarrow>
                (case
                   (case sub_sm (state_of m cp) of
                      None \<Rightarrow> Some (Inr (None, w))
                    | Some b \<Rightarrow>
                        (case fuel of
                           0 \<Rightarrow> None
                         | Suc n \<Rightarrow>
                             (case sm_run env n b ev w of
                                None \<Rightarrow> None
                              | Some (Inl e) \<Rightarrow> Some (Inl e)
                              | Some (Inr (ret, w1)) \<Rightarrow>
                                  (if \<not> isTerminated (sms w1 b) then Some (Inr (Some ret, w1))
                                   else
                                     (case sm_stop b w1 of
                                        Inl e \<Rightarrow> Some (Inl e)
                                      | Inr w2 \<Rightarrow> Some (Inr (None, w2))))))) of
                   None \<Rightarrow> None
                 | Some (Inl e) \<Rightarrow> Some (Inl e)
                 | Some (Inr (Some ret, w2)) \<Rightarrow> Some (Inr (ret, w2))
                 | Some (Inr (None, w2)) \<Rightarrow>
                     (case sm_transit env a ev w2 of
                        Inl e \<Rightarrow> Some (Inl e)
                      | Inr (False, w3) \<Rightarrow> Some (Inr (False, w3))
                      | Inr (True, w3) \<Rightarrow>
                          (case curr_state (sms w3 a) of
                             None \<Rightarrow> Some (Inl NullDeref)
                           | Some np \<Rightarrow>
                               (case sub_sm (state_of (sms w3 a) np) of
                                  None \<Rightarrow> Some (Inr (True, bump (- 1) a w3))
                                | Some b \<Rightarrow>
                                    (case fuel of
                                       0 \<Rightarrow> None
                                     | Suc n \<Rightarrow>
                                         (case sm_start n b w3 of
                                            None \<Rightarrow> None
                                          | Some (_, w4) \<Rightarrow>
                                              (case sm_run env n b ev w4 of
                                                 None \<Rightarrow> None
                                               | Some (Inl e) \<Rightarrow> Some (Inl e)
                                               | Some (Inr (_, w5)) \<Rightarrow> Some (Inr (True, bump (- 1) a w5)))))))))))"

declare sm_run.simps [simp del]


section \<open>Invariant\<close>

definition ptr_ok :: "'c sm \<Rightarrow> sptr \<Rightarrow> bool" where
  "ptr_ok m p \<longleftrightarrow> (case p of TermPtr \<Rightarrow> True | StatePtr i \<Rightarrow> states m i \<noteq> None)"

definition routes_ok :: "'c sm \<Rightarrow> bool" where
  "routes_ok m \<longleftrightarrow> (\<forall>i s. states m i = Some s \<longrightarrow>
     s_id s = i \<and> (\<forall>r \<in> set (routes s). r_next_state_id r = TERM_STATE_ID \<or> findState m (r_next_state_id r) \<noteq> None))"

definition sm_ok :: "'c sm \<Rightarrow> bool" where
  "sm_ok m \<longleftrightarrow>
     sm_cb_level m = 0 \<and> next_state m = None \<and> (is_running m \<longleftrightarrow> curr_state m \<noteq> None) \<and>
     (\<forall>p. curr_state m = Some p \<longrightarrow> ptr_ok m p) \<and> (\<forall>p. last_state m = Some p \<longrightarrow> ptr_ok m p) \<and> routes_ok m"

lemma sms_simps [simp]:
  "sms (sm_note x w) = sms w" "sms (act a f ev w) = sms w"
  "sms (upd a g w) = (sms w)(a := g (sms w a))"
  "sms (bump n a w) = (sms w)(a := (sms w a)\<lparr>sm_cb_level := sm_cb_level (sms w a) + n\<rparr>)"
  by (auto simp: sm_note_def act_def upd_def bump_def split: option.splits)

lemma sms_ask_event [simp]: "sms (snd (ask_event env a s ev w)) = sms w"
  by (auto simp: ask_event_def split: option.splits)

lemma sms_find_route [simp]: "sms (snd (find_route env a ev rs w)) = sms w"
  by (induction rs arbitrary: w) (auto simp: Let_def split: option.splits)

lemma find_route_member: "find_route env a ev rs w = (Some r, w') \<Longrightarrow> r \<in> set rs"
  by (induction rs arbitrary: w) (auto simp: Let_def split: option.splits if_splits)

lemma new_sm_ok [simp]: "sm_ok new_sm"
  by (simp add: sm_ok_def new_sm_def routes_ok_def)

lemma findState_ptr: "findState m i = Some p \<Longrightarrow> p = StatePtr i \<and> states m i \<noteq> None"
  by (auto simp: findState_def split: if_splits)

lemma findState_mono:
  "(\<And>j. states m j \<noteq> None \<Longrightarrow> states m' j \<noteq> None) \<Longrightarrow> findState m i \<noteq> None \<Longrightarrow> findState m' i \<noteq> None"
  by (auto simp: findState_def split: if_splits)

text \<open>Setting up: a machine that is changed in one state keeps the invariant when the new state is
  sound.\<close>

lemma sm_ok_set_state:
  assumes ok: "sm_ok m" and i: "s_id s = i"
    and r: "\<And>r. r \<in> set (routes s) \<Longrightarrow> r_next_state_id r = TERM_STATE_ID \<or> findState m (r_next_state_id r) \<noteq> None"
  shows "sm_ok (m\<lparr>states := (states m)(i \<mapsto> s)\<rparr>)"
proof -
  let ?m = "m\<lparr>states := (states m)(i \<mapsto> s)\<rparr>"
  have f: "findState m j \<noteq> None \<Longrightarrow> findState ?m j \<noteq> None" for j
    by (rule findState_mono [of m]) auto
  have p: "ptr_ok m q \<Longrightarrow> ptr_ok ?m q" for q by (auto simp: ptr_ok_def split: sptr.splits)
  have "routes_ok ?m"
    unfolding routes_ok_def
  proof (intro allI impI)
    fix j t assume t: "states ?m j = Some t"
    show "s_id t = j \<and> (\<forall>r \<in> set (routes t). r_next_state_id r = TERM_STATE_ID \<or> findState ?m (r_next_state_id r) \<noteq> None)"
    proof (cases "j = i")
      case True
      with t i r f show ?thesis by auto
    next
      case False
      with t have "states m j = Some t" by simp
      with ok have "s_id t = j" "\<forall>r \<in> set (routes t). r_next_state_id r = TERM_STATE_ID \<or> findState m (r_next_state_id r) \<noteq> None"
        by (auto simp: sm_ok_def routes_ok_def)
      with f show ?thesis by blast
    qed
  qed
  then show ?thesis using ok p unfolding sm_ok_def by auto
qed

lemma same_states:
  assumes "states m' = states m"
  shows "ptr_ok m' p = ptr_ok m p" and "findState m' i = findState m i" and "state_of m' p = state_of m p"
    and "routes_ok m' = routes_ok m"
  using assms by (auto simp: ptr_ok_def findState_def state_of_def routes_ok_def split: sptr.splits)

lemma sm_ok_frame:
  assumes "sm_ok m" and "states m' = states m" and "sm_cb_level m' = 0" and "next_state m' = None"
    and "is_running m' \<longleftrightarrow> curr_state m' \<noteq> None" and "\<And>p. curr_state m' = Some p \<Longrightarrow> ptr_ok m p"
    and "\<And>p. last_state m' = Some p \<Longrightarrow> ptr_ok m p"
  shows "sm_ok m'"
  using assms same_states [OF assms(2)] by (simp add: sm_ok_def)

lemma sm_ok_init: "sm_ok m \<Longrightarrow> sm_ok (m\<lparr>init_state_id := i\<rparr>)"
  by (rule sm_ok_frame [of m]) (auto simp: sm_ok_def)

lemma setInitState_ok: "sm_ok m \<Longrightarrow> sm_ok (setInitState i m)"
  unfolding setInitState_def by (rule sm_ok_init)

lemma setStateChangedCallback_ok: "sm_ok m \<Longrightarrow> sm_ok (setStateChangedCallback cb m)"
  unfolding setStateChangedCallback_def by (rule sm_ok_frame [of m]) (auto simp: sm_ok_def)

lemma sm_ok_state:
  "sm_ok m \<Longrightarrow> states m i = Some s \<Longrightarrow>
   s_id s = i \<and> (\<forall>r \<in> set (routes s). r_next_state_id r = TERM_STATE_ID \<or> findState m (r_next_state_id r) \<noteq> None)"
  by (simp add: sm_ok_def routes_ok_def)

lemma newState_ok: "sm_ok m \<Longrightarrow> sm_ok (snd (newState i en ex lbl m))"
  by (auto simp: newState_def Let_def intro!: sm_ok_set_state sm_ok_init)

lemma addRoute_ok:
  assumes "sm_ok m"
  shows "sm_ok (snd (addRoute i ev to g f lbl m))"
proof (cases "is_running m \<or> findState m i = None \<or> (to \<noteq> TERM_STATE_ID \<and> findState m to = None)")
  case True
  with assms show ?thesis by (auto simp: addRoute_def split: option.splits sptr.splits)
next
  case False
  then obtain s where s: "findState m i = Some (StatePtr i)" "states m i = Some s"
    using findState_ptr [of m i] by auto
  with sm_ok_state [OF assms s(2)] s False assms show ?thesis
    by (auto simp: addRoute_def state_of_def Let_def intro!: sm_ok_set_state)
qed

lemma addEvent_ok:
  assumes "sm_ok m"
  shows "sm_ok (snd (addEvent i ev f m))"
proof (cases "findState m i")
  case None
  with assms show ?thesis by (simp add: addEvent_def)
next
  case (Some p)
  then obtain s where s: "p = StatePtr i" "states m i = Some s" using findState_ptr [OF Some] by auto
  with sm_ok_state [OF assms s(2)] s Some assms show ?thesis
    by (auto simp: addEvent_def state_of_def Let_def intro!: sm_ok_set_state)
qed

lemma setSubStateMachine_ok:
  assumes "sm_ok m"
  shows "sm_ok (snd (setSubStateMachine i b m))"
proof (cases "findState m i")
  case None
  with assms show ?thesis by (simp add: setSubStateMachine_def)
next
  case (Some p)
  then obtain s where s: "p = StatePtr i" "states m i = Some s" using findState_ptr [OF Some] by auto
  with sm_ok_state [OF assms s(2)] s Some assms show ?thesis
    by (auto simp: setSubStateMachine_def state_of_def intro!: sm_ok_set_state)
qed

section \<open>Nested machines\<close>

text \<open>The machines are nested without a cycle: \<open>rk\<close> goes down from a machine to the sub-machine of
  any of its states. Operations never change the states of a machine.\<close>

definition nested :: "(nat \<Rightarrow> nat) \<Rightarrow> ('c, 'x) world \<Rightarrow> bool" where
  "nested rk w \<longleftrightarrow> (\<forall>a i s b. states (sms w a) i = Some s \<longrightarrow> sub_sm s = Some b \<longrightarrow> rk b < rk a)"

text \<open>An operation on a machine of rank at most \<open>k\<close> leaves the machines above alone and every
  machine it may touch sound.\<close>

definition below_ok :: "(nat \<Rightarrow> nat) \<Rightarrow> nat \<Rightarrow> ('c, 'x) world \<Rightarrow> bool" where
  "below_ok rk k w \<longleftrightarrow> nested rk w \<and> (\<forall>b. rk b \<le> k \<longrightarrow> sm_ok (sms w b))"

definition stays :: "(nat \<Rightarrow> nat) \<Rightarrow> nat \<Rightarrow> ('c, 'x) world \<Rightarrow> ('c, 'x) world \<Rightarrow> bool" where
  "stays rk k w w' \<longleftrightarrow> (\<forall>b. k < rk b \<longrightarrow> sms w' b = sms w b) \<and> (\<forall>b. states (sms w' b) = states (sms w b))"

lemma stays_refl [simp]: "stays rk k w w"
  by (simp add: stays_def)

lemma stays_trans: "stays rk k w w1 \<Longrightarrow> stays rk k w1 w2 \<Longrightarrow> stays rk k w w2"
  by (simp add: stays_def)

lemma stays_mono: "stays rk j w w' \<Longrightarrow> j \<le> k \<Longrightarrow> stays rk k w w'"
  by (simp add: stays_def)

lemma nested_stays: "nested rk w \<Longrightarrow> stays rk k w w' \<Longrightarrow> nested rk w'"
  by (simp add: nested_def stays_def)

lemma below_ok_mono: "below_ok rk k w \<Longrightarrow> j \<le> k \<Longrightarrow> below_ok rk j w"
  by (simp add: below_ok_def)

lemma sub_rank:
  assumes "nested rk w" and "sub_sm (state_of (sms w a) p) = Some b"
  shows "rk b < rk a"
  using assms by (auto simp: state_of_def term_state_def nested_def split: sptr.splits option.splits)

lemma state_of_stays: "stays rk k w w' \<Longrightarrow> state_of (sms w' a) p = state_of (sms w a) p"
  by (rule same_states) (simp add: stays_def)

lemma sm_ok_run: "sm_ok m \<Longrightarrow> ptr_ok m p \<Longrightarrow> sm_ok (m\<lparr>is_running := True, curr_state := Some p\<rparr>)"
  by (rule sm_ok_frame [of m]) (auto simp: sm_ok_def)

lemma sm_ok_stop: "sm_ok m \<Longrightarrow> sm_ok (m\<lparr>is_running := False, curr_state := None\<rparr>)"
  by (rule sm_ok_frame [of m]) (auto simp: sm_ok_def)

lemma below_ok_upd:
  assumes "below_ok rk k w" and "rk a \<le> k" and "sms w' = (sms w)(a := m)" and "sm_ok m"
    and "states m = states (sms w a)"
  shows "below_ok rk k w' \<and> stays rk k w w'"
  using assms by (auto simp: below_ok_def stays_def nested_def)

text \<open>Entering the initial state, before the sub-machine is started.\<close>

lemma sm_start_enter:
  assumes ok: "below_ok rk (rk a) w" and p: "findState (sms w a) i = Some p"
  shows "below_ok rk (rk a) (bump (- 1) a (act a f no_event (bump 1 a (upd a (\<lambda>m. m\<lparr>is_running := True, curr_state := Some p\<rparr>) w)))) \<and>
         stays rk (rk a) w (bump (- 1) a (act a f no_event (bump 1 a (upd a (\<lambda>m. m\<lparr>is_running := True, curr_state := Some p\<rparr>) w))))"
proof (rule below_ok_upd [OF ok])
  let ?m = "(sms w a)\<lparr>is_running := True, curr_state := Some p\<rparr>"
  have "sm_ok (sms w a)" using ok by (simp add: below_ok_def)
  moreover have "ptr_ok (sms w a) p" using findState_ptr [OF p] by (auto simp: ptr_ok_def)
  ultimately show "sm_ok ?m" by (rule sm_ok_run)
qed auto

lemma sm_start_ok:
  assumes "below_ok rk (rk a) w" and "rk a \<le> fuel"
  shows "\<exists>r w'. sm_start fuel a w = Some (r, w') \<and> below_ok rk (rk a) w' \<and> stays rk (rk a) w w'"
  using assms
proof (induction fuel arbitrary: a w)
  case (0 a w)
  show ?case
  proof (cases "is_running (sms w a) \<or> sm_cb_level (sms w a) \<noteq> 0 \<or> findState (sms w a) (init_state_id (sms w a)) = None")
    case True
    with 0 show ?thesis by (subst sm_start.simps) (auto simp: Let_def)
  next
    case False
    then obtain p where p: "findState (sms w a) (init_state_id (sms w a)) = Some p" by auto
    have "sub_sm (state_of (sms w a) p) = None"
      using sub_rank [of rk w a p] 0 by (cases "sub_sm (state_of (sms w a) p)") (auto simp: below_ok_def)
    with False p sm_start_enter [OF 0(1) p] show ?thesis by (subst sm_start.simps) (auto simp: Let_def)
  qed
next
  case (Suc fuel a w)
  show ?case
  proof (cases "is_running (sms w a) \<or> sm_cb_level (sms w a) \<noteq> 0 \<or> findState (sms w a) (init_state_id (sms w a)) = None")
    case True
    with Suc.prems show ?thesis by (subst sm_start.simps) (auto simp: Let_def)
  next
    case False
    then obtain p where p: "findState (sms w a) (init_state_id (sms w a)) = Some p" by auto
    define w2 where "w2 = bump (- 1) a (act a (enter_action (state_of (sms w a) p)) no_event
        (bump 1 a (upd a (\<lambda>m. m\<lparr>is_running := True, curr_state := Some p\<rparr>) w)))"
    have w2: "below_ok rk (rk a) w2" "stays rk (rk a) w w2"
      using sm_start_enter [OF Suc.prems(1) p] by (simp_all add: w2_def)
    show ?thesis
    proof (cases "sub_sm (state_of (sms w a) p)")
      case None
      with False p w2 show ?thesis by (subst sm_start.simps) (auto simp: Let_def w2_def [symmetric])
    next
      case (Some b)
      have rb: "rk b < rk a" using sub_rank [of rk w a p] Some Suc.prems by (auto simp: below_ok_def)
      with Suc.IH [of b w2] below_ok_mono [OF w2(1), of "rk b"] Suc.prems obtain r w3 where
        w3: "sm_start fuel b w2 = Some (r, w3)" "below_ok rk (rk b) w3" "stays rk (rk b) w2 w3" by auto
      have "stays rk (rk a) w w3" using w2(2) w3(3) rb by (meson stays_mono stays_trans less_imp_le)
      moreover have "below_ok rk (rk a) w3"
        using w2(1) w3(2,3) unfolding below_ok_def stays_def by (metis linorder_not_le)
      ultimately show ?thesis
        using False p w3(1) Some by (subst sm_start.simps) (auto simp: Let_def w2_def [symmetric])
    qed
  qed
qed

lemma sm_stop_ok:
  assumes "below_ok rk (rk a) w"
  shows "\<exists>w'. sm_stop a w = Inr w' \<and> below_ok rk (rk a) w' \<and> stays rk (rk a) w w' \<and>
    (sm_cb_level (sms w a) = 0 \<longrightarrow> \<not> is_running (sms w' a))"
proof -
  have ok: "sm_ok (sms w a)" using assms by (simp add: below_ok_def)
  show ?thesis
  proof (cases "is_running (sms w a)")
    case False
    with assms show ?thesis by (simp add: sm_stop_def Let_def)
  next
    case True
    with ok obtain p where p: "curr_state (sms w a) = Some p" "sm_cb_level (sms w a) = 0" by (auto simp: sm_ok_def)
    let ?w = "upd a (\<lambda>m. m\<lparr>curr_state := None, is_running := False\<rparr>)
        (bump (- 1) a (act a (exit_action (state_of (sms w a) p)) no_event (bump 1 a w)))"
    have "below_ok rk (rk a) ?w \<and> stays rk (rk a) w ?w"
      by (rule below_ok_upd [OF assms, of a _ "(sms w a)\<lparr>is_running := False, curr_state := None\<rparr>"])
        (use sm_ok_stop [OF ok] p in auto)
    with True p show ?thesis by (simp add: sm_stop_def Let_def)
  qed
qed

lemma bump_cancel: "sms w' = sms (bump 1 a w) \<Longrightarrow> sms (bump (- 1) a w') = sms w"
  by simp

lemma sms_pick_next [simp]: "sms (snd (pick_next env a ev cs w)) = sms w"
proof -
  obtain n1 w1a where e: "ask_event env a cs ev (bump 1 a w) = (n1, w1a)" by (cases "ask_event env a cs ev (bump 1 a w)")
  have "sms w1a = sms (bump 1 a w)" using sms_ask_event [of env a cs ev "bump 1 a w"] e by simp
  then have w1: "sms (bump (- 1) a w1a) = sms w" by (rule bump_cancel)
  obtain ro wr where r: "find_route env a ev (routes cs) (bump 1 a (bump (- 1) a w1a)) = (ro, wr)"
    by (cases "find_route env a ev (routes cs) (bump 1 a (bump (- 1) a w1a))")
  have "sms wr = sms (bump 1 a (bump (- 1) a w1a))"
    using sms_find_route [of env a ev "routes cs" "bump 1 a (bump (- 1) a w1a)"] r by simp
  then have "sms (bump (- 1) a wr) = sms w" using bump_cancel w1 by metis
  with w1 e r show ?thesis by (auto simp: pick_next_def Let_def split: option.splits)
qed

lemma target_ok: "target m nid = Some p \<Longrightarrow> ptr_ok m p"
  by (auto simp: target_def ptr_ok_def split: option.splits if_splits dest: findState_ptr)

lemma sms_sm_move:
  "sms (sm_move a ev cp p ract w) =
   (sms w)(a := (sms w a)\<lparr>last_state := Some cp, curr_state := Some p, next_state := None,
                          sm_cb_level := sm_cb_level (sms w a) + 1\<rparr>)"
  by (cases "sms w a") (simp add: sm_move_def Let_def split: option.splits)

lemma sm_transit_ok:
  assumes ok: "sm_ok (sms w a)" and c: "curr_state (sms w a) = Some cp"
  shows "\<exists>r w'. sm_transit env a ev w = Inr (r, w') \<and>
    (if r then \<exists>p. ptr_ok (sms w a) p \<and>
       sms w' = (sms w)(a := (sms w a)\<lparr>last_state := Some cp, curr_state := Some p, sm_cb_level := 1\<rparr>)
     else sms w' = sms w)"
proof -
  let ?m = "sms w a" and ?cs = "state_of (sms w a) cp"
  obtain found w2 where ch: "pick_next env a ev ?cs w = (found, w2)" by (cases "pick_next env a ev ?cs w")
  have s2: "sms w2 = sms w" using sms_pick_next [of env a ev ?cs w] ch by simp
  have z: "sm_cb_level ?m = 0" "next_state ?m = None" using ok by (simp_all add: sm_ok_def)
  show ?thesis
  proof (cases found)
    case None
    with ch s2 c have "sm_transit env a ev w = Inr (False, w2)" by (simp add: sm_transit_def)
    with s2 show ?thesis by auto
  next
    case (Some na)
    obtain nid ract where na: "na = (nid, ract)" by (cases na)
    show ?thesis
    proof (cases "target ?m nid")
      case None
      let ?w3 = "upd a (\<lambda>m. m\<lparr>next_state := None\<rparr>) w2"
      have "sm_transit env a ev w = Inr (False, ?w3)" using None Some na ch s2 c by (simp add: sm_transit_def)
      moreover have "?m\<lparr>next_state := None\<rparr> = ?m" using z by (cases ?m) simp
      then have "sms ?w3 = sms w" using s2 by (simp add: fun_upd_idem)
      ultimately show ?thesis by auto
    next
      case p: (Some p)
      let ?w3 = "upd a (\<lambda>m. m\<lparr>next_state := Some p\<rparr>) w2"
      have "sm_transit env a ev w = Inr (True, sm_move a ev cp p ract ?w3)"
        using p Some na ch s2 c by (simp add: sm_transit_def)
      moreover have "sms (sm_move a ev cp p ract ?w3) =
          (sms w)(a := ?m\<lparr>last_state := Some cp, curr_state := Some p, sm_cb_level := 1\<rparr>)"
        using s2 z by (cases ?m) (simp add: sms_sm_move)
      ultimately show ?thesis using target_ok [OF p] by auto
    qed
  qed
qed

lemma sm_ok_after:
  assumes "sm_ok m" and "is_running m" and "ptr_ok m cp" and "ptr_ok m p"
  shows "sm_ok (m\<lparr>last_state := Some cp, curr_state := Some p, sm_cb_level := 0\<rparr>)"
  by (rule sm_ok_frame [OF assms(1)]) (use assms in \<open>auto simp: sm_ok_def\<close>)

text \<open>The end of a transition: the sub-machine of the new state is started and given the event.\<close>

lemma below_ok_bumped:
  assumes "below_ok rk (rk a) w" and "sms w' = (sms w)(a := m)" and "states m = states (sms w a)" and "j < rk a"
  shows "below_ok rk j w' \<and> nested rk w'"
  using assms unfolding below_ok_def nested_def by auto

lemma sm_run_ok:
  assumes "below_ok rk (rk a) w" and "rk a \<le> fuel"
  shows "\<exists>r w'. sm_run env fuel a ev w = Some (Inr (r, w')) \<and> below_ok rk (rk a) w' \<and> stays rk (rk a) w w'"
  using assms
proof (induction fuel arbitrary: a w rule: less_induct)
  case (less fuel a w)
  let ?m = "sms w a"
  have ok: "sm_ok ?m" using less.prems by (simp add: below_ok_def)
  show ?case
  proof (cases "is_running ?m")
    case False
    with less.prems show ?thesis by (subst sm_run.simps) (auto simp: Let_def)
  next
    case True
    with ok obtain cp where cp: "curr_state ?m = Some cp" "sm_cb_level ?m = 0" "ptr_ok ?m cp" by (auto simp: sm_ok_def)
    define pre where "pre = (case sub_sm (state_of ?m cp) of
         None \<Rightarrow> Some (Inr (None, w))
       | Some b \<Rightarrow>
           (case fuel of
              0 \<Rightarrow> None
            | Suc n \<Rightarrow>
                (case sm_run env n b ev w of
                   None \<Rightarrow> None
                 | Some (Inl e) \<Rightarrow> Some (Inl e)
                 | Some (Inr (ret, w1)) \<Rightarrow>
                     (if \<not> isTerminated (sms w1 b) then Some (Inr (Some ret, w1))
                      else (case sm_stop b w1 of Inl e \<Rightarrow> Some (Inl e) | Inr w2 \<Rightarrow> Some (Inr (None, w2)))))))"
    have sub_lt: "rk b < rk a" if "nested rk v" "sub_sm (state_of (sms v a) p) = Some b" for v p b
      using sub_rank [OF that] .
    have pre: "\<exists>q w2. pre = Some (Inr (q, w2)) \<and> below_ok rk (rk a) w2 \<and> stays rk (rk a) w w2 \<and> sms w2 a = sms w a"
    proof (cases "sub_sm (state_of ?m cp)")
      case None
      then show ?thesis using less.prems by (simp add: pre_def)
    next
      case (Some b)
      then have rb: "rk b < rk a" using sub_lt less.prems(1) by (auto simp: below_ok_def)
      then obtain n where n: "fuel = Suc n" using less.prems(2) by (cases fuel) auto
      have "below_ok rk (rk b) w" using less.prems(1) rb by (simp add: below_ok_mono)
      from less.IH [of n, OF _ this] n rb less.prems(2) obtain r w1 where
        w1: "sm_run env n b ev w = Some (Inr (r, w1))" "below_ok rk (rk b) w1" "stays rk (rk b) w w1" by auto
      have comb: "below_ok rk (rk a) v \<and> stays rk (rk a) w v \<and> sms v a = sms w a"
        if "below_ok rk (rk b) v" "stays rk (rk b) w v" for v
        using that less.prems(1) rb unfolding below_ok_def stays_def by (metis less_trans linorder_not_le)
      show ?thesis
      proof (cases "isTerminated (sms w1 b)")
        case False
        with w1 Some n comb [OF w1(2,3)] show ?thesis by (simp add: pre_def)
      next
        case True
        from sm_stop_ok [OF w1(2)] obtain w2 where
          w2: "sm_stop b w1 = Inr w2" "below_ok rk (rk b) w2" "stays rk (rk b) w1 w2" by auto
        with True w1 Some n comb [OF w2(2) stays_trans [OF w1(3) w2(3)]] show ?thesis by (simp add: pre_def)
      qed
    qed
    then obtain q w2 where w2: "pre = Some (Inr (q, w2))" "below_ok rk (rk a) w2" "stays rk (rk a) w w2" "sms w2 a = ?m" by blast
    have run: "sm_run env fuel a ev w = (case pre of
         None \<Rightarrow> None
       | Some (Inl e) \<Rightarrow> Some (Inl e)
       | Some (Inr (Some ret, w2)) \<Rightarrow> Some (Inr (ret, w2))
       | Some (Inr (None, w2)) \<Rightarrow>
           (case sm_transit env a ev w2 of
              Inl e \<Rightarrow> Some (Inl e)
            | Inr (False, w3) \<Rightarrow> Some (Inr (False, w3))
            | Inr (True, w3) \<Rightarrow>
                (case curr_state (sms w3 a) of
                   None \<Rightarrow> Some (Inl NullDeref)
                 | Some np \<Rightarrow>
                     (case sub_sm (state_of (sms w3 a) np) of
                        None \<Rightarrow> Some (Inr (True, bump (- 1) a w3))
                      | Some b \<Rightarrow>
                          (case fuel of
                             0 \<Rightarrow> None
                           | Suc n \<Rightarrow>
                               (case sm_start n b w3 of
                                  None \<Rightarrow> None
                                | Some (_, w4) \<Rightarrow>
                                    (case sm_run env n b ev w4 of
                                       None \<Rightarrow> None
                                     | Some (Inl e) \<Rightarrow> Some (Inl e)
                                     | Some (Inr (_, w5)) \<Rightarrow> Some (Inr (True, bump (- 1) a w5)))))))))"
      using True cp by (subst sm_run.simps) (simp add: pre_def Let_def)
    show ?thesis
    proof (cases q)
      case (Some ret)
      with w2 run show ?thesis by auto
    next
      case None
      have c2: "curr_state (sms w2 a) = Some cp" and ok2: "sm_ok (sms w2 a)" using w2(4) cp ok by simp_all
      from sm_transit_ok [OF ok2 c2, of env ev, unfolded w2(4)] obtain r w3 where
        w3: "sm_transit env a ev w2 = Inr (r, w3)" and
        s3: "if r then \<exists>p. ptr_ok ?m p \<and> sms w3 = (sms w2)(a := ?m\<lparr>last_state := Some cp, curr_state := Some p, sm_cb_level := 1\<rparr>)
             else sms w3 = sms w2" by blast
      show ?thesis
      proof (cases r)
        case False
        then have "sms w3 = sms w2" using s3 by simp
        then have "below_ok rk (rk a) w3 \<and> stays rk (rk a) w w3" using w2 by (simp add: below_ok_def stays_def nested_def)
        with False None w2(1) w3 run show ?thesis by auto
      next
        case r: True
        then obtain p where p: "ptr_ok ?m p"
          "sms w3 = (sms w2)(a := ?m\<lparr>last_state := Some cp, curr_state := Some p, sm_cb_level := 1\<rparr>)" using s3 by auto
        let ?n = "?m\<lparr>last_state := Some cp, curr_state := Some p, sm_cb_level := 0\<rparr>"
        have okn: "sm_ok ?n" by (rule sm_ok_after [OF ok True cp(3) p(1)])
        have fin: "below_ok rk (rk a) (bump (- 1) a v) \<and> stays rk (rk a) w (bump (- 1) a v)"
          if v: "nested rk v" "\<And>b. b \<noteq> a \<Longrightarrow> rk b \<le> rk a \<Longrightarrow> sm_ok (sms v b)" "sms v a = sms w3 a"
            "\<And>b. b \<noteq> a \<Longrightarrow> rk a < rk b \<Longrightarrow> sms v b = sms w2 b" "\<And>b. states (sms v b) = states (sms w2 b)" for v
          using v okn p(2) w2(3,4) unfolding below_ok_def stays_def nested_def by auto
        have n3: "nested rk w3" "\<And>b. states (sms w3 b) = states (sms w2 b)"
          using p(2) w2(2,4) by (auto simp: below_ok_def nested_def)
        show ?thesis
        proof (cases "sub_sm (state_of (sms w3 a) p)")
          case n: None
          have "below_ok rk (rk a) (bump (- 1) a w3) \<and> stays rk (rk a) w (bump (- 1) a w3)"
            by (rule fin) (use n3 p(2) w2(2) in \<open>auto simp: below_ok_def\<close>)
          with n None r w2(1) w3 p(2) run show ?thesis by auto
        next
          case (Some b)
          have rb: "rk b < rk a" using sub_lt [OF n3(1) Some] .
          then obtain k where k: "fuel = Suc k" using less.prems(2) by (cases fuel) auto
          have "below_ok rk (rk b) w3"
            using below_ok_bumped [OF w2(2) p(2)] w2(4) rb by simp
          from sm_start_ok [OF this, of k] rb k less.prems(2) obtain rr w4 where
            w4: "sm_start k b w3 = Some (rr, w4)" "below_ok rk (rk b) w4" "stays rk (rk b) w3 w4" by auto
          from less.IH [of k, OF _ w4(2)] rb k less.prems(2) obtain r5 w5 where
            w5: "sm_run env k b ev w4 = Some (Inr (r5, w5))" "below_ok rk (rk b) w5" "stays rk (rk b) w4 w5" by auto
          have st: "stays rk (rk b) w3 w5" using w4(3) w5(3) by (rule stays_trans)
          have "below_ok rk (rk a) (bump (- 1) a w5) \<and> stays rk (rk a) w (bump (- 1) a w5)"
          proof (rule fin)
            show "nested rk w5" using w5(2) by (simp add: below_ok_def)
            show "sms w5 a = sms w3 a" using st rb by (simp add: stays_def)
            show "states (sms w5 c) = states (sms w2 c)" for c using st n3(2) by (simp add: stays_def)
            show "sms w5 c = sms w2 c" if "c \<noteq> a" "rk a < rk c" for c
              using st that rb p(2) by (simp add: stays_def)
            show "sm_ok (sms w5 c)" if "c \<noteq> a" "rk c \<le> rk a" for c
            proof (cases "rk c \<le> rk b")
              case True
              then show ?thesis using w5(2) by (simp add: below_ok_def)
            next
              case False
              then have "sms w5 c = sms w2 c" using st p(2) that by (simp add: stays_def)
              then show ?thesis using w2(2) that by (simp add: below_ok_def)
            qed
          qed
          with Some None r w2(1) w3 p(2) run k w4(1) w5(1) show ?thesis by auto
        qed
      qed
    qed
  qed
qed

section \<open>Properties of the state machine\<close>

text \<open>(C25) With machines nested without a cycle, \<open>start\<close>, \<open>stop\<close>, \<open>restart\<close> and \<open>run\<close> always return, with no
  more nested calls than the depth of the nesting, never dereference a null state, leave the
  machines above untouched, and keep every machine below sound: running exactly when it has a
  current state, with pointers only to states it owns, and \<open>cb_level_\<close> back at 0.\<close>

theorem sm_operations_return:
  assumes "below_ok rk (rk a) w" and "rk a \<le> fuel"
  shows "(\<exists>r w'. sm_run env fuel a ev w = Some (Inr (r, w')) \<and> below_ok rk (rk a) w' \<and> stays rk (rk a) w w') \<and>
    (\<exists>r w'. sm_start fuel a w = Some (r, w') \<and> below_ok rk (rk a) w' \<and> stays rk (rk a) w w') \<and>
    (\<exists>w'. sm_stop a w = Inr w' \<and> below_ok rk (rk a) w' \<and> \<not> is_running (sms w' a)) \<and>
    (\<exists>r w'. sm_restart fuel a w = Some (Inr (r, w')) \<and> below_ok rk (rk a) w')"
proof -
  have z: "sm_cb_level (sms w a) = 0" using assms(1) by (simp add: below_ok_def sm_ok_def)
  from sm_stop_ok [OF assms(1)] z obtain w1 where
    w1: "sm_stop a w = Inr w1" "below_ok rk (rk a) w1" "\<not> is_running (sms w1 a)" by auto
  from sm_start_ok [OF w1(2) assms(2)] w1(1)
  have "\<exists>r w'. sm_restart fuel a w = Some (Inr (r, w')) \<and> below_ok rk (rk a) w'" by (auto simp: sm_restart_def)
  with sm_run_ok [OF assms] sm_start_ok [OF assms] w1 show ?thesis by blast
qed

definition demo_sub :: "nat sm" where
  "demo_sub = snd (addRoute 1 5 2 None None [] (snd (newState 2 None None [] (snd (newState 1 None None [] new_sm)))))"

definition demo_top :: "nat sm" where
  "demo_top = snd (setSubStateMachine 1 20 (snd (newState 1 (Some 7) (Some 8) [] new_sm)))"

definition demo_world :: "(nat, unit) world" where
  "demo_world = \<lparr>sms = (\<lambda>a. if a = 10 then demo_top else if a = 20 then demo_sub else new_sm), sm_log = []\<rparr>"

definition demo_env :: "(nat, unit) env" where
  "demo_env = \<lparr>guard_of = (\<lambda>_ _ _. True), event_of = (\<lambda>_ _ _. - 1)\<rparr>"

lemma demo_ok: "below_ok (\<lambda>a. if a = 10 then 1 else 0) 1 demo_world"
proof -
  have "sm_ok demo_top" "sm_ok demo_sub"
    unfolding demo_top_def demo_sub_def by (intro setSubStateMachine_ok addRoute_ok newState_ok new_sm_ok)+
  moreover have "nested (\<lambda>a. if a = 10 then 1 else 0) demo_world"
    by (auto simp: nested_def demo_world_def demo_top_def demo_sub_def new_sm_def newState_def addRoute_def
        setSubStateMachine_def findState_def state_of_def NULL_STATE_ID_def TERM_STATE_ID_def Let_def split: if_splits)
  ultimately show ?thesis by (simp add: below_ok_def demo_world_def)
qed

theorem sm_operations_return_witness:
  "\<exists>r w'. sm_run demo_env 1 10 \<lparr>ev_id = 5, ev_extra = None\<rparr> demo_world = Some (Inr (r, w')) \<and>
     below_ok (\<lambda>a. if a = 10 then 1 else 0) 1 w'"
  using sm_operations_return [of "\<lambda>a. if a = 10 then 1 else 0" 10 demo_world 1 demo_env "\<lparr>ev_id = 5, ev_extra = None\<rparr>"]
    demo_ok by auto

text \<open>While a machine is inside a callback, every attempt to start, stop or run it is refused and
  changes nothing; adding states, routes, event functions or sub-machines to a running machine is
  refused as well.\<close>

theorem sm_reentry_refused:
  assumes "sm_cb_level (sms w a) \<noteq> 0"
  shows "sm_run env fuel a ev w = Some (Inr (False, w)) \<and> sm_start fuel a w = Some (False, w) \<and>
    sm_stop a w = Inr w \<and>
    (is_running (sms w a) \<longrightarrow>
       newState i en ex lbl (sms w a) = (False, sms w a) \<and> addRoute i e j g f lbl (sms w a) = (False, sms w a) \<and>
       addEvent i e f (sms w a) = (False, sms w a) \<and> setSubStateMachine i b (sms w a) = (False, sms w a))"
  using assms
  by (simp add: sm_run.simps sm_start.simps sm_stop_def newState_def addRoute_def addEvent_def
      setSubStateMachine_def Let_def)

theorem sm_reentry_refused_witness:
  "sm_run demo_env 3 10 no_event (bump 1 10 demo_world) = Some (Inr (False, bump 1 10 demo_world))"
  using sm_reentry_refused [of "bump 1 10 demo_world" 10 demo_env 3 no_event]
  by (simp add: demo_world_def demo_top_def newState_def setSubStateMachine_def findState_def new_sm_def
      NULL_STATE_ID_def Let_def)

fun route_fits :: "('c \<Rightarrow> 'x event \<Rightarrow> bool) \<Rightarrow> 'x event \<Rightarrow> 'c route \<Rightarrow> bool" where
  "route_fits G ev r \<longleftrightarrow>
     (r_event_id r = ANY_EVENT_ID \<or> r_event_id r = ev_id ev) \<and> (case r_guard r of None \<Rightarrow> True | Some g \<Rightarrow> G g ev)"

lemma find_route_find:
  assumes "\<And>g l. guard_of env g ev l = G g ev"
  shows "fst (find_route env a ev rs w) = List.find (route_fits G ev) rs"
  using assms by (induction rs arbitrary: w) (auto simp: Let_def split: option.splits)

text \<open>When the guards do not depend on what has run, \<open>run\<close> takes the first route, in the order of
  \<open>addRoute\<close>, whose event is the given one or any and whose guard holds; an event function of the
  state comes first, and its answer, when it is not -1, replaces the routes.\<close>

theorem run_takes_first_route:
  assumes "\<And>g l. guard_of env g ev l = G g ev"
  shows "fst (pick_next env a ev cs w) =
    (let answer = (case events cs (ev_id ev) of
                     Some c \<Rightarrow> event_of env c ev (sm_log w)
                   | None \<Rightarrow> (case default_event cs of Some c \<Rightarrow> event_of env c ev (sm_log w) | None \<Rightarrow> - 1))
     in if answer \<noteq> - 1 then Some (answer, None)
        else map_option (\<lambda>r. (r_next_state_id r, r_action r)) (List.find (route_fits G ev) (routes cs)))"
proof -
  obtain n1 w1 where e: "ask_event env a cs ev (bump 1 a w) = (n1, w1)" by (cases "ask_event env a cs ev (bump 1 a w)")
  have l: "sm_log (bump 1 a w) = sm_log w" by (simp add: bump_def upd_def)
  have n1: "n1 = (case events cs (ev_id ev) of
                     Some c \<Rightarrow> event_of env c ev (sm_log w)
                   | None \<Rightarrow> (case default_event cs of Some c \<Rightarrow> event_of env c ev (sm_log w) | None \<Rightarrow> - 1))"
    using e l by (auto simp: ask_event_def NULL_STATE_ID_def split: option.splits)
  obtain ro wr where r: "find_route env a ev (routes cs) (bump 1 a (bump (- 1) a w1)) = (ro, wr)"
    by (cases "find_route env a ev (routes cs) (bump 1 a (bump (- 1) a w1))")
  have "ro = List.find (route_fits G ev) (routes cs)"
    using find_route_find [of env ev G, OF assms, where a = a and rs = "routes cs" and w = "bump 1 a (bump (- 1) a w1)"] r by simp
  then show ?thesis unfolding n1 [symmetric]
    using e r by (simp add: pick_next_def Let_def NULL_STATE_ID_def split: option.splits)
qed

theorem run_takes_first_route_witness:
  "fst (pick_next demo_env 20 \<lparr>ev_id = 5, ev_extra = None\<rparr> (state_of demo_sub (StatePtr 1)) demo_world) = Some (2, None)"
proof -
  have g: "guard_of demo_env g \<lparr>ev_id = 5, ev_extra = None\<rparr> l = (\<lambda>_ _. True) g (\<lparr>ev_id = 5, ev_extra = None\<rparr> :: unit event)" for g l
    by (simp add: demo_env_def)
  show ?thesis unfolding run_takes_first_route [OF g]
    by (simp add: demo_sub_def state_of_def addRoute_def newState_def new_sm_def findState_def
        NULL_STATE_ID_def TERM_STATE_ID_def ANY_EVENT_ID_def Let_def)
qed

definition did :: "nat \<Rightarrow> 'c option \<Rightarrow> 'x event \<Rightarrow> ('c, 'x) sm_call list" where
  "did a f ev = (case f of None \<Rightarrow> [] | Some c \<Rightarrow> [Act a c ev])"

lemma sm_log_simps [simp]:
  "sm_log (bump n a w) = sm_log w" "sm_log (upd a g w) = sm_log w"
  "sm_log (act a f ev w) = sm_log w @ did a f ev" "sm_log (sm_note x w) = sm_log w @ [x]"
  by (auto simp: bump_def upd_def act_def sm_note_def did_def split: option.splits)



text \<open>\<open>stop\<close> does not stop the sub-machine of the current state, and \<open>start\<close> on a running machine is
  refused. So after \<open>restart\<close> of a machine whose sub-machine was running, the sub-machine is still
  in the state it had before, not in its initial state.\<close>

theorem restart_keeps_stale_sub:
  "\<exists>w1 w2 w3. sm_start 1 10 demo_world = Some (True, w1) \<and>
     sm_run demo_env 1 10 \<lparr>ev_id = 5, ev_extra = None\<rparr> w1 = Some (Inr (True, w2)) \<and>
     sm_restart 1 10 w2 = Some (Inr (True, w3)) \<and>
     init_state_id (sms w3 20) = 1 \<and> currentState (sms w3 20) = 2"
  by (simp add: sm_run.simps sm_start.simps sm_restart_def sm_stop_def sm_transit_def pick_next_def ask_event_def
      sm_move_def target_def demo_world_def demo_top_def demo_sub_def demo_env_def setSubStateMachine_def
      addRoute_def newState_def new_sm_def findState_def state_of_def isTerminated_def currentState_def ptr_id_def
      bump_def upd_def act_def sm_note_def
      NULL_STATE_ID_def TERM_STATE_ID_def ANY_EVENT_ID_def Let_def)

end
