(* ===== verification/Serializer.thy ===== *)
theory Serializer
  imports Tbox_Prelude
begin

text \<open>
  The byte-order aware writer and reader of \<open>modules/util/serializer.cpp\<close>. A \<open>Serializer\<close> writes
  into memory of fixed size or into a vector that it resizes; a \<open>Deserializer\<close> reads memory with
  a size given by the caller. Positions and sizes are 64-bit words. Writing or reading outside
  the memory is the error \<open>OutOfRange\<close>; a vector beyond its maximal size throws \<open>LengthError\<close>.
\<close>

section \<open>Bytes of a word\<close>

text \<open>\<open>x & 0xff; x >>= 8\<close> repeated: the bytes, least significant first.\<close>

fun shift_out :: "nat \<Rightarrow> 'a::len word \<Rightarrow> bytes" where
  "shift_out 0 w = []"
| "shift_out (Suc n) w = ucast (w AND 0xff) # shift_out n (drop_bit 8 w)"

text \<open>\<open>out = b0; out <<= 8; out |= b1; ...\<close>: the first byte becomes the most significant.\<close>

definition shift_in :: "bytes \<Rightarrow> 'a::len word" where
  "shift_in bs = foldl (\<lambda>acc b. push_bit 8 acc OR ucast b) 0 bs"

lemma length_shift_out [simp]: "length (shift_out n w) = n"
  by (induction n arbitrary: w) auto

lemma shift_in_out: "shift_in (rev (shift_out n w)) = take_bit (8 * n) w"
proof (induction n arbitrary: w)
  case 0
  then show ?case by (simp add: shift_in_def)
next
  case (Suc n)
  have "shift_in (rev (shift_out (Suc n) w)) =
      push_bit 8 (shift_in (rev (shift_out n (drop_bit 8 w)))) OR ucast (ucast (w AND 0xff) :: 8 word)"
    by (simp add: shift_in_def)
  also have "\<dots> = push_bit 8 (take_bit (8 * n) (drop_bit 8 w)) OR ucast (ucast (w AND 0xff) :: 8 word)"
    by (simp add: Suc.IH)
  also have "\<dots> = take_bit (8 * Suc n) w"
  proof (rule bit_word_eqI)
    fix m assume "m < LENGTH('a)"
    have ff: "(0xff :: 'a word) = mask 8" by (simp add: mask_eq_exp_minus_1)
    show "bit (push_bit 8 (take_bit (8 * n) (drop_bit 8 w)) OR ucast (ucast (w AND 0xff) :: 8 word)) m =
        bit (take_bit (8 * Suc n) w) m"
      unfolding ff using \<open>m < LENGTH('a)\<close>
      by (auto simp: bit_simps)
  qed
  finally show ?case .
qed

lemma shift_in_out_16: "shift_in (rev (shift_out 2 w)) = (w :: u16)"
  and shift_in_out_32: "shift_in (rev (shift_out 4 v)) = (v :: u32)"
  and shift_in_out_64: "shift_in (rev (shift_out 8 u)) = (u :: u64)"
  by (simp_all add: shift_in_out take_bit_word_eq_self)

section \<open>Serializer\<close>

datatype endian = Big | Little

record serializer =
  ser_raw :: bool
  ser_block :: bytes
  ser_size :: usize
  ser_endian :: endian
  ser_pos :: usize

definition vector_max :: nat where
  "vector_max = 9223372036854775807"

definition ser_new_raw :: "bytes \<Rightarrow> usize \<Rightarrow> endian \<Rightarrow> serializer" where
  "ser_new_raw mem n e = \<lparr>ser_raw = True, ser_block = mem, ser_size = n, ser_endian = e, ser_pos = 0\<rparr>"

definition ser_new_vector :: "bytes \<Rightarrow> endian \<Rightarrow> serializer" where
  "ser_new_vector block e = \<lparr>ser_raw = False, ser_block = block, ser_size = 0, ser_endian = e, ser_pos = 0\<rparr>"

definition ser_setEndian :: "endian \<Rightarrow> serializer \<Rightarrow> endian \<times> serializer" where
  "ser_setEndian e s = (ser_endian s, s\<lparr>ser_endian := e\<rparr>)"

definition resize :: "nat \<Rightarrow> bytes \<Rightarrow> bytes" where
  "resize n xs = take n xs @ replicate (n - length xs) 0"

definition ser_extendSize :: "usize \<Rightarrow> serializer \<Rightarrow> cxx_error + bool \<times> serializer" where
  "ser_extendSize need_size s =
     (let whole_size = ser_pos s + need_size
      in if ser_raw s then Inr (whole_size \<le> ser_size s, s)
         else if unat whole_size \<le> vector_max
           then Inr (True, s\<lparr>ser_block := resize (unat whole_size) (ser_block s)\<rparr>)
           else Inl LengthError)"

text \<open>Stores to \<open>start_ + pos_\<close>, then \<open>pos_\<close> goes up.\<close>

definition ser_put :: "bytes \<Rightarrow> serializer \<Rightarrow> cxx_error + serializer" where
  "ser_put bs s =
     (case mem_write (ser_block s) (unat (ser_pos s)) bs of
        None \<Rightarrow> Inl OutOfRange
      | Some m \<Rightarrow> Inr (s\<lparr>ser_block := m, ser_pos := ser_pos s + of_nat (length bs)\<rparr>))"

definition ser_write :: "bytes \<Rightarrow> serializer \<Rightarrow> cxx_error + bool \<times> serializer" where
  "ser_write bs s =
     (case ser_extendSize (of_nat (length bs)) s of
        Inl e \<Rightarrow> Inl e
      | Inr (False, s1) \<Rightarrow> Inr (False, s1)
      | Inr (True, s1) \<Rightarrow> (case ser_put bs s1 of Inl e \<Rightarrow> Inl e | Inr s2 \<Rightarrow> Inr (True, s2)))"

definition in_order :: "endian \<Rightarrow> bytes \<Rightarrow> bytes" where
  "in_order e bs = (case e of Big \<Rightarrow> rev bs | Little \<Rightarrow> bs)"

definition ser_append8 :: "u8 \<Rightarrow> serializer \<Rightarrow> cxx_error + bool \<times> serializer" where
  "ser_append8 x s = ser_write [x] s"

definition ser_append16 :: "u16 \<Rightarrow> serializer \<Rightarrow> cxx_error + bool \<times> serializer" where
  "ser_append16 x s = ser_write (in_order (ser_endian s) (shift_out 2 x)) s"

definition ser_append32 :: "u32 \<Rightarrow> serializer \<Rightarrow> cxx_error + bool \<times> serializer" where
  "ser_append32 x s = ser_write (in_order (ser_endian s) (shift_out 4 x)) s"

definition ser_append64 :: "u64 \<Rightarrow> serializer \<Rightarrow> cxx_error + bool \<times> serializer" where
  "ser_append64 x s = ser_write (in_order (ser_endian s) (shift_out 8 x)) s"

definition ser_append :: "bytes \<Rightarrow> serializer \<Rightarrow> cxx_error + bool \<times> serializer" where
  "ser_append bs s = ser_write bs s"

text \<open>A plain object is its bytes in memory, little end first on the target.\<close>

definition ser_appendPOD :: "bytes \<Rightarrow> serializer \<Rightarrow> cxx_error + bool \<times> serializer" where
  "ser_appendPOD bs s = ser_write (in_order (ser_endian s) bs) s"

section \<open>Deserializer\<close>

record deserializer =
  des_mem :: bytes
  des_size :: usize
  des_endian :: endian
  des_pos :: usize

definition des_new :: "bytes \<Rightarrow> usize \<Rightarrow> endian \<Rightarrow> deserializer" where
  "des_new mem n e = \<lparr>des_mem = mem, des_size = n, des_endian = e, des_pos = 0\<rparr>"

definition des_setEndian :: "endian \<Rightarrow> deserializer \<Rightarrow> endian \<times> deserializer" where
  "des_setEndian e d = (des_endian d, d\<lparr>des_endian := e\<rparr>)"

definition des_checkSize :: "usize \<Rightarrow> deserializer \<Rightarrow> bool" where
  "des_checkSize need_size d \<longleftrightarrow> des_pos d + need_size \<le> des_size d"

definition des_set_pos :: "usize \<Rightarrow> deserializer \<Rightarrow> bool \<times> deserializer" where
  "des_set_pos pos d = (if pos < des_size d then (True, d\<lparr>des_pos := pos\<rparr>) else (False, d))"

text \<open>The bytes at \<open>start_ + pos_\<close>, and \<open>pos_\<close> goes up; \<open>None\<close> when the size check fails.\<close>

definition des_read :: "usize \<Rightarrow> deserializer \<Rightarrow> cxx_error + bytes option \<times> deserializer" where
  "des_read n d =
     (if \<not> des_checkSize n d then Inr (None, d)
      else if unat (des_pos d) + unat n \<le> length (des_mem d) then
        Inr (Some (mem_slice (des_mem d) (unat (des_pos d)) (unat n)), d\<lparr>des_pos := des_pos d + n\<rparr>)
      else Inl OutOfRange)"

definition des_word :: "usize \<Rightarrow> deserializer \<Rightarrow> cxx_error + ('a::len) word option \<times> deserializer" where
  "des_word n d =
     (case des_read n d of
        Inl e \<Rightarrow> Inl e
      | Inr (r, d') \<Rightarrow>
          Inr (map_option (\<lambda>bs. shift_in (case des_endian d of Big \<Rightarrow> bs | Little \<Rightarrow> rev bs)) r, d'))"

definition des_fetch8 :: "deserializer \<Rightarrow> cxx_error + u8 option \<times> deserializer" where
  "des_fetch8 d = (case des_read 1 d of Inl e \<Rightarrow> Inl e | Inr (r, d') \<Rightarrow> Inr (map_option hd r, d'))"

definition des_fetch16 :: "deserializer \<Rightarrow> cxx_error + u16 option \<times> deserializer" where
  "des_fetch16 d = des_word 2 d"

definition des_fetch32 :: "deserializer \<Rightarrow> cxx_error + u32 option \<times> deserializer" where
  "des_fetch32 d = des_word 4 d"

definition des_fetch64 :: "deserializer \<Rightarrow> cxx_error + u64 option \<times> deserializer" where
  "des_fetch64 d = des_word 8 d"

definition des_fetch :: "usize \<Rightarrow> deserializer \<Rightarrow> cxx_error + bytes option \<times> deserializer" where
  "des_fetch n d = des_read n d"

definition des_fetchPOD :: "usize \<Rightarrow> deserializer \<Rightarrow> cxx_error + bytes option \<times> deserializer" where
  "des_fetchPOD n d =
     (case des_read n d of
        Inl e \<Rightarrow> Inl e
      | Inr (r, d') \<Rightarrow> Inr (map_option (in_order (des_endian d)) r, d'))"

text \<open>\<open>fetchNoCopy\<close> returns the offset of the bytes, and like \<open>skip\<close> reads none of them.\<close>

definition des_fetchNoCopy :: "usize \<Rightarrow> deserializer \<Rightarrow> usize option \<times> deserializer" where
  "des_fetchNoCopy n d =
     (if des_checkSize n d then (Some (des_pos d), d\<lparr>des_pos := des_pos d + n\<rparr>) else (None, d))"

definition des_skip :: "usize \<Rightarrow> deserializer \<Rightarrow> bool \<times> deserializer" where
  "des_skip n d = (if des_checkSize n d then (True, d\<lparr>des_pos := des_pos d + n\<rparr>) else (False, d))"

section \<open>Streams of values\<close>

text \<open>What the stream operators take, and what reading with a value of the same shape gives.\<close>

datatype item = IEndian endian | I8 u8 | I16 u16 | I32 u32 | I64 u64 | IBytes bytes | IPOD bytes

fun ser_item :: "item \<Rightarrow> serializer \<Rightarrow> cxx_error + bool \<times> serializer" where
  "ser_item (IEndian e) s = Inr (True, snd (ser_setEndian e s))"
| "ser_item (I8 x) s = ser_append8 x s"
| "ser_item (I16 x) s = ser_append16 x s"
| "ser_item (I32 x) s = ser_append32 x s"
| "ser_item (I64 x) s = ser_append64 x s"
| "ser_item (IBytes bs) s = ser_append bs s"
| "ser_item (IPOD bs) s = ser_appendPOD bs s"

fun ser_items :: "item list \<Rightarrow> serializer \<Rightarrow> cxx_error + bool \<times> serializer" where
  "ser_items [] s = Inr (True, s)"
| "ser_items (it # its) s =
     (case ser_item it s of
        Inl e \<Rightarrow> Inl e
      | Inr (False, s') \<Rightarrow> Inr (False, s')
      | Inr (True, s') \<Rightarrow> ser_items its s')"

definition fetched :: "('a \<Rightarrow> item) \<Rightarrow> cxx_error + 'a option \<times> deserializer \<Rightarrow> cxx_error + item option \<times> deserializer" where
  "fetched c r = (case r of Inl e \<Rightarrow> Inl e | Inr (x, d) \<Rightarrow> Inr (map_option c x, d))"

fun des_item :: "item \<Rightarrow> deserializer \<Rightarrow> cxx_error + item option \<times> deserializer" where
  "des_item (IEndian e) d = Inr (Some (IEndian e), snd (des_setEndian e d))"
| "des_item (I8 x) d = fetched I8 (des_fetch8 d)"
| "des_item (I16 x) d = fetched I16 (des_fetch16 d)"
| "des_item (I32 x) d = fetched I32 (des_fetch32 d)"
| "des_item (I64 x) d = fetched I64 (des_fetch64 d)"
| "des_item (IBytes bs) d = fetched IBytes (des_fetch (of_nat (length bs)) d)"
| "des_item (IPOD bs) d = fetched IPOD (des_fetchPOD (of_nat (length bs)) d)"

fun des_items :: "item list \<Rightarrow> deserializer \<Rightarrow> cxx_error + item list option \<times> deserializer" where
  "des_items [] d = Inr (Some [], d)"
| "des_items (it # its) d =
     (case des_item it d of
        Inl e \<Rightarrow> Inl e
      | Inr (None, d') \<Rightarrow> Inr (None, d')
      | Inr (Some x, d') \<Rightarrow>
          (case des_items its d' of
             Inl e \<Rightarrow> Inl e
           | Inr (None, d'') \<Rightarrow> Inr (None, d'')
           | Inr (Some xs, d'') \<Rightarrow> Inr (Some (x # xs), d'')))"

text \<open>The bytes of an item and the byte order after it.\<close>

fun encode :: "endian \<Rightarrow> item \<Rightarrow> bytes" where
  "encode e (IEndian _) = []"
| "encode e (I8 x) = [x]"
| "encode e (I16 x) = in_order e (shift_out 2 x)"
| "encode e (I32 x) = in_order e (shift_out 4 x)"
| "encode e (I64 x) = in_order e (shift_out 8 x)"
| "encode e (IBytes bs) = bs"
| "encode e (IPOD bs) = in_order e bs"

fun endian_after :: "endian \<Rightarrow> item \<Rightarrow> endian" where
  "endian_after e (IEndian e') = e'"
| "endian_after e _ = e"

fun encode_all :: "endian \<Rightarrow> item list \<Rightarrow> bytes" where
  "encode_all e [] = []"
| "encode_all e (it # its) = encode e it @ encode_all (endian_after e it) its"

lemma length_in_order [simp]: "length (in_order e bs) = length bs"
  by (cases e) (simp_all add: in_order_def)

lemma in_order_in_order [simp]: "in_order e (in_order e bs) = bs"
  by (cases e) (simp_all add: in_order_def)

section \<open>Writing\<close>

text \<open>The state of a vector writer that has written \<open>bs\<close>, and of a raw writer of \<open>n\<close> bytes.\<close>

definition vec_at :: "bytes \<Rightarrow> serializer \<Rightarrow> bool" where
  "vec_at bs s \<longleftrightarrow> \<not> ser_raw s \<and> ser_block s = bs \<and> ser_pos s = of_nat (length bs)"

definition raw_at :: "bytes \<Rightarrow> nat \<Rightarrow> serializer \<Rightarrow> bool" where
  "raw_at bs n s \<longleftrightarrow> ser_raw s \<and> length (ser_block s) = n \<and> ser_size s = of_nat n \<and> n \<le> vector_max \<and>
     length bs \<le> n \<and> take (length bs) (ser_block s) = bs \<and> ser_pos s = of_nat (length bs)"

lemma unat_len [simp]: "n \<le> vector_max \<Longrightarrow> unat (of_nat n :: usize) = n"
  by (simp add: vector_max_def)

lemma of_nat_le_usize: "n \<le> vector_max \<Longrightarrow> m \<le> vector_max \<Longrightarrow> (of_nat n :: usize) \<le> of_nat m \<longleftrightarrow> n \<le> m"
  by (simp add: word_le_nat_alt)

lemma ser_write_vec:
  assumes "vec_at bs s" and "length bs + length xs \<le> vector_max"
  shows "\<exists>s'. ser_write xs s = Inr (True, s') \<and> vec_at (bs @ xs) s' \<and> ser_endian s' = ser_endian s"
proof -
  have u: "unat (of_nat (length bs) + of_nat (length xs) :: usize) = length bs + length xs"
    using assms(2) by (metis of_nat_add unat_len)
  have m: "mem_write (resize (length bs + length xs) bs) (length bs) xs = Some (bs @ xs)"
    by (simp add: mem_write_def resize_def)
  have l: "unat (of_nat (length bs) :: usize) = length bs" using assms(2) by simp
  show ?thesis
    using assms u m l by (simp add: ser_write_def ser_extendSize_def ser_put_def vec_at_def Let_def)
qed

lemma ser_write_raw:
  assumes "raw_at bs n s" and "length xs \<le> vector_max" and "length bs + length xs \<le> vector_max"
  shows "if length bs + length xs \<le> n
         then \<exists>s'. ser_write xs s = Inr (True, s') \<and> raw_at (bs @ xs) n s' \<and> ser_endian s' = ser_endian s
         else ser_write xs s = Inr (False, s)"
proof -
  have e: "of_nat (length bs) + of_nat (length xs) = (of_nat (length bs + length xs) :: usize)" by simp
  have le: "(of_nat (length bs) + of_nat (length xs) \<le> (of_nat n :: usize)) = (length bs + length xs \<le> n)"
    unfolding e using assms by (intro of_nat_le_usize) (auto simp: raw_at_def)
  have l: "unat (of_nat (length bs) :: usize) = length bs" using assms(3) by simp
  show ?thesis
  proof (cases "length bs + length xs \<le> n")
    case True
    then have "mem_write (ser_block s) (length bs) xs =
        Some (take (length bs) (ser_block s) @ xs @ drop (length bs + length xs) (ser_block s))"
      using assms(1) by (simp add: mem_write_def raw_at_def)
    with True assms le l show ?thesis
      by (auto simp: ser_write_def ser_extendSize_def ser_put_def raw_at_def Let_def)
  next
    case False
    with assms le show ?thesis by (simp add: ser_write_def ser_extendSize_def raw_at_def Let_def)
  qed
qed

lemma ser_item_write:
  "ser_item it s = (case it of IEndian e \<Rightarrow> Inr (True, s\<lparr>ser_endian := e\<rparr>) | _ \<Rightarrow> ser_write (encode (ser_endian s) it) s)"
  by (cases it) (simp_all add: ser_setEndian_def ser_append8_def ser_append16_def ser_append32_def
      ser_append64_def ser_append_def ser_appendPOD_def)

lemma ser_item_vec:
  assumes "vec_at bs s" and "length bs + length (encode (ser_endian s) it) \<le> vector_max"
  shows "\<exists>s'. ser_item it s = Inr (True, s') \<and> vec_at (bs @ encode (ser_endian s) it) s' \<and>
    ser_endian s' = endian_after (ser_endian s) it"
  using ser_write_vec [OF assms] assms(1)
  by (cases it) (auto simp: ser_item_write vec_at_def simp del: ser_item.simps)

lemma ser_items_vec:
  assumes "vec_at bs s" and "length bs + length (encode_all (ser_endian s) its) \<le> vector_max"
  shows "\<exists>s'. ser_items its s = Inr (True, s') \<and> vec_at (bs @ encode_all (ser_endian s) its) s'"
  using assms
proof (induction its arbitrary: bs s)
  case Nil
  then show ?case by simp
next
  case (Cons it its)
  from Cons.prems obtain s1 where s1: "ser_item it s = Inr (True, s1)" "vec_at (bs @ encode (ser_endian s) it) s1"
    "ser_endian s1 = endian_after (ser_endian s) it"
    using ser_item_vec [of bs s it] by auto
  with Cons.IH [of "bs @ encode (ser_endian s) it" s1] Cons.prems show ?case by auto
qed

section \<open>Reading\<close>

definition des_at :: "nat \<Rightarrow> deserializer \<Rightarrow> bool" where
  "des_at p d \<longleftrightarrow> des_pos d = of_nat p \<and> p \<le> length (des_mem d) \<and> length (des_mem d) \<le> vector_max \<and>
     des_size d = of_nat (length (des_mem d))"

lemma des_read_at:
  assumes at: "des_at p d" and dr: "drop p (des_mem d) = xs @ rest"
  shows "\<exists>d'. des_read (of_nat (length xs)) d = Inr (Some xs, d') \<and> des_at (p + length xs) d' \<and>
    des_mem d' = des_mem d \<and> des_endian d' = des_endian d"
proof -
  have len: "p + length xs \<le> length (des_mem d)"
    using arg_cong [OF dr, of length] at unfolding des_at_def length_drop length_append by linarith
  have vm: "length (des_mem d) \<le> vector_max" using at by (simp add: des_at_def)
  have e: "of_nat p + of_nat (length xs) = (of_nat (p + length xs) :: usize)" by simp
  have chk: "des_checkSize (of_nat (length xs)) d"
    using at len vm unfolding des_checkSize_def des_at_def by (simp only: e of_nat_le_usize)
  have u: "unat (des_pos d) = p" "unat (of_nat (length xs) :: usize) = length xs"
    using at len vm by (simp_all add: des_at_def)
  have sl: "mem_slice (des_mem d) p (length xs) = xs" by (simp add: mem_slice_def dr)
  have "des_read (of_nat (length xs)) d = Inr (Some xs, d\<lparr>des_pos := of_nat (p + length xs)\<rparr>)"
    using chk u len sl at by (simp add: des_read_def des_at_def)
  then show ?thesis using len at by (simp add: des_at_def)
qed

lemma des_word_at:
  assumes at: "des_at p d" and dr: "drop p (des_mem d) = in_order (des_endian d) (shift_out n w) @ rest"
    and w: "shift_in (rev (shift_out n w)) = (w :: 'a::len word)"
  shows "\<exists>d'. des_word (of_nat n) d = Inr (Some w, d') \<and> des_at (p + n) d' \<and>
    des_mem d' = des_mem d \<and> des_endian d' = des_endian d"
proof -
  from des_read_at [OF at dr] obtain d' where
    d': "des_read (of_nat n) d = Inr (Some (in_order (des_endian d) (shift_out n w)), d')" "des_at (p + n) d'"
    "des_mem d' = des_mem d" "des_endian d' = des_endian d" by auto
  have "shift_in (case des_endian d of Big \<Rightarrow> in_order (des_endian d) (shift_out n w)
      | Little \<Rightarrow> rev (in_order (des_endian d) (shift_out n w))) = w"
    using w by (cases "des_endian d") (simp_all add: in_order_def)
  with d' show ?thesis by (simp add: des_word_def)
qed

lemma des_item_at:
  assumes at: "des_at p d" and dr: "drop p (des_mem d) = encode (des_endian d) it @ rest"
  shows "\<exists>d'. des_item it d = Inr (Some it, d') \<and> des_at (p + length (encode (des_endian d) it)) d' \<and>
    des_mem d' = des_mem d \<and> des_endian d' = endian_after (des_endian d) it"
proof (cases it)
  case (IEndian e)
  with at show ?thesis by (simp add: des_setEndian_def des_at_def)
next
  case (I8 x)
  with des_read_at [OF at, of "[x]" rest] dr show ?thesis by (auto simp: des_fetch8_def fetched_def)
next
  case (I16 x)
  with des_word_at [OF at, of 2 x rest] dr shift_in_out_16 [of x] show ?thesis by (auto simp: des_fetch16_def fetched_def)
next
  case (I32 x)
  with des_word_at [OF at, of 4 x rest] dr shift_in_out_32 [of x] show ?thesis by (auto simp: des_fetch32_def fetched_def)
next
  case (I64 x)
  with des_word_at [OF at, of 8 x rest] dr shift_in_out_64 [of x] show ?thesis by (auto simp: des_fetch64_def fetched_def)
next
  case (IBytes bs)
  with des_read_at [OF at, of bs rest] dr show ?thesis by (auto simp: des_fetch_def fetched_def)
next
  case (IPOD bs)
  with des_read_at [OF at, of "in_order (des_endian d) bs" rest] dr show ?thesis
    by (auto simp: des_fetchPOD_def fetched_def)
qed

lemma des_items_at:
  assumes "des_at p d" and "drop p (des_mem d) = encode_all (des_endian d) its @ rest"
  shows "\<exists>d'. des_items its d = Inr (Some its, d') \<and> des_at (p + length (encode_all (des_endian d) its)) d' \<and>
    des_mem d' = des_mem d"
  using assms
proof (induction its arbitrary: p d)
  case Nil
  then show ?case by simp
next
  case (Cons it its)
  from Cons.prems(2) have dr: "drop p (des_mem d) = encode (des_endian d) it @ (encode_all (endian_after (des_endian d) it) its @ rest)"
    by simp
  from des_item_at [OF Cons.prems(1) dr] obtain d1 where
    d1: "des_item it d = Inr (Some it, d1)" "des_at (p + length (encode (des_endian d) it)) d1"
    "des_mem d1 = des_mem d" "des_endian d1 = endian_after (des_endian d) it" by auto
  have "drop (p + length (encode (des_endian d) it)) (des_mem d1) = drop (length (encode (des_endian d) it)) (drop p (des_mem d))"
    using d1(3) by (simp add: add.commute)
  then have "drop (p + length (encode (des_endian d) it)) (des_mem d1) = encode_all (des_endian d1) its @ rest"
    using dr d1(4) by simp
  from Cons.IH [OF d1(2) this] d1 show ?case by (auto simp: add.assoc)
qed

section \<open>Properties\<close>

text \<open>(C36) What is written with any sequence of the stream operators, byte order changes included, is read
  back by the same sequence, value for value, and the reader ends exactly at the end of the
  bytes.\<close>

theorem serializer_roundtrip:
  assumes "length (encode_all e its) \<le> vector_max"
  shows "\<exists>s d. ser_items its (ser_new_vector [] e) = Inr (True, s) \<and>
    des_items its (des_new (ser_block s) (of_nat (length (ser_block s))) e) = Inr (Some its, d) \<and>
    des_pos d = des_size d"
proof -
  have v: "vec_at [] (ser_new_vector [] e)" and en: "ser_endian (ser_new_vector [] e) = e"
    by (simp_all add: vec_at_def ser_new_vector_def)
  from ser_items_vec [OF v, of its] assms en obtain s where
    s: "ser_items its (ser_new_vector [] e) = Inr (True, s)" "vec_at (encode_all e its) s" by auto
  then have b: "ser_block s = encode_all e its" by (simp add: vec_at_def)
  let ?d = "des_new (ser_block s) (of_nat (length (ser_block s))) e"
  have "des_at 0 ?d" using assms b by (simp add: des_at_def des_new_def)
  from des_items_at [OF this, of its "[]"] b obtain d where
    d: "des_items its ?d = Inr (Some its, d)" "des_at (length (encode_all e its)) d"
      "des_mem d = encode_all e its" by (auto simp: des_new_def)
  with s d b show ?thesis by (auto simp: des_at_def des_new_def)
qed

theorem serializer_roundtrip_witness:
  "\<exists>s d. ser_items [I16 0x1234, IEndian Little, I32 5, IPOD [1, 2]] (ser_new_vector [] Big) = Inr (True, s) \<and>
    des_items [I16 0x1234, IEndian Little, I32 5, IPOD [1, 2]] (des_new (ser_block s) (of_nat (length (ser_block s))) Big) =
      Inr (Some [I16 0x1234, IEndian Little, I32 5, IPOD [1, 2]], d)"
  using serializer_roundtrip [of Big "[I16 0x1234, IEndian Little, I32 5, IPOD [1, 2]]"]
  by (auto simp: vector_max_def)

text \<open>(C39) A writer of fixed size accepts a value exactly when it fits in what is left, never writes past
  the end, and on refusal leaves position and memory as they were.\<close>

theorem serializer_raw_bounds:
  assumes "raw_at bs n s" and "length bs + length (encode (ser_endian s) it) \<le> vector_max"
  shows "if length bs + length (encode (ser_endian s) it) \<le> n
         then \<exists>s'. ser_item it s = Inr (True, s') \<and> raw_at (bs @ encode (ser_endian s) it) n s'
         else ser_item it s = Inr (False, s)"
proof -
  have "raw_at bs n (s\<lparr>ser_endian := e\<rparr>)" for e using assms(1) by (simp add: raw_at_def)
  moreover have "length bs \<le> n" using assms(1) by (simp add: raw_at_def)
  ultimately show ?thesis
    using ser_write_raw [OF assms(1), of "encode (ser_endian s) it"] assms(2)
    by (cases it) (auto simp: ser_item_write simp del: ser_item.simps split: if_splits)
qed

theorem serializer_raw_bounds_witness:
  "raw_at [] 3 (ser_new_raw [9, 9, 9] 3 Big) \<and>
   (\<exists>s'. ser_item (I16 0x1234) (ser_new_raw [9, 9, 9] 3 Big) = Inr (True, s') \<and> raw_at [0x12, 0x34] 3 s') \<and>
   ser_item (I32 1) (ser_new_raw [9, 9, 9] 3 Big) = Inr (False, ser_new_raw [9, 9, 9] 3 Big)"
proof -
  have r: "raw_at [] 3 (ser_new_raw [9, 9, 9] 3 Big)" by (simp add: raw_at_def ser_new_raw_def vector_max_def)
  have e: "encode Big (I16 0x1234) = [0x12, 0x34]" by code_simp
  have b: "ser_endian (ser_new_raw [9, 9, 9] 3 Big) = Big" by (simp add: ser_new_raw_def)
  have v: "2 \<le> vector_max" "4 \<le> vector_max" by (simp_all add: vector_max_def)
  have l: "length (encode Big (I32 1)) = 4" by simp
  from serializer_raw_bounds [OF r, of "I16 0x1234", unfolded b e]
  have "\<exists>s'. ser_item (I16 0x1234) (ser_new_raw [9, 9, 9] 3 Big) = Inr (True, s') \<and> raw_at [0x12, 0x34] 3 s'"
    using v(1) by simp
  moreover from serializer_raw_bounds [OF r, of "I32 1", unfolded b l]
  have "ser_item (I32 1) (ser_new_raw [9, 9, 9] 3 Big) = Inr (False, ser_new_raw [9, 9, 9] 3 Big)"
    using v(2) by simp
  ultimately show ?thesis using r by blast
qed

text \<open>The size check adds in \<open>size_t\<close> without regard to wrap-around: from any position but 0, \<open>skip\<close>
  by 2^64 minus the position succeeds and takes the reader back to its start, whatever the size
  of the data.\<close>

theorem skip_wraps_to_start:
  assumes "des_pos d \<noteq> 0"
  shows "des_skip (- des_pos d) d = (True, d\<lparr>des_pos := 0\<rparr>) \<and>
         unat (des_pos d) + unat (- des_pos d) = 18446744073709551616"
proof -
  have "uint (- des_pos d) = 18446744073709551616 - uint (des_pos d)"
  proof -
    have "uint (des_pos d) < 18446744073709551616" using uint_bounded [of "des_pos d"] by simp
    then have "uint (des_pos d) mod 18446744073709551616 = uint (des_pos d)" by (simp add: mod_pos_pos_trivial)
    with assms show ?thesis by (simp add: uint_word_ariths zmod_zminus1_eq_if uint_0_iff)
  qed
  then have "int (unat (des_pos d) + unat (- des_pos d)) = int 18446744073709551616" by simp
  then have "unat (des_pos d) + unat (- des_pos d) = 18446744073709551616" by (simp only: of_nat_eq_iff)
  then show ?thesis by (simp add: des_skip_def des_checkSize_def)
qed

theorem skip_wraps_to_start_witness:
  "des_skip (- 2) (des_new [1, 2, 3] 3 Big\<lparr>des_pos := 2\<rparr>) = (True, des_new [1, 2, 3] 3 Big\<lparr>des_pos := 0\<rparr>)"
  using skip_wraps_to_start [of "des_new [1, 2, 3] 3 Big\<lparr>des_pos := 2\<rparr>"] by simp

end
