(* ===== verification/Base64.thy ===== *)
theory Base64
  imports Tbox_Prelude
begin

text \<open>
  The base-64 coder of \<open>modules/util/base64.cpp\<close>: the two tables, both encoders and both decoders.
  A \<open>char\<close> is a byte of an ASCII string; \<open>int(c)\<close> sign-extends it on the target, so a byte of
  0x80 or more indexes the decoding table below its start. The length of memory is that of the
  list, the size the caller states is a separate argument, and an access outside the memory is
  the error \<open>OutOfRange\<close>.
\<close>

section \<open>Tables\<close>

definition BASE64_PAD :: u8 where
  "BASE64_PAD = of_char (CHR ''='')"

definition base64en :: bytes where
  "base64en = map of_char ''ABCDEFGHIJKLMNOPQRSTUVWXYZabcdefghijklmnopqrstuvwxyz0123456789+/''"

definition base64de :: bytes where
  "base64de = [
    255, 255, 255, 255, 255, 255, 255, 255,  255, 255, 255, 255, 255, 255, 255, 255,
    255, 255, 255, 255, 255, 255, 255, 255,  255, 255, 255, 255, 255, 255, 255, 255,
    255, 255, 255, 255, 255, 255, 255, 255,  255, 255, 255,  62, 255, 255, 255,  63,
     52,  53,  54,  55,  56,  57,  58,  59,   60,  61, 255, 255, 255, 255, 255, 255,
    255,   0,   1,   2,   3,   4,   5,   6,    7,   8,   9,  10,  11,  12,  13,  14,
     15,  16,  17,  18,  19,  20,  21,  22,   23,  24,  25, 255, 255, 255, 255, 255,
    255,  26,  27,  28,  29,  30,  31,  32,   33,  34,  35,  36,  37,  38,  39,  40,
     41,  42,  43,  44,  45,  46,  47,  48,   49,  50,  51, 255, 255, 255, 255, 255]"

definition en_char :: "u8 \<Rightarrow> u8" where
  "en_char i = base64en ! unat i"

text \<open>\<open>base64de[int(c)]\<close>\<close>

definition de_char :: "u8 \<Rightarrow> cxx_error + u8" where
  "de_char c = (if 0 \<le> sint c then Inr (base64de ! unat c) else Inl OutOfRange)"

section \<open>Lengths\<close>

definition EncodeLength :: "usize \<Rightarrow> usize" where
  "EncodeLength n = (n + 2) div 3 * 4"

definition DecodeLength :: "bytes \<Rightarrow> usize \<Rightarrow> cxx_error + usize" where
  "DecodeLength p n =
     (if n = 0 \<or> n AND 0x3 \<noteq> 0 then Inr 0
      else if length p < unat n then Inl OutOfRange
      else Inr (n div 4 * 3 - (if p ! (unat n - 1) = BASE64_PAD then 1 else 0)
                            - (if p ! (unat n - 2) = BASE64_PAD then 1 else 0)))"

section \<open>Encoding\<close>

text \<open>The switch of the loop: the next state and the characters it emits for byte \<open>c\<close>, the byte
  before it being \<open>l\<close>; and the switch after the loop.\<close>

definition enc_switch :: "nat \<Rightarrow> u8 \<Rightarrow> u8 \<Rightarrow> nat \<times> bytes" where
  "enc_switch s l c =
     (if s = 0 then (1, [en_char (drop_bit 2 c AND 0x3F)])
      else if s = 1 then (2, [en_char (push_bit 4 (l AND 0x3) OR (drop_bit 4 c AND 0xF))])
      else if s = 2 then (0, [en_char (push_bit 2 (l AND 0xF) OR (drop_bit 6 c AND 0x3)), en_char (c AND 0x3F)])
      else (s, []))"

definition enc_rest :: "nat \<Rightarrow> u8 \<Rightarrow> bytes" where
  "enc_rest s l =
     (if s = 1 then [en_char (push_bit 4 (l AND 0x3)), BASE64_PAD, BASE64_PAD]
      else if s = 2 then [en_char (push_bit 2 (l AND 0xF)), BASE64_PAD]
      else [])"

text \<open>\<open>base64_ptr[w_pos++] = ...\<close> for each of the characters.\<close>

fun put_chars :: "bytes \<Rightarrow> nat \<times> bytes \<Rightarrow> cxx_error + nat \<times> bytes" where
  "put_chars [] wm = Inr wm"
| "put_chars (x # xs) (w, m) = (if w < length m then put_chars xs (Suc w, m[w := x]) else Inl OutOfRange)"

fun enc_loop_buf :: "bytes \<Rightarrow> nat \<Rightarrow> u8 \<Rightarrow> nat \<times> bytes \<Rightarrow> cxx_error + nat \<times> bytes" where
  "enc_loop_buf [] s l wm = put_chars (enc_rest s l) wm"
| "enc_loop_buf (c # cs) s l wm =
     (case put_chars (snd (enc_switch s l c)) wm of
        Inl e \<Rightarrow> Inl e
      | Inr wm' \<Rightarrow> enc_loop_buf cs (fst (enc_switch s l c)) c wm')"

text \<open>\<open>Encode\<close> into a buffer: the result and the buffer afterwards.\<close>

definition Encode_buf :: "bytes ptr \<Rightarrow> usize \<Rightarrow> bytes ptr \<Rightarrow> usize \<Rightarrow> cxx_error + nat \<times> bytes ptr" where
  "Encode_buf raw n out sz =
     (case (raw, out) of
        (Some r, Some m) \<Rightarrow>
          if n = 0 \<or> sz = 0 then Inl AssertFail
          else if EncodeLength n > sz then Inr (0, out)
          else if length r < unat n then Inl OutOfRange
          else (case enc_loop_buf (take (unat n) r) 0 0 (0, m) of
                  Inl e \<Rightarrow> Inl e
                | Inr (w, m') \<Rightarrow> Inr (w, Some m'))
      | _ \<Rightarrow> Inl AssertFail)"

fun enc_loop_str :: "bytes \<Rightarrow> nat \<Rightarrow> u8 \<Rightarrow> bytes \<Rightarrow> bytes" where
  "enc_loop_str [] s l acc = acc @ enc_rest s l"
| "enc_loop_str (c # cs) s l acc = enc_loop_str cs (fst (enc_switch s l c)) c (acc @ snd (enc_switch s l c))"

definition Encode_str :: "bytes ptr \<Rightarrow> usize \<Rightarrow> cxx_error + bytes" where
  "Encode_str raw n =
     (case raw of
        None \<Rightarrow> Inl AssertFail
      | Some r \<Rightarrow>
          if n = 0 then Inl AssertFail
          else if length r < unat n then Inl OutOfRange
          else Inr (enc_loop_str (take (unat n) r) 0 0 []))"

section \<open>Decoding\<close>

text \<open>\<open>out_bytes[w] = v\<close> and \<open>out_bytes[w] |= v\<close>\<close>

definition store :: "nat \<Rightarrow> u8 \<Rightarrow> bytes \<Rightarrow> cxx_error + bytes" where
  "store w v m = (if w < length m then Inr (m[w := v]) else Inl OutOfRange)"

definition or_into :: "nat \<Rightarrow> u8 \<Rightarrow> bytes \<Rightarrow> cxx_error + bytes" where
  "or_into w v m = (if w < length m then Inr (m[w := m ! w OR v]) else Inl OutOfRange)"

definition dec_switch :: "nat \<Rightarrow> u8 \<Rightarrow> nat \<times> bytes \<Rightarrow> cxx_error + nat \<times> bytes" where
  "dec_switch s v wm =
     (let (w, m) = wm
      in if s = 0 then (case store w (push_bit 2 v) m of Inl e \<Rightarrow> Inl e | Inr m1 \<Rightarrow> Inr (w, m1))
         else if s = 3 then (case or_into w v m of Inl e \<Rightarrow> Inl e | Inr m1 \<Rightarrow> Inr (Suc w, m1))
         else (case or_into w (drop_bit (if s = 1 then 4 else 2) v) m of
                 Inl e \<Rightarrow> Inl e
               | Inr m1 \<Rightarrow>
                   (case store (Suc w) (push_bit (if s = 1 then 4 else 6) v) m1 of
                      Inl e \<Rightarrow> Inl e
                    | Inr m2 \<Rightarrow> Inr (Suc w, m2))))"

text \<open>The loop over the characters from position \<open>r\<close> on; \<open>None\<close> is \<open>return 0\<close> at a character outside
  the alphabet.\<close>

fun dec_loop_buf :: "bytes \<Rightarrow> nat \<Rightarrow> nat \<times> bytes \<Rightarrow> cxx_error + (nat option \<times> bytes)" where
  "dec_loop_buf [] r wm = Inr (Some (fst wm), snd wm)"
| "dec_loop_buf (c # cs) r wm =
     (if c = BASE64_PAD then Inr (Some (fst wm), snd wm)
      else case de_char c of
             Inl e \<Rightarrow> Inl e
           | Inr v \<Rightarrow>
               if v = 255 then Inr (None, snd wm)
               else (case dec_switch (r mod 4) v wm of
                       Inl e \<Rightarrow> Inl e
                     | Inr wm' \<Rightarrow> dec_loop_buf cs (Suc r) wm'))"

definition Decode_buf :: "bytes ptr \<Rightarrow> usize \<Rightarrow> bytes ptr \<Rightarrow> usize \<Rightarrow> cxx_error + nat \<times> bytes ptr" where
  "Decode_buf b64 n raw sz =
     (case (b64, raw) of
        (Some p, Some m) \<Rightarrow>
          if n AND 0x3 \<noteq> 0 then Inr (0, raw)
          else (case DecodeLength p n of
                  Inl e \<Rightarrow> Inl e
                | Inr k \<Rightarrow>
                    if k > sz then Inr (0, raw)
                    else (case dec_loop_buf (take (unat n) p) 0 (0, m) of
                            Inl e \<Rightarrow> Inl e
                          | Inr (None, m') \<Rightarrow> Inr (0, Some m')
                          | Inr (Some w, m') \<Rightarrow> Inr (w, Some m')))
      | _ \<Rightarrow> Inl AssertFail)"

fun dec_loop_vec :: "bytes \<Rightarrow> nat \<Rightarrow> u8 \<Rightarrow> bytes \<Rightarrow> cxx_error + bool \<times> bytes" where
  "dec_loop_vec [] s tmp acc = Inr (True, acc)"
| "dec_loop_vec (c # cs) s tmp acc =
     (if c = BASE64_PAD then Inr (True, acc)
      else case de_char c of
             Inl e \<Rightarrow> Inl e
           | Inr v \<Rightarrow>
               if v = 255 then Inr (False, acc)
               else if s = 0 then dec_loop_vec cs 1 (push_bit 2 v) acc
               else if s = 1 then dec_loop_vec cs 2 (push_bit 4 v) (acc @ [tmp OR drop_bit 4 v])
               else if s = 2 then dec_loop_vec cs 3 (push_bit 6 v) (acc @ [tmp OR drop_bit 2 v])
               else dec_loop_vec cs 0 (tmp OR v) (acc @ [tmp OR v]))"

definition Decode_vec :: "bytes \<Rightarrow> bytes \<Rightarrow> cxx_error + usize \<times> bytes" where
  "Decode_vec b64 raw =
     (case DecodeLength b64 (of_nat (length b64)) of
        Inl e \<Rightarrow> Inl e
      | Inr out_len \<Rightarrow>
          if out_len = 0 then Inr (0, raw)
          else (case dec_loop_vec b64 0 0 raw of
                  Inl e \<Rightarrow> Inl e
                | Inr (False, v) \<Rightarrow> Inr (0, v)
                | Inr (True, v) \<Rightarrow> Inr (out_len, v)))"

section \<open>The alphabet\<close>

lemma base64en_codes: "base64en =
    [65, 66, 67, 68, 69, 70, 71, 72, 73, 74, 75, 76, 77, 78, 79, 80,
     81, 82, 83, 84, 85, 86, 87, 88, 89, 90, 97, 98, 99, 100, 101, 102,
     103, 104, 105, 106, 107, 108, 109, 110, 111, 112, 113, 114, 115, 116, 117, 118,
     119, 120, 121, 122, 48, 49, 50, 51, 52, 53, 54, 55, 56, 57, 43, 47]"
  by (simp add: base64en_def of_char_def)

lemma BASE64_PAD_code: "BASE64_PAD = 61"
  by (simp add: BASE64_PAD_def of_char_def)

lemma length_base64en [simp]: "length base64en = 64"
  by (simp add: base64en_def)

lemma tables_inverse: "map (\<lambda>c. base64de ! unat c) base64en = map word_of_nat [0..<64]"
  unfolding base64en_codes base64de_def by (simp add: upt_rec)

lemma alphabet_ok: "list_all (\<lambda>c. 0 \<le> sint c \<and> c \<noteq> BASE64_PAD) base64en"
  unfolding base64en_codes BASE64_PAD_code by simp

lemma de_en:
  assumes "i < 64"
  shows "de_char (en_char i) = Inr i" and "en_char i \<noteq> BASE64_PAD"
proof -
  have u: "unat i < length base64en" using assms by (simp add: word_less_nat_alt)
  have a: "0 \<le> sint (en_char i) \<and> en_char i \<noteq> BASE64_PAD"
    using list_all_length [THEN iffD1, OF alphabet_ok] u by (simp add: en_char_def)
  have "map (\<lambda>c. base64de ! unat c) base64en ! unat i = map word_of_nat [0..<64] ! unat i"
    by (simp only: tables_inverse)
  then have "base64de ! unat (en_char i) = i" using u by (simp add: en_char_def)
  with a show "de_char (en_char i) = Inr i" "en_char i \<noteq> BASE64_PAD" by (simp_all add: de_char_def)
qed

section \<open>The reference encoding\<close>

text \<open>Three bytes are four groups of six bits.\<close>

definition sext1 :: "u8 \<Rightarrow> u8" where "sext1 a = drop_bit 2 a AND 0x3F"
definition sext2 :: "u8 \<Rightarrow> u8 \<Rightarrow> u8" where "sext2 a b = push_bit 4 (a AND 0x3) OR (drop_bit 4 b AND 0xF)"
definition sext3 :: "u8 \<Rightarrow> u8 \<Rightarrow> u8" where "sext3 b c = push_bit 2 (b AND 0xF) OR (drop_bit 6 c AND 0x3)"
definition sext4 :: "u8 \<Rightarrow> u8" where "sext4 c = c AND 0x3F"

lemmas sext_defs = sext1_def sext2_def sext3_def sext4_def

fun b64 :: "bytes \<Rightarrow> bytes" where
  "b64 [] = []"
| "b64 [a] = [en_char (sext1 a), en_char (sext2 a 0), BASE64_PAD, BASE64_PAD]"
| "b64 [a, b] = [en_char (sext1 a), en_char (sext2 a b), en_char (sext3 b 0), BASE64_PAD]"
| "b64 (a # b # c # r) = en_char (sext1 a) # en_char (sext2 a b) # en_char (sext3 b c) # en_char (sext4 c) # b64 r"

lemma length_b64: "length (b64 r) = (length r + 2) div 3 * 4"
proof (induction r rule: b64.induct)
  case (4 a b c r)
  have "(length (a # b # c # r) + 2) div 3 = (length r + 2) div 3 + 1" by simp
  with 4 show ?case by simp
qed simp_all

lemma mask_numerals: "(0x3 :: u8) = mask 2" "(0xF :: u8) = mask 4" "(0x3F :: u8) = mask 6"
  by (simp_all add: mask_eq_exp_minus_1)

lemma less_64_bits: "take_bit 6 x = x \<Longrightarrow> x < 64" for x :: u8
proof -
  assume "take_bit 6 x = x"
  then have "x mod 64 = x" by (simp add: take_bit_eq_mod)
  then show "x < 64" using word_mod_less_divisor [of 64 x] by simp
qed

lemma u8_bit_cases:
  assumes "n < LENGTH(8)"
  obtains "n = 0" | "n = 1" | "n = 2" | "n = 3" | "n = 4" | "n = 5" | "n = 6" | "n = 7"
  using assms by (simp add: numeral_eq_Suc less_Suc_eq) blast

lemma sext_less: "sext1 a < 64" "sext2 a b < 64" "sext3 b c < 64" "sext4 c < 64"
  unfolding sext_defs mask_numerals
  by (rule less_64_bits, rule bit_word_eqI, erule u8_bit_cases; simp add: bit_simps)+

text \<open>Shifting the groups back gives the bytes.\<close>

lemma sext_join:
  "push_bit 2 (sext1 a) OR drop_bit 4 (sext2 a b) = a"
  "push_bit 4 (sext2 a b) OR drop_bit 2 (sext3 b c) = b"
  "push_bit 6 (sext3 b c) OR sext4 c = c"
  unfolding sext_defs mask_numerals
  by (rule bit_word_eqI, erule u8_bit_cases; simp add: bit_simps)+


section \<open>The encoders\<close>

lemma enc_switch_simps [simp]:
  "enc_switch 0 l c = (1, [en_char (sext1 c)])"
  "enc_switch (Suc 0) l c = (2, [en_char (sext2 l c)])"
  "enc_switch 2 l c = (0, [en_char (sext3 l c), en_char (sext4 c)])"
  by (simp_all add: enc_switch_def sext_defs)

lemma enc_rest_simps [simp]:
  "enc_rest 0 l = []"
  "enc_rest (Suc 0) l = [en_char (sext2 l 0), BASE64_PAD, BASE64_PAD]"
  "enc_rest 2 l = [en_char (sext3 l 0), BASE64_PAD]"
  by (simp_all add: enc_rest_def sext_defs)

lemma enc_loop_str_b64: "enc_loop_str r 0 l acc = acc @ b64 r"
  by (induction r arbitrary: l acc rule: b64.induct) simp_all

lemma enc_loop_str_acc: "enc_loop_str cs s l acc = acc @ enc_loop_str cs s l []"
proof (induction cs arbitrary: s l acc)
  case (Cons c cs)
  show ?case
    using Cons.IH [of "fst (enc_switch s l c)" c "acc @ snd (enc_switch s l c)"]
      Cons.IH [of "fst (enc_switch s l c)" c "snd (enc_switch s l c)"] by simp
qed simp

lemma put_chars_append:
  "put_chars (xs @ ys) wm = (case put_chars xs wm of Inl e \<Rightarrow> Inl e | Inr wm' \<Rightarrow> put_chars ys wm')"
  by (induction xs wm rule: put_chars.induct) auto

lemma put_chars_fits:
  "w + length xs \<le> length m \<Longrightarrow>
   put_chars xs (w, m) = Inr (w + length xs, take w m @ xs @ drop (w + length xs) m)"
proof (induction xs arbitrary: w m)
  case (Cons x xs)
  then have "w < length m" by simp
  then have "take (Suc w) (m[w := x]) = take w m @ [x]"
    by (simp add: take_Suc_conv_app_nth take_update_swap list_update_append)
  with Cons show ?case by simp
qed simp

lemma enc_loop_buf_put: "enc_loop_buf cs s l wm = put_chars (enc_loop_str cs s l []) wm"
proof (induction cs arbitrary: s l wm)
  case (Cons c cs)
  show ?case
    unfolding enc_loop_str.simps enc_loop_buf.simps Cons.IH
    by (subst enc_loop_str_acc) (simp add: put_chars_append)
qed simp

section \<open>The decoders\<close>

lemma sext_not_255: "v < 64 \<Longrightarrow> v \<noteq> 255" for v :: u8
  by auto

lemmas sext_decode [simp] =
  de_en [OF sext_less(1)] de_en [OF sext_less(2)] de_en [OF sext_less(3)] de_en [OF sext_less(4)]
  sext_not_255 [OF sext_less(1)] sext_not_255 [OF sext_less(2)] sext_not_255 [OF sext_less(3)]
  sext_not_255 [OF sext_less(4)]

lemma dec_loop_vec_b64: "dec_loop_vec (b64 r) 0 tmp acc = Inr (True, acc @ r)"
  by (induction r arbitrary: tmp acc rule: b64.induct) (simp_all add: sext_join)

lemma dec_switch_simps [simp]:
  "dec_switch 0 v (w, m) = (if w < length m then Inr (w, m[w := push_bit 2 v]) else Inl OutOfRange)"
  "dec_switch (Suc 0) v (w, m) =
     (if Suc w < length m then Inr (Suc w, m[w := m ! w OR drop_bit 4 v, Suc w := push_bit 4 v]) else Inl OutOfRange)"
  "dec_switch 2 v (w, m) =
     (if Suc w < length m then Inr (Suc w, m[w := m ! w OR drop_bit 2 v, Suc w := push_bit 6 v]) else Inl OutOfRange)"
  "dec_switch 3 v (w, m) = (if w < length m then Inr (Suc w, m[w := m ! w OR v]) else Inl OutOfRange)"
  by (auto simp: dec_switch_def store_def or_into_def)

text \<open>What decoding needs: one byte more than it produces when the last group is padded.\<close>

definition dec_room :: "bytes \<Rightarrow> nat" where
  "dec_room r = length r + (if length r mod 3 = 0 then 0 else 1)"

lemma dec_room_simps [simp]: "dec_room [] = 0" "dec_room [a] = 2" "dec_room [a, b] = 3"
  "dec_room (a # b # c # r) = 3 + dec_room r"
proof -
  have "length (a # b # c # r) mod 3 = length r mod 3" by simp
  then show "dec_room (a # b # c # r) = 3 + dec_room r" by (simp add: dec_room_def)
qed (simp_all add: dec_room_def)

lemma mod_4_steps:
  assumes "k mod 4 = (0 :: nat)"
  shows "Suc k mod 4 = Suc 0" "Suc (Suc k) mod 4 = 2" "Suc (Suc (Suc k)) mod 4 = 3"
    "Suc (Suc (Suc (Suc k))) mod 4 = 0" "(2 + k) mod 4 = 2" "(3 + k) mod 4 = 3"
  using assms by presburger+

lemma take_three_updates:
  assumes "w + 3 \<le> length m"
  shows "take (w + 3) (m[w := a, Suc w := b, Suc (Suc w) := c]) = take w m @ [a, b, c]"
  using assms by (intro nth_equalityI) (auto simp: nth_append nth_list_update nth_Cons split: nat.splits)

lemma dec_loop_buf_b64:
  assumes "k mod 4 = 0" and "w \<le> length m"
  shows "if w + dec_room r \<le> length m
    then \<exists>m'. dec_loop_buf (b64 r) k (w, m) = Inr (Some (w + length r), m') \<and> length m' = length m \<and>
      take (w + length r) m' = take w m @ r
    else dec_loop_buf (b64 r) k (w, m) = Inl OutOfRange"
  using assms
proof (induction r arbitrary: k w m rule: b64.induct)
  case 1
  then show ?case by simp
next
  case (2 a)
  note [simp] = mod_4_steps [OF 2(1)]
  from 2 show ?case by (auto simp: sext_join take_Suc_conv_app_nth)
next
  case (3 a b)
  note [simp] = mod_4_steps [OF 3(1)]
  from 3 show ?case by (auto simp: sext_join take_Suc_conv_app_nth)
next
  case (4 a b c r)
  note [simp] = mod_4_steps [OF 4(2)]
  have room: "w + 3 \<le> length m" if "w + (3 + dec_room r) \<le> length m" using that by simp
  show ?case
  proof (cases "w + 3 \<le> length m")
    case True
    define m3 where "m3 = m[w := a, Suc w := b, Suc (Suc w) := c]"
    have "dec_loop_buf (b64 (a # b # c # r)) k (w, m) =
        dec_loop_buf (b64 r) (Suc (Suc (Suc (Suc k)))) (w + 3, m3)"
      using True 4(2) by (simp add: sext_join m3_def) (simp add: numeral_3_eq_3)
    moreover have "take (w + 3) m3 = take w m @ [a, b, c]" "length m3 = length m"
      using take_three_updates [OF True] by (simp_all add: m3_def)
    ultimately show ?thesis
      using 4(1) [OF mod_4_steps(4) [OF 4(2)], of "w + 3" m3] True
      by (auto simp: numeral_3_eq_3 simp del: b64.simps split: if_splits)
  next
    case False
    with 4(2) show ?thesis by (auto simp: not_less not_le)
  qed
qed


section \<open>The lengths\<close>

text \<open>Inputs of up to 2^62 bytes: no length wraps around.\<close>

definition b64_ok :: "bytes \<Rightarrow> bool" where
  "b64_ok r \<longleftrightarrow> r \<noteq> [] \<and> length r \<le> 4611686018427387904"

lemma b64_ok_bounds:
  assumes "b64_ok r"
  shows "length r + 2 < 18446744073709551616" "(length r + 2) div 3 < 4611686018427387904"
    "length (b64 r) < 18446744073709551616"
  using assms div_times_less_eq_dividend [of "length r + 2" 3]
  unfolding b64_ok_def length_b64 by linarith+

lemma unat_len_b64 [simp]: "b64_ok r \<Longrightarrow> unat (of_nat (length r) :: usize) = length r"
  "b64_ok r \<Longrightarrow> unat (of_nat (length (b64 r)) :: usize) = length (b64 r)"
  using b64_ok_bounds [of r] by simp_all

lemma EncodeLength_b64:
  assumes "b64_ok r"
  shows "EncodeLength (of_nat (length r)) = of_nat (length (b64 r))"
proof -
  have "unat (of_nat (length r + 2) :: usize) = length r + 2"
    using b64_ok_bounds(1) [OF assms] by (rule unat_of_nat_u64)
  then have "of_nat (length r) + 2 = (of_nat (length r + 2) :: usize)" by simp
  moreover have "(of_nat (length r + 2) :: usize) div 3 = of_nat ((length r + 2) div 3)"
  proof -
    have "unat ((of_nat (length r + 2) :: usize) div 3) = (length r + 2) div 3"
      using unat_of_nat_u64 [OF b64_ok_bounds(1) [OF assms]] by (simp add: unat_div del: of_nat_add)
    then show ?thesis by (rule word_of_unat)
  qed
  ultimately show ?thesis unfolding EncodeLength_def length_b64 by (simp only: of_nat_mult of_nat_numeral)
qed

lemma unat_and_3: "unat (n AND 0x3 :: usize) = unat n mod 4"
proof -
  have m: "(0x3 :: usize) = mask 2" by (simp add: mask_eq_exp_minus_1)
  show ?thesis unfolding m by (simp add: take_bit_eq_mod unat_mod flip: take_bit_eq_mask)
qed

lemma b64_ends:
  "r \<noteq> [] \<Longrightarrow> \<exists>pre x y. b64 r = pre @ [x, y] \<and> (y = BASE64_PAD \<longleftrightarrow> length r mod 3 \<noteq> 0) \<and>
     (x = BASE64_PAD \<longleftrightarrow> length r mod 3 = 1)"
proof (induction r rule: b64.induct)
  case (2 a)
  show ?case by (rule exI [of _ "[en_char (sext1 a), en_char (sext2 a 0)]"]) simp
next
  case (3 a b)
  show ?case by (rule exI [of _ "[en_char (sext1 a), en_char (sext2 a b)]"]) simp
next
  case (4 a b c r)
  have m: "length (a # b # c # r) mod 3 = length r mod 3" by simp
  show ?case
  proof (cases "r = []")
    case True
    then show ?thesis by (intro exI [of _ "[en_char (sext1 a), en_char (sext2 a b)]"]) simp
  next
    case False
    with 4 obtain pre x y where "b64 r = pre @ [x, y]" "(y = BASE64_PAD) = (length r mod 3 \<noteq> 0)"
      "(x = BASE64_PAD) = (length r mod 3 = 1)" by blast
    then show ?thesis unfolding m
      by (intro exI [of _ "en_char (sext1 a) # en_char (sext2 a b) # en_char (sext3 b c) # en_char (sext4 c) # pre"]) simp
  qed
qed simp

lemma DecodeLength_b64:
  assumes "b64_ok r"
  shows "DecodeLength (b64 r) (of_nat (length (b64 r))) = Inr (of_nat (length r))"
    "of_nat (length (b64 r)) AND (0x3 :: usize) = 0"
proof -
  let ?n = "of_nat (length (b64 r)) :: usize"
  define k where "k = (length r + 2) div 3"
  have k: "length (b64 r) = 4 * k" "0 < k" using assms by (auto simp: length_b64 k_def b64_ok_def div_greater_zero_iff neq_Nil_conv)
  have kb: "k < 4611686018427387904" using b64_ok_bounds(2) [OF assms] by (simp add: k_def)
  have "unat (?n AND 0x3) = length (b64 r) mod 4" by (simp only: unat_and_3 unat_len_b64 assms)
  then have "unat (?n AND 0x3) = 0" by (simp only: k(1) mod_mult_self1_is_0)
  then show a: "?n AND 0x3 = 0" by (simp add: unat_eq_0)
  have "unat (?n div 4) = length (b64 r) div 4" by (simp only: unat_div unat_len_b64 assms) simp
  then have "unat (?n div 4) = k" using k(1) by simp
  then have d: "?n div 4 = of_nat k" by (rule word_of_unat)
  from b64_ends obtain pre x y where e: "b64 r = pre @ [x, y]" "(y = BASE64_PAD) = (length r mod 3 \<noteq> 0)"
      "(x = BASE64_PAD) = (length r mod 3 = 1)" using assms b64_ok_def by blast
  have nth: "b64 r ! (length (b64 r) - 1) = y" "b64 r ! (length (b64 r) - 2) = x"
    by (simp_all add: e(1) nth_append)
  have "3 * k = length r + (if length r mod 3 \<noteq> 0 then 1 else 0) + (if length r mod 3 = 1 then 1 else 0)"
    unfolding k_def by (auto; presburger)
  from arg_cong [OF this, of "of_nat :: nat \<Rightarrow> usize"]
  have c: "of_nat k * (3 :: usize) =
      of_nat (length r) + (if length r mod 3 \<noteq> 0 then 1 else 0) + (if length r mod 3 = 1 then 1 else 0)"
    by (simp add: mult.commute split: if_splits)
  have nz: "?n \<noteq> 0" using assms k by (metis unat_len_b64(2) unat_0 mult_is_0 not_less_zero zero_neq_numeral)
  show "DecodeLength (b64 r) ?n = Inr (of_nat (length r))"
    unfolding DecodeLength_def using a nz assms nth e(2,3) d c by simp
qed


section \<open>Properties\<close>

text \<open>Both encoders produce the reference encoding of any data: the one for strings returns it,
  and the one for buffers writes exactly it, and nothing behind it, when the buffer has room for
  it, and otherwise writes nothing and returns 0.\<close>

theorem encoders_agree:
  assumes "b64_ok r" and "0 < sz" and "unat sz \<le> length m"
  shows "Encode_str (Some r) (of_nat (length r)) = Inr (b64 r) \<and>
    Encode_buf (Some r) (of_nat (length r)) (Some m) sz =
      (if length (b64 r) \<le> unat sz then Inr (length (b64 r), Some (b64 r @ drop (length (b64 r)) m))
       else Inr (0, Some m))"
proof -
  have nz: "(of_nat (length r) :: usize) \<noteq> 0"
    using assms(1) unat_len_b64(1) [OF assms(1)] by (metis b64_ok_def length_0_conv unat_0)
  have gt: "sz < EncodeLength (of_nat (length r)) \<longleftrightarrow> unat sz < length (b64 r)"
    using assms(1) by (simp add: EncodeLength_b64 word_less_nat_alt)
  have put: "enc_loop_buf r 0 0 (0, m) = Inr (length (b64 r), b64 r @ drop (length (b64 r)) m)"
    if "length (b64 r) \<le> unat sz"
    using that assms(3) by (simp add: enc_loop_buf_put enc_loop_str_b64 put_chars_fits)
  show ?thesis
    using assms nz gt put
    by (simp add: Encode_str_def Encode_buf_def enc_loop_str_b64 not_less)
qed

theorem encoders_agree_witness:
  "Encode_str (Some [0x61, 0x62]) 2 = Inr (b64 [0x61, 0x62]) \<and>
   Encode_buf (Some [0x61, 0x62]) 2 (Some [0, 0, 0, 0, 7]) 5 = Inr (4, Some (b64 [0x61, 0x62] @ [7])) \<and>
   b64 [0x61, 0x62] = [0x59, 0x57, 0x49, 0x3D]"
proof -
  have b: "b64 [0x61, 0x62] = [0x59, 0x57, 0x49, 0x3D]"
    by (simp add: en_char_def base64en_codes sext_defs BASE64_PAD_code)
  show ?thesis using encoders_agree [of "[0x61, 0x62]" 5 "[0, 0, 0, 0, 7]"] unfolding b
    by (simp add: b64_ok_def)
qed



text \<open>A buffer of exactly \<open>DecodeLength\<close> bytes passes the size check, but when the text is padded
  the decoder writes one byte behind its end.\<close>

theorem decode_writes_past_end:
  assumes "b64_ok r" and "length r mod 3 \<noteq> 0" and "length m = length r"
  shows "DecodeLength (b64 r) (of_nat (length (b64 r))) = Inr (of_nat (length m)) \<and>
    Decode_buf (Some (b64 r)) (of_nat (length (b64 r))) (Some m) (of_nat (length m)) = Inl OutOfRange"
  using dec_loop_buf_b64 [of 0 0 m r] assms
  by (simp add: Decode_buf_def DecodeLength_b64 dec_room_def)

theorem decode_writes_past_end_witness:
  "Decode_buf (Some (b64 [0x61, 0x62])) 4 (Some [0, 0]) 2 = Inl OutOfRange"
  using decode_writes_past_end [of "[0x61, 0x62]" "[0, 0]"] by (simp add: b64_ok_def)

text \<open>The decoder for vectors returns the length computed from the end of the text even when padding
  stops it earlier, and a byte with the sign bit set indexes the table out of range.\<close>

lemma decode_vec_wrong_length: "Decode_vec (map of_char ''QQ==QQ=='') [] = Inr (4, [0x41])"
  by (simp add: Decode_vec_def DecodeLength_def de_char_def base64de_def of_char_def BASE64_PAD_def)

lemma decode_sign_bit: "Decode_vec [0x41, 0xC3, 0x41, 0x41] [] = Inl OutOfRange"
  by (simp add: Decode_vec_def DecodeLength_def de_char_def base64de_def BASE64_PAD_code)

end
