(* ===== verification/Scalable_Integer.thy ===== *)
theory Scalable_Integer
  imports Tbox_Prelude
begin

text \<open>
  The variable-length integers of \<open>modules/util/scalable_integer.cpp\<close>: 7 bits to a byte, big end
  first, the top bit set on every byte but the last, and every length starting where the one
  below it ends.
\<close>

section \<open>Tables\<close>

definition min_value_tbl :: "u64 list" where
  "min_value_tbl =
     (let k1ByteMin = 0; k1ByteMax = 0x7F;
          k2ByteMin = k1ByteMax + 1; k2ByteMax = k2ByteMin + 0x3FFF;
          k3ByteMin = k2ByteMax + 1; k3ByteMax = k3ByteMin + 0x1FFFFF;
          k4ByteMin = k3ByteMax + 1; k4ByteMax = k4ByteMin + 0xFFFFFFF;
          k5ByteMin = k4ByteMax + 1; k5ByteMax = k5ByteMin + 0x7FFFFFFFF;
          k6ByteMin = k5ByteMax + 1; k6ByteMax = k6ByteMin + 0x3FFFFFFFFFF;
          k7ByteMin = k6ByteMax + 1; k7ByteMax = k7ByteMin + 0x1FFFFFFFFFFFF;
          k8ByteMin = k7ByteMax + 1; k8ByteMax = k8ByteMin + 0xFFFFFFFFFFFFFF;
          k9ByteMin = k8ByteMax + 1; k9ByteMax = k9ByteMin + 0x7FFFFFFFFFFFFFFF;
          k10ByteMin = k9ByteMax + 1
      in [0, k1ByteMin, k2ByteMin, k3ByteMin, k4ByteMin, k5ByteMin, k6ByteMin, k7ByteMin, k8ByteMin,
          k9ByteMin, k10ByteMin])"

definition max_value_tbl :: "u64 list" where
  "max_value_tbl =
     (let k1ByteMax = 0x7F;
          k2ByteMax = k1ByteMax + 1 + 0x3FFF;
          k3ByteMax = k2ByteMax + 1 + 0x1FFFFF;
          k4ByteMax = k3ByteMax + 1 + 0xFFFFFFF;
          k5ByteMax = k4ByteMax + 1 + 0x7FFFFFFFF;
          k6ByteMax = k5ByteMax + 1 + 0x3FFFFFFFFFF;
          k7ByteMax = k6ByteMax + 1 + 0x1FFFFFFFFFFFF;
          k8ByteMax = k7ByteMax + 1 + 0xFFFFFFFFFFFFFF;
          k9ByteMax = k8ByteMax + 1 + 0x7FFFFFFFFFFFFFFF
      in [0, k1ByteMax, k2ByteMax, k3ByteMax, k4ByteMax, k5ByteMax, k6ByteMax, k7ByteMax, k8ByteMax,
          k9ByteMax])"

section \<open>Writing\<close>

function need_bytes_from :: "nat \<Rightarrow> u64 \<Rightarrow> nat" where
  "need_bytes_from n v = (if n < 10 \<and> \<not> v \<le> max_value_tbl ! n then need_bytes_from (Suc n) v else n)"
  by auto
termination by (relation "measure (\<lambda>(n, v). 10 - n)") auto

declare need_bytes_from.simps [simp del]

definition need_bytes :: "u64 \<Rightarrow> nat" where
  "need_bytes v = need_bytes_from 1 v"

text \<open>The loop \<open>for (pos = need_bytes - 2; pos >= 0; --pos)\<close>.\<close>

fun store_high :: "nat \<Rightarrow> u64 \<Rightarrow> bytes \<Rightarrow> bytes" where
  "store_high 0 w m = m"
| "store_high (Suc pos) w m = store_high pos (drop_bit 7 w) (m[pos := 0x80 OR ucast (w AND 0x7f)])"

definition DumpScalableInteger :: "u64 \<Rightarrow> bytes \<Rightarrow> usize \<Rightarrow> cxx_error + nat \<times> bytes" where
  "DumpScalableInteger in_value m buff_size =
     (let n = need_bytes in_value
      in if unat buff_size < n then Inr (0, m)
         else if length m < n then Inl OutOfRange
         else let store_value = (if n > 1 then in_value - min_value_tbl ! n else in_value);
                  m1 = m[n - 1 := ucast (0x7f AND store_value)]
              in Inr (n, store_high (n - 1) (drop_bit 7 store_value) m1))"

section \<open>Reading\<close>

text \<open>The loop \<open>for (i = 0; i < buff_size && i <= 10; ++i)\<close>: whether it completes, \<open>read_bytes\<close> and
  \<open>read_value\<close>.\<close>

function parse_loop :: "bytes \<Rightarrow> usize \<Rightarrow> nat \<Rightarrow> nat \<Rightarrow> u64 \<Rightarrow> cxx_error + bool \<times> nat \<times> u64" where
  "parse_loop m buff_size i read_bytes read_value =
     (if i < unat buff_size \<and> i \<le> 10 then
        if i < length m then
          let value = m ! i; read_value' = push_bit 7 read_value OR ucast (value AND 0x7F)
          in if value AND 0x80 = 0 then Inr (True, read_bytes, read_value')
             else parse_loop m buff_size (Suc i) (Suc read_bytes) read_value'
        else Inl OutOfRange
      else Inr (False, read_bytes, read_value))"
  by auto
termination by (relation "measure (\<lambda>(m, b, i, n, v). 11 - i)") auto

declare parse_loop.simps [simp del]

text \<open>\<open>_min_value_tbl\<close> has 11 entries.\<close>

definition ParseScalableInteger :: "bytes \<Rightarrow> usize \<Rightarrow> cxx_error + nat \<times> u64 option" where
  "ParseScalableInteger m buff_size =
     (case parse_loop m buff_size 0 1 0 of
        Inl e \<Rightarrow> Inl e
      | Inr (False, _) \<Rightarrow> Inr (0, None)
      | Inr (True, read_bytes, read_value) \<Rightarrow>
          if read_bytes < length min_value_tbl
          then Inr (read_bytes, Some (min_value_tbl ! read_bytes + read_value))
          else Inl OutOfRange)"

section \<open>The lengths\<close>

lemma min_value_tbl: "min_value_tbl =
    [0, 0, 128, 16512, 2113664, 270549120, 34630287488, 4432676798592, 567382630219904,
     72624976668147840, 9295997013522923648]"
  by (simp add: min_value_tbl_def Let_def)

lemma max_value_tbl: "max_value_tbl =
    [0, 127, 16511, 2113663, 270549119, 34630287487, 4432676798591, 567382630219903,
     72624976668147839, 9295997013522923647]"
  by (simp add: max_value_tbl_def Let_def)

lemma tables_meet: "\<forall>n \<in> {1..9}. min_value_tbl ! Suc n = max_value_tbl ! n + 1"
  unfolding min_value_tbl max_value_tbl by (simp add: atLeastAtMost_upt upt_rec)

lemma tables_span: "\<forall>n \<in> {1..9}. unat (max_value_tbl ! n) - unat (min_value_tbl ! n) < 2 ^ (7 * n)"
  unfolding min_value_tbl max_value_tbl by (simp add: atLeastAtMost_upt upt_rec)

lemma need_bytes_from_spec:
  assumes "1 \<le> k" and "k \<le> 10" and "2 \<le> k \<Longrightarrow> \<not> v \<le> max_value_tbl ! (k - 1)"
  shows "let n = need_bytes_from k v in k \<le> n \<and> n \<le> 10 \<and> (n < 10 \<longrightarrow> v \<le> max_value_tbl ! n) \<and>
    (2 \<le> n \<longrightarrow> \<not> v \<le> max_value_tbl ! (n - 1))"
  using assms
proof (induction k v rule: need_bytes_from.induct)
  case (1 k v)
  show ?case
  proof (cases "k < 10 \<and> \<not> v \<le> max_value_tbl ! k")
    case True
    with 1 have "let n = need_bytes_from (Suc k) v in Suc k \<le> n \<and> n \<le> 10 \<and> (n < 10 \<longrightarrow> v \<le> max_value_tbl ! n) \<and>
      (2 \<le> n \<longrightarrow> \<not> v \<le> max_value_tbl ! (n - 1))" by simp
    with True show ?thesis by (subst need_bytes_from.simps) (simp add: Let_def)
  next
    case False
    with 1 show ?thesis by (subst need_bytes_from.simps) (auto simp: Let_def)
  qed
qed

lemma need_bytes_spec:
  "1 \<le> need_bytes v" "need_bytes v \<le> 10"
  "need_bytes v < 10 \<Longrightarrow> v \<le> max_value_tbl ! need_bytes v"
  "2 \<le> need_bytes v \<Longrightarrow> \<not> v \<le> max_value_tbl ! (need_bytes v - 1)"
  using need_bytes_from_spec [of 1 v] by (auto simp: need_bytes_def Let_def)


text \<open>The value stored for \<open>v\<close>: its distance from the smallest value of its length.\<close>

definition stored :: "u64 \<Rightarrow> u64" where
  "stored v = (if need_bytes v > 1 then v - min_value_tbl ! need_bytes v else v)"

lemma stored_plus: "min_value_tbl ! need_bytes v + stored v = v"
proof (cases "need_bytes v > 1")
  case False
  then have "need_bytes v = 1" using need_bytes_spec(1) [of v] by simp
  then show ?thesis by (simp add: stored_def min_value_tbl)
qed (simp add: stored_def)

lemma stored_bound: "drop_bit (7 * need_bytes v) (stored v) = 0"
proof (cases "need_bytes v = 10")
  case True
  have "drop_bit (7 * 10) (stored v) = 0"
    by (rule bit_word_eqI) (auto simp: bit_simps dest: bit_imp_le_length)
  with True show ?thesis by simp
next
  case False
  let ?n = "need_bytes v"
  have n: "?n \<in> {1..9}" "?n < 10" using need_bytes_spec(1,2) [of v] False by auto
  have le: "v \<le> max_value_tbl ! ?n" using need_bytes_spec(3) n by simp
  have ge: "min_value_tbl ! ?n \<le> v" if "1 < ?n"
  proof -
    from that have k: "?n - 1 \<in> {1..9}" "Suc (?n - 1) = ?n" using n by auto
    have "max_value_tbl ! (?n - 1) < v" using need_bytes_spec(4) [of v] that by simp
    with tables_meet k show ?thesis by (metis inc_le)
  qed
  have "unat (stored v) \<le> unat (max_value_tbl ! ?n) - unat (min_value_tbl ! ?n)"
  proof (cases "1 < ?n")
    case True
    then have "unat (stored v) = unat v - unat (min_value_tbl ! ?n)"
      using ge by (simp add: stored_def unat_sub)
    with le show ?thesis by (simp add: word_le_nat_alt)
  next
    case False
    then have "?n = 1" using n by simp
    with le show ?thesis by (simp add: stored_def word_le_nat_alt min_value_tbl)
  qed
  also have "\<dots> < 2 ^ (7 * ?n)" using tables_span n(1) by blast
  finally have "unat (drop_bit (7 * ?n) (stored v)) = 0" unfolding unat_drop_bit_eq by (simp only: drop_bit_eq_div div_less)
  then show ?thesis by (simp add: unat_eq_0)
qed

section \<open>The round trip\<close>

lemma length_store_high [simp]: "length (store_high p w m) = length m"
  by (induction p w m rule: store_high.induct) simp_all

lemma store_high_nth:
  "p \<le> length m \<Longrightarrow> store_high p w m ! j =
    (if j < p then 0x80 OR ucast (drop_bit (7 * (p - 1 - j)) w AND 0x7f) else m ! j)"
proof (induction p w m rule: store_high.induct)
  case (2 pos w m)
  show ?case
  proof (cases "j < pos")
    case True
    then have "7 * (pos - 1 - j) + 7 = 7 * (pos - j)" by simp
    with 2 True show ?thesis by (simp add: add.commute)
  qed (use 2 in \<open>auto simp: nth_list_update less_Suc_eq\<close>)
qed simp

text \<open>The bytes of a stored value, and the first of \<open>n\<close> bytes that ends it.\<close>

definition coded :: "nat \<Rightarrow> u64 \<Rightarrow> bytes \<Rightarrow> bool" where
  "coded n w m \<longleftrightarrow> n \<le> length m \<and>
     (\<forall>j < n. m ! j = (if Suc j < n then 0x80 else 0) OR ucast (drop_bit (7 * (n - 1 - j)) w AND 0x7f))"

lemma low_seven: "(0x7f :: u64) = mask 7" "(0x7F :: u8) = mask 7"
  by (simp_all add: mask_eq_exp_minus_1)

lemma bit_top: "bit ((if more then 0x80 else 0) :: u8) n \<longleftrightarrow> more \<and> n = 7"
proof -
  have "(0x80 :: u8) = push_bit 7 1" by simp
  then have "bit (0x80 :: u8) n \<longleftrightarrow> n = 7" by (simp only: bit_push_bit_iff bit_1_iff) auto
  then show ?thesis by simp
qed

lemma seven_bits_top:
  fixes w :: u64 and h :: u8
  assumes "\<And>n. bit h n \<longleftrightarrow> more \<and> n = 7"
  shows "ucast ((h OR ucast (w AND 0x7f)) AND 0x7F) = w AND (0x7f :: u64)"
    "bit (h OR ucast (w AND 0x7f)) 7 = more"
  unfolding low_seven using assms by (auto intro!: bit_word_eqI simp: bit_simps)

lemma top_bit_test: "(b AND 0x80 = 0) = (\<not> bit b 7)" for b :: u8
proof -
  have h: "bit (0x80 :: u8) n \<longleftrightarrow> n = 7" for n using bit_top [of True n] by simp
  show ?thesis by (subst bit_eq_iff) (auto simp only: bit_and_iff h bit_0_eq bot_apply bot_bool_def possible_bit_word, auto dest: spec [of _ 7])
qed

lemma seven_bits:
  fixes w :: u64
  shows "ucast (((if more then 0x80 else 0) OR ucast (w AND 0x7f) :: u8) AND 0x7F) = w AND (0x7f :: u64)"
    "(((if more then 0x80 else 0) OR ucast (w AND 0x7f) :: u8) AND 0x80 = 0) = (\<not> more)"
  unfolding top_bit_test by (simp_all only: seven_bits_top [OF bit_top])

lemma push_seven: "push_bit 7 (drop_bit (7 * Suc k) w) OR (drop_bit (7 * k) w AND 0x7f) = drop_bit (7 * k) (w :: u64)"
  unfolding low_seven by (rule bit_word_eqI) (auto simp: bit_simps)

lemma parse_coded:
  assumes "coded n w m" and "n \<le> unat sz" and "n \<le> 10" and "j < n"
  shows "parse_loop m sz j (Suc j) (drop_bit (7 * (n - j)) w) = Inr (True, n, w)"
  using assms
proof (induction "n - j" arbitrary: j)
  case (Suc d)
  let ?b = "(if Suc j < n then 0x80 else 0) OR ucast (drop_bit (7 * (n - 1 - j)) w AND 0x7f) :: u8"
  have b: "m ! j = ?b" using Suc.prems by (simp add: coded_def)
  have "n - j = Suc (n - 1 - j)" using Suc.prems by simp
  then have step: "push_bit 7 (drop_bit (7 * (n - j)) w) OR ucast (?b AND 0x7F) = drop_bit (7 * (n - Suc j)) w"
    using push_seven [of "n - 1 - j" w] by (simp only: seven_bits(1)) simp
  have z: "(m ! j AND 0x80 = 0) = (\<not> Suc j < n)" unfolding b by (rule seven_bits(2))
  have bound: "j < unat sz" "j \<le> 10" "j < length m" using Suc.prems by (auto simp: coded_def)
  show ?case
  proof (cases "Suc j < n")
    case True
    have "parse_loop m sz j (Suc j) (drop_bit (7 * (n - j)) w) =
        parse_loop m sz (Suc j) (Suc (Suc j)) (drop_bit (7 * (n - Suc j)) w)"
      using True bound z step [folded b] by (subst parse_loop.simps) (simp add: Let_def)
    with Suc True show ?thesis by simp
  next
    case False
    then have "n = Suc j" using Suc.prems by simp
    then show ?thesis using bound z step [folded b] by (subst parse_loop.simps) (simp add: Let_def)
  qed
qed simp


section \<open>Properties\<close>

lemma dump_coded:
  assumes "need_bytes v \<le> unat sz" and "need_bytes v \<le> length m"
  shows "\<exists>m'. DumpScalableInteger v m sz = Inr (need_bytes v, m') \<and> coded (need_bytes v) (stored v) m' \<and>
    length m' = length m \<and> drop (need_bytes v) m' = drop (need_bytes v) m"
proof -
  let ?n = "need_bytes v"
  let ?m1 = "m[?n - 1 := ucast (0x7f AND stored v)]"
  let ?m' = "store_high (?n - 1) (drop_bit 7 (stored v)) ?m1"
  have n: "1 \<le> ?n" by (rule need_bytes_spec(1))
  have d: "DumpScalableInteger v m sz = Inr (?n, ?m')"
    using assms by (simp add: DumpScalableInteger_def Let_def stored_def)
  have nth: "?m' ! j = (if j < ?n - 1 then 0x80 OR ucast (drop_bit (7 * (?n - 1 - 1 - j)) (drop_bit 7 (stored v)) AND 0x7f)
      else ?m1 ! j)" for j
    using assms(2) n by (subst store_high_nth) auto
  have "coded ?n (stored v) ?m'" unfolding coded_def
  proof (intro conjI allI impI)
    fix j assume j: "j < ?n"
    show "?m' ! j = (if Suc j < ?n then 0x80 else 0) OR ucast (drop_bit (7 * (?n - 1 - j)) (stored v) AND 0x7f)"
    proof (cases "j < ?n - 1")
      case True
      then have "7 * (?n - 1 - 1 - j) + 7 = 7 * (?n - 1 - j)" by simp
      moreover from True have "Suc j < ?n" by simp
      ultimately show ?thesis unfolding nth using True by (simp add: add.commute)
    next
      case False
      with j have "j = ?n - 1" by simp
      with n assms(2) show ?thesis unfolding nth by (simp add: and.commute)
    qed
  qed (use assms(2) in simp)
  moreover have "drop ?n ?m' = drop ?n m"
    using n assms(2) by (intro nth_equalityI) (auto simp: nth [unfolded One_nat_def])
  ultimately show ?thesis using d by simp
qed

text \<open>(C38) Every 64-bit value written is read back, from a buffer of any stated size that holds its
  bytes and whatever follows them, and takes between 1 and 10 bytes; a buffer that is too small
  is refused and left as it was.\<close>

theorem scalable_roundtrip:
  assumes "unat sz \<le> length m"
  shows "if need_bytes v \<le> unat sz
    then \<exists>m'. DumpScalableInteger v m sz = Inr (need_bytes v, m') \<and> drop (need_bytes v) m' = drop (need_bytes v) m \<and>
      ParseScalableInteger m' sz = Inr (need_bytes v, Some v) \<and> need_bytes v \<in> {1..10}
    else DumpScalableInteger v m sz = Inr (0, m)"
proof (cases "need_bytes v \<le> unat sz")
  case True
  with assms dump_coded [of v sz m] obtain m' where
    m': "DumpScalableInteger v m sz = Inr (need_bytes v, m')" "coded (need_bytes v) (stored v) m'"
      "drop (need_bytes v) m' = drop (need_bytes v) m" by auto
  have n: "1 \<le> need_bytes v" "need_bytes v \<le> 10" by (rule need_bytes_spec)+
  have "parse_loop m' sz 0 (Suc 0) 0 = Inr (True, need_bytes v, stored v)"
    using parse_coded [OF m'(2) True n(2), of 0] n(1) stored_bound [of v] by simp
  then have "ParseScalableInteger m' sz = Inr (need_bytes v, Some v)"
    using n stored_plus [of v] by (simp add: ParseScalableInteger_def min_value_tbl)
  with m' n True show ?thesis by auto
next
  case False
  then show ?thesis by (simp add: DumpScalableInteger_def Let_def)
qed

theorem scalable_roundtrip_witness:
  "\<exists>m'. DumpScalableInteger 16512 [0, 0, 0, 9] 4 = Inr (3, m') \<and> drop 3 m' = [9] \<and>
    ParseScalableInteger m' 4 = Inr (3, Some 16512)"
proof -
  have n: "need_bytes 16512 = 3"
    by (simp add: need_bytes_def need_bytes_from.simps max_value_tbl)
  show ?thesis using scalable_roundtrip [of 4 "[0, 0, 0, 9]" 16512] unfolding n by auto
qed

text \<open>The lengths share the values out without gap or overlap: \<open>n\<close> bytes, for \<open>n\<close> up to 9, are
  taken by exactly the values from \<open>_min_value_tbl[n]\<close> to \<open>_max_value_tbl[n]\<close>.\<close>

theorem scalable_lengths:
  assumes "n \<in> {1..9}"
  shows "need_bytes v = n \<longleftrightarrow> min_value_tbl ! n \<le> v \<and> v \<le> max_value_tbl ! n"
proof -
  have "n = 1 \<or> n = 2 \<or> n = 3 \<or> n = 4 \<or> n = 5 \<or> n = 6 \<or> n = 7 \<or> n = 8 \<or> n = 9" using assms by auto
  then show ?thesis
    by (elim disjE) (auto simp: need_bytes_def need_bytes_from.simps max_value_tbl min_value_tbl word_le_nat_alt)
qed

theorem scalable_lengths_witness: "need_bytes 127 = 1 \<and> need_bytes 128 = 2"
  using scalable_lengths [of 1 127] scalable_lengths [of 2 128] by (simp add: min_value_tbl max_value_tbl)

text \<open>The reading loop runs over up to eleven bytes although the table of smallest values ends at
  ten: input whose first ten bytes all continue and whose eleventh ends is read with an index
  outside the table.\<close>

theorem parse_eleven_bytes:
  assumes "11 \<le> unat sz" and "11 \<le> length m" and "\<forall>i < 10. m ! i AND 0x80 \<noteq> 0" and "m ! 10 AND 0x80 = 0"
  shows "ParseScalableInteger m sz = Inl OutOfRange"
proof -
  have "j \<le> 10 \<Longrightarrow> \<exists>w. parse_loop m sz j (Suc j) v = Inr (True, 11, w)" for j v
  proof (induction "10 - j" arbitrary: j v)
    case 0
    then have "j = 10" by simp
    with assms show ?case by (subst parse_loop.simps) (simp add: Let_def)
  next
    case (Suc d)
    then have j: "j < 10" "d = 10 - Suc j" by auto
    with assms have "parse_loop m sz j (Suc j) v =
        parse_loop m sz (Suc j) (Suc (Suc j)) (push_bit 7 v OR ucast (m ! j AND 0x7F))"
      by (subst parse_loop.simps) (simp add: Let_def)
    with Suc.hyps(1) [of "Suc j"] j show ?case by auto
  qed
  from this [of 0 0] obtain w where "parse_loop m sz 0 (Suc 0) 0 = Inr (True, 11, w)" by auto
  then show ?thesis by (simp add: ParseScalableInteger_def min_value_tbl)
qed

theorem parse_eleven_bytes_witness:
  "ParseScalableInteger (replicate 10 0x80 @ [0]) 11 = Inl OutOfRange"
  by (rule parse_eleven_bytes) (simp_all add: nth_append)

end
