(* ===== verification/Crc.thy ===== *)
theory Crc
  imports Tbox_Prelude
begin

text \<open>
  The error-detecting codes of \<open>modules/util/crc.cpp\<close> and \<open>modules/util/checksum.cpp\<close>: the
  table-driven CRC-16/CCITT and CRC-32 and the end-around-carry sums of 8 and 16 bits. The data
  is the list of its \<open>data_size\<close> bytes.
\<close>

section \<open>Cyclic redundancy checks\<close>

definition ccitt16_table :: "u16 list" where
  "ccitt16_table = [
     0x0000, 0x1021, 0x2042, 0x3063, 0x4084, 0x50A5, 0x60C6, 0x70E7,
     0x8108, 0x9129, 0xA14A, 0xB16B, 0xC18C, 0xD1AD, 0xE1CE, 0xF1EF,
     0x1231, 0x0210, 0x3273, 0x2252, 0x52B5, 0x4294, 0x72F7, 0x62D6,
     0x9339, 0x8318, 0xB37B, 0xA35A, 0xD3BD, 0xC39C, 0xF3FF, 0xE3DE,
     0x2462, 0x3443, 0x0420, 0x1401, 0x64E6, 0x74C7, 0x44A4, 0x5485,
     0xA56A, 0xB54B, 0x8528, 0x9509, 0xE5EE, 0xF5CF, 0xC5AC, 0xD58D,
     0x3653, 0x2672, 0x1611, 0x0630, 0x76D7, 0x66F6, 0x5695, 0x46B4,
     0xB75B, 0xA77A, 0x9719, 0x8738, 0xF7DF, 0xE7FE, 0xD79D, 0xC7BC,
     0x48C4, 0x58E5, 0x6886, 0x78A7, 0x0840, 0x1861, 0x2802, 0x3823,
     0xC9CC, 0xD9ED, 0xE98E, 0xF9AF, 0x8948, 0x9969, 0xA90A, 0xB92B,
     0x5AF5, 0x4AD4, 0x7AB7, 0x6A96, 0x1A71, 0x0A50, 0x3A33, 0x2A12,
     0xDBFD, 0xCBDC, 0xFBBF, 0xEB9E, 0x9B79, 0x8B58, 0xBB3B, 0xAB1A,
     0x6CA6, 0x7C87, 0x4CE4, 0x5CC5, 0x2C22, 0x3C03, 0x0C60, 0x1C41,
     0xEDAE, 0xFD8F, 0xCDEC, 0xDDCD, 0xAD2A, 0xBD0B, 0x8D68, 0x9D49,
     0x7E97, 0x6EB6, 0x5ED5, 0x4EF4, 0x3E13, 0x2E32, 0x1E51, 0x0E70,
     0xFF9F, 0xEFBE, 0xDFDD, 0xCFFC, 0xBF1B, 0xAF3A, 0x9F59, 0x8F78,
     0x9188, 0x81A9, 0xB1CA, 0xA1EB, 0xD10C, 0xC12D, 0xF14E, 0xE16F,
     0x1080, 0x00A1, 0x30C2, 0x20E3, 0x5004, 0x4025, 0x7046, 0x6067,
     0x83B9, 0x9398, 0xA3FB, 0xB3DA, 0xC33D, 0xD31C, 0xE37F, 0xF35E,
     0x02B1, 0x1290, 0x22F3, 0x32D2, 0x4235, 0x5214, 0x6277, 0x7256,
     0xB5EA, 0xA5CB, 0x95A8, 0x8589, 0xF56E, 0xE54F, 0xD52C, 0xC50D,
     0x34E2, 0x24C3, 0x14A0, 0x0481, 0x7466, 0x6447, 0x5424, 0x4405,
     0xA7DB, 0xB7FA, 0x8799, 0x97B8, 0xE75F, 0xF77E, 0xC71D, 0xD73C,
     0x26D3, 0x36F2, 0x0691, 0x16B0, 0x6657, 0x7676, 0x4615, 0x5634,
     0xD94C, 0xC96D, 0xF90E, 0xE92F, 0x99C8, 0x89E9, 0xB98A, 0xA9AB,
     0x5844, 0x4865, 0x7806, 0x6827, 0x18C0, 0x08E1, 0x3882, 0x28A3,
     0xCB7D, 0xDB5C, 0xEB3F, 0xFB1E, 0x8BF9, 0x9BD8, 0xABBB, 0xBB9A,
     0x4A75, 0x5A54, 0x6A37, 0x7A16, 0x0AF1, 0x1AD0, 0x2AB3, 0x3A92,
     0xFD2E, 0xED0F, 0xDD6C, 0xCD4D, 0xBDAA, 0xAD8B, 0x9DE8, 0x8DC9,
     0x7C26, 0x6C07, 0x5C64, 0x4C45, 0x3CA2, 0x2C83, 0x1CE0, 0x0CC1,
     0xEF1F, 0xFF3E, 0xCF5D, 0xDF7C, 0xAF9B, 0xBFBA, 0x8FD9, 0x9FF8,
     0x6E17, 0x7E36, 0x4E55, 0x5E74, 0x2E93, 0x3EB2, 0x0ED1, 0x1EF0]"

text \<open>The functions the comments say the tables were made with.\<close>

definition gen16_step :: "u16 \<times> u16 \<Rightarrow> u16 \<times> u16" where
  "gen16_step vt =
     (let (value, temp) = vt
      in ((if (value XOR temp) AND 0x8000 \<noteq> 0 then push_bit 1 value XOR 0x1021 else push_bit 1 value),
          push_bit 1 temp))"

definition gen16 :: "nat \<Rightarrow> u16" where
  "gen16 i = fst ((gen16_step ^^ 8) (0, push_bit 8 (of_nat i)))"

definition crc32_table :: "u32 list" where
  "crc32_table = [
     0x00000000, 0x77073096, 0xEE0E612C, 0x990951BA, 0x076DC419, 0x706AF48F, 0xE963A535, 0x9E6495A3,
     0x0EDB8832, 0x79DCB8A4, 0xE0D5E91E, 0x97D2D988, 0x09B64C2B, 0x7EB17CBD, 0xE7B82D07, 0x90BF1D91,
     0x1DB71064, 0x6AB020F2, 0xF3B97148, 0x84BE41DE, 0x1ADAD47D, 0x6DDDE4EB, 0xF4D4B551, 0x83D385C7,
     0x136C9856, 0x646BA8C0, 0xFD62F97A, 0x8A65C9EC, 0x14015C4F, 0x63066CD9, 0xFA0F3D63, 0x8D080DF5,
     0x3B6E20C8, 0x4C69105E, 0xD56041E4, 0xA2677172, 0x3C03E4D1, 0x4B04D447, 0xD20D85FD, 0xA50AB56B,
     0x35B5A8FA, 0x42B2986C, 0xDBBBC9D6, 0xACBCF940, 0x32D86CE3, 0x45DF5C75, 0xDCD60DCF, 0xABD13D59,
     0x26D930AC, 0x51DE003A, 0xC8D75180, 0xBFD06116, 0x21B4F4B5, 0x56B3C423, 0xCFBA9599, 0xB8BDA50F,
     0x2802B89E, 0x5F058808, 0xC60CD9B2, 0xB10BE924, 0x2F6F7C87, 0x58684C11, 0xC1611DAB, 0xB6662D3D,
     0x76DC4190, 0x01DB7106, 0x98D220BC, 0xEFD5102A, 0x71B18589, 0x06B6B51F, 0x9FBFE4A5, 0xE8B8D433,
     0x7807C9A2, 0x0F00F934, 0x9609A88E, 0xE10E9818, 0x7F6A0DBB, 0x086D3D2D, 0x91646C97, 0xE6635C01,
     0x6B6B51F4, 0x1C6C6162, 0x856530D8, 0xF262004E, 0x6C0695ED, 0x1B01A57B, 0x8208F4C1, 0xF50FC457,
     0x65B0D9C6, 0x12B7E950, 0x8BBEB8EA, 0xFCB9887C, 0x62DD1DDF, 0x15DA2D49, 0x8CD37CF3, 0xFBD44C65,
     0x4DB26158, 0x3AB551CE, 0xA3BC0074, 0xD4BB30E2, 0x4ADFA541, 0x3DD895D7, 0xA4D1C46D, 0xD3D6F4FB,
     0x4369E96A, 0x346ED9FC, 0xAD678846, 0xDA60B8D0, 0x44042D73, 0x33031DE5, 0xAA0A4C5F, 0xDD0D7CC9,
     0x5005713C, 0x270241AA, 0xBE0B1010, 0xC90C2086, 0x5768B525, 0x206F85B3, 0xB966D409, 0xCE61E49F,
     0x5EDEF90E, 0x29D9C998, 0xB0D09822, 0xC7D7A8B4, 0x59B33D17, 0x2EB40D81, 0xB7BD5C3B, 0xC0BA6CAD,
     0xEDB88320, 0x9ABFB3B6, 0x03B6E20C, 0x74B1D29A, 0xEAD54739, 0x9DD277AF, 0x04DB2615, 0x73DC1683,
     0xE3630B12, 0x94643B84, 0x0D6D6A3E, 0x7A6A5AA8, 0xE40ECF0B, 0x9309FF9D, 0x0A00AE27, 0x7D079EB1,
     0xF00F9344, 0x8708A3D2, 0x1E01F268, 0x6906C2FE, 0xF762575D, 0x806567CB, 0x196C3671, 0x6E6B06E7,
     0xFED41B76, 0x89D32BE0, 0x10DA7A5A, 0x67DD4ACC, 0xF9B9DF6F, 0x8EBEEFF9, 0x17B7BE43, 0x60B08ED5,
     0xD6D6A3E8, 0xA1D1937E, 0x38D8C2C4, 0x4FDFF252, 0xD1BB67F1, 0xA6BC5767, 0x3FB506DD, 0x48B2364B,
     0xD80D2BDA, 0xAF0A1B4C, 0x36034AF6, 0x41047A60, 0xDF60EFC3, 0xA867DF55, 0x316E8EEF, 0x4669BE79,
     0xCB61B38C, 0xBC66831A, 0x256FD2A0, 0x5268E236, 0xCC0C7795, 0xBB0B4703, 0x220216B9, 0x5505262F,
     0xC5BA3BBE, 0xB2BD0B28, 0x2BB45A92, 0x5CB36A04, 0xC2D7FFA7, 0xB5D0CF31, 0x2CD99E8B, 0x5BDEAE1D,
     0x9B64C2B0, 0xEC63F226, 0x756AA39C, 0x026D930A, 0x9C0906A9, 0xEB0E363F, 0x72076785, 0x05005713,
     0x95BF4A82, 0xE2B87A14, 0x7BB12BAE, 0x0CB61B38, 0x92D28E9B, 0xE5D5BE0D, 0x7CDCEFB7, 0x0BDBDF21,
     0x86D3D2D4, 0xF1D4E242, 0x68DDB3F8, 0x1FDA836E, 0x81BE16CD, 0xF6B9265B, 0x6FB077E1, 0x18B74777,
     0x88085AE6, 0xFF0F6A70, 0x66063BCA, 0x11010B5C, 0x8F659EFF, 0xF862AE69, 0x616BFFD3, 0x166CCF45,
     0xA00AE278, 0xD70DD2EE, 0x4E048354, 0x3903B3C2, 0xA7672661, 0xD06016F7, 0x4969474D, 0x3E6E77DB,
     0xAED16A4A, 0xD9D65ADC, 0x40DF0B66, 0x37D83BF0, 0xA9BCAE53, 0xDEBB9EC5, 0x47B2CF7F, 0x30B5FFE9,
     0xBDBDF21C, 0xCABAC28A, 0x53B39330, 0x24B4A3A6, 0xBAD03605, 0xCDD70693, 0x54DE5729, 0x23D967BF,
     0xB3667A2E, 0xC4614AB8, 0x5D681B02, 0x2A6F2B94, 0xB40BBE37, 0xC30C8EA1, 0x5A05DF1B, 0x2D02EF8D]"

definition gen32_step :: "u32 \<Rightarrow> u32" where
  "gen32_step crc = (if crc AND 1 \<noteq> 0 then drop_bit 1 crc XOR 0xEDB88320 else drop_bit 1 crc)"

definition gen32 :: "nat \<Rightarrow> u32" where
  "gen32 i = (gen32_step ^^ 8) (of_nat i)"

fun crc16_loop :: "bytes \<Rightarrow> u16 \<Rightarrow> u16" where
  "crc16_loop [] crc = crc"
| "crc16_loop (b # bs) crc =
     crc16_loop bs (ccitt16_table ! unat ((drop_bit 8 crc XOR ucast b) AND 0xff) XOR push_bit 8 crc)"

definition CalcCrc16 :: "bytes \<Rightarrow> u16 \<Rightarrow> u16" where
  "CalcCrc16 data init_seed = crc16_loop data init_seed"

fun crc32_loop :: "bytes \<Rightarrow> u32 \<Rightarrow> u32" where
  "crc32_loop [] crc = crc"
| "crc32_loop (b # bs) crc =
     crc32_loop bs (crc32_table ! unat ((crc XOR ucast b) AND 0xff) XOR drop_bit 8 crc)"

definition CalcCrc32 :: "bytes \<Rightarrow> u32 \<Rightarrow> u32" where
  "CalcCrc32 data init_seed = NOT (crc32_loop data init_seed)"

section \<open>The tables\<close>

text \<open>A table of a linear function is spanned by its values at the powers of two: each power
  doubles it.\<close>

definition double :: "'a::len word \<Rightarrow> 'a word list \<Rightarrow> 'a word list" where
  "double w t = t @ map (\<lambda>v. w XOR v) t"

definition linear :: "(nat \<Rightarrow> 'a::len word) \<Rightarrow> bool" where
  "linear f \<longleftrightarrow> (\<forall>i j. f (i XOR j) = f i XOR f j)"

lemma power_xor_less:
  assumes "j < (2::nat) ^ n"
  shows "2 ^ n + j = 2 ^ n XOR j"
proof -
  have t: "take_bit n j = j" using assms by (simp add: take_bit_eq_mod)
  then have "\<not> bit j n" by (metis bit_take_bit_iff less_irrefl)
  then have "2 ^ n AND j = 0" by (intro bit_eqI) (auto simp: bit_simps)
  then show ?thesis by (rule disjunctive_add_eq_xor)
qed

lemma span_linear:
  assumes "linear f"
  shows "fold double (map (\<lambda>k. f (2 ^ k)) [0..<n]) [0] = map f [0..<2 ^ n]"
proof (induction n)
  case 0
  from assms have "f (0 XOR 0) = f 0 XOR f 0" unfolding linear_def by blast
  then show ?case by simp
next
  case (Suc n)
  have up: "[0..<2 ^ Suc n] = [0..<2 ^ n] @ map (\<lambda>j. 2 ^ n + j) [0..<2 ^ n]"
    by (rule nth_equalityI) (auto simp: nth_append)
  have "fold double (map (\<lambda>k. f (2 ^ k)) [0..<Suc n]) [0] = double (f (2 ^ n)) (map f [0..<2 ^ n])"
    by (simp add: Suc.IH)
  also have "\<dots> = map f [0..<2 ^ Suc n]"
    using assms by (auto simp: double_def up power_xor_less linear_def simp del: power_Suc)
  finally show ?case .
qed

lemma funpow_8: "(f ^^ 8) x = f (f (f (f (f (f (f (f x)))))))"
  by (simp add: eval_nat_numeral)

lemma gen16_powers: "map (\<lambda>k. gen16 (2 ^ k)) [0..<8] = [0x1021, 0x2042, 0x4084, 0x8108, 0x1231, 0x2462, 0x48C4, 0x9188]"
  by (simp add: gen16_def gen16_step_def funpow_8 upt_rec)

lemma gen32_powers: "map (\<lambda>k. gen32 (2 ^ k)) [0..<8] =
    [0x77073096, 0xEE0E612C, 0x076DC419, 0x0EDB8832, 0x1DB71064, 0x3B6E20C8, 0x76DC4190, 0xEDB88320]"
  by (simp add: gen32_def gen32_step_def funpow_8 upt_rec)

lemma ccitt16_table_span:
  "ccitt16_table = fold double [0x1021, 0x2042, 0x4084, 0x8108, 0x1231, 0x2462, 0x48C4, 0x9188] [0]"
  unfolding ccitt16_table_def by (simp add: double_def)

lemma crc32_table_span:
  "crc32_table = fold double [0x77073096, 0xEE0E612C, 0x076DC419, 0x0EDB8832, 0x1DB71064, 0x3B6E20C8, 0x76DC4190, 0xEDB88320] [0]"
  unfolding crc32_table_def by (simp add: double_def)

section \<open>Division one bit at a time\<close>

text \<open>The remainder after one more bit: the reference the tables abbreviate.\<close>

definition div16 :: "u16 \<Rightarrow> u16" where
  "div16 x = push_bit 1 x XOR (if bit x 15 then 0x1021 else 0)"

definition div32 :: "u32 \<Rightarrow> u32" where
  "div32 x = drop_bit 1 x XOR (if bit x 0 then 0xEDB88320 else 0)"

definition crc16_ref :: "u16 \<Rightarrow> u8 \<Rightarrow> u16" where
  "crc16_ref crc b = (div16 ^^ 8) (crc XOR push_bit 8 (ucast b))"

definition crc32_ref :: "u32 \<Rightarrow> u8 \<Rightarrow> u32" where
  "crc32_ref crc b = (div32 ^^ 8) (crc XOR ucast b)"

lemma div16_xor: "div16 (x XOR y) = div16 x XOR div16 y"
  by (auto simp: div16_def push_bit_xor bit_xor_iff intro!: bit_word_eqI simp: bit_simps)

lemma div32_xor: "div32 (x XOR y) = div32 x XOR div32 y"
  by (auto simp: div32_def drop_bit_xor bit_xor_iff intro!: bit_word_eqI simp: bit_simps)

lemma div_pow_xor:
  "(div16 ^^ n) (x XOR y) = (div16 ^^ n) x XOR (div16 ^^ n) y"
  "(div32 ^^ n) (u XOR v) = (div32 ^^ n) u XOR (div32 ^^ n) v"
  by (induction n) (simp_all add: div16_xor div32_xor)

lemma div32_gen: "gen32_step = div32"
proof
  fix x :: u32
  have "x AND 1 \<noteq> 0 \<longleftrightarrow> bit x 0" by (simp add: and_one_eq bit_0 mod2_eq_if)
  then show "gen32_step x = div32 x" by (simp add: gen32_step_def div32_def)
qed

text \<open>The generator of the 16-bit table keeps the remainder in two parts.\<close>

lemma gen16_pow: "fst ((gen16_step ^^ n) vt) XOR snd ((gen16_step ^^ n) vt) = (div16 ^^ n) (fst vt XOR snd vt)"
proof (induction n)
  case (Suc n)
  have h: "(0x8000 :: u16) = push_bit 15 1" by simp
  have t: "z AND 0x8000 \<noteq> 0 \<longleftrightarrow> bit z 15" for z :: u16
    unfolding h by (metis bit_iff_and_push_bit_not_eq_0)
  obtain v w where vw: "(gen16_step ^^ n) vt = (v, w)" by fastforce
  with Suc have "v XOR w = (div16 ^^ n) (fst vt XOR snd vt)" by simp
  moreover have "fst (gen16_step (v, w)) XOR snd (gen16_step (v, w)) = div16 (v XOR w)"
    unfolding gen16_step_def div16_def by (simp add: t push_bit_xor ac_simps)
  ultimately show ?case by (simp add: vw)
qed simp

lemma snd_gen16_pow: "snd ((gen16_step ^^ n) vt) = push_bit n (snd vt)"
  by (induction n) (simp_all add: gen16_step_def case_prod_beta push_bit_push_bit flip: push_bit_Suc)

lemma gen16_div: "gen16 i = (div16 ^^ 8) (push_bit 8 (of_nat i))"
proof -
  have "push_bit 8 (push_bit 8 (of_nat i :: u16)) = 0" by (intro bit_word_eqI) (simp add: bit_simps)
  then show ?thesis
    using gen16_pow [of 8 "(0, push_bit 8 (of_nat i))"] by (simp add: gen16_def snd_gen16_pow)
qed

lemma linear_gens: "linear gen16" "linear gen32"
  by (simp_all add: linear_def gen16_div gen32_def div32_gen of_nat_xor_eq push_bit_xor div_pow_xor)

lemma tables_gen: "ccitt16_table = map gen16 [0..<256]" "crc32_table = map gen32 [0..<256]"
proof -
  have p: "(256 :: nat) = 2 ^ 8" by simp
  show "ccitt16_table = map gen16 [0..<256]" "crc32_table = map gen32 [0..<256]"
    unfolding p ccitt16_table_span crc32_table_span
    by (simp_all only: gen16_powers gen32_powers linear_gens flip: span_linear)
qed

section \<open>One byte\<close>

lemma low_byte: "(0xff :: 'a::len word) = mask 8"
  by (simp add: mask_eq_exp_minus_1)

lemma unat_low_byte: "unat (x AND 0xff) < 256" for x :: "'a::len word"
  using take_bit_nat_less_exp [of 8 "unat x"] by (simp add: low_byte unsigned_take_bit_eq flip: take_bit_eq_mask)

lemma div_clear: "\<not> bit y 15 \<Longrightarrow> div16 y = push_bit 1 y" "\<not> bit z 0 \<Longrightarrow> div32 z = drop_bit 1 z"
  by (simp_all add: div16_def div32_def)

lemma div16_low: "(\<And>m. 16 - n \<le> m \<Longrightarrow> \<not> bit x m) \<Longrightarrow> (div16 ^^ n) x = push_bit n x"
proof (induction n)
  case (Suc n)
  then have IH: "(div16 ^^ n) x = push_bit n x" by simp
  have "\<not> bit (push_bit n x) 15" using Suc.prems [of "15 - n"] by (auto simp: bit_simps)
  then have "(div16 ^^ Suc n) x = push_bit 1 (push_bit n x)" by (simp add: IH div_clear)
  then show ?case by (simp only: push_bit_push_bit) simp
qed simp

lemma div32_high: "(\<And>m. m < n \<Longrightarrow> \<not> bit x m) \<Longrightarrow> (div32 ^^ n) x = drop_bit n x"
proof (induction n)
  case (Suc n)
  then have IH: "(div32 ^^ n) x = drop_bit n x" by simp
  have "\<not> bit (drop_bit n x) 0" using Suc.prems [of n] by (simp add: bit_simps)
  then have "(div32 ^^ Suc n) x = drop_bit 1 (drop_bit n x)" by (simp add: IH div_clear)
  then show ?case by (simp only: drop_bit_drop_bit) simp
qed simp

lemma crc16_byte:
  "ccitt16_table ! unat ((drop_bit 8 crc XOR ucast b) AND 0xff) XOR push_bit 8 crc = crc16_ref crc b"
proof -
  define i :: u16 where "i = (drop_bit 8 crc XOR ucast b) AND 0xff"
  have split: "crc XOR push_bit 8 (ucast b) = push_bit 8 i XOR (crc AND 0xff)"
    unfolding i_def low_byte by (rule bit_word_eqI) (auto simp: bit_simps)
  have low: "(div16 ^^ 8) (crc AND 0xff) = push_bit 8 (crc AND 0xff)"
    by (rule div16_low) (simp add: low_byte bit_simps)
  have push: "push_bit 8 (crc AND 0xff) = push_bit 8 crc"
    unfolding low_byte by (rule bit_word_eqI) (auto simp: bit_simps)
  have "ccitt16_table ! unat i = gen16 (unat i)"
    using unat_low_byte [of "drop_bit 8 crc XOR ucast b"] by (simp add: tables_gen i_def)
  then show ?thesis
    unfolding crc16_ref_def split div_pow_xor low push by (simp add: gen16_div i_def)
qed

lemma crc32_byte:
  "crc32_table ! unat ((crc XOR ucast b) AND 0xff) XOR drop_bit 8 crc = crc32_ref crc b"
proof -
  define i :: u32 where "i = (crc XOR ucast b) AND 0xff"
  have split: "crc XOR ucast b = i XOR (crc AND NOT (mask 8))"
    unfolding i_def low_byte by (rule bit_word_eqI) (auto simp: bit_simps dest: bit_imp_le_length)
  have high: "(div32 ^^ 8) (crc AND NOT (mask 8)) = drop_bit 8 (crc AND NOT (mask 8))"
    by (rule div32_high) (simp add: bit_simps)
  have drop: "drop_bit 8 (crc AND NOT (mask 8)) = drop_bit 8 crc"
    by (rule bit_word_eqI) (auto simp: bit_simps dest: bit_imp_le_length)
  have "crc32_table ! unat i = gen32 (unat i)"
    using unat_low_byte [of "crc XOR ucast b"] by (simp add: tables_gen i_def)
  moreover have "crc32_ref crc b = (div32 ^^ 8) i XOR drop_bit 8 crc"
    unfolding crc32_ref_def split div_pow_xor high drop ..
  ultimately show ?thesis by (simp add: gen32_def div32_gen i_def)
qed

lemma crc_loops_ref: "crc16_loop bs c = foldl crc16_ref c bs" "crc32_loop bs d = foldl crc32_ref d bs"
  by (induction bs arbitrary: c d) (simp_all add: crc16_byte crc32_byte)

section \<open>No remainder is lost\<close>

lemma bit_poly: "bit (0x1021 :: u16) 0" "bit (0xEDB88320 :: u32) 31"
  by simp_all

lemma div16_zero: "div16 x = 0 \<Longrightarrow> x = 0"
proof -
  assume z: "div16 x = 0"
  have "bit (div16 x) 0 = bit x 15" using bit_poly(1)
    unfolding div16_def bit_xor_iff bit_push_bit_iff by simp
  with z have b: "\<not> bit x 15" by simp
  with z have p: "push_bit 1 x = 0" by (simp add: div16_def)
  show "x = 0"
  proof (rule bit_word_eqI)
    fix n assume n: "n < LENGTH(16)"
    have "bit (push_bit 1 x) (Suc n) = bit x n" if "n < 15"
      using that unfolding bit_push_bit_iff by simp
    with p b n show "bit x n = bit (0 :: u16) n" by (cases "n = 15") auto
  qed
qed

lemma div32_zero: "div32 x = 0 \<Longrightarrow> x = 0"
proof -
  assume z: "div32 x = 0"
  have "bit (div32 x) 31 = bit x 0" using bit_poly(2)
    unfolding div32_def bit_xor_iff bit_drop_bit_eq by (auto dest: bit_imp_le_length)
  with z have b: "\<not> bit x 0" by simp
  with z have p: "drop_bit 1 x = 0" by (simp add: div32_def)
  show "x = 0"
  proof (rule bit_word_eqI)
    fix n assume "n < LENGTH(32)"
    have "bit (drop_bit 1 x) (n - 1) = bit x n" if "0 < n" using that by (simp add: bit_simps)
    with p b show "bit x n = bit (0 :: u32) n" by (cases "n = 0") auto
  qed
qed

lemma xor_zero_eq: "x XOR y = 0 \<Longrightarrow> x = y" for x y :: "'a::len word"
  by (metis xor.assoc xor.right_neutral xor_self_eq xor.left_neutral)

lemma div_inj: "(div16 ^^ n) x = (div16 ^^ n) y \<Longrightarrow> x = y" "(div32 ^^ n) u = (div32 ^^ n) v \<Longrightarrow> u = v"
proof -
  have "inj div16"
    by (rule injI) (metis div16_xor div16_zero xor_self_eq xor_zero_eq)
  then have "inj (div16 ^^ n)" by (rule inj_fn)
  then show "(div16 ^^ n) x = (div16 ^^ n) y \<Longrightarrow> x = y" by (rule injD)
  have "inj div32"
    by (rule injI) (metis div32_xor div32_zero xor_self_eq xor_zero_eq)
  then have "inj (div32 ^^ n)" by (rule inj_fn)
  then show "(div32 ^^ n) u = (div32 ^^ n) v \<Longrightarrow> u = v" by (rule injD)
qed

section \<open>Check sums\<close>

text \<open>The inner loops that add the carry back in.\<close>

lemma carry_parts:
  fixes acc :: "'a::len word"
  shows "unat (acc AND mask k) = unat acc mod 2 ^ k" "unat (drop_bit k acc) = unat acc div 2 ^ k"
    "acc AND NOT (mask k) = 0 \<longleftrightarrow> unat acc < 2 ^ k"
proof -
  show "unat (acc AND mask k) = unat acc mod 2 ^ k"
    by (simp add: unsigned_take_bit_eq flip: take_bit_eq_mask) (simp add: take_bit_eq_mod)
  show d: "unat (drop_bit k acc) = unat acc div 2 ^ k"
    unfolding unat_drop_bit_eq by (simp only: drop_bit_eq_div)
  have "acc AND NOT (mask k) = push_bit k (drop_bit k acc)"
    by (rule bit_word_eqI) (auto simp: bit_simps)
  also have "\<dots> = 0 \<longleftrightarrow> drop_bit k acc = 0"
  proof
    assume "push_bit k (drop_bit k acc) = 0"
    then have "drop_bit k (push_bit k (drop_bit k acc)) = 0" by simp
    moreover have "drop_bit k (push_bit k (drop_bit k acc)) = drop_bit k acc"
      by (rule bit_word_eqI) (auto simp: bit_simps dest: bit_imp_le_length)
    ultimately show "drop_bit k acc = 0" by simp
  qed simp
  also have "\<dots> \<longleftrightarrow> unat acc < 2 ^ k" unfolding unat_eq_0 [symmetric] d by (simp add: div_eq_0_iff)
  finally show "acc AND NOT (mask k) = 0 \<longleftrightarrow> unat acc < 2 ^ k" .
qed

lemma carry_masks: "(0xff :: u16) = mask 8" "(0xff00 :: u16) = NOT (mask 8)"
  "(0xffff :: u32) = mask 16" "(0xffff0000 :: u32) = NOT (mask 16)"
  by (simp_all add: mask_eq_exp_minus_1)

lemma carry_less: "2 ^ k \<le> n \<Longrightarrow> 0 < k \<Longrightarrow> n mod 2 ^ k + n div 2 ^ k < (n :: nat)"
proof -
  assume k: "2 ^ k \<le> n" "0 < k"
  then have q: "0 < n div 2 ^ k" by (simp add: div_greater_zero_iff)
  have "1 < (2 :: nat) ^ k" using k(2) by (intro one_less_power) simp_all
  then have "n div 2 ^ k < n div 2 ^ k * 2 ^ k" using q by simp
  with div_mult_mod_eq [of n "2 ^ k"] show ?thesis by linarith
qed

function fold8 :: "u16 \<Rightarrow> u16" where
  "fold8 acc = (if acc AND 0xff00 \<noteq> 0 then fold8 ((acc AND 0xff) + drop_bit 8 acc) else acc)"
  by auto

lemma unat_carry8: "unat ((acc AND 0xff) + drop_bit 8 acc) = unat acc mod 256 + unat acc div 256" for acc :: u16
proof -
  have "unat acc < 65536" using unsigned_less [of acc] by simp
  then have "unat acc mod 256 + unat acc div 256 < 65536" by linarith
  then show ?thesis unfolding carry_masks
    using carry_parts [where acc = acc and k = 8] by (subst unat_add_lem [THEN iffD1]) simp_all
qed

termination fold8
proof (relation "measure unat")
  fix acc :: u16 assume "acc AND 0xff00 \<noteq> 0"
  then have "2 ^ 8 \<le> unat acc" using carry_parts(3) [where acc = acc and k = 8] unfolding carry_masks by simp
  from carry_less [OF this] show "((acc AND 0xff) + drop_bit 8 acc, acc) \<in> measure unat"
    unfolding in_measure unat_carry8 by simp
qed simp

function fold16 :: "u32 \<Rightarrow> u32" where
  "fold16 acc = (if acc AND 0xffff0000 \<noteq> 0 then fold16 (drop_bit 16 acc + (acc AND 0xffff)) else acc)"
  by auto

lemma unat_carry16: "unat (drop_bit 16 acc + (acc AND 0xffff)) = unat acc div 65536 + unat acc mod 65536" for acc :: u32
proof -
  have "unat acc < 4294967296" using unsigned_less [of acc] by simp
  then have "unat acc div 65536 + unat acc mod 65536 < 4294967296" by linarith
  then show ?thesis unfolding carry_masks
    using carry_parts [where acc = acc and k = 16] by (subst unat_add_lem [THEN iffD1]) simp_all
qed

termination fold16
proof (relation "measure unat")
  fix acc :: u32 assume "acc AND 0xffff0000 \<noteq> 0"
  then have "2 ^ 16 \<le> unat acc" using carry_parts(3) [where acc = acc and k = 16] unfolding carry_masks by simp
  from carry_less [OF this] show "(drop_bit 16 acc + (acc AND 0xffff), acc) \<in> measure unat"
    unfolding in_measure unat_carry16 by simp
qed simp

declare fold8.simps [simp del] fold16.simps [simp del]

fun sum8_loop :: "bytes \<Rightarrow> u16 \<Rightarrow> u16" where
  "sum8_loop [] acc = acc"
| "sum8_loop (b # bs) acc = sum8_loop bs (fold8 (acc + ucast b))"

definition CalcCheckSum8 :: "bytes \<Rightarrow> u8" where
  "CalcCheckSum8 data = NOT (ucast (sum8_loop data 0))"

fun sum16_loop :: "bytes \<Rightarrow> u32 \<Rightarrow> u32" where
  "sum16_loop [] acc = acc"
| "sum16_loop [b] acc = fold16 (acc + push_bit 8 (ucast b))"
| "sum16_loop (b0 # b1 # bs) acc = sum16_loop bs (fold16 (acc + (push_bit 8 (ucast b0) OR ucast b1)))"

definition CalcCheckSum16 :: "bytes \<Rightarrow> u16" where
  "CalcCheckSum16 data = NOT (ucast (sum16_loop data 0))"

text \<open>The carry loop keeps the value modulo one less than the base, and only zero becomes zero.\<close>

lemma carry_mod: "(n mod Suc b + n div Suc b) mod b = n mod (b :: nat)"
  by (metis add.commute add_mult_distrib2 div_mult_mod_eq mod_mult_self2 mult.commute mult_Suc_right add.assoc)

lemma fold8_spec:
  "unat (fold8 acc) < 256" "unat (fold8 acc) mod 255 = unat acc mod 255" "unat (fold8 acc) = 0 \<longleftrightarrow> unat acc = 0"
proof (induction acc rule: fold8.induct)
  case (1 acc)
  note IH = 1
  let ?next = "(acc AND 0xff) + drop_bit 8 acc"
  have more: "acc AND 0xff00 \<noteq> 0 \<longleftrightarrow> 256 \<le> unat acc"
    using carry_parts(3) [where acc = acc and k = 8] unfolding carry_masks by auto
  have m: "unat ?next mod 255 = unat acc mod 255"
    using carry_mod [of "unat acc" 255] by (simp add: unat_carry8)
  have z: "unat ?next = 0 \<longleftrightarrow> unat acc = 0" unfolding unat_carry8 by auto
  { case 1 then show ?case using IH more by (subst fold8.simps) simp }
  { case 2 then show ?case using IH m by (subst fold8.simps) simp }
  { case 3 then show ?case using IH z by (subst fold8.simps) simp }
qed

lemma fold16_spec:
  "unat (fold16 acc) < 65536" "unat (fold16 acc) mod 65535 = unat acc mod 65535"
  "unat (fold16 acc) = 0 \<longleftrightarrow> unat acc = 0"
proof (induction acc rule: fold16.induct)
  case (1 acc)
  note IH = 1
  let ?next = "drop_bit 16 acc + (acc AND 0xffff)"
  have more: "acc AND 0xffff0000 \<noteq> 0 \<longleftrightarrow> 65536 \<le> unat acc"
    using carry_parts(3) [where acc = acc and k = 16] unfolding carry_masks by auto
  have m: "unat ?next mod 65535 = unat acc mod 65535"
    using carry_mod [of "unat acc" 65535] by (simp add: unat_carry16 add.commute)
  have z: "unat ?next = 0 \<longleftrightarrow> unat acc = 0" unfolding unat_carry16 by auto
  { case 1 then show ?case using IH more by (subst fold16.simps) simp }
  { case 2 then show ?case using IH m by (subst fold16.simps) simp }
  { case 3 then show ?case using IH z by (subst fold16.simps) simp }
qed

section \<open>Cyclic redundancy checks: properties\<close>

lemma crc_ref:
  "CalcCrc16 data seed = foldl crc16_ref seed data" "CalcCrc32 data seed' = NOT (foldl crc32_ref seed' data)"
  unfolding CalcCrc16_def CalcCrc32_def crc_loops_ref by (rule refl)+

lemma crc_pieces:
  "CalcCrc16 (data @ more) seed = CalcCrc16 more (CalcCrc16 data seed)"
  "CalcCrc32 (data @ more) seed' = CalcCrc32 more (NOT (CalcCrc32 data seed'))"
  unfolding crc_ref foldl_append bit.double_compl by (rule refl)+

text \<open>(C40) Both table-driven CRCs compute the remainder of the bit-by-bit division by their generator
  polynomials, and data may be fed in pieces, each call taking the result of the one before as
  its seed (complemented for CRC-32).\<close>

theorem crc_is_division:
  "CalcCrc16 data seed = foldl crc16_ref seed data \<and> CalcCrc32 data seed' = NOT (foldl crc32_ref seed' data) \<and>
   CalcCrc16 (data @ more) seed = CalcCrc16 more (CalcCrc16 data seed) \<and>
   CalcCrc32 (data @ more) seed' = CalcCrc32 more (NOT (CalcCrc32 data seed'))"
  by (intro conjI) (fact crc_ref crc_pieces)+

lemma foldl_inj: "foldl f c bs = foldl f d bs \<Longrightarrow> (\<And>c d b. f c b = f d b \<Longrightarrow> c = d) \<Longrightarrow> c = d"
proof (induction bs arbitrary: c d)
  case (Cons b bs)
  from Cons.prems(1) have "foldl f (f c b) bs = foldl f (f d b) bs" by simp
  then have "f c b = f d b" by (rule Cons.IH) (rule Cons.prems(2))
  then show ?case by (rule Cons.prems(2))
qed simp

lemma xor_cancel: "x XOR y = x XOR z \<longleftrightarrow> y = z" "y XOR x = z XOR x \<longleftrightarrow> y = z" for x y z :: "'a::len word"
  by (auto simp: bit_eq_iff bit_xor_iff)

lemma ucast_u8_inj:
  fixes b b' :: u8
  shows "(ucast b :: u16) = ucast b' \<Longrightarrow> b = b'" "(ucast b :: u32) = ucast b' \<Longrightarrow> b = b'"
proof -
  have "(ucast (ucast x :: u16) :: u8) = x" "(ucast (ucast x :: u32) :: u8) = x" for x :: u8
    by (rule bit_word_eqI; simp add: bit_simps)+
  then show "(ucast b :: u16) = ucast b' \<Longrightarrow> b = b'" "(ucast b :: u32) = ucast b' \<Longrightarrow> b = b'"
    by metis+
qed

lemma crc16_ref_inj: "crc16_ref c b = crc16_ref d b \<Longrightarrow> c = d" "crc16_ref c b = crc16_ref c b' \<Longrightarrow> b = b'"
proof -
  show "crc16_ref c b = crc16_ref d b \<Longrightarrow> c = d"
    unfolding crc16_ref_def by (drule div_inj(1)) (simp only: xor_cancel)
  have p: "drop_bit 8 (push_bit 8 (ucast x :: u16)) = (ucast x :: u16)" for x :: u8
    by (rule bit_word_eqI) (auto simp: bit_simps dest: bit_imp_le_length)
  assume "crc16_ref c b = crc16_ref c b'"
  then have "push_bit 8 (ucast b :: u16) = push_bit 8 (ucast b')"
    unfolding crc16_ref_def by (drule_tac div_inj(1)) (simp only: xor_cancel)
  then show "b = b'" by (metis p ucast_u8_inj(1))
qed

lemma crc32_ref_inj: "crc32_ref c b = crc32_ref d b \<Longrightarrow> c = d" "crc32_ref c b = crc32_ref c b' \<Longrightarrow> b = b'"
  unfolding crc32_ref_def by (drule div_inj(2), simp only: xor_cancel ucast_u8_inj)+

text \<open>Both CRCs notice every change of a single byte, wherever it is and whatever the other bytes
  and the seed are.\<close>

theorem crc_detects_byte:
  assumes "b \<noteq> b'"
  shows "CalcCrc16 (pre @ b # post) seed \<noteq> CalcCrc16 (pre @ b' # post) seed \<and>
    CalcCrc32 (pre @ b # post) seed' \<noteq> CalcCrc32 (pre @ b' # post) seed'"
proof (intro conjI notI)
  assume "CalcCrc16 (pre @ b # post) seed = CalcCrc16 (pre @ b' # post) seed"
  then have "foldl crc16_ref (crc16_ref (foldl crc16_ref seed pre) b) post =
      foldl crc16_ref (crc16_ref (foldl crc16_ref seed pre) b') post"
    unfolding crc_ref foldl_append foldl.simps .
  then have "crc16_ref (foldl crc16_ref seed pre) b = crc16_ref (foldl crc16_ref seed pre) b'"
    by (rule foldl_inj) (rule crc16_ref_inj(1))
  with assms show False by (blast dest: crc16_ref_inj(2))
next
  assume "CalcCrc32 (pre @ b # post) seed' = CalcCrc32 (pre @ b' # post) seed'"
  then have "foldl crc32_ref (crc32_ref (foldl crc32_ref seed' pre) b) post =
      foldl crc32_ref (crc32_ref (foldl crc32_ref seed' pre) b') post"
    unfolding crc_ref foldl_append foldl.simps bit.compl_eq_compl_iff .
  then have "crc32_ref (foldl crc32_ref seed' pre) b = crc32_ref (foldl crc32_ref seed' pre) b'"
    by (rule foldl_inj) (rule crc32_ref_inj(1))
  with assms show False by (blast dest: crc32_ref_inj(2))
qed

theorem crc_detects_byte_witness: "CalcCrc16 [1, 2, 3] 0xffff \<noteq> CalcCrc16 [1, 7, 3] 0xffff"
  using crc_detects_byte [where b = 2 and b' = 7 and pre = "[1]" and post = "[3]" and seed = "0xffff"] by simp

section \<open>Check sums: properties\<close>

text \<open>What the sums add up: bytes, or big-endian pairs with an odd byte as the high one.\<close>

fun pair_sum :: "bytes \<Rightarrow> nat" where
  "pair_sum [] = 0"
| "pair_sum [b] = 256 * unat b"
| "pair_sum (b0 # b1 # bs) = 256 * unat b0 + unat b1 + pair_sum bs"

lemma unat_u8: "unat (b :: u8) < 256"
  using unsigned_less [of b] by simp

lemma unat_u16: "unat (w :: u16) < 65536"
  using unsigned_less [of w] by simp

lemma unat_ucast_u8: "unat (ucast b :: u16) = unat b" "unat (ucast b :: u32) = unat b" for b :: u8
  using unat_u8 [of b] by (simp_all add: unsigned_ucast_eq take_bit_eq_mod)

lemma pair_word:
  fixes b0 b1 :: u8
  shows "push_bit 8 (ucast b0) OR ucast b1 = (of_nat (256 * unat b0 + unat b1) :: u32)"
    "push_bit 8 (ucast b0) = (of_nat (256 * unat b0) :: u32)"
proof -
  have n: "ucast b = (of_nat (unat b) :: u32)" for b :: u8 using unat_ucast_u8(2) by (rule word_of_unat)
  show p: "push_bit 8 (ucast b0) = (of_nat (256 * unat b0) :: u32)"
    unfolding push_bit_eq_mult n by (simp add: mult.commute)
  have "push_bit 8 (ucast b0) AND ucast b1 = (0 :: u32)"
    by (rule bit_word_eqI) (auto simp: bit_simps dest: bit_imp_le_length)
  then have "push_bit 8 (ucast b0) OR ucast b1 = push_bit 8 (ucast b0) + (ucast b1 :: u32)"
    by (rule disjunctive_add_eq_or [symmetric])
  then show "push_bit 8 (ucast b0) OR ucast b1 = (of_nat (256 * unat b0 + unat b1) :: u32)"
    using p n [of b1] by (simp only: of_nat_add)
qed

lemma unat_add_of_nat:
  fixes acc :: u32
  assumes "unat acc < 65536" and "n < 65536"
  shows "unat (acc + of_nat n) = unat acc + n"
proof -
  have u: "unat (of_nat n :: u32) = n" using assms(2) by (simp add: unat_of_nat)
  show ?thesis using assms u by (subst unat_add_lem [THEN iffD1]) simp_all
qed

lemma sum8_loop_spec:
  "unat acc < 256 \<Longrightarrow> unat (sum8_loop bs acc) < 256 \<and>
   unat (sum8_loop bs acc) mod 255 = (unat acc + sum_list (map unat bs)) mod 255 \<and>
   (unat (sum8_loop bs acc) = 0 \<longleftrightarrow> unat acc + sum_list (map unat bs) = 0)"
proof (induction bs arbitrary: acc)
  case (Cons b bs)
  have u: "unat (acc + ucast b) = unat acc + unat b"
    using Cons.prems unat_u8 [of b] unat_ucast_u8(1) [of b] by (subst unat_add_lem [THEN iffD1]) simp_all
  have "(unat acc + unat b + s) mod 255 = (unat (fold8 (acc + ucast b)) + s) mod 255" for s
    using fold8_spec(2) [of "acc + ucast b"] unfolding u by (metis mod_add_left_eq)
  with Cons.IH [OF fold8_spec(1)] fold8_spec(3) [of "acc + ucast b"] show ?case
    unfolding u by (simp add: add.assoc)
qed simp

lemma sum16_loop_spec:
  "unat acc < 65536 \<Longrightarrow> unat (sum16_loop bs acc) < 65536 \<and>
   unat (sum16_loop bs acc) mod 65535 = (unat acc + pair_sum bs) mod 65535 \<and>
   (unat (sum16_loop bs acc) = 0 \<longleftrightarrow> unat acc + pair_sum bs = 0)"
proof (induction bs acc rule: sum16_loop.induct)
  case (1 acc)
  then show ?case by simp
next
  case (2 b acc)
  have "unat (acc + push_bit 8 (ucast b)) = unat acc + 256 * unat b"
    unfolding pair_word(2) using 2 unat_u8 [of b] by (intro unat_add_of_nat) simp_all
  then show ?case using fold16_spec [of "acc + push_bit 8 (ucast b)"] by (simp)
next
  case (3 b0 b1 bs acc)
  have u: "unat (acc + (push_bit 8 (ucast b0) OR ucast b1)) = unat acc + (256 * unat b0 + unat b1)"
    unfolding pair_word(1) using 3(2) unat_u8 [of b0] unat_u8 [of b1] by (intro unat_add_of_nat) simp_all
  have "(unat acc + (256 * unat b0 + unat b1) + s) mod 65535 = (unat (fold16 (acc + (push_bit 8 (ucast b0) OR ucast b1))) + s) mod 65535" for s
    using fold16_spec(2) [of "acc + (push_bit 8 (ucast b0) OR ucast b1)"] unfolding u by (metis mod_add_left_eq)
  with 3(1) [OF fold16_spec(1)] fold16_spec(3) [of "acc + (push_bit 8 (ucast b0) OR ucast b1)"] show ?case
    unfolding u by (simp add: add.assoc)
qed

lemma sum8_append: "sum8_loop (bs @ cs) acc = sum8_loop cs (sum8_loop bs acc)"
  by (induction bs arbitrary: acc) simp_all

lemma sum16_append: "even (length bs) \<Longrightarrow> sum16_loop (bs @ cs) acc = sum16_loop cs (sum16_loop bs acc)"
  by (induction bs acc rule: sum16_loop.induct) simp_all

lemma unat_NOT: "unat (NOT w) = 2 ^ LENGTH('a) - 1 - unat w" for w :: "'a::len word"
proof -
  have "NOT w = - 1 - w" by (simp add: not_eq_complement)
  moreover have "unat (- 1 - w) = unat (- 1 :: 'a word) - unat w" by (rule unat_sub) simp
  ultimately show ?thesis by (simp add: unsigned_minus_1_eq_mask mask_eq_exp_minus_1)
qed

lemma unat_CalcCheckSum8: "unat (CalcCheckSum8 data) = 255 - unat (sum8_loop data 0)"
proof -
  have "unat (ucast (sum8_loop data 0) :: u8) = unat (sum8_loop data 0)"
    using sum8_loop_spec [of 0 data] by (simp add: unsigned_ucast_eq take_bit_eq_mod)
  then show ?thesis by (simp add: CalcCheckSum8_def unat_NOT)
qed

lemma unat_CalcCheckSum16: "unat (CalcCheckSum16 data) = 65535 - unat (sum16_loop data 0)"
proof -
  have "unat (ucast (sum16_loop data 0) :: u16) = unat (sum16_loop data 0)"
    using sum16_loop_spec [of 0 data] by (simp add: unsigned_ucast_eq take_bit_eq_mod)
  then show ?thesis by (simp add: CalcCheckSum16_def unat_NOT)
qed

lemma full_carry: "n < Suc b \<Longrightarrow> n mod b = b mod b \<Longrightarrow> n \<noteq> 0 \<Longrightarrow> n = b" for n b :: nat
  by (metis less_SucE mod_less mod_self)

text \<open>A receiver who sums the data and the check sum after it gets zero: one byte for the 8-bit
  sum, and for data of even length the high and the low byte of the 16-bit sum.\<close>

theorem checksum_self_check:
  "CalcCheckSum8 (data @ [CalcCheckSum8 data]) = 0 \<and>
   (even (length data) \<longrightarrow>
      CalcCheckSum16 (data @ [ucast (drop_bit 8 (CalcCheckSum16 data)), ucast (CalcCheckSum16 data)]) = 0)"
proof (intro conjI impI)
  let ?s = "sum8_loop data 0"
  have s: "unat ?s < 256" using sum8_loop_spec [of 0 data] by simp
  have u: "unat (?s + ucast (CalcCheckSum8 data)) = 255"
    using s by (subst unat_add_lem [THEN iffD1]) (simp_all add: unat_ucast_u8 unat_CalcCheckSum8)
  have "unat (fold8 (?s + ucast (CalcCheckSum8 data))) = 255"
  proof (rule full_carry)
    show "unat (fold8 (?s + ucast (CalcCheckSum8 data))) < Suc 255" using fold8_spec(1) [of "?s + ucast (CalcCheckSum8 data)"] by simp
    show "unat (fold8 (?s + ucast (CalcCheckSum8 data))) mod 255 = 255 mod 255" using fold8_spec(2) [of "?s + ucast (CalcCheckSum8 data)"] unfolding u .
    show "unat (fold8 (?s + ucast (CalcCheckSum8 data))) \<noteq> 0" using fold8_spec(3) [of "?s + ucast (CalcCheckSum8 data)"] unfolding u by simp
  qed
  then show "CalcCheckSum8 (data @ [CalcCheckSum8 data]) = 0"
    by (simp add: unat_eq_0 [symmetric] unat_CalcCheckSum8 sum8_append del: unat_eq_0)
next
  assume e: "even (length data)"
  let ?s = "sum16_loop data 0" and ?c = "CalcCheckSum16 data"
  have s: "unat ?s < 65536" using sum16_loop_spec [of 0 data] by simp
  have hi: "unat (ucast (drop_bit 8 ?c) :: u8) = unat ?c div 256"
    using unat_u16 [of ?c] carry_parts(2) [where acc = ?c and k = 8]
    by (simp add: unsigned_ucast_eq take_bit_eq_mod)
  have lo: "unat (ucast ?c :: u8) = unat ?c mod 256"
    by (simp add: unsigned_ucast_eq take_bit_eq_mod)
  have "256 * (unat ?c div 256) + unat ?c mod 256 = unat ?c" by simp
  then have p: "push_bit 8 (ucast (ucast (drop_bit 8 ?c) :: u8)) OR ucast (ucast ?c :: u8) = (of_nat (unat ?c) :: u32)"
    unfolding pair_word(1) hi lo by simp
  have u: "unat (?s + of_nat (unat ?c)) = 65535"
    using s by (subst unat_add_of_nat) (simp_all add: unat_CalcCheckSum16)
  have f: "unat (fold16 (?s + of_nat (unat ?c))) = 65535"
  proof (rule full_carry)
    show "unat (fold16 (?s + of_nat (unat ?c))) < Suc 65535" using fold16_spec(1) [of "?s + of_nat (unat ?c)"] by simp
    show "unat (fold16 (?s + of_nat (unat ?c))) mod 65535 = 65535 mod 65535" using fold16_spec(2) [of "?s + of_nat (unat ?c)"] unfolding u .
    show "unat (fold16 (?s + of_nat (unat ?c))) \<noteq> 0" using fold16_spec(3) [of "?s + of_nat (unat ?c)"] unfolding u by simp
  qed
  have q: "sum16_loop (data @ [ucast (drop_bit 8 ?c), ucast ?c]) 0 = fold16 (?s + of_nat (unat ?c))"
    unfolding p [symmetric] sum16_append [OF e] sum16_loop.simps by (rule refl)
  have "unat (CalcCheckSum16 (data @ [ucast (drop_bit 8 ?c), ucast ?c])) =
      65535 - unat (sum16_loop (data @ [ucast (drop_bit 8 ?c), ucast ?c]) 0)"
    by (rule unat_CalcCheckSum16)
  then have "unat (CalcCheckSum16 (data @ [ucast (drop_bit 8 ?c), ucast ?c])) = 0"
    by (simp only: q f diff_self_eq_0)
  then show "CalcCheckSum16 (data @ [ucast (drop_bit 8 ?c), ucast ?c]) = 0" by (simp only: unat_eq_0)
qed

theorem checksum_self_check_witness:
  "CalcCheckSum16 ([0x12, 0x34] @ [ucast (drop_bit 8 (CalcCheckSum16 [0x12, 0x34])), ucast (CalcCheckSum16 [0x12, 0x34])]) = 0"
  using checksum_self_check [of "[0x12, 0x34]"] by simp

end
