(* ===== verification/Aes.thy ===== *)
theory Aes
  imports Tbox_Prelude
begin

text \<open>
  The AES-128 block cipher of \<open>modules/crypto/aes.cpp\<close>: key expansion, encryption and decryption
  of one block of 16 bytes. A \<open>uint8_t[4][4]\<close> is the list of its four rows; the operations on the
  state return the array they change in place.
\<close>

section \<open>Tables and arithmetic\<close>

definition Sbox :: bytes where
  "Sbox = [
     0x63, 0x7c, 0x77, 0x7b, 0xf2, 0x6b, 0x6f, 0xc5, 0x30, 0x01, 0x67, 0x2b, 0xfe, 0xd7, 0xab, 0x76,
     0xca, 0x82, 0xc9, 0x7d, 0xfa, 0x59, 0x47, 0xf0, 0xad, 0xd4, 0xa2, 0xaf, 0x9c, 0xa4, 0x72, 0xc0,
     0xb7, 0xfd, 0x93, 0x26, 0x36, 0x3f, 0xf7, 0xcc, 0x34, 0xa5, 0xe5, 0xf1, 0x71, 0xd8, 0x31, 0x15,
     0x04, 0xc7, 0x23, 0xc3, 0x18, 0x96, 0x05, 0x9a, 0x07, 0x12, 0x80, 0xe2, 0xeb, 0x27, 0xb2, 0x75,
     0x09, 0x83, 0x2c, 0x1a, 0x1b, 0x6e, 0x5a, 0xa0, 0x52, 0x3b, 0xd6, 0xb3, 0x29, 0xe3, 0x2f, 0x84,
     0x53, 0xd1, 0x00, 0xed, 0x20, 0xfc, 0xb1, 0x5b, 0x6a, 0xcb, 0xbe, 0x39, 0x4a, 0x4c, 0x58, 0xcf,
     0xd0, 0xef, 0xaa, 0xfb, 0x43, 0x4d, 0x33, 0x85, 0x45, 0xf9, 0x02, 0x7f, 0x50, 0x3c, 0x9f, 0xa8,
     0x51, 0xa3, 0x40, 0x8f, 0x92, 0x9d, 0x38, 0xf5, 0xbc, 0xb6, 0xda, 0x21, 0x10, 0xff, 0xf3, 0xd2,
     0xcd, 0x0c, 0x13, 0xec, 0x5f, 0x97, 0x44, 0x17, 0xc4, 0xa7, 0x7e, 0x3d, 0x64, 0x5d, 0x19, 0x73,
     0x60, 0x81, 0x4f, 0xdc, 0x22, 0x2a, 0x90, 0x88, 0x46, 0xee, 0xb8, 0x14, 0xde, 0x5e, 0x0b, 0xdb,
     0xe0, 0x32, 0x3a, 0x0a, 0x49, 0x06, 0x24, 0x5c, 0xc2, 0xd3, 0xac, 0x62, 0x91, 0x95, 0xe4, 0x79,
     0xe7, 0xc8, 0x37, 0x6d, 0x8d, 0xd5, 0x4e, 0xa9, 0x6c, 0x56, 0xf4, 0xea, 0x65, 0x7a, 0xae, 0x08,
     0xba, 0x78, 0x25, 0x2e, 0x1c, 0xa6, 0xb4, 0xc6, 0xe8, 0xdd, 0x74, 0x1f, 0x4b, 0xbd, 0x8b, 0x8a,
     0x70, 0x3e, 0xb5, 0x66, 0x48, 0x03, 0xf6, 0x0e, 0x61, 0x35, 0x57, 0xb9, 0x86, 0xc1, 0x1d, 0x9e,
     0xe1, 0xf8, 0x98, 0x11, 0x69, 0xd9, 0x8e, 0x94, 0x9b, 0x1e, 0x87, 0xe9, 0xce, 0x55, 0x28, 0xdf,
     0x8c, 0xa1, 0x89, 0x0d, 0xbf, 0xe6, 0x42, 0x68, 0x41, 0x99, 0x2d, 0x0f, 0xb0, 0x54, 0xbb, 0x16]"

definition InvSbox :: bytes where
  "InvSbox = [
     0x52, 0x09, 0x6a, 0xd5, 0x30, 0x36, 0xa5, 0x38, 0xbf, 0x40, 0xa3, 0x9e, 0x81, 0xf3, 0xd7, 0xfb,
     0x7c, 0xe3, 0x39, 0x82, 0x9b, 0x2f, 0xff, 0x87, 0x34, 0x8e, 0x43, 0x44, 0xc4, 0xde, 0xe9, 0xcb,
     0x54, 0x7b, 0x94, 0x32, 0xa6, 0xc2, 0x23, 0x3d, 0xee, 0x4c, 0x95, 0x0b, 0x42, 0xfa, 0xc3, 0x4e,
     0x08, 0x2e, 0xa1, 0x66, 0x28, 0xd9, 0x24, 0xb2, 0x76, 0x5b, 0xa2, 0x49, 0x6d, 0x8b, 0xd1, 0x25,
     0x72, 0xf8, 0xf6, 0x64, 0x86, 0x68, 0x98, 0x16, 0xd4, 0xa4, 0x5c, 0xcc, 0x5d, 0x65, 0xb6, 0x92,
     0x6c, 0x70, 0x48, 0x50, 0xfd, 0xed, 0xb9, 0xda, 0x5e, 0x15, 0x46, 0x57, 0xa7, 0x8d, 0x9d, 0x84,
     0x90, 0xd8, 0xab, 0x00, 0x8c, 0xbc, 0xd3, 0x0a, 0xf7, 0xe4, 0x58, 0x05, 0xb8, 0xb3, 0x45, 0x06,
     0xd0, 0x2c, 0x1e, 0x8f, 0xca, 0x3f, 0x0f, 0x02, 0xc1, 0xaf, 0xbd, 0x03, 0x01, 0x13, 0x8a, 0x6b,
     0x3a, 0x91, 0x11, 0x41, 0x4f, 0x67, 0xdc, 0xea, 0x97, 0xf2, 0xcf, 0xce, 0xf0, 0xb4, 0xe6, 0x73,
     0x96, 0xac, 0x74, 0x22, 0xe7, 0xad, 0x35, 0x85, 0xe2, 0xf9, 0x37, 0xe8, 0x1c, 0x75, 0xdf, 0x6e,
     0x47, 0xf1, 0x1a, 0x71, 0x1d, 0x29, 0xc5, 0x89, 0x6f, 0xb7, 0x62, 0x0e, 0xaa, 0x18, 0xbe, 0x1b,
     0xfc, 0x56, 0x3e, 0x4b, 0xc6, 0xd2, 0x79, 0x20, 0x9a, 0xdb, 0xc0, 0xfe, 0x78, 0xcd, 0x5a, 0xf4,
     0x1f, 0xdd, 0xa8, 0x33, 0x88, 0x07, 0xc7, 0x31, 0xb1, 0x12, 0x10, 0x59, 0x27, 0x80, 0xec, 0x5f,
     0x60, 0x51, 0x7f, 0xa9, 0x19, 0xb5, 0x4a, 0x0d, 0x2d, 0xe5, 0x7a, 0x9f, 0x93, 0xc9, 0x9c, 0xef,
     0xa0, 0xe0, 0x3b, 0x4d, 0xae, 0x2a, 0xf5, 0xb0, 0xc8, 0xeb, 0xbb, 0x3c, 0x83, 0x53, 0x99, 0x61,
     0x17, 0x2b, 0x04, 0x7e, 0xba, 0x77, 0xd6, 0x26, 0xe1, 0x69, 0x14, 0x63, 0x55, 0x21, 0x0c, 0x7d]"

text \<open>\<open>bw[i]\<close> from \<open>bw[i - 1]\<close>: multiplication by x modulo the polynomial 0x11b.\<close>

definition next_bw :: "u8 \<Rightarrow> u8" where
  "next_bw b = (if b AND 0x80 \<noteq> 0 then push_bit 1 b XOR 0x1b else push_bit 1 b)"

definition FFmul :: "u8 \<Rightarrow> u8 \<Rightarrow> u8" where
  "FFmul a b =
     (let bw = [b, next_bw b, next_bw (next_bw b), next_bw (next_bw (next_bw b))]
      in fold (\<lambda>i res. if drop_bit i a AND 0x01 \<noteq> 0 then res XOR bw ! i else res) [0..<4] 0)"

section \<open>The state\<close>

type_synonym matrix = "u8 list list"

text \<open>The array whose entry in row \<open>r\<close> and column \<open>c\<close> is \<open>f r c\<close>: the two nested loops.\<close>

definition tab :: "(nat \<Rightarrow> nat \<Rightarrow> u8) \<Rightarrow> matrix" where
  "tab f = map (\<lambda>r. map (\<lambda>c. f r c) [0..<4]) [0..<4]"

definition SubBytes :: "matrix \<Rightarrow> matrix" where
  "SubBytes s = tab (\<lambda>r c. Sbox ! unat (s ! r ! c))"

definition ShiftRows :: "matrix \<Rightarrow> matrix" where
  "ShiftRows s = tab (\<lambda>r c. s ! r ! ((c + r) mod 4))"

definition MixColumns :: "matrix \<Rightarrow> matrix" where
  "MixColumns s = tab (\<lambda>r c. FFmul 0x02 (s ! r ! c) XOR FFmul 0x03 (s ! ((r + 1) mod 4) ! c)
     XOR FFmul 0x01 (s ! ((r + 2) mod 4) ! c) XOR FFmul 0x01 (s ! ((r + 3) mod 4) ! c))"

definition AddRoundKey :: "matrix \<Rightarrow> matrix \<Rightarrow> matrix" where
  "AddRoundKey s k = tab (\<lambda>r c. s ! r ! c XOR k ! r ! c)"

definition InvSubBytes :: "matrix \<Rightarrow> matrix" where
  "InvSubBytes s = tab (\<lambda>r c. InvSbox ! unat (s ! r ! c))"

definition InvShiftRows :: "matrix \<Rightarrow> matrix" where
  "InvShiftRows s = tab (\<lambda>r c. s ! r ! ((c + 4 - r) mod 4))"

definition InvMixColumns :: "matrix \<Rightarrow> matrix" where
  "InvMixColumns s = tab (\<lambda>r c. FFmul 0x0e (s ! r ! c) XOR FFmul 0x0b (s ! ((r + 1) mod 4) ! c)
     XOR FFmul 0x0d (s ! ((r + 2) mod 4) ! c) XOR FFmul 0x09 (s ! ((r + 3) mod 4) ! c))"

section \<open>Keys\<close>

definition rc :: bytes where
  "rc = [0x01, 0x02, 0x04, 0x08, 0x10, 0x20, 0x40, 0x80, 0x1b, 0x36]"

text \<open>The column \<open>t\<close> for column \<open>j\<close> of round \<open>i\<close>, \<open>cols\<close> being the columns of the round so far.\<close>

definition key_t :: "matrix \<Rightarrow> u8 list list \<Rightarrow> nat \<Rightarrow> nat \<Rightarrow> nat \<Rightarrow> u8" where
  "key_t prev cols i j r =
     (if j = 0 then Sbox ! unat (prev ! ((r + 1) mod 4) ! 3) XOR (if r = 0 then rc ! (i - 1) else 0)
      else cols ! (j - 1) ! r)"

definition key_round :: "matrix \<Rightarrow> nat \<Rightarrow> matrix" where
  "key_round prev i =
     (let cols = fold (\<lambda>j cols. cols @ [map (\<lambda>r. prev ! r ! j XOR key_t prev cols i j r) [0..<4]]) [0..<4] []
      in tab (\<lambda>r c. cols ! c ! r))"

definition keyExpansion :: "bytes \<Rightarrow> matrix list" where
  "keyExpansion key = fold (\<lambda>i w. w @ [key_round (w ! (i - 1)) i]) [1..<11] [tab (\<lambda>r c. key ! (r + c * 4))]"

text \<open>Without a key the schedule is left as the memory has it.\<close>

definition aes_new :: "matrix list \<Rightarrow> bytes ptr \<Rightarrow> matrix list" where
  "aes_new memory key = (case key of None \<Rightarrow> memory | Some k \<Rightarrow> keyExpansion k)"

definition setKey :: "matrix list \<Rightarrow> bytes \<Rightarrow> matrix list" where
  "setKey w key = keyExpansion key"

section \<open>Encryption and decryption\<close>

definition aes_round :: "matrix list \<Rightarrow> nat \<Rightarrow> matrix \<Rightarrow> matrix" where
  "aes_round w i s =
     (let s1 = ShiftRows (SubBytes s); s2 = (if i \<noteq> 10 then MixColumns s1 else s1)
      in AddRoundKey s2 (w ! i))"

definition load :: "bytes \<Rightarrow> matrix" where
  "load input = tab (\<lambda>r c. input ! (c * 4 + r))"

definition unload :: "matrix \<Rightarrow> bytes" where
  "unload s = map (\<lambda>i. s ! (i mod 4) ! (i div 4)) [0..<16]"

definition cipher :: "matrix list \<Rightarrow> bytes \<Rightarrow> bytes" where
  "cipher w input = unload (fold (aes_round w) [1..<11] (AddRoundKey (load input) (w ! 0)))"

definition aes_inv_round :: "matrix list \<Rightarrow> nat \<Rightarrow> matrix \<Rightarrow> matrix" where
  "aes_inv_round w i s =
     (let s1 = AddRoundKey (InvSubBytes (InvShiftRows s)) (w ! i)
      in if i \<noteq> 0 then InvMixColumns s1 else s1)"

definition invcipher :: "matrix list \<Rightarrow> bytes \<Rightarrow> bytes" where
  "invcipher w input = unload (fold (aes_inv_round w) (rev [0..<10]) (AddRoundKey (load input) (w ! 10)))"

section \<open>The tables are inverse\<close>

lemma Sbox_inverse: "map (\<lambda>s. InvSbox ! unat s) Sbox = map word_of_nat [0..<256]"
  unfolding Sbox_def InvSbox_def by (simp add: upt_rec)


lemma length_Sbox [simp]: "length Sbox = 256"
  by (simp add: Sbox_def)

lemma map_word_nth: "unat x < n \<Longrightarrow> map word_of_nat [0..<n] ! unat x = (x :: 'a::len word)"
  by simp

lemma unat_u8_less: "unat (x :: u8) < 256"
  using unsigned_less [of x] by simp

lemma InvSbox_Sbox: "InvSbox ! unat (Sbox ! unat x) = x"
proof -
  have "map (\<lambda>s. InvSbox ! unat s) Sbox ! unat x = InvSbox ! unat (Sbox ! unat x)"
    by (rule nth_map) (simp only: length_Sbox unat_u8_less)
  then show ?thesis unfolding Sbox_inverse map_word_nth [OF unat_u8_less] by (rule sym)
qed

lemma Sbox_InvSbox: "Sbox ! unat (InvSbox ! unat x) = x"
proof -
  have "inj (\<lambda>x :: u8. Sbox ! unat x)" by (rule inj_on_inverseI [where g = "\<lambda>x. InvSbox ! unat x"]) (rule InvSbox_Sbox)
  then have "surj (\<lambda>x :: u8. Sbox ! unat x)" by (rule finite_UNIV_inj_surj [OF finite])
  from surjD [OF this, of x] obtain y :: u8 where "x = Sbox ! unat y" by blast
  then show ?thesis by (simp add: InvSbox_Sbox)
qed

section \<open>Inverse operations\<close>

lemma tab_nth [simp]: "r < 4 \<Longrightarrow> c < 4 \<Longrightarrow> tab f ! r ! c = f r c"
  by (simp add: tab_def)

lemma tab_cong: "(\<And>r c. r < 4 \<Longrightarrow> c < 4 \<Longrightarrow> f r c = g r c) \<Longrightarrow> tab f = tab g"
  by (simp add: tab_def)

text \<open>A state of the right shape is the table of its entries.\<close>

definition is_tab :: "matrix \<Rightarrow> bool" where
  "is_tab s \<longleftrightarrow> s = tab (\<lambda>r c. s ! r ! c)"

lemma is_tab_tab [simp]: "is_tab (tab f)"
  unfolding is_tab_def by (rule tab_cong) simp

lemma is_tab_ops [simp]:
  "is_tab (SubBytes s)" "is_tab (ShiftRows s)" "is_tab (MixColumns s)" "is_tab (AddRoundKey s k)"
  "is_tab (InvSubBytes s)" "is_tab (InvShiftRows s)" "is_tab (InvMixColumns s)" "is_tab (load i)"
  by (simp_all add: SubBytes_def ShiftRows_def MixColumns_def AddRoundKey_def InvSubBytes_def
      InvShiftRows_def InvMixColumns_def load_def)

lemma tab_eqI: "is_tab s \<Longrightarrow> (\<And>r c. r < 4 \<Longrightarrow> c < 4 \<Longrightarrow> f r c = s ! r ! c) \<Longrightarrow> tab f = s"
  unfolding is_tab_def by (erule ssubst, rule tab_cong) simp

lemma xor_cancel_left: "x XOR (x XOR y) = y" for x y :: "'a::len word"
  by (simp flip: xor.assoc)

lemmas xor_cancel = xor.assoc xor.commute xor.left_commute xor_cancel_left

lemma inverse_ops [simp]:
  "is_tab s \<Longrightarrow> AddRoundKey (AddRoundKey s k) k = s"
  "is_tab s \<Longrightarrow> InvSubBytes (SubBytes s) = s" "is_tab s \<Longrightarrow> SubBytes (InvSubBytes s) = s"
  by (simp_all add: AddRoundKey_def InvSubBytes_def SubBytes_def InvSbox_Sbox Sbox_InvSbox xor_cancel tab_eqI)

lemma less_4_cases: "r < (4 :: nat) \<Longrightarrow> r = 0 \<or> r = 1 \<or> r = 2 \<or> r = 3"
  by auto

lemma inverse_shift [simp]:
  "is_tab s \<Longrightarrow> InvShiftRows (ShiftRows s) = s" "is_tab s \<Longrightarrow> ShiftRows (InvShiftRows s) = s"
  unfolding InvShiftRows_def ShiftRows_def
  by (rule tab_eqI, assumption, drule less_4_cases, drule less_4_cases, elim disjE; simp add: numeral_2_eq_2 [symmetric] del: One_nat_def)+

section \<open>Columns as polynomials\<close>

lemma next_bw_xor: "next_bw (x XOR y) = next_bw x XOR next_bw y"
proof -
  have h: "(0x80 :: u8) = push_bit 7 1" by simp
  have t: "z AND 0x80 \<noteq> 0 \<longleftrightarrow> bit z 7" for z :: u8
    unfolding h by (metis bit_iff_and_push_bit_not_eq_0)
  have n: "next_bw z = push_bit 1 z XOR (if bit z 7 then 0x1b else 0)" for z
    using t [of z] by (simp add: next_bw_def)
  show ?thesis unfolding n push_bit_xor by (simp add: bit_xor_iff xor_cancel)
qed

lemma FFmul_simps:
  "FFmul 0x01 b = b"
  "FFmul 0x02 b = next_bw b"
  "FFmul 0x03 b = b XOR next_bw b"
  "FFmul 0x09 b = b XOR next_bw (next_bw (next_bw b))"
  "FFmul 0x0b b = b XOR next_bw b XOR next_bw (next_bw (next_bw b))"
  "FFmul 0x0d b = b XOR next_bw (next_bw b) XOR next_bw (next_bw (next_bw b))"
  "FFmul 0x0e b = next_bw b XOR next_bw (next_bw b) XOR next_bw (next_bw (next_bw b))"
  by (simp_all add: FFmul_def Let_def upt_rec xor.assoc)

lemma inverse_mix [simp]:
  "is_tab s \<Longrightarrow> InvMixColumns (MixColumns s) = s" "is_tab s \<Longrightarrow> MixColumns (InvMixColumns s) = s"
  unfolding InvMixColumns_def MixColumns_def
  by (rule tab_eqI, assumption, drule less_4_cases, elim disjE; simp add: FFmul_simps next_bw_xor xor_cancel numeral_2_eq_2 [symmetric] del: One_nat_def)+


section \<open>Blocks\<close>

lemma unload_load: "length b = 16 \<Longrightarrow> unload (load b) = b"
proof (rule nth_equalityI)
  fix i assume b: "length b = 16" and "i < length (unload (load b))"
  then show "unload (load b) ! i = b ! i" by (simp add: unload_def load_def) (simp only: div_mult_mod_eq)
qed (simp add: unload_def)

lemma load_unload: "is_tab s \<Longrightarrow> load (unload s) = s"
  unfolding load_def by (rule tab_eqI) (simp_all add: unload_def)

lemma length_unload [simp]: "length (unload s) = 16"
  by (simp add: unload_def)

text \<open>A round of decryption undoes the steps of two rounds of encryption.\<close>

lemma inv_round_step:
  assumes "is_tab s" and "i < 10"
  shows "aes_inv_round w i (ShiftRows (SubBytes (AddRoundKey s (w ! i)))) = (if i \<noteq> 0 then InvMixColumns s else s)"
  using assms by (simp add: aes_inv_round_def)

lemma inv_rounds:
  assumes "is_tab s" and "n \<le> 9"
  shows "\<exists>t. is_tab t \<and> fold (aes_round w) [1..<Suc n] (AddRoundKey s (w ! 0)) = AddRoundKey t (w ! n) \<and>
    fold (aes_inv_round w) (rev [0..<Suc n]) (ShiftRows (SubBytes (AddRoundKey t (w ! n)))) = s"
  using assms(2)
proof (induction n)
  case 0
  with assms(1) show ?case by (intro exI [of _ s]) (simp add: inv_round_step)
next
  case (Suc n)
  then obtain t where t: "is_tab t" "fold (aes_round w) [1..<Suc n] (AddRoundKey s (w ! 0)) = AddRoundKey t (w ! n)"
    "fold (aes_inv_round w) (rev [0..<Suc n]) (ShiftRows (SubBytes (AddRoundKey t (w ! n)))) = s" by auto
  let ?t = "MixColumns (ShiftRows (SubBytes (AddRoundKey t (w ! n))))"
  have up: "[1..<Suc (Suc n)] = [1..<Suc n] @ [Suc n]" "rev [0..<Suc (Suc n)] = Suc n # rev [0..<Suc n]" by simp_all
  have "aes_round w (Suc n) (AddRoundKey t (w ! n)) = AddRoundKey ?t (w ! Suc n)"
    using Suc.prems by (simp add: aes_round_def)
  then have "fold (aes_round w) [1..<Suc (Suc n)] (AddRoundKey s (w ! 0)) = AddRoundKey ?t (w ! Suc n)"
    unfolding up fold_append by (simp add: t(2) [unfolded One_nat_def] del: upt_Suc)
  moreover have "fold (aes_inv_round w) (rev [0..<Suc (Suc n)]) (ShiftRows (SubBytes (AddRoundKey ?t (w ! Suc n)))) = s"
    unfolding up using Suc.prems t(3) by (simp add: inv_round_step del: upt_Suc rev_append)
  ultimately show ?case by (intro exI [of _ ?t]) simp
qed

section \<open>Properties\<close>

text \<open>(C35) Decrypting an encrypted block gives the block back, whatever the key.\<close>

theorem aes_roundtrip:
  assumes "length input = 16"
  shows "invcipher w (cipher w input) = input"
proof -
  obtain t where t: "is_tab t" "fold (aes_round w) [1..<10] (AddRoundKey (load input) (w ! 0)) = AddRoundKey t (w ! 9)"
    "fold (aes_inv_round w) (rev [0..<10]) (ShiftRows (SubBytes (AddRoundKey t (w ! 9)))) = load input"
    using inv_rounds [of "load input" 9 w] by auto
  have "[1..<11] = [1..<10] @ [10]" by (simp add: upt_rec)
  then have "cipher w input = unload (AddRoundKey (ShiftRows (SubBytes (AddRoundKey t (w ! 9)))) (w ! 10))"
    unfolding cipher_def by (simp add: t(2) [unfolded One_nat_def] aes_round_def)
  then have "invcipher w (cipher w input) = unload (load input)"
    unfolding invcipher_def using t(3) by (simp add: load_unload)
  then show ?thesis using assms by (simp add: unload_load)
qed

theorem aes_roundtrip_witness:
  "invcipher (keyExpansion (replicate 16 3)) (cipher (keyExpansion (replicate 16 3)) (replicate 16 7)) = replicate 16 7"
  by (rule aes_roundtrip) simp

end
