(* ===== verification/Md5.thy ===== *)
theory Md5
  imports Tbox_Prelude
begin

text \<open>
  The MD5 digest of \<open>modules/crypto/md5.cpp\<close>: the transformation of a block, feeding data in
  pieces and the final padding. The length of a piece is a \<open>size_t\<close>, the counters and the index
  into the piece are \<open>uint32_t\<close>, and a loop that does not end is the result \<open>None\<close>.
\<close>

section \<open>Transforming a block\<close>

type_synonym chain = "u32 \<times> u32 \<times> u32 \<times> u32"

datatype md5_round = Md5FF | Md5GG | Md5HH | Md5II

text \<open>The macros \<open>F\<close>, \<open>G\<close>, \<open>H\<close>, \<open>I\<close> and \<open>ROTATE_LEFT\<close>.\<close>

fun round_fun :: "md5_round \<Rightarrow> u32 \<Rightarrow> u32 \<Rightarrow> u32 \<Rightarrow> u32" where
  "round_fun Md5FF x y z = (x AND y) OR (NOT x AND z)"
| "round_fun Md5GG x y z = (x AND z) OR (y AND NOT z)"
| "round_fun Md5HH x y z = x XOR y XOR z"
| "round_fun Md5II x y z = y XOR (x OR NOT z)"

definition ROTATE_LEFT :: "u32 \<Rightarrow> nat \<Rightarrow> u32" where
  "ROTATE_LEFT x n = push_bit n x OR drop_bit (32 - n) x"

text \<open>One step changes its first argument; the next one is called with the roles moved on by one,
  \<open>(a, b, c, d)\<close>, then \<open>(d, a, b, c)\<close> and so on.\<close>

definition md5_step :: "u32 list \<Rightarrow> md5_round \<times> nat \<times> nat \<times> u32 \<Rightarrow> chain \<Rightarrow> chain" where
  "md5_step xs op abcd =
     (case op of (f, k, s, ac) \<Rightarrow> case abcd of (a, b, c, d) \<Rightarrow>
        let a1 = a + (round_fun f b c d + xs ! k + ac) in (d, ROTATE_LEFT a1 s + b, b, c))"

definition md5_ops :: "(md5_round \<times> nat \<times> nat \<times> u32) list" where
  "md5_ops = [
     (Md5FF, 0, 7, 0xd76aa478), (Md5FF, 1, 12, 0xe8c7b756), (Md5FF, 2, 17, 0x242070db), (Md5FF, 3, 22, 0xc1bdceee),
     (Md5FF, 4, 7, 0xf57c0faf), (Md5FF, 5, 12, 0x4787c62a), (Md5FF, 6, 17, 0xa8304613), (Md5FF, 7, 22, 0xfd469501),
     (Md5FF, 8, 7, 0x698098d8), (Md5FF, 9, 12, 0x8b44f7af), (Md5FF, 10, 17, 0xffff5bb1), (Md5FF, 11, 22, 0x895cd7be),
     (Md5FF, 12, 7, 0x6b901122), (Md5FF, 13, 12, 0xfd987193), (Md5FF, 14, 17, 0xa679438e), (Md5FF, 15, 22, 0x49b40821),
     (Md5GG, 1, 5, 0xf61e2562), (Md5GG, 6, 9, 0xc040b340), (Md5GG, 11, 14, 0x265e5a51), (Md5GG, 0, 20, 0xe9b6c7aa),
     (Md5GG, 5, 5, 0xd62f105d), (Md5GG, 10, 9, 0x2441453), (Md5GG, 15, 14, 0xd8a1e681), (Md5GG, 4, 20, 0xe7d3fbc8),
     (Md5GG, 9, 5, 0x21e1cde6), (Md5GG, 14, 9, 0xc33707d6), (Md5GG, 3, 14, 0xf4d50d87), (Md5GG, 8, 20, 0x455a14ed),
     (Md5GG, 13, 5, 0xa9e3e905), (Md5GG, 2, 9, 0xfcefa3f8), (Md5GG, 7, 14, 0x676f02d9), (Md5GG, 12, 20, 0x8d2a4c8a),
     (Md5HH, 5, 4, 0xfffa3942), (Md5HH, 8, 11, 0x8771f681), (Md5HH, 11, 16, 0x6d9d6122), (Md5HH, 14, 23, 0xfde5380c),
     (Md5HH, 1, 4, 0xa4beea44), (Md5HH, 4, 11, 0x4bdecfa9), (Md5HH, 7, 16, 0xf6bb4b60), (Md5HH, 10, 23, 0xbebfbc70),
     (Md5HH, 13, 4, 0x289b7ec6), (Md5HH, 0, 11, 0xeaa127fa), (Md5HH, 3, 16, 0xd4ef3085), (Md5HH, 6, 23, 0x4881d05),
     (Md5HH, 9, 4, 0xd9d4d039), (Md5HH, 12, 11, 0xe6db99e5), (Md5HH, 15, 16, 0x1fa27cf8), (Md5HH, 2, 23, 0xc4ac5665),
     (Md5II, 0, 6, 0xf4292244), (Md5II, 7, 10, 0x432aff97), (Md5II, 14, 15, 0xab9423a7), (Md5II, 5, 21, 0xfc93a039),
     (Md5II, 12, 6, 0x655b59c3), (Md5II, 3, 10, 0x8f0ccc92), (Md5II, 10, 15, 0xffeff47d), (Md5II, 1, 21, 0x85845dd1),
     (Md5II, 8, 6, 0x6fa87e4f), (Md5II, 15, 10, 0xfe2ce6e0), (Md5II, 6, 15, 0xa3014314), (Md5II, 13, 21, 0x4e0811a1),
     (Md5II, 4, 6, 0xf7537e82), (Md5II, 11, 10, 0xbd3af235), (Md5II, 2, 15, 0x2ad7d2bb), (Md5II, 9, 21, 0xeb86d391)]"

definition md5_Encode :: "u32 list \<Rightarrow> bytes" where
  "md5_Encode ws = concat (map (\<lambda>w. [ucast (w AND 0xFF), ucast (drop_bit 8 w AND 0xFF),
     ucast (drop_bit 16 w AND 0xFF), ucast (drop_bit 24 w AND 0xFF)]) ws)"

text \<open>The words of a block, least significant byte first.\<close>

definition md5_Decode :: "bytes \<Rightarrow> u32 list" where
  "md5_Decode bs = map (\<lambda>i. ucast (bs ! (4 * i)) OR push_bit 8 (ucast (bs ! (4 * i + 1)))
     OR push_bit 16 (ucast (bs ! (4 * i + 2))) OR push_bit 24 (ucast (bs ! (4 * i + 3)))) [0..<length bs div 4]"

definition Transform :: "chain \<Rightarrow> bytes \<Rightarrow> chain" where
  "Transform st block =
     (let (a, b, c, d) = st; (a', b', c', d') = fold (md5_step (md5_Decode block)) md5_ops st
      in (a + a', b + b', c + c', d + d'))"

section \<open>The object\<close>

record md5 =
  count0 :: u32
  count1 :: u32
  md5_state :: chain
  md5_buffer :: bytes
  is_finished :: bool

text \<open>The constructor leaves the 64 bytes of \<open>buffer_\<close> as the memory has them.\<close>

definition md5_new :: "bytes \<Rightarrow> md5" where
  "md5_new memory = \<lparr>count0 = 0, count1 = 0, md5_state = (0x67452301, 0xEFCDAB89, 0x98BADCFE, 0x10325476),
     md5_buffer = memory, is_finished = False\<rparr>"

definition md5_count :: "usize \<Rightarrow> u32 \<times> u32 \<Rightarrow> u32 \<times> u32" where
  "md5_count len cc =
     (let (c0, c1) = cc;
          c0' = ucast (ucast c0 + push_bit 3 len);
          c1' = (if ucast c0' < push_bit 3 len then c1 + 1 else c1)
      in (c0', c1' + ucast (drop_bit 29 len)))"

text \<open>The loop \<open>for (i = partlen; i + 64 <= plain_text_len; i += 64)\<close>: the last \<open>i\<close> and the state.\<close>

partial_function (option) md5_blocks :: "bytes \<Rightarrow> usize \<Rightarrow> u32 \<Rightarrow> chain \<Rightarrow> (u32 \<times> chain) option" where
  "md5_blocks data len i st =
     (if ucast (i + 64) \<le> len then md5_blocks data len (i + 64) (Transform st (mem_slice data (unat i) 64))
      else Some (i, st))"

text \<open>\<open>update\<close> with all the bytes at the pointer; an access outside \<open>buffer_\<close> is \<open>OutOfRange\<close>.\<close>

definition md5_update :: "bytes ptr \<Rightarrow> md5 \<Rightarrow> (cxx_error + md5) option" where
  "md5_update text m =
     (case text of
        None \<Rightarrow> Some (Inl AssertFail)
      | Some data \<Rightarrow>
          if is_finished m then Some (Inl AssertFail)
          else
            let len = of_nat (length data) :: usize;
                index = drop_bit 3 (count0 m) AND 0x3F;
                partlen = 64 - index;
                (c0, c1) = md5_count len (count0 m, count1 m);
                m1 = m\<lparr>count0 := c0, count1 := c1\<rparr>
            in if ucast partlen \<le> len then
                 (case mem_write (md5_buffer m) (unat index) (take (unat partlen) data) of
                    None \<Rightarrow> Some (Inl OutOfRange)
                  | Some b \<Rightarrow>
                      (case md5_blocks data len partlen (Transform (md5_state m) b) of
                         None \<Rightarrow> None
                       | Some (i, st) \<Rightarrow>
                           (case mem_write b 0 (drop (unat i) data) of
                              None \<Rightarrow> Some (Inl OutOfRange)
                            | Some b' \<Rightarrow> Some (Inr (m1\<lparr>md5_state := st, md5_buffer := b'\<rparr>)))))
               else
                 (case mem_write (md5_buffer m) (unat index) data of
                    None \<Rightarrow> Some (Inl OutOfRange)
                  | Some b' \<Rightarrow> Some (Inr (m1\<lparr>md5_buffer := b'\<rparr>))))"

definition PADDING :: bytes where
  "PADDING = 0x80 # replicate 63 0"

text \<open>\<open>finish\<close> with a valid pointer for the 16 bytes of the digest.\<close>

definition md5_finish :: "md5 \<Rightarrow> (cxx_error + bytes \<times> md5) option" where
  "md5_finish m =
     (let index = drop_bit 3 (count0 m) AND 0x3F;
          padlen = (if index < 56 then 56 - index else 120 - index);
          bits = md5_Encode [count0 m, count1 m]
      in case md5_update (Some (take (unat padlen) PADDING)) m of
           None \<Rightarrow> None
         | Some (Inl e) \<Rightarrow> Some (Inl e)
         | Some (Inr m1) \<Rightarrow>
             (case md5_update (Some bits) m1 of
                None \<Rightarrow> None
              | Some (Inl e) \<Rightarrow> Some (Inl e)
              | Some (Inr m2) \<Rightarrow>
                  (case md5_state m2 of (a, b, c, d) \<Rightarrow>
                     Some (Inr (md5_Encode [a, b, c, d], m2\<lparr>is_finished := True\<rparr>)))))"

section \<open>The reference\<close>

text \<open>Whole blocks of a message are absorbed; the rest waits.\<close>

function absorb :: "chain \<Rightarrow> bytes \<Rightarrow> chain" where
  "absorb st msg = (if length msg < 64 then st else absorb (Transform st (take 64 msg)) (drop 64 msg))"
  by auto
termination by (relation "measure (\<lambda>(st, msg). length msg)") auto

declare absorb.simps [simp del]

definition waiting :: "bytes \<Rightarrow> bytes" where
  "waiting msg = drop (64 * (length msg div 64)) msg"

definition padded :: "bytes \<Rightarrow> bytes" where
  "padded msg =
     (let r = length msg mod 64; z = (if r < 56 then 55 - r else 119 - r); n = 8 * length msg
      in msg @ 0x80 # replicate z 0 @ md5_Encode [of_nat n, of_nat (n div 4294967296)])"

definition md5_ref :: "bytes \<Rightarrow> bytes" where
  "md5_ref msg =
     (case absorb (0x67452301, 0xEFCDAB89, 0x98BADCFE, 0x10325476) (padded msg) of
        (a, b, c, d) \<Rightarrow> md5_Encode [a, b, c, d])"

lemma absorb_short: "length msg < 64 \<Longrightarrow> absorb st msg = st"
  by (subst absorb.simps) simp

lemma absorb_block: "length b = 64 \<Longrightarrow> absorb st (b @ msg) = absorb (Transform st b) msg"
  by (subst absorb.simps) simp

lemma waiting_short: "length msg < 64 \<Longrightarrow> waiting msg = msg"
  by (simp add: waiting_def)

lemma waiting_block: "length b = 64 \<Longrightarrow> waiting (b @ msg) = waiting msg"
proof -
  have "(64 + length msg) div 64 = length msg div 64 + 1" by simp
  then show "length b = 64 \<Longrightarrow> waiting (b @ msg) = waiting msg" by (simp add: waiting_def)
qed

lemma length_waiting: "length (waiting msg) = length msg mod 64"
  by (simp add: waiting_def minus_mult_div_eq_mod)

lemma absorb_append: "absorb st (xs @ ys) = absorb (absorb st xs) (waiting xs @ ys)"
proof (induction st xs rule: absorb.induct)
  case (1 st msg)
  show ?case
  proof (cases "length msg < 64")
    case False
    then have s: "msg = take 64 msg @ drop 64 msg" "length (take 64 msg) = 64" by simp_all
    have "absorb st (msg @ ys) = absorb (Transform st (take 64 msg)) (drop 64 msg @ ys)"
      by (subst s(1)) (simp only: append.assoc absorb_block [OF s(2)])
    moreover have "waiting msg = waiting (drop 64 msg)"
      by (subst s(1)) (rule waiting_block [OF s(2)])
    moreover have "absorb st msg = absorb (Transform st (take 64 msg)) (drop 64 msg)"
      by (subst s(1)) (rule absorb_block [OF s(2)])
    ultimately show ?thesis using 1 [OF False] by simp
  qed (simp add: absorb_short waiting_short)
qed

lemma waiting_append: "waiting (xs @ ys) = waiting (waiting xs @ ys)"
proof (induction xs rule: measure_induct_rule [where f = length])
  case (less xs)
  show ?case
  proof (cases "length xs < 64")
    case False
    then have s: "xs = take 64 xs @ drop 64 xs" "length (take 64 xs) = 64" by simp_all
    have "waiting (xs @ ys) = waiting (drop 64 xs @ ys)"
      by (subst s(1)) (simp only: append.assoc waiting_block [OF s(2)])
    moreover have "waiting xs = waiting (drop 64 xs)"
      by (subst s(1)) (rule waiting_block [OF s(2)])
    ultimately show ?thesis using less [of "drop 64 xs"] False by simp
  qed (simp add: waiting_short)
qed


section \<open>Counters\<close>

text \<open>The two counters hold the number \<open>8 * n\<close> of bits.\<close>

definition counts :: "nat \<Rightarrow> u32 \<Rightarrow> u32 \<Rightarrow> bool" where
  "counts n c0 c1 \<longleftrightarrow> c0 = of_nat (8 * n) \<and> c1 = of_nat (8 * n div 4294967296)"

lemma counts_new: "counts 0 0 0"
  by (simp add: counts_def)

lemma unat_u32: "unat (w :: u32) < 4294967296"
  using unsigned_less [of w] by simp

lemma unat_u32_of_nat: "unat (of_nat n :: u32) = n mod 4294967296"
  by (simp add: unat_of_nat)

lemma push_3: "n < 2305843009213693952 \<Longrightarrow> unat (push_bit 3 (of_nat n :: usize)) = 8 * n"
proof -
  assume n: "n < 2305843009213693952"
  have "push_bit 3 (of_nat n :: usize) = of_nat (8 * n)" by (simp add: push_bit_eq_mult mult.commute)
  then show ?thesis using n by (simp only: unat_of_nat_u64)
qed

lemma ucast_of_nat_32: "(ucast (of_nat n :: usize) :: u32) = of_nat n"
proof -
  have "n mod 18446744073709551616 mod 4294967296 = n mod (4294967296 :: nat)"
    by (rule mod_mod_cancel) simp
  then show ?thesis
    by (intro word_unat_eq_iff [THEN iffD2]) (simp add: unsigned_ucast_eq take_bit_eq_mod unat_of_nat)
qed

lemma count0_update:
  assumes "k < 2305843009213693952"
  shows "(ucast (ucast c0 + push_bit 3 (of_nat k :: usize)) :: u32) = c0 + of_nat (8 * k)"
proof -
  have p: "push_bit 3 (of_nat k :: usize) = of_nat (8 * k)" by (simp add: push_bit_eq_mult mult.commute)
  have "(ucast c0 :: usize) = of_nat (unat c0)" by simp
  then have "(ucast c0 + push_bit 3 (of_nat k :: usize)) = (of_nat (unat c0 + 8 * k) :: usize)"
    unfolding p by simp
  then have "(ucast (ucast c0 + push_bit 3 (of_nat k :: usize)) :: u32) = ucast (of_nat (unat c0 + 8 * k) :: usize)" by simp
  also have "\<dots> = (of_nat (unat c0 + 8 * k) :: u32)"
    by (rule ucast_of_nat_32)
  finally show ?thesis by simp
qed


text \<open>A carry out of the low counter shows in the comparison with the bits of a piece, as long as
  these fit into 32 bits.\<close>

lemma carry_test:
  fixes a b m :: nat
  assumes "b < m" and "a < m"
  shows "(a + b) mod m < b \<longleftrightarrow> m \<le> a + b"
proof (cases "m \<le> a + b")
  case True
  then have "(a + b) mod m = (a + b - m) mod m" by (rule le_mod_geq)
  also have "\<dots> = a + b - m" using assms by (intro mod_less) linarith
  finally show ?thesis using True assms by linarith
next
  case False
  then have "(a + b) mod m = a + b" by (intro mod_less) linarith
  then show ?thesis using False by linarith
qed

lemma div_carry:
  fixes a b m :: nat
  assumes "0 < m" and "b < m"
  shows "(a + b) div m = a div m + (if m \<le> a mod m + b then 1 else 0)"
proof -
  have e: "a + b = (a mod m + b) + a div m * m" using div_mult_mod_eq [of a m] by linarith
  have "(a + b) div m = a div m + (a mod m + b) div m"
    by (subst e, rule div_mult_self1) (use assms(1) in simp)
  moreover have "(a mod m + b) div m = (if m \<le> a mod m + b then 1 else 0)"
  proof (cases "m \<le> a mod m + b")
    case True
    moreover have "a mod m + b < m + m" using assms(2) mod_less_divisor [OF assms(1), of a] by linarith
    ultimately have "(a mod m + b) div m = Suc 0" by (intro div_nat_eqI) simp_all
    with True show ?thesis by simp
  qed simp
  ultimately show ?thesis by simp
qed

lemma drop_29: "k < 18446744073709551616 \<Longrightarrow> drop_bit 29 (of_nat k :: usize) = of_nat (k div 536870912)"
proof -
  assume k: "k < 18446744073709551616"
  have "unat (drop_bit 29 (of_nat k :: usize)) = k div 536870912"
    unfolding unat_drop_bit_eq unat_of_nat_u64 [OF k] by (simp add: drop_bit_eq_div)
  then show ?thesis by (rule word_of_unat)
qed

lemma md5_count_short:
  assumes "k < 536870912" and "counts n c0 c1"
  shows "md5_count (of_nat k) (c0, c1) = (of_nat (8 * (n + k)), of_nat (8 * (n + k) div 4294967296))"
proof -
  let ?m = "4294967296 :: nat"
  have c0': "(ucast (ucast c0 + push_bit 3 (of_nat k :: usize)) :: u32) = of_nat (8 * (n + k))"
    using assms by (subst count0_update) (simp_all add: counts_def distrib_left)
  have u: "unat (push_bit 3 (of_nat k :: usize)) = 8 * k" using assms by (intro push_3) simp
  have "unat (of_nat (8 * (n + k)) :: u32) = (8 * n mod ?m + 8 * k) mod ?m"
    unfolding unat_u32_of_nat by (simp add: distrib_left mod_add_left_eq)
  then have less: "(ucast (of_nat (8 * (n + k)) :: u32) < push_bit 3 (of_nat k :: usize)) = (?m \<le> 8 * n mod ?m + 8 * k)"
    unfolding word_less_nat_alt u using assms carry_test [of "8 * k" ?m "8 * n mod ?m"]
    by (simp add: unsigned_ucast_eq take_bit_eq_mod)
  have d: "drop_bit 29 (of_nat k :: usize) = 0" using assms by (subst drop_29) simp_all
  have "8 * (n + k) div ?m = 8 * n div ?m + (if ?m \<le> 8 * n mod ?m + 8 * k then 1 else 0)"
    using assms div_carry [of ?m "8 * k" "8 * n"] by (simp add: distrib_left)
  then have "(if ucast (of_nat (8 * (n + k)) :: u32) < push_bit 3 (of_nat k :: usize) then c1 + 1 else c1) =
      of_nat (8 * (n + k) div ?m)"
    unfolding less using assms(2) by (simp add: counts_def)
  then show ?thesis unfolding md5_count_def Let_def prod.case c0' d by simp
qed


section \<open>Feeding a piece\<close>

lemma index_of:
  assumes "counts n c0 c1"
  shows "drop_bit 3 c0 AND 0x3F = of_nat (n mod 64)"
proof -
  have h: "(0x3F :: u32) = mask 6" by (simp add: mask_eq_exp_minus_1)
  have c: "c0 = of_nat (8 * n)" using assms unfolding counts_def by (rule conjunct1)
  have "unat (drop_bit 3 c0) = drop_bit 3 (unat c0)" by (rule unat_drop_bit_eq)
  also have "\<dots> = 8 * n mod 4294967296 div 8"
    unfolding c unat_u32_of_nat by (simp add: drop_bit_eq_div)
  also have "\<dots> = n mod 536870912"
    using mult_mod_right [of 8 n 536870912] by simp
  finally have d: "unat (drop_bit 3 c0) = n mod 536870912" .
  have "unat (drop_bit 3 c0 AND 0x3F) = unat (drop_bit 3 c0) mod 64"
    unfolding h by (simp add: unsigned_take_bit_eq flip: take_bit_eq_mask) (simp add: take_bit_eq_mod)
  also have "\<dots> = n mod 64" unfolding d by (rule mod_mod_cancel) simp
  finally show ?thesis by (rule word_of_unat)
qed

lemma md5_blocks_spec:
  assumes "length data < 4294967232" and "i \<le> length data"
  shows "md5_blocks data (of_nat (length data)) (of_nat i) st =
    Some (of_nat (i + 64 * ((length data - i) div 64)), absorb st (drop i data))"
  using assms(2)
proof (induction "length data - i" arbitrary: i st rule: less_induct)
  case less
  have u: "unat (of_nat i :: u32) = i" "unat (of_nat (i + 64) :: u32) = i + 64"
    using less.prems assms(1) by (simp_all add: unat_u32_of_nat del: of_nat_add)
  have "unat (ucast (of_nat (i + 64) :: u32) :: usize) = i + 64"
    using u(2) less.prems assms(1) by (simp add: unsigned_ucast_eq take_bit_eq_mod del: of_nat_add)
  then have test: "(ucast (of_nat i + 64 :: u32) \<le> (of_nat (length data) :: usize)) = (i + 64 \<le> length data)"
    using assms(1) by (simp add: word_le_nat_alt add.commute)
  show ?case
  proof (cases "i + 64 \<le> length data")
    case True
    let ?st = "Transform st (take 64 (drop i data))"
    have "md5_blocks data (of_nat (length data)) (of_nat i) st = md5_blocks data (of_nat (length data)) (of_nat (i + 64)) ?st"
      using True u(1) by (subst md5_blocks.simps) (simp add: test mem_slice_def add.commute)
    also have "\<dots> = Some (of_nat (i + 64 + 64 * ((length data - (i + 64)) div 64)), absorb ?st (drop (i + 64) data))"
      using True by (intro less.hyps) simp_all
    also have "i + 64 + 64 * ((length data - (i + 64)) div 64) = i + 64 * ((length data - i) div 64)"
    proof -
      have "length data - i = 64 + (length data - (i + 64))" using True by simp
      then have "(length data - i) div 64 = (64 + (length data - (i + 64))) div 64" by (rule arg_cong)
      also have "\<dots> = 1 + (length data - (i + 64)) div 64" by simp
      finally show ?thesis by simp
    qed
    also have "absorb ?st (drop (i + 64) data) = absorb st (drop i data)"
    proof -
      have "\<not> length (drop i data) < 64" using True by simp
      then have "absorb st (drop i data) = absorb ?st (drop 64 (drop i data))"
        by (subst absorb.simps) (simp only: if_False)
      then show ?thesis by (simp only: drop_drop add.commute)
    qed
    finally show ?thesis .
  next
    case False
    then have "(length data - i) div 64 = 0" by simp
    with False show ?thesis by (subst md5_blocks.simps) (simp add: test absorb_short)
  qed
qed

text \<open>What the object holds after the message \<open>msg\<close>.\<close>

definition md5_holds :: "chain \<Rightarrow> bytes \<Rightarrow> md5 \<Rightarrow> bool" where
  "md5_holds iv msg m \<longleftrightarrow> counts (length msg) (count0 m) (count1 m) \<and> md5_state m = absorb iv msg \<and>
     length (md5_buffer m) = 64 \<and> take (length msg mod 64) (md5_buffer m) = waiting msg \<and> \<not> is_finished m"

lemma md5_holdsI:
  "counts (length msg) c0 c1 \<Longrightarrow> st = absorb iv msg \<Longrightarrow> length buf = 64 \<Longrightarrow>
   take (length msg mod 64) buf = waiting msg \<Longrightarrow> \<not> is_finished m \<Longrightarrow>
   md5_holds iv msg (m\<lparr>count0 := c0, count1 := c1, md5_state := st, md5_buffer := buf\<rparr>)"
  unfolding md5_holds_def by (cases m; intro conjI; simp only: md5.update_convs md5.select_convs not_False_eq_True)

lemma md5_update_spec:
  assumes "md5_holds iv msg m" and "length data < 536870912"
  shows "\<exists>m'. md5_update (Some data) m = Some (Inr m') \<and> md5_holds iv (msg @ data) m'"
proof -
  let ?r = "length msg mod 64" and ?len = "of_nat (length data) :: usize"
  have inv: "counts (length msg) (count0 m) (count1 m)" "md5_state m = absorb iv msg"
    "length (md5_buffer m) = 64" "take ?r (md5_buffer m) = waiting msg" "\<not> is_finished m"
    using assms(1) by (simp_all add: md5_holds_def)
  obtain c0 c1 where cc: "md5_count ?len (count0 m, count1 m) = (c0, c1)" "counts (length (msg @ data)) c0 c1"
    using md5_count_short [OF assms(2) inv(1)] by (simp add: counts_def)
  have r: "?r < 64" by simp
  have index: "drop_bit 3 (count0 m) AND 0x3F = of_nat ?r" using index_of [OF inv(1)] .
  have ui: "unat (of_nat ?r :: u32) = ?r" by (simp add: unat_u32_of_nat)
  have le: "of_nat ?r \<le> (64 :: u32)" unfolding word_le_nat_alt ui by simp
  have "unat (64 - of_nat ?r :: u32) = unat (64 :: u32) - unat (of_nat ?r :: u32)" by (rule unat_sub [OF le])
  also have "\<dots> = 64 - ?r" unfolding ui by simp
  finally have "unat (64 - of_nat ?r :: u32) = 64 - ?r" .
  then have part: "64 - of_nat ?r = (of_nat (64 - ?r) :: u32)" by (rule word_of_unat)
  have up: "unat (of_nat (64 - ?r) :: u32) = 64 - ?r"
    unfolding unat_u32_of_nat by (rule mod_less) simp
  have "unat (ucast (of_nat (64 - ?r) :: u32) :: usize) = 64 - ?r"
    unfolding unsigned_ucast_eq up by (simp add: take_bit_eq_mod)
  then have test: "(ucast (of_nat (64 - ?r) :: u32) \<le> ?len) = (64 - ?r \<le> length data)"
    using assms(2) by (simp add: word_le_nat_alt)
  let ?m1 = "m\<lparr>count0 := c0, count1 := c1\<rparr>"
  show ?thesis
  proof (cases "64 - ?r \<le> length data")
    case False
    let ?b = "take ?r (md5_buffer m) @ data @ drop (?r + length data) (md5_buffer m)"
    have w: "mem_write (md5_buffer m) ?r data = Some ?b" using False inv(3) by (simp add: mem_write_def)
    have u: "md5_update (Some data) m = Some (Inr (?m1\<lparr>md5_buffer := ?b\<rparr>))"
      unfolding md5_update_def Let_def option.case index part ui cc(1) prod.case test
      using False inv(5) by (simp only: if_False w option.case)
    have short: "length (waiting msg @ data) < 64" using False by (simp add: length_waiting)
    have wait: "waiting (msg @ data) = waiting msg @ data"
      using waiting_short [OF short] by (simp add: waiting_append [of msg])
    then have len: "length (msg @ data) mod 64 = ?r + length data"
      by (metis length_waiting length_append)
    have "md5_holds iv (msg @ data) (?m1\<lparr>md5_buffer := ?b\<rparr>)"
      unfolding md5_holds_def len wait using inv cc(2) False absorb_short [OF short]
      by (simp add: absorb_append [of iv msg] length_waiting)
    with u show ?thesis by blast
  next
    case True
    let ?i = "64 - ?r" and ?b = "waiting msg @ take (64 - ?r) data"
    let ?i' = "?i + 64 * ((length data - ?i) div 64)" and ?rest = "waiting (drop (64 - ?r) data)"
    let ?st = "absorb (Transform (absorb iv msg) ?b) (drop ?i data)"
    have lb: "length ?b = 64" using True by (simp add: length_waiting)
    have w: "mem_write (md5_buffer m) ?r (take ?i data) = Some ?b"
      using True inv(3,4) by (simp add: mem_write_def)
    have bl: "md5_blocks data ?len (of_nat ?i) (Transform (absorb iv msg) ?b) = Some (of_nat ?i', ?st)"
      using True assms(2) by (intro md5_blocks_spec) simp_all
    have le: "?i' \<le> length data" using True by (metis add_le_imp_le_right add_le_mono1 div_times_less_eq_dividend le_add_diff_inverse mult.commute nat_add_left_cancel_le)
    then have ui': "unat (of_nat ?i' :: u32) = ?i'"
      using assms(2) unfolding unat_u32_of_nat by (intro mod_less) simp
    have rest: "drop ?i' data = ?rest" by (simp add: waiting_def add.commute)
    have "length ?rest < 64" by (simp add: length_waiting)
    then have w2: "mem_write ?b 0 ?rest = Some (?rest @ drop (length ?rest) ?b)"
      using lb by (simp add: mem_write_def)
    let ?m' = "?m1\<lparr>md5_state := ?st, md5_buffer := ?rest @ drop (length ?rest) ?b\<rparr>"
    have u: "md5_update (Some data) m = Some (Inr ?m')"
      unfolding md5_update_def Let_def option.case index part up ui cc(1) prod.case test inv(2)
      using True inv(5) by (simp only: if_True if_False w option.case bl prod.case ui' rest w2)
    have split: "waiting msg @ data = ?b @ drop ?i data" by simp
    have wait: "waiting (msg @ data) = ?rest"
      unfolding waiting_append [of msg] split by (rule waiting_block [OF lb])
    then have len: "length (msg @ data) mod 64 = length ?rest" by (metis length_waiting)
    have st: "absorb iv (msg @ data) = ?st"
      unfolding absorb_append [of iv msg] split by (rule absorb_block [OF lb])
    have "length (xs @ drop (length xs) ys) = 64" if "length xs < 64" "length ys = 64" for xs ys :: bytes
      using that by simp
    from this [OF \<open>length ?rest < 64\<close> lb] have lr: "length (?rest @ drop (length ?rest) ?b) = 64" .
    have "md5_holds iv (msg @ data) ?m'"
    proof (rule md5_holdsI)
      show "take (length (msg @ data) mod 64) (?rest @ drop (length ?rest) ?b) = waiting (msg @ data)"
        unfolding len wait by (simp only: take_append take_all) simp
    qed (fact cc(2) st [symmetric] lr inv(5))+
    with u show ?thesis by blast
  qed
qed


section \<open>Any number of pieces\<close>

fun md5_updates :: "bytes list \<Rightarrow> md5 \<Rightarrow> (cxx_error + md5) option" where
  "md5_updates [] m = Some (Inr m)"
| "md5_updates (p # ps) m =
     (case md5_update (Some p) m of Some (Inr m') \<Rightarrow> md5_updates ps m' | r \<Rightarrow> r)"

lemma md5_updates_spec:
  assumes "md5_holds iv msg m" and "\<forall>p \<in> set ps. length p < 536870912"
  shows "\<exists>m'. md5_updates ps m = Some (Inr m') \<and> md5_holds iv (msg @ concat ps) m'"
  using assms
proof (induction ps arbitrary: msg m)
  case (Cons p ps)
  from md5_update_spec [OF Cons.prems(1), of p] Cons.prems(2) obtain m1 where
    m1: "md5_update (Some p) m = Some (Inr m1)" "md5_holds iv (msg @ p) m1" by auto
  from Cons.IH [OF m1(2)] Cons.prems(2) m1(1) show ?case by auto
qed simp

lemma length_md5_Encode [simp]: "length (md5_Encode ws) = 4 * length ws"
  by (induction ws) (simp_all add: md5_Encode_def)

lemma md5_finish_spec:
  assumes "md5_holds (0x67452301, 0xEFCDAB89, 0x98BADCFE, 0x10325476) msg m"
  shows "\<exists>m'. md5_finish m = Some (Inr (md5_ref msg, m')) \<and> is_finished m'"
proof -
  let ?iv = "(0x67452301, 0xEFCDAB89, 0x98BADCFE, 0x10325476) :: chain" and ?r = "length msg mod 64"
  let ?pad = "if ?r < 56 then 56 - ?r else 120 - ?r"
  let ?p = "take ?pad PADDING" and ?bits = "md5_Encode [count0 m, count1 m]"
  have inv: "counts (length msg) (count0 m) (count1 m)" using assms by (simp add: md5_holds_def)
  have ui: "unat (of_nat n :: u32) = n" if "n < 120" for n using that unfolding unat_u32_of_nat by simp
  have index: "drop_bit 3 (count0 m) AND 0x3F = of_nat ?r" by (rule index_of [OF inv])
  have r: "unat (of_nat ?r :: u32) = ?r" by (simp add: ui)
  have sub: "of_nat ?r \<le> w \<Longrightarrow> unat (w - of_nat ?r) = unat w - ?r" for w :: u32
    using unat_sub [of "of_nat ?r" w] unfolding r .
  have pad: "unat (if of_nat ?r < (56 :: u32) then 56 - of_nat ?r else 120 - of_nat ?r :: u32) = ?pad"
  proof (cases "?r < 56")
    case True
    then have "of_nat ?r < (56 :: u32)" "of_nat ?r \<le> (56 :: u32)"
      unfolding word_less_nat_alt word_le_nat_alt r by simp_all
    with True sub [of 56] show ?thesis by (simp only: if_True) simp
  next
    case False
    then have "\<not> of_nat ?r < (56 :: u32)" "of_nat ?r \<le> (120 :: u32)"
      unfolding word_less_nat_alt word_le_nat_alt r by (simp_all add: less_imp_le_nat [OF less_le_trans])
    with False sub [of 120] show ?thesis by (simp only: if_False) simp
  qed
  have lp: "length ?p < 536870912" "length ?bits < 536870912" by (simp_all add: PADDING_def)
  from md5_update_spec [OF assms lp(1)] obtain m1 where
    m1: "md5_update (Some ?p) m = Some (Inr m1)" "md5_holds ?iv (msg @ ?p) m1" by blast
  from md5_update_spec [OF m1(2) lp(2)] obtain m2 where
    m2: "md5_update (Some ?bits) m1 = Some (Inr m2)" "md5_holds ?iv ((msg @ ?p) @ ?bits) m2" by blast
  have "?p = 0x80 # replicate (if ?r < 56 then 55 - ?r else 119 - ?r) 0"
  proof -
    have "take n PADDING = 0x80 # replicate (n - 1) 0" if "1 \<le> n" "n \<le> 64" for n
      using that by (cases n) (simp_all add: PADDING_def min_def)
    from this [of ?pad] show ?thesis by (cases "?r < 56") simp_all
  qed
  then have "(msg @ ?p) @ ?bits = padded msg"
    using inv by (simp add: padded_def Let_def counts_def)
  then have st: "md5_state m2 = absorb ?iv (padded msg)" using m2(2) by (simp add: md5_holds_def)
  obtain a b c d where abcd: "absorb ?iv (padded msg) = (a, b, c, d)" by (metis prod_cases4)
  have "md5_finish m = Some (Inr (md5_ref msg, m2\<lparr>is_finished := True\<rparr>))"
    unfolding md5_finish_def Let_def index pad m1(1) option.case sum.case m2(1) st abcd prod.case md5_ref_def ..
  then show ?thesis by simp
qed

section \<open>Properties\<close>

text \<open>(C34) However a message is cut into pieces below 512 MB, feeding the pieces and finishing gives the
  digest of the whole: the state after the blocks of the message padded with a one bit, zeros and
  its length in bits. No call fails, no loop runs on, and the object is finished.\<close>

theorem md5_pieces:
  assumes "length memory = 64" and "\<forall>p \<in> set ps. length p < 536870912"
  shows "\<exists>m m'. md5_updates ps (md5_new memory) = Some (Inr m) \<and>
    md5_finish m = Some (Inr (md5_ref (concat ps), m')) \<and> is_finished m'"
proof -
  have "md5_holds (0x67452301, 0xEFCDAB89, 0x98BADCFE, 0x10325476) [] (md5_new memory)"
    using assms(1) by (simp add: md5_holds_def md5_new_def counts_def absorb_short waiting_short)
  from md5_updates_spec [OF this assms(2)] obtain m where
    "md5_updates ps (md5_new memory) = Some (Inr m)"
    "md5_holds (0x67452301, 0xEFCDAB89, 0x98BADCFE, 0x10325476) (concat ps) m" by auto
  with md5_finish_spec [of "concat ps" m] show ?thesis by blast
qed

theorem md5_pieces_witness:
  "\<exists>m m'. md5_updates [[1, 2], [], [3]] (md5_new (replicate 64 0)) = Some (Inr m) \<and>
    md5_finish m = Some (Inr (md5_ref [1, 2, 3], m')) \<and> is_finished m'"
  using md5_pieces [of "replicate 64 0" "[[1, 2], [], [3]]"] by simp

text \<open>A single piece of 512 MB or more makes the length wrong: the comparison that detects a carry
  is always true for it, so the high counter of a new object is one too large. A piece of 4 GB
  or more is never finished: the 32-bit index cannot reach its length.\<close>

theorem md5_long_piece:
  assumes "536870912 \<le> k" and "k < 2305843009213693952"
  shows "md5_count (of_nat k) (0, 0) = (of_nat (8 * k), of_nat (8 * k div 4294967296) + 1) \<and>
    (4294967296 \<le> k \<longrightarrow> length data = k \<longrightarrow> md5_blocks data (of_nat k) i st = None)"
proof (intro conjI impI)
  have c0: "(ucast (ucast (0 :: u32) + push_bit 3 (of_nat k :: usize)) :: u32) = of_nat (8 * k)"
    using count0_update [OF assms(2), of 0] by simp
  have "unat (of_nat (8 * k) :: u32) < 4294967296" by (rule unat_u32)
  then have "(ucast (of_nat (8 * k) :: u32) < push_bit 3 (of_nat k :: usize))"
    unfolding word_less_nat_alt push_3 [OF assms(2)] using assms(1) by (simp add: unsigned_ucast_eq take_bit_eq_mod)
  moreover have "ucast (drop_bit 29 (of_nat k :: usize)) = (of_nat (8 * k div 4294967296) :: u32)"
    using assms(2) by (subst drop_29) (simp_all add: ucast_of_nat_32)
  ultimately show "md5_count (of_nat k) (0, 0) = (of_nat (8 * k), of_nat (8 * k div 4294967296) + 1)"
    unfolding md5_count_def Let_def prod.case c0 by simp
next
  assume k: "4294967296 \<le> k"
  have test: "ucast (i + 64 :: u32) \<le> (of_nat k :: usize)" for i
  proof -
    have "unat (ucast (i + 64 :: u32) :: usize) < 4294967296"
      using unat_u32 [of "i + 64"] by (simp add: unsigned_ucast_eq take_bit_eq_mod)
    then show ?thesis
      unfolding word_le_nat_alt using k assms(2) by (simp add: unat_of_nat)
  qed
  have "len = of_nat k \<longrightarrow> False" if "md5_blocks data len i st = Some r" for data len i st r
    using that
  proof (rule md5_blocks.raw_induct [where P = "\<lambda>data len i st r. len = of_nat k \<longrightarrow> False", rotated])
    fix f :: "bytes \<Rightarrow> usize \<Rightarrow> u32 \<Rightarrow> chain \<Rightarrow> (u32 \<times> chain) option" and data len i st r
    assume IH: "\<And>data len i st r. f data len i st = Some r \<Longrightarrow> len = of_nat k \<longrightarrow> False"
      and eq: "(if ucast (i + 64 :: u32) \<le> len then f data len (i + 64) (Transform st (mem_slice data (unat i) 64))
        else Some (i, st)) = Some r"
    show "len = of_nat k \<longrightarrow> False"
    proof
      assume l: "len = of_nat k"
      from eq have "f data len (i + 64) (Transform st (mem_slice data (unat i) 64)) = Some r"
        by (simp only: l test if_True)
      with IH l show False by blast
    qed
  qed
  then show "md5_blocks data (of_nat k) i st = None" by (metis not_Some_eq)
qed

theorem md5_long_piece_witness:
  "md5_count (of_nat (536870912 :: nat)) (0, 0) = (0, 2)"
  using md5_long_piece [of 536870912] by simp

end
