(* ===== verification/Flow_Action.thy ===== *)
theory Flow_Action
  imports Tbox_Prelude "HOL-Library.Monad_Syntax"
begin

text \<open>
  The actions of \<open>modules/flow\<close>: \<open>Action\<close> (action.cpp), \<open>AssembleAction\<close> and
  \<open>SerialAssembleAction\<close> (actions/assemble_action.cpp), the composites built on them and the
  leaves \<open>FunctionAction\<close>, \<open>SleepAction\<close>, \<open>DummyAction\<close> and \<open>EventAction\<close>. Objects live in a
  store and refer to each other by address, as the pointers of the code do; a virtual method is a
  case distinction over the class. The result \<open>None\<close> is a failed assertion, a pointer to an
  object that does not exist, a null pointer, or too little fuel for the depth of the tree.
  A callback that an action hands to its parent is queued with \<open>runNext\<close> as a task naming the
  handler and its object. Callbacks of the user are recorded in a log; the functions of
  \<open>FunctionAction\<close> and the generators of \<open>SleepAction\<close> are parameters, which may depend on the
  log but do not call back into the actions.
\<close>

section \<open>Data\<close>

type_synonym addr = nat

record reason =
  r_code :: int
  r_message :: string

record who =
  w_id :: int
  w_type :: string
  w_label :: string

type_synonym trace = "who list"

datatype act_state = kIdle | kRunning | kPause | kFinished | kStoped
datatype act_result = kUnsure | kSuccess | kFail

datatype seq_mode = AllFinish | AnyFail | AnySucc
datatype rep_mode = NoBreak | BreakFail | BreakSucc
datatype loop_mode = Forever | UntilFail | UntilSucc
datatype wrap_mode = NormalMode | Invert | AlwaySucc | AlwayFail

text \<open>What is installed with \<open>setFinishCallback\<close> and \<open>setBlockCallback\<close>: a handler of the object
  given by its address, or a callback of the user. \<open>FinishThis\<close> is the closure that
  \<open>onLastChildFinished\<close> keeps.\<close>

datatype fin_cb = NoFin | UserFin nat | SeqFin addr | RepFin addr | LoopFin addr | WrapFin addr
  | IfFin addr | ExecFin addr | CondFin addr | IfThenFin addr | SwitchFin addr | LastFin addr
  | ParFin addr nat | FinishThis addr

datatype blk_cb = NoBlk | UserBlk nat | BlockThis addr | ParBlk addr

text \<open>The class of an object and the members the class adds. A \<open>Sequence\<close> has \<open>mode_\<close>, \<open>children_\<close>
  and \<open>index_\<close>; a \<open>Repeat\<close> \<open>mode_\<close>, \<open>repeat_times_\<close>, \<open>remain_times_\<close> and \<open>child_\<close>; a \<open>LoopIf\<close>
  \<open>if_action_\<close>, \<open>exec_action_\<close> and \<open>finish_result_\<close>; an \<open>IfThen\<close> the pairs, \<open>index_\<close> and
  \<open>tmp_.first\<close>; a \<open>Switch\<close> \<open>switch_action_\<close>, \<open>case_actions_\<close> in the order of the keys and
  \<open>default_action_\<close>; a \<open>Parallel\<close> \<open>finished_children_\<close>; a \<open>Sleep\<close> the time span or the generator,
  \<open>finish_time_\<close>, \<open>remain_time_span_\<close> and the deadline of its timer while it is enabled.\<close>

datatype kind =
    Sequence seq_mode "addr list" nat
  | Repeat rep_mode usize usize "addr ptr"
  | LoopK loop_mode "addr ptr"
  | Wrapper wrap_mode "addr ptr"
  | Composite "addr ptr"
  | LoopIf "addr ptr" "addr ptr" bool
  | IfElse "addr ptr" "addr ptr" "addr ptr"
  | IfThen "(addr \<times> addr) list" nat "addr ptr"
  | Switch "addr ptr" "(string \<times> addr) list" "addr ptr"
  | Parallel seq_mode "addr list" "nat \<rightharpoonup> bool"
  | Function "nat option"
  | Sleep "int + nat" int int "int option"
  | Dummy
  | EventWait

record action =
  act_id :: int
  act_type :: string
  act_label :: string
  finish_cb :: fin_cb
  block_cb :: blk_cb
  act_state :: act_state
  act_result :: act_result
  timer_ev :: "(int \<times> bool) option"
  finish_cb_run_id :: nat
  block_cb_run_id :: nat
  act_parent :: "addr ptr"
  final_cb :: bool
  curr_action :: "addr ptr"
  child_finish_func :: "(fin_cb \<times> bool \<times> reason \<times> trace) option"
  act_kind :: kind

text \<open>What the user sees.\<close>

datatype fl_event = EvFunc nat | EvFinal addr | EvDummy addr nat
  | EvFinish nat bool reason trace | EvBlock nat reason trace

datatype task = FinTask fin_cb bool reason trace | BlkTask blk_cb reason trace | DeleteTimer

text \<open>The store, the loop's queue of \<open>runNext\<close> tasks with their ids, the clock, the subscribers of
  the publisher, and the user's part.\<close>

record flow =
  objs :: "addr \<Rightarrow> action option"
  runq :: "(nat \<times> task) list"
  next_id :: nat
  fl_now :: int
  subscribers :: "addr list"
  fl_log :: "fl_event list"
  fn_call :: "nat \<Rightarrow> fl_event list \<Rightarrow> reason \<Rightarrow> bool \<times> reason"
  gen_call :: "nat \<Rightarrow> fl_event list \<Rightarrow> int"

definition is_dummy :: "kind \<Rightarrow> bool" where
  "is_dummy k = (case k of Dummy \<Rightarrow> True | _ \<Rightarrow> False)"

definition is_event :: "kind \<Rightarrow> bool" where
  "is_event k = (case k of EventWait \<Rightarrow> True | _ \<Rightarrow> False)"

definition no_reason :: reason where
  "no_reason = \<lparr>r_code = 0, r_message = []\<rparr>"

definition reason_of :: "int \<Rightarrow> string \<Rightarrow> reason" where
  "reason_of c m = \<lparr>r_code = c, r_message = m\<rparr>"

definition isUnderway :: "action \<Rightarrow> bool" where
  "isUnderway x \<longleftrightarrow> act_state x = kRunning \<or> act_state x = kPause"

definition new_action :: "int \<Rightarrow> string \<Rightarrow> kind \<Rightarrow> action" where
  "new_action i ty k = \<lparr>act_id = i, act_type = ty, act_label = [], finish_cb = NoFin, block_cb = NoBlk,
     act_state = kIdle, act_result = kUnsure, timer_ev = None, finish_cb_run_id = 0, block_cb_run_id = 0,
     act_parent = None, final_cb = False, curr_action = None, child_finish_func = None, act_kind = k\<rparr>"

section \<open>Store, queue and log\<close>

definition modify :: "addr \<Rightarrow> (action \<Rightarrow> action) \<Rightarrow> flow \<Rightarrow> flow option" where
  "modify a f s = (case objs s a of None \<Rightarrow> None | Some x \<Rightarrow> Some (s\<lparr>objs := (objs s)(a := Some (f x))\<rparr>))"

definition set_kind :: "addr \<Rightarrow> kind \<Rightarrow> flow \<Rightarrow> flow option" where
  "set_kind a k s = modify a (\<lambda>x. x\<lparr>act_kind := k\<rparr>) s"

definition fl_runNext :: "task \<Rightarrow> flow \<Rightarrow> nat \<times> flow" where
  "fl_runNext t s = (next_id s, s\<lparr>runq := runq s @ [(next_id s, t)], next_id := next_id s + 2\<rparr>)"

definition fl_cancel :: "nat \<Rightarrow> flow \<Rightarrow> flow" where
  "fl_cancel i s = s\<lparr>runq := filter (\<lambda>e. fst e \<noteq> i) (runq s)\<rparr>"

definition say :: "fl_event \<Rightarrow> flow \<Rightarrow> flow" where
  "say e s = s\<lparr>fl_log := fl_log s @ [e]\<rparr>"

definition timer_set :: "bool \<Rightarrow> (int \<times> bool) option \<Rightarrow> (int \<times> bool) option" where
  "timer_set on t = map_option (\<lambda>(ms, _). (ms, on)) t"

fun each :: "(addr \<Rightarrow> flow \<Rightarrow> flow option) \<Rightarrow> addr list \<Rightarrow> flow \<Rightarrow> flow option" where
  "each f [] s = Some s"
| "each f (c # cs) s = do { s1 \<leftarrow> f c s; each f cs s1 }"

definition opt_list :: "'a option \<Rightarrow> 'a list" where
  "opt_list p = (case p of None \<Rightarrow> [] | Some c \<Rightarrow> [c])"

text \<open>\<open>EventPublisherImpl\<close>: \<open>std::remove\<close> moves the other elements to the front and leaves the rest of
  the vector as it was; \<open>subscribe\<close> does not erase it.\<close>

definition std_remove :: "addr \<Rightarrow> addr list \<Rightarrow> addr list" where
  "std_remove a v = (let w = filter (\<lambda>b. b \<noteq> a) v in w @ drop (length w) v)"

definition pub_subscribe :: "addr \<Rightarrow> addr list \<Rightarrow> addr list" where
  "pub_subscribe a v = (if a \<in> set v then std_remove a v else std_remove a v @ [a])"

definition pub_unsubscribe :: "addr \<Rightarrow> addr list \<Rightarrow> addr list" where
  "pub_unsubscribe a v = filter (\<lambda>b. b \<noteq> a) v"

definition fl_subscribe :: "addr \<Rightarrow> flow \<Rightarrow> flow" where
  "fl_subscribe a s = s\<lparr>subscribers := pub_subscribe a (subscribers s)\<rparr>"

definition fl_unsubscribe :: "addr \<Rightarrow> flow \<Rightarrow> flow" where
  "fl_unsubscribe a s = s\<lparr>subscribers := pub_unsubscribe a (subscribers s)\<rparr>"

section \<open>Stopping\<close>

definition on_final :: "addr \<Rightarrow> flow \<Rightarrow> flow option" where
  "on_final a s = do { x \<leftarrow> objs s a; Some (if final_cb x then say (EvFinal a) s else s) }"

definition stopCurrAction :: "(addr \<Rightarrow> flow \<Rightarrow> flow option) \<Rightarrow> addr \<Rightarrow> flow \<Rightarrow> flow option" where
  "stopCurrAction stop a s = do {
     x \<leftarrow> objs s a;
     case curr_action x of
       None \<Rightarrow> Some s
     | Some c \<Rightarrow> do { s1 \<leftarrow> stop c s; modify a (\<lambda>x. x\<lparr>curr_action := None\<rparr>) s1 } }"

definition sleep_timer_off :: "action \<Rightarrow> action" where
  "sleep_timer_off x = (case act_kind x of
       Sleep span f r t \<Rightarrow> x\<lparr>act_kind := Sleep span f r None\<rparr>
     | _ \<Rightarrow> x)"

definition serial_onStop :: "(addr \<Rightarrow> flow \<Rightarrow> flow option) \<Rightarrow> addr \<Rightarrow> flow \<Rightarrow> flow option" where
  "serial_onStop stop a s = do {
     s1 \<leftarrow> stopCurrAction stop a s;
     modify a (\<lambda>x. x\<lparr>child_finish_func := None\<rparr>) s1 }"

definition stopAllActions :: "(addr \<Rightarrow> flow \<Rightarrow> flow option) \<Rightarrow> addr list \<Rightarrow> flow \<Rightarrow> flow option" where
  "stopAllActions stop cs s = each stop cs s"

definition par_onStop :: "(addr \<Rightarrow> flow \<Rightarrow> flow option) \<Rightarrow> addr list \<Rightarrow> flow \<Rightarrow> flow option" where
  "par_onStop stop cs s = stopAllActions stop cs s"

definition sleep_onStop :: "addr \<Rightarrow> flow \<Rightarrow> flow option" where
  "sleep_onStop a s = modify a sleep_timer_off s"

definition dummy_onStop :: "addr \<Rightarrow> flow \<Rightarrow> flow option" where
  "dummy_onStop a s = Some (say (EvDummy a 1) s)"

definition event_onStop :: "addr \<Rightarrow> flow \<Rightarrow> flow option" where
  "event_onStop a s = Some (fl_unsubscribe a s)"

definition on_stop :: "(addr \<Rightarrow> flow \<Rightarrow> flow option) \<Rightarrow> addr \<Rightarrow> flow \<Rightarrow> flow option" where
  "on_stop stop a s = do {
     x \<leftarrow> objs s a;
     case act_kind x of
       Parallel m cs fin \<Rightarrow> par_onStop stop cs s
     | Sleep span f r t \<Rightarrow> sleep_onStop a s
     | Dummy \<Rightarrow> dummy_onStop a s
     | EventWait \<Rightarrow> event_onStop a s
     | Function fn \<Rightarrow> Some s
     | _ \<Rightarrow> serial_onStop stop a s }"

fun act_stop :: "nat \<Rightarrow> addr \<Rightarrow> flow \<Rightarrow> flow option" where
  "act_stop 0 a s = None"
| "act_stop (Suc n) a s = do {
     x \<leftarrow> objs s a;
     if \<not> isUnderway x then Some s
     else do {
       s1 \<leftarrow> modify a (\<lambda>x. x\<lparr>act_state := kStoped, timer_ev := timer_set False (timer_ev x)\<rparr>) s;
       s2 \<leftarrow> on_stop (act_stop n) a s1;
       on_final a s2 } }"

section \<open>Finishing and blocking\<close>

definition who_of :: "action \<Rightarrow> who" where
  "who_of x = \<lparr>w_id = act_id x, w_type = act_type x, w_label = act_label x\<rparr>"

definition base_onFinished :: "addr \<Rightarrow> bool \<Rightarrow> reason \<Rightarrow> trace \<Rightarrow> flow \<Rightarrow> flow option" where
  "base_onFinished a is_succ why trace s = do {
     x \<leftarrow> objs s a;
     s1 \<leftarrow> modify a (\<lambda>x. x\<lparr>act_result := (if is_succ then kSuccess else kFail)\<rparr>) s;
     if finish_cb x = NoFin then Some s1
     else let (i, s2) = fl_runNext (FinTask (finish_cb x) is_succ why (trace @ [who_of x])) s1
          in modify a (\<lambda>x. x\<lparr>finish_cb_run_id := i\<rparr>) s2 }"

definition composite_onFinished :: "nat \<Rightarrow> addr \<Rightarrow> bool \<Rightarrow> reason \<Rightarrow> trace \<Rightarrow> flow \<Rightarrow> flow option" where
  "composite_onFinished n a is_succ why trace s = do {
     s1 \<leftarrow> stopCurrAction (act_stop n) a s;
     base_onFinished a is_succ why trace s1 }"

definition event_onFinished :: "addr \<Rightarrow> bool \<Rightarrow> reason \<Rightarrow> trace \<Rightarrow> flow \<Rightarrow> flow option" where
  "event_onFinished a is_succ why trace s = base_onFinished a is_succ why trace (fl_unsubscribe a s)"

definition on_finished :: "nat \<Rightarrow> addr \<Rightarrow> bool \<Rightarrow> reason \<Rightarrow> trace \<Rightarrow> flow \<Rightarrow> flow option" where
  "on_finished n a is_succ why trace s = do {
     x \<leftarrow> objs s a;
     case act_kind x of
       Composite c \<Rightarrow> composite_onFinished n a is_succ why trace s
     | EventWait \<Rightarrow> event_onFinished a is_succ why trace s
     | _ \<Rightarrow> base_onFinished a is_succ why trace s }"

definition act_finish :: "nat \<Rightarrow> addr \<Rightarrow> bool \<Rightarrow> reason \<Rightarrow> trace \<Rightarrow> flow \<Rightarrow> (bool \<times> flow) option" where
  "act_finish n a is_succ why trace s = do {
     x \<leftarrow> objs s a;
     if act_state x \<noteq> kFinished \<and> act_state x \<noteq> kStoped then do {
       s1 \<leftarrow> modify a (\<lambda>x. x\<lparr>act_state := kFinished, timer_ev := timer_set False (timer_ev x)\<rparr>) s;
       s2 \<leftarrow> on_finished n a is_succ why trace s1;
       s3 \<leftarrow> on_final a s2;
       Some (True, s3) }
     else Some (False, s) }"

definition base_onBlock :: "addr \<Rightarrow> reason \<Rightarrow> trace \<Rightarrow> flow \<Rightarrow> flow option" where
  "base_onBlock a why trace s = do {
     x \<leftarrow> objs s a;
     if block_cb x = NoBlk then Some s
     else let (i, s1) = fl_runNext (BlkTask (block_cb x) why (trace @ [who_of x])) s
          in modify a (\<lambda>x. x\<lparr>block_cb_run_id := i\<rparr>) s1 }"

definition event_onBlock :: "addr \<Rightarrow> reason \<Rightarrow> trace \<Rightarrow> flow \<Rightarrow> flow option" where
  "event_onBlock a why trace s = base_onBlock a why trace (fl_unsubscribe a s)"

definition on_block :: "addr \<Rightarrow> reason \<Rightarrow> trace \<Rightarrow> flow \<Rightarrow> flow option" where
  "on_block a why trace s = do {
     x \<leftarrow> objs s a;
     case act_kind x of
       EventWait \<Rightarrow> event_onBlock a why trace s
     | _ \<Rightarrow> base_onBlock a why trace s }"

definition act_block :: "addr \<Rightarrow> reason \<Rightarrow> trace \<Rightarrow> flow \<Rightarrow> (bool \<times> flow) option" where
  "act_block a why trace s = do {
     x \<leftarrow> objs s a;
     if act_state x \<noteq> kFinished \<and> act_state x \<noteq> kStoped then do {
       s1 \<leftarrow> modify a (\<lambda>x. x\<lparr>act_state := kPause\<rparr>) s;
       s2 \<leftarrow> on_block a why trace s1;
       Some (True, s2) }
     else Some (False, s) }"

text \<open>\<open>onTimeout\<close> of the action's own timer, which has one shot, and the timer of a \<open>SleepAction\<close>.\<close>

definition fire_timeout :: "nat \<Rightarrow> addr \<Rightarrow> flow \<Rightarrow> (bool \<times> flow) option" where
  "fire_timeout n a s = do {
     s1 \<leftarrow> modify a (\<lambda>x. x\<lparr>timer_ev := timer_set False (timer_ev x)\<rparr>) s;
     act_finish n a False (reason_of 1 ''ActionTimeout'') [] s1 }"

definition fire_sleep :: "nat \<Rightarrow> addr \<Rightarrow> flow \<Rightarrow> (bool \<times> flow) option" where
  "fire_sleep n a s = do {
     s1 \<leftarrow> modify a sleep_timer_off s;
     act_finish n a True (reason_of 3 ''SleepAction'') [] s1 }"


section \<open>Resetting\<close>

definition cancelDispatchedCallback :: "addr \<Rightarrow> flow \<Rightarrow> flow option" where
  "cancelDispatchedCallback a s = do {
     x \<leftarrow> objs s a;
     s1 \<leftarrow> (if finish_cb_run_id x \<noteq> 0
            then modify a (\<lambda>x. x\<lparr>finish_cb_run_id := 0\<rparr>) (fl_cancel (finish_cb_run_id x) s) else Some s);
     if block_cb_run_id x \<noteq> 0
     then modify a (\<lambda>x. x\<lparr>block_cb_run_id := 0\<rparr>) (fl_cancel (block_cb_run_id x) s1) else Some s1 }"

definition serial_onReset :: "addr \<Rightarrow> flow \<Rightarrow> flow option" where
  "serial_onReset a s = modify a (\<lambda>x. x\<lparr>curr_action := None, child_finish_func := None\<rparr>) s"

type_synonym call1 = "addr \<Rightarrow> flow \<Rightarrow> flow option"

text \<open>\<open>onReset\<close> of the classes; an assertion that fails, or a null child, is \<open>None\<close>.\<close>

definition reset_child :: "call1 \<Rightarrow> addr ptr \<Rightarrow> flow \<Rightarrow> flow option" where
  "reset_child reset c s = do { c' \<leftarrow> c; reset c' s }"

definition seq_onReset :: "call1 \<Rightarrow> addr \<Rightarrow> seq_mode \<Rightarrow> addr list \<Rightarrow> flow \<Rightarrow> flow option" where
  "seq_onReset reset a m cs s = do {
     s1 \<leftarrow> set_kind a (Sequence m cs 0) s;
     s2 \<leftarrow> each reset cs s1;
     serial_onReset a s2 }"

definition repeat_onReset :: "call1 \<Rightarrow> addr \<Rightarrow> addr ptr \<Rightarrow> flow \<Rightarrow> flow option" where
  "repeat_onReset reset a c s = do { s1 \<leftarrow> reset_child reset c s; serial_onReset a s1 }"

definition loop_onReset :: "call1 \<Rightarrow> addr \<Rightarrow> addr ptr \<Rightarrow> flow \<Rightarrow> flow option" where
  "loop_onReset reset a c s = do { s1 \<leftarrow> reset_child reset c s; serial_onReset a s1 }"

definition wrapper_onReset :: "call1 \<Rightarrow> addr \<Rightarrow> addr ptr \<Rightarrow> flow \<Rightarrow> flow option" where
  "wrapper_onReset reset a c s = do { s1 \<leftarrow> reset_child reset c s; serial_onReset a s1 }"

definition composite_onReset :: "call1 \<Rightarrow> addr \<Rightarrow> addr ptr \<Rightarrow> flow \<Rightarrow> flow option" where
  "composite_onReset reset a c s = do { s1 \<leftarrow> reset_child reset c s; serial_onReset a s1 }"

definition loopif_onReset :: "call1 \<Rightarrow> addr \<Rightarrow> addr ptr \<Rightarrow> addr ptr \<Rightarrow> flow \<Rightarrow> flow option" where
  "loopif_onReset reset a i e s = do {
     i' \<leftarrow> i;
     e' \<leftarrow> e;
     s1 \<leftarrow> reset i' s;
     s2 \<leftarrow> reset e' s1;
     serial_onReset a s2 }"

definition ifelse_onReset :: "call1 \<Rightarrow> addr \<Rightarrow> addr ptr \<Rightarrow> addr ptr \<Rightarrow> addr ptr \<Rightarrow> flow \<Rightarrow> flow option" where
  "ifelse_onReset reset a i t e s = do {
     s1 \<leftarrow> reset_child reset i s;
     s2 \<leftarrow> (if t \<noteq> None then reset_child reset t s1 else Some s1);
     s3 \<leftarrow> (if e \<noteq> None then reset_child reset e s2 else Some s2);
     serial_onReset a s3 }"

definition ifthen_onReset :: "call1 \<Rightarrow> addr \<Rightarrow> (addr \<times> addr) list \<Rightarrow> addr ptr \<Rightarrow> flow \<Rightarrow> flow option" where
  "ifthen_onReset reset a ps tmp s = do {
     s1 \<leftarrow> set_kind a (IfThen ps 0 tmp) s;
     s2 \<leftarrow> each reset (concat (map (\<lambda>(i, t). [i, t]) ps)) s1;
     serial_onReset a s2 }"

definition switch_onReset :: "call1 \<Rightarrow> addr \<Rightarrow> addr ptr \<Rightarrow> (string \<times> addr) list \<Rightarrow> addr ptr \<Rightarrow> flow \<Rightarrow> flow option" where
  "switch_onReset reset a w cs d s = do {
     s1 \<leftarrow> reset_child reset w s;
     s2 \<leftarrow> (if d \<noteq> None then reset_child reset d s1 else Some s1);
     s3 \<leftarrow> each reset (map snd cs) s2;
     serial_onReset a s3 }"

definition par_onReset :: "call1 \<Rightarrow> addr \<Rightarrow> seq_mode \<Rightarrow> addr list \<Rightarrow> flow \<Rightarrow> flow option" where
  "par_onReset reset a m cs s = do {
     s1 \<leftarrow> each reset cs s;
     set_kind a (Parallel m cs Map.empty) s1 }"

definition sleep_onReset :: "addr \<Rightarrow> flow \<Rightarrow> flow option" where
  "sleep_onReset a s = modify a sleep_timer_off s"

definition dummy_onReset :: "addr \<Rightarrow> flow \<Rightarrow> flow option" where
  "dummy_onReset a s = Some (say (EvDummy a 4) s)"

definition event_onReset :: "addr \<Rightarrow> flow \<Rightarrow> flow option" where
  "event_onReset a s = Some (fl_unsubscribe a s)"

definition is_serial :: "kind \<Rightarrow> bool" where
  "is_serial k = (case k of
       Parallel m cs fin \<Rightarrow> False | Function fn \<Rightarrow> False | Sleep span f r t \<Rightarrow> False
     | Dummy \<Rightarrow> False | EventWait \<Rightarrow> False | _ \<Rightarrow> True)"

definition on_reset :: "call1 \<Rightarrow> addr \<Rightarrow> flow \<Rightarrow> flow option" where
  "on_reset reset a s = do {
     x \<leftarrow> objs s a;
     case act_kind x of
       Sequence m cs i \<Rightarrow> seq_onReset reset a m cs s
     | Repeat m t r c \<Rightarrow> repeat_onReset reset a c s
     | LoopK m c \<Rightarrow> loop_onReset reset a c s
     | Wrapper m c \<Rightarrow> wrapper_onReset reset a c s
     | Composite c \<Rightarrow> composite_onReset reset a c s
     | LoopIf i e r \<Rightarrow> loopif_onReset reset a i e s
     | IfElse i t e \<Rightarrow> ifelse_onReset reset a i t e s
     | IfThen ps i tmp \<Rightarrow> ifthen_onReset reset a ps tmp s
     | Switch w cs d \<Rightarrow> switch_onReset reset a w cs d s
     | Parallel m cs fin \<Rightarrow> par_onReset reset a m cs s
     | Function fn \<Rightarrow> Some s
     | Sleep span f r t \<Rightarrow> sleep_onReset a s
     | Dummy \<Rightarrow> dummy_onReset a s
     | EventWait \<Rightarrow> event_onReset a s }"

fun act_reset :: "nat \<Rightarrow> addr \<Rightarrow> flow \<Rightarrow> flow option" where
  "act_reset 0 a s = None"
| "act_reset (Suc n) a s = do {
     x \<leftarrow> objs s a;
     if act_state x = kIdle then Some s
     else do {
       s1 \<leftarrow> on_reset (act_reset n) a s;
       s2 \<leftarrow> modify a (\<lambda>x. x\<lparr>timer_ev := timer_set False (timer_ev x)\<rparr>) s1;
       s3 \<leftarrow> cancelDispatchedCallback a s2;
       modify a (\<lambda>x. x\<lparr>act_state := kIdle, act_result := kUnsure\<rparr>) s3 } }"

section \<open>Starting\<close>

type_synonym starter = "addr \<Rightarrow> flow \<Rightarrow> (bool \<times> flow) option"

definition startThisAction :: "starter \<Rightarrow> addr \<Rightarrow> addr \<Rightarrow> flow \<Rightarrow> (bool \<times> flow) option" where
  "startThisAction start a c s = do {
     (ok, s1) \<leftarrow> start c s;
     if ok then do { s2 \<leftarrow> modify a (\<lambda>x. x\<lparr>curr_action := Some c\<rparr>) s1; Some (True, s2) }
     else Some (False, s1) }"

text \<open>The calls that ignore the result.\<close>

definition start_child :: "starter \<Rightarrow> addr \<Rightarrow> addr ptr \<Rightarrow> flow \<Rightarrow> flow option" where
  "start_child start a c s = do { c' \<leftarrow> c; (_, s1) \<leftarrow> startThisAction start a c' s; Some s1 }"

definition do_finish :: "nat \<Rightarrow> addr \<Rightarrow> bool \<Rightarrow> reason \<Rightarrow> trace \<Rightarrow> flow \<Rightarrow> flow option" where
  "do_finish n a is_succ why trace s = do { (_, s1) \<leftarrow> act_finish n a is_succ why trace s; Some s1 }"

definition startOtheriseFinish :: "nat \<Rightarrow> starter \<Rightarrow> addr \<Rightarrow> bool \<Rightarrow> reason \<Rightarrow> trace \<Rightarrow> flow \<Rightarrow> flow option" where
  "startOtheriseFinish n start a is_succ why trace s = do {
     x \<leftarrow> objs s a;
     case act_kind x of
       Sequence m cs i \<Rightarrow>
         if i < length cs then do {
           (ok, s1) \<leftarrow> startThisAction start a (cs ! i) s;
           if ok then Some s1 else do_finish n a False (reason_of 6 ''StartChildFail'') [] s1 }
         else do_finish n a is_succ why trace s
     | _ \<Rightarrow> None }"

definition ifthen_doStart :: "nat \<Rightarrow> starter \<Rightarrow> addr \<Rightarrow> flow \<Rightarrow> flow option" where
  "ifthen_doStart n start a s = do {
     x \<leftarrow> objs s a;
     case act_kind x of
       IfThen ps i tmp \<Rightarrow>
         if i \<ge> length ps then do_finish n a False (reason_of 10 ''IfThenSkip'') [] s
         else start_child start a (Some (fst (ps ! i))) s
     | _ \<Rightarrow> None }"

text \<open>\<open>ParallelAction::onStart\<close> from child \<open>i\<close> on; the flag tells that it returned early.\<close>

fun par_start :: "nat \<Rightarrow> starter \<Rightarrow> addr \<Rightarrow> nat \<Rightarrow> addr list \<Rightarrow> flow \<Rightarrow> (bool \<times> flow) option" where
  "par_start n start a i [] s = Some (False, s)"
| "par_start n start a i (c # rest) s = do {
     (ok, s1) \<leftarrow> start c s;
     if ok then par_start n start a (Suc i) rest s1
     else do {
       x \<leftarrow> objs s1 a;
       case act_kind x of
         Parallel m cs fin \<Rightarrow> do {
           s2 \<leftarrow> set_kind a (Parallel m cs (fin(i \<mapsto> False))) s1;
           if m = AnyFail then do {
             s3 \<leftarrow> do_finish n a True no_reason [] s2;
             s4 \<leftarrow> stopAllActions (act_stop n) cs s3;
             Some (True, s4) }
           else par_start n start a (Suc i) rest s2 }
       | _ \<Rightarrow> None } }"

definition finished_count :: "(nat \<rightharpoonup> bool) \<Rightarrow> nat \<Rightarrow> nat" where
  "finished_count fin n = length (filter (\<lambda>i. fin i \<noteq> None) [0..<n])"

definition par_onStart :: "nat \<Rightarrow> starter \<Rightarrow> addr \<Rightarrow> addr list \<Rightarrow> flow \<Rightarrow> flow option" where
  "par_onStart n start a cs s = do {
     (returned, s1) \<leftarrow> par_start n start a 0 cs s;
     if returned then Some s1
     else do {
       x \<leftarrow> objs s1 a;
       case act_kind x of
         Parallel m cs' fin \<Rightarrow>
           if finished_count fin (length cs') = length cs' then do_finish n a True no_reason [] s1 else Some s1
       | _ \<Rightarrow> None } }"

definition function_onStart :: "nat \<Rightarrow> addr \<Rightarrow> nat option \<Rightarrow> flow \<Rightarrow> flow option" where
  "function_onStart n a fn s = do {
     f \<leftarrow> fn;
     let (ok, why) = fn_call s f (fl_log s) (reason_of 2 ''FunctionAction'');
     do_finish n a ok why [] (say (EvFunc f) s) }"

definition sleep_onStart :: "addr \<Rightarrow> int + nat \<Rightarrow> int \<Rightarrow> flow \<Rightarrow> flow option" where
  "sleep_onStart a span r s =
     (let t = (case span of Inl ms \<Rightarrow> ms | Inr g \<Rightarrow> gen_call s g (fl_log s))
      in set_kind a (Sleep span (fl_now s + t) r (Some (fl_now s + t))) s)"

definition seq_onStart :: "nat \<Rightarrow> starter \<Rightarrow> addr \<Rightarrow> flow \<Rightarrow> flow option" where
  "seq_onStart n start a s = startOtheriseFinish n start a True no_reason [] s"

definition repeat_onStart :: "starter \<Rightarrow> addr \<Rightarrow> rep_mode \<Rightarrow> usize \<Rightarrow> addr ptr \<Rightarrow> flow \<Rightarrow> flow option" where
  "repeat_onStart start a m t c s = do {
     c' \<leftarrow> c;
     s1 \<leftarrow> set_kind a (Repeat m t (t - 1) c) s;
     start_child start a c s1 }"

definition loop_onStart :: "starter \<Rightarrow> addr \<Rightarrow> addr ptr \<Rightarrow> flow \<Rightarrow> flow option" where
  "loop_onStart start a c s = start_child start a c s"

definition wrapper_onStart :: "starter \<Rightarrow> addr \<Rightarrow> addr ptr \<Rightarrow> flow \<Rightarrow> flow option" where
  "wrapper_onStart start a c s = start_child start a c s"

definition composite_onStart :: "starter \<Rightarrow> addr \<Rightarrow> addr ptr \<Rightarrow> flow \<Rightarrow> flow option" where
  "composite_onStart start a c s = start_child start a c s"

definition loopif_onStart :: "starter \<Rightarrow> addr \<Rightarrow> addr ptr \<Rightarrow> flow \<Rightarrow> flow option" where
  "loopif_onStart start a i s = start_child start a i s"

definition ifelse_onStart :: "starter \<Rightarrow> addr \<Rightarrow> addr ptr \<Rightarrow> flow \<Rightarrow> flow option" where
  "ifelse_onStart start a i s = start_child start a i s"

definition ifthen_onStart :: "nat \<Rightarrow> starter \<Rightarrow> addr \<Rightarrow> (addr \<times> addr) list \<Rightarrow> addr ptr \<Rightarrow> flow \<Rightarrow> flow option" where
  "ifthen_onStart n start a ps tmp s = do {
     s1 \<leftarrow> set_kind a (IfThen ps 0 tmp) s;
     ifthen_doStart n start a s1 }"

definition switch_onStart :: "starter \<Rightarrow> addr \<Rightarrow> addr ptr \<Rightarrow> flow \<Rightarrow> flow option" where
  "switch_onStart start a w s = start_child start a w s"

definition dummy_onStart :: "addr \<Rightarrow> flow \<Rightarrow> flow option" where
  "dummy_onStart a s = Some (say (EvDummy a 0) s)"

definition event_onStart :: "addr \<Rightarrow> flow \<Rightarrow> flow option" where
  "event_onStart a s = Some (fl_subscribe a s)"

definition on_start :: "nat \<Rightarrow> starter \<Rightarrow> addr \<Rightarrow> flow \<Rightarrow> flow option" where
  "on_start n start a s = do {
     x \<leftarrow> objs s a;
     case act_kind x of
       Sequence m cs i \<Rightarrow> seq_onStart n start a s
     | Repeat m t r c \<Rightarrow> repeat_onStart start a m t c s
     | LoopK m c \<Rightarrow> loop_onStart start a c s
     | Wrapper m c \<Rightarrow> wrapper_onStart start a c s
     | Composite c \<Rightarrow> composite_onStart start a c s
     | LoopIf i e r \<Rightarrow> loopif_onStart start a i s
     | IfElse i t e \<Rightarrow> ifelse_onStart start a i s
     | IfThen ps i tmp \<Rightarrow> ifthen_onStart n start a ps tmp s
     | Switch w cs d \<Rightarrow> switch_onStart start a w s
     | Parallel m cs fin \<Rightarrow> par_onStart n start a cs s
     | Function fn \<Rightarrow> function_onStart n a fn s
     | Sleep span f r t \<Rightarrow> sleep_onStart a span r s
     | Dummy \<Rightarrow> dummy_onStart a s
     | EventWait \<Rightarrow> event_onStart a s }"

text \<open>The end of \<open>start\<close>, \<open>pause\<close> and \<open>resume\<close>: where the handler left the state as it was, the timer is
  switched and the state becomes the new one.\<close>

definition settle :: "addr \<Rightarrow> act_state \<Rightarrow> bool \<Rightarrow> act_state \<Rightarrow> flow \<Rightarrow> flow option" where
  "settle a last_state on st s = do {
     x \<leftarrow> objs s a;
     if act_state x = last_state then modify a (\<lambda>x. x\<lparr>timer_ev := timer_set on (timer_ev x), act_state := st\<rparr>) s
     else Some s }"

fun act_start :: "nat \<Rightarrow> addr \<Rightarrow> flow \<Rightarrow> (bool \<times> flow) option" where
  "act_start 0 a s = None"
| "act_start (Suc n) a s = do {
     x \<leftarrow> objs s a;
     if act_state x = kRunning then Some (True, s)
     else if act_state x \<noteq> kIdle then Some (False, s)
     else do {
       s1 \<leftarrow> on_start n (act_start n) a s;
       s2 \<leftarrow> settle a kIdle True kRunning s1;
       Some (True, s2) } }"

end
