(* ===== verification/Flow_Run.thy ===== *)
theory Flow_Run
  imports Flow_Action
begin

text \<open>
  The rest of the running of the actions of \<open>modules/flow\<close>: pausing and resuming, the handlers
  that the composites install on their children, and the dispatch of the queued callbacks.
\<close>

section \<open>Pausing and resuming\<close>

definition ignore :: "starter \<Rightarrow> addr \<Rightarrow> flow \<Rightarrow> flow option" where
  "ignore f c s = do { (_, s1) \<leftarrow> f c s; Some s1 }"

definition serial_onPause :: "starter \<Rightarrow> addr \<Rightarrow> flow \<Rightarrow> flow option" where
  "serial_onPause pause a s = do {
     x \<leftarrow> objs s a;
     case curr_action x of None \<Rightarrow> Some s | Some c \<Rightarrow> ignore pause c s }"

definition pauseAllActions :: "starter \<Rightarrow> addr list \<Rightarrow> flow \<Rightarrow> flow option" where
  "pauseAllActions pause cs s = each (ignore pause) cs s"

definition par_onPause :: "starter \<Rightarrow> addr list \<Rightarrow> flow \<Rightarrow> flow option" where
  "par_onPause pause cs s = pauseAllActions pause cs s"

definition sleep_onPause :: "addr \<Rightarrow> int + nat \<Rightarrow> int \<Rightarrow> flow \<Rightarrow> flow option" where
  "sleep_onPause a span f s = set_kind a (Sleep span f (f - fl_now s) None) s"

definition dummy_onPause :: "addr \<Rightarrow> flow \<Rightarrow> flow option" where
  "dummy_onPause a s = Some (say (EvDummy a 2) s)"

definition event_onPause :: "addr \<Rightarrow> flow \<Rightarrow> flow option" where
  "event_onPause a s = Some (fl_unsubscribe a s)"

definition on_pause :: "starter \<Rightarrow> addr \<Rightarrow> flow \<Rightarrow> flow option" where
  "on_pause pause a s = do {
     x \<leftarrow> objs s a;
     case act_kind x of
       Parallel m cs fin \<Rightarrow> par_onPause pause cs s
     | Sleep span f r t \<Rightarrow> sleep_onPause a span f s
     | Dummy \<Rightarrow> dummy_onPause a s
     | EventWait \<Rightarrow> event_onPause a s
     | Function fn \<Rightarrow> Some s
     | _ \<Rightarrow> serial_onPause pause a s }"

fun act_pause :: "nat \<Rightarrow> addr \<Rightarrow> flow \<Rightarrow> (bool \<times> flow) option" where
  "act_pause 0 a s = None"
| "act_pause (Suc n) a s = do {
     x \<leftarrow> objs s a;
     if act_state x = kPause then Some (True, s)
     else if act_state x \<noteq> kRunning then Some (False, s)
     else do {
       s1 \<leftarrow> on_pause (act_pause n) a s;
       s2 \<leftarrow> settle a kRunning False kPause s1;
       Some (True, s2) } }"

definition resume_paused :: "starter \<Rightarrow> addr \<Rightarrow> flow \<Rightarrow> flow option" where
  "resume_paused resume c s = do {
     x \<leftarrow> objs s c;
     if act_state x = kPause then ignore resume c s else Some s }"

definition serial_onResume :: "starter \<Rightarrow> addr \<Rightarrow> flow \<Rightarrow> flow option" where
  "serial_onResume resume a s = do {
     x \<leftarrow> objs s a;
     case curr_action x of
       Some c \<Rightarrow> ignore resume c s
     | None \<Rightarrow> (case child_finish_func x of
         None \<Rightarrow> Some s
       | Some (cb, ok, why, tr) \<Rightarrow>
           modify a (\<lambda>x. x\<lparr>child_finish_func := None\<rparr>) (snd (fl_runNext (FinTask cb ok why tr) s))) }"

definition par_onResume :: "starter \<Rightarrow> addr list \<Rightarrow> flow \<Rightarrow> flow option" where
  "par_onResume resume cs s = each (resume_paused resume) cs s"

definition sleep_onResume :: "addr \<Rightarrow> int + nat \<Rightarrow> int \<Rightarrow> int \<Rightarrow> flow \<Rightarrow> flow option" where
  "sleep_onResume a span f r s = set_kind a (Sleep span f r (Some (fl_now s + r))) s"

definition dummy_onResume :: "addr \<Rightarrow> flow \<Rightarrow> flow option" where
  "dummy_onResume a s = Some (say (EvDummy a 3) s)"

definition event_onResume :: "addr \<Rightarrow> flow \<Rightarrow> flow option" where
  "event_onResume a s = Some (fl_subscribe a s)"

definition on_resume :: "starter \<Rightarrow> addr \<Rightarrow> flow \<Rightarrow> flow option" where
  "on_resume resume a s = do {
     x \<leftarrow> objs s a;
     case act_kind x of
       Parallel m cs fin \<Rightarrow> par_onResume resume cs s
     | Sleep span f r t \<Rightarrow> sleep_onResume a span f r s
     | Dummy \<Rightarrow> dummy_onResume a s
     | EventWait \<Rightarrow> event_onResume a s
     | Function fn \<Rightarrow> Some s
     | _ \<Rightarrow> serial_onResume resume a s }"

fun act_resume :: "nat \<Rightarrow> addr \<Rightarrow> flow \<Rightarrow> (bool \<times> flow) option" where
  "act_resume 0 a s = None"
| "act_resume (Suc n) a s = do {
     x \<leftarrow> objs s a;
     if act_state x = kRunning then Some (True, s)
     else if act_state x \<noteq> kPause then Some (False, s)
     else do {
       s1 \<leftarrow> on_resume (act_resume n) a s;
       s2 \<leftarrow> settle a kPause True kRunning s1;
       Some (True, s2) } }"

section \<open>The handlers of a child's end\<close>

type_synonym closure = "fin_cb \<times> bool \<times> reason \<times> trace"

definition handleChildFinishEvent :: "addr \<Rightarrow> closure \<Rightarrow> flow \<Rightarrow> (bool \<times> flow) option" where
  "handleChildFinishEvent a func s = do {
     s1 \<leftarrow> modify a (\<lambda>x. x\<lparr>curr_action := None\<rparr>) s;
     x \<leftarrow> objs s1 a;
     if act_state x = kRunning then Some (False, s1)
     else if act_state x = kPause
     then do { s2 \<leftarrow> modify a (\<lambda>x. x\<lparr>child_finish_func := Some func\<rparr>) s1; Some (True, s2) }
     else Some (True, s1) }"

definition unless_handled :: "addr \<Rightarrow> closure \<Rightarrow> (flow \<Rightarrow> flow option) \<Rightarrow> flow \<Rightarrow> flow option" where
  "unless_handled a func body s = do {
     (handled, s1) \<leftarrow> handleChildFinishEvent a func s;
     if handled then Some s1 else body s1 }"

definition onLastChildFinished :: "nat \<Rightarrow> addr \<Rightarrow> bool \<Rightarrow> reason \<Rightarrow> trace \<Rightarrow> flow \<Rightarrow> flow option" where
  "onLastChildFinished n a is_succ why trace s = do {
     s1 \<leftarrow> modify a (\<lambda>x. x\<lparr>curr_action := None\<rparr>) s;
     x \<leftarrow> objs s1 a;
     if act_state x = kRunning then do_finish n a is_succ why trace s1
     else if act_state x = kPause
     then modify a (\<lambda>x. x\<lparr>child_finish_func := Some (FinishThis a, is_succ, why, trace)\<rparr>) s1
     else Some s1 }"

definition seq_onChildFinished :: "nat \<Rightarrow> addr \<Rightarrow> bool \<Rightarrow> reason \<Rightarrow> trace \<Rightarrow> flow \<Rightarrow> flow option" where
  "seq_onChildFinished n a is_succ why trace =
     unless_handled a (SeqFin a, is_succ, why, trace) (\<lambda>s. do {
       x \<leftarrow> objs s a;
       case act_kind x of
         Sequence m cs i \<Rightarrow>
           if (m = AnySucc \<and> is_succ) \<or> (m = AnyFail \<and> \<not> is_succ) then do_finish n a is_succ why trace s
           else do {
             s1 \<leftarrow> set_kind a (Sequence m cs (i + 1)) s;
             startOtheriseFinish n (act_start n) a is_succ why trace s1 }
       | _ \<Rightarrow> None })"

definition rep_onChildFinished :: "nat \<Rightarrow> addr \<Rightarrow> bool \<Rightarrow> reason \<Rightarrow> trace \<Rightarrow> flow \<Rightarrow> flow option" where
  "rep_onChildFinished n a is_succ why trace =
     unless_handled a (RepFin a, is_succ, why, trace) (\<lambda>s. do {
       x \<leftarrow> objs s a;
       case act_kind x of
         Repeat m t r c \<Rightarrow>
           if (m = BreakSucc \<and> is_succ) \<or> (m = BreakFail \<and> \<not> is_succ) then do_finish n a is_succ why trace s
           else if r > 0 then do {
             c' \<leftarrow> c;
             s1 \<leftarrow> act_reset n c' s;
             s2 \<leftarrow> start_child (act_start n) a c s1;
             set_kind a (Repeat m t (r - 1) c) s2 }
           else do_finish n a True (reason_of 7 ''RepeatNoTimes'') [] s
       | _ \<Rightarrow> None })"

definition loop_onChildFinished :: "nat \<Rightarrow> addr \<Rightarrow> bool \<Rightarrow> reason \<Rightarrow> trace \<Rightarrow> flow \<Rightarrow> flow option" where
  "loop_onChildFinished n a is_succ why trace =
     unless_handled a (LoopFin a, is_succ, why, trace) (\<lambda>s. do {
       x \<leftarrow> objs s a;
       case act_kind x of
         LoopK m c \<Rightarrow>
           if (m = UntilSucc \<and> is_succ) \<or> (m = UntilFail \<and> \<not> is_succ) then do_finish n a is_succ why trace s
           else do {
             c' \<leftarrow> c;
             s1 \<leftarrow> act_reset n c' s;
             start_child (act_start n) a c s1 }
       | _ \<Rightarrow> None })"

definition wrapped :: "wrap_mode \<Rightarrow> bool \<Rightarrow> bool" where
  "wrapped m ok = (case m of NormalMode \<Rightarrow> ok | Invert \<Rightarrow> \<not> ok | AlwaySucc \<Rightarrow> True | AlwayFail \<Rightarrow> False)"

definition wrap_onChildFinished :: "nat \<Rightarrow> addr \<Rightarrow> bool \<Rightarrow> reason \<Rightarrow> trace \<Rightarrow> flow \<Rightarrow> flow option" where
  "wrap_onChildFinished n a is_succ why trace =
     unless_handled a (WrapFin a, is_succ, why, trace) (\<lambda>s. do {
       x \<leftarrow> objs s a;
       case act_kind x of
         Wrapper m c \<Rightarrow> do_finish n a (wrapped m is_succ) why trace s
       | _ \<Rightarrow> None })"

definition onIfFinished :: "nat \<Rightarrow> addr \<Rightarrow> bool \<Rightarrow> reason \<Rightarrow> trace \<Rightarrow> flow \<Rightarrow> flow option" where
  "onIfFinished n a is_succ why trace =
     unless_handled a (IfFin a, is_succ, why, trace) (\<lambda>s. do {
       x \<leftarrow> objs s a;
       case act_kind x of
         LoopIf i e r \<Rightarrow>
           if is_succ then start_child (act_start n) a e s
           else do_finish n a r why trace s
       | _ \<Rightarrow> None })"

definition onExecFinished :: "nat \<Rightarrow> addr \<Rightarrow> bool \<Rightarrow> reason \<Rightarrow> trace \<Rightarrow> flow \<Rightarrow> flow option" where
  "onExecFinished n a is_succ why trace =
     unless_handled a (ExecFin a, is_succ, why, trace) (\<lambda>s. do {
       x \<leftarrow> objs s a;
       case act_kind x of
         LoopIf i e r \<Rightarrow> do {
           i' \<leftarrow> i;
           e' \<leftarrow> e;
           s1 \<leftarrow> act_reset n i' s;
           s2 \<leftarrow> act_reset n e' s1;
           (ok, s3) \<leftarrow> startThisAction (act_start n) a i' s2;
           if ok then Some s3 else do_finish n a r why trace s3 }
       | _ \<Rightarrow> None })"

definition onCondActionFinished :: "nat \<Rightarrow> addr \<Rightarrow> bool \<Rightarrow> reason \<Rightarrow> trace \<Rightarrow> flow \<Rightarrow> flow option" where
  "onCondActionFinished n a is_succ why trace =
     unless_handled a (CondFin a, is_succ, why, trace) (\<lambda>s. do {
       x \<leftarrow> objs s a;
       case act_kind x of
         IfElse i t e \<Rightarrow>
           if is_succ \<and> t \<noteq> None then start_child (act_start n) a t s
           else if \<not> is_succ \<and> e \<noteq> None then start_child (act_start n) a e s
           else do_finish n a True why trace s
       | _ \<Rightarrow> None })"

definition onIfActionFinished :: "nat \<Rightarrow> addr \<Rightarrow> bool \<Rightarrow> reason \<Rightarrow> trace \<Rightarrow> flow \<Rightarrow> flow option" where
  "onIfActionFinished n a is_succ why trace =
     unless_handled a (IfThenFin a, is_succ, why, trace) (\<lambda>s. do {
       x \<leftarrow> objs s a;
       case act_kind x of
         IfThen ps i tmp \<Rightarrow>
           if is_succ then
             (if i < length ps then start_child (act_start n) a (Some (snd (ps ! i))) s else None)
           else do {
             s1 \<leftarrow> set_kind a (IfThen ps (i + 1) tmp) s;
             ifthen_doStart n (act_start n) a s1 }
       | _ \<Rightarrow> None })"

definition onSwitchActionFinished :: "nat \<Rightarrow> addr \<Rightarrow> bool \<Rightarrow> reason \<Rightarrow> trace \<Rightarrow> flow \<Rightarrow> flow option" where
  "onSwitchActionFinished n a is_succ why trace =
     unless_handled a (SwitchFin a, is_succ, why, trace) (\<lambda>s. do {
       x \<leftarrow> objs s a;
       case act_kind x of
         Switch w cs d \<Rightarrow>
           if is_succ then
             (let c = (case map_of cs (r_message why) of Some c \<Rightarrow> Some c | None \<Rightarrow> d)
              in if c \<noteq> None then start_child (act_start n) a c s
                 else do_finish n a False (reason_of 8 ''SwitchSkip'') [] s)
           else do_finish n a False (reason_of 9 ''SwitchFail'') [] s
       | _ \<Rightarrow> None })"

definition par_onChildFinished :: "nat \<Rightarrow> addr \<Rightarrow> nat \<Rightarrow> bool \<Rightarrow> flow \<Rightarrow> flow option" where
  "par_onChildFinished n a i is_succ s = do {
     x \<leftarrow> objs s a;
     case act_kind x of
       Parallel m cs fin \<Rightarrow>
         if act_state x = kRunning then do {
           let fin' = fin(i \<mapsto> is_succ);
           s1 \<leftarrow> set_kind a (Parallel m cs fin') s;
           if (m = AnySucc \<and> is_succ) \<or> (m = AnyFail \<and> \<not> is_succ) then do {
             s2 \<leftarrow> stopAllActions (act_stop n) cs s1;
             do_finish n a True no_reason [] s2 }
           else if finished_count fin' (length cs) = length cs then do_finish n a True no_reason [] s1
           else Some s1 }
         else Some s
     | _ \<Rightarrow> None }"

definition onChildBlocked :: "nat \<Rightarrow> addr \<Rightarrow> reason \<Rightarrow> trace \<Rightarrow> flow \<Rightarrow> flow option" where
  "onChildBlocked n a why trace s = do {
     x \<leftarrow> objs s a;
     case act_kind x of
       Parallel m cs fin \<Rightarrow>
         if act_state x = kRunning then do {
           s1 \<leftarrow> pauseAllActions (act_pause n) cs s;
           (_, s2) \<leftarrow> act_block a why trace s1;
           Some s2 }
         else Some s
     | _ \<Rightarrow> None }"

section \<open>Running the queue\<close>

definition run_fin :: "nat \<Rightarrow> fin_cb \<Rightarrow> bool \<Rightarrow> reason \<Rightarrow> trace \<Rightarrow> flow \<Rightarrow> flow option" where
  "run_fin n cb ok why tr s = (case cb of
       NoFin \<Rightarrow> None
     | UserFin u \<Rightarrow> Some (say (EvFinish u ok why tr) s)
     | SeqFin a \<Rightarrow> seq_onChildFinished n a ok why tr s
     | RepFin a \<Rightarrow> rep_onChildFinished n a ok why tr s
     | LoopFin a \<Rightarrow> loop_onChildFinished n a ok why tr s
     | WrapFin a \<Rightarrow> wrap_onChildFinished n a ok why tr s
     | IfFin a \<Rightarrow> onIfFinished n a ok why tr s
     | ExecFin a \<Rightarrow> onExecFinished n a ok why tr s
     | CondFin a \<Rightarrow> onCondActionFinished n a ok why tr s
     | IfThenFin a \<Rightarrow> onIfActionFinished n a ok why tr s
     | SwitchFin a \<Rightarrow> onSwitchActionFinished n a ok why tr s
     | LastFin a \<Rightarrow> onLastChildFinished n a ok why tr s
     | ParFin a i \<Rightarrow> par_onChildFinished n a i ok s
     | FinishThis a \<Rightarrow> do_finish n a ok why tr s)"

definition run_blk :: "nat \<Rightarrow> blk_cb \<Rightarrow> reason \<Rightarrow> trace \<Rightarrow> flow \<Rightarrow> flow option" where
  "run_blk n cb why tr s = (case cb of
       NoBlk \<Rightarrow> None
     | UserBlk u \<Rightarrow> Some (say (EvBlock u why tr) s)
     | BlockThis a \<Rightarrow> do { (_, s1) \<leftarrow> act_block a why tr s; Some s1 }
     | ParBlk a \<Rightarrow> onChildBlocked n a why tr s)"

definition run_task :: "nat \<Rightarrow> task \<Rightarrow> flow \<Rightarrow> flow option" where
  "run_task n t s = (case t of
       FinTask cb ok why tr \<Rightarrow> run_fin n cb ok why tr s
     | BlkTask cb why tr \<Rightarrow> run_blk n cb why tr s
     | DeleteTimer \<Rightarrow> Some s)"

text \<open>One task of the queue, the oldest.\<close>

definition run_front :: "nat \<Rightarrow> flow \<Rightarrow> flow option" where
  "run_front n s = (case runq s of [] \<Rightarrow> Some s | e # q \<Rightarrow> run_task n (snd e) (s\<lparr>runq := q\<rparr>))"

fun run_fronts :: "nat \<Rightarrow> nat \<Rightarrow> flow \<Rightarrow> flow option" where
  "run_fronts n 0 s = Some s"
| "run_fronts n (Suc k) s = do { s1 \<leftarrow> run_front n s; run_fronts n k s1 }"

end
