(* ===== verification/Flow_Build.thy ===== *)
theory Flow_Build
  imports Flow_Run "HOL-Library.List_Lexorder" "HOL-Library.Char_ord"
begin

text \<open>
  Building and destroying trees of actions: \<open>setParent\<close>, \<open>addChild\<close>, \<open>addChildAs\<close>, \<open>setChild\<close>,
  \<open>setChildAs\<close>, \<open>isReady\<close>, the destructors, the timeouts, and \<open>EventPublisherImpl::publish\<close>.
  The variables of an action (\<open>vars_\<close>, JSON values) are not modelled, so \<open>setParent\<close> is about
  \<open>parent_\<close> alone.
\<close>

section \<open>Destruction\<close>

definition owned_children :: "kind \<Rightarrow> addr list" where
  "owned_children k = (case k of
       Sequence m cs i \<Rightarrow> cs
     | Repeat m t r c \<Rightarrow> opt_list c
     | LoopK m c \<Rightarrow> opt_list c
     | Wrapper m c \<Rightarrow> opt_list c
     | Composite c \<Rightarrow> opt_list c
     | LoopIf i e r \<Rightarrow> opt_list i @ opt_list e
     | IfElse i t e \<Rightarrow> opt_list i @ opt_list t @ opt_list e
     | IfThen ps i tmp \<Rightarrow> opt_list tmp @ concat (map (\<lambda>(i, t). [i, t]) ps)
     | Switch w cs d \<Rightarrow> opt_list w @ opt_list d @ map snd cs
     | Parallel m cs fin \<Rightarrow> cs
     | _ \<Rightarrow> [])"

fun act_delete :: "nat \<Rightarrow> addr \<Rightarrow> flow \<Rightarrow> flow option" where
  "act_delete 0 a s = None"
| "act_delete (Suc n) a s = do {
     x \<leftarrow> objs s a;
     s1 \<leftarrow> each (act_delete n) (owned_children (act_kind x)) s;
     let s2 = (if is_event (act_kind x) \<and> act_state x = kRunning then fl_unsubscribe a s1 else s1);
     s3 \<leftarrow> cancelDispatchedCallback a s2;
     Some (s3\<lparr>objs := (objs s3)(a := None)\<rparr>) }"

definition delete_opt :: "nat \<Rightarrow> addr ptr \<Rightarrow> flow \<Rightarrow> flow option" where
  "delete_opt n c s = each (act_delete n) (opt_list c) s"

section \<open>Assembly\<close>

definition act_setParent :: "addr \<Rightarrow> addr ptr \<Rightarrow> flow \<Rightarrow> (bool \<times> flow) option" where
  "act_setParent c p s = do {
     x \<leftarrow> objs s c;
     if p \<noteq> None \<and> act_parent x \<noteq> None then Some (False, s)
     else do { s1 \<leftarrow> modify c (\<lambda>x. x\<lparr>act_parent := p\<rparr>) s; Some (True, s1) } }"

definition hook :: "addr \<Rightarrow> fin_cb \<Rightarrow> blk_cb \<Rightarrow> flow \<Rightarrow> flow option" where
  "hook c f b s = modify c (\<lambda>x. x\<lparr>finish_cb := f, block_cb := b\<rparr>) s"

definition seq_addChild :: "addr \<Rightarrow> addr ptr \<Rightarrow> flow \<Rightarrow> (int \<times> flow) option" where
  "seq_addChild a child s = (case child of
     None \<Rightarrow> Some (0, s)
   | Some c \<Rightarrow> do {
       (ok, s1) \<leftarrow> act_setParent c (Some a) s;
       if \<not> ok then Some (0, s1)
       else do {
         s2 \<leftarrow> hook c (SeqFin a) (BlockThis a) s1;
         x \<leftarrow> objs s2 a;
         case act_kind x of
           Sequence m cs i \<Rightarrow> do {
             s3 \<leftarrow> set_kind a (Sequence m (cs @ [c]) i) s2;
             Some (int (length cs), s3) }
         | _ \<Rightarrow> None } })"

definition par_addChild :: "addr \<Rightarrow> addr ptr \<Rightarrow> flow \<Rightarrow> (int \<times> flow) option" where
  "par_addChild a child s = (case child of
     None \<Rightarrow> Some (-1, s)
   | Some c \<Rightarrow> do {
       (ok, s1) \<leftarrow> act_setParent c (Some a) s;
       if \<not> ok then Some (-1, s1)
       else do {
         x \<leftarrow> objs s1 a;
         case act_kind x of
           Parallel m cs fin \<Rightarrow> do {
             s2 \<leftarrow> hook c (ParFin a (length cs)) (ParBlk a) s1;
             s3 \<leftarrow> set_kind a (Parallel m (cs @ [c]) fin) s2;
             Some (int (length cs), s3) }
         | _ \<Rightarrow> None } })"

definition addChild :: "addr \<Rightarrow> addr ptr \<Rightarrow> flow \<Rightarrow> (int \<times> flow) option" where
  "addChild a child s = do {
     x \<leftarrow> objs s a;
     case act_kind x of
       Sequence m cs i \<Rightarrow> seq_addChild a child s
     | Parallel m cs fin \<Rightarrow> par_addChild a child s
     | _ \<Rightarrow> Some (-1, s) }"

text \<open>The end of \<open>setChild\<close> and \<open>setChildAs\<close>: the callbacks, the old child deleted, the new one stored;
  and the end for a role that is not known.\<close>

definition take_child :: "nat \<Rightarrow> addr \<Rightarrow> addr \<Rightarrow> fin_cb \<Rightarrow> addr ptr \<Rightarrow> kind \<Rightarrow> flow \<Rightarrow> (bool \<times> flow) option" where
  "take_child n a c f old k s = do {
     s1 \<leftarrow> hook c f (BlockThis a) s;
     s2 \<leftarrow> delete_opt n old s1;
     s3 \<leftarrow> set_kind a k s2;
     Some (True, s3) }"

definition refuse_child :: "addr \<Rightarrow> flow \<Rightarrow> (bool \<times> flow) option" where
  "refuse_child c s = do { (_, s1) \<leftarrow> act_setParent c None s; Some (False, s1) }"

text \<open>The beginning of them.\<close>

definition with_parent :: "addr \<Rightarrow> addr ptr \<Rightarrow> (addr \<Rightarrow> flow \<Rightarrow> (bool \<times> flow) option) \<Rightarrow> flow \<Rightarrow> (bool \<times> flow) option" where
  "with_parent a child body s = (case child of
     None \<Rightarrow> Some (False, s)
   | Some c \<Rightarrow> do {
       (ok, s1) \<leftarrow> act_setParent c (Some a) s;
       if \<not> ok then Some (False, s1) else body c s1 })"

definition repeat_setChild :: "nat \<Rightarrow> addr \<Rightarrow> rep_mode \<Rightarrow> usize \<Rightarrow> usize \<Rightarrow> addr ptr \<Rightarrow> addr ptr \<Rightarrow> flow \<Rightarrow> (bool \<times> flow) option" where
  "repeat_setChild n a m t r old child =
     with_parent a child (\<lambda>c. take_child n a c (RepFin a) old (Repeat m t r (Some c)))"

definition loop_setChild :: "nat \<Rightarrow> addr \<Rightarrow> loop_mode \<Rightarrow> addr ptr \<Rightarrow> addr ptr \<Rightarrow> flow \<Rightarrow> (bool \<times> flow) option" where
  "loop_setChild n a m old child =
     with_parent a child (\<lambda>c. take_child n a c (LoopFin a) old (LoopK m (Some c)))"

definition wrapper_setChild :: "nat \<Rightarrow> addr \<Rightarrow> wrap_mode \<Rightarrow> addr ptr \<Rightarrow> addr ptr \<Rightarrow> flow \<Rightarrow> (bool \<times> flow) option" where
  "wrapper_setChild n a m old child =
     with_parent a child (\<lambda>c. take_child n a c (WrapFin a) old (Wrapper m (Some c)))"

definition composite_setChild :: "nat \<Rightarrow> addr \<Rightarrow> addr ptr \<Rightarrow> addr ptr \<Rightarrow> flow \<Rightarrow> (bool \<times> flow) option" where
  "composite_setChild n a old child =
     with_parent a child (\<lambda>c. take_child n a c (LastFin a) old (Composite (Some c)))"

definition setChild :: "nat \<Rightarrow> addr \<Rightarrow> addr ptr \<Rightarrow> flow \<Rightarrow> (bool \<times> flow) option" where
  "setChild n a child s = do {
     x \<leftarrow> objs s a;
     case act_kind x of
       Repeat m t r c \<Rightarrow> repeat_setChild n a m t r c child s
     | LoopK m c \<Rightarrow> loop_setChild n a m c child s
     | Wrapper m c \<Rightarrow> wrapper_setChild n a m c child s
     | Composite c \<Rightarrow> composite_setChild n a c child s
     | _ \<Rightarrow> Some (False, s) }"

definition loopif_setChildAs :: "nat \<Rightarrow> addr \<Rightarrow> addr ptr \<Rightarrow> addr ptr \<Rightarrow> bool \<Rightarrow> addr ptr \<Rightarrow> string \<Rightarrow> flow \<Rightarrow> (bool \<times> flow) option" where
  "loopif_setChildAs n a i e r child role =
     with_parent a child (\<lambda>c s.
       if role = ''if'' then take_child n a c (IfFin a) i (LoopIf (Some c) e r) s
       else if role = ''exec'' then take_child n a c (ExecFin a) e (LoopIf i (Some c) r) s
       else refuse_child c s)"

definition ifelse_setChildAs :: "nat \<Rightarrow> addr \<Rightarrow> addr ptr \<Rightarrow> addr ptr \<Rightarrow> addr ptr \<Rightarrow> addr ptr \<Rightarrow> string \<Rightarrow> flow \<Rightarrow> (bool \<times> flow) option" where
  "ifelse_setChildAs n a i t e child role =
     with_parent a child (\<lambda>c s.
       if role = ''if'' then take_child n a c (CondFin a) i (IfElse (Some c) t e) s
       else if role = ''succ'' \<or> role = ''then'' then take_child n a c (LastFin a) t (IfElse i (Some c) e) s
       else if role = ''fail'' \<or> role = ''else'' then take_child n a c (LastFin a) e (IfElse i t (Some c)) s
       else refuse_child c s)"

text \<open>\<open>case_actions_\<close> is a map: \<open>emplace\<close> keeps the order of the keys and refuses a key it has.\<close>

definition switch_setChildAs :: "nat \<Rightarrow> addr \<Rightarrow> addr ptr \<Rightarrow> (string \<times> addr) list \<Rightarrow> addr ptr \<Rightarrow> addr ptr \<Rightarrow> string \<Rightarrow> flow \<Rightarrow> (bool \<times> flow) option" where
  "switch_setChildAs n a w cs d child role =
     with_parent a child (\<lambda>c s.
       if role = ''switch'' then take_child n a c (SwitchFin a) w (Switch (Some c) cs d) s
       else if role = ''default'' then take_child n a c (LastFin a) d (Switch w cs (Some c)) s
       else if take 5 role = ''case:'' \<and> map_of cs role = None
       then take_child n a c (LastFin a) None (Switch w (insort_key fst (role, c) cs) d) s
       else refuse_child c s)"

definition setChildAs :: "nat \<Rightarrow> addr \<Rightarrow> addr ptr \<Rightarrow> string \<Rightarrow> flow \<Rightarrow> (bool \<times> flow) option" where
  "setChildAs n a child role s = do {
     x \<leftarrow> objs s a;
     case act_kind x of
       LoopIf i e r \<Rightarrow> loopif_setChildAs n a i e r child role s
     | IfElse i t e \<Rightarrow> ifelse_setChildAs n a i t e child role s
     | Switch w cs d \<Rightarrow> switch_setChildAs n a w cs d child role s
     | _ \<Rightarrow> Some (False, s) }"

text \<open>The constructors that take the child assert that it has no parent.\<close>

definition construct_with :: "addr \<Rightarrow> addr \<Rightarrow> fin_cb \<Rightarrow> flow \<Rightarrow> flow option" where
  "construct_with a c f s = do {
     (ok, s1) \<leftarrow> act_setParent c (Some a) s;
     if ok then hook c f (BlockThis a) s1 else None }"

definition put_new :: "addr \<Rightarrow> int \<Rightarrow> string \<Rightarrow> kind \<Rightarrow> flow \<Rightarrow> flow" where
  "put_new a i ty k s = s\<lparr>objs := (objs s)(a \<mapsto> new_action i ty k)\<rparr>"

definition repeat_new :: "addr \<Rightarrow> int \<Rightarrow> addr \<Rightarrow> usize \<Rightarrow> rep_mode \<Rightarrow> flow \<Rightarrow> flow option" where
  "repeat_new a i c tms m s = construct_with a c (RepFin a) (put_new a i ''Repeat'' (Repeat m tms 0 (Some c)) s)"

definition loop_new :: "addr \<Rightarrow> int \<Rightarrow> addr \<Rightarrow> loop_mode \<Rightarrow> flow \<Rightarrow> flow option" where
  "loop_new a i c m s = construct_with a c (LoopFin a) (put_new a i ''Loop'' (LoopK m (Some c)) s)"

definition wrapper_new :: "addr \<Rightarrow> int \<Rightarrow> addr \<Rightarrow> wrap_mode \<Rightarrow> flow \<Rightarrow> flow option" where
  "wrapper_new a i c m s = construct_with a c (WrapFin a) (put_new a i ''Wrapper'' (Wrapper m (Some c)) s)"

definition ifthen_addChildAs :: "addr \<Rightarrow> (addr \<times> addr) list \<Rightarrow> nat \<Rightarrow> addr ptr \<Rightarrow> addr ptr \<Rightarrow> string \<Rightarrow> flow \<Rightarrow> (int \<times> flow) option" where
  "ifthen_addChildAs a ps i tmp child role s = (case child of
     None \<Rightarrow> Some (-1, s)
   | Some c \<Rightarrow>
       if role = ''if'' then
         (if tmp \<noteq> None then Some (-1, s)
          else do {
            (ok, s1) \<leftarrow> act_setParent c (Some a) s;
            if \<not> ok then Some (-1, s1)
            else do {
              s2 \<leftarrow> hook c (IfThenFin a) (BlockThis a) s1;
              s3 \<leftarrow> set_kind a (IfThen ps i (Some c)) s2;
              Some (int (length ps), s3) } })
       else if role = ''then'' then
         (case tmp of
            None \<Rightarrow> Some (-1, s)
          | Some c0 \<Rightarrow> do {
              (ok, s1) \<leftarrow> act_setParent c (Some a) s;
              if \<not> ok then Some (-1, s1)
              else do {
                s2 \<leftarrow> hook c (LastFin a) (BlockThis a) s1;
                s3 \<leftarrow> set_kind a (IfThen (ps @ [(c0, c)]) i None) s2;
                Some (int (length ps), s3) } })
       else Some (-1, s))"

definition addChildAs :: "addr \<Rightarrow> addr ptr \<Rightarrow> string \<Rightarrow> flow \<Rightarrow> (int \<times> flow) option" where
  "addChildAs a child role s = do {
     x \<leftarrow> objs s a;
     case act_kind x of
       IfThen ps i tmp \<Rightarrow> ifthen_addChildAs a ps i tmp child role s
     | _ \<Rightarrow> Some (-1, s) }"

section \<open>Readiness\<close>

fun each_ready :: "(addr \<Rightarrow> bool option) \<Rightarrow> addr list \<Rightarrow> bool option" where
  "each_ready r [] = Some True"
| "each_ready r (c # cs) = do { b \<leftarrow> r c; if b then each_ready r cs else Some False }"

definition seq_isReady :: "(addr \<Rightarrow> bool option) \<Rightarrow> addr list \<Rightarrow> bool option" where
  "seq_isReady r cs = each_ready r cs"

definition par_isReady :: "(addr \<Rightarrow> bool option) \<Rightarrow> addr list \<Rightarrow> bool option" where
  "par_isReady r cs = each_ready r cs"

definition repeat_isReady :: "(addr \<Rightarrow> bool option) \<Rightarrow> addr ptr \<Rightarrow> bool option" where
  "repeat_isReady r c = (case c of None \<Rightarrow> Some False | Some c' \<Rightarrow> r c')"

definition loop_isReady :: "(addr \<Rightarrow> bool option) \<Rightarrow> addr ptr \<Rightarrow> bool option" where
  "loop_isReady r c = (case c of None \<Rightarrow> Some False | Some c' \<Rightarrow> r c')"

definition wrapper_isReady :: "(addr \<Rightarrow> bool option) \<Rightarrow> addr ptr \<Rightarrow> bool option" where
  "wrapper_isReady r c = (case c of None \<Rightarrow> Some False | Some c' \<Rightarrow> r c')"

definition composite_isReady :: "(addr \<Rightarrow> bool option) \<Rightarrow> addr ptr \<Rightarrow> bool option" where
  "composite_isReady r c = (case c of Some c' \<Rightarrow> r c' | None \<Rightarrow> Some False)"

definition loopif_isReady :: "(addr \<Rightarrow> bool option) \<Rightarrow> addr ptr \<Rightarrow> addr ptr \<Rightarrow> bool option" where
  "loopif_isReady r i e = (case i of
     None \<Rightarrow> Some False
   | Some i' \<Rightarrow> (case e of None \<Rightarrow> Some False | Some e' \<Rightarrow> each_ready r [i', e']))"

definition ifelse_isReady :: "(addr \<Rightarrow> bool option) \<Rightarrow> addr ptr \<Rightarrow> addr ptr \<Rightarrow> addr ptr \<Rightarrow> bool option" where
  "ifelse_isReady r i t e = (case i of
     None \<Rightarrow> Some False
   | Some i' \<Rightarrow> if t = None \<and> e = None then Some False else each_ready r (i' # opt_list t @ opt_list e))"

definition ifthen_isReady :: "(addr \<times> addr) list \<Rightarrow> addr ptr \<Rightarrow> bool" where
  "ifthen_isReady ps tmp \<longleftrightarrow> tmp = None \<and> ps \<noteq> []"

definition switch_isReady :: "(addr \<Rightarrow> bool option) \<Rightarrow> addr ptr \<Rightarrow> (string \<times> addr) list \<Rightarrow> addr ptr \<Rightarrow> bool option" where
  "switch_isReady r w cs d = (case w of
     None \<Rightarrow> Some False
   | Some w' \<Rightarrow> if d = None \<and> cs = [] then Some False else each_ready r (w' # opt_list d @ map snd cs))"

definition function_isReady :: "nat option \<Rightarrow> bool" where
  "function_isReady fn \<longleftrightarrow> fn \<noteq> None"

text \<open>The readiness of an \<open>EventAction\<close> is its subclass's: the parameter \<open>ev\<close>.\<close>

fun isReady :: "nat \<Rightarrow> (addr \<Rightarrow> bool) \<Rightarrow> flow \<Rightarrow> addr \<Rightarrow> bool option" where
  "isReady 0 ev s a = None"
| "isReady (Suc n) ev s a = do {
     x \<leftarrow> objs s a;
     case act_kind x of
       Sequence m cs i \<Rightarrow> seq_isReady (isReady n ev s) cs
     | Repeat m t r c \<Rightarrow> repeat_isReady (isReady n ev s) c
     | LoopK m c \<Rightarrow> loop_isReady (isReady n ev s) c
     | Wrapper m c \<Rightarrow> wrapper_isReady (isReady n ev s) c
     | Composite c \<Rightarrow> composite_isReady (isReady n ev s) c
     | LoopIf i e r \<Rightarrow> loopif_isReady (isReady n ev s) i e
     | IfElse i t e \<Rightarrow> ifelse_isReady (isReady n ev s) i t e
     | IfThen ps i tmp \<Rightarrow> Some (ifthen_isReady ps tmp)
     | Switch w cs d \<Rightarrow> switch_isReady (isReady n ev s) w cs d
     | Parallel m cs fin \<Rightarrow> par_isReady (isReady n ev s) cs
     | Function fn \<Rightarrow> Some (function_isReady fn)
     | EventWait \<Rightarrow> Some (ev a)
     | _ \<Rightarrow> Some True }"

section \<open>Timeouts and events\<close>

definition setTimeout :: "addr \<Rightarrow> int \<Rightarrow> flow \<Rightarrow> flow option" where
  "setTimeout a ms s = modify a (\<lambda>x. x\<lparr>timer_ev := Some (ms, act_state x = kRunning)\<rparr>) s"

definition resetTimeout :: "addr \<Rightarrow> flow \<Rightarrow> flow option" where
  "resetTimeout a s = do {
     x \<leftarrow> objs s a;
     if timer_ev x = None then Some s
     else do {
       s1 \<leftarrow> modify a (\<lambda>x. x\<lparr>timer_ev := None\<rparr>) s;
       Some (snd (fl_runNext DeleteTimer s1)) } }"

text \<open>\<open>publish\<close> walks a copy of the subscribers from the back; \<open>onEvent\<close> is the user's.\<close>

fun publish_to :: "(addr \<Rightarrow> flow \<Rightarrow> (bool \<times> flow) option) \<Rightarrow> addr list \<Rightarrow> flow \<Rightarrow> flow option" where
  "publish_to onEvent [] s = Some s"
| "publish_to onEvent (a # rest) s = do {
     (stop, s1) \<leftarrow> onEvent a s;
     if stop then Some s1 else publish_to onEvent rest s1 }"

definition publish :: "(addr \<Rightarrow> flow \<Rightarrow> (bool \<times> flow) option) \<Rightarrow> flow \<Rightarrow> flow option" where
  "publish onEvent s = publish_to onEvent (rev (subscribers s)) s"

end
