(* ===== verification/Flow_Type.thy ===== *)
theory Flow_Type
  imports Flow_Build
begin

text \<open>
  Well-typed stores of actions. A typing gives every address the class of its object and the
  members that never change while the tree runs; a store is well typed when every object agrees
  with it and every handler, closure and queued task names an object of the class whose handler it
  is. With a rank that grows from child to parent, every operation on a well-typed store returns
  and leaves the store well typed: no null pointer, no failed assertion, no index out of range.
\<close>

section \<open>Results that exist\<close>

definition okay :: "'a option \<Rightarrow> ('a \<Rightarrow> bool) \<Rightarrow> bool" where
  "okay m Q = (case m of None \<Rightarrow> False | Some r \<Rightarrow> Q r)"

lemma okay_simps [simp]: "okay (Some r) Q = Q r" "okay None Q = False"
  by (simp_all add: okay_def)

lemma okay_bind [simp]: "okay (m \<bind> f) Q = okay m (\<lambda>r. okay (f r) Q)"
  by (cases m) simp_all

lemma okay_pair [simp]: "okay (case p of (b, s) \<Rightarrow> f b s) Q = (case p of (b, s) \<Rightarrow> okay (f b s) Q)"
  by (cases p) simp

lemma okay_mono: "\<lbrakk>okay m P; \<And>r. P r \<Longrightarrow> Q r\<rbrakk> \<Longrightarrow> okay m Q"
  by (cases m) simp_all

lemma okay_iff: "okay m Q \<longleftrightarrow> (\<exists>r. m = Some r \<and> Q r)"
  by (cases m) simp_all

lemma okayD: "okay m Q \<Longrightarrow> m = Some r \<Longrightarrow> Q r"
  by simp

section \<open>Typings\<close>

text \<open>The members a class needs.\<close>

definition has_members :: "kind \<Rightarrow> bool" where
  "has_members k = (case k of
       Repeat m t r c \<Rightarrow> c \<noteq> None
     | LoopK m c \<Rightarrow> c \<noteq> None
     | Wrapper m c \<Rightarrow> c \<noteq> None
     | Composite c \<Rightarrow> c \<noteq> None
     | LoopIf i e r \<Rightarrow> i \<noteq> None \<and> e \<noteq> None
     | IfElse i t e \<Rightarrow> i \<noteq> None
     | IfThen ps i tmp \<Rightarrow> tmp = None \<and> ps \<noteq> []
     | Switch w cs d \<Rightarrow> w \<noteq> None
     | Function fn \<Rightarrow> fn \<noteq> None
     | _ \<Rightarrow> True)"

text \<open>An action that says it is ready has them.\<close>

lemma ready_members:
  assumes "isReady n ev s a = Some True" and "objs s a = Some x"
  shows "has_members (act_kind x)"
proof (cases n)
  case (Suc m)
  then show ?thesis
    using assms
    by (cases "act_kind x")
       (auto simp: has_members_def repeat_isReady_def loop_isReady_def wrapper_isReady_def composite_isReady_def
          loopif_isReady_def ifelse_isReady_def ifthen_isReady_def switch_isReady_def function_isReady_def
          split: option.splits)
qed (use assms in simp)

definition skel :: "kind \<Rightarrow> kind" where
  "skel k = (case k of
       Sequence m cs i \<Rightarrow> Sequence m cs 0
     | Repeat m t r c \<Rightarrow> Repeat m t 0 c
     | IfThen ps i tmp \<Rightarrow> IfThen ps 0 tmp
     | Parallel m cs fin \<Rightarrow> Parallel m cs Map.empty
     | Sleep span f r t \<Rightarrow> Sleep span 0 0 None
     | k \<Rightarrow> k)"

type_synonym typing = "addr \<Rightarrow> kind option"

definition typing_ok :: "typing \<Rightarrow> (addr \<Rightarrow> nat) \<Rightarrow> bool" where
  "typing_ok T rk \<longleftrightarrow> (\<forall>a k. T a = Some k \<longrightarrow> has_members k \<and>
     (\<forall>c \<in> set (owned_children k). T c \<noteq> None \<and> rk c < rk a))"

fun fin_ok :: "typing \<Rightarrow> fin_cb \<Rightarrow> bool" where
  "fin_ok T NoFin \<longleftrightarrow> False"
| "fin_ok T (UserFin u) \<longleftrightarrow> True"
| "fin_ok T (SeqFin a) \<longleftrightarrow> (\<exists>m cs. T a = Some (Sequence m cs 0))"
| "fin_ok T (RepFin a) \<longleftrightarrow> (\<exists>m t c. T a = Some (Repeat m t 0 c))"
| "fin_ok T (LoopFin a) \<longleftrightarrow> (\<exists>m c. T a = Some (LoopK m c))"
| "fin_ok T (WrapFin a) \<longleftrightarrow> (\<exists>m c. T a = Some (Wrapper m c))"
| "fin_ok T (IfFin a) \<longleftrightarrow> (\<exists>i e r. T a = Some (LoopIf i e r))"
| "fin_ok T (ExecFin a) \<longleftrightarrow> (\<exists>i e r. T a = Some (LoopIf i e r))"
| "fin_ok T (CondFin a) \<longleftrightarrow> (\<exists>i t e. T a = Some (IfElse i t e))"
| "fin_ok T (IfThenFin a) \<longleftrightarrow> (\<exists>ps. T a = Some (IfThen ps 0 None))"
| "fin_ok T (SwitchFin a) \<longleftrightarrow> (\<exists>w cs d. T a = Some (Switch w cs d))"
| "fin_ok T (LastFin a) \<longleftrightarrow> (\<exists>k. T a = Some k \<and> is_serial k)"
| "fin_ok T (ParFin a i) \<longleftrightarrow> (\<exists>m cs. T a = Some (Parallel m cs Map.empty))"
| "fin_ok T (FinishThis a) \<longleftrightarrow> (\<exists>k. T a = Some k \<and> is_serial k)"

fun blk_ok :: "typing \<Rightarrow> blk_cb \<Rightarrow> bool" where
  "blk_ok T NoBlk \<longleftrightarrow> False"
| "blk_ok T (UserBlk u) \<longleftrightarrow> True"
| "blk_ok T (BlockThis a) \<longleftrightarrow> T a \<noteq> None"
| "blk_ok T (ParBlk a) \<longleftrightarrow> (\<exists>m cs. T a = Some (Parallel m cs Map.empty))"

fun task_ok :: "typing \<Rightarrow> task \<Rightarrow> bool" where
  "task_ok T (FinTask cb ok why tr) \<longleftrightarrow> fin_ok T cb"
| "task_ok T (BlkTask cb why tr) \<longleftrightarrow> blk_ok T cb"
| "task_ok T DeleteTimer \<longleftrightarrow> True"

text \<open>The members that change: the child that runs is one below, a stored closure is one of the
  handlers, and the index of an \<open>IfThen\<close> that has not finished is in range.\<close>

definition members_ok :: "typing \<Rightarrow> (addr \<Rightarrow> nat) \<Rightarrow> addr \<Rightarrow> action \<Rightarrow> bool" where
  "members_ok T rk a x \<longleftrightarrow>
     (finish_cb x \<noteq> NoFin \<longrightarrow> fin_ok T (finish_cb x)) \<and>
     (block_cb x \<noteq> NoBlk \<longrightarrow> blk_ok T (block_cb x)) \<and>
     (case curr_action x of None \<Rightarrow> True | Some c \<Rightarrow> T c \<noteq> None \<and> rk c < rk a) \<and>
     (case child_finish_func x of None \<Rightarrow> True | Some (cb, _) \<Rightarrow> fin_ok T cb)"

definition index_ok :: "action \<Rightarrow> bool" where
  "index_ok x = (case act_kind x of
       IfThen ps i tmp \<Rightarrow> act_state x \<noteq> kFinished \<longrightarrow> i < length ps
     | _ \<Rightarrow> True)"

definition store_ok :: "typing \<Rightarrow> (addr \<Rightarrow> nat) \<Rightarrow> addr set \<Rightarrow> flow \<Rightarrow> bool" where
  "store_ok T rk E s \<longleftrightarrow>
     (\<forall>a. T a = map_option (\<lambda>x. skel (act_kind x)) (objs s a)) \<and>
     (\<forall>a x. objs s a = Some x \<longrightarrow> members_ok T rk a x \<and> (a \<notin> E \<longrightarrow> index_ok x)) \<and>
     (\<forall>e \<in> set (runq s). task_ok T (snd e))"

lemma skel_iff [simp]:
  "skel k = Sequence m cs j \<longleftrightarrow> (\<exists>i. k = Sequence m cs i) \<and> j = 0"
  "skel k = Repeat rm t r0 c \<longleftrightarrow> (\<exists>r. k = Repeat rm t r c) \<and> r0 = 0"
  "skel k = LoopK lm c \<longleftrightarrow> k = LoopK lm c"
  "skel k = Wrapper wm c \<longleftrightarrow> k = Wrapper wm c"
  "skel k = Composite c \<longleftrightarrow> k = Composite c"
  "skel k = LoopIf c c' fr \<longleftrightarrow> k = LoopIf c c' fr"
  "skel k = IfElse c c' c'' \<longleftrightarrow> k = IfElse c c' c''"
  "skel k = IfThen ps j tmp \<longleftrightarrow> (\<exists>i. k = IfThen ps i tmp) \<and> j = 0"
  "skel k = Switch c sc d \<longleftrightarrow> k = Switch c sc d"
  "skel k = Parallel m cs f0 \<longleftrightarrow> (\<exists>fin. k = Parallel m cs fin) \<and> f0 = Map.empty"
  "skel k = Function fn \<longleftrightarrow> k = Function fn"
  "skel k = Sleep span z z' off \<longleftrightarrow> (\<exists>f r t. k = Sleep span f r t) \<and> z = 0 \<and> z' = 0 \<and> off = None"
  "skel k = Dummy \<longleftrightarrow> k = Dummy"
  "skel k = EventWait \<longleftrightarrow> k = EventWait"
  by (cases k; auto simp: skel_def)+

lemma skel_simps [simp]:
  "skel (Sequence m cs i) = Sequence m cs 0"
  "skel (Repeat rm t r c) = Repeat rm t 0 c"
  "skel (LoopK lm c) = LoopK lm c"
  "skel (Wrapper wm c) = Wrapper wm c"
  "skel (Composite c) = Composite c"
  "skel (LoopIf c c' fr) = LoopIf c c' fr"
  "skel (IfElse c c' c'') = IfElse c c' c''"
  "skel (IfThen ps i tmp) = IfThen ps 0 tmp"
  "skel (Switch c sc d) = Switch c sc d"
  "skel (Parallel m cs fin) = Parallel m cs Map.empty"
  "skel (Function fn) = Function fn"
  "skel (Sleep span f r' t') = Sleep span 0 0 None"
  "skel Dummy = Dummy"
  "skel EventWait = EventWait"
  by (simp_all add: skel_def)

lemma skel_shape [simp]:
  "has_members (skel k) = has_members k"
  "owned_children (skel k) = owned_children k"
  "is_serial (skel k) = is_serial k"
  by (cases k; simp add: skel_def has_members_def owned_children_def is_serial_def)+

section \<open>Reading and changing a well-typed store\<close>

lemma store_read:
  assumes "store_ok T rk E s" and "T a \<noteq> None"
    and "\<And>x. \<lbrakk>objs s a = Some x; T a = Some (skel (act_kind x)); members_ok T rk a x;
           a \<notin> E \<Longrightarrow> index_ok x\<rbrakk> \<Longrightarrow> Q x"
  shows "okay (objs s a) Q"
  using assms by (auto simp: store_ok_def okay_iff)

lemma store_modify:
  assumes "store_ok T rk E s" and "T a \<noteq> None"
    and f: "\<And>x. \<lbrakk>objs s a = Some x; T a = Some (skel (act_kind x)); members_ok T rk a x;
           a \<notin> E \<Longrightarrow> index_ok x\<rbrakk>
         \<Longrightarrow> skel (act_kind (f x)) = skel (act_kind x) \<and> members_ok T rk a (f x) \<and>
             (a \<notin> E' \<longrightarrow> index_ok (f x))"
    and E: "E \<subseteq> insert a E'"
    and Q: "\<And>s'. store_ok T rk E' s' \<Longrightarrow> Q s'"
  shows "okay (modify a f s) Q"
proof -
  obtain x where x: "objs s a = Some x" "T a = Some (skel (act_kind x))" "members_ok T rk a x"
    "a \<notin> E \<Longrightarrow> index_ok x"
    using assms(1,2) by (auto simp: store_ok_def)
  have "store_ok T rk E' (s\<lparr>objs := (objs s)(a \<mapsto> f x)\<rparr>)"
    using assms(1) f [OF x] E x(2) by (auto simp: store_ok_def)
  then show ?thesis
    using x(1) Q by (simp add: modify_def)
qed

lemma store_runNext:
  assumes "store_ok T rk E s" and "task_ok T t"
  shows "store_ok T rk E (snd (fl_runNext t s))"
  using assms by (auto simp: store_ok_def fl_runNext_def)

lemma store_other [simp]:
  "store_ok T rk E (say e s) = store_ok T rk E s"
  "store_ok T rk E (fl_subscribe a s) = store_ok T rk E s"
  "store_ok T rk E (fl_unsubscribe a s) = store_ok T rk E s"
  "store_ok T rk E (s\<lparr>fl_now := t\<rparr>) = store_ok T rk E s"
  by (simp_all add: store_ok_def say_def fl_subscribe_def fl_unsubscribe_def)

lemma store_cancel: "store_ok T rk E s \<Longrightarrow> store_ok T rk E (fl_cancel i s)"
  by (auto simp: store_ok_def fl_cancel_def)

lemma store_weaken: "store_ok T rk E s \<Longrightarrow> E \<subseteq> E' \<Longrightarrow> store_ok T rk E' s"
  by (auto simp: store_ok_def)

lemma store_each:
  assumes "store_ok T rk E s"
    and "\<And>c s. \<lbrakk>c \<in> set cs; store_ok T rk E s\<rbrakk> \<Longrightarrow> okay (f c s) (store_ok T rk E)"
    and "\<And>s'. store_ok T rk E s' \<Longrightarrow> Q s'"
  shows "okay (each f cs s) Q"
  using assms
proof (induction cs arbitrary: s)
  case (Cons c cs)
  have "okay (f c s) (store_ok T rk E)"
    using Cons.prems by simp
  then show ?case
    using Cons by (auto intro: okay_mono)
qed simp

lemma typing_members: "\<lbrakk>typing_ok T rk; T a = Some k\<rbrakk> \<Longrightarrow> has_members k"
  by (simp add: typing_ok_def)

lemma typing_child: "\<lbrakk>typing_ok T rk; T a = Some k; c \<in> set (owned_children k)\<rbrakk> \<Longrightarrow> T c \<noteq> None \<and> rk c < rk a"
  unfolding typing_ok_def by blast

section \<open>Every operation keeps the typing\<close>

lemma index_ok_simps [simp]:
  "index_ok (x\<lparr>curr_action := c\<rparr>) = index_ok x"
  "index_ok (x\<lparr>child_finish_func := g\<rparr>) = index_ok x"
  "index_ok (x\<lparr>curr_action := c, child_finish_func := g\<rparr>) = index_ok x"
  "index_ok (x\<lparr>timer_ev := t\<rparr>) = index_ok x"
  "index_ok (x\<lparr>act_result := r\<rparr>) = index_ok x"
  "index_ok (x\<lparr>finish_cb_run_id := i\<rparr>) = index_ok x"
  "index_ok (x\<lparr>block_cb_run_id := i\<rparr>) = index_ok x"
  "index_ok (x\<lparr>act_state := kFinished\<rparr>)"
  "index_ok (x\<lparr>act_state := kFinished, timer_ev := t\<rparr>)"
  by (simp_all add: index_ok_def split: kind.split)

lemma index_ok_state:
  "\<lbrakk>index_ok x; act_state x \<noteq> kFinished\<rbrakk> \<Longrightarrow> index_ok (x\<lparr>act_state := st\<rparr>)"
  "\<lbrakk>index_ok x; act_state x \<noteq> kFinished\<rbrakk> \<Longrightarrow> index_ok (x\<lparr>act_state := st, timer_ev := t\<rparr>)"
  "\<lbrakk>index_ok x; act_state x \<noteq> kFinished\<rbrakk> \<Longrightarrow> index_ok (x\<lparr>timer_ev := t, act_state := st\<rparr>)"
  "\<lbrakk>index_ok x; act_state x \<noteq> kFinished\<rbrakk> \<Longrightarrow> index_ok (x\<lparr>act_state := st, act_result := r\<rparr>)"
  by (auto simp: index_ok_def split: kind.split)

text \<open>A change that the typing does not see.\<close>

lemma store_keep:
  assumes "store_ok T rk E s" and "T a \<noteq> None"
    and "\<And>x. \<lbrakk>objs s a = Some x; members_ok T rk a x; a \<notin> E \<Longrightarrow> index_ok x\<rbrakk>
         \<Longrightarrow> skel (act_kind (f x)) = skel (act_kind x) \<and> members_ok T rk a (f x) \<and> (a \<notin> E \<longrightarrow> index_ok (f x))"
  shows "okay (modify a f s) (store_ok T rk E)"
  by (rule store_modify [OF assms(1,2), where E' = E]) (use assms(3) in auto)

lemma final_ok:
  assumes "store_ok T rk E s" and "T a \<noteq> None"
  shows "okay (on_final a s) (store_ok T rk E)"
  unfolding on_final_def okay_bind
  by (rule store_read [OF assms]) (use assms in simp)

text \<open>A contract for the operation the parent calls on a child.\<close>

definition child_ok :: "typing \<Rightarrow> (addr \<Rightarrow> nat) \<Rightarrow> addr set \<Rightarrow> nat \<Rightarrow> (addr \<Rightarrow> flow \<Rightarrow> flow option) \<Rightarrow> bool" where
  "child_ok T rk E r f \<longleftrightarrow> (\<forall>c s. store_ok T rk E s \<longrightarrow> T c \<noteq> None \<longrightarrow> rk c < r \<longrightarrow> okay (f c s) (store_ok T rk E))"

definition child_ok2 :: "typing \<Rightarrow> (addr \<Rightarrow> nat) \<Rightarrow> addr set \<Rightarrow> nat \<Rightarrow> starter \<Rightarrow> bool" where
  "child_ok2 T rk E r f \<longleftrightarrow> (\<forall>c s. store_ok T rk E s \<longrightarrow> T c \<noteq> None \<longrightarrow> rk c < r \<longrightarrow>
     okay (f c s) (\<lambda>(b, s'). store_ok T rk E s'))"

lemma child_ok_mono: "child_ok T rk E r f \<Longrightarrow> r' \<le> r \<Longrightarrow> child_ok T rk E r' f"
  unfolding child_ok_def by (meson less_le_trans)

lemma child_ok2_mono: "child_ok2 T rk E r f \<Longrightarrow> r' \<le> r \<Longrightarrow> child_ok2 T rk E r' f"
  unfolding child_ok2_def by (meson less_le_trans)

lemma ignore_ok: "child_ok2 T rk E r f \<Longrightarrow> child_ok T rk E r (ignore f)"
  unfolding child_ok_def child_ok2_def ignore_def okay_bind
  by (auto intro: okay_mono)

lemma each_child_ok:
  assumes "store_ok T rk E s" and "typing_ok T rk" and "T a = Some k" and "set cs \<subseteq> set (owned_children k)"
    and "child_ok T rk E (rk a) f"
  shows "okay (each f cs s) (store_ok T rk E)"
proof (rule store_each [OF assms(1)])
  fix c s
  assume "c \<in> set cs" and s: "store_ok T rk E s"
  then have "T c \<noteq> None \<and> rk c < rk a"
    using typing_child [OF assms(2,3)] assms(4) by blast
  then show "okay (f c s) (store_ok T rk E)"
    using assms(5) s by (simp add: child_ok_def)
qed

lemma stopCurr_ok:
  assumes "store_ok T rk E s" and "T a \<noteq> None" and "child_ok T rk E (rk a) stop"
  shows "okay (stopCurrAction stop a s) (store_ok T rk E)"
  unfolding stopCurrAction_def okay_bind
proof (rule store_read [OF assms(1,2)])
  fix x
  assume x: "objs s a = Some x" "members_ok T rk a x"
  show "okay (case curr_action x of None \<Rightarrow> Some s | Some c \<Rightarrow> stop c s \<bind> modify a (\<lambda>x. x\<lparr>curr_action := None\<rparr>))
     (store_ok T rk E)"
  proof (cases "curr_action x")
    case None
    then show ?thesis using assms(1) by simp
  next
    case (Some c)
    then have "okay (stop c s) (store_ok T rk E)"
      using x(2) assms by (simp add: members_ok_def child_ok_def)
    then show ?thesis
      using Some assms(2) by (auto elim!: okay_mono intro!: store_keep simp: members_ok_def)
  qed
qed

lemma onStop_ok:
  assumes s: "store_ok T rk E s" and T: "typing_ok T rk" and a: "T a \<noteq> None"
    and stop: "child_ok T rk E (rk a) stop"
  shows "okay (on_stop stop a s) (store_ok T rk E)"
  unfolding on_stop_def okay_bind
proof (rule store_read [OF s a])
  fix x
  assume x: "T a = Some (skel (act_kind x))"
  have "okay (serial_onStop stop a s) (store_ok T rk E)"
    unfolding serial_onStop_def okay_bind
    using stopCurr_ok [OF s a stop] by (rule okay_mono) (use a in \<open>auto intro!: store_keep simp: members_ok_def\<close>)
  moreover have "okay (sleep_onStop a s) (store_ok T rk E)"
    unfolding sleep_onStop_def
    by (rule store_keep [OF s a]) (auto simp: sleep_timer_off_def members_ok_def index_ok_def split: kind.split)
  moreover have "okay (par_onStop stop cs s) (store_ok T rk E)" if "act_kind x = Parallel m cs fin" for m cs fin
    using each_child_ok [OF s T x _ stop] that
    by (simp add: par_onStop_def stopAllActions_def owned_children_def)
  ultimately show "okay (case act_kind x of
       Parallel m cs fin \<Rightarrow> par_onStop stop cs s
     | Sleep span f r t \<Rightarrow> sleep_onStop a s
     | Dummy \<Rightarrow> dummy_onStop a s
     | EventWait \<Rightarrow> event_onStop a s
     | Function fn \<Rightarrow> Some s
     | _ \<Rightarrow> serial_onStop stop a s) (store_ok T rk E)"
    using s by (cases "act_kind x") (simp_all add: dummy_onStop_def event_onStop_def)
qed

lemma stop_ok:
  assumes "store_ok T rk E s" and T: "typing_ok T rk" and "T a \<noteq> None" and "rk a < n"
  shows "okay (act_stop n a s) (store_ok T rk E)"
  using assms(1,3,4)
proof (induction n arbitrary: a s)
  case (Suc n)
  have kids: "child_ok T rk E (rk a) (act_stop n)"
    using Suc.IH Suc.prems(3) by (auto simp: child_ok_def)
  show ?case
    unfolding act_stop.simps okay_bind
  proof (rule store_read [OF Suc.prems(1,2)])
    fix x
    assume "objs s a = Some x" "T a = Some (skel (act_kind x))" "members_ok T rk a x" "a \<notin> E \<Longrightarrow> index_ok x"
    show "okay (if \<not> isUnderway x then Some s
       else modify a (\<lambda>x. x\<lparr>act_state := kStoped, timer_ev := timer_set False (timer_ev x)\<rparr>) s \<bind>
         (\<lambda>s1. on_stop (act_stop n) a s1 \<bind> on_final a)) (store_ok T rk E)"
    proof (cases "isUnderway x")
      case True
      have "okay (modify a (\<lambda>x. x\<lparr>act_state := kStoped, timer_ev := timer_set False (timer_ev x)\<rparr>) s) (store_ok T rk E)"
        by (rule store_keep [OF Suc.prems(1,2)])
           (use True \<open>objs s a = Some x\<close> in \<open>auto simp: members_ok_def isUnderway_def intro!: index_ok_state\<close>)
      then show ?thesis
        using True Suc.prems(2) kids
        by (auto elim!: okay_mono intro!: okay_mono [OF onStop_ok] T final_ok)
    qed (use Suc.prems in simp)
  qed
qed simp

end
