(* ===== verification/Flow_Sound.thy ===== *)
theory Flow_Sound
  imports Flow_Type
begin

text \<open>
  Every operation of the actions returns on a well-typed store and keeps it well typed: finishing,
  blocking, resetting, starting, pausing, resuming, the handlers and the queued tasks. The fuel is
  one more than the rank of the object.
\<close>

section \<open>Finishing and blocking\<close>

lemma onFinished_ok:
  assumes s: "store_ok T rk E s" and T: "typing_ok T rk" and a: "T a \<noteq> None" and n: "rk a \<le> n"
  shows "okay (on_finished n a ok why tr s) (store_ok T rk E)"
proof -
  have stop: "child_ok T rk E (rk a) (act_stop n)"
    using n by (auto simp: child_ok_def intro!: stop_ok T)
  have base: "okay (base_onFinished a ok why tr s) (store_ok T rk E)" if s: "store_ok T rk E s" for s
    unfolding base_onFinished_def okay_bind
  proof (rule store_read [OF s a])
    fix x
    assume x: "members_ok T rk a x"
    show "okay (modify a (\<lambda>x. x\<lparr>act_result := (if ok then kSuccess else kFail)\<rparr>) s)
      (\<lambda>s1. okay (if finish_cb x = NoFin then Some s1
         else let (i, s2) = fl_runNext (FinTask (finish_cb x) ok why (tr @ [who_of x])) s1
              in modify a (\<lambda>x. x\<lparr>finish_cb_run_id := i\<rparr>) s2) (store_ok T rk E))"
    proof (rule store_modify [OF s a, where E' = E])
      fix s'
      assume s': "store_ok T rk E s'"
      show "okay (if finish_cb x = NoFin then Some s'
         else let (i, s2) = fl_runNext (FinTask (finish_cb x) ok why (tr @ [who_of x])) s'
              in modify a (\<lambda>x. x\<lparr>finish_cb_run_id := i\<rparr>) s2) (store_ok T rk E)"
        using s' a x store_runNext [OF s', of "FinTask (finish_cb x) ok why (tr @ [who_of x])"]
        by (auto simp: members_ok_def fl_runNext_def intro!: store_keep)
    qed (auto simp: members_ok_def)
  qed
  have "okay (composite_onFinished n a ok why tr s) (store_ok T rk E)"
    unfolding composite_onFinished_def okay_bind
    by (rule okay_mono [OF stopCurr_ok [OF s a stop]]) (rule base)
  moreover have "okay (event_onFinished a ok why tr s) (store_ok T rk E)"
    unfolding event_onFinished_def by (rule base) (simp add: s)
  ultimately show ?thesis
    unfolding on_finished_def okay_bind
    by (intro store_read [OF s a]) (use base [OF s] in \<open>auto split: kind.split\<close>)
qed

lemma finish_ok':
  assumes s: "store_ok T rk E' s" and T: "typing_ok T rk" and a: "T a \<noteq> None" and n: "rk a \<le> n"
    and E: "E \<subseteq> E'" "E' \<subseteq> insert a E"
    and st: "\<And>x. objs s a = Some x \<Longrightarrow> E' \<noteq> E \<Longrightarrow> act_state x = kIdle \<or> act_state x = kRunning"
  shows "okay (act_finish n a ok why tr s) (\<lambda>(b, s'). store_ok T rk E s')"
  unfolding act_finish_def okay_bind
proof (rule store_read [OF s a])
  fix x
  assume x: "objs s a = Some x" "members_ok T rk a x"
  show "okay (if act_state x \<noteq> kFinished \<and> act_state x \<noteq> kStoped then
       modify a (\<lambda>x. x\<lparr>act_state := kFinished, timer_ev := timer_set False (timer_ev x)\<rparr>) s \<bind>
         (\<lambda>s1. on_finished n a ok why tr s1 \<bind> (\<lambda>s2. on_final a s2 \<bind> (\<lambda>s3. Some (True, s3))))
     else Some (False, s)) (\<lambda>(b, s'). store_ok T rk E s')"
  proof (cases "act_state x \<noteq> kFinished \<and> act_state x \<noteq> kStoped")
    case True
    have "okay (modify a (\<lambda>x. x\<lparr>act_state := kFinished, timer_ev := timer_set False (timer_ev x)\<rparr>) s) (store_ok T rk E)"
      by (rule store_modify [OF s a _ E(2)]) (auto simp: members_ok_def)
    then show ?thesis
      using True a by (auto intro!: okay_mono [OF onFinished_ok] okay_mono [OF final_ok] T n elim!: okay_mono)
  next
    case False
    have "E' = E"
    proof (rule ccontr)
      assume "E' \<noteq> E"
      then show False using st [OF x(1)] False by auto
    qed
    then show ?thesis using False s by (simp, blast)
  qed
qed

lemma finish_ok:
  assumes "store_ok T rk E s" and "typing_ok T rk" and "T a \<noteq> None" and "rk a \<le> n"
  shows "okay (act_finish n a ok why tr s) (\<lambda>(b, s'). store_ok T rk E s')"
  by (rule finish_ok' [OF assms]) auto

lemma do_finish_ok:
  assumes "store_ok T rk E s" and "typing_ok T rk" and "T a \<noteq> None" and "rk a \<le> n"
  shows "okay (do_finish n a ok why tr s) (store_ok T rk E)"
  unfolding do_finish_def okay_bind
  by (rule okay_mono [OF finish_ok [OF assms]]) auto

lemma do_finish_closes:
  assumes "store_ok T rk (insert a E) s" and "typing_ok T rk" and "T a \<noteq> None" and "rk a \<le> n"
    and "\<And>x. objs s a = Some x \<Longrightarrow> act_state x = kIdle \<or> act_state x = kRunning"
  shows "okay (do_finish n a ok why tr s) (store_ok T rk E)"
  unfolding do_finish_def okay_bind
  by (rule okay_mono [OF finish_ok' [OF assms(1-4)]]) (use assms(5) in auto)

lemma block_ok:
  assumes s: "store_ok T rk E s" and a: "T a \<noteq> None"
  shows "okay (act_block a why tr s) (\<lambda>(b, s'). store_ok T rk E s')"
  unfolding act_block_def okay_bind
proof (rule store_read [OF s a])
  fix x
  assume x: "objs s a = Some x" "members_ok T rk a x"
  have base: "okay (base_onBlock a why tr s) (store_ok T rk E)" if s: "store_ok T rk E s" for s
    unfolding base_onBlock_def okay_bind
  proof (rule store_read [OF s a])
    fix y
    assume y: "members_ok T rk a y"
    show "okay (if block_cb y = NoBlk then Some s
        else let (i, s1) = fl_runNext (BlkTask (block_cb y) why (tr @ [who_of y])) s
             in modify a (\<lambda>x. x\<lparr>block_cb_run_id := i\<rparr>) s1) (store_ok T rk E)"
      using s a y store_runNext [OF s, of "BlkTask (block_cb y) why (tr @ [who_of y])"]
      by (auto simp: members_ok_def fl_runNext_def intro!: store_keep)
  qed
  have onb: "okay (on_block a why tr s) (store_ok T rk E)" if s: "store_ok T rk E s" for s
    unfolding on_block_def okay_bind event_onBlock_def
    by (intro store_read [OF s a]) (use base [OF s] base s in \<open>auto split: kind.split\<close>)
  show "okay (if act_state x \<noteq> kFinished \<and> act_state x \<noteq> kStoped then
       modify a (\<lambda>x. x\<lparr>act_state := kPause\<rparr>) s \<bind>
         (\<lambda>s1. on_block a why tr s1 \<bind> (\<lambda>s2. Some (True, s2)))
     else Some (False, s)) (\<lambda>(b, s'). store_ok T rk E s')"
  proof (cases "act_state x \<noteq> kFinished \<and> act_state x \<noteq> kStoped")
    case True
    have "okay (modify a (\<lambda>x. x\<lparr>act_state := kPause\<rparr>) s) (store_ok T rk E)"
      by (rule store_keep [OF s a]) (use True x(1) in \<open>auto simp: members_ok_def intro: index_ok_state\<close>)
    then show ?thesis
      using True by (auto intro!: okay_mono [OF onb] elim!: okay_mono)
  qed (use s in auto)
qed

section \<open>Resetting\<close>

text \<open>Reading an object whose class the typing gives.\<close>

lemma store_class:
  assumes "store_ok T rk E s" and "T a = Some k"
    and "\<And>x. \<lbrakk>objs s a = Some x; skel (act_kind x) = k; members_ok T rk a x; a \<notin> E \<Longrightarrow> index_ok x\<rbrakk> \<Longrightarrow> Q x"
  shows "okay (objs s a) Q"
  by (rule store_read [OF assms(1)]) (use assms(2,3) in auto)

lemma set_kind_ok:
  assumes "store_ok T rk E s" and "T a = Some (skel k)" and "\<And>x. index_ok (x\<lparr>act_kind := k\<rparr>)"
  shows "okay (set_kind a k s) (store_ok T rk E)"
  unfolding set_kind_def
proof (rule store_modify [OF assms(1), where E' = E])
  show "T a \<noteq> None" using assms(2) by simp
qed (use assms(2,3) in \<open>auto simp: members_ok_def\<close>)

text \<open>\<open>onReset\<close> brings the index of an \<open>IfThen\<close> back into range before the state becomes idle; no reset
  takes one out of range.\<close>

definition in_range :: "addr \<Rightarrow> flow \<Rightarrow> bool" where
  "in_range a s \<longleftrightarrow> (\<forall>x ps i tmp. objs s a = Some x \<longrightarrow> act_kind x = IfThen ps i tmp \<longrightarrow> i < length ps)"

definition range_ok :: "typing \<Rightarrow> (addr \<Rightarrow> nat) \<Rightarrow> addr set \<Rightarrow> addr set \<Rightarrow> flow \<Rightarrow> bool" where
  "range_ok T rk E R s \<longleftrightarrow> store_ok T rk E s \<and> (\<forall>b \<in> R. in_range b s)"

lemma range_ok_store: "range_ok T rk E R s \<Longrightarrow> store_ok T rk E s"
  by (simp add: range_ok_def)

lemma range_ok_other [simp]:
  "range_ok T rk E R (say e s) = range_ok T rk E R s"
  "range_ok T rk E R (fl_unsubscribe b s) = range_ok T rk E R s"
  by (simp_all add: range_ok_def in_range_def, simp_all add: say_def fl_unsubscribe_def)

lemma range_ok_cancel: "range_ok T rk E R s \<Longrightarrow> range_ok T rk E R (fl_cancel i s)"
  by (auto simp: range_ok_def in_range_def store_cancel) (simp add: fl_cancel_def)

lemma range_modify:
  assumes s: "range_ok T rk E R s" and a: "T a \<noteq> None"
    and f: "\<And>x. \<lbrakk>objs s a = Some x; T a = Some (skel (act_kind x)); members_ok T rk a x; a \<notin> E \<Longrightarrow> index_ok x\<rbrakk>
         \<Longrightarrow> skel (act_kind (f x)) = skel (act_kind x) \<and> members_ok T rk a (f x) \<and> (a \<notin> E \<longrightarrow> index_ok (f x)) \<and>
             (\<forall>ps i tmp. act_kind (f x) = IfThen ps i tmp \<longrightarrow> i < length ps \<or> a \<notin> R' \<or> (a \<in> R \<and> act_kind (f x) = act_kind x))"
    and R: "R' \<subseteq> insert a R"
  shows "okay (modify a f s) (range_ok T rk E R')"
proof -
  obtain x where x: "objs s a = Some x" "T a = Some (skel (act_kind x))" "members_ok T rk a x" "a \<notin> E \<Longrightarrow> index_ok x"
    using s a by (auto simp: range_ok_def store_ok_def)
  have "okay (modify a f s) (store_ok T rk E)"
    by (rule store_modify [OF range_ok_store [OF s] a, where E' = E]) (use f in auto)
  moreover have "in_range b (s\<lparr>objs := (objs s)(a \<mapsto> f x)\<rparr>)" if "b \<in> R'" for b
  proof (cases "b = a")
    case True
    show ?thesis
      unfolding in_range_def
    proof (intro allI impI)
      fix y ps i tmp
      assume "objs (s\<lparr>objs := (objs s)(a \<mapsto> f x)\<rparr>) b = Some y" "act_kind y = IfThen ps i tmp"
      then have k: "act_kind (f x) = IfThen ps i tmp" using True by simp
      then consider "i < length ps" | "a \<in> R" "act_kind x = IfThen ps i tmp"
        using f [OF x] \<open>b \<in> R'\<close> True by auto
      then show "i < length ps"
        using s x(1) by cases (auto simp: range_ok_def in_range_def)
    qed
  qed (use s R that in \<open>auto simp: range_ok_def in_range_def\<close>)
  ultimately show ?thesis
    using x by (simp add: modify_def range_ok_def)
qed

lemma range_keep:
  assumes "range_ok T rk E R s" and "T a \<noteq> None" and "a \<in> R"
    and "\<And>x. \<lbrakk>objs s a = Some x; members_ok T rk a x\<rbrakk> \<Longrightarrow> act_kind (f x) = act_kind x \<and> members_ok T rk a (f x)"
  shows "okay (modify a f s) (range_ok T rk E R)"
  by (rule range_modify [OF assms(1,2)])
     (use assms in \<open>auto simp: range_ok_def in_range_def index_ok_def split: kind.splits\<close>)

text \<open>The contract of \<open>reset\<close> for a child.\<close>

definition reset_contract :: "typing \<Rightarrow> (addr \<Rightarrow> nat) \<Rightarrow> addr set \<Rightarrow> nat \<Rightarrow> call1 \<Rightarrow> bool" where
  "reset_contract T rk E r f \<longleftrightarrow> (\<forall>R c s. range_ok T rk E R s \<longrightarrow> T c \<noteq> None \<longrightarrow> rk c < r \<longrightarrow> okay (f c s) (range_ok T rk E R))"

lemma reset_one:
  assumes "range_ok T rk E R s" and T: "typing_ok T rk" and a: "T a = Some k" and "c \<in> set (owned_children k)"
    and "reset_contract T rk E (rk a) f"
  shows "okay (f c s) (range_ok T rk E R)"
  using assms(1,5) typing_child [OF T a assms(4)] by (simp add: reset_contract_def)

lemma reset_each:
  assumes "range_ok T rk E R s" and T: "typing_ok T rk" and a: "T a = Some k" and "set cs \<subseteq> set (owned_children k)"
    and f: "reset_contract T rk E (rk a) f"
  shows "okay (each f cs s) (range_ok T rk E R)"
  using assms(1,4)
proof (induction cs arbitrary: s)
  case (Cons c cs)
  have "okay (f c s) (range_ok T rk E R)"
    by (rule reset_one [OF Cons.prems(1) T a _ f]) (use Cons.prems(2) in simp)
  then show ?case
    unfolding each.simps okay_bind by (rule okay_mono) (rule Cons.IH, use Cons.prems(2) in auto)
qed simp

lemma owned_simps [simp]:
  "set (owned_children (Sequence m cs i)) = set cs"
  "set (owned_children (Repeat rm t r (Some c))) = {c}"
  "set (owned_children (LoopK lm (Some c))) = {c}"
  "set (owned_children (Wrapper wm (Some c))) = {c}"
  "set (owned_children (Composite (Some c))) = {c}"
  "set (owned_children (LoopIf (Some c) (Some c') fr)) = {c, c'}"
  "set (owned_children (IfElse (Some c) u v)) = {c} \<union> set_option u \<union> set_option v"
  "set (owned_children (Switch (Some c) sc d)) = {c} \<union> set_option d \<union> snd ` set sc"
  "set (owned_children (Parallel m cs fin)) = set cs"
  by (auto simp: owned_children_def opt_list_def split: option.splits)

text \<open>After \<open>onReset\<close> the index of the object itself is in range too.\<close>

lemma range_class:
  assumes "range_ok T rk E R s" and "T a = Some k" and "\<nexists>ps j tmp. k = IfThen ps j tmp"
  shows "range_ok T rk E (insert a R) s"
  using assms by (auto simp: range_ok_def store_ok_def in_range_def)

lemma serial_onReset_ok:
  assumes s: "range_ok T rk E R s" and a: "T a \<noteq> None" "a \<in> R"
  shows "okay (serial_onReset a s) (range_ok T rk E R)"
  unfolding serial_onReset_def
  by (rule range_keep [OF s a]) (auto simp: members_ok_def)

lemma onReset_ok:
  assumes s: "range_ok T rk E R s" and T: "typing_ok T rk" and a: "T a \<noteq> None"
    and reset: "reset_contract T rk E (rk a) reset"
  shows "okay (on_reset reset a s) (range_ok T rk E (insert a R))"
  unfolding on_reset_def okay_bind
proof (rule store_read [OF range_ok_store [OF s] a])
  fix x
  assume x: "objs s a = Some x" "T a = Some (skel (act_kind x))"
  note members = typing_members [OF T x(2)]
  let ?R = "insert a R"
  have s': "range_ok T rk E ?R s" if "\<nexists>ps j tmp. act_kind x = IfThen ps j tmp"
    by (rule range_class [OF s x(2)]) (use that in auto)
  have one: "okay (reset c s) (range_ok T rk E ?R)" if "range_ok T rk E ?R s" "c \<in> set (owned_children (act_kind x))" for c s
    by (rule reset_one [OF that(1) T x(2) _ reset]) (simp add: that)
  have many: "okay (each reset cs s) (range_ok T rk E ?R)" if "range_ok T rk E ?R s" "set cs \<subseteq> set (owned_children (act_kind x))" for cs s
    by (rule reset_each [OF that(1) T x(2) _ reset]) (simp add: that)
  have serial: "okay (serial_onReset a s) (range_ok T rk E ?R)" if "range_ok T rk E ?R s" for s
    by (rule serial_onReset_ok [OF that a]) simp
  have kind: "okay (set_kind a k s) (range_ok T rk E ?R)"
    if "range_ok T rk E R s" "skel k = skel (act_kind x)" "\<And>ps i tmp. k = IfThen ps i tmp \<Longrightarrow> i < length ps" for k s
    unfolding set_kind_def
    by (rule range_modify [OF that(1) a]) (use that x in \<open>auto simp: members_ok_def index_ok_def split: kind.split\<close>)
  show "okay (case act_kind x of
       Sequence m cs i \<Rightarrow> seq_onReset reset a m cs s
     | Repeat m t r c \<Rightarrow> repeat_onReset reset a c s
     | LoopK m c \<Rightarrow> loop_onReset reset a c s
     | Wrapper m c \<Rightarrow> wrapper_onReset reset a c s
     | Composite c \<Rightarrow> composite_onReset reset a c s
     | LoopIf i e r \<Rightarrow> loopif_onReset reset a i e s
     | IfElse i t e \<Rightarrow> ifelse_onReset reset a i t e s
     | IfThen ps i tmp \<Rightarrow> ifthen_onReset reset a ps tmp s
     | Switch w cs d \<Rightarrow> switch_onReset reset a w cs d s
     | Parallel m cs fin \<Rightarrow> par_onReset reset a m cs s
     | Function fn \<Rightarrow> Some s
     | Sleep span f r t \<Rightarrow> sleep_onReset a s
     | Dummy \<Rightarrow> dummy_onReset a s
     | EventWait \<Rightarrow> event_onReset a s) (range_ok T rk E ?R)"
  proof (cases "act_kind x")
    case (Sequence m cs i)
    then show ?thesis
      using s by (auto simp: seq_onReset_def intro!: okay_mono [OF kind] okay_mono [OF many] serial)
  next
    case (IfThen ps i tmp)
    then have "ps \<noteq> []" using members by (simp add: has_members_def)
    then show ?thesis
      using IfThen s by (auto simp: ifthen_onReset_def owned_children_def intro!: okay_mono [OF kind] okay_mono [OF many] serial)
  next
    case (Parallel m cs fin)
    have kind': "okay (set_kind a (Parallel m cs Map.empty) s) (range_ok T rk E ?R)" if "range_ok T rk E ?R s" for s
      by (rule kind) (use that Parallel in \<open>auto simp: range_ok_def\<close>)
    then show ?thesis
      using Parallel s' by (auto simp: par_onReset_def intro!: okay_mono [OF many])
  next
    case (Sleep span f r t)
    have "okay (modify a sleep_timer_off s) (range_ok T rk E ?R)"
      by (rule range_modify [OF s' a]) (auto simp: Sleep sleep_timer_off_def members_ok_def index_ok_def split: kind.split)
    then show ?thesis
      using Sleep by (simp add: sleep_onReset_def)
  next
    case (LoopIf i e r)
    then show ?thesis
      using members s' by (auto simp: has_members_def loopif_onReset_def intro!: okay_mono [OF one] serial)
  next
    case (IfElse i t e)
    then obtain i' where i: "i = Some i'" using members by (auto simp: has_members_def)
    then show ?thesis
      using IfElse s' by (cases t; cases e) (auto simp: ifelse_onReset_def reset_child_def intro!: okay_mono [OF one] serial)
  next
    case (Switch w cs d)
    then obtain w' where w: "w = Some w'" using members by (auto simp: has_members_def)
    then show ?thesis
      using Switch s' by (cases d) (auto simp: switch_onReset_def reset_child_def intro!: okay_mono [OF one] okay_mono [OF many] serial)
  qed (use members s' in \<open>auto simp: has_members_def repeat_onReset_def loop_onReset_def wrapper_onReset_def
        composite_onReset_def reset_child_def dummy_onReset_def event_onReset_def intro!: okay_mono [OF one] serial\<close>)
qed

lemma cancelDispatched_range:
  assumes s: "range_ok T rk E R s" and a: "T a \<noteq> None" "a \<in> R"
  shows "okay (cancelDispatchedCallback a s) (range_ok T rk E R)"
  unfolding cancelDispatchedCallback_def okay_bind
  by (rule store_read [OF range_ok_store [OF s] a(1)])
     (use s a in \<open>auto simp: members_ok_def intro!: okay_mono [OF range_keep] range_keep range_ok_cancel\<close>)

lemma reset_range_ok:
  assumes "range_ok T rk E R s" and T: "typing_ok T rk" and "T a \<noteq> None" and "rk a < n"
  shows "okay (act_reset n a s) (range_ok T rk E R)"
  using assms(1,3,4)
proof (induction n arbitrary: a s R)
  case (Suc n)
  note a = Suc.prems(2)
  have kids: "reset_contract T rk E (rk a) (act_reset n)"
    using Suc.IH Suc.prems(3) by (auto simp: reset_contract_def)
  let ?R = "insert a R"
  have last_step: "okay (modify a (\<lambda>x. x\<lparr>act_state := kIdle, act_result := kUnsure\<rparr>) s) (range_ok T rk E R)"
    if "range_ok T rk E ?R s" for s
    by (rule okay_mono [OF range_keep [OF that a]]) (auto simp: members_ok_def range_ok_def)
  have timer_step: "okay (modify a (\<lambda>x. x\<lparr>timer_ev := timer_set False (timer_ev x)\<rparr>) s) (range_ok T rk E ?R)"
    if "range_ok T rk E ?R s" for s
    by (rule range_keep [OF that a]) (auto simp: members_ok_def)
  have "okay (on_reset (act_reset n) a s) (\<lambda>s1. okay (modify a (\<lambda>x. x\<lparr>timer_ev := timer_set False (timer_ev x)\<rparr>) s1)
      (\<lambda>s2. okay (cancelDispatchedCallback a s2) (\<lambda>s3. okay (modify a (\<lambda>x. x\<lparr>act_state := kIdle, act_result := kUnsure\<rparr>) s3)
      (range_ok T rk E R))))"
    by (rule okay_mono [OF onReset_ok [OF Suc.prems(1) T a kids]], rule okay_mono [OF timer_step], assumption,
        rule okay_mono [OF cancelDispatched_range [where T = T and R = ?R]], assumption, rule a, simp, rule last_step)
  then show ?case
    unfolding act_reset.simps okay_bind
    by (intro store_read [OF range_ok_store [OF Suc.prems(1)] a]) (use Suc.prems(1) in auto)
qed simp

lemma reset_ok:
  assumes "store_ok T rk E s" and "typing_ok T rk" and "T a \<noteq> None" and "rk a < n"
  shows "okay (act_reset n a s) (store_ok T rk E)"
  by (rule okay_mono [OF reset_range_ok [where R = "{}", OF _ assms(2-4)]])
     (use assms(1) in \<open>auto simp: range_ok_def\<close>)

section \<open>Starting\<close>

lemma startThis_ok:
  assumes s: "store_ok T rk E s" and T: "typing_ok T rk" and a: "T a = Some k" and c: "c \<in> set (owned_children k)"
    and start: "child_ok2 T rk E (rk a) start"
  shows "okay (startThisAction start a c s) (\<lambda>(b, s'). store_ok T rk E s')"
proof -
  have c': "T c \<noteq> None" "rk c < rk a"
    using typing_child [OF T a c] by auto
  have keep: "okay (modify a (\<lambda>x. x\<lparr>curr_action := Some c\<rparr>) s1) (store_ok T rk E)" if "store_ok T rk E s1" for s1
    by (rule store_keep [OF that]) (use a c' in \<open>auto simp: members_ok_def\<close>)
  have "okay (start c s) (\<lambda>(b, s'). store_ok T rk E s')"
    using start s c' by (simp add: child_ok2_def)
  then show ?thesis
    unfolding startThisAction_def okay_bind
    by (rule okay_mono) (use keep in auto)
qed

lemma start_child_ok:
  assumes s: "store_ok T rk E s" and T: "typing_ok T rk" and a: "T a = Some k" and c: "c \<in> set (owned_children k)"
    and start: "child_ok2 T rk E (rk a) start"
  shows "okay (start_child start a (Some c) s) (store_ok T rk E)"
  unfolding start_child_def okay_bind okay_simps
  by (rule okay_mono [OF startThis_ok [OF assms]]) auto

lemma startOtherise_ok:
  assumes s: "store_ok T rk E s" and T: "typing_ok T rk" and a: "T a = Some (Sequence m cs 0)" and n: "rk a \<le> n"
    and start: "child_ok2 T rk E (rk a) start"
  shows "okay (startOtheriseFinish n start a ok why tr s) (store_ok T rk E)"
  unfolding startOtheriseFinish_def okay_bind
proof (rule store_class [OF s a])
  fix x
  assume "skel (act_kind x) = Sequence m cs 0"
  then obtain i where k: "act_kind x = Sequence m cs i"
    by auto
  have finish: "okay (do_finish n a ok why tr s) (store_ok T rk E)"
    if "store_ok T rk E s" for ok why tr s
    using do_finish_ok [OF that T _ n] a by simp
  have "okay (startThisAction start a (cs ! i) s) (\<lambda>(b, s'). store_ok T rk E s')" if "i < length cs"
    by (rule startThis_ok [OF s T a _ start]) (use that in \<open>simp add: owned_children_def\<close>)
  then show "okay (case act_kind x of Sequence m cs i \<Rightarrow>
         if i < length cs then startThisAction start a (cs ! i) s \<bind> (\<lambda>(ok, s1).
           if ok then Some s1 else do_finish n a False (reason_of 6 ''StartChildFail'') [] s1)
         else do_finish n a ok why tr s | _ \<Rightarrow> None) (store_ok T rk E)"
    using k finish s by (auto intro: okay_mono)
qed

lemma owned_ifthen:
  assumes "p \<in> set ps"
  shows "fst p \<in> set (owned_children (IfThen ps j tmp))" and "snd p \<in> set (owned_children (IfThen ps j tmp))"
  using assms by (auto simp: owned_children_def case_prod_beta)

lemma doStart_ok:
  assumes s: "store_ok T rk E s" and T: "typing_ok T rk" and a: "T a = Some (IfThen ps 0 None)" and n: "rk a \<le> n"
    and start: "child_ok2 T rk E (rk a) start"
  shows "okay (ifthen_doStart n start a s) (store_ok T rk E)"
  unfolding ifthen_doStart_def okay_bind
proof (rule store_class [OF s a])
  fix x
  assume "skel (act_kind x) = IfThen ps 0 None"
  then obtain i where k: "act_kind x = IfThen ps i None"
    by auto
  have finish: "okay (do_finish n a ok why tr s) (store_ok T rk E)" for ok why tr
    using do_finish_ok [OF s T _ n] a by simp
  have "okay (start_child start a (Some (fst (ps ! i))) s) (store_ok T rk E)" if "i < length ps"
    using start_child_ok [OF s T a _ start] owned_ifthen(1) [OF nth_mem [OF that]] by blast
  then show "okay (case act_kind x of IfThen ps i tmp \<Rightarrow>
         if i \<ge> length ps then do_finish n a False (reason_of 10 ''IfThenSkip'') [] s
         else start_child start a (Some (fst (ps ! i))) s | _ \<Rightarrow> None) (store_ok T rk E)"
    using k finish by auto
qed

lemma par_start_ok:
  assumes "store_ok T rk E s" and T: "typing_ok T rk" and a: "T a = Some (Parallel m cs Map.empty)" and n: "rk a \<le> n"
    and "set rest \<subseteq> set cs" and start: "child_ok2 T rk E (rk a) start"
  shows "okay (par_start n start a i rest s) (\<lambda>(b, s'). store_ok T rk E s')"
  using assms(1,5)
proof (induction rest arbitrary: s i)
  case (Cons c rest)
  have c: "T c \<noteq> None" "rk c < rk a"
    using typing_child [OF T a, of c] Cons.prems(2) by (auto simp: owned_children_def)
  have stop: "child_ok T rk E (rk a) (act_stop n)"
    using n by (auto simp: child_ok_def intro!: stop_ok T)
  have stops: "okay (stopAllActions (act_stop n) cs s) (store_ok T rk E)" if "store_ok T rk E s" for s
    unfolding stopAllActions_def by (rule each_child_ok [OF that T a _ stop]) (simp add: owned_children_def)
  have finish: "okay (do_finish n a ok why tr s) (store_ok T rk E)"
    if "store_ok T rk E s" for ok why tr s
    using do_finish_ok [OF that T _ n] a by simp
  have first: "okay (start c s) (\<lambda>(b, s'). store_ok T rk E s')"
    using start Cons.prems(1) c by (simp add: child_ok2_def)
  have failed: "okay (objs s1 a \<bind> (\<lambda>x. case act_kind x of
         Parallel m cs fin \<Rightarrow> set_kind a (Parallel m cs (fin(i \<mapsto> False))) s1 \<bind> (\<lambda>s2.
           if m = AnyFail then do_finish n a True no_reason [] s2 \<bind> (\<lambda>s3.
             stopAllActions (act_stop n) cs s3 \<bind> (\<lambda>s4. Some (True, s4)))
           else par_start n start a (Suc i) rest s2)
       | _ \<Rightarrow> None)) (\<lambda>(b, s'). store_ok T rk E s')" if s1: "store_ok T rk E s1" for s1
    unfolding okay_bind
  proof (rule store_class [OF s1 a])
    fix x
    assume "skel (act_kind x) = Parallel m cs Map.empty"
    then obtain fin where k: "act_kind x = Parallel m cs fin"
      by auto
    have "okay (set_kind a (Parallel m cs (fin(i \<mapsto> False))) s1) (store_ok T rk E)"
      by (rule set_kind_ok [OF s1]) (simp_all add: a index_ok_def)
    then show "okay (case act_kind x of
         Parallel m cs fin \<Rightarrow> set_kind a (Parallel m cs (fin(i \<mapsto> False))) s1 \<bind> (\<lambda>s2.
           if m = AnyFail then do_finish n a True no_reason [] s2 \<bind> (\<lambda>s3.
             stopAllActions (act_stop n) cs s3 \<bind> (\<lambda>s4. Some (True, s4)))
           else par_start n start a (Suc i) rest s2)
       | _ \<Rightarrow> None) (\<lambda>(b, s'). store_ok T rk E s')"
      unfolding k kind.case okay_bind
      by (rule okay_mono)
         (use Cons in \<open>auto intro!: okay_mono [OF finish] okay_mono [OF stops]\<close>)
  qed
  show ?case
    unfolding par_start.simps okay_bind
    by (rule okay_mono [OF first]) (use failed Cons in \<open>auto simp del: okay_bind\<close>)
qed simp

lemma par_onStart_ok:
  assumes s: "store_ok T rk E s" and T: "typing_ok T rk" and a: "T a = Some (Parallel m cs Map.empty)" and n: "rk a \<le> n"
    and start: "child_ok2 T rk E (rk a) start"
  shows "okay (par_onStart n start a cs s) (store_ok T rk E)"
proof -
  have finish: "okay (do_finish n a ok why tr s) (store_ok T rk E)"
    if "store_ok T rk E s" for ok why tr s
    using do_finish_ok [OF that T _ n] a by simp
  have tail: "okay (objs s1 a) (\<lambda>x. okay (case act_kind x of
         Parallel m cs' fin \<Rightarrow>
           if finished_count fin (length cs') = length cs' then do_finish n a True no_reason [] s1 else Some s1
       | _ \<Rightarrow> None) (store_ok T rk E))" if s1: "store_ok T rk E s1" for s1
    by (rule store_class [OF s1 a]) (use finish s1 in auto)
  show ?thesis
    unfolding par_onStart_def okay_bind
    by (rule okay_mono [OF par_start_ok [OF s T a n _ start]]) (use tail in auto)
qed

lemma onStart_ok:
  assumes s: "store_ok T rk E s" and T: "typing_ok T rk" and a: "T a \<noteq> None" and n: "rk a \<le> n"
    and start: "child_ok2 T rk E (rk a) start"
  shows "okay (on_start n start a s) (store_ok T rk E)"
  unfolding on_start_def okay_bind
proof (rule store_read [OF s a])
  fix x
  assume x: "T a = Some (skel (act_kind x))"
  note members = typing_members [OF T x]
  have finish: "okay (do_finish n a ok why tr s) (store_ok T rk E)"
    if "store_ok T rk E s" for ok why tr s
    by (rule do_finish_ok [OF that T a n])
  have child: "okay (start_child start a c s) (store_ok T rk E)"
    if "store_ok T rk E s" "c \<noteq> None" "the c \<in> set (owned_children (skel (act_kind x)))" for c s
    using start_child_ok [OF that(1) T x that(3) start] that(2) by auto
  show "okay (case act_kind x of
       Sequence m cs i \<Rightarrow> seq_onStart n start a s
     | Repeat m t r c \<Rightarrow> repeat_onStart start a m t c s
     | LoopK m c \<Rightarrow> loop_onStart start a c s
     | Wrapper m c \<Rightarrow> wrapper_onStart start a c s
     | Composite c \<Rightarrow> composite_onStart start a c s
     | LoopIf i e r \<Rightarrow> loopif_onStart start a i s
     | IfElse i t e \<Rightarrow> ifelse_onStart start a i s
     | IfThen ps i tmp \<Rightarrow> ifthen_onStart n start a ps tmp s
     | Switch w cs d \<Rightarrow> switch_onStart start a w s
     | Parallel m cs fin \<Rightarrow> par_onStart n start a cs s
     | Function fn \<Rightarrow> function_onStart n a fn s
     | Sleep span f r t \<Rightarrow> sleep_onStart a span r s
     | Dummy \<Rightarrow> dummy_onStart a s
     | EventWait \<Rightarrow> event_onStart a s) (store_ok T rk E)"
  proof (cases "act_kind x")
    case (Sequence m cs i)
    then show ?thesis
      using startOtherise_ok [OF s T _ n start] x by (simp add: seq_onStart_def)
  next
    case (Repeat m t r c)
    then obtain c' where c: "c = Some c'"
      using members by (auto simp: has_members_def)
    have "okay (set_kind a (Repeat m t (t - 1) c) s) (store_ok T rk E)"
      by (rule set_kind_ok [OF s]) (simp_all add: x Repeat index_ok_def)
    then have "okay (set_kind a (Repeat m t (t - 1) c) s) (\<lambda>s1. okay (start_child start a c s1) (store_ok T rk E))"
      by (rule okay_mono) (rule child, simp_all add: c Repeat owned_children_def opt_list_def)
    then show ?thesis
      by (simp add: Repeat c repeat_onStart_def)
  next
    case (IfThen ps i tmp)
    then have ps: "ps \<noteq> []" "tmp = None"
      using members by (auto simp: has_members_def)
    have "okay (set_kind a (IfThen ps 0 tmp) s) (store_ok T rk E)"
      by (rule set_kind_ok [OF s]) (simp_all add: x IfThen ps index_ok_def)
    then have "okay (set_kind a (IfThen ps 0 tmp) s) (\<lambda>s1. okay (ifthen_doStart n start a s1) (store_ok T rk E))"
      by (rule okay_mono) (rule doStart_ok [OF _ T _ n start], use x IfThen ps in auto)
    then show ?thesis
      by (simp add: IfThen ifthen_onStart_def)
  next
    case (Parallel m cs fin)
    then show ?thesis
      using par_onStart_ok [OF s T _ n start] x by simp
  next
    case (Function fn)
    then show ?thesis
      using members finish s by (auto simp: has_members_def function_onStart_def split: prod.split)
  next
    case (Sleep span f r t)
    have "okay (set_kind a (Sleep span f' r' t') s) (store_ok T rk E)" for f' r' t'
      by (rule set_kind_ok [OF s]) (simp_all add: x Sleep index_ok_def)
    then show ?thesis
      by (simp add: Sleep sleep_onStart_def Let_def)
  qed (use s members in \<open>auto intro!: child simp: has_members_def loop_onStart_def wrapper_onStart_def composite_onStart_def
        loopif_onStart_def ifelse_onStart_def switch_onStart_def dummy_onStart_def event_onStart_def\<close>)
qed

lemma settle_ok:
  assumes s: "store_ok T rk E s" and a: "T a \<noteq> None" and st: "last_state \<noteq> kFinished"
  shows "okay (settle a last_state on st s) (store_ok T rk E)"
  unfolding settle_def okay_bind
proof (rule store_read [OF s a])
  fix x
  assume x: "objs s a = Some x"
  have "okay (modify a (\<lambda>x. x\<lparr>timer_ev := timer_set on (timer_ev x), act_state := st\<rparr>) s) (store_ok T rk E)"
    if "act_state x = last_state"
    by (rule store_keep [OF s a]) (use that x st in \<open>auto simp: members_ok_def intro!: index_ok_state\<close>)
  then show "okay (if act_state x = last_state then modify a (\<lambda>x. x\<lparr>timer_ev := timer_set on (timer_ev x), act_state := st\<rparr>) s
      else Some s) (store_ok T rk E)"
    using s by simp
qed

lemma start_ok:
  assumes "store_ok T rk E s" and T: "typing_ok T rk" and "T a \<noteq> None" and "rk a < n"
  shows "okay (act_start n a s) (\<lambda>(b, s'). store_ok T rk E s')"
  using assms(1,3,4)
proof (induction n arbitrary: a s)
  case (Suc n)
  have kids: "child_ok2 T rk E (rk a) (act_start n)"
    using Suc.IH Suc.prems(3) by (auto simp: child_ok2_def)
  have "okay (on_start n (act_start n) a s) (\<lambda>s1. okay (settle a kIdle True kRunning s1) (store_ok T rk E))"
    by (rule okay_mono [OF onStart_ok [OF Suc.prems(1) T Suc.prems(2) _ kids]])
       (use Suc.prems in \<open>auto intro: settle_ok\<close>)
  then show ?case
    unfolding act_start.simps okay_bind
    by (intro store_read [OF Suc.prems(1,2)]) (use Suc.prems(1) in auto)
qed simp

section \<open>Pausing and resuming\<close>

lemma onPause_ok:
  assumes s: "store_ok T rk E s" and T: "typing_ok T rk" and a: "T a \<noteq> None"
    and pause: "child_ok2 T rk E (rk a) pause"
  shows "okay (on_pause pause a s) (store_ok T rk E)"
  unfolding on_pause_def okay_bind
proof (rule store_read [OF s a])
  fix x
  assume x: "T a = Some (skel (act_kind x))" "members_ok T rk a x"
  have ign: "child_ok T rk E (rk a) (ignore pause)"
    by (rule ignore_ok [OF pause])
  have curr: "okay (serial_onPause pause a s) (store_ok T rk E)"
    unfolding serial_onPause_def okay_bind
    by (rule store_read [OF s a]) (use s ign in \<open>auto simp: members_ok_def child_ok_def split: option.splits\<close>)
  have sleep: "okay (sleep_onPause a span f s) (store_ok T rk E)" if "act_kind x = Sleep span f' r' t'" for span f f' r' t'
    unfolding sleep_onPause_def by (rule set_kind_ok [OF s]) (simp_all add: x that index_ok_def)
  have par: "okay (par_onPause pause cs s) (store_ok T rk E)" if "act_kind x = Parallel m cs fin" for m cs fin
    unfolding par_onPause_def pauseAllActions_def
    by (rule each_child_ok [OF s T x(1) _ ign]) (simp add: that)
  show "okay (case act_kind x of
       Parallel m cs fin \<Rightarrow> par_onPause pause cs s
     | Sleep span f r t \<Rightarrow> sleep_onPause a span f s
     | Dummy \<Rightarrow> dummy_onPause a s
     | EventWait \<Rightarrow> event_onPause a s
     | Function fn \<Rightarrow> Some s
     | _ \<Rightarrow> serial_onPause pause a s) (store_ok T rk E)"
    by (cases "act_kind x") (use s curr sleep par in \<open>simp_all add: dummy_onPause_def event_onPause_def\<close>)
qed

lemma pause_ok:
  assumes "store_ok T rk E s" and T: "typing_ok T rk" and "T a \<noteq> None" and "rk a < n"
  shows "okay (act_pause n a s) (\<lambda>(b, s'). store_ok T rk E s')"
  using assms(1,3,4)
proof (induction n arbitrary: a s)
  case (Suc n)
  have kids: "child_ok2 T rk E (rk a) (act_pause n)"
    using Suc.IH Suc.prems(3) by (auto simp: child_ok2_def)
  have "okay (on_pause (act_pause n) a s) (\<lambda>s1. okay (settle a kRunning False kPause s1) (store_ok T rk E))"
    by (rule okay_mono [OF onPause_ok [OF Suc.prems(1) T Suc.prems(2) kids]])
       (use Suc.prems in \<open>auto intro: settle_ok\<close>)
  then show ?case
    unfolding act_pause.simps okay_bind
    by (intro store_read [OF Suc.prems(1,2)]) (use Suc.prems(1) in auto)
qed simp

lemma serial_onResume_ok:
  assumes s: "store_ok T rk E s" and a: "T a \<noteq> None" and ign: "child_ok T rk E (rk a) (ignore resume)"
  shows "okay (serial_onResume resume a s) (store_ok T rk E)"
  unfolding serial_onResume_def okay_bind
proof (rule store_read [OF s a])
  fix x
  assume x: "members_ok T rk a x"
  have clear: "okay (modify a (\<lambda>x. x\<lparr>child_finish_func := None\<rparr>) s') (store_ok T rk E)" if "store_ok T rk E s'" for s'
    by (rule store_keep [OF that a]) (auto simp: members_ok_def)
  show "okay (case curr_action x of
       Some c \<Rightarrow> ignore resume c s
     | None \<Rightarrow> (case child_finish_func x of
         None \<Rightarrow> Some s
       | Some (cb, ok, why, tr) \<Rightarrow>
           modify a (\<lambda>x. x\<lparr>child_finish_func := None\<rparr>) (snd (fl_runNext (FinTask cb ok why tr) s)))) (store_ok T rk E)"
  proof (cases "curr_action x")
    case None
    show ?thesis
    proof (cases "child_finish_func x")
      case (Some p)
      obtain cb ok why tr where p: "p = (cb, ok, why, tr)"
        by (cases p)
      have "task_ok T (FinTask cb ok why tr)"
        using x Some p by (simp add: members_ok_def)
      then show ?thesis
        using None Some p clear [OF store_runNext [OF s]] by simp
    qed (use None s in simp)
  next
    case (Some c)
    then show ?thesis
      using x s ign by (auto simp: members_ok_def child_ok_def)
  qed
qed

lemma onResume_ok:
  assumes s: "store_ok T rk E s" and T: "typing_ok T rk" and a: "T a \<noteq> None"
    and resume: "child_ok2 T rk E (rk a) resume"
  shows "okay (on_resume resume a s) (store_ok T rk E)"
  unfolding on_resume_def okay_bind
proof (rule store_read [OF s a])
  fix x
  assume x: "T a = Some (skel (act_kind x))"
  have ign: "child_ok T rk E (rk a) (ignore resume)"
    by (rule ignore_ok [OF resume])
  have paused: "child_ok T rk E (rk a) (resume_paused resume)"
    unfolding child_ok_def resume_paused_def okay_bind
    using ign by (auto intro!: store_read simp: child_ok_def)
  have serial: "okay (serial_onResume resume a s) (store_ok T rk E)"
    by (rule serial_onResume_ok [OF s a ign])
  have sleep: "okay (sleep_onResume a span f r s) (store_ok T rk E)" if "act_kind x = Sleep span f' r' t'" for span f f' r r' t'
    unfolding sleep_onResume_def by (rule set_kind_ok [OF s]) (simp_all add: x that index_ok_def)
  have par: "okay (par_onResume resume cs s) (store_ok T rk E)" if "act_kind x = Parallel m cs fin" for m cs fin
    unfolding par_onResume_def by (rule each_child_ok [OF s T x _ paused]) (simp add: that)
  show "okay (case act_kind x of
       Parallel m cs fin \<Rightarrow> par_onResume resume cs s
     | Sleep span f r t \<Rightarrow> sleep_onResume a span f r s
     | Dummy \<Rightarrow> dummy_onResume a s
     | EventWait \<Rightarrow> event_onResume a s
     | Function fn \<Rightarrow> Some s
     | _ \<Rightarrow> serial_onResume resume a s) (store_ok T rk E)"
    by (cases "act_kind x") (use s serial sleep par in \<open>simp_all add: dummy_onResume_def event_onResume_def\<close>)
qed

lemma resume_ok:
  assumes "store_ok T rk E s" and T: "typing_ok T rk" and "T a \<noteq> None" and "rk a < n"
  shows "okay (act_resume n a s) (\<lambda>(b, s'). store_ok T rk E s')"
  using assms(1,3,4)
proof (induction n arbitrary: a s)
  case (Suc n)
  have kids: "child_ok2 T rk E (rk a) (act_resume n)"
    using Suc.IH Suc.prems(3) by (auto simp: child_ok2_def)
  have "okay (on_resume (act_resume n) a s) (\<lambda>s1. okay (settle a kPause True kRunning s1) (store_ok T rk E))"
    by (rule okay_mono [OF onResume_ok [OF Suc.prems(1) T Suc.prems(2) kids]])
       (use Suc.prems in \<open>auto intro: settle_ok\<close>)
  then show ?case
    unfolding act_resume.simps okay_bind
    by (intro store_read [OF Suc.prems(1,2)]) (use Suc.prems(1) in auto)
qed simp

end
