(* ===== verification/Flow_Handlers.thy ===== *)
theory Flow_Handlers
  imports Flow_Sound
begin

text \<open>
  The handlers, the queued tasks and the user's calls on a well-typed store, and the step function
  \<open>perform\<close> that puts them together: every sequence of calls and loop steps returns and keeps the
  store well typed.
\<close>

section \<open>The handlers of the composites\<close>

lemma unless_ok:
  assumes s: "store_ok T rk E s" and a: "T a \<noteq> None" and fin: "fin_ok T (fst func)"
    and body: "\<And>s1 x. \<lbrakk>store_ok T rk E s1; objs s1 a = Some x; act_state x = kRunning\<rbrakk> \<Longrightarrow> okay (body s1) (store_ok T rk E)"
  shows "okay (unless_handled a func body s) (store_ok T rk E)"
proof -
  have clear: "okay (modify a (\<lambda>x. x\<lparr>curr_action := None\<rparr>) s) (store_ok T rk E)"
    by (rule store_keep [OF s a]) (auto simp: members_ok_def)
  have keep: "okay (modify a (\<lambda>x. x\<lparr>child_finish_func := Some func\<rparr>) s1) (store_ok T rk E)" if "store_ok T rk E s1" for s1
    by (rule store_keep [OF that a]) (use fin in \<open>auto simp: members_ok_def split: prod.split\<close>)
  have rest: "okay (objs s1 a) (\<lambda>x. okay (if act_state x = kRunning then Some (False, s1)
     else if act_state x = kPause
     then modify a (\<lambda>x. x\<lparr>child_finish_func := Some func\<rparr>) s1 \<bind> (\<lambda>s2. Some (True, s2))
     else Some (True, s1)) (\<lambda>r. okay (case r of (handled, s1) \<Rightarrow> if handled then Some s1 else body s1) (store_ok T rk E)))"
    if s1: "store_ok T rk E s1" for s1
    by (rule store_read [OF s1 a]) (use body [OF s1] keep [OF s1] s1 in \<open>auto intro: okay_mono\<close>)
  show ?thesis
    unfolding unless_handled_def handleChildFinishEvent_def okay_bind
    by (rule okay_mono [OF clear]) (rule rest)
qed

text \<open>What the handlers use of the operations they call.\<close>

lemma handler_child_ok:
  assumes T: "typing_ok T rk" and n: "rk a \<le> n"
  shows "child_ok T rk E (rk a) (act_stop n)" and "child_ok T rk E (rk a) (act_reset n)"
    and "child_ok2 T rk E (rk a) (act_start n)" and "child_ok T rk E (rk a) (ignore (act_pause n))"
proof -
  show "child_ok T rk E (rk a) (act_stop n)" "child_ok T rk E (rk a) (act_reset n)"
    using n by (auto simp: child_ok_def intro!: stop_ok reset_ok T)
  show "child_ok2 T rk E (rk a) (act_start n)"
    unfolding child_ok2_def by (intro allI impI start_ok T) (use n in auto)
  have "child_ok2 T rk E (rk a) (act_pause n)"
    unfolding child_ok2_def by (intro allI impI pause_ok T) (use n in auto)
  then show "child_ok T rk E (rk a) (ignore (act_pause n))"
    by (rule ignore_ok)
qed

lemma handler_reset:
  assumes "store_ok T rk E s" and T: "typing_ok T rk" and "T a = Some k" and "c \<in> set (owned_children k)" and "rk a \<le> n"
  shows "okay (act_reset n c s) (store_ok T rk E)"
  using handler_child_ok(2) [OF T assms(5), of E] typing_child [OF T assms(3,4)] assms(1)
  by (simp add: child_ok_def)

lemma handler_start:
  assumes "store_ok T rk E s" and T: "typing_ok T rk" and "T a = Some k" and "c \<in> set (owned_children k)" and "rk a \<le> n"
  shows "okay (start_child (act_start n) a (Some c) s) (store_ok T rk E)"
  by (rule start_child_ok [OF assms(1-4) handler_child_ok(3) [OF T assms(5)]])

lemma handler_finish:
  assumes "store_ok T rk E s" and T: "typing_ok T rk" and "T a = Some k" and "rk a \<le> n"
  shows "okay (do_finish n a ok why tr s) (store_ok T rk E)"
  by (rule do_finish_ok [OF assms(1) T _ assms(4)]) (simp add: assms(3))

lemma lastChild_ok:
  assumes s: "store_ok T rk E s" and T: "typing_ok T rk" and a: "T a = Some k" and n: "rk a \<le> n" and ser: "is_serial k"
  shows "okay (onLastChildFinished n a ok why tr s) (store_ok T rk E)"
proof -
  have a': "T a \<noteq> None" using a by simp
  have clear: "okay (modify a (\<lambda>x. x\<lparr>curr_action := None\<rparr>) s) (store_ok T rk E)"
    by (rule store_keep [OF s a']) (auto simp: members_ok_def)
  have keep: "okay (modify a (\<lambda>x. x\<lparr>child_finish_func := Some (FinishThis a, ok, why, tr)\<rparr>) s1) (store_ok T rk E)"
    if "store_ok T rk E s1" for s1
    by (rule store_keep [OF that a']) (use a ser in \<open>auto simp: members_ok_def\<close>)
  have rest: "okay (objs s1 a) (\<lambda>x. okay (if act_state x = kRunning then do_finish n a ok why tr s1
     else if act_state x = kPause
     then modify a (\<lambda>x. x\<lparr>child_finish_func := Some (FinishThis a, ok, why, tr)\<rparr>) s1
     else Some s1) (store_ok T rk E))" if s1: "store_ok T rk E s1" for s1
    by (rule store_read [OF s1 a']) (use keep [OF s1] handler_finish [OF s1 T a n] s1 in auto)
  show ?thesis
    unfolding onLastChildFinished_def okay_bind
    by (rule okay_mono [OF clear]) (rule rest)
qed

lemma seqFin_ok:
  assumes s: "store_ok T rk E s" and T: "typing_ok T rk" and a: "T a = Some (Sequence m cs 0)" and n: "rk a \<le> n"
  shows "okay (seq_onChildFinished n a ok why tr s) (store_ok T rk E)"
  unfolding seq_onChildFinished_def
proof (rule unless_ok [OF s], unfold okay_bind)
  fix s1
  assume s1: "store_ok T rk E s1"
  have next_one: "okay (set_kind a (Sequence m cs (i + 1)) s1) (\<lambda>s2. okay (startOtheriseFinish n (act_start n) a ok why tr s2) (store_ok T rk E))" for i
    by (rule okay_mono [OF set_kind_ok [OF s1]])
       (use a in \<open>auto simp: index_ok_def intro!: startOtherise_ok [OF _ T a n] handler_child_ok [OF T n]\<close>)
  show "okay (objs s1 a) (\<lambda>x. okay (case act_kind x of
         Sequence m cs i \<Rightarrow>
           if (m = AnySucc \<and> ok) \<or> (m = AnyFail \<and> \<not> ok) then do_finish n a ok why tr s1
           else do {
             s1 \<leftarrow> set_kind a (Sequence m cs (i + 1)) s1;
             startOtheriseFinish n (act_start n) a ok why tr s1 }
       | _ \<Rightarrow> None) (store_ok T rk E))"
    by (rule store_class [OF s1 a]) (use next_one handler_finish [OF s1 T a n] in auto)
qed (use a in auto)

lemma repFin_ok:
  assumes s: "store_ok T rk E s" and T: "typing_ok T rk" and a: "T a = Some (Repeat m t 0 c)" and n: "rk a \<le> n"
  shows "okay (rep_onChildFinished n a ok why tr s) (store_ok T rk E)"
  unfolding rep_onChildFinished_def
proof (rule unless_ok [OF s], unfold okay_bind)
  fix s1
  assume s1: "store_ok T rk E s1"
  obtain c' where c: "c = Some c'"
    using typing_members [OF T a] by (auto simp: has_members_def)
  have again: "okay (act_reset n c' s1) (\<lambda>s2. okay (start_child (act_start n) a (Some c') s2)
      (\<lambda>s3. okay (set_kind a (Repeat m t (r - 1) (Some c')) s3) (store_ok T rk E)))" for r
    by (rule okay_mono [OF handler_reset [OF s1 T a _ n]], simp add: c,
        rule okay_mono [OF handler_start [OF _ T a _ n]], assumption, simp add: c,
        rule set_kind_ok) (use a c in \<open>auto simp: index_ok_def\<close>)
  show "okay (objs s1 a) (\<lambda>x. okay (case act_kind x of
         Repeat m t r c \<Rightarrow>
           if (m = BreakSucc \<and> ok) \<or> (m = BreakFail \<and> \<not> ok) then do_finish n a ok why tr s1
           else if r > 0 then do {
             c' \<leftarrow> c;
             s1 \<leftarrow> act_reset n c' s1;
             s2 \<leftarrow> start_child (act_start n) a c s1;
             set_kind a (Repeat m t (r - 1) c) s2 }
           else do_finish n a True (reason_of 7 ''RepeatNoTimes'') [] s1
       | _ \<Rightarrow> None) (store_ok T rk E))"
    by (rule store_class [OF s1 a]) (use again c handler_finish [OF s1 T a n] in auto)
qed (use a in auto)

lemma loopFin_ok:
  assumes s: "store_ok T rk E s" and T: "typing_ok T rk" and a: "T a = Some (LoopK m c)" and n: "rk a \<le> n"
  shows "okay (loop_onChildFinished n a ok why tr s) (store_ok T rk E)"
  unfolding loop_onChildFinished_def
proof (rule unless_ok [OF s], unfold okay_bind)
  fix s1
  assume s1: "store_ok T rk E s1"
  obtain c' where c: "c = Some c'"
    using typing_members [OF T a] by (auto simp: has_members_def)
  have again: "okay (act_reset n c' s1) (\<lambda>s2. okay (start_child (act_start n) a (Some c') s2) (store_ok T rk E))"
    by (rule okay_mono [OF handler_reset [OF s1 T a _ n]], simp add: c, rule handler_start [OF _ T a _ n])
       (auto simp: c)
  show "okay (objs s1 a) (\<lambda>x. okay (case act_kind x of
         LoopK m c \<Rightarrow>
           if (m = UntilSucc \<and> ok) \<or> (m = UntilFail \<and> \<not> ok) then do_finish n a ok why tr s1
           else do {
             c' \<leftarrow> c;
             s1 \<leftarrow> act_reset n c' s1;
             start_child (act_start n) a c s1 }
       | _ \<Rightarrow> None) (store_ok T rk E))"
    by (rule store_class [OF s1 a]) (use again c handler_finish [OF s1 T a n] in auto)
qed (use a in auto)

lemma wrapFin_ok:
  assumes s: "store_ok T rk E s" and T: "typing_ok T rk" and a: "T a = Some (Wrapper m c)" and n: "rk a \<le> n"
  shows "okay (wrap_onChildFinished n a ok why tr s) (store_ok T rk E)"
  unfolding wrap_onChildFinished_def
proof (rule unless_ok [OF s], unfold okay_bind)
  fix s1
  assume s1: "store_ok T rk E s1"
  show "okay (objs s1 a) (\<lambda>x. okay (case act_kind x of
         Wrapper m c \<Rightarrow> do_finish n a (wrapped m ok) why tr s1
       | _ \<Rightarrow> None) (store_ok T rk E))"
    by (rule store_class [OF s1 a]) (use handler_finish [OF s1 T a n] in auto)
qed (use a in auto)

lemma ifFin_ok:
  assumes s: "store_ok T rk E s" and T: "typing_ok T rk" and a: "T a = Some (LoopIf i e r)" and n: "rk a \<le> n"
  shows "okay (onIfFinished n a ok why tr s) (store_ok T rk E)"
  unfolding onIfFinished_def
proof (rule unless_ok [OF s], unfold okay_bind)
  fix s1
  assume s1: "store_ok T rk E s1"
  obtain i' e' where c: "i = Some i'" "e = Some e'"
    using typing_members [OF T a] by (auto simp: has_members_def)
  have exec: "okay (start_child (act_start n) a (Some e') s1) (store_ok T rk E)"
    by (rule handler_start [OF s1 T a _ n]) (simp add: c)
  show "okay (objs s1 a) (\<lambda>x. okay (case act_kind x of
         LoopIf i e r \<Rightarrow> if ok then start_child (act_start n) a e s1 else do_finish n a r why tr s1
       | _ \<Rightarrow> None) (store_ok T rk E))"
    by (rule store_class [OF s1 a]) (use exec c handler_finish [OF s1 T a n] in auto)
qed (use a in auto)

lemma execFin_ok:
  assumes s: "store_ok T rk E s" and T: "typing_ok T rk" and a: "T a = Some (LoopIf i e r)" and n: "rk a \<le> n"
  shows "okay (onExecFinished n a ok why tr s) (store_ok T rk E)"
  unfolding onExecFinished_def
proof (rule unless_ok [OF s], unfold okay_bind)
  fix s1
  assume s1: "store_ok T rk E s1"
  obtain i' e' where c: "i = Some i'" "e = Some e'"
    using typing_members [OF T a] by (auto simp: has_members_def)
  have startif: "okay (startThisAction (act_start n) a i' s3) (\<lambda>(b, s4). okay (if b then Some s4 else do_finish n a r why tr s4) (store_ok T rk E))"
    if "store_ok T rk E s3" for s3
    by (rule okay_mono [OF startThis_ok [OF that T a _ handler_child_ok(3) [OF T n]]])
       (use handler_finish [OF _ T a n] in \<open>auto simp: c\<close>)
  have again: "okay (act_reset n i' s1) (\<lambda>s2. okay (act_reset n e' s2) (\<lambda>s3. okay (startThisAction (act_start n) a i' s3)
      (\<lambda>(b, s4). okay (if b then Some s4 else do_finish n a r why tr s4) (store_ok T rk E))))"
    by (rule okay_mono [OF handler_reset [OF s1 T a _ n]], simp add: c,
        rule okay_mono [OF handler_reset [OF _ T a _ n]], assumption, simp add: c, rule startif)
  show "okay (objs s1 a) (\<lambda>x. okay (case act_kind x of
         LoopIf i e r \<Rightarrow> do {
           i' \<leftarrow> i;
           e' \<leftarrow> e;
           s1 \<leftarrow> act_reset n i' s1;
           s2 \<leftarrow> act_reset n e' s1;
           (b, s3) \<leftarrow> startThisAction (act_start n) a i' s2;
           if b then Some s3 else do_finish n a r why tr s3 }
       | _ \<Rightarrow> None) (store_ok T rk E))"
    by (rule store_class [OF s1 a]) (use again c in auto)
qed (use a in auto)

lemma condFin_ok:
  assumes s: "store_ok T rk E s" and T: "typing_ok T rk" and a: "T a = Some (IfElse i t e)" and n: "rk a \<le> n"
  shows "okay (onCondActionFinished n a ok why tr s) (store_ok T rk E)"
  unfolding onCondActionFinished_def
proof (rule unless_ok [OF s], unfold okay_bind)
  fix s1
  assume s1: "store_ok T rk E s1"
  have child: "okay (start_child (act_start n) a (Some c) s1) (store_ok T rk E)" if "t = Some c \<or> e = Some c" for c
    by (rule handler_start [OF s1 T a _ n]) (use that in \<open>auto simp: owned_children_def opt_list_def\<close>)
  show "okay (objs s1 a) (\<lambda>x. okay (case act_kind x of
         IfElse i t e \<Rightarrow>
           if ok \<and> t \<noteq> None then start_child (act_start n) a t s1
           else if \<not> ok \<and> e \<noteq> None then start_child (act_start n) a e s1
           else do_finish n a True why tr s1
       | _ \<Rightarrow> None) (store_ok T rk E))"
    by (rule store_class [OF s1 a]) (use child handler_finish [OF s1 T a n] in auto)
qed (use a in auto)

lemma set_kind_opens:
  assumes "store_ok T rk E s" and "T a = Some (skel k)"
  shows "okay (set_kind a k s) (store_ok T rk (insert a E))"
  unfolding set_kind_def
  by (rule store_modify [OF assms(1), where E' = "insert a E"]) (use assms(2) in \<open>auto simp: members_ok_def\<close>)

lemma ifThenFin_ok:
  assumes s: "store_ok T rk E s" and T: "typing_ok T rk" and a: "T a = Some (IfThen ps 0 None)" and n: "rk a \<le> n" and E: "a \<notin> E"
  shows "okay (onIfActionFinished n a ok why tr s) (store_ok T rk E)"
  unfolding onIfActionFinished_def
proof (rule unless_ok [OF s], unfold okay_bind)
  fix s1 x
  assume s1: "store_ok T rk E s1" and x: "objs s1 a = Some x" "act_state x = kRunning"
  have then_one: "okay (start_child (act_start n) a (Some (snd (ps ! i))) s1) (store_ok T rk E)" if "i < length ps" for i
    using handler_start [OF s1 T a _ n] owned_ifthen(2) [OF nth_mem [OF that]] by blast
  have next_one: "okay (set_kind a (IfThen ps (i + 1) None) s1) (\<lambda>s2. okay (ifthen_doStart n (act_start n) a s2) (store_ok T rk E))" for i
  proof (cases "i + 1 < length ps")
    case True
    then show ?thesis
      by (intro okay_mono [OF set_kind_ok [OF s1]])
         (use a in \<open>auto simp: index_ok_def intro!: doStart_ok [OF _ T a n] handler_child_ok [OF T n]\<close>)
  next
    case False
    have fin: "okay (do_finish n a False (reason_of 10 ''IfThenSkip'') [] (s1\<lparr>objs := (objs s1)(a \<mapsto> x\<lparr>act_kind := IfThen ps (i + 1) None\<rparr>)\<rparr>))
        (store_ok T rk E)"
    proof (rule do_finish_closes [OF _ T _ n])
      show "store_ok T rk (insert a E) (s1\<lparr>objs := (objs s1)(a \<mapsto> x\<lparr>act_kind := IfThen ps (i + 1) None\<rparr>)\<rparr>)"
        using set_kind_opens [OF s1, of a "IfThen ps (i + 1) None"] a x by (simp add: set_kind_def modify_def)
    qed (use a x in simp_all)
    then show ?thesis
      using False x by (simp add: set_kind_def modify_def ifthen_doStart_def)
  qed
  show "okay (objs s1 a) (\<lambda>x. okay (case act_kind x of
         IfThen ps i tmp \<Rightarrow>
           if ok then (if i < length ps then start_child (act_start n) a (Some (snd (ps ! i))) s1 else None)
           else do {
             s2 \<leftarrow> set_kind a (IfThen ps (i + 1) tmp) s1;
             ifthen_doStart n (act_start n) a s2 }
       | _ \<Rightarrow> None) (store_ok T rk E))"
    by (rule store_class [OF s1 a]) (use x E then_one next_one in \<open>auto simp: index_ok_def\<close>)
qed (use a in auto)

lemma switchFin_ok:
  assumes s: "store_ok T rk E s" and T: "typing_ok T rk" and a: "T a = Some (Switch w cs d)" and n: "rk a \<le> n"
  shows "okay (onSwitchActionFinished n a ok why tr s) (store_ok T rk E)"
  unfolding onSwitchActionFinished_def
proof (rule unless_ok [OF s], unfold okay_bind)
  fix s1
  assume s1: "store_ok T rk E s1"
  have child: "okay (start_child (act_start n) a (Some c) s1) (store_ok T rk E)" if "map_of cs v = Some c \<or> d = Some c" for c v
    by (rule handler_start [OF s1 T a _ n])
       (use that in \<open>auto simp: owned_children_def opt_list_def dest!: map_of_SomeD intro: rev_image_eqI\<close>)
  show "okay (objs s1 a) (\<lambda>x. okay (case act_kind x of
         Switch w cs d \<Rightarrow>
           if ok then
             (let c = (case map_of cs (r_message why) of Some c \<Rightarrow> Some c | None \<Rightarrow> d)
              in if c \<noteq> None then start_child (act_start n) a c s1
                 else do_finish n a False (reason_of 8 ''SwitchSkip'') [] s1)
           else do_finish n a False (reason_of 9 ''SwitchFail'') [] s1
       | _ \<Rightarrow> None) (store_ok T rk E))"
    by (rule store_class [OF s1 a])
       (use child handler_finish [OF s1 T a n] in \<open>auto simp: Let_def split: option.split\<close>)
qed (use a in auto)

lemma parFin_ok:
  assumes s: "store_ok T rk E s" and T: "typing_ok T rk" and a: "T a = Some (Parallel m cs Map.empty)" and n: "rk a \<le> n"
  shows "okay (par_onChildFinished n a i ok s) (store_ok T rk E)"
  unfolding par_onChildFinished_def okay_bind
proof (rule store_class [OF s a])
  fix x
  assume x: "skel (act_kind x) = Parallel m cs Map.empty"
  have stops: "okay (stopAllActions (act_stop n) cs s1) (store_ok T rk E)" if "store_ok T rk E s1" for s1
    unfolding stopAllActions_def by (rule each_child_ok [OF that T a _ handler_child_ok(1) [OF T n]]) simp
  have mark: "okay (set_kind a (Parallel m cs fin) s) (store_ok T rk E)" for fin
    by (rule set_kind_ok [OF s]) (simp_all add: a index_ok_def)
  have one: "okay (stopAllActions (act_stop n) cs s1) (\<lambda>s2. okay (do_finish n a True no_reason [] s2) (store_ok T rk E))"
    if "store_ok T rk E s1" for s1
    by (rule okay_mono [OF stops [OF that]], rule handler_finish [OF _ T a n])
  note all = handler_finish [OF _ T a n]
  show "okay (case act_kind x of
       Parallel m cs fin \<Rightarrow>
         if act_state x = kRunning then do {
           let fin' = fin(i \<mapsto> ok);
           s1 \<leftarrow> set_kind a (Parallel m cs fin') s;
           if (m = AnySucc \<and> ok) \<or> (m = AnyFail \<and> \<not> ok) then do {
             s2 \<leftarrow> stopAllActions (act_stop n) cs s1;
             do_finish n a True no_reason [] s2 }
           else if finished_count fin' (length cs) = length cs then do_finish n a True no_reason [] s1
           else Some s1 }
         else Some s
     | _ \<Rightarrow> None) (store_ok T rk E)"
    using x s one all by (auto simp: Let_def intro!: okay_mono [OF mark])
qed

lemma childBlocked_ok:
  assumes s: "store_ok T rk E s" and T: "typing_ok T rk" and a: "T a = Some (Parallel m cs Map.empty)" and n: "rk a \<le> n"
  shows "okay (onChildBlocked n a why tr s) (store_ok T rk E)"
  unfolding onChildBlocked_def okay_bind
proof (rule store_class [OF s a])
  fix x
  assume x: "skel (act_kind x) = Parallel m cs Map.empty"
  have pauses: "okay (pauseAllActions (act_pause n) cs s) (store_ok T rk E)"
    unfolding pauseAllActions_def by (rule each_child_ok [OF s T a _ handler_child_ok(4) [OF T n]]) simp
  then have "okay (pauseAllActions (act_pause n) cs s) (\<lambda>s1. okay (act_block a why tr s1) (\<lambda>(b, s2). store_ok T rk E s2))"
    by (rule okay_mono) (rule block_ok, auto simp: a)
  then show "okay (case act_kind x of
       Parallel m cs fin \<Rightarrow>
         if act_state x = kRunning then do {
           s1 \<leftarrow> pauseAllActions (act_pause n) cs s;
           (_, s2) \<leftarrow> act_block a why tr s1;
           Some s2 }
         else Some s
     | _ \<Rightarrow> None) (store_ok T rk E)"
    using x s by auto
qed

section \<open>Tasks and calls\<close>

lemma runFin_ok:
  assumes s: "store_ok T rk {} s" and T: "typing_ok T rk" and cb: "fin_ok T cb" and n: "\<And>a. T a \<noteq> None \<Longrightarrow> rk a \<le> n"
  shows "okay (run_fin n cb ok why tr s) (store_ok T rk {})"
proof (cases cb)
  case (FinishThis a)
  then show ?thesis using cb n [of a] by (auto simp: run_fin_def intro!: handler_finish [OF s T])
next
  case (LastFin a)
  then show ?thesis using cb n [of a] by (auto simp: run_fin_def intro!: lastChild_ok [OF s T])
next
  case (SeqFin a)
  then show ?thesis using cb n [of a] by (auto simp: run_fin_def intro!: seqFin_ok [OF s T])
next
  case (RepFin a)
  then show ?thesis using cb n [of a] by (auto simp: run_fin_def intro!: repFin_ok [OF s T])
next
  case (LoopFin a)
  then show ?thesis using cb n [of a] by (auto simp: run_fin_def intro!: loopFin_ok [OF s T])
next
  case (WrapFin a)
  then show ?thesis using cb n [of a] by (auto simp: run_fin_def intro!: wrapFin_ok [OF s T])
next
  case (IfFin a)
  then show ?thesis using cb n [of a] by (auto simp: run_fin_def intro!: ifFin_ok [OF s T])
next
  case (ExecFin a)
  then show ?thesis using cb n [of a] by (auto simp: run_fin_def intro!: execFin_ok [OF s T])
next
  case (CondFin a)
  then show ?thesis using cb n [of a] by (auto simp: run_fin_def intro!: condFin_ok [OF s T])
next
  case (IfThenFin a)
  then show ?thesis using cb n [of a] by (auto simp: run_fin_def intro!: ifThenFin_ok [OF s T])
next
  case (SwitchFin a)
  then show ?thesis using cb n [of a] by (auto simp: run_fin_def intro!: switchFin_ok [OF s T])
next
  case (ParFin a i)
  then show ?thesis using cb n [of a] by (auto simp: run_fin_def intro!: parFin_ok [OF s T])
qed (use cb s in \<open>simp_all add: run_fin_def\<close>)

lemma runBlk_ok:
  assumes s: "store_ok T rk {} s" and T: "typing_ok T rk" and cb: "blk_ok T cb" and n: "\<And>a. T a \<noteq> None \<Longrightarrow> rk a \<le> n"
  shows "okay (run_blk n cb why tr s) (store_ok T rk {})"
proof (cases cb)
  case (BlockThis a)
  then show ?thesis
    using cb block_ok [OF s, of a why tr] by (auto simp: run_blk_def intro: okay_mono)
next
  case (ParBlk a)
  then show ?thesis using cb n [of a] by (auto simp: run_blk_def intro!: childBlocked_ok [OF s T])
qed (use cb s in \<open>simp_all add: run_blk_def\<close>)

lemma runFront_ok:
  assumes s: "store_ok T rk {} s" and T: "typing_ok T rk" and n: "\<And>a. T a \<noteq> None \<Longrightarrow> rk a \<le> n"
  shows "okay (run_front n s) (store_ok T rk {})"
proof (cases "runq s")
  case (Cons e q)
  have s': "store_ok T rk {} (s\<lparr>runq := q\<rparr>)"
    using s Cons by (simp add: store_ok_def)
  have "task_ok T (snd e)"
    using s Cons by (simp add: store_ok_def)
  then show ?thesis
    using Cons runFin_ok [OF s' T _ n] runBlk_ok [OF s' T _ n] s'
    by (cases "snd e") (simp_all add: run_front_def run_task_def)
qed (use s in \<open>simp add: run_front_def\<close>)

text \<open>The calls of the user, the ends of the timers, the tasks of the loop and the clock.\<close>

datatype call = CallStart addr | CallPause addr | CallResume addr | CallStop addr | CallReset addr
  | CallFinish addr bool reason trace | CallBlock addr reason trace
  | CallSetTimeout addr int | CallResetTimeout addr
  | TimerFires addr | SleepFires addr | RunTask | ClockTo int

fun perform :: "nat \<Rightarrow> call \<Rightarrow> flow \<Rightarrow> flow option" where
  "perform n (CallStart a) s = ignore (act_start n) a s"
| "perform n (CallPause a) s = ignore (act_pause n) a s"
| "perform n (CallResume a) s = ignore (act_resume n) a s"
| "perform n (CallStop a) s = act_stop n a s"
| "perform n (CallReset a) s = act_reset n a s"
| "perform n (CallFinish a ok why tr) s = do_finish n a ok why tr s"
| "perform n (CallBlock a why tr) s = do { (_, s1) \<leftarrow> act_block a why tr s; Some s1 }"
| "perform n (CallSetTimeout a ms) s = setTimeout a ms s"
| "perform n (CallResetTimeout a) s = resetTimeout a s"
| "perform n (TimerFires a) s = do { (_, s1) \<leftarrow> fire_timeout n a s; Some s1 }"
| "perform n (SleepFires a) s = do { (_, s1) \<leftarrow> fire_sleep n a s; Some s1 }"
| "perform n RunTask s = run_front n s"
| "perform n (ClockTo t) s = Some (s\<lparr>fl_now := t\<rparr>)"

fun performs :: "nat \<Rightarrow> call list \<Rightarrow> flow \<Rightarrow> flow option" where
  "performs n [] s = Some s"
| "performs n (c # cs) s = do { s1 \<leftarrow> perform n c s; performs n cs s1 }"

fun call_on :: "call \<Rightarrow> addr list" where
  "call_on (CallStart a) = [a]"
| "call_on (CallPause a) = [a]"
| "call_on (CallResume a) = [a]"
| "call_on (CallStop a) = [a]"
| "call_on (CallReset a) = [a]"
| "call_on (CallFinish a ok why tr) = [a]"
| "call_on (CallBlock a why tr) = [a]"
| "call_on (CallSetTimeout a ms) = [a]"
| "call_on (CallResetTimeout a) = [a]"
| "call_on (TimerFires a) = [a]"
| "call_on (SleepFires a) = [a]"
| "call_on RunTask = []"
| "call_on (ClockTo t) = []"

lemma fire_ok:
  assumes s: "store_ok T rk E s" and T: "typing_ok T rk" and a: "T a \<noteq> None" and n: "rk a \<le> n"
  shows "okay (fire_timeout n a s) (\<lambda>(b, s'). store_ok T rk E s')"
    and "okay (fire_sleep n a s) (\<lambda>(b, s'). store_ok T rk E s')"
proof -
  have "okay (modify a (\<lambda>x. x\<lparr>timer_ev := timer_set False (timer_ev x)\<rparr>) s) (store_ok T rk E)"
    by (rule store_keep [OF s a]) (auto simp: members_ok_def)
  then show "okay (fire_timeout n a s) (\<lambda>(b, s'). store_ok T rk E s')"
    unfolding fire_timeout_def okay_bind by (rule okay_mono) (rule finish_ok [OF _ T a n])
  have "okay (modify a sleep_timer_off s) (store_ok T rk E)"
    by (rule store_keep [OF s a]) (auto simp: sleep_timer_off_def members_ok_def index_ok_def split: kind.split)
  then show "okay (fire_sleep n a s) (\<lambda>(b, s'). store_ok T rk E s')"
    unfolding fire_sleep_def okay_bind by (rule okay_mono) (rule finish_ok [OF _ T a n])
qed

lemma timeouts_ok:
  assumes s: "store_ok T rk E s" and a: "T a \<noteq> None"
  shows "okay (setTimeout a ms s) (store_ok T rk E)" and "okay (resetTimeout a s) (store_ok T rk E)"
proof -
  show "okay (setTimeout a ms s) (store_ok T rk E)"
    unfolding setTimeout_def by (rule store_keep [OF s a]) (auto simp: members_ok_def)
  have "okay (modify a (\<lambda>x. x\<lparr>timer_ev := None\<rparr>) s) (store_ok T rk E)"
    by (rule store_keep [OF s a]) (auto simp: members_ok_def)
  then have gone: "okay (modify a (\<lambda>x. x\<lparr>timer_ev := None\<rparr>) s) (\<lambda>s1. store_ok T rk E (snd (fl_runNext DeleteTimer s1)))"
    by (rule okay_mono) (simp add: store_runNext)
  show "okay (resetTimeout a s) (store_ok T rk E)"
    unfolding resetTimeout_def okay_bind
    by (rule store_read [OF s a]) (use gone s in simp)
qed

lemma perform_ok:
  assumes s: "store_ok T rk {} s" and T: "typing_ok T rk" and n: "\<And>a. T a \<noteq> None \<Longrightarrow> rk a < n"
    and on: "\<And>a. a \<in> set (call_on c) \<Longrightarrow> T a \<noteq> None"
  shows "okay (perform n c s) (store_ok T rk {})"
proof -
  have le: "rk a \<le> n" if "T a \<noteq> None" for a
    using n [OF that] by simp
  note pair = start_ok [OF s T] pause_ok [OF s T] resume_ok [OF s T] block_ok [OF s] fire_ok [OF s T]
  show ?thesis
  proof (cases c)
    case (CallStart a)
    then show ?thesis using pair(1) [of a n] on n [of a] by (auto simp: ignore_def intro: okay_mono)
  next
    case (CallPause a)
    then show ?thesis using pair(2) [of a n] on n [of a] by (auto simp: ignore_def intro: okay_mono)
  next
    case (CallResume a)
    then show ?thesis using pair(3) [of a n] on n [of a] by (auto simp: ignore_def intro: okay_mono)
  next
    case (CallBlock a why tr)
    then show ?thesis using pair(4) [of a why tr] on by (auto intro: okay_mono)
  next
    case (TimerFires a)
    then show ?thesis using pair(5) [of a n] on le [of a] by (auto intro: okay_mono)
  next
    case (SleepFires a)
    then show ?thesis using pair(6) [of a n] on le [of a] by (auto intro: okay_mono)
  next
    case (CallFinish a ok why tr)
    then show ?thesis using do_finish_ok [OF s T, of a n] on le [of a] by simp
  next
    case (CallStop a)
    then show ?thesis using stop_ok [OF s T, of a n] on n [of a] by simp
  next
    case (CallReset a)
    then show ?thesis using reset_ok [OF s T, of a n] on n [of a] by simp
  next
    case (CallSetTimeout a ms)
    then show ?thesis using timeouts_ok(1) [OF s, of a ms] on by simp
  next
    case (CallResetTimeout a)
    then show ?thesis using timeouts_ok(2) [OF s, of a] on by simp
  next
    case RunTask
    then show ?thesis using runFront_ok [OF s T le] by simp
  qed (use s in simp)
qed

lemma performs_ok:
  assumes "store_ok T rk {} s" and T: "typing_ok T rk" and n: "\<And>a. T a \<noteq> None \<Longrightarrow> rk a < n"
    and "\<And>c a. \<lbrakk>c \<in> set cs; a \<in> set (call_on c)\<rbrakk> \<Longrightarrow> T a \<noteq> None"
  shows "okay (performs n cs s) (store_ok T rk {})"
  using assms(1,4)
proof (induction cs arbitrary: s)
  case (Cons c cs)
  have "okay (perform n c s) (store_ok T rk {})"
    by (rule perform_ok [OF Cons.prems(1) T n]) (use Cons.prems(2) in auto)
  then show ?case
    unfolding performs.simps okay_bind
    by (rule okay_mono) (rule Cons.IH, use Cons.prems(2) in auto)
qed simp

definition typing_of :: "flow \<Rightarrow> typing" where
  "typing_of s = (\<lambda>a. map_option (\<lambda>x. skel (act_kind x)) (objs s a))"

lemma store_typing: "store_ok T rk E s \<Longrightarrow> typing_of s = T"
  by (auto simp: store_ok_def typing_of_def)

end
