(* ===== verification/Flow_Semantics.thy ===== *)
theory Flow_Semantics
  imports Flow_Handlers
begin

text \<open>
  What a tree of actions computes. A behaviour tree is evaluated by a big-step relation that says
  in one line per class what the class is for: the sequence stops at the first failure or success
  of its mode, the wrapper changes the result, and so on. The theorem is that the code does this:
  started in a fresh tree with an empty queue, the actions reach, by running the queued callbacks
  one after the other, the state in which the root has finished with the result, the reason and
  the trace of the relation, and the functions were called in its order.
\<close>

section \<open>Behaviour trees\<close>

datatype shape =
    SFn nat
  | SSeq seq_mode
  | SRep rep_mode usize
  | SLoop loop_mode
  | SWrap wrap_mode
  | SComp
  | SLoopIf bool
  | SIfBoth | SIfThen | SIfElse
  | SBranches
  | SSwitch "string list" bool

text \<open>A node: its object, how it appears in traces, its class, and its children in the order of the
  members of the class; those of \<open>SBranches\<close> (\<open>IfThenAction\<close>) alternate, those of \<open>SSwitch\<close> are the
  switch, the cases with the keys given, and, where the flag is set, the default.\<close>

datatype bt = Node addr who shape "bt list"

fun root :: "bt \<Rightarrow> addr" where
  "root (Node a w sh ts) = a"

fun kids :: "bt \<Rightarrow> bt list" where
  "kids (Node a w sh ts) = ts"

fun addrs :: "bt \<Rightarrow> addr list" where
  "addrs (Node a w sh ts) = a # concat (map addrs ts)"

fun pairs :: "'a list \<Rightarrow> ('a \<times> 'a) list" where
  "pairs (x # y # zs) = (x, y) # pairs zs"
| "pairs zs = []"

text \<open>The class and the children of an object.\<close>

definition fits :: "shape \<Rightarrow> addr list \<Rightarrow> kind \<Rightarrow> bool" where
  "fits sh cs k = (case sh of
       SFn f \<Rightarrow> k = Function (Some f) \<and> cs = []
     | SSeq m \<Rightarrow> (case k of Sequence m' cs' i \<Rightarrow> m' = m \<and> cs' = cs | _ \<Rightarrow> False)
     | SRep m t \<Rightarrow> (case k of Repeat m' t' r c \<Rightarrow> m' = m \<and> t' = t \<and> map Some cs = [c] | _ \<Rightarrow> False)
     | SLoop m \<Rightarrow> (case k of LoopK m' c \<Rightarrow> m' = m \<and> map Some cs = [c] | _ \<Rightarrow> False)
     | SWrap m \<Rightarrow> (case k of Wrapper m' c \<Rightarrow> m' = m \<and> map Some cs = [c] | _ \<Rightarrow> False)
     | SComp \<Rightarrow> (case k of Composite c \<Rightarrow> map Some cs = [c] | _ \<Rightarrow> False)
     | SLoopIf r \<Rightarrow> (case k of LoopIf i e r' \<Rightarrow> r' = r \<and> map Some cs = [i, e] | _ \<Rightarrow> False)
     | SIfBoth \<Rightarrow> (case k of IfElse i t e \<Rightarrow> map Some cs = [i, t, e] | _ \<Rightarrow> False)
     | SIfThen \<Rightarrow> (case k of IfElse i t e \<Rightarrow> map Some cs = [i, t] \<and> e = None | _ \<Rightarrow> False)
     | SIfElse \<Rightarrow> (case k of IfElse i t e \<Rightarrow> map Some cs = [i, e] \<and> t = None | _ \<Rightarrow> False)
     | SBranches \<Rightarrow> (case k of IfThen ps i tmp \<Rightarrow> tmp = None \<and> even (length cs) \<and> ps = pairs cs | _ \<Rightarrow> False)
     | SSwitch ks dflt \<Rightarrow> (case k of
           Switch w cases d \<Rightarrow> (\<exists>c ccs ds. cs = c # ccs @ ds \<and> w = Some c \<and> length ccs = length ks \<and>
               cases = zip ks ccs \<and> ds = opt_list d \<and> dflt = (d \<noteq> None))
         | _ \<Rightarrow> False))"

text \<open>The handler the parent has installed on its child number \<open>i\<close>.\<close>

definition handler :: "shape \<Rightarrow> addr \<Rightarrow> nat \<Rightarrow> fin_cb" where
  "handler sh a i = (case sh of
       SFn f \<Rightarrow> NoFin
     | SSeq m \<Rightarrow> SeqFin a
     | SRep m t \<Rightarrow> RepFin a
     | SLoop m \<Rightarrow> LoopFin a
     | SWrap m \<Rightarrow> WrapFin a
     | SComp \<Rightarrow> LastFin a
     | SLoopIf r \<Rightarrow> if i = 0 then IfFin a else ExecFin a
     | SIfBoth \<Rightarrow> if i = 0 then CondFin a else LastFin a
     | SIfThen \<Rightarrow> if i = 0 then CondFin a else LastFin a
     | SIfElse \<Rightarrow> if i = 0 then CondFin a else LastFin a
     | SBranches \<Rightarrow> if even i then IfThenFin a else LastFin a
     | SSwitch ks d \<Rightarrow> if i = 0 then SwitchFin a else LastFin a)"

text \<open>The tree is in the store, its root with the finish callback \<open>h\<close>.\<close>

function (sequential) in_store :: "flow \<Rightarrow> fin_cb \<Rightarrow> bt \<Rightarrow> bool" where
  "in_store s h (Node a w sh ts) \<longleftrightarrow>
     (\<exists>x. objs s a = Some x \<and> fits sh (map root ts) (act_kind x) \<and> who_of x = w \<and> finish_cb x = h \<and>
        h \<noteq> NoFin \<and> \<not> final_cb x) \<and>
     (\<forall>i < length ts. in_store s (handler sh a i) (ts ! i))"
  by pat_completeness auto
termination
  by (relation "measure (\<lambda>(s, h, t). size t)") (auto dest!: nth_mem size_list_estimation' [OF _ order_refl] simp: less_Suc_eq_le)

text \<open>Fresh: idle, with the members as after construction or reset. Rested: fresh, or finished with
  rested children.\<close>

definition is_fresh :: "action \<Rightarrow> bool" where
  "is_fresh x \<longleftrightarrow> act_state x = kIdle \<and> (case act_kind x of Sequence m cs i \<Rightarrow> i = 0 | _ \<Rightarrow> True)"

definition fresh_tree :: "flow \<Rightarrow> bt \<Rightarrow> bool" where
  "fresh_tree s t \<longleftrightarrow> (\<forall>a \<in> set (addrs t). \<exists>x. objs s a = Some x \<and> is_fresh x)"

definition state_is :: "flow \<Rightarrow> addr \<Rightarrow> act_state \<Rightarrow> bool" where
  "state_is s a st \<longleftrightarrow> (\<exists>x. objs s a = Some x \<and> act_state x = st)"

fun rested :: "flow \<Rightarrow> bt \<Rightarrow> bool" where
  "rested s (Node a w sh ts) \<longleftrightarrow> fresh_tree s (Node a w sh ts) \<or>
     (state_is s a kFinished \<and> (\<forall>u \<in> set ts. rested s u))"

text \<open>Fuel for the depth of a tree.\<close>

fun deep :: "nat \<Rightarrow> bt \<Rightarrow> bool" where
  "deep 0 t \<longleftrightarrow> False"
| "deep (Suc m) t \<longleftrightarrow> (\<forall>u \<in> set (kids t). deep m u)"

section \<open>The meaning of a tree\<close>

type_synonym outcome = "bool \<times> reason \<times> trace"
type_synonym user_fn = "nat \<Rightarrow> fl_event list \<Rightarrow> reason \<Rightarrow> bool \<times> reason"

fun signed_by :: "outcome \<Rightarrow> who \<Rightarrow> outcome" where
  "signed_by (ok, why, tr) w = (ok, why, tr @ [w])"

inductive eval :: "user_fn \<Rightarrow> bt \<Rightarrow> fl_event list \<Rightarrow> outcome \<Rightarrow> fl_event list \<Rightarrow> bool"
  and eval_seq :: "user_fn \<Rightarrow> seq_mode \<Rightarrow> bt list \<Rightarrow> fl_event list \<Rightarrow> outcome \<Rightarrow> outcome \<Rightarrow> fl_event list \<Rightarrow> bool"
  and eval_rep :: "user_fn \<Rightarrow> rep_mode \<Rightarrow> usize \<Rightarrow> bt \<Rightarrow> fl_event list \<Rightarrow> outcome \<Rightarrow> fl_event list \<Rightarrow> bool"
  and eval_loop :: "user_fn \<Rightarrow> loop_mode \<Rightarrow> bt \<Rightarrow> fl_event list \<Rightarrow> outcome \<Rightarrow> fl_event list \<Rightarrow> bool"
  and eval_while :: "user_fn \<Rightarrow> bool \<Rightarrow> bt \<Rightarrow> bt \<Rightarrow> fl_event list \<Rightarrow> outcome \<Rightarrow> fl_event list \<Rightarrow> bool"
  and eval_branches :: "user_fn \<Rightarrow> bt list \<Rightarrow> fl_event list \<Rightarrow> outcome \<Rightarrow> fl_event list \<Rightarrow> bool"
  for F where
  Fn: "F f l (reason_of 2 ''FunctionAction'') = (ok, why) \<Longrightarrow>
     eval F (Node a w (SFn f) []) l (ok, why, [w]) (l @ [EvFunc f])"
| Seq: "eval_seq F m ts l (True, no_reason, []) r l' \<Longrightarrow> eval F (Node a w (SSeq m) ts) l (signed_by r w) l'"
| Rep: "eval_rep F m (t - 1) u l r l' \<Longrightarrow> eval F (Node a w (SRep m t) [u]) l (signed_by r w) l'"
| Loop: "eval_loop F m u l r l' \<Longrightarrow> eval F (Node a w (SLoop m) [u]) l (signed_by r w) l'"
| Wrap: "eval F u l (ok, why, tr) l' \<Longrightarrow> eval F (Node a w (SWrap m) [u]) l (wrapped m ok, why, tr @ [w]) l'"
| Comp: "eval F u l r l' \<Longrightarrow> eval F (Node a w SComp [u]) l (signed_by r w) l'"
| While: "eval_while F b u v l r l' \<Longrightarrow> eval F (Node a w (SLoopIf b) [u, v]) l (signed_by r w) l'"
| IfBothThen: "\<lbrakk>eval F u l (True, q) l1; eval F v l1 r l2\<rbrakk> \<Longrightarrow> eval F (Node a w SIfBoth [u, v, v']) l (signed_by r w) l2"
| IfBothElse: "\<lbrakk>eval F u l (False, q) l1; eval F v' l1 r l2\<rbrakk> \<Longrightarrow> eval F (Node a w SIfBoth [u, v, v']) l (signed_by r w) l2"
| IfThenThen: "\<lbrakk>eval F u l (True, q) l1; eval F v l1 r l2\<rbrakk> \<Longrightarrow> eval F (Node a w SIfThen [u, v]) l (signed_by r w) l2"
| IfThenNone: "eval F u l (False, why, tr) l1 \<Longrightarrow> eval F (Node a w SIfThen [u, v]) l (True, why, tr @ [w]) l1"
| IfElseElse: "\<lbrakk>eval F u l (False, q) l1; eval F v l1 r l2\<rbrakk> \<Longrightarrow> eval F (Node a w SIfElse [u, v]) l (signed_by r w) l2"
| IfElseNone: "eval F u l (True, why, tr) l1 \<Longrightarrow> eval F (Node a w SIfElse [u, v]) l (True, why, tr @ [w]) l1"
| Branches: "eval_branches F ts l r l' \<Longrightarrow> eval F (Node a w SBranches ts) l (signed_by r w) l'"
| SwitchCase: "\<lbrakk>eval F u l (True, why, tr) l1; length vs = length ks; map_of (zip ks vs) (r_message why) = Some v;
     eval F v l1 r l2; length ds = of_bool d\<rbrakk>
     \<Longrightarrow> eval F (Node a w (SSwitch ks d) (u # vs @ ds)) l (signed_by r w) l2"
| SwitchDefault: "\<lbrakk>eval F u l (True, why, tr) l1; length vs = length ks; r_message why \<notin> set ks; eval F v l1 r l2\<rbrakk>
     \<Longrightarrow> eval F (Node a w (SSwitch ks True) (u # vs @ [v])) l (signed_by r w) l2"
| SwitchSkip: "\<lbrakk>eval F u l (True, why, tr) l1; length vs = length ks; r_message why \<notin> set ks\<rbrakk>
     \<Longrightarrow> eval F (Node a w (SSwitch ks False) (u # vs)) l (False, reason_of 8 ''SwitchSkip'', [w]) l1"
| SwitchFail: "\<lbrakk>eval F u l (False, why, tr) l1; length vs = length ks; length ds = of_bool d\<rbrakk>
     \<Longrightarrow> eval F (Node a w (SSwitch ks d) (u # vs @ ds)) l (False, reason_of 9 ''SwitchFail'', [w]) l1"
| SeqEnd: "eval_seq F m [] l r r l"
| SeqBreak: "\<lbrakk>eval F t l (ok, q) l1; (m = AnySucc \<and> ok) \<or> (m = AnyFail \<and> \<not> ok)\<rbrakk>
     \<Longrightarrow> eval_seq F m (t # ts) l r (ok, q) l1"
| SeqNext: "\<lbrakk>eval F t l (ok, q) l1; \<not> ((m = AnySucc \<and> ok) \<or> (m = AnyFail \<and> \<not> ok)); eval_seq F m ts l1 (ok, q) r' l2\<rbrakk>
     \<Longrightarrow> eval_seq F m (t # ts) l r r' l2"
| RepBreak: "\<lbrakk>eval F u l (ok, q) l1; (m = BreakSucc \<and> ok) \<or> (m = BreakFail \<and> \<not> ok)\<rbrakk> \<Longrightarrow> eval_rep F m k u l (ok, q) l1"
| RepEnd: "\<lbrakk>eval F u l (ok, q) l1; \<not> ((m = BreakSucc \<and> ok) \<or> (m = BreakFail \<and> \<not> ok))\<rbrakk>
     \<Longrightarrow> eval_rep F m 0 u l (True, reason_of 7 ''RepeatNoTimes'', []) l1"
| RepNext: "\<lbrakk>eval F u l (ok, q) l1; \<not> ((m = BreakSucc \<and> ok) \<or> (m = BreakFail \<and> \<not> ok)); k \<noteq> 0; eval_rep F m (k - 1) u l1 r l2\<rbrakk>
     \<Longrightarrow> eval_rep F m k u l r l2"
| LoopEnd: "\<lbrakk>eval F u l (ok, q) l1; (m = UntilSucc \<and> ok) \<or> (m = UntilFail \<and> \<not> ok)\<rbrakk> \<Longrightarrow> eval_loop F m u l (ok, q) l1"
| LoopNext: "\<lbrakk>eval F u l (ok, q) l1; \<not> ((m = UntilSucc \<and> ok) \<or> (m = UntilFail \<and> \<not> ok)); eval_loop F m u l1 r l2\<rbrakk>
     \<Longrightarrow> eval_loop F m u l r l2"
| WhileEnd: "eval F u l (False, q) l1 \<Longrightarrow> eval_while F b u v l (b, q) l1"
| WhileNext: "\<lbrakk>eval F u l (True, q) l1; eval F v l1 r l2; eval_while F b u v l2 r' l3\<rbrakk> \<Longrightarrow> eval_while F b u v l r' l3"
| BranchesEnd: "eval_branches F [] l (False, reason_of 10 ''IfThenSkip'', []) l"
| BranchTaken: "\<lbrakk>eval F u l (True, q) l1; eval F v l1 r l2\<rbrakk> \<Longrightarrow> eval_branches F (u # v # ts) l r l2"
| BranchNext: "\<lbrakk>eval F u l (False, q) l1; eval_branches F ts l1 r l2\<rbrakk> \<Longrightarrow> eval_branches F (u # v # ts) l r l2"

section \<open>What the predicates depend on\<close>

definition agree :: "addr set \<Rightarrow> flow \<Rightarrow> flow \<Rightarrow> bool" where
  "agree A s s' \<longleftrightarrow> (\<forall>b \<in> A. objs s' b = objs s b) \<and> runq s' = runq s \<and> fl_log s' = fl_log s \<and> fn_call s' = fn_call s"

definition outside :: "addr set \<Rightarrow> flow \<Rightarrow> flow \<Rightarrow> bool" where
  "outside A s s' \<longleftrightarrow> (\<forall>b. b \<notin> A \<longrightarrow> objs s' b = objs s b) \<and> fn_call s' = fn_call s"

lemma outside_refl [simp]: "outside A s s"
  by (simp add: outside_def)

lemma outside_trans: "\<lbrakk>outside A s1 s2; outside B s2 s3; A \<subseteq> C; B \<subseteq> C\<rbrakk> \<Longrightarrow> outside C s1 s3"
  unfolding outside_def by (metis subsetD)

lemma outside_mono: "\<lbrakk>outside A s s'; A \<subseteq> B\<rbrakk> \<Longrightarrow> outside B s s'"
  unfolding outside_def by blast

lemma agree_refl [simp]: "agree A s s"
  by (simp add: agree_def)

lemma kid_addrs: "u \<in> set ts \<Longrightarrow> set (addrs u) \<subseteq> set (addrs (Node a w sh ts))"
  by auto

lemma root_in_addrs [simp]: "root t \<in> set (addrs t)"
  by (cases t) simp

lemma fresh_cong:
  assumes "\<And>b. b \<in> set (addrs t) \<Longrightarrow> objs s' b = objs s b"
  shows "fresh_tree s' t = fresh_tree s t"
  using assms by (simp add: fresh_tree_def)

lemma rested_cong:
  assumes "\<And>b. b \<in> set (addrs t) \<Longrightarrow> objs s' b = objs s b"
  shows "rested s' t = rested s t"
  using assms
proof (induction t)
  case (Node a w sh ts)
  have "rested s' u = rested s u" if "u \<in> set ts" for u
    by (rule Node.IH [OF that]) (use that Node.prems in auto)
  moreover have "fresh_tree s' (Node a w sh ts) = fresh_tree s (Node a w sh ts)"
    by (rule fresh_cong) (rule Node.prems)
  moreover have "objs s' a = objs s a"
    using Node.prems by simp
  ultimately show ?case
    by (simp add: state_is_def)
qed

lemma in_store_cong:
  assumes "\<And>b. b \<in> set (addrs t) \<Longrightarrow> objs s' b = objs s b"
  shows "in_store s' h t = in_store s h t"
  using assms
proof (induction t arbitrary: h)
  case (Node a w sh ts)
  have "in_store s' h' (ts ! i) = in_store s h' (ts ! i)" if "i < length ts" for h' i
    by (rule Node.IH [OF nth_mem [OF that]]) (use Node.prems kid_addrs [OF nth_mem [OF that]] in blast)
  moreover have "objs s' a = objs s a"
    using Node.prems by simp
  ultimately show ?case
    by simp
qed

lemma fresh_rested: "fresh_tree s t \<Longrightarrow> rested s t"
  by (cases t) simp

lemma fresh_kid: "\<lbrakk>fresh_tree s (Node a w sh ts); u \<in> set ts\<rbrakk> \<Longrightarrow> fresh_tree s u"
  by (auto simp: fresh_tree_def)

lemma fresh_Node:
  "fresh_tree s (Node a w sh ts) \<longleftrightarrow> (\<exists>x. objs s a = Some x \<and> is_fresh x) \<and> (\<forall>u \<in> set ts. fresh_tree s u)"
  by (auto simp: fresh_tree_def)

lemma deep_mono: "deep m t \<Longrightarrow> m \<le> n \<Longrightarrow> deep n t"
proof (induction m arbitrary: t n)
  case (Suc m)
  then show ?case by (cases n) auto
qed simp

section \<open>Reaching the end\<close>

fun finished_with :: "bt \<Rightarrow> fin_cb \<Rightarrow> outcome \<Rightarrow> fl_event list \<Rightarrow> flow \<Rightarrow> bool" where
  "finished_with t h (ok, why, tr) l s \<longleftrightarrow>
     (\<exists>i. runq s = [(i, FinTask h ok why tr)]) \<and> fl_log s = l \<and> rested s t \<and> in_store s h t \<and>
     (\<exists>x. objs s (root t) = Some x \<and> act_state x = kFinished \<and> act_result x = (if ok then kSuccess else kFail))"

definition reaches :: "nat \<Rightarrow> bt \<Rightarrow> fin_cb \<Rightarrow> outcome \<Rightarrow> fl_event list \<Rightarrow> flow \<Rightarrow> bool" where
  "reaches n t h r l s \<longleftrightarrow> (\<forall>s'. agree (set (addrs t)) s s' \<longrightarrow>
     (\<exists>k s2. run_fronts n k s' = Some s2 \<and> outside (set (addrs t)) s' s2 \<and> finished_with t h r l s2))"

lemma finished_cong:
  assumes "agree (set (addrs t)) s s'"
  shows "finished_with t h r l s' = finished_with t h r l s"
proof -
  have "rested s' t = rested s t" "in_store s' h t = in_store s h t"
    by (rule rested_cong in_store_cong, use assms in \<open>simp add: agree_def\<close>)+
  moreover have "objs s' (root t) = objs s (root t)"
    using assms by (simp add: agree_def)
  ultimately show ?thesis
    using assms by (cases r) (simp add: agree_def)
qed

lemma reaches_end: "finished_with t h r l s \<Longrightarrow> reaches n t h r l s"
  unfolding reaches_def
  by (intro allI impI exI [where x = 0]) (simp add: finished_cong)

lemma reaches_agree: "\<lbrakk>reaches n t h r l s; agree (set (addrs t)) s s'\<rbrakk> \<Longrightarrow> reaches n t h r l s'"
  unfolding reaches_def agree_def by auto

lemma run_fronts_add: "run_fronts n (j + k) s = run_fronts n j s \<bind> run_fronts n k"
  by (induction j arbitrary: s) (auto split: bind_splits)

text \<open>A parent waits for a child: when the child has reached its end, one more task is the parent's
  handler, and what the handler leaves reaches the parent's end.\<close>

lemma reaches_child:
  assumes u: "reaches n u hu (ok, why, tr) l1 s" and sub: "set (addrs u) \<subseteq> set (addrs t)"
    and handle: "\<And>s2. \<lbrakk>\<And>b. b \<in> set (addrs t) \<Longrightarrow> b \<notin> set (addrs u) \<Longrightarrow> objs s2 b = objs s b; fn_call s2 = fn_call s; runq s2 = [];
        fl_log s2 = l1; rested s2 u; in_store s2 hu u\<rbrakk>
      \<Longrightarrow> \<exists>s3. run_fin n hu ok why tr s2 = Some s3 \<and> outside (set (addrs t)) s2 s3 \<and> reaches n t h r l s3"
  shows "reaches n t h r l s"
  unfolding reaches_def
proof (intro allI impI)
  fix s'
  assume ag: "agree (set (addrs t)) s s'"
  then have "agree (set (addrs u)) s s'"
    using sub by (auto simp: agree_def)
  then obtain k s2 where s2: "run_fronts n k s' = Some s2" "outside (set (addrs u)) s' s2" "finished_with u hu (ok, why, tr) l1 s2"
    using u unfolding reaches_def by blast
  then obtain i where q: "runq s2 = [(i, FinTask hu ok why tr)]"
    by auto
  let ?s = "s2\<lparr>runq := []\<rparr>"
  have "rested ?s u = rested s2 u" "in_store ?s hu u = in_store s2 hu u"
    by (rule rested_cong in_store_cong, simp)+
  moreover have "objs ?s b = objs s b" if "b \<in> set (addrs t)" "b \<notin> set (addrs u)" for b
    using s2(2) ag that by (simp add: outside_def agree_def)
  moreover have "fn_call ?s = fn_call s"
    using s2(2) ag by (simp add: outside_def agree_def)
  ultimately obtain s3 where s3: "run_fin n hu ok why tr ?s = Some s3" "outside (set (addrs t)) ?s s3" "reaches n t h r l s3"
    using handle [of ?s] s2(3) by auto
  then obtain k' s4 where s4: "run_fronts n k' s3 = Some s4" "outside (set (addrs t)) s3 s4" "finished_with t h r l s4"
    unfolding reaches_def using agree_refl by blast
  have "run_fronts n (k + Suc k') s' = Some s4"
    unfolding run_fronts_add [of n k "Suc k'"]
    using s2(1) s3(1) s4(1) q by (simp add: run_front_def run_task_def)
  moreover have "outside (set (addrs t)) s' s4"
  proof -
    have "outside (set (addrs t)) s' ?s"
      using s2(2) sub by (auto simp: outside_def)
    then show ?thesis
      using s3(2) s4(2) by (auto intro: outside_trans)
  qed
  ultimately show "\<exists>k s2. run_fronts n k s' = Some s2 \<and> outside (set (addrs t)) s' s2 \<and> finished_with t h r l s2"
    using s4(3) by blast
qed

section \<open>Nodes\<close>

lemma kids_disjoint:
  assumes "distinct (concat (map addrs ts))" and "u \<in> set ts" and "v \<in> set ts" and "u \<noteq> v"
  shows "set (addrs u) \<inter> set (addrs v) = {}"
  using assms by (induction ts) auto

lemma distinct_kid: "\<lbrakk>distinct (concat (map addrs ts)); u \<in> set ts\<rbrakk> \<Longrightarrow> distinct (addrs u)"
  by (induction ts) auto

text \<open>The root in a store, with its children.\<close>

lemma in_store_Node:
  "in_store s h (Node a w sh ts) \<longleftrightarrow>
     (\<exists>x. objs s a = Some x \<and> fits sh (map root ts) (act_kind x) \<and> who_of x = w \<and> finish_cb x = h \<and>
        h \<noteq> NoFin \<and> \<not> final_cb x) \<and> (\<forall>i < length ts. in_store s (handler sh a i) (ts ! i))"
  by simp

text \<open>A change of the root that keeps class, callbacks and name keeps the tree in the store.\<close>

lemma in_store_root:
  assumes "in_store s h (Node a w sh ts)" and "distinct (addrs (Node a w sh ts))" and "objs s a = Some x"
    and "objs s' = (objs s)(a \<mapsto> y)" and "fits sh (map root ts) (act_kind y)" and "who_of y = who_of x"
    and "finish_cb y = finish_cb x" and "final_cb y = final_cb x"
  shows "in_store s' h (Node a w sh ts)"
proof -
  have "in_store s' h' (ts ! i) = in_store s h' (ts ! i)" if "i < length ts" for h' i
    by (rule in_store_cong) (use assms(2,4) that in \<open>auto dest: nth_mem\<close>)
  then show ?thesis
    using assms by (auto simp del: in_store.simps simp: in_store_Node)
qed

lemma rested_kid_root:
  assumes "distinct (addrs (Node a w sh ts))" and "objs s' = (objs s)(a \<mapsto> y)" and "v \<in> set ts"
  shows "rested s' v = rested s v" and "fresh_tree s' v = fresh_tree s v"
proof -
  have same: "objs s' b = objs s b" if "b \<in> set (addrs v)" for b
    using assms that by auto
  show "rested s' v = rested s v" by (rule rested_cong) (rule same)
  show "fresh_tree s' v = fresh_tree s v" by (rule fresh_cong) (rule same)
qed

definition finish_object :: "action \<Rightarrow> bool \<Rightarrow> nat \<Rightarrow> action" where
  "finish_object x ok i = x\<lparr>act_state := kFinished, timer_ev := timer_set False (timer_ev x),
     act_result := (if ok then kSuccess else kFail), finish_cb_run_id := i\<rparr>"

lemma do_finish_eq:
  assumes "objs s a = Some x" and "act_state x = kIdle \<or> act_state x = kRunning" and "finish_cb x \<noteq> NoFin"
    and "\<not> final_cb x" and "act_kind x \<noteq> EventWait" and "\<And>c. act_kind x = Composite c \<Longrightarrow> curr_action x = None"
  shows "do_finish n a ok why tr s = Some (s\<lparr>objs := (objs s)(a \<mapsto> finish_object x ok (next_id s)),
     runq := runq s @ [(next_id s, FinTask (finish_cb x) ok why (tr @ [who_of x]))], next_id := next_id s + 2\<rparr>)"
  using assms
  by (cases "act_kind x")
     (auto simp: do_finish_def act_finish_def on_finished_def base_onFinished_def modify_def fl_runNext_def on_final_def
        finish_object_def composite_onFinished_def stopCurrAction_def who_of_def)

lemma fits_update [simp]:
  "act_kind (finish_object x ok i) = act_kind x"
  by (simp add: finish_object_def)

lemma finish_node:
  assumes t: "in_store s h (Node a w sh ts)" "distinct (addrs (Node a w sh ts))"
    and x: "objs s a = Some x" "act_state x = kIdle \<or> act_state x = kRunning"
    and comp: "\<And>c. act_kind x = Composite c \<Longrightarrow> curr_action x = None"
    and kids: "\<And>v. v \<in> set ts \<Longrightarrow> rested s v" and q: "runq s = []"
  shows "\<exists>s'. do_finish n a ok why tr s = Some s' \<and> outside {a} s s' \<and>
     finished_with (Node a w sh ts) h (ok, why, tr @ [w]) (fl_log s) s'"
proof -
  have x': "finish_cb x = h" "who_of x = w" "h \<noteq> NoFin" "\<not> final_cb x" "fits sh (map root ts) (act_kind x)"
    using t(1) x(1) by auto
  have ev: "act_kind x \<noteq> EventWait"
    using x'(5) by (auto simp: fits_def split: shape.splits)
  let ?s = "s\<lparr>objs := (objs s)(a \<mapsto> finish_object x ok (next_id s)),
     runq := runq s @ [(next_id s, FinTask (finish_cb x) ok why (tr @ [who_of x]))], next_id := next_id s + 2\<rparr>"
  have "do_finish n a ok why tr s = Some ?s"
    by (rule do_finish_eq [OF x]) (use x' ev comp in auto)
  moreover have "in_store ?s h (Node a w sh ts)"
    by (rule in_store_root [OF t x(1), where y = "finish_object x ok (next_id s)"]) (use x' in \<open>auto simp: finish_object_def who_of_def\<close>)
  moreover have "rested ?s v" if "v \<in> set ts" for v
    using rested_kid_root(1) [OF t(2), of ?s s] kids [OF that] that by simp
  ultimately show ?thesis
    using x' q by (auto simp del: in_store.simps simp: outside_def state_is_def finish_object_def)
qed

section \<open>Resetting a tree\<close>

text \<open>What a reset of a rested tree does.\<close>

definition resets :: "(addr \<Rightarrow> flow \<Rightarrow> flow option) \<Rightarrow> bt \<Rightarrow> bool" where
  "resets f t \<longleftrightarrow> (\<forall>s h. in_store s h t \<longrightarrow> rested s t \<longrightarrow> distinct (addrs t) \<longrightarrow> runq s = [] \<longrightarrow>
     (\<exists>s'. f (root t) s = Some s' \<and> outside (set (addrs t)) s s' \<and> in_store s' h t \<and> fresh_tree s' t \<and>
        runq s' = [] \<and> fl_log s' = fl_log s))"

lemma outside_objs: "\<lbrakk>outside A s s'; b \<notin> A\<rbrakk> \<Longrightarrow> objs s' b = objs s b"
  by (simp add: outside_def)

text \<open>Resetting some of the children, each once.\<close>

lemma reset_kids:
  assumes "\<And>u. u \<in> set us \<Longrightarrow> resets f u \<and> rested s u \<and> (\<exists>h. in_store s h u)"
    and "distinct (concat (map addrs us))" and "runq s = []"
  shows "\<exists>s'. each f (map root us) s = Some s' \<and> outside (set (concat (map addrs us))) s s' \<and>
     (\<forall>u \<in> set us. fresh_tree s' u \<and> (\<forall>h. in_store s h u \<longrightarrow> in_store s' h u)) \<and> runq s' = [] \<and> fl_log s' = fl_log s"
  using assms
proof (induction us arbitrary: s)
  case (Cons u us)
  obtain h where h: "in_store s h u"
    using Cons.prems(1) [of u] by auto
  have u: "resets f u" "rested s u" "distinct (addrs u)"
    using Cons.prems by auto
  note step = u(1) [unfolded resets_def, rule_format, OF _ u(2,3) Cons.prems(3)]
  obtain s1 where s1: "f (root u) s = Some s1" "outside (set (addrs u)) s s1" "fresh_tree s1 u" "runq s1 = []" "fl_log s1 = fl_log s"
    using step [OF h] by blast
  have in1: "in_store s1 h' u" if "in_store s h' u" for h'
    using step [OF that] s1(1) by auto
  have far: "objs s1 b = objs s b" if "v \<in> set us" "b \<in> set (addrs v)" for b v
    by (rule outside_objs [OF s1(2)]) (use Cons.prems(2) that in auto)
  have keep: "rested s1 v = rested s v" "in_store s1 h' v = in_store s h' v" if "v \<in> set us" for v h'
    by (rule rested_cong in_store_cong, rule far, rule that, assumption)+
  obtain s2 where s2: "each f (map root us) s1 = Some s2" "outside (set (concat (map addrs us))) s1 s2"
    "\<forall>v \<in> set us. fresh_tree s2 v \<and> (\<forall>h. in_store s1 h v \<longrightarrow> in_store s2 h v)" "runq s2 = []" "fl_log s2 = fl_log s1"
    using Cons.IH [of s1] Cons.prems s1(4) keep by auto
  have near: "objs s2 b = objs s1 b" if "b \<in> set (addrs u)" for b
    by (rule outside_objs [OF s2(2)]) (use Cons.prems(2) that in auto)
  have "fresh_tree s2 u = fresh_tree s1 u" "in_store s2 h' u = in_store s1 h' u" for h'
    by (rule fresh_cong in_store_cong, rule near, assumption)+
  moreover have "outside (set (concat (map addrs (u # us)))) s s2"
    by (rule outside_trans [OF s1(2) s2(2)]) auto
  ultimately show ?case
    using s1 s2 in1 keep by auto
qed simp

lemma each_append: "each f (xs @ ys) s = each f xs s \<bind> each f ys"
proof (induction xs arbitrary: s)
  case (Cons c xs)
  then show ?case by (cases "f c s") simp_all
qed simp

text \<open>\<open>onReset\<close> of a node resets each child once, in the order of the class.\<close>

lemma concat_pairs: "even (length cs) \<Longrightarrow> concat (map (\<lambda>(x, y). [x, y]) (pairs cs)) = cs"
  by (induction cs rule: pairs.induct) auto

lemma kind_same: "objs s a = Some x \<Longrightarrow> s\<lparr>objs := (objs s)(a \<mapsto> x\<lparr>act_kind := act_kind x\<rparr>)\<rparr> = s"
  by (simp add: fun_upd_idem)

lemma onReset_each:
  assumes x: "objs s a = Some x" and fit: "fits sh (map root ts) (act_kind x)" and sh: "\<And>f. sh \<noteq> SFn f"
  shows "\<exists>us k. mset us = mset ts \<and> fits sh (map root ts) k \<and> (case k of Sequence m cs i \<Rightarrow> i = 0 | _ \<Rightarrow> True) \<and>
      on_reset reset a s = each reset (map root us) (s\<lparr>objs := (objs s)(a \<mapsto> x\<lparr>act_kind := k\<rparr>)\<rparr>) \<bind> serial_onReset a"
proof -
  have same: "s\<lparr>objs := (objs s)(a \<mapsto> x)\<rparr> = s"
    using x by (simp add: fun_upd_idem)
  have by_order: ?thesis if "mset us = mset ts" "fits sh (map root ts) k" "case k of Sequence m cs i \<Rightarrow> i = 0 | _ \<Rightarrow> True"
    "on_reset reset a s = each reset (map root us) (s\<lparr>objs := (objs s)(a \<mapsto> x\<lparr>act_kind := k\<rparr>)\<rparr>) \<bind> serial_onReset a" for us k
    using that by blast
  show ?thesis
  proof (cases sh)
    case (SSeq m)
    then show ?thesis
      using x fit by (intro by_order [of ts "Sequence m (map root ts) 0"])
        (auto simp: fits_def on_reset_def seq_onReset_def set_kind_def modify_def split: kind.splits)
  next
    case SBranches
    then show ?thesis
      using x fit by (intro by_order [of ts "IfThen (pairs (map root ts)) 0 None"])
        (auto simp: fits_def on_reset_def ifthen_onReset_def set_kind_def modify_def concat_pairs split: kind.splits)
  next
    case (SSwitch ks dflt)
    then obtain w cases d ccs where k: "act_kind x = Switch w cases d" and cs: "map root ts = the w # ccs @ opt_list d"
      "w \<noteq> None" "length ccs = length ks" "cases = zip ks ccs"
      using fit by (auto simp: fits_def split: kind.splits)
    obtain u vs where ts: "ts = u # vs" "root u = the w" "map root vs = ccs @ opt_list d"
      using cs(1) by (cases ts) auto
    define cv where "cv = take (length ccs) vs"
    define dv where "dv = drop (length ccs) vs"
    have parts: "map root cv = ccs" "map root dv = opt_list d" "vs = cv @ dv"
      using ts(3) by (simp_all add: cv_def dv_def take_map [symmetric] drop_map [symmetric])
    have eq: "on_reset reset a s = each reset (map root (u # dv @ cv)) s \<bind> serial_onReset a"
    proof -
      have "on_reset reset a s = reset (root u) s \<bind> (\<lambda>s1. each reset (map root dv) s1 \<bind> (\<lambda>s2. each reset (map root cv) s2 \<bind> serial_onReset a))"
        using cs(2-4) ts(2) unfolding parts(1,2)
        by (cases d) (auto simp: x k on_reset_def switch_onReset_def reset_child_def opt_list_def)
      then show ?thesis
        by (simp add: each_append)
    qed
    show ?thesis
    proof (rule by_order)
      show "mset (u # dv @ cv) = mset ts"
        by (simp add: ts(1) parts(3))
      show "fits sh (map root ts) (act_kind x)" by (rule fit)
      show "case act_kind x of Sequence m cs i \<Rightarrow> i = 0 | _ \<Rightarrow> True" by (simp add: k)
      show "on_reset reset a s = each reset (map root (u # dv @ cv)) (s\<lparr>objs := (objs s)(a \<mapsto> x\<lparr>act_kind := act_kind x\<rparr>)\<rparr>) \<bind> serial_onReset a"
        unfolding kind_same [of s a x, OF x] by (rule eq)
    qed
  next
    case (SFn f)
    then show ?thesis using sh by blast
  next
    case (SRep m t)
    then show ?thesis using x fit
      by (intro by_order [of ts "act_kind x"]) (auto simp: same fits_def on_reset_def repeat_onReset_def reset_child_def split: kind.splits)
  next
    case (SLoop m)
    then show ?thesis using x fit
      by (intro by_order [of ts "act_kind x"]) (auto simp: same fits_def on_reset_def loop_onReset_def reset_child_def split: kind.splits)
  next
    case (SWrap m)
    then show ?thesis using x fit
      by (intro by_order [of ts "act_kind x"]) (auto simp: same fits_def on_reset_def wrapper_onReset_def reset_child_def split: kind.splits)
  next
    case SComp
    then show ?thesis using x fit
      by (intro by_order [of ts "act_kind x"]) (auto simp: same fits_def on_reset_def composite_onReset_def reset_child_def split: kind.splits)
  next
    case (SLoopIf r)
    then show ?thesis using x fit
      by (intro by_order [of ts "act_kind x"]) (auto simp: same fits_def on_reset_def loopif_onReset_def reset_child_def split: kind.splits)
  next
    case SIfBoth
    then show ?thesis using x fit
      by (intro by_order [of ts "act_kind x"]) (auto simp: same fits_def on_reset_def ifelse_onReset_def reset_child_def map_eq_Cons_conv split: kind.splits)
  next
    case SIfThen
    then show ?thesis using x fit
      by (intro by_order [of ts "act_kind x"]) (auto simp: same fits_def on_reset_def ifelse_onReset_def reset_child_def map_eq_Cons_conv split: kind.splits)
  next
    case SIfElse
    then show ?thesis using x fit
      by (intro by_order [of ts "act_kind x"]) (auto simp: same fits_def on_reset_def ifelse_onReset_def reset_child_def map_eq_Cons_conv split: kind.splits)
  qed
qed

lemma distinct_concat_mset:
  assumes "mset us = mset ts"
  shows "distinct (concat (map addrs us)) = distinct (concat (map addrs ts))" and "set us = set ts"
proof -
  have "mset (concat (map addrs us)) = mset (concat (map addrs ts))"
    using assms by (simp add: mset_concat sum_mset_sum_list [symmetric] del: sum_mset_sum_list)
  then show "distinct (concat (map addrs us)) = distinct (concat (map addrs ts))"
    by (rule mset_eq_imp_distinct_iff)
  show "set us = set ts"
    using assms by (rule mset_eq_setD)
qed

lemma cancelDispatched_eq:
  assumes "objs s a = Some x" and "runq s = []"
  shows "cancelDispatchedCallback a s = Some (s\<lparr>objs := (objs s)(a \<mapsto> x\<lparr>finish_cb_run_id := 0, block_cb_run_id := 0\<rparr>)\<rparr>)"
  using assms
  by (cases s; cases x) (auto simp: cancelDispatchedCallback_def modify_def fl_cancel_def intro!: ext)

definition reset_object :: "action \<Rightarrow> action" where
  "reset_object x = x\<lparr>timer_ev := timer_set False (timer_ev x), finish_cb_run_id := 0, block_cb_run_id := 0,
     act_state := kIdle, act_result := kUnsure\<rparr>"

lemma reset_tail:
  assumes "objs s a = Some x" and "runq s = []"
  shows "(modify a (\<lambda>x. x\<lparr>timer_ev := timer_set False (timer_ev x)\<rparr>) s \<bind> (\<lambda>s2. cancelDispatchedCallback a s2 \<bind>
      modify a (\<lambda>x. x\<lparr>act_state := kIdle, act_result := kUnsure\<rparr>))) = Some (s\<lparr>objs := (objs s)(a \<mapsto> reset_object x)\<rparr>)"
proof -
  let ?x = "x\<lparr>timer_ev := timer_set False (timer_ev x)\<rparr>"
  have "cancelDispatchedCallback a (s\<lparr>objs := (objs s)(a \<mapsto> ?x)\<rparr>) =
      Some (s\<lparr>objs := (objs s)(a \<mapsto> ?x\<lparr>finish_cb_run_id := 0, block_cb_run_id := 0\<rparr>)\<rparr>)"
    using cancelDispatched_eq [of "s\<lparr>objs := (objs s)(a \<mapsto> ?x)\<rparr>" a ?x] assms(2) by simp
  then show ?thesis
    using assms by (simp add: modify_def reset_object_def)
qed

lemma reset_object_simps [simp]:
  "act_kind (reset_object x) = act_kind x" "finish_cb (reset_object x) = finish_cb x" "final_cb (reset_object x) = final_cb x"
  "who_of (reset_object x) = who_of x" "act_state (reset_object x) = kIdle"
  by (simp_all add: reset_object_def who_of_def)

lemma reset_tree: "deep m t \<Longrightarrow> resets (act_reset m) t"
proof (induction m arbitrary: t)
  case (Suc m)
  obtain a w sh ts where t: "t = Node a w sh ts"
    by (cases t)
  have kids: "resets (act_reset m) u" if "u \<in> set ts" for u
    using Suc.IH Suc.prems that by (simp add: t)
  show ?case
    unfolding resets_def
  proof (intro allI impI)
    fix s h
    assume s: "in_store s h t" "rested s t" "distinct (addrs t)" "runq s = []"
    obtain x where x: "objs s a = Some x" "fits sh (map root ts) (act_kind x)" "who_of x = w" "finish_cb x = h" "h \<noteq> NoFin"
      "\<not> final_cb x" using s(1) by (auto simp: t)
    show "\<exists>s'. act_reset (Suc m) (root t) s = Some s' \<and> outside (set (addrs t)) s s' \<and> in_store s' h t \<and>
        fresh_tree s' t \<and> runq s' = [] \<and> fl_log s' = fl_log s"
    proof (cases "fresh_tree s t")
      case True
      then have "act_state x = kIdle"
        using x(1) by (simp add: t fresh_Node is_fresh_def)
      then show ?thesis
        using True s x(1) by (intro exI [where x = s]) (simp add: t del: in_store.simps)
    next
      case False
      then have fin: "act_state x \<noteq> kIdle" and rest: "\<And>u. u \<in> set ts \<Longrightarrow> rested s u"
        using s(2) x(1) by (auto simp: t state_is_def)
      have dist: "distinct (concat (map addrs ts))" and a: "\<And>u. u \<in> set ts \<Longrightarrow> a \<notin> set (addrs u)"
        using s(3) by (auto simp: t)
      have goal: ?thesis
        if s1: "on_reset (act_reset m) a s = Some s1" "outside (set (addrs t)) s s1" "runq s1 = []" "fl_log s1 = fl_log s"
          and y: "objs s1 a = Some y" "fits sh (map root ts) (act_kind y)" "who_of y = w" "finish_cb y = h" "\<not> final_cb y"
            "case act_kind y of Sequence m cs i \<Rightarrow> i = 0 | _ \<Rightarrow> True"
          and sub: "\<And>u. u \<in> set ts \<Longrightarrow> fresh_tree s1 u" "\<And>i. i < length ts \<Longrightarrow> in_store s1 (handler sh a i) (ts ! i)" for s1 y
      proof -
        let ?s = "s1\<lparr>objs := (objs s1)(a \<mapsto> reset_object y)\<rparr>"
        have in1: "in_store s1 h t"
          using y sub(2) x(5) by (simp add: t)
        have "act_reset (Suc m) a s = Some ?s"
          using reset_tail [OF y(1) s1(3)] x(1) fin s1(1) by simp
        moreover have "in_store ?s h t"
          unfolding t by (rule in_store_root [OF in1 [unfolded t] s(3) [unfolded t] y(1), where y = "reset_object y"]) (use y in auto)
        moreover have "fresh_tree ?s u" if "u \<in> set ts" for u
          using rested_kid_root(2) [OF s(3) [unfolded t], of ?s s1] sub(1) [OF that] that by simp
        moreover have "outside (set (addrs t)) s ?s"
          using s1(2) by (auto simp: t outside_def)
        ultimately show ?thesis
          using s1(3,4) y(6) by (auto simp: t fresh_Node is_fresh_def simp del: in_store.simps)
      qed
      show ?thesis
      proof (cases "\<exists>f. sh = SFn f")
        case True
        then obtain f where f: "sh = SFn f" by blast
        then have "ts = []" "act_kind x = Function (Some f)"
          using x(2) by (auto simp: fits_def)
        then show ?thesis
          by (intro goal [of s x]) (use s x f in \<open>auto simp: on_reset_def fits_def\<close>)
      next
        case False
        then obtain us k where us: "mset us = mset ts" "fits sh (map root ts) k" "case k of Sequence m cs i \<Rightarrow> i = 0 | _ \<Rightarrow> True"
          and reset: "on_reset (act_reset m) a s = each (act_reset m) (map root us) (s\<lparr>objs := (objs s)(a \<mapsto> x\<lparr>act_kind := k\<rparr>)\<rparr>) \<bind> serial_onReset a"
          using onReset_each [OF x(1,2), of "act_reset m"] by blast
        let ?s0 = "s\<lparr>objs := (objs s)(a \<mapsto> x\<lparr>act_kind := k\<rparr>)\<rparr>"
        have set_us: "set us = set ts" and dist_us: "distinct (concat (map addrs us))"
          using distinct_concat_mset [OF us(1)] dist by auto
        have in0: "in_store ?s0 h t"
          unfolding t by (rule in_store_root [OF s(1) [unfolded t] s(3) [unfolded t] x(1), where y = "x\<lparr>act_kind := k\<rparr>"])
            (use us x in \<open>auto simp: who_of_def\<close>)
        have kid0: "rested ?s0 u" "\<exists>h. in_store ?s0 h u" if u: "u \<in> set us" for u
        proof -
          show "rested ?s0 u"
            using rested_kid_root(1) [OF s(3) [unfolded t], of ?s0 s] rest u set_us by simp
          obtain i where "i < length ts" "u = ts ! i"
            using u set_us by (metis in_set_conv_nth)
          then show "\<exists>h. in_store ?s0 h u"
            using in0 by (auto simp: t)
        qed
        obtain s1 where s1: "each (act_reset m) (map root us) ?s0 = Some s1" "outside (set (concat (map addrs us))) ?s0 s1"
          "\<And>u. u \<in> set us \<Longrightarrow> fresh_tree s1 u" "\<And>u h. u \<in> set us \<Longrightarrow> in_store ?s0 h u \<Longrightarrow> in_store s1 h u"
          "runq s1 = []" "fl_log s1 = fl_log ?s0"
          using reset_kids [of us "act_reset m" ?s0] kids kid0 set_us dist_us s(4) by auto
        have a1: "objs s1 a = Some (x\<lparr>act_kind := k\<rparr>)"
          using outside_objs [OF s1(2), of a] a set_us by auto
        let ?y = "x\<lparr>act_kind := k, curr_action := None, child_finish_func := None\<rparr>"
        let ?s1 = "s1\<lparr>objs := (objs s1)(a \<mapsto> ?y)\<rparr>"
        have on1: "on_reset (act_reset m) a s = Some ?s1"
          using reset s1(1) a1 by (simp add: serial_onReset_def modify_def)
        have far: "objs ?s1 b = objs s1 b" if "u \<in> set ts" "b \<in> set (addrs u)" for u b
          using a [OF that(1)] that(2) by auto
        have same: "fresh_tree ?s1 u = fresh_tree s1 u" "in_store ?s1 h' u = in_store s1 h' u" if "u \<in> set ts" for u h'
          by (rule fresh_cong in_store_cong, rule far [OF that], assumption)+
        have sub2: "in_store ?s1 (handler sh a i) (ts ! i)" if "i < length ts" for i
          using same(2) [OF nth_mem [OF that]] s1(4) [of "ts ! i"] in0 that set_us by (simp add: t)
        show ?thesis
        proof (rule goal [OF on1, where y = ?y])
          show "outside (set (addrs t)) s ?s1"
            using s1(2) set_us by (auto simp: outside_def t)
        qed (use s1 us x same set_us sub2 in \<open>auto simp: who_of_def\<close>)
      qed
    qed
  qed
qed simp

end
