(* ===== verification/Flow_Meaning.thy ===== *)
theory Flow_Meaning
  imports Flow_Semantics
begin

text \<open>
  The proof that the actions compute the meaning of their tree: how a node starts, waits for a
  child and handles its end, and then one case for each rule of the big-step relation.
\<close>

section \<open>A node and its children\<close>

lemma distinct_kids: "distinct (concat (map addrs ts)) \<Longrightarrow> distinct ts"
proof (induction ts)
  case (Cons u ts)
  have "u \<notin> set ts"
  proof
    assume "u \<in> set ts"
    then have "root u \<in> set (concat (map addrs ts))"
      using root_in_addrs [of u] by (auto intro!: bexI [of _ u])
    then show False
      using Cons.prems root_in_addrs [of u] by (auto simp: disjoint_iff)
  qed
  then show ?case
    using Cons by simp
qed simp

definition ready :: "user_fn \<Rightarrow> nat \<Rightarrow> nat \<Rightarrow> bt \<Rightarrow> fin_cb \<Rightarrow> fl_event list \<Rightarrow> flow \<Rightarrow> bool" where
  "ready F m n u h l s \<longleftrightarrow> deep m u \<and> deep n u \<and> distinct (addrs u) \<and> in_store s h u \<and> fresh_tree s u \<and>
     runq s = [] \<and> fl_log s = l \<and> fn_call s = F"

definition computes :: "user_fn \<Rightarrow> bt \<Rightarrow> fl_event list \<Rightarrow> outcome \<Rightarrow> fl_event list \<Rightarrow> bool" where
  "computes F u l r l' \<longleftrightarrow> (\<forall>m n h s. ready F m n u h l s \<longrightarrow>
     (\<exists>s1. act_start m (root u) s = Some (True, s1) \<and> outside (set (addrs u)) s s1 \<and> reaches n u h r l' s1))"

text \<open>The node is in the store with its children at rest, those of \<open>V\<close> fresh, and nothing is queued.\<close>

definition at_node :: "user_fn \<Rightarrow> bt \<Rightarrow> fin_cb \<Rightarrow> bt set \<Rightarrow> (action \<Rightarrow> bool) \<Rightarrow> fl_event list \<Rightarrow> flow \<Rightarrow> bool" where
  "at_node F t h V P l s \<longleftrightarrow> in_store s h t \<and> distinct (addrs t) \<and> V \<subseteq> set (kids t) \<and> (\<forall>v \<in> set (kids t). rested s v) \<and>
     (\<forall>v \<in> V. fresh_tree s v) \<and> runq s = [] \<and> fl_log s = l \<and> fn_call s = F \<and> (\<exists>x. objs s (root t) = Some x \<and> P x)"

text \<open>The child \<open>u\<close> starts, and when the node then runs, with a kind as in \<open>K\<close>, it reaches its end.\<close>

fun root_in :: "flow \<Rightarrow> fin_cb \<Rightarrow> bt \<Rightarrow> bool" where
  "root_in s h (Node a w sh ts) \<longleftrightarrow>
     (\<exists>x. objs s a = Some x \<and> fits sh (map root ts) (act_kind x) \<and> who_of x = w \<and> finish_cb x = h \<and>
        h \<noteq> NoFin \<and> \<not> final_cb x)"

fun kids_in :: "flow \<Rightarrow> bt \<Rightarrow> bt \<Rightarrow> bool" where
  "kids_in s (Node a w sh ts) u \<longleftrightarrow> (\<forall>i < length ts. ts ! i \<noteq> u \<longrightarrow> in_store s (handler sh a i) (ts ! i))"

definition waits :: "user_fn \<Rightarrow> bt \<Rightarrow> fin_cb \<Rightarrow> bt set \<Rightarrow> bt \<Rightarrow> (kind \<Rightarrow> bool) \<Rightarrow> flow \<Rightarrow> bool" where
  "waits F t h V u K s1 \<longleftrightarrow> root_in s1 h t \<and> kids_in s1 t u \<and> (\<forall>v \<in> set (kids t) - {u}. rested s1 v) \<and>
     (\<forall>v \<in> V. fresh_tree s1 v) \<and> fn_call s1 = F \<and>
     (\<exists>x. objs s1 (root t) = Some x \<and> act_state x = kRunning \<and> K (act_kind x))"

definition begins :: "user_fn \<Rightarrow> nat \<Rightarrow> nat \<Rightarrow> bt \<Rightarrow> fin_cb \<Rightarrow> bt set \<Rightarrow> bt \<Rightarrow> (kind \<Rightarrow> bool) \<Rightarrow> outcome \<Rightarrow> fl_event list \<Rightarrow> flow \<Rightarrow> bool" where
  "begins F m n t h V u K r l' s \<longleftrightarrow> (\<exists>s0. act_start m (root u) s = Some (True, s0) \<and> outside (set (addrs u)) s s0 \<and>
     (\<forall>s1. agree (set (addrs u)) s0 s1 \<and> waits F t h V u K s1 \<longrightarrow> reaches n t h r l' s1))"

text \<open>The end of \<open>start\<close> where the state is still idle.\<close>

definition run_state :: "addr \<Rightarrow> flow \<Rightarrow> flow" where
  "run_state a s = (case objs s a of None \<Rightarrow> s | Some x \<Rightarrow>
     if act_state x = kIdle
     then s\<lparr>objs := (objs s)(a \<mapsto> x\<lparr>timer_ev := timer_set True (timer_ev x), act_state := kRunning\<rparr>)\<rparr> else s)"

definition goes :: "nat \<Rightarrow> bt \<Rightarrow> fin_cb \<Rightarrow> outcome \<Rightarrow> fl_event list \<Rightarrow> act_state \<Rightarrow> flow \<Rightarrow> flow option \<Rightarrow> bool" where
  "goes n t h r l' st s res \<longleftrightarrow> (\<exists>s1. res = Some s1 \<and> outside (set (addrs t)) s s1 \<and> objs s1 (root t) \<noteq> None \<and>
     (st = kRunning \<longrightarrow> run_state (root t) s1 = s1) \<and> reaches n t h r l' (run_state (root t) s1))"

lemma settle_run_state: "objs s a \<noteq> None \<Longrightarrow> settle a kIdle True kRunning s = Some (run_state a s)"
  by (auto simp: settle_def run_state_def modify_def)

lemma outside_run_state: "a \<in> A \<Longrightarrow> outside A s (run_state a s)"
  by (auto simp: outside_def run_state_def split: option.split)

text \<open>A handler that goes on in the running state reaches the end.\<close>

lemma goes_running:
  assumes "goes n t h r l' kRunning s res"
  shows "\<exists>s1. res = Some s1 \<and> outside (set (addrs t)) s s1 \<and> reaches n t h r l' s1"
  using assms unfolding goes_def by metis

lemma goes_outside: "\<lbrakk>goes n t h r l' st s res; outside (set (addrs t)) s0 s\<rbrakk> \<Longrightarrow> goes n t h r l' st s0 res"
  unfolding goes_def by (blast intro: outside_trans)

text \<open>Starting a node.\<close>

lemma computes_node:
  assumes go: "\<And>m n h s. \<lbrakk>at_node F (Node a w sh ts) h (set ts) is_fresh l s; \<forall>u \<in> set ts. deep m u; \<forall>u \<in> set ts. deep n u\<rbrakk>
      \<Longrightarrow> goes n (Node a w sh ts) h r l' kIdle s (on_start m (act_start m) a s)"
  shows "computes F (Node a w sh ts) l r l'"
  unfolding computes_def
proof (intro allI impI)
  let ?t = "Node a w sh ts"
  fix m n h s
  assume r: "ready F m n ?t h l s"
  then obtain m' where m: "m = Suc m'" "\<forall>u \<in> set ts. deep m' u"
    by (cases m) (auto simp: ready_def)
  have n: "\<forall>u \<in> set ts. deep n u"
    using r deep_mono [where n = n] by (cases n) (auto simp: ready_def)
  obtain x where x: "objs s a = Some x" "is_fresh x"
    using r by (auto simp: ready_def fresh_Node)
  have "at_node F ?t h (set ts) is_fresh l s"
    using r x by (auto simp: ready_def at_node_def fresh_Node fresh_rested simp del: in_store.simps)
  then have "goes n ?t h r l' kIdle s (on_start m' (act_start m') a s)"
    by (rule go [OF _ m(2) n])
  then obtain s1 where s1: "on_start m' (act_start m') a s = Some s1" "outside (set (addrs ?t)) s s1" "objs s1 a \<noteq> None"
    "reaches n ?t h r l' (run_state a s1)"
    unfolding goes_def root.simps by blast
  have "act_start m a s = Some (True, run_state a s1)"
    using m(1) x s1(1) settle_run_state [OF s1(3)] by (simp add: is_fresh_def)
  moreover have "outside (set (addrs ?t)) s (run_state a s1)"
    by (rule outside_trans [OF s1(2) outside_run_state [where A = "{a}"]]) auto
  ultimately show "\<exists>s1. act_start m (root ?t) s = Some (True, s1) \<and> outside (set (addrs ?t)) s s1 \<and> reaches n ?t h r l' s1"
    using s1(4) by auto
qed

text \<open>A node that finishes.\<close>

lemma goes_finish:
  assumes s: "at_node F (Node a w sh ts) h V P l s"
    and P: "\<And>x. P x \<Longrightarrow> act_state x = st \<and> (\<forall>c. act_kind x = Composite c \<longrightarrow> curr_action x = None)"
    and st: "st = kIdle \<or> st = kRunning"
  shows "goes n (Node a w sh ts) h (ok, why, tr @ [w]) l st s (do_finish n' a ok why tr s)"
proof -
  let ?t = "Node a w sh ts"
  obtain x where x: "objs s a = Some x" "P x"
    using s by (auto simp: at_node_def)
  obtain s' where s': "do_finish n' a ok why tr s = Some s'" "outside {a} s s'" "finished_with ?t h (ok, why, tr @ [w]) (fl_log s) s'"
    using finish_node [of s h a w sh ts x n' ok why tr] s x P [OF x(2)] st
    by (auto simp: at_node_def simp del: in_store.simps)
  obtain y where y: "objs s' a = Some y" "act_state y = kFinished"
    using s'(3) by auto
  have "run_state a s' = s'"
    using y by (simp add: run_state_def)
  moreover have "outside (set (addrs ?t)) s s'"
    by (rule outside_mono [OF s'(2)]) simp
  ultimately show ?thesis
    using s' y s by (auto simp: goes_def at_node_def intro: reaches_end simp del: finished_with.simps)
qed

text \<open>Waiting for a child whose handler is known.\<close>

lemma begins_child:
  assumes u: "computes F u l (ok, why, tr) l1" "ready F m n u (handler sh a i) l s"
    and t: "t = Node a w sh ts" "distinct (addrs t)" "i < length ts" "u = ts ! i" "V \<subseteq> set ts - {u}"
    and handle: "\<And>s2. at_node F t h V (\<lambda>x. act_state x = kRunning \<and> K (act_kind x)) l1 s2
      \<Longrightarrow> goes n t h r l' kRunning s2 (run_fin n (handler sh a i) ok why tr s2)"
  shows "begins F m n t h V u K r l' s"
proof -
  obtain s0 where s0: "act_start m (root u) s = Some (True, s0)" "outside (set (addrs u)) s s0" "reaches n u (handler sh a i) (ok, why, tr) l1 s0"
    using u unfolding computes_def by blast
  have ut: "u \<in> set ts" using t(3,4) by simp
  have "reaches n t h r l' s1" if ag: "agree (set (addrs u)) s0 s1" and w: "waits F t h V u K s1" for s1
  proof (rule reaches_child)
    show "reaches n u (handler sh a i) (ok, why, tr) l1 s1"
      by (rule reaches_agree [OF s0(3) ag])
    show "set (addrs u) \<subseteq> set (addrs t)"
      unfolding t(1) by (rule kid_addrs [OF ut])
    fix s2
    assume s2: "\<And>b. b \<in> set (addrs t) \<Longrightarrow> b \<notin> set (addrs u) \<Longrightarrow> objs s2 b = objs s1 b" "fn_call s2 = fn_call s1" "runq s2 = []"
      "fl_log s2 = l1" "rested s2 u" "in_store s2 (handler sh a i) u"
    have a: "objs s2 a = objs s1 a"
      by (rule s2(1)) (use t ut in auto)
    have far: "objs s2 b = objs s1 b" if "v \<in> set ts" "v \<noteq> u" "b \<in> set (addrs v)" for v b
    proof (rule s2(1))
      show "b \<in> set (addrs t)" using that t(1) by auto
      show "b \<notin> set (addrs u)" using kids_disjoint [of ts u v] t(1,2) ut that by auto
    qed
    have same: "rested s2 v = rested s1 v" "fresh_tree s2 v = fresh_tree s1 v" "in_store s2 h' v = in_store s1 h' v"
      if "v \<in> set ts" "v \<noteq> u" for v h'
      by (rule rested_cong fresh_cong in_store_cong, rule far [OF that], assumption)+
    have kids: "in_store s2 (handler sh a j) (ts ! j)" if "j < length ts" for j
    proof (cases "j = i")
      case False
      have "ts ! j \<noteq> u"
        using distinct_kids [of ts] t that False by (simp add: nth_eq_iff_index_eq)
      then show ?thesis
        using same(3) [OF nth_mem [OF that]] w that by (simp add: waits_def t(1))
    qed (use s2(6) t(4) in simp)
    have "at_node F t h V (\<lambda>x. act_state x = kRunning \<and> K (act_kind x)) l1 s2"
      unfolding at_node_def
    proof (intro conjI ballI)
      show "in_store s2 h t"
        using w a kids by (simp add: waits_def t(1))
      show "distinct (addrs t)" by (rule t(2))
      show "V \<subseteq> set (kids t)" using t(1,5) by auto
      show "rested s2 v" if "v \<in> set (kids t)" for v
        using that w s2(5) same(1) [of v] by (cases "v = u") (auto simp: waits_def t(1))
      show "fresh_tree s2 v" if "v \<in> V" for v
        using that w same(2) [of v] t(5) by (auto simp: waits_def)
    qed (use w s2 a in \<open>auto simp: waits_def t(1)\<close>)
    then show "\<exists>s3. run_fin n (handler sh a i) ok why tr s2 = Some s3 \<and> outside (set (addrs t)) s2 s3 \<and> reaches n t h r l' s3"
      by (rule goes_running [OF handle])
  qed
  then show ?thesis
    using s0 unfolding begins_def by blast
qed

text \<open>The node starts a child.\<close>

lemma ready_kid:
  assumes "at_node F (Node a w sh ts) h V P l s" and "i < length ts" and "ts ! i \<in> V" and "deep m (ts ! i)" and "deep n (ts ! i)"
  shows "ready F m n (ts ! i) (handler sh a i) l s"
proof -
  have "distinct (concat (map addrs ts))"
    using assms(1) by (simp add: at_node_def)
  then have "distinct (addrs (ts ! i))"
    by (rule distinct_kid) (simp add: assms(2))
  then show ?thesis
    using assms by (simp add: at_node_def ready_def)
qed

lemma start_kid:
  assumes s: "at_node F t h V' P l s" and t: "t = Node a w sh ts" and u: "u \<in> set ts" "V \<subseteq> V' - {u}"
    and b: "begins F m n t h V u K r l' s"
  shows "\<exists>s1 x. startThisAction (act_start m) a (root u) s = Some (True, s1) \<and> outside (set (addrs t)) s s1 \<and>
     objs s a = Some x \<and> P x \<and> objs s1 a = Some (x\<lparr>curr_action := Some (root u)\<rparr>) \<and>
     (\<forall>s2 z. agree (set (addrs u)) s1 s2 \<longrightarrow> outside {a} s1 s2 \<longrightarrow> objs s2 a = Some z \<longrightarrow> act_state z = kRunning \<longrightarrow> K (act_kind z) \<longrightarrow>
        root_in s2 h t \<longrightarrow> reaches n t h r l' s2)"
proof -
  obtain s0 where s0: "act_start m (root u) s = Some (True, s0)" "outside (set (addrs u)) s s0"
    "\<And>s1. \<lbrakk>agree (set (addrs u)) s0 s1; waits F t h V u K s1\<rbrakk> \<Longrightarrow> reaches n t h r l' s1"
    using b unfolding begins_def by blast
  have dist: "distinct (addrs t)" and au: "a \<notin> set (addrs u)"
    using s u(1) by (auto simp: at_node_def t)
  obtain x where x: "objs s a = Some x" "P x"
    using s by (auto simp: at_node_def t)
  have x0: "objs s0 a = Some x"
    using outside_objs [OF s0(2) au] x(1) by simp
  let ?s1 = "s0\<lparr>objs := (objs s0)(a \<mapsto> x\<lparr>curr_action := Some (root u)\<rparr>)\<rparr>"
  have start: "startThisAction (act_start m) a (root u) s = Some (True, ?s1)"
    using s0(1) x0 by (simp add: startThisAction_def modify_def)
  have out: "outside (set (addrs t)) s ?s1"
    using s0(2) u(1) by (auto simp: outside_def t)
  have "reaches n t h r l' s2"
    if ag: "agree (set (addrs u)) ?s1 s2" and o: "outside {a} ?s1 s2" and z: "objs s2 a = Some z" "act_state z = kRunning" "K (act_kind z)"
      and r: "root_in s2 h t" for s2 z
  proof (rule s0(3))
    show "agree (set (addrs u)) s0 s2"
      using ag au by (auto simp: agree_def)
    have far: "objs s2 b = objs s b" if "v \<in> set ts" "v \<noteq> u" "b \<in> set (addrs v)" for v b
    proof -
      have "b \<notin> set (addrs u)" "b \<noteq> a"
        using kids_disjoint [of ts u v] dist u(1) that by (auto simp: t)
      then show ?thesis
        using o s0(2) by (simp add: outside_def)
    qed
    have same: "rested s2 v = rested s v" "fresh_tree s2 v = fresh_tree s v" "in_store s2 h' v = in_store s h' v"
      if "v \<in> set ts" "v \<noteq> u" for v h'
      by (rule rested_cong fresh_cong in_store_cong, rule far [OF that], assumption)+
    show "waits F t h V u K s2"
      unfolding waits_def
    proof (intro conjI ballI)
      show "kids_in s2 t u"
        using s same(3) by (auto simp: at_node_def t)
      show "rested s2 v" if "v \<in> set (kids t) - {u}" for v
        using that s same(1) [of v] by (auto simp: at_node_def t)
      show "fresh_tree s2 v" if "v \<in> V" for v
      proof -
        have "v \<in> set ts" "v \<noteq> u" "fresh_tree s v"
          using that u(2) s by (auto simp: at_node_def t)
        then show ?thesis using same(2) by simp
      qed
      show "fn_call s2 = F"
        using o s0(2) s by (simp add: outside_def at_node_def)
    qed (use r z in \<open>auto simp: t\<close>)
  qed
  then show ?thesis
    using start out x by auto
qed

text \<open>From \<open>onStart\<close> and from a handler.\<close>

lemma goes_start_kid:
  assumes s: "at_node F t h V' P l s" and t: "t = Node a w sh ts" and u: "u \<in> set ts" "V \<subseteq> V' - {u}"
    and b: "begins F m n t h V u K r l' s"
    and P: "\<And>x. P x \<Longrightarrow> act_state x = st \<and> K (act_kind x)" and st: "st = kIdle \<or> st = kRunning"
  shows "\<exists>s1. startThisAction (act_start m) a (root u) s = Some (True, s1) \<and> goes n t h r l' st s (Some s1)"
proof -
  obtain s1 x where s1: "startThisAction (act_start m) a (root u) s = Some (True, s1)" "outside (set (addrs t)) s s1"
    "objs s a = Some x" "P x" "objs s1 a = Some (x\<lparr>curr_action := Some (root u)\<rparr>)"
    and go: "\<And>s2 z. \<lbrakk>agree (set (addrs u)) s1 s2; outside {a} s1 s2; objs s2 a = Some z; act_state z = kRunning; K (act_kind z);
        root_in s2 h t\<rbrakk> \<Longrightarrow> reaches n t h r l' s2"
    using start_kid [OF s t u b] by blast
  have au: "a \<notin> set (addrs u)"
    using s u(1) by (auto simp: at_node_def t)
  have rx: "fits sh (map root ts) (act_kind x)" "who_of x = w" "finish_cb x = h" "h \<noteq> NoFin" "\<not> final_cb x"
    using s s1(3) by (auto simp: at_node_def t)
  have "reaches n t h r l' (run_state a s1)"
  proof (rule go)
    show "agree (set (addrs u)) s1 (run_state a s1)"
      using au by (auto simp: agree_def run_state_def split: option.split)
    show "outside {a} s1 (run_state a s1)"
      by (rule outside_run_state) simp
    show "objs (run_state a s1) a = Some (if st = kIdle
        then x\<lparr>curr_action := Some (root u), timer_ev := timer_set True (timer_ev x), act_state := kRunning\<rparr>
        else x\<lparr>curr_action := Some (root u)\<rparr>)"
      using s1(5) P [OF s1(4)] st by (auto simp: run_state_def)
  qed (use s1(5) P [OF s1(4)] st rx in \<open>auto simp: run_state_def t who_of_def\<close>)
  moreover have "run_state a s1 = s1" if "st = kRunning"
    using s1(5) P [OF s1(4)] that by (simp add: run_state_def)
  ultimately show ?thesis
    using s1 by (auto simp: goes_def t)
qed

section \<open>The steps of a handler\<close>

lemma at_node_weaken: "\<lbrakk>at_node F t h V P l s; \<And>x. P x \<Longrightarrow> Q x\<rbrakk> \<Longrightarrow> at_node F t h V Q l s"
  unfolding at_node_def by blast

lemma at_node_root:
  assumes s: "at_node F (Node a w sh ts) h V P l s" and x: "objs s a = Some x"
    and y: "fits sh (map root ts) (act_kind y)" "who_of y = who_of x" "finish_cb y = finish_cb x" "final_cb y = final_cb x"
  shows "at_node F (Node a w sh ts) h V (\<lambda>z. z = y) l (s\<lparr>objs := (objs s)(a \<mapsto> y)\<rparr>)"
proof -
  let ?s = "s\<lparr>objs := (objs s)(a \<mapsto> y)\<rparr>"
  have st: "in_store s h (Node a w sh ts)" "distinct (addrs (Node a w sh ts))"
    using s by (auto simp: at_node_def simp del: in_store.simps)
  have "in_store ?s h (Node a w sh ts)"
    by (rule in_store_root [OF st x, where y = y]) (use y in simp_all)
  moreover have "rested ?s v = rested s v" "fresh_tree ?s v = fresh_tree s v" if "v \<in> set ts" for v
    by (rule rested_kid_root [OF st(2)], simp, rule that)+
  ultimately show ?thesis
    using s by (auto simp: at_node_def simp del: in_store.simps)
qed

lemma read_body:
  assumes "at_node F (Node a w sh ts) h V P l s"
    and "\<And>x. \<lbrakk>objs s a = Some x; P x; fits sh (map root ts) (act_kind x)\<rbrakk> \<Longrightarrow> goes n t h r l' st s (f x)"
  shows "goes n t h r l' st s (objs s a \<bind> f)"
  using assms by (auto simp: at_node_def)

lemma kind_body:
  assumes s: "at_node F (Node a w sh ts) h V P l s" and k: "fits sh (map root ts) k"
    and body: "\<And>s'. at_node F (Node a w sh ts) h V (\<lambda>z. \<exists>x. P x \<and> z = x\<lparr>act_kind := k\<rparr>) l s'
      \<Longrightarrow> goes n (Node a w sh ts) h r l' st s' (body s')"
  shows "goes n (Node a w sh ts) h r l' st s (set_kind a k s \<bind> body)"
proof -
  obtain x where x: "objs s a = Some x" "P x"
    using s by (auto simp: at_node_def)
  let ?s = "s\<lparr>objs := (objs s)(a \<mapsto> x\<lparr>act_kind := k\<rparr>)\<rparr>"
  have "at_node F (Node a w sh ts) h V (\<lambda>z. \<exists>x. P x \<and> z = x\<lparr>act_kind := k\<rparr>) l ?s"
    by (rule at_node_weaken [OF at_node_root [OF s x(1)]]) (use k x in \<open>auto simp: who_of_def\<close>)
  moreover have "outside (set (addrs (Node a w sh ts))) s ?s"
    by (auto simp: outside_def)
  ultimately show ?thesis
    using body [of ?s] x by (auto simp: set_kind_def modify_def intro: goes_outside)
qed

lemma handled_body:
  assumes s: "at_node F (Node a w sh ts) h V P l s" and P: "\<And>x. P x \<Longrightarrow> act_state x = kRunning"
    and body: "\<And>s'. at_node F (Node a w sh ts) h V (\<lambda>z. \<exists>x. P x \<and> z = x\<lparr>curr_action := None\<rparr>) l s'
      \<Longrightarrow> goes n (Node a w sh ts) h r l' kRunning s' (body s')"
  shows "goes n (Node a w sh ts) h r l' kRunning s (unless_handled a func body s)"
proof -
  obtain x where x: "objs s a = Some x" "P x" "fits sh (map root ts) (act_kind x)"
    using s by (auto simp: at_node_def)
  let ?s = "s\<lparr>objs := (objs s)(a \<mapsto> x\<lparr>curr_action := None\<rparr>)\<rparr>"
  have "at_node F (Node a w sh ts) h V (\<lambda>z. \<exists>x. P x \<and> z = x\<lparr>curr_action := None\<rparr>) l ?s"
    by (rule at_node_weaken [OF at_node_root [OF s x(1)]]) (use x in \<open>auto simp: who_of_def\<close>)
  moreover have "outside (set (addrs (Node a w sh ts))) s ?s"
    by (auto simp: outside_def)
  ultimately show ?thesis
    using body [of ?s] x P [OF x(2)]
    by (auto simp: unless_handled_def handleChildFinishEvent_def modify_def intro: goes_outside)
qed

lemma last_body:
  assumes s: "at_node F (Node a w sh ts) h V P l s" and P: "\<And>x. P x \<Longrightarrow> act_state x = kRunning"
  shows "goes n (Node a w sh ts) h (ok, why, tr @ [w]) l kRunning s (onLastChildFinished n' a ok why tr s)"
proof -
  obtain x where x: "objs s a = Some x" "P x" "fits sh (map root ts) (act_kind x)"
    using s by (auto simp: at_node_def)
  let ?s = "s\<lparr>objs := (objs s)(a \<mapsto> x\<lparr>curr_action := None\<rparr>)\<rparr>"
  have "at_node F (Node a w sh ts) h V (\<lambda>z. act_state z = kRunning \<and> curr_action z = None) l ?s"
    by (rule at_node_weaken [OF at_node_root [OF s x(1)]]) (use x P in \<open>auto simp: who_of_def\<close>)
  then have "goes n (Node a w sh ts) h (ok, why, tr @ [w]) l kRunning ?s (do_finish n' a ok why tr ?s)"
    by (rule goes_finish) auto
  moreover have "outside (set (addrs (Node a w sh ts))) s ?s"
    by (auto simp: outside_def)
  ultimately show ?thesis
    using x P [OF x(2)] by (auto simp: onLastChildFinished_def modify_def intro: goes_outside)
qed

lemma reset_body:
  assumes s: "at_node F (Node a w sh ts) h V P l s" and u: "u \<in> set ts" "deep m u"
    and body: "\<And>s'. at_node F (Node a w sh ts) h (insert u V) P l s' \<Longrightarrow> goes n (Node a w sh ts) h r l' st s' (body s')"
  shows "goes n (Node a w sh ts) h r l' st s (act_reset m (root u) s \<bind> body)"
proof -
  let ?t = "Node a w sh ts"
  have dist: "distinct (concat (map addrs ts))" and au: "a \<notin> set (addrs u)"
    using s u(1) by (auto simp: at_node_def)
  obtain i where i: "i < length ts" "u = ts ! i"
    using u(1) by (metis in_set_conv_nth)
  have "in_store s (handler sh a i) u" "rested s u" "runq s = []"
    using s u(1) i by (auto simp: at_node_def)
  then obtain s' where s': "act_reset m (root u) s = Some s'" "outside (set (addrs u)) s s'" "in_store s' (handler sh a i) u"
    "fresh_tree s' u" "runq s' = []" "fl_log s' = fl_log s"
    using reset_tree [OF u(2)] distinct_kid [OF dist u(1)] unfolding resets_def by blast
  have far: "objs s' b = objs s b" if "v \<in> set ts" "v \<noteq> u" "b \<in> set (addrs v)" for v b
    by (rule outside_objs [OF s'(2)]) (use kids_disjoint [OF dist u(1), of v] that in auto)
  have same: "rested s' v = rested s v" "fresh_tree s' v = fresh_tree s v" "in_store s' h' v = in_store s h' v"
    if "v \<in> set ts" "v \<noteq> u" for v h'
    by (rule rested_cong fresh_cong in_store_cong, rule far [OF that], assumption)+
  have root: "objs s' a = objs s a"
    by (rule outside_objs [OF s'(2) au])
  have kid_in: "in_store s' (handler sh a j) (ts ! j)" if j: "j < length ts" for j
  proof (cases "j = i")
    case False
    then have "ts ! j \<noteq> u"
      using distinct_kids [OF dist] i j by (simp add: nth_eq_iff_index_eq)
    then show ?thesis
      using same(3) [of "ts ! j"] s j by (simp add: at_node_def)
  qed (use s'(3) i in simp)
  have "at_node F ?t h (insert u V) P l s'"
    unfolding at_node_def
  proof (intro conjI ballI)
    show "in_store s' h ?t"
      using s root kid_in by (simp add: at_node_def)
    show "rested s' v" if "v \<in> set (kids ?t)" for v
      using that s same(1) [of v] s'(4) by (cases "v = u") (auto simp: at_node_def fresh_rested)
    show "fresh_tree s' v" if "v \<in> insert u V" for v
    proof (cases "v = u")
      case False
      then have "v \<in> set ts" "fresh_tree s v"
        using that s by (auto simp: at_node_def)
      then show ?thesis using same(2) False by simp
    qed (use s'(4) in simp)
    show "\<exists>x. objs s' (root ?t) = Some x \<and> P x" "fn_call s' = F" "fl_log s' = l" "runq s' = []" "distinct (addrs ?t)"
      "insert u V \<subseteq> set (kids ?t)"
      using s root s' u(1) by (auto simp: at_node_def outside_def)
  qed
  moreover have "outside (set (addrs ?t)) s s'"
    by (rule outside_mono [OF s'(2)]) (use u(1) in auto)
  ultimately have "goes n ?t h r l' st s (body s')"
    by (intro goes_outside [OF body])
  then show ?thesis
    using s'(1) by simp
qed

text \<open>The calls that start a child.\<close>

lemma goes_start_child:
  assumes "at_node F t h V' P l s" and "t = Node a w sh ts" and "u \<in> set ts" "V \<subseteq> V' - {u}"
    and "begins F m n t h V u K r l' s"
    and "\<And>x. P x \<Longrightarrow> act_state x = st \<and> K (act_kind x)" and "st = kIdle \<or> st = kRunning"
  shows "goes n t h r l' st s (start_child (act_start m) a (Some (root u)) s)"
  using goes_start_kid [OF assms] by (auto simp: start_child_def)

lemma goes_start_kind:
  assumes s: "at_node F t h V' P l s" and t: "t = Node a w sh ts" and u: "u \<in> set ts" "V \<subseteq> V' - {u}"
    and b: "begins F m n t h V u K r l' s"
    and P: "\<And>x. P x \<Longrightarrow> act_state x = kRunning" and k: "K k" "fits sh (map root ts) k"
  shows "goes n t h r l' kRunning s (start_child (act_start m) a (Some (root u)) s \<bind> set_kind a k)"
proof -
  obtain s1 x where s1: "startThisAction (act_start m) a (root u) s = Some (True, s1)" "outside (set (addrs t)) s s1"
    "objs s a = Some x" "P x" "objs s1 a = Some (x\<lparr>curr_action := Some (root u)\<rparr>)"
    and go: "\<And>s2 z. \<lbrakk>agree (set (addrs u)) s1 s2; outside {a} s1 s2; objs s2 a = Some z; act_state z = kRunning; K (act_kind z);
        root_in s2 h t\<rbrakk> \<Longrightarrow> reaches n t h r l' s2"
    using start_kid [OF s t u b] by blast
  have au: "a \<notin> set (addrs u)"
    using s u(1) by (auto simp: at_node_def t)
  have rx: "who_of x = w" "finish_cb x = h" "h \<noteq> NoFin" "\<not> final_cb x"
    using s s1(3) by (auto simp: at_node_def t)
  let ?z = "x\<lparr>curr_action := Some (root u), act_kind := k\<rparr>"
  let ?s = "s1\<lparr>objs := (objs s1)(a \<mapsto> ?z)\<rparr>"
  have "reaches n t h r l' ?s"
    by (rule go [where z = ?z]) (use au s1(5) P [OF s1(4)] k rx in \<open>auto simp: agree_def outside_def t who_of_def\<close>)
  moreover have "run_state a ?s = ?s"
    using P [OF s1(4)] by (simp add: run_state_def)
  moreover have "outside (set (addrs t)) s ?s"
    using s1(2) by (auto simp: outside_def t)
  ultimately show ?thesis
    using s1 by (auto simp: goes_def t start_child_def set_kind_def modify_def)
qed

text \<open>A child whose end is the node's.\<close>

lemma begins_last:
  assumes "computes F v l r l2" and "at_node F (Node a w sh ts) h V P l s" and "i < length ts" "v = ts ! i" "v \<in> V" "V' \<subseteq> V - {v}"
    and "handler sh a i = LastFin a" and "deep m v" "deep n v"
  shows "begins F m n (Node a w sh ts) h V' v (\<lambda>k. True) (signed_by r w) l2 s"
proof -
  obtain ok why tr where r: "r = (ok, why, tr)"
    by (cases r)
  show ?thesis
  proof (rule begins_child [where i = i, OF _ _ refl])
    show "computes F v l (ok, why, tr) l2" using assms(1) r by simp
    show "ready F m n v (handler sh a i) l s"
      using ready_kid [OF assms(2,3)] assms(4,5,8,9) by simp
    show "distinct (addrs (Node a w sh ts))" "V' \<subseteq> set ts - {v}"
      using assms(2,6) by (auto simp: at_node_def simp del: addrs.simps)
    fix s2
    assume s2: "at_node F (Node a w sh ts) h V' (\<lambda>x. act_state x = kRunning \<and> True) l2 s2"
    have "goes n (Node a w sh ts) h (ok, why, tr @ [w]) l2 kRunning s2 (onLastChildFinished n a ok why tr s2)"
      by (rule last_body [OF s2]) simp
    then show "goes n (Node a w sh ts) h (signed_by r w) l2 kRunning s2 (run_fin n (handler sh a i) ok why tr s2)"
      using assms(7) by (simp add: run_fin_def r)
  qed (use assms(3,4) in auto)
qed

lemma goes_last:
  assumes "computes F v l r l2" and s: "at_node F (Node a w sh ts) h V P l s" and v: "i < length ts" "v = ts ! i" "v \<in> V"
    and "handler sh a i = LastFin a" and "deep m v" "deep n v"
    and P: "\<And>x. P x \<Longrightarrow> act_state x = st" and st: "st = kIdle \<or> st = kRunning"
  shows "goes n (Node a w sh ts) h (signed_by r w) l2 st s (start_child (act_start m) a (Some (root v)) s)"
  by (rule goes_start_child [OF s refl _ _ begins_last [OF assms(1-2) v subset_refl assms(6-8)]])
     (use v P st in auto)

section \<open>The rules\<close>

lemma leaf_computes:
  assumes "F f l (reason_of 2 ''FunctionAction'') = (ok, why)"
  shows "computes F (Node a w (SFn f) []) l (ok, why, [w]) (l @ [EvFunc f])"
proof (rule computes_node)
  fix m n h s
  let ?t = "Node a w (SFn f) []"
  assume s: "at_node F ?t h (set []) is_fresh l s"
  obtain x where x: "objs s a = Some x" "act_kind x = Function (Some f)"
    using s by (auto simp: at_node_def fits_def)
  have "at_node F ?t h {} (\<lambda>x. act_state x = kIdle \<and> act_kind x = Function (Some f)) (l @ [EvFunc f]) (say (EvFunc f) s)"
    using s x by (auto simp: at_node_def say_def fresh_Node is_fresh_def)
  then have "goes n ?t h (ok, why, [] @ [w]) (l @ [EvFunc f]) kIdle (say (EvFunc f) s) (do_finish m a ok why [] (say (EvFunc f) s))"
    by (rule goes_finish) auto
  moreover have "outside (set (addrs ?t)) s (say (EvFunc f) s)"
    by (simp add: outside_def say_def)
  moreover have "on_start m (act_start m) a s = do_finish m a ok why [] (say (EvFunc f) s)"
    using x s assms by (simp add: on_start_def function_onStart_def at_node_def)
  ultimately show "goes n ?t h (ok, why, [w]) (l @ [EvFunc f]) kIdle s (on_start m (act_start m) a s)"
    by (auto intro: goes_outside)
qed

text \<open>The contracts of the iterating rules: from a node that is about to start the next child.\<close>

definition seq_contract :: "user_fn \<Rightarrow> seq_mode \<Rightarrow> bt list \<Rightarrow> fl_event list \<Rightarrow> outcome \<Rightarrow> outcome \<Rightarrow> fl_event list \<Rightarrow> bool" where
  "seq_contract F mo ts l r0 r l' \<longleftrightarrow> (\<forall>a w pre h st s m n k ok why tr. r0 = (ok, why, tr) \<longrightarrow>
     at_node F (Node a w (SSeq mo) (pre @ ts)) h (set ts)
       (\<lambda>x. act_state x = st \<and> act_kind x = Sequence mo (map root (pre @ ts)) (length pre)) l s \<longrightarrow>
     st = kIdle \<or> st = kRunning \<longrightarrow> (\<forall>u \<in> set ts. deep m u \<and> deep n u) \<longrightarrow>
     goes n (Node a w (SSeq mo) (pre @ ts)) h (signed_by r w) l' st s (startOtheriseFinish k (act_start m) a ok why tr s))"

lemma seq_end: "seq_contract F mo [] l r r l"
  unfolding seq_contract_def
proof (intro allI impI)
  fix a w pre h st s m n k ok why tr
  assume r: "r = (ok, why, tr)"
    and s: "at_node F (Node a w (SSeq mo) (pre @ [])) h (set []) (\<lambda>x. act_state x = st \<and>
        act_kind x = Sequence mo (map root (pre @ [])) (length pre)) l s"
    and st: "st = kIdle \<or> st = kRunning"
  show "goes n (Node a w (SSeq mo) (pre @ [])) h (signed_by r w) l st s (startOtheriseFinish k (act_start m) a ok why tr s)"
    unfolding startOtheriseFinish_def
  proof (rule read_body [OF s])
    fix x
    assume x: "act_state x = st \<and> act_kind x = Sequence mo (map root (pre @ [])) (length pre)"
    have "goes n (Node a w (SSeq mo) (pre @ [])) h (ok, why, tr @ [w]) l st s (do_finish k a ok why tr s)"
      by (rule goes_finish [OF s _ st]) auto
    then show "goes n (Node a w (SSeq mo) (pre @ [])) h (signed_by r w) l st s (case act_kind x of
       Sequence mm cs i \<Rightarrow>
         if i < length cs then do {
           (b, s1) \<leftarrow> startThisAction (act_start m) a (cs ! i) s;
           if b then Some s1 else do_finish k a False (reason_of 6 ''StartChildFail'') [] s1 }
         else do_finish k a ok why tr s
     | _ \<Rightarrow> None)"
      using x r by simp
  qed
qed

lemma seq_step:
  assumes u: "computes F u l (ok, q) l1"
    and rest: "\<not> ((mo = AnySucc \<and> ok) \<or> (mo = AnyFail \<and> \<not> ok)) \<Longrightarrow> seq_contract F mo ts l1 (ok, q) r l'"
    and stop: "(mo = AnySucc \<and> ok) \<or> (mo = AnyFail \<and> \<not> ok) \<Longrightarrow> r = (ok, q) \<and> l' = l1"
  shows "seq_contract F mo (u # ts) l r0 r l'"
  unfolding seq_contract_def
proof (intro allI impI)
  fix a w pre h st s m n k ok0 why0 tr0
  let ?t = "Node a w (SSeq mo) (pre @ u # ts)"
  let ?K = "\<lambda>k. k = Sequence mo (map root (pre @ u # ts)) (length pre)"
  assume s: "at_node F ?t h (set (u # ts)) (\<lambda>x. act_state x = st \<and> ?K (act_kind x)) l s"
    and st: "st = kIdle \<or> st = kRunning" and deep: "\<forall>v \<in> set (u # ts). deep m v \<and> deep n v"
  obtain why tr where q: "q = (why, tr)" by (cases q)
  have dist: "distinct (addrs ?t)" and kids: "distinct (pre @ u # ts)"
    using s distinct_kids [of "pre @ u # ts"] by (auto simp: at_node_def)
  have b: "begins F m n ?t h (set ts) u ?K (signed_by r w) l' s"
  proof (rule begins_child [where i = "length pre", OF _ _ refl dist])
    show "computes F u l (ok, why, tr) l1" using u q by simp
    show "ready F m n u (handler (SSeq mo) a (length pre)) l s"
      using ready_kid [OF s, of "length pre"] deep by simp
    show "set ts \<subseteq> set (pre @ u # ts) - {u}" using kids by auto
    fix s2
    assume s2: "at_node F ?t h (set ts) (\<lambda>x. act_state x = kRunning \<and> ?K (act_kind x)) l1 s2"
    have "goes n ?t h (signed_by r w) l' kRunning s2 (seq_onChildFinished n a ok why tr s2)"
      unfolding seq_onChildFinished_def
    proof (rule handled_body [OF s2])
      fix s3
      assume s3: "at_node F ?t h (set ts) (\<lambda>z. \<exists>x. (act_state x = kRunning \<and> ?K (act_kind x)) \<and> z = x\<lparr>curr_action := None\<rparr>) l1 s3"
      show "goes n ?t h (signed_by r w) l' kRunning s3 (objs s3 a \<bind> (\<lambda>x. case act_kind x of
         Sequence m cs i \<Rightarrow>
           if (m = AnySucc \<and> ok) \<or> (m = AnyFail \<and> \<not> ok) then do_finish n a ok why tr s3
           else do {
             s1 \<leftarrow> set_kind a (Sequence m cs (i + 1)) s3;
             startOtheriseFinish n (act_start n) a ok why tr s1 }
         | _ \<Rightarrow> None))"
      proof (rule read_body [OF s3])
        fix x
        assume x: "\<exists>y. (act_state y = kRunning \<and> ?K (act_kind y)) \<and> x = y\<lparr>curr_action := None\<rparr>"
        have fin: "goes n ?t h (ok, why, tr @ [w]) l1 kRunning s3 (do_finish n a ok why tr s3)"
          by (rule goes_finish [OF s3]) auto
        have more: "goes n ?t h (signed_by r w) l' kRunning s3 (do {
             s1 \<leftarrow> set_kind a (Sequence mo (map root (pre @ u # ts)) (length pre + 1)) s3;
             startOtheriseFinish n (act_start n) a ok why tr s1 })"
          if go: "\<not> ((mo = AnySucc \<and> ok) \<or> (mo = AnyFail \<and> \<not> ok))"
        proof (rule kind_body [OF s3])
          fix s4
          assume s4: "at_node F ?t h (set ts) (\<lambda>z. \<exists>x. (\<exists>y. (act_state y = kRunning \<and> ?K (act_kind y)) \<and> x = y\<lparr>curr_action := None\<rparr>) \<and>
              z = x\<lparr>act_kind := Sequence mo (map root (pre @ u # ts)) (length pre + 1)\<rparr>) l1 s4"
          have "at_node F ?t h (set ts) (\<lambda>x. act_state x = kRunning \<and>
              act_kind x = Sequence mo (map root (pre @ u # ts)) (length pre + 1)) l1 s4"
            by (rule at_node_weaken [OF s4]) auto
          then have "at_node F (Node a w (SSeq mo) ((pre @ [u]) @ ts)) h (set ts) (\<lambda>x. act_state x = kRunning \<and>
              act_kind x = Sequence mo (map root ((pre @ [u]) @ ts)) (length (pre @ [u]))) l1 s4"
            by simp
          then show "goes n ?t h (signed_by r w) l' kRunning s4 (startOtheriseFinish n (act_start n) a ok why tr s4)"
            using rest [OF go, unfolded seq_contract_def, rule_format, of ok why tr a w "pre @ [u]" h kRunning s4 n n n] deep q
            by auto
        qed (simp add: fits_def)
        show "goes n ?t h (signed_by r w) l' kRunning s3 (case act_kind x of
         Sequence m cs i \<Rightarrow>
           if (m = AnySucc \<and> ok) \<or> (m = AnyFail \<and> \<not> ok) then do_finish n a ok why tr s3
           else do {
             s1 \<leftarrow> set_kind a (Sequence m cs (i + 1)) s3;
             startOtheriseFinish n (act_start n) a ok why tr s1 }
         | _ \<Rightarrow> None)"
          using x fin more stop q by auto
      qed
    qed simp
    then show "goes n ?t h (signed_by r w) l' kRunning s2 (run_fin n (handler (SSeq mo) a (length pre)) ok why tr s2)"
      by (simp add: handler_def run_fin_def)
  qed auto
  show "goes n ?t h (signed_by r w) l' st s (startOtheriseFinish k (act_start m) a ok0 why0 tr0 s)"
    unfolding startOtheriseFinish_def
  proof (rule read_body [OF s])
    fix x
    assume x: "act_state x = st \<and> ?K (act_kind x)"
    have "\<exists>s1. startThisAction (act_start m) a (root u) s = Some (True, s1) \<and> goes n ?t h (signed_by r w) l' st s (Some s1)"
      by (rule goes_start_kid [OF s refl _ _ b]) (use st kids in auto)
    then show "goes n ?t h (signed_by r w) l' st s (case act_kind x of
       Sequence mm cs i \<Rightarrow>
         if i < length cs then do {
           (b, s1) \<leftarrow> startThisAction (act_start m) a (cs ! i) s;
           if b then Some s1 else do_finish k a False (reason_of 6 ''StartChildFail'') [] s1 }
         else do_finish k a ok0 why0 tr0 s
     | _ \<Rightarrow> None)"
      using x by (auto simp: nth_append)
  qed
qed

lemma seq_computes: "seq_contract F m ts l (True, no_reason, []) r l' \<Longrightarrow> computes F (Node a w (SSeq m) ts) l (signed_by r w) l'"
proof (rule computes_node)
  fix m' n h s
  assume c: "seq_contract F m ts l (True, no_reason, []) r l'"
    and s: "at_node F (Node a w (SSeq m) ts) h (set ts) is_fresh l s"
    and deep: "\<forall>u \<in> set ts. deep m' u" "\<forall>u \<in> set ts. deep n u"
  obtain x where x: "objs s a = Some x" "fits (SSeq m) (map root ts) (act_kind x)" "is_fresh x"
    using s by (auto simp: at_node_def)
  then have x: "objs s a = Some x" "act_kind x = Sequence m (map root ts) 0" "act_state x = kIdle"
    by (cases "act_kind x"; simp add: fits_def is_fresh_def)+
  have "at_node F (Node a w (SSeq m) ([] @ ts)) h (set ts) (\<lambda>x. act_state x = kIdle \<and>
      act_kind x = Sequence m (map root ([] @ ts)) (length [])) l s"
    using s x by (auto simp: at_node_def simp del: in_store.simps)
  then have "goes n (Node a w (SSeq m) ([] @ ts)) h (signed_by r w) l' kIdle s (startOtheriseFinish m' (act_start m') a True no_reason [] s)"
    using c deep unfolding seq_contract_def by blast
  then show "goes n (Node a w (SSeq m) ts) h (signed_by r w) l' kIdle s (on_start m' (act_start m') a s)"
    using x by (simp add: on_start_def seq_onStart_def)
qed

text \<open>A node that starts its first child in \<open>onStart\<close>.\<close>

lemma first_kid_computes:
  assumes b: "\<And>m n h s. \<lbrakk>at_node F (Node a w sh ts) h (set ts) (\<lambda>x. act_state x = kIdle \<and> K (act_kind x)) l s;
        \<forall>v \<in> set ts. deep m v \<and> deep n v\<rbrakk> \<Longrightarrow> begins F m n (Node a w sh ts) h (set ts - {u}) u K r l' s"
    and u: "u \<in> set ts" and K: "\<And>k. fits sh (map root ts) k \<Longrightarrow> K k"
    and start: "\<And>m n s x. \<lbrakk>objs s a = Some x; fits sh (map root ts) (act_kind x)\<rbrakk>
        \<Longrightarrow> on_start m (act_start m) a s = start_child (act_start m) a (Some (root u)) s"
  shows "computes F (Node a w sh ts) l r l'"
proof (rule computes_node)
  fix m n h s
  assume s: "at_node F (Node a w sh ts) h (set ts) is_fresh l s"
    and deep: "\<forall>u \<in> set ts. deep m u" "\<forall>u \<in> set ts. deep n u"
  obtain x where x: "objs s a = Some x" "fits sh (map root ts) (act_kind x)" "act_state x = kIdle"
    using s by (auto simp: at_node_def is_fresh_def)
  have s': "at_node F (Node a w sh ts) h (set ts) (\<lambda>x. act_state x = kIdle \<and> K (act_kind x)) l s"
    using s x K by (auto simp: at_node_def simp del: in_store.simps)
  have "goes n (Node a w sh ts) h r l' kIdle s (start_child (act_start m) a (Some (root u)) s)"
    by (rule goes_start_child [OF s' refl u _ b [OF s']]) (use deep in auto)
  then show "goes n (Node a w sh ts) h r l' kIdle s (on_start m (act_start m) a s)"
    using start [OF x(1,2)] by simp
qed

lemma wrap_computes:
  assumes u: "computes F u l (ok, why, tr) l'"
  shows "computes F (Node a w (SWrap mo) [u]) l (wrapped mo ok, why, tr @ [w]) l'"
proof (rule first_kid_computes [where K = "\<lambda>k. k = Wrapper mo (Some (root u))" and u = u])
  fix m n h s
  let ?t = "Node a w (SWrap mo) [u]" and ?K = "\<lambda>k. k = Wrapper mo (Some (root u))"
  assume s: "at_node F ?t h (set [u]) (\<lambda>x. act_state x = kIdle \<and> ?K (act_kind x)) l s"
    and deep: "\<forall>v \<in> set [u]. deep m v \<and> deep n v"
  show "begins F m n ?t h (set [u] - {u}) u ?K (wrapped mo ok, why, tr @ [w]) l' s"
  proof (rule begins_child [where i = 0, OF u _ refl])
    show "ready F m n u (handler (SWrap mo) a 0) l s"
      using ready_kid [OF s, of 0] deep by simp
    show "distinct (addrs ?t)" using s by (simp add: at_node_def)
    fix s2
    assume s2: "at_node F ?t h (set [u] - {u}) (\<lambda>x. act_state x = kRunning \<and> ?K (act_kind x)) l' s2"
    have "goes n ?t h (wrapped mo ok, why, tr @ [w]) l' kRunning s2 (wrap_onChildFinished n a ok why tr s2)"
      unfolding wrap_onChildFinished_def
    proof (rule handled_body [OF s2])
      fix s3
      assume s3: "at_node F ?t h (set [u] - {u}) (\<lambda>z. \<exists>x. (act_state x = kRunning \<and> ?K (act_kind x)) \<and> z = x\<lparr>curr_action := None\<rparr>) l' s3"
      have fin: "goes n ?t h (wrapped mo ok, why, tr @ [w]) l' kRunning s3 (do_finish n a (wrapped mo ok) why tr s3)"
        by (rule goes_finish [OF s3]) auto
      show "goes n ?t h (wrapped mo ok, why, tr @ [w]) l' kRunning s3 (objs s3 a \<bind> (\<lambda>x. case act_kind x of
         Wrapper m c \<Rightarrow> do_finish n a (wrapped m ok) why tr s3 | _ \<Rightarrow> None))"
        by (rule read_body [OF s3]) (use fin in auto)
    qed simp
    then show "goes n ?t h (wrapped mo ok, why, tr @ [w]) l' kRunning s2 (run_fin n (handler (SWrap mo) a 0) ok why tr s2)"
      by (simp add: handler_def run_fin_def)
  qed auto
qed (auto simp: fits_def on_start_def wrapper_onStart_def split: kind.splits)

lemma comp_computes:
  assumes u: "computes F u l r l'"
  shows "computes F (Node a w SComp [u]) l (signed_by r w) l'"
proof (rule first_kid_computes [where K = "\<lambda>k. True" and u = u])
  fix m n h s
  let ?t = "Node a w SComp [u]"
  assume s: "at_node F ?t h (set [u]) (\<lambda>x. act_state x = kIdle \<and> True) l s"
    and deep: "\<forall>v \<in> set [u]. deep m v \<and> deep n v"
  show "begins F m n ?t h (set [u] - {u}) u (\<lambda>k. True) (signed_by r w) l' s"
    by (rule begins_last [where i = 0, OF u s]) (use deep in \<open>auto simp: handler_def\<close>)
qed (auto simp: fits_def on_start_def composite_onStart_def split: kind.splits)

text \<open>A loop: with the child fresh, its next run begins.\<close>

definition loop_contract :: "user_fn \<Rightarrow> shape \<Rightarrow> kind \<Rightarrow> bt list \<Rightarrow> fl_event list \<Rightarrow> outcome \<Rightarrow> fl_event list \<Rightarrow> bool" where
  "loop_contract F sh k ts l r l' \<longleftrightarrow> (\<forall>a w h P s m n. at_node F (Node a w sh ts) h (set ts) P l s \<longrightarrow>
     (\<forall>v \<in> set ts. deep m v \<and> deep n v) \<longrightarrow>
     begins F m n (Node a w sh ts) h (set ts - {hd ts}) (hd ts) (\<lambda>k'. k' = k) (signed_by r w) l' s)"

lemma loop_step:
  assumes u: "computes F u l (ok, q) l1"
    and rest: "\<not> ((mo = UntilSucc \<and> ok) \<or> (mo = UntilFail \<and> \<not> ok)) \<Longrightarrow> loop_contract F (SLoop mo) (LoopK mo (Some (root u))) [u] l1 r l'"
    and stop: "(mo = UntilSucc \<and> ok) \<or> (mo = UntilFail \<and> \<not> ok) \<Longrightarrow> r = (ok, q) \<and> l' = l1"
  shows "loop_contract F (SLoop mo) (LoopK mo (Some (root u))) [u] l r l'"
  unfolding loop_contract_def list.sel
proof (intro allI impI)
  fix a w h P s m n
  let ?t = "Node a w (SLoop mo) [u]" and ?K = "\<lambda>k. k = LoopK mo (Some (root u))"
  assume s: "at_node F ?t h (set [u]) P l s" and deep: "\<forall>v \<in> set [u]. deep m v \<and> deep n v"
  obtain why tr where q: "q = (why, tr)" by (cases q)
  show "begins F m n ?t h (set [u] - {u}) u ?K (signed_by r w) l' s"
  proof (rule begins_child [where i = 0, OF _ _ refl])
    show "computes F u l (ok, why, tr) l1" using u q by simp
    show "ready F m n u (handler (SLoop mo) a 0) l s"
      using ready_kid [OF s, of 0] deep by simp
    show "distinct (addrs ?t)" using s by (simp add: at_node_def)
    fix s2
    assume s2: "at_node F ?t h (set [u] - {u}) (\<lambda>x. act_state x = kRunning \<and> ?K (act_kind x)) l1 s2"
    have "goes n ?t h (signed_by r w) l' kRunning s2 (loop_onChildFinished n a ok why tr s2)"
      unfolding loop_onChildFinished_def
    proof (rule handled_body [OF s2])
      fix s3
      let ?P = "\<lambda>z. \<exists>x. (act_state x = kRunning \<and> ?K (act_kind x)) \<and> z = x\<lparr>curr_action := None\<rparr>"
      assume s3: "at_node F ?t h (set [u] - {u}) ?P l1 s3"
      have fin: "goes n ?t h (ok, why, tr @ [w]) l1 kRunning s3 (do_finish n a ok why tr s3)"
        by (rule goes_finish [OF s3]) auto
      have more: "goes n ?t h (signed_by r w) l' kRunning s3 (act_reset n (root u) s3 \<bind> start_child (act_start n) a (Some (root u)))"
        if go: "\<not> ((mo = UntilSucc \<and> ok) \<or> (mo = UntilFail \<and> \<not> ok))"
      proof (rule reset_body [OF s3])
        fix s4
        assume s4: "at_node F ?t h (insert u (set [u] - {u})) ?P l1 s4"
        have b: "begins F n n ?t h (set [u] - {u}) u ?K (signed_by r w) l' s4"
          using rest [OF go] s4 deep unfolding loop_contract_def list.sel by auto
        show "goes n ?t h (signed_by r w) l' kRunning s4 (start_child (act_start n) a (Some (root u)) s4)"
          by (rule goes_start_child [OF s4 refl _ _ b]) auto
      qed (use deep in auto)
      show "goes n ?t h (signed_by r w) l' kRunning s3 (objs s3 a \<bind> (\<lambda>x. case act_kind x of
         LoopK m c \<Rightarrow>
           if (m = UntilSucc \<and> ok) \<or> (m = UntilFail \<and> \<not> ok) then do_finish n a ok why tr s3
           else do {
             c' \<leftarrow> c;
             s1 \<leftarrow> act_reset n c' s3;
             start_child (act_start n) a c s1 }
         | _ \<Rightarrow> None))"
        by (rule read_body [OF s3]) (use fin more stop q in auto)
    qed simp
    then show "goes n ?t h (signed_by r w) l' kRunning s2 (run_fin n (handler (SLoop mo) a 0) ok why tr s2)"
      by (simp add: handler_def run_fin_def)
  qed auto
qed

lemma loop_computes:
  assumes "loop_contract F (SLoop mo) (LoopK mo (Some (root u))) [u] l r l'"
  shows "computes F (Node a w (SLoop mo) [u]) l (signed_by r w) l'"
proof (rule first_kid_computes [where K = "\<lambda>k. k = LoopK mo (Some (root u))" and u = u])
  fix m n h s
  assume "at_node F (Node a w (SLoop mo) [u]) h (set [u]) (\<lambda>x. act_state x = kIdle \<and> act_kind x = LoopK mo (Some (root u))) l s"
    and "\<forall>v \<in> set [u]. deep m v \<and> deep n v"
  then show "begins F m n (Node a w (SLoop mo) [u]) h (set [u] - {u}) u (\<lambda>k. k = LoopK mo (Some (root u))) (signed_by r w) l' s"
    using assms unfolding loop_contract_def list.sel by blast
qed (auto simp: fits_def on_start_def loop_onStart_def split: kind.splits)

end
