(* ===== verification/Flow_Props.thy ===== *)
theory Flow_Props
  imports Flow_Handlers
begin

text \<open>
  What the model of the actions shows: typing, the accounts of a sleep, and behaviours of the code
  that a user of the library has to know. The concrete trees are built with the operations of the
  code from freshly constructed actions.
\<close>

section \<open>Typing\<close>

text \<open>A store of new actions, the user's functions returning whether their number is not zero.\<close>

definition fresh_flow :: "(addr \<times> action) list \<Rightarrow> flow" where
  "fresh_flow xs = \<lparr>objs = map_of xs, runq = [], next_id = 2, fl_now = 0, subscribers = [], fl_log = [],
     fn_call = (\<lambda>f l r. (f \<noteq> 0, r)), gen_call = (\<lambda>g l. int g)\<rparr>"

definition a_function :: "nat \<Rightarrow> action" where
  "a_function f = new_action 0 ''Function'' (Function (Some f))"

definition a_sleep :: "int \<Rightarrow> action" where
  "a_sleep ms = new_action 0 ''Sleep'' (Sleep (Inl ms) 0 0 None)"

text \<open>
  (C15) Type soundness of the action trees: in a store where every object, handler, stored closure
  and queued task agrees with the classes and the children, and every child has a smaller rank
  than its parent, every sequence of user calls, timer ends and loop tasks on existing objects
  returns, with fuel above the ranks: no null pointer is followed, no assertion or index fails, no
  recursion runs on. The store stays well typed and the classes and children stay the same.
\<close>

theorem flow_typed:
  assumes "typing_ok (typing_of s) rk" and "store_ok (typing_of s) rk {} s"
    and "\<And>a. objs s a \<noteq> None \<Longrightarrow> rk a < n"
    and "\<And>c a. \<lbrakk>c \<in> set cs; a \<in> set (call_on c)\<rbrakk> \<Longrightarrow> objs s a \<noteq> None"
  shows "\<exists>s'. performs n cs s = Some s' \<and> store_ok (typing_of s) rk {} s' \<and> typing_of s' = typing_of s"
proof -
  have "okay (performs n cs s) (store_ok (typing_of s) rk {})"
    by (rule performs_ok [OF assms(2,1)]) (use assms(3,4) in \<open>auto simp: typing_of_def\<close>)
  then show ?thesis
    using store_typing by (auto simp: okay_iff)
qed

definition pair_tree :: flow where
  "pair_tree = (fresh_flow [])\<lparr>objs := [
      1 \<mapsto> new_action 1 ''Sequence'' (Sequence AnyFail [2, 3] 0),
      2 \<mapsto> (a_function 1)\<lparr>finish_cb := SeqFin 1, block_cb := BlockThis 1, act_parent := Some 1\<rparr>,
      3 \<mapsto> (a_sleep 1000)\<lparr>finish_cb := SeqFin 1, block_cb := BlockThis 1, act_parent := Some 1\<rparr>]\<rparr>"

lemma flow_typed_witness:
  "\<exists>s'. performs 2 [CallStart 1, RunTask, CallPause 1, CallResume 1, SleepFires 3, RunTask, CallReset 1] pair_tree = Some s' \<and>
     typing_of s' = typing_of pair_tree"
proof -
  have T: "typing_of pair_tree = [1 \<mapsto> Sequence AnyFail [2, 3] 0, 2 \<mapsto> Function (Some 1), 3 \<mapsto> Sleep (Inl 1000) 0 0 None]"
    by (rule ext) (simp add: typing_of_def pair_tree_def a_function_def a_sleep_def new_action_def)
  have "\<exists>s'. performs 2 [CallStart 1, RunTask, CallPause 1, CallResume 1, SleepFires 3, RunTask, CallReset 1] pair_tree = Some s' \<and>
     store_ok (typing_of pair_tree) (\<lambda>a. if a = 1 then 1 else 0) {} s' \<and> typing_of s' = typing_of pair_tree"
  proof (rule flow_typed)
    show "typing_ok (typing_of pair_tree) (\<lambda>a. if a = 1 then 1 else 0)"
      unfolding T by (auto simp: typing_ok_def has_members_def owned_children_def split: if_splits)
    show "store_ok (typing_of pair_tree) (\<lambda>a. if a = 1 then 1 else 0) {} pair_tree"
      unfolding store_ok_def T
      by (auto simp: pair_tree_def fresh_flow_def a_function_def a_sleep_def new_action_def members_ok_def
          index_ok_def)
    show "objs pair_tree a \<noteq> None \<Longrightarrow> (if a = 1 then 1 else 0) < (2 :: nat)" for a
      by simp
    show "\<lbrakk>c \<in> set [CallStart 1, RunTask, CallPause 1, CallResume 1, SleepFires 3, RunTask, CallReset 1];
        a \<in> set (call_on c)\<rbrakk> \<Longrightarrow> objs pair_tree a \<noteq> None" for c a
      by (auto simp: pair_tree_def)
  qed
  then show ?thesis by blast
qed

section \<open>Attaching a child\<close>

text \<open>The list of children of a \<open>Sequence\<close> or a \<open>Parallel\<close> grows; all handlers stay in their class.\<close>

fun with_child :: "kind \<Rightarrow> addr \<Rightarrow> kind" where
  "with_child (Sequence m cs i) c = Sequence m (cs @ [c]) i"
| "with_child (Parallel m cs fin) c = Parallel m (cs @ [c]) fin"
| "with_child k c = k"

lemma with_child_class:
  assumes "T a = Some k"
  shows "fin_ok T cb \<Longrightarrow> fin_ok (T(a \<mapsto> with_child k c)) cb"
    and "blk_ok T b \<Longrightarrow> blk_ok (T(a \<mapsto> with_child k c)) b"
    and "task_ok T t \<Longrightarrow> task_ok (T(a \<mapsto> with_child k c)) t"
proof -
  have serial: "is_serial (with_child k c) = is_serial k"
    by (cases k) (simp_all add: is_serial_def)
  show fin: "fin_ok T cb \<Longrightarrow> fin_ok (T(a \<mapsto> with_child k c)) cb" for cb
    using assms serial by (cases cb) auto
  show blk: "blk_ok T b \<Longrightarrow> blk_ok (T(a \<mapsto> with_child k c)) b" for b
    using assms by (cases b) auto
  show "task_ok T t \<Longrightarrow> task_ok (T(a \<mapsto> with_child k c)) t"
    using fin blk by (cases t) auto
qed

lemma with_child_members:
  assumes "T a = Some k" and "members_ok T rk b x"
  shows "members_ok (T(a \<mapsto> with_child k c)) rk b x"
  using assms with_child_class(1,2) [where T = T and a = a and k = k and c = c]
  by (auto simp: members_ok_def split: option.splits)

lemma with_child_typing:
  assumes T: "typing_ok T rk" and a: "T a = Some k" and c: "T c \<noteq> None" "rk c < rk a"
  shows "typing_ok (T(a \<mapsto> with_child k c)) rk"
  unfolding typing_ok_def
proof (intro allI impI conjI ballI)
  fix b kb
  assume b: "(T(a \<mapsto> with_child k c)) b = Some kb"
  have members: "has_members (with_child k c) = has_members k"
    by (cases k) (simp_all add: has_members_def)
  have kids: "set (owned_children (with_child k c)) \<subseteq> insert c (set (owned_children k))"
    by (cases k) auto
  show "has_members kb"
    using b T a members by (auto simp: typing_ok_def split: if_splits)
  fix d
  assume "d \<in> set (owned_children kb)"
  then have "T d \<noteq> None \<and> rk d < rk b"
    using b typing_child [OF T] a c kids by (cases "b = a") auto
  then show "(T(a \<mapsto> with_child k c)) d \<noteq> None" "rk d < rk b"
    by auto
qed

lemma store_with_child:
  assumes s: "store_ok T rk {} s" and x: "objs s a = Some x" and a: "T a = Some k"
  shows "store_ok (T(a \<mapsto> with_child k c)) rk {} (s\<lparr>objs := (objs s)(a \<mapsto> x\<lparr>act_kind := with_child (act_kind x) c\<rparr>)\<rparr>)"
proof -
  have k: "k = skel (act_kind x)"
    using s x a by (auto simp: store_ok_def)
  have skel: "skel (with_child (act_kind x) c) = with_child k c"
    unfolding k by (cases "act_kind x") auto
  have ok: "index_ok x"
    using s x unfolding store_ok_def by blast
  have index: "index_ok (x\<lparr>act_kind := with_child (act_kind x) c\<rparr>)"
    using ok by (cases "act_kind x") (auto simp: index_ok_def)
  have self: "members_ok T rk a (x\<lparr>act_kind := with_child (act_kind x) c\<rparr>)"
    using s x by (auto simp: store_ok_def members_ok_def)
  show ?thesis
    using s x skel index self with_child_class(3) [where T = T and a = a and k = k and c = c]
      with_child_members [where T = T and a = a and k = k and c = c] a
    by (auto simp: store_ok_def)
qed

text \<open>
  Assembling keeps the types: \<open>addChild\<close> on a well-typed store with an object of smaller rank
  returns, and the store is well typed for the typing it then has. It attaches the child exactly
  when the parent takes children and the child has no parent yet.
\<close>

theorem addChild_typed:
  assumes T: "typing_ok (typing_of s) rk" and s: "store_ok (typing_of s) rk {} s"
    and x: "objs s a = Some x" and y: "objs s c = Some y" and r: "rk c < rk a"
  shows "\<exists>i s'. addChild a (Some c) s = Some (i, s') \<and> typing_ok (typing_of s') rk \<and>
     store_ok (typing_of s') rk {} s' \<and>
     typing_of s' = (if act_parent y = None then (typing_of s)(a \<mapsto> with_child (skel (act_kind x)) c) else typing_of s)"
proof -
  let ?T = "typing_of s"
  have a: "?T a = Some (skel (act_kind x))"
    using x by (simp add: typing_of_def)
  have c: "?T c \<noteq> None"
    using y by (simp add: typing_of_def)
  have ac: "a \<noteq> c" using r by auto
  define hooked where "hooked f b = s\<lparr>objs := (objs s)(c \<mapsto> y\<lparr>act_parent := Some a, finish_cb := f, block_cb := b\<rparr>)\<rparr>" for f b
  have iy: "index_ok y" "members_ok ?T rk c y"
    using s y unfolding store_ok_def by blast+
  have hooked_ok: "store_ok ?T rk {} (hooked f b)" if fb: "fin_ok ?T f" "blk_ok ?T b" for f b
  proof -
    have "index_ok (y\<lparr>act_parent := Some a, finish_cb := f, block_cb := b\<rparr>)"
      using iy(1) by (cases "act_kind y") (auto simp: index_ok_def)
    moreover have "members_ok ?T rk c (y\<lparr>act_parent := Some a, finish_cb := f, block_cb := b\<rparr>)"
      using iy(2) fb by (simp add: members_ok_def)
    ultimately show ?thesis
      using s y by (auto simp: store_ok_def hooked_def)
  qed
  have x': "objs (hooked f b) a = Some x" for f b
    using x ac by (simp add: hooked_def)
  have grown: "store_ok (?T(a \<mapsto> with_child (skel (act_kind x)) c)) rk {}
      ((hooked f b)\<lparr>objs := (objs (hooked f b))(a \<mapsto> x\<lparr>act_kind := with_child (act_kind x) c\<rparr>)\<rparr>)"
    if "fin_ok ?T f" "blk_ok ?T b" for f b
    by (rule store_with_child [OF hooked_ok [OF that] x' a])
  have typing: "typing_ok (?T(a \<mapsto> with_child (skel (act_kind x)) c)) rk"
    by (rule with_child_typing [OF T a c r])
  have adds: ?thesis
    if "fin_ok ?T f" "blk_ok ?T b" "act_parent y = None"
      "addChild a (Some c) s = Some (i, (hooked f b)\<lparr>objs := (objs (hooked f b))(a \<mapsto> x\<lparr>act_kind := with_child (act_kind x) c\<rparr>)\<rparr>)"
    for f b i
    using that(3,4) typing grown [OF that(1,2)] store_typing [OF grown [OF that(1,2)]] by simp
  show ?thesis
  proof (cases "act_parent y = None")
    case True
    show ?thesis
    proof (cases "act_kind x")
      case (Sequence m cs i)
      then show ?thesis
        using x y ac a True
        by (intro adds [of "SeqFin a" "BlockThis a"])
           (auto simp: addChild_def seq_addChild_def act_setParent_def hook_def set_kind_def modify_def hooked_def)
    next
      case (Parallel m cs fin)
      then show ?thesis
        using x y ac a True
        by (intro adds [of "ParFin a (length cs)" "ParBlk a"])
           (auto simp: addChild_def par_addChild_def act_setParent_def hook_def set_kind_def modify_def hooked_def)
    qed (use x T s a True in \<open>auto simp: addChild_def fun_upd_idem\<close>)
  next
    case False
    then show ?thesis
      using x y T s
      by (cases "act_kind x") (auto simp: addChild_def seq_addChild_def par_addChild_def act_setParent_def)
  qed
qed

lemma addChild_typed_witness:
  defines "s \<equiv> fresh_flow [(1, new_action 1 ''Sequence'' (Sequence AnyFail [] 0)), (2, a_function 1)]"
  shows "\<exists>i s'. addChild 1 (Some 2) s = Some (i, s') \<and> typing_of s' 1 = Some (Sequence AnyFail [2] 0)"
proof -
  have T: "typing_of s = [1 \<mapsto> Sequence AnyFail [] 0, 2 \<mapsto> Function (Some 1)]"
    by (rule ext) (simp add: s_def typing_of_def fresh_flow_def a_function_def new_action_def)
  have x: "objs s 1 = Some (new_action 1 ''Sequence'' (Sequence AnyFail [] 0))" and y: "objs s 2 = Some (a_function 1)"
    by (simp_all add: s_def fresh_flow_def)
  obtain i s' where s': "addChild 1 (Some 2) s = Some (i, s')"
    "typing_of s' = (if act_parent (a_function 1) = None
       then (typing_of s)(1 \<mapsto> with_child (skel (act_kind (new_action 1 ''Sequence'' (Sequence AnyFail [] 0)))) 2) else typing_of s)"
  proof -
    have "typing_ok (typing_of s) (\<lambda>a. if a = 1 then 1 else 0)"
      unfolding T by (auto simp: typing_ok_def has_members_def owned_children_def split: if_splits)
    moreover have "store_ok (typing_of s) (\<lambda>a. if a = 1 then 1 else 0) {} s"
      unfolding store_ok_def T
      by (auto simp: s_def fresh_flow_def a_function_def new_action_def members_ok_def index_ok_def split: if_splits)
    ultimately show ?thesis
      using that addChild_typed [where s = s and rk = "\<lambda>a. if a = 1 then 1 else 0" and a = 1 and c = 2, OF _ _ x y] by auto
  qed
  then show ?thesis
    by (simp add: a_function_def new_action_def)
qed

section \<open>A sleep that is paused\<close>

definition sleep_deadline :: "addr \<Rightarrow> flow \<Rightarrow> int option" where
  "sleep_deadline a s = (case objs s a of
       Some x \<Rightarrow> (case act_kind x of Sleep span f r t \<Rightarrow> t | _ \<Rightarrow> None)
     | None \<Rightarrow> None)"

text \<open>
  The account of a sleep: started at \<open>t0\<close> for \<open>d\<close> milliseconds, paused at \<open>t1\<close> and resumed at
  \<open>t2\<close>, its timer ends when it has run for \<open>d\<close> in all. Paused again at \<open>t3\<close> and resumed at \<open>t4\<close> it
  ends too early, by the length of the first pause: \<open>onResume\<close> does not move \<open>finish_time_\<close>, from
  which \<open>onPause\<close> takes the rest.
\<close>

theorem sleep_account:
  fixes t0 t1 t2 t3 t4 d :: int
  assumes x: "objs s a = Some x" "act_kind x = Sleep (Inl d) f r t" "act_state x = kIdle"
  shows "map_option (sleep_deadline a) (performs (Suc n) [ClockTo t0, CallStart a, ClockTo t1, CallPause a, ClockTo t2, CallResume a] s)
           = Some (Some (t2 + (d - (t1 - t0)))) \<and>
    map_option (sleep_deadline a) (performs (Suc n) [ClockTo t0, CallStart a, ClockTo t1, CallPause a, ClockTo t2, CallResume a,
           ClockTo t3, CallPause a, ClockTo t4, CallResume a] s)
           = Some (Some (t4 + (d - (t1 - t0) - (t3 - t2)) - (t2 - t1)))"
  by (simp_all add: x ignore_def on_start_def sleep_onStart_def set_kind_def modify_def settle_def on_pause_def on_resume_def
      sleep_onPause_def sleep_onResume_def
      sleep_deadline_def algebra_simps)

lemma sleep_account_witness:
  "map_option (sleep_deadline 1) (performs 1 [ClockTo 0, CallStart 1, ClockTo 100, CallPause 1, ClockTo 600, CallResume 1]
     (fresh_flow [(1, a_sleep 1000)])) = Some (Some 1500) \<and>
   map_option (sleep_deadline 1) (performs 1 [ClockTo 0, CallStart 1, ClockTo 100, CallPause 1, ClockTo 600, CallResume 1,
     ClockTo 700, CallPause 1, ClockTo 700, CallResume 1] (fresh_flow [(1, a_sleep 1000)])) = Some (Some 1000)"
proof -
  have x: "objs (fresh_flow [(1, a_sleep 1000)]) 1 = Some (a_sleep 1000)"
    "act_kind (a_sleep 1000) = Sleep (Inl 1000) 0 0 None" "act_state (a_sleep 1000) = kIdle"
    by (simp_all add: fresh_flow_def a_sleep_def new_action_def)
  show ?thesis
    using sleep_account [OF x, of 0 0 100 600 700 700] by simp
qed

section \<open>Behaviours to know\<close>

definition states :: "nat \<Rightarrow> flow \<Rightarrow> act_state option list" where
  "states n s = map (\<lambda>a. map_option act_state (objs s a)) [1..<Suc n]"

text \<open>A sequence of a function and a sleep, and a parallel with one function.\<close>

definition seq_tree :: "flow option" where
  "seq_tree = do {
     (i, s1) \<leftarrow> addChild 1 (Some 2) (fresh_flow [(1, new_action 1 ''Sequence'' (Sequence AllFinish [] 0)),
       (2, a_function 1), (3, a_sleep 1000)]);
     (j, s2) \<leftarrow> addChild 1 (Some 3) s1;
     Some s2 }"

definition par_tree :: "flow option" where
  "par_tree = do {
     (i, s1) \<leftarrow> addChild 1 (Some 2) (fresh_flow [(1, new_action 1 ''Parallel'' (Parallel AllFinish [] Map.empty)), (2, a_function 1)]);
     Some s1 }"

text \<open>
  A callback of the previous run survives \<open>reset\<close>: the finish of a child that came while the
  sequence was paused is posted again by \<open>onResume\<close> without a run id, so \<open>reset\<close> cannot cancel it.
  Started again, the sequence takes it for the finish of its first child, starts the second, and
  then takes the true finish for that of the second: it ends with success while the sleep, not yet
  due, is still running.
\<close>

theorem stale_finish_after_reset:
  "map_option (\<lambda>s. (states 3 s, length (fl_log s)))
     (seq_tree \<bind> performs 3 [CallStart 1, CallPause 1, RunTask, CallResume 1, CallReset 1, CallStart 1, RunTask, RunTask])
   = Some ([Some kFinished, Some kFinished, Some kRunning], 2)"
  by code_simp

text \<open>
  \<open>Parallel\<close> loses a finish that is delivered while it is paused: nothing stores it, so after
  \<open>resume\<close> all children have finished, the queue is empty, and it stays running for ever.
\<close>

theorem parallel_loses_finish:
  "\<exists>s. par_tree \<bind> performs 3 [CallStart 1, CallPause 1, RunTask, CallResume 1] = Some s \<and>
     states 2 s = [Some kRunning, Some kFinished] \<and> (\<forall>k. run_fronts 3 k s = Some s)"
proof -
  have run: "map_option (\<lambda>s. (states 2 s, runq s)) (par_tree \<bind> performs 3 [CallStart 1, CallPause 1, RunTask, CallResume 1])
      = Some ([Some kRunning, Some kFinished], [])"
    by code_simp
  then obtain s where s: "par_tree \<bind> performs 3 [CallStart 1, CallPause 1, RunTask, CallResume 1] = Some s"
    and st: "states 2 s = [Some kRunning, Some kFinished]" "runq s = []"
    by (auto simp del: performs.simps)
  have "run_fronts 3 k s = Some s" for k
    by (induction k) (simp_all add: run_front_def st(2))
  then show ?thesis using s st(1) by blast
qed

text \<open>The timeout of a sequence leaves its child running; only \<open>CompositeAction\<close> stops it.\<close>

lemma timeout_leaves_child:
  "map_option (states 3) (seq_tree \<bind> performs 3 [CallSetTimeout 1 10, CallStart 1, RunTask, TimerFires 1])
   = Some [Some kFinished, Some kFinished, Some kRunning]"
  by code_simp

text \<open>\<open>setChild\<close> on a running action deletes the child that \<open>curr_action_\<close> still points to.\<close>

lemma replaced_child_dangles:
  "map_option (states 3) (do {
     (i, s1) \<leftarrow> setChild 3 1 (Some 2) (fresh_flow [(1, new_action 1 ''Wrapper'' (Wrapper NormalMode None)), (2, a_sleep 10), (3, a_sleep 10)]);
     s2 \<leftarrow> performs 3 [CallStart 1] s1;
     (j, s3) \<leftarrow> setChild 3 1 (Some 3) s2;
     Some s3 }) = Some [Some kRunning, None, Some kIdle]"
  "do {
     (i, s1) \<leftarrow> setChild 3 1 (Some 2) (fresh_flow [(1, new_action 1 ''Wrapper'' (Wrapper NormalMode None)), (2, a_sleep 10), (3, a_sleep 10)]);
     s2 \<leftarrow> performs 3 [CallStart 1] s1;
     (j, s3) \<leftarrow> setChild 3 1 (Some 3) s2;
     performs 3 [CallPause 1] s3 } = None"
  by code_simp+

text \<open>Two blocks before the loop runs queue two callbacks, of which \<open>reset\<close> cancels the last.\<close>

lemma second_block_not_cancelled:
  "map_option (\<lambda>s. length (runq s)) (seq_tree \<bind> performs 3 [CallStart 1, RunTask, CallBlock 3 no_reason [], CallBlock 3 no_reason [], CallReset 1]) = Some 1"
  by code_simp

text \<open>
  \<open>EventPublisherImpl::subscribe\<close> of a subscriber it already has: \<open>std::remove\<close> moves the others
  forward and nothing is erased or added, so unless it was the last one, the subscriber is gone
  and the last one is there twice.
\<close>

theorem subscribe_twice_unsubscribes:
  assumes "distinct (u @ [a] @ v)" and "v \<noteq> []"
  shows "pub_subscribe a (u @ [a] @ v) = u @ v @ [last v] \<and> a \<notin> set (pub_subscribe a (u @ [a] @ v))"
proof -
  have "filter (\<lambda>b. b \<noteq> a) u = u" "filter (\<lambda>b. b \<noteq> a) v = v"
    by (rule filter_True, use assms(1) in auto)+
  then have "filter (\<lambda>b. b \<noteq> a) (u @ [a] @ v) = u @ v"
    by simp
  moreover have "drop (length (u @ v)) (u @ [a] @ v) = [last v]"
    using assms(2) by (induction v rule: rev_induct) auto
  ultimately have eq: "pub_subscribe a (u @ [a] @ v) = u @ v @ [last v]"
    by (simp add: pub_subscribe_def std_remove_def Let_def)
  show ?thesis
    unfolding eq using assms by auto
qed

lemma subscribe_twice_witness: "pub_subscribe 1 [1, 2] = [2, 2]"
  using subscribe_twice_unsubscribes [of "[]" 1 "[2]"] by simp

end
