(* ===== verification/Flow_Denotation.thy ===== *)
theory Flow_Denotation
  imports Flow_Meaning Flow_Props
begin

text \<open>
  The remaining rules of the big-step relation (repetition, conditional loop, branches and switch)
  and the theorem: the actions compute the meaning of their tree.
\<close>

section \<open>Repeat\<close>

definition rep_contract :: "user_fn \<Rightarrow> rep_mode \<Rightarrow> usize \<Rightarrow> bt \<Rightarrow> fl_event list \<Rightarrow> outcome \<Rightarrow> fl_event list \<Rightarrow> bool" where
  "rep_contract F mo k u l r l' \<longleftrightarrow> (\<forall>a w tm h V P s m n. at_node F (Node a w (SRep mo tm) [u]) h V P l s \<longrightarrow> u \<in> V \<longrightarrow>
     deep m u \<longrightarrow> deep n u \<longrightarrow>
     begins F m n (Node a w (SRep mo tm) [u]) h {} u (\<lambda>k'. k' = Repeat mo tm k (Some (root u))) (signed_by r w) l' s)"

lemma rep_step:
  assumes u: "computes F u l (ok, q) l1"
    and stop: "(mo = BreakSucc \<and> ok) \<or> (mo = BreakFail \<and> \<not> ok) \<Longrightarrow> r = (ok, q) \<and> l' = l1"
    and last_one: "\<lbrakk>\<not> ((mo = BreakSucc \<and> ok) \<or> (mo = BreakFail \<and> \<not> ok)); k = 0\<rbrakk>
      \<Longrightarrow> r = (True, reason_of 7 ''RepeatNoTimes'', []) \<and> l' = l1"
    and rest: "\<lbrakk>\<not> ((mo = BreakSucc \<and> ok) \<or> (mo = BreakFail \<and> \<not> ok)); k \<noteq> 0\<rbrakk> \<Longrightarrow> rep_contract F mo (k - 1) u l1 r l'"
  shows "rep_contract F mo k u l r l'"
  unfolding rep_contract_def
proof (intro allI impI)
  fix a w tm h V P s m n
  let ?t = "Node a w (SRep mo tm) [u]" and ?k = "\<lambda>k. Repeat mo tm k (Some (root u))"
  assume s: "at_node F ?t h V P l s" and V: "u \<in> V" and deep: "deep m u" "deep n u"
  obtain why tr where q: "q = (why, tr)" by (cases q)
  show "begins F m n ?t h {} u (\<lambda>k'. k' = ?k k) (signed_by r w) l' s"
  proof (rule begins_child [where i = 0, OF _ _ refl])
    show "computes F u l (ok, why, tr) l1" using u q by simp
    show "ready F m n u (handler (SRep mo tm) a 0) l s"
      using ready_kid [OF s, of 0] V deep by simp
    show "distinct (addrs ?t)" using s by (simp add: at_node_def)
    fix s2
    assume s2: "at_node F ?t h {} (\<lambda>x. act_state x = kRunning \<and> act_kind x = ?k k) l1 s2"
    have "goes n ?t h (signed_by r w) l' kRunning s2 (rep_onChildFinished n a ok why tr s2)"
      unfolding rep_onChildFinished_def
    proof (rule handled_body [OF s2])
      fix s3
      let ?P = "\<lambda>z. \<exists>x. (act_state x = kRunning \<and> act_kind x = ?k k) \<and> z = x\<lparr>curr_action := None\<rparr>"
      assume s3: "at_node F ?t h {} ?P l1 s3"
      have fin: "goes n ?t h (ok', why', tr' @ [w]) l1 kRunning s3 (do_finish n a ok' why' tr' s3)" for ok' why' tr'
        by (rule goes_finish [OF s3]) auto
      have more: "goes n ?t h (signed_by r w) l' kRunning s3
          (act_reset n (root u) s3 \<bind> (\<lambda>s1. start_child (act_start n) a (Some (root u)) s1 \<bind> set_kind a (?k (k - 1))))"
        if go: "\<not> ((mo = BreakSucc \<and> ok) \<or> (mo = BreakFail \<and> \<not> ok))" "k \<noteq> 0"
      proof (rule reset_body [OF s3])
        fix s4
        assume s4: "at_node F ?t h (insert u {}) ?P l1 s4"
        have b: "begins F n n ?t h {} u (\<lambda>k'. k' = ?k (k - 1)) (signed_by r w) l' s4"
          using rest [OF go] s4 deep unfolding rep_contract_def by blast
        show "goes n ?t h (signed_by r w) l' kRunning s4 (start_child (act_start n) a (Some (root u)) s4 \<bind> set_kind a (?k (k - 1)))"
          by (rule goes_start_kind [OF s4 refl _ _ b]) (auto simp: fits_def)
      qed (use deep in auto)
      show "goes n ?t h (signed_by r w) l' kRunning s3 (objs s3 a \<bind> (\<lambda>x. case act_kind x of
         Repeat m t r c \<Rightarrow>
           if (m = BreakSucc \<and> ok) \<or> (m = BreakFail \<and> \<not> ok) then do_finish n a ok why tr s3
           else if r > 0 then do {
             c' \<leftarrow> c;
             s1 \<leftarrow> act_reset n c' s3;
             s2 \<leftarrow> start_child (act_start n) a c s1;
             set_kind a (Repeat m t (r - 1) c) s2 }
           else do_finish n a True (reason_of 7 ''RepeatNoTimes'') [] s3
         | _ \<Rightarrow> None))"
        by (rule read_body [OF s3])
           (use fin [of ok why tr] fin [of True "reason_of 7 ''RepeatNoTimes''" "[]"] more stop last_one q
             in \<open>auto simp: word_gt_0\<close>)
    qed simp
    then show "goes n ?t h (signed_by r w) l' kRunning s2 (run_fin n (handler (SRep mo tm) a 0) ok why tr s2)"
      by (simp add: handler_def run_fin_def)
  qed auto
qed

lemma rep_computes:
  assumes c: "rep_contract F mo (tm - 1) u l r l'"
  shows "computes F (Node a w (SRep mo tm) [u]) l (signed_by r w) l'"
proof (rule computes_node)
  fix m n h s
  let ?t = "Node a w (SRep mo tm) [u]"
  assume s: "at_node F ?t h (set [u]) is_fresh l s"
    and deep: "\<forall>v \<in> set [u]. deep m v" "\<forall>v \<in> set [u]. deep n v"
  obtain x where x: "objs s a = Some x" "fits (SRep mo tm) (map root [u]) (act_kind x)"
    using s by (auto simp: at_node_def)
  then obtain k where k: "act_kind x = Repeat mo tm k (Some (root u))"
    by (auto simp: fits_def split: kind.splits)
  have "goes n ?t h (signed_by r w) l' kIdle s (set_kind a (Repeat mo tm (tm - 1) (Some (root u))) s \<bind> start_child (act_start m) a (Some (root u)))"
  proof (rule kind_body [OF s])
    fix s'
    assume s': "at_node F ?t h (set [u]) (\<lambda>z. \<exists>x. is_fresh x \<and> z = x\<lparr>act_kind := Repeat mo tm (tm - 1) (Some (root u))\<rparr>) l s'"
    have b: "begins F m n ?t h {} u (\<lambda>k'. k' = Repeat mo tm (tm - 1) (Some (root u))) (signed_by r w) l' s'"
      using c s' deep unfolding rep_contract_def by (auto simp del: root.simps)
    show "goes n ?t h (signed_by r w) l' kIdle s' (start_child (act_start m) a (Some (root u)) s')"
      by (rule goes_start_child [OF s' refl _ _ b]) (auto simp: is_fresh_def)
  qed (simp add: fits_def)
  then show "goes n ?t h (signed_by r w) l' kIdle s (on_start m (act_start m) a s)"
    using x k by (simp add: on_start_def repeat_onStart_def)
qed

section \<open>If and else\<close>

text \<open>The three forms of an \<open>IfElseAction\<close>: what runs after the condition.\<close>

definition after_cond :: "shape \<Rightarrow> bt list \<Rightarrow> bool \<Rightarrow> (nat \<times> bt) option" where
  "after_cond sh ts ok = (case sh of
       SIfBoth \<Rightarrow> if ok then Some (1, ts ! 1) else Some (2, ts ! 2)
     | SIfThen \<Rightarrow> if ok then Some (1, ts ! 1) else None
     | SIfElse \<Rightarrow> if ok then None else Some (1, ts ! 1)
     | _ \<Rightarrow> None)"

lemma cond_computes:
  assumes u: "computes F u l (ok, why, tr) l1" and sh: "sh = SIfBoth \<or> sh = SIfThen \<or> sh = SIfElse"
    and ts: "length ts = (if sh = SIfBoth then 2 else 1)"
    and skip: "after_cond sh (u # ts) ok = None \<Longrightarrow> r = (True, why, tr) \<and> l' = l1"
    and branch: "\<And>i v. after_cond sh (u # ts) ok = Some (i, v) \<Longrightarrow> computes F v l1 r l'"
  shows "computes F (Node a w sh (u # ts)) l (signed_by r w) l'"
proof (rule first_kid_computes [where K = "fits sh (map root (u # ts))" and u = u])
  fix m n h s
  let ?t = "Node a w sh (u # ts)" and ?K = "fits sh (map root (u # ts))"
  assume s: "at_node F ?t h (set (u # ts)) (\<lambda>x. act_state x = kIdle \<and> ?K (act_kind x)) l s"
    and deep: "\<forall>v \<in> set (u # ts). deep m v \<and> deep n v"
  have dist: "distinct (u # ts)"
    using s distinct_kids [of "u # ts"] by (simp add: at_node_def)
  show "begins F m n ?t h (set (u # ts) - {u}) u ?K (signed_by r w) l' s"
  proof (rule begins_child [where i = 0, OF u _ refl])
    show "ready F m n u (handler sh a 0) l s"
      using ready_kid [OF s, of 0] deep by simp
    show "distinct (addrs ?t)" using s by (simp add: at_node_def)
    fix s2
    assume s2: "at_node F ?t h (set (u # ts) - {u}) (\<lambda>x. act_state x = kRunning \<and> ?K (act_kind x)) l1 s2"
    have "goes n ?t h (signed_by r w) l' kRunning s2 (onCondActionFinished n a ok why tr s2)"
      unfolding onCondActionFinished_def
    proof (rule handled_body [OF s2])
      fix s3
      let ?P = "\<lambda>z. \<exists>x. (act_state x = kRunning \<and> ?K (act_kind x)) \<and> z = x\<lparr>curr_action := None\<rparr>"
      assume s3: "at_node F ?t h (set (u # ts) - {u}) ?P l1 s3"
      have fin: "goes n ?t h (True, why, tr @ [w]) l1 kRunning s3 (do_finish n a True why tr s3)"
        by (rule goes_finish [OF s3]) auto
      have branch': "goes n ?t h (signed_by r w) l' kRunning s3 (start_child (act_start n) a (Some (root v)) s3)"
        if v: "after_cond sh (u # ts) ok = Some (i, v)" for i v
      proof (rule goes_last [where i = i, OF branch [OF v] s3])
        show i: "i < length (u # ts)" and "v = (u # ts) ! i"
          using v sh ts by (auto simp: after_cond_def split: if_splits)
        have "0 < i" using v sh by (auto simp: after_cond_def split: if_splits)
        then show "v \<in> set (u # ts) - {u}" "handler sh a i = LastFin a"
          using \<open>v = (u # ts) ! i\<close> i dist sh by (auto simp: handler_def nth_Cons split: nat.splits)
        then show "deep n v" "deep n v" using deep by auto
      qed auto
      have "goes n ?t h (signed_by r w) l' kRunning s3 (case act_kind x of
         IfElse i t e \<Rightarrow>
           if ok \<and> t \<noteq> None then start_child (act_start n) a t s3
           else if \<not> ok \<and> e \<noteq> None then start_child (act_start n) a e s3
           else do_finish n a True why tr s3
         | _ \<Rightarrow> None)" if x: "?K (act_kind x)" for x
        using sh x ts fin skip branch'
        by (elim disjE) (auto simp: fits_def after_cond_def length_Suc_conv numeral_2_eq_2 split: kind.splits if_splits)
      then show "goes n ?t h (signed_by r w) l' kRunning s3 (objs s3 a \<bind> (\<lambda>x. case act_kind x of
         IfElse i t e \<Rightarrow>
           if ok \<and> t \<noteq> None then start_child (act_start n) a t s3
           else if \<not> ok \<and> e \<noteq> None then start_child (act_start n) a e s3
           else do_finish n a True why tr s3
         | _ \<Rightarrow> None))"
        by (rule read_body [OF s3])
    qed simp
    then show "goes n ?t h (signed_by r w) l' kRunning s2 (run_fin n (handler sh a 0) ok why tr s2)"
      using sh by (auto simp: handler_def run_fin_def)
  qed auto
qed (use sh in \<open>auto simp: fits_def on_start_def ifelse_onStart_def split: kind.splits\<close>)

section \<open>The conditional loop\<close>

definition while_contract :: "user_fn \<Rightarrow> bool \<Rightarrow> bt \<Rightarrow> bt \<Rightarrow> fl_event list \<Rightarrow> outcome \<Rightarrow> fl_event list \<Rightarrow> bool" where
  "while_contract F b u v l r l' \<longleftrightarrow> (\<forall>a w h P V s m n. at_node F (Node a w (SLoopIf b) [u, v]) h V P l s \<longrightarrow> u \<in> V \<longrightarrow> v \<in> V \<longrightarrow>
     deep m u \<longrightarrow> deep n u \<longrightarrow> deep n v \<longrightarrow>
     begins F m n (Node a w (SLoopIf b) [u, v]) h {v} u (\<lambda>k'. True) (signed_by r w) l' s)"

lemma while_step:
  assumes u: "computes F u l (ok, q) l1" and no: "\<not> ok \<Longrightarrow> r = (b, q) \<and> l' = l1"
    and yes: "ok \<Longrightarrow> computes F v l1 r2 l2" and rest: "ok \<Longrightarrow> while_contract F b u v l2 r l'"
  shows "while_contract F b u v l r l'"
  unfolding while_contract_def
proof (intro allI impI)
  fix a w h P V s m n
  let ?t = "Node a w (SLoopIf b) [u, v]"
  assume s: "at_node F ?t h V P l s" and V: "u \<in> V" "v \<in> V" and deep: "deep m u" "deep n u" "deep n v"
  obtain why tr where q: "q = (why, tr)" by (cases q)
  have uv: "u \<noteq> v"
    using s distinct_kids [of "[u, v]"] by (auto simp: at_node_def)
  have dist: "distinct (addrs ?t)"
    using s by (simp add: at_node_def)
  show "begins F m n ?t h {v} u (\<lambda>k'. True) (signed_by r w) l' s"
  proof (rule begins_child [where i = 0, OF _ _ refl dist])
    show "computes F u l (ok, why, tr) l1" using u q by simp
    show "ready F m n u (handler (SLoopIf b) a 0) l s"
      using ready_kid [OF s, of 0] V deep by simp
    show "{v} \<subseteq> set [u, v] - {u}" using uv by auto
    fix s2
    assume s2: "at_node F ?t h {v} (\<lambda>x. act_state x = kRunning \<and> True) l1 s2"
    have "goes n ?t h (signed_by r w) l' kRunning s2 (onIfFinished n a ok why tr s2)"
      unfolding onIfFinished_def
    proof (rule handled_body [OF s2])
      fix s3
      let ?P = "\<lambda>z. \<exists>x. (act_state x = kRunning \<and> True) \<and> z = x\<lparr>curr_action := None\<rparr>"
      assume s3: "at_node F ?t h {v} ?P l1 s3"
      have fin: "goes n ?t h (b, why, tr @ [w]) l1 kRunning s3 (do_finish n a b why tr s3)"
        by (rule goes_finish [OF s3]) auto
      have more: "goes n ?t h (signed_by r w) l' kRunning s3 (start_child (act_start n) a (Some (root v)) s3)" if ok: "ok"
      proof -
        obtain ok2 why2 tr2 where r2: "r2 = (ok2, why2, tr2)" by (cases r2)
        have bv: "begins F n n ?t h {} v (\<lambda>k'. True) (signed_by r w) l' s3"
        proof (rule begins_child [where i = 1, OF _ _ refl dist])
          show "computes F v l1 (ok2, why2, tr2) l2" using yes [OF ok] r2 by simp
          show "ready F n n v (handler (SLoopIf b) a 1) l1 s3"
            using ready_kid [OF s3, of 1] deep by simp
          fix s4
          assume s4: "at_node F ?t h {} (\<lambda>x. act_state x = kRunning \<and> True) l2 s4"
          have "goes n ?t h (signed_by r w) l' kRunning s4 (onExecFinished n a ok2 why2 tr2 s4)"
            unfolding onExecFinished_def
          proof (rule handled_body [OF s4])
            fix s5
            assume s5: "at_node F ?t h {} ?P l2 s5"
            have again: "goes n ?t h (signed_by r w) l' kRunning s5 (act_reset n (root u) s5 \<bind> (\<lambda>s1. act_reset n (root v) s1 \<bind>
                (\<lambda>s2. startThisAction (act_start n) a (root u) s2 \<bind> (\<lambda>(ok, s3). if ok then Some s3 else do_finish n a b why2 tr2 s3))))"
            proof (rule reset_body [OF s5])
              fix s6
              assume s6: "at_node F ?t h (insert u {}) ?P l2 s6"
              show "goes n ?t h (signed_by r w) l' kRunning s6 (act_reset n (root v) s6 \<bind>
                (\<lambda>s2. startThisAction (act_start n) a (root u) s2 \<bind> (\<lambda>(ok, s3). if ok then Some s3 else do_finish n a b why2 tr2 s3)))"
              proof (rule reset_body [OF s6])
                fix s7
                assume s7: "at_node F ?t h (insert v (insert u {})) ?P l2 s7"
                have b7: "begins F n n ?t h {v} u (\<lambda>k'. True) (signed_by r w) l' s7"
                  using rest [OF ok, unfolded while_contract_def, rule_format, OF s7, of n n] deep by blast
                have "\<exists>s8. startThisAction (act_start n) a (root u) s7 = Some (True, s8) \<and> goes n ?t h (signed_by r w) l' kRunning s7 (Some s8)"
                  by (rule goes_start_kid [OF s7 refl _ _ b7]) (use uv in auto)
                then obtain s8 where s8: "startThisAction (act_start n) a (root u) s7 = Some (True, s8)"
                    "goes n ?t h (signed_by r w) l' kRunning s7 (Some s8)"
                  by blast
                then show "goes n ?t h (signed_by r w) l' kRunning s7 (startThisAction (act_start n) a (root u) s7 \<bind>
                    (\<lambda>(ok, s3). if ok then Some s3 else do_finish n a b why2 tr2 s3))"
                  by simp
              qed (use deep in auto)
            qed (use deep in auto)
            show "goes n ?t h (signed_by r w) l' kRunning s5 (objs s5 a \<bind> (\<lambda>x. case act_kind x of
               LoopIf i e r \<Rightarrow> do {
                 i' \<leftarrow> i;
                 e' \<leftarrow> e;
                 s1 \<leftarrow> act_reset n i' s5;
                 s2 \<leftarrow> act_reset n e' s1;
                 (ok, s3) \<leftarrow> startThisAction (act_start n) a i' s2;
                 if ok then Some s3 else do_finish n a r why2 tr2 s3 }
               | _ \<Rightarrow> None))"
              by (rule read_body [OF s5]) (use again in \<open>auto simp: fits_def split: kind.splits\<close>)
          qed simp
          then show "goes n ?t h (signed_by r w) l' kRunning s4 (run_fin n (handler (SLoopIf b) a 1) ok2 why2 tr2 s4)"
            by (simp add: handler_def run_fin_def)
        qed auto
        show ?thesis
          by (rule goes_start_child [OF s3 refl _ _ bv]) auto
      qed
      show "goes n ?t h (signed_by r w) l' kRunning s3 (objs s3 a \<bind> (\<lambda>x. case act_kind x of
         LoopIf i e r \<Rightarrow> if ok then start_child (act_start n) a e s3 else do_finish n a r why tr s3
         | _ \<Rightarrow> None))"
        by (rule read_body [OF s3]) (use fin more no q in \<open>auto simp: fits_def split: kind.splits\<close>)
    qed simp
    then show "goes n ?t h (signed_by r w) l' kRunning s2 (run_fin n (handler (SLoopIf b) a 0) ok why tr s2)"
      by (simp add: handler_def run_fin_def)
  qed auto
qed

lemma while_computes:
  assumes "while_contract F b u v l r l'"
  shows "computes F (Node a w (SLoopIf b) [u, v]) l (signed_by r w) l'"
proof (rule first_kid_computes [where K = "\<lambda>k. True" and u = u])
  fix m n h s
  assume s: "at_node F (Node a w (SLoopIf b) [u, v]) h (set [u, v]) (\<lambda>x. act_state x = kIdle \<and> True) l s"
    and deep: "\<forall>v \<in> set [u, v]. deep m v \<and> deep n v"
  have "set [u, v] - {u} = {v}"
    using s distinct_kids [of "[u, v]"] by (auto simp: at_node_def)
  moreover have "begins F m n (Node a w (SLoopIf b) [u, v]) h {v} u (\<lambda>k. True) (signed_by r w) l' s"
    using assms [unfolded while_contract_def, rule_format, OF s] deep by simp
  ultimately show "begins F m n (Node a w (SLoopIf b) [u, v]) h (set [u, v] - {u}) u (\<lambda>k. True) (signed_by r w) l' s"
    by simp
qed (auto simp: fits_def on_start_def loopif_onStart_def split: kind.splits)

section \<open>Branches\<close>

lemma length_pairs: "length (pairs xs) = length xs div 2"
  by (induction xs rule: pairs.induct) auto

lemma pairs_append: "even (length xs) \<Longrightarrow> pairs (xs @ ys) = pairs xs @ pairs ys"
  by (induction xs rule: pairs.induct) auto

definition branch_contract :: "user_fn \<Rightarrow> bt list \<Rightarrow> fl_event list \<Rightarrow> outcome \<Rightarrow> fl_event list \<Rightarrow> bool" where
  "branch_contract F ts l r l' \<longleftrightarrow> (\<forall>a w pre h st s m n k.
     at_node F (Node a w SBranches (pre @ ts)) h (set ts)
       (\<lambda>x. act_state x = st \<and> act_kind x = IfThen (pairs (map root (pre @ ts))) (length pre div 2) None) l s \<longrightarrow>
     st = kIdle \<or> st = kRunning \<longrightarrow> even (length pre) \<longrightarrow> (\<forall>u \<in> set ts. deep m u \<and> deep n u) \<longrightarrow>
     goes n (Node a w SBranches (pre @ ts)) h (signed_by r w) l' st s (ifthen_doStart k (act_start m) a s))"

lemma branch_contractD:
  assumes "branch_contract F ts l r l'"
    and "at_node F (Node a w SBranches (pre @ ts)) h (set ts)
       (\<lambda>x. act_state x = st \<and> act_kind x = IfThen (pairs (map root (pre @ ts))) (length pre div 2) None) l s"
    and "st = kIdle \<or> st = kRunning" and "even (length pre)" and "\<forall>u \<in> set ts. deep m u \<and> deep n u"
  shows "goes n (Node a w SBranches (pre @ ts)) h (signed_by r w) l' st s (ifthen_doStart k (act_start m) a s)"
  using assms unfolding branch_contract_def by blast

lemma at_node_fewer: "\<lbrakk>at_node F t h V P l s; V' \<subseteq> V\<rbrakk> \<Longrightarrow> at_node F t h V' P l s"
  unfolding at_node_def by blast

lemma branch_end: "branch_contract F [] l (False, reason_of 10 ''IfThenSkip'', []) l"
  unfolding branch_contract_def
proof (intro allI impI)
  fix a w pre h st s m n k
  assume s: "at_node F (Node a w SBranches (pre @ [])) h (set []) (\<lambda>x. act_state x = st \<and>
        act_kind x = IfThen (pairs (map root (pre @ []))) (length pre div 2) None) l s"
    and st: "st = kIdle \<or> st = kRunning"
  have "goes n (Node a w SBranches (pre @ [])) h (False, reason_of 10 ''IfThenSkip'', [] @ [w]) l st s
      (do_finish k a False (reason_of 10 ''IfThenSkip'') [] s)"
    by (rule goes_finish [OF s _ st]) auto
  then show "goes n (Node a w SBranches (pre @ [])) h (signed_by (False, reason_of 10 ''IfThenSkip'', []) w) l st s
      (ifthen_doStart k (act_start m) a s)"
    unfolding ifthen_doStart_def
    by (intro read_body [OF s]) (simp add: length_pairs)
qed

lemma branch_step:
  assumes u: "computes F u l (ok, q) l1" and yes: "ok \<Longrightarrow> computes F v l1 r l'"
    and no: "\<not> ok \<Longrightarrow> branch_contract F ts l1 r l'"
  shows "branch_contract F (u # v # ts) l r l'"
  unfolding branch_contract_def
proof (intro allI impI)
  fix a w pre h st s m n k
  let ?t = "Node a w SBranches (pre @ u # v # ts)" and ?ps = "pairs (map root (pre @ u # v # ts))"
  let ?K = "\<lambda>k. k = IfThen ?ps (length pre div 2) None"
  assume s: "at_node F ?t h (set (u # v # ts)) (\<lambda>x. act_state x = st \<and> ?K (act_kind x)) l s"
    and st: "st = kIdle \<or> st = kRunning" and even: "even (length pre)"
    and deep: "\<forall>v \<in> set (u # v # ts). deep m v \<and> deep n v"
  obtain why tr where q: "q = (why, tr)" by (cases q)
  have dist: "distinct (addrs ?t)" and kids: "distinct (pre @ u # v # ts)"
    using s distinct_kids [of "pre @ u # v # ts"] by (auto simp: at_node_def)
  have ps: "?ps ! (length pre div 2) = (root u, root v)" "length pre div 2 < length ?ps"
    using even by (simp_all add: pairs_append nth_append length_pairs)
  have half: "length (pre @ [u, v]) div 2 = length pre div 2 + 1" by simp
  have b: "begins F m n ?t h (set (v # ts)) u ?K (signed_by r w) l' s"
  proof (rule begins_child [where i = "length pre", OF _ _ refl dist])
    show "computes F u l (ok, why, tr) l1" using u q by simp
    show "ready F m n u (handler SBranches a (length pre)) l s"
      using ready_kid [OF s, of "length pre"] deep by simp
    show "set (v # ts) \<subseteq> set (pre @ u # v # ts) - {u}" using kids by auto
    fix s2
    assume s2: "at_node F ?t h (set (v # ts)) (\<lambda>x. act_state x = kRunning \<and> ?K (act_kind x)) l1 s2"
    have "goes n ?t h (signed_by r w) l' kRunning s2 (onIfActionFinished n a ok why tr s2)"
      unfolding onIfActionFinished_def
    proof (rule handled_body [OF s2])
      fix s3
      let ?P = "\<lambda>z. \<exists>x. (act_state x = kRunning \<and> ?K (act_kind x)) \<and> z = x\<lparr>curr_action := None\<rparr>"
      assume s3: "at_node F ?t h (set (v # ts)) ?P l1 s3"
      have taken: "goes n ?t h (signed_by r w) l' kRunning s3 (start_child (act_start n) a (Some (root v)) s3)" if ok: ok
        by (rule goes_last [where i = "Suc (length pre)", OF yes [OF ok] s3])
           (use deep even in \<open>auto simp: handler_def nth_append\<close>)
      have more: "goes n ?t h (signed_by r w) l' kRunning s3 (set_kind a (IfThen ?ps (length pre div 2 + 1) None) s3 \<bind> ifthen_doStart n (act_start n) a)"
        if ok: "\<not> ok"
      proof (rule kind_body [OF s3])
        fix s4
        assume s4: "at_node F ?t h (set (v # ts)) (\<lambda>z. \<exists>x. ?P x \<and> z = x\<lparr>act_kind := IfThen ?ps (length pre div 2 + 1) None\<rparr>) l1 s4"
        have "at_node F ?t h (set (v # ts)) (\<lambda>x. act_state x = kRunning \<and> act_kind x = IfThen ?ps (length pre div 2 + 1) None) l1 s4"
          by (rule at_node_weaken [OF s4]) auto
        then have s5: "at_node F (Node a w SBranches ((pre @ [u, v]) @ ts)) h (set (v # ts)) (\<lambda>x. act_state x = kRunning \<and>
            act_kind x = IfThen (pairs (map root ((pre @ [u, v]) @ ts))) (length (pre @ [u, v]) div 2) None) l1 s4"
          using half by (simp only: append_assoc append.simps)
        have "goes n (Node a w SBranches ((pre @ [u, v]) @ ts)) h (signed_by r w) l' kRunning s4 (ifthen_doStart n (act_start n) a s4)"
          by (rule branch_contractD [OF no [OF ok] at_node_fewer [OF s5]]) (use deep even in auto)
        then show "goes n ?t h (signed_by r w) l' kRunning s4 (ifthen_doStart n (act_start n) a s4)"
          by (simp only: append_assoc append.simps)
      qed (use s3 in \<open>auto simp: fits_def at_node_def\<close>)
      show "goes n ?t h (signed_by r w) l' kRunning s3 (objs s3 a \<bind> (\<lambda>x. case act_kind x of
         IfThen ps i tmp \<Rightarrow>
           if ok then (if i < length ps then start_child (act_start n) a (Some (snd (ps ! i))) s3 else None)
           else do {
             s1 \<leftarrow> set_kind a (IfThen ps (i + 1) tmp) s3;
             ifthen_doStart n (act_start n) a s1 }
         | _ \<Rightarrow> None))"
        by (rule read_body [OF s3]) (use taken more ps in auto)
    qed simp
    then show "goes n ?t h (signed_by r w) l' kRunning s2 (run_fin n (handler SBranches a (length pre)) ok why tr s2)"
      using even by (simp add: handler_def run_fin_def)
  qed auto
  have "goes n ?t h (signed_by r w) l' st s (start_child (act_start m) a (Some (root u)) s)"
    by (rule goes_start_child [OF s refl _ _ b]) (use st kids in auto)
  then show "goes n ?t h (signed_by r w) l' st s (ifthen_doStart k (act_start m) a s)"
    unfolding ifthen_doStart_def
    by (intro read_body [OF s]) (use ps in auto)
qed

lemma branch_computes:
  assumes c: "branch_contract F ts l r l'"
  shows "computes F (Node a w SBranches ts) l (signed_by r w) l'"
proof (rule computes_node)
  fix m n h s
  let ?t = "Node a w SBranches ts"
  assume s: "at_node F ?t h (set ts) is_fresh l s"
    and deep: "\<forall>v \<in> set ts. deep m v" "\<forall>v \<in> set ts. deep n v"
  obtain x where x: "objs s a = Some x" "fits SBranches (map root ts) (act_kind x)"
    using s by (auto simp: at_node_def)
  then obtain i where k: "act_kind x = IfThen (pairs (map root ts)) i None"
    by (auto simp: fits_def split: kind.splits)
  have "goes n ?t h (signed_by r w) l' kIdle s (set_kind a (IfThen (pairs (map root ts)) 0 None) s \<bind> ifthen_doStart m (act_start m) a)"
  proof (rule kind_body [OF s])
    fix s'
    assume s': "at_node F ?t h (set ts) (\<lambda>z. \<exists>x. is_fresh x \<and> z = x\<lparr>act_kind := IfThen (pairs (map root ts)) 0 None\<rparr>) l s'"
    have s2: "at_node F ?t h (set ts) (\<lambda>x. act_state x = kIdle \<and> act_kind x = IfThen (pairs (map root ts)) 0 None) l s'"
      by (rule at_node_weaken [OF s']) (auto simp: is_fresh_def)
    have s3: "at_node F (Node a w SBranches ([] @ ts)) h (set ts) (\<lambda>x. act_state x = kIdle \<and>
        act_kind x = IfThen (pairs (map root ([] @ ts))) (length ([] :: bt list) div 2) None) l s'"
      using s2 by (simp only: append_Nil list.size div_0)
    have "goes n (Node a w SBranches ([] @ ts)) h (signed_by r w) l' kIdle s' (ifthen_doStart m (act_start m) a s')"
      by (rule branch_contractD [OF c s3]) (use deep in auto)
    then show "goes n ?t h (signed_by r w) l' kIdle s' (ifthen_doStart m (act_start m) a s')"
      by (simp only: append_Nil)
  qed (use x k in \<open>auto simp: fits_def\<close>)
  then show "goes n ?t h (signed_by r w) l' kIdle s (on_start m (act_start m) a s)"
    using x k by (simp add: on_start_def ifthen_onStart_def)
qed

section \<open>Switch\<close>

definition switch_branch :: "string list \<Rightarrow> bt list \<Rightarrow> bt list \<Rightarrow> string \<Rightarrow> bt option" where
  "switch_branch ks vs ds m = (case map_of (zip ks vs) m of Some v \<Rightarrow> Some v | None \<Rightarrow> (case ds of [] \<Rightarrow> None | v # _ \<Rightarrow> Some v))"

lemma switch_branch_in: "switch_branch ks vs ds m = Some v \<Longrightarrow> v \<in> set (vs @ ds)"
  by (auto simp: switch_branch_def split: option.splits list.splits dest!: map_of_SomeD set_zip_rightD)

lemma switch_kind:
  assumes "fits (SSwitch ks d) (map root (u # vs @ ds)) k" and "length vs = length ks"
  shows "\<exists>dd. k = Switch (Some (root u)) (zip ks (map root vs)) dd \<and> opt_list dd = map root ds"
  using assms by (auto simp: fits_def append_eq_append_conv split: kind.splits)

lemma switch_target:
  assumes "opt_list dd = map root ds"
  shows "(case map_of (zip ks (map root vs)) m of Some c \<Rightarrow> Some c | None \<Rightarrow> dd) = map_option root (switch_branch ks vs ds m)"
proof -
  have "dd = (case ds of [] \<Rightarrow> None | v # _ \<Rightarrow> Some (root v))"
    using assms by (cases ds; cases dd) (auto simp: opt_list_def)
  moreover have "map_of (zip ks (map root vs)) m = map_option root (map_of (zip ks vs) m)"
    by (simp add: zip_map2 map_of_map)
  ultimately show ?thesis
    by (simp add: switch_branch_def split: option.split list.split)
qed

lemma switch_computes:
  assumes u: "computes F u l (ok, why, tr) l1" and vs: "length vs = length ks"
    and fail: "\<not> ok \<Longrightarrow> r = (False, reason_of 9 ''SwitchFail'', []) \<and> l' = l1"
    and skip: "\<lbrakk>ok; switch_branch ks vs ds (r_message why) = None\<rbrakk> \<Longrightarrow> r = (False, reason_of 8 ''SwitchSkip'', []) \<and> l' = l1"
    and taken: "\<And>v. \<lbrakk>ok; switch_branch ks vs ds (r_message why) = Some v\<rbrakk> \<Longrightarrow> computes F v l1 r l'"
  shows "computes F (Node a w (SSwitch ks d) (u # vs @ ds)) l (signed_by r w) l'"
proof (rule first_kid_computes [where K = "fits (SSwitch ks d) (map root (u # vs @ ds))" and u = u])
  fix m n h s
  let ?t = "Node a w (SSwitch ks d) (u # vs @ ds)" and ?K = "fits (SSwitch ks d) (map root (u # vs @ ds))"
  assume s: "at_node F ?t h (set (u # vs @ ds)) (\<lambda>x. act_state x = kIdle \<and> ?K (act_kind x)) l s"
    and deep: "\<forall>v \<in> set (u # vs @ ds). deep m v \<and> deep n v"
  have dist: "distinct (u # vs @ ds)"
    using s distinct_kids [of "u # vs @ ds"] by (simp add: at_node_def)
  show "begins F m n ?t h (set (u # vs @ ds) - {u}) u ?K (signed_by r w) l' s"
  proof (rule begins_child [where i = 0, OF u _ refl])
    show "ready F m n u (handler (SSwitch ks d) a 0) l s"
      using ready_kid [OF s, of 0] deep by simp
    show "distinct (addrs ?t)" using s by (simp add: at_node_def)
    fix s2
    assume s2: "at_node F ?t h (set (u # vs @ ds) - {u}) (\<lambda>x. act_state x = kRunning \<and> ?K (act_kind x)) l1 s2"
    have "goes n ?t h (signed_by r w) l' kRunning s2 (onSwitchActionFinished n a ok why tr s2)"
      unfolding onSwitchActionFinished_def
    proof (rule handled_body [OF s2])
      fix s3
      let ?P = "\<lambda>z. \<exists>x. (act_state x = kRunning \<and> ?K (act_kind x)) \<and> z = x\<lparr>curr_action := None\<rparr>"
      assume s3: "at_node F ?t h (set (u # vs @ ds) - {u}) ?P l1 s3"
      have fin: "goes n ?t h (False, why', [] @ [w]) l1 kRunning s3 (do_finish n a False why' [] s3)" for why'
        by (rule goes_finish [OF s3]) auto
      have go: "goes n ?t h (signed_by r w) l' kRunning s3 (start_child (act_start n) a (Some (root v)) s3)"
        if v: ok "switch_branch ks vs ds (r_message why) = Some v" for v
      proof -
        have vin: "v \<in> set (vs @ ds)" by (rule switch_branch_in [OF v(2)])
        obtain j where j: "j < length (vs @ ds)" "v = (vs @ ds) ! j"
          using vin unfolding in_set_conv_nth by blast
        show ?thesis
          by (rule goes_last [where i = "Suc j", OF taken [OF v] s3])
             (use j vin deep dist in \<open>auto simp: handler_def\<close>)
      qed
      show "goes n ?t h (signed_by r w) l' kRunning s3 (objs s3 a \<bind> (\<lambda>x. case act_kind x of
         Switch w cs d \<Rightarrow>
           if ok then
             (let c = (case map_of cs (r_message why) of Some c \<Rightarrow> Some c | None \<Rightarrow> d)
              in if c \<noteq> None then start_child (act_start n) a c s3
                 else do_finish n a False (reason_of 8 ''SwitchSkip'') [] s3)
           else do_finish n a False (reason_of 9 ''SwitchFail'') [] s3
       | _ \<Rightarrow> None))"
      proof (rule read_body [OF s3])
        fix x
        assume "?P x"
        then have "?K (act_kind x)" by auto
        then obtain dd where k: "act_kind x = Switch (Some (root u)) (zip ks (map root vs)) dd" and dd: "opt_list dd = map root ds"
          using switch_kind [OF _ vs] by blast
        show "goes n ?t h (signed_by r w) l' kRunning s3 (case act_kind x of
           Switch w cs d \<Rightarrow>
             if ok then
               (let c = (case map_of cs (r_message why) of Some c \<Rightarrow> Some c | None \<Rightarrow> d)
                in if c \<noteq> None then start_child (act_start n) a c s3
                   else do_finish n a False (reason_of 8 ''SwitchSkip'') [] s3)
             else do_finish n a False (reason_of 9 ''SwitchFail'') [] s3
         | _ \<Rightarrow> None)"
          using fin fail skip go
          by (cases ok; cases "switch_branch ks vs ds (r_message why)") (simp_all add: k switch_target [OF dd])
      qed
    qed simp
    then show "goes n ?t h (signed_by r w) l' kRunning s2 (run_fin n (handler (SSwitch ks d) a 0) ok why tr s2)"
      by (simp add: handler_def run_fin_def)
  qed auto
qed (auto simp: fits_def on_start_def switch_onStart_def split: kind.splits)

section \<open>Every rule\<close>

lemma map_of_zip_key: "length vs = length ks \<Longrightarrow> m \<notin> set ks \<Longrightarrow> map_of (zip ks vs) m = None"
  by (auto simp: map_of_eq_None_iff dest: set_zip_leftD)

lemma eval_computes:
  "eval F t l r l' \<Longrightarrow> computes F t l r l'"
  "eval_seq F mo ts l r0 r l' \<Longrightarrow> seq_contract F mo ts l r0 r l'"
  "eval_rep F rm k u l r l' \<Longrightarrow> rep_contract F rm k u l r l'"
  "eval_loop F lm u l r l' \<Longrightarrow> loop_contract F (SLoop lm) (LoopK lm (Some (root u))) [u] l r l'"
  "eval_while F b u v l r l' \<Longrightarrow> while_contract F b u v l r l'"
  "eval_branches F ts l r l' \<Longrightarrow> branch_contract F ts l r l'"
proof (induction rule: eval_eval_seq_eval_rep_eval_loop_eval_while_eval_branches.inducts)
  case (Fn f l ok why a w)
  then show ?case by (rule leaf_computes)
next
  case (Seq m ts l r l' a w)
  from Seq(2) show ?case by (rule seq_computes)
next
  case (Rep m t u l r l' a w)
  from Rep(2) show ?case by (rule rep_computes)
next
  case (Loop m u l r l' a w)
  from Loop(2) show ?case by (rule loop_computes)
next
  case (Wrap u l ok why tr l' a w m)
  from Wrap(2) show ?case by (rule wrap_computes)
next
  case (Comp u l r l' a w)
  from Comp(2) show ?case by (rule comp_computes)
next
  case (While b u v l r l' a w)
  from While(2) show ?case by (rule while_computes)
next
  case (IfBothThen u l q l1 v r l2 a w v')
  obtain why tr where q: "q = (why, tr)" by (cases q)
  show ?case
    by (rule cond_computes [OF IfBothThen.IH(2) [unfolded q]]) (use IfBothThen.IH(4) in \<open>auto simp: after_cond_def\<close>)
next
  case (IfBothElse u l q l1 v' r l2 a w v)
  obtain why tr where q: "q = (why, tr)" by (cases q)
  show ?case
    by (rule cond_computes [OF IfBothElse.IH(2) [unfolded q]]) (use IfBothElse.IH(4) in \<open>auto simp: after_cond_def numeral_2_eq_2\<close>)
next
  case (IfThenThen u l q l1 v r l2 a w)
  obtain why tr where q: "q = (why, tr)" by (cases q)
  show ?case
    by (rule cond_computes [OF IfThenThen.IH(2) [unfolded q]]) (use IfThenThen.IH(4) in \<open>auto simp: after_cond_def\<close>)
next
  case (IfThenNone u l why tr l1 a w v)
  have "computes F (Node a w SIfThen [u, v]) l (signed_by (True, why, tr) w) l1"
    by (rule cond_computes [OF IfThenNone(2)]) (auto simp: after_cond_def)
  then show ?case by simp
next
  case (IfElseElse u l q l1 v r l2 a w)
  obtain why tr where q: "q = (why, tr)" by (cases q)
  show ?case
    by (rule cond_computes [OF IfElseElse.IH(2) [unfolded q]]) (use IfElseElse.IH(4) in \<open>auto simp: after_cond_def\<close>)
next
  case (IfElseNone u l why tr l1 a w v)
  have "computes F (Node a w SIfElse [u, v]) l (signed_by (True, why, tr) w) l1"
    by (rule cond_computes [OF IfElseNone(2)]) (auto simp: after_cond_def)
  then show ?case by simp
next
  case (Branches ts l r l' a w)
  from Branches(2) show ?case by (rule branch_computes)
next
  case (SwitchCase u l why tr l1 vs ks v r l2 ds d a w)
  show ?case
    by (rule switch_computes [OF SwitchCase.IH(2) SwitchCase.hyps(1)]) (use SwitchCase.hyps(2) SwitchCase.IH(4) in \<open>auto simp: switch_branch_def\<close>)
next
  case (SwitchDefault u l why tr l1 vs ks v r l2 a w)
  show ?case
    by (rule switch_computes [OF SwitchDefault.IH(2) SwitchDefault.hyps(1)])
      (use SwitchDefault.IH(4) map_of_zip_key [OF SwitchDefault.hyps(1) SwitchDefault.hyps(2)] in \<open>auto simp: switch_branch_def\<close>)
next
  case (SwitchSkip u l why tr l1 vs ks a w)
  have "computes F (Node a w (SSwitch ks False) (u # vs @ [])) l (signed_by (False, reason_of 8 ''SwitchSkip'', []) w) l1"
    by (rule switch_computes [OF SwitchSkip.IH(2) SwitchSkip.hyps(1)])
      (use map_of_zip_key [OF SwitchSkip.hyps(1) SwitchSkip.hyps(2)] in \<open>auto simp: switch_branch_def\<close>)
  then show ?case by simp
next
  case (SwitchFail u l why tr l1 vs ks ds d a w)
  have "computes F (Node a w (SSwitch ks d) (u # vs @ ds)) l (signed_by (False, reason_of 9 ''SwitchFail'', []) w) l1"
    by (rule switch_computes [OF SwitchFail.IH(2) SwitchFail.hyps(1)]) auto
  then show ?case by simp
next
  case (SeqEnd m l r)
  show ?case by (rule seq_end)
next
  case (SeqBreak t l ok q l1 m ts r)
  show ?case by (rule seq_step [OF SeqBreak.IH(2)]) (use SeqBreak.hyps(1) in auto)
next
  case (SeqNext t l ok q l1 m ts r' l2 r)
  show ?case by (rule seq_step [OF SeqNext.IH(2)]) (use SeqNext.hyps(1) SeqNext.IH(4) in auto)
next
  case (RepBreak u l ok q l1 m k)
  show ?case by (rule rep_step [OF RepBreak.IH(2)]) (use RepBreak.hyps(1) in auto)
next
  case (RepEnd u l ok q l1 m)
  show ?case by (rule rep_step [OF RepEnd.IH(2)]) (use RepEnd.hyps(1) in auto)
next
  case (RepNext u l ok q l1 m k r l2)
  show ?case by (rule rep_step [OF RepNext.IH(2)]) (use RepNext.hyps(1) RepNext.hyps(2) RepNext.IH(4) in auto)
next
  case (LoopEnd u l ok q l1 m)
  show ?case by (rule loop_step [OF LoopEnd.IH(2)]) (use LoopEnd.hyps(1) in auto)
next
  case (LoopNext u l ok q l1 m r l2)
  show ?case by (rule loop_step [OF LoopNext.IH(2)]) (use LoopNext.hyps(1) LoopNext.IH(4) in auto)
next
  case (WhileEnd u l q l1 b v)
  show ?case by (rule while_step [OF WhileEnd(2)]) auto
next
  case (WhileNext u l q l1 v r l2 b r' l3)
  show ?case by (rule while_step [OF WhileNext.IH(2)]) (use WhileNext.IH(4) WhileNext.IH(6) in auto)
next
  case (BranchesEnd l)
  show ?case by (rule branch_end)
next
  case (BranchTaken u l q l1 v r l2 ts)
  show ?case by (rule branch_step [OF BranchTaken.IH(2)]) (use BranchTaken.IH(4) in auto)
next
  case (BranchNext u l q l1 ts r l2 v)
  show ?case by (rule branch_step [OF BranchNext.IH(2)]) (use BranchNext.IH(4) in auto)
qed


definition child_of :: "addr \<Rightarrow> fin_cb \<Rightarrow> action \<Rightarrow> action" where
  "child_of a cb x = x\<lparr>finish_cb := cb, block_cb := BlockThis a, act_parent := Some a\<rparr>"

definition choice_store :: flow where
  "choice_store = fresh_flow [
      (11, (new_action 1 ''IfElse'' (IfElse (Some 12) (Some 14) (Some 15)))\<lparr>finish_cb := UserFin 0\<rparr>),
      (12, child_of 11 (CondFin 11) (new_action 2 ''Wrapper'' (Wrapper Invert (Some 13)))),
      (13, child_of 12 (WrapFin 12) (a_function 5)),
      (14, child_of 11 (LastFin 11) (a_function 6)),
      (15, child_of 11 (LastFin 11) (new_action 3 ''Sequence'' (Sequence AnySucc [16, 17] 0))),
      (16, child_of 15 (SeqFin 15) (a_function 7)),
      (17, child_of 15 (SeqFin 15) (a_function 8))]"

definition choice_tree :: bt where
  "choice_tree = (let w = \<lambda>a. case objs choice_store a of Some x \<Rightarrow> who_of x | None \<Rightarrow> undefined in
     Node 11 (w 11) SIfBoth [
       Node 12 (w 12) (SWrap Invert) [Node 13 (w 13) (SFn 5) []],
       Node 14 (w 14) (SFn 6) [],
       Node 15 (w 15) (SSeq AnySucc) [Node 16 (w 16) (SFn 7) [], Node 17 (w 17) (SFn 8) []]])"

lemma choice_objects [simp]:
  "objs choice_store 11 = Some ((new_action 1 ''IfElse'' (IfElse (Some 12) (Some 14) (Some 15)))\<lparr>finish_cb := UserFin 0\<rparr>)"
  "objs choice_store 12 = Some (child_of 11 (CondFin 11) (new_action 2 ''Wrapper'' (Wrapper Invert (Some 13))))"
  "objs choice_store 13 = Some (child_of 12 (WrapFin 12) (a_function 5))"
  "objs choice_store 14 = Some (child_of 11 (LastFin 11) (a_function 6))"
  "objs choice_store 15 = Some (child_of 11 (LastFin 11) (new_action 3 ''Sequence'' (Sequence AnySucc [16, 17] 0)))"
  "objs choice_store 16 = Some (child_of 15 (SeqFin 15) (a_function 7))"
  "objs choice_store 17 = Some (child_of 15 (SeqFin 15) (a_function 8))"
  "runq choice_store = []" "fl_log choice_store = []" "fn_call choice_store = (\<lambda>f l r. (f \<noteq> 0, r))"
  by (simp_all add: choice_store_def fresh_flow_def)


end
