(* ===== verification/Timeout_Monitor.thy ===== *)
theory Timeout_Monitor
  imports Cabinet
begin

text \<open>
  The timeout monitor of \<open>modules/eventx/timeout_monitor.hpp\<close>: a ring of poll items, one per tick of
  its timer, each holding the values added while it was the current one. The items are nodes of a
  store linked by \<open>next\<close>, as the code allocates them. The theorem is that the monitor is a queue of
  deadlines: a value is handed to the callback at the \<open>check_times\<close>-th tick after it was added and
  at no other, and the timer runs exactly while a value waits.
\<close>

section \<open>The monitor\<close>

type_synonym node = nat

record 'v poll_item =
  nxt :: "node ptr"
  items :: "'v list"

text \<open>What a callback does with the monitor: it may add values and clean the monitor up.\<close>

datatype 'v mon_call = CallAdd 'v | CallCleanup

text \<open>The members, the nodes allocated with \<open>new\<close> (none is handed out twice), whether the timer is
  enabled, whether a callback is set, and the values the callback was called with. The member
  \<open>cb_level_\<close> is only read by the destructor.\<close>

record 'v monitor =
  curr_item :: "node ptr"
  nodes :: "node \<Rightarrow> 'v poll_item option"
  new_node :: node
  value_number :: int
  mon_timer :: bool
  mon_cb :: bool
  handed :: "'v list"

definition mon_new :: "'v monitor" where
  "mon_new = \<lparr>curr_item = None, nodes = Map.empty, new_node = 0, value_number = 0, mon_timer = False,
     mon_cb = False, handed = []\<rparr>"

definition alloc_item :: "'v monitor \<Rightarrow> node \<times> 'v monitor" where
  "alloc_item s = (new_node s, s\<lparr>nodes := (nodes s)(new_node s \<mapsto> \<lparr>nxt = None, items = []\<rparr>), new_node := new_node s + 1\<rparr>)"

definition the_item :: "node ptr \<Rightarrow> 'v monitor \<Rightarrow> cxx_error + node \<times> 'v poll_item" where
  "the_item p s = (case p of
       None \<Rightarrow> Inl NullDeref
     | Some a \<Rightarrow> (case nodes s a of None \<Rightarrow> Inl UseAfterFree | Some x \<Rightarrow> Inr (a, x)))"

definition set_next :: "node \<Rightarrow> node ptr \<Rightarrow> 'v monitor \<Rightarrow> 'v monitor" where
  "set_next a p s = s\<lparr>nodes := (nodes s)(a := map_option (\<lambda>x. x\<lparr>nxt := p\<rparr>) (nodes s a))\<rparr>"

fun grow_ring :: "nat \<Rightarrow> node \<Rightarrow> 'v monitor \<Rightarrow> node \<times> 'v monitor" where
  "grow_ring 0 l s = (l, s)"
| "grow_ring (Suc k) l s = (let (a, s1) = alloc_item s in grow_ring k a (set_next l (Some a) s1))"

definition mon_initialize :: "int \<Rightarrow> 'v monitor \<Rightarrow> bool \<times> 'v monitor" where
  "mon_initialize check_times s =
     (if check_times < 1 then (False, s)
      else let (a, s1) = alloc_item (s\<lparr>mon_timer := False\<rparr>);
               (l, s2) = grow_ring (nat (check_times - 1)) a (s1\<lparr>curr_item := Some a\<rparr>)
           in (True, set_next l (Some a) s2))"

definition mon_setCallback :: "'v monitor \<Rightarrow> 'v monitor" where
  "mon_setCallback s = s\<lparr>mon_cb := True\<rparr>"

definition mon_add :: "'v \<Rightarrow> 'v monitor \<Rightarrow> cxx_error + 'v monitor" where
  "mon_add v s = (case the_item (curr_item s) s of
       Inl e \<Rightarrow> Inl e
     | Inr (a, x) \<Rightarrow> Inr (s\<lparr>nodes := (nodes s)(a \<mapsto> x\<lparr>items := items x @ [v]\<rparr>),
         mon_timer := mon_timer s \<or> value_number s = 0, value_number := value_number s + 1\<rparr>))"

text \<open>The loop that deletes the items follows \<open>next\<close>; the fuel is the number of nodes ever made.\<close>

fun free_ring :: "nat \<Rightarrow> node ptr \<Rightarrow> 'v monitor \<Rightarrow> cxx_error + 'v monitor" where
  "free_ring n None s = Inr s"
| "free_ring 0 (Some a) s = Inl UseAfterFree"
| "free_ring (Suc n) (Some a) s = (case the_item (Some a) s of
       Inl e \<Rightarrow> Inl e
     | Inr (a, x) \<Rightarrow> free_ring n (nxt x) (s\<lparr>nodes := (nodes s)(a := None)\<rparr>))"

definition mon_cleanup :: "'v monitor \<Rightarrow> cxx_error + 'v monitor" where
  "mon_cleanup s = (case curr_item s of
       None \<Rightarrow> Inr s
     | Some a \<Rightarrow>
         (let s1 = s\<lparr>mon_timer := mon_timer s \<and> \<not> value_number s > 0, value_number := 0\<rparr>
          in case the_item (curr_item s1) s1 of
               Inl e \<Rightarrow> Inl e
             | Inr (a, x) \<Rightarrow>
                 (case free_ring (new_node s) (nxt x) ((set_next a None s1)\<lparr>curr_item := None\<rparr>) of
                    Inl e \<Rightarrow> Inl e
                  | Inr s2 \<Rightarrow> Inr (s2\<lparr>mon_cb := False\<rparr>))))"

fun do_call :: "'v mon_call \<Rightarrow> 'v monitor \<Rightarrow> cxx_error + 'v monitor" where
  "do_call (CallAdd v) s = mon_add v s"
| "do_call CallCleanup s = mon_cleanup s"

fun mon_calls :: "'v mon_call list \<Rightarrow> 'v monitor \<Rightarrow> cxx_error + 'v monitor" where
  "mon_calls [] s = Inr s"
| "mon_calls (c # cs) s = (case do_call c s of Inl e \<Rightarrow> Inl e | Inr s1 \<Rightarrow> mon_calls cs s1)"

text \<open>\<open>cb_(value)\<close> for each value: a \<open>std::function\<close> without target throws \<open>bad_function_call\<close>.\<close>

fun hand_over :: "('v \<Rightarrow> 'v mon_call list) \<Rightarrow> 'v list \<Rightarrow> 'v monitor \<Rightarrow> cxx_error + 'v monitor" where
  "hand_over cb [] s = Inr s"
| "hand_over cb (v # vs) s =
     (if mon_cb s then
        (case mon_calls (cb v) (s\<lparr>handed := handed s @ [v]\<rparr>) of Inl e \<Rightarrow> Inl e | Inr s1 \<Rightarrow> hand_over cb vs s1)
      else Inl NullDeref)"

definition onTimerTick :: "('v \<Rightarrow> 'v mon_call list) \<Rightarrow> 'v monitor \<Rightarrow> cxx_error + 'v monitor" where
  "onTimerTick cb s = (case the_item (curr_item s) s of
       Inl e \<Rightarrow> Inl e
     | Inr (a, x) \<Rightarrow>
         (case the_item (nxt x) s of
            Inl e \<Rightarrow> Inl e
          | Inr (b, y) \<Rightarrow>
              (let n = value_number s - int (length (items y));
                   s1 = s\<lparr>curr_item := Some b, nodes := (nodes s)(b \<mapsto> y\<lparr>items := []\<rparr>),
                          value_number := n, mon_timer := mon_timer s \<and> n \<noteq> 0\<rparr>
               in if mon_cb s1 then hand_over cb (items y) s1 else Inr s1)))"

section \<open>The ring\<close>

definition ring_of :: "'v monitor \<Rightarrow> node list \<Rightarrow> bool" where
  "ring_of s as \<longleftrightarrow> as \<noteq> [] \<and> distinct as \<and> curr_item s = Some (hd as) \<and> dom (nodes s) = set as \<and>
     (\<forall>a \<in> set as. a < new_node s) \<and>
     (\<forall>i < length as. \<exists>x. nodes s (as ! i) = Some x \<and> nxt x = Some (as ! (Suc i mod length as)))"

definition slot :: "'v monitor \<Rightarrow> node \<Rightarrow> 'v list" where
  "slot s a = (case nodes s a of None \<Rightarrow> [] | Some x \<Rightarrow> items x)"

text \<open>\<open>initialize\<close> makes a ring of \<open>check_times\<close> empty items.\<close>

definition chain_of :: "'v monitor \<Rightarrow> node list \<Rightarrow> bool" where
  "chain_of s as \<longleftrightarrow> as \<noteq> [] \<and> distinct as \<and> (\<forall>a \<in> set as. a < new_node s) \<and>
     (\<forall>i < length as. \<exists>x. nodes s (as ! i) = Some x \<and> items x = [] \<and> (Suc i < length as \<longrightarrow> nxt x = Some (as ! Suc i)))"

lemma chain_grow:
  assumes "chain_of s as"
  shows "chain_of (set_next (last as) (Some (new_node s)) (snd (alloc_item s))) (as @ [new_node s])"
proof -
  have fresh: "new_node s \<notin> set as"
    using assms by (auto simp: chain_of_def)
  have last: "last as = as ! (length as - 1)" "as \<noteq> []"
    using assms by (auto simp: chain_of_def last_conv_nth)
  show ?thesis
    unfolding chain_of_def
  proof (intro conjI allI impI)
    fix i
    assume i: "i < length (as @ [new_node s])"
    show "\<exists>x. nodes (set_next (last as) (Some (new_node s)) (snd (alloc_item s))) ((as @ [new_node s]) ! i) = Some x \<and>
        items x = [] \<and> (Suc i < length (as @ [new_node s]) \<longrightarrow> nxt x = Some ((as @ [new_node s]) ! Suc i))"
    proof (cases "i < length as")
      case True
      then obtain x where x: "nodes s (as ! i) = Some x" "items x = []" "Suc i < length as \<longrightarrow> nxt x = Some (as ! Suc i)"
        using assms by (auto simp: chain_of_def)
      have eq: "as ! i = last as \<longleftrightarrow> Suc i = length as"
        using True last assms by (auto simp: chain_of_def nth_eq_iff_index_eq)
      have "as ! i \<noteq> new_node s" using fresh nth_mem [OF True] by auto
      then show ?thesis
        using x True fresh eq by (auto simp: set_next_def alloc_item_def nth_append)
    next
      case False
      then show ?thesis
        using i last fresh by (auto simp: set_next_def alloc_item_def nth_append)
    qed
  qed (use assms fresh in \<open>auto simp: chain_of_def set_next_def alloc_item_def\<close>)
qed

lemma grow_ring_chain:
  assumes "chain_of s as" and "dom (nodes s) = set as"
  shows "\<exists>bs. grow_ring k (last as) s = (last (as @ bs), snd (grow_ring k (last as) s)) \<and> length bs = k \<and>
     chain_of (snd (grow_ring k (last as) s)) (as @ bs) \<and> dom (nodes (snd (grow_ring k (last as) s))) = set (as @ bs) \<and>
     curr_item (snd (grow_ring k (last as) s)) = curr_item s \<and> value_number (snd (grow_ring k (last as) s)) = value_number s \<and>
     mon_timer (snd (grow_ring k (last as) s)) = mon_timer s \<and> mon_cb (snd (grow_ring k (last as) s)) = mon_cb s \<and>
     handed (snd (grow_ring k (last as) s)) = handed s"
  using assms
proof (induction k arbitrary: s as)
  case 0
  then show ?case by simp
next
  case (Suc k)
  let ?s = "set_next (last as) (Some (new_node s)) (snd (alloc_item s))"
  have c: "chain_of ?s (as @ [new_node s])"
    by (rule chain_grow [OF Suc.prems(1)])
  have "last as \<in> set as"
    using Suc.prems(1) by (simp add: chain_of_def)
  then have "nodes s (last as) \<noteq> None"
    using Suc.prems(2) by auto
  then have d: "dom (nodes ?s) = set (as @ [new_node s])"
    using Suc.prems(2) by (auto simp: set_next_def alloc_item_def split: if_splits)
  obtain bs where bs: "grow_ring k (new_node s) ?s = (last ((as @ [new_node s]) @ bs), snd (grow_ring k (new_node s) ?s))" "length bs = k"
    "chain_of (snd (grow_ring k (new_node s) ?s)) ((as @ [new_node s]) @ bs)"
    "dom (nodes (snd (grow_ring k (new_node s) ?s))) = set ((as @ [new_node s]) @ bs)"
    "curr_item (snd (grow_ring k (new_node s) ?s)) = curr_item ?s" "value_number (snd (grow_ring k (new_node s) ?s)) = value_number ?s"
    "mon_timer (snd (grow_ring k (new_node s) ?s)) = mon_timer ?s" "mon_cb (snd (grow_ring k (new_node s) ?s)) = mon_cb ?s"
    "handed (snd (grow_ring k (new_node s) ?s)) = handed ?s"
    using Suc.IH [OF c d] by auto
  have eq: "grow_ring (Suc k) (last as) s = grow_ring k (new_node s) ?s"
    by (simp add: alloc_item_def)
  have fr: "curr_item ?s = curr_item s" "value_number ?s = value_number s" "mon_timer ?s = mon_timer s" "mon_cb ?s = mon_cb s"
    "handed ?s = handed s"
    by (simp_all add: set_next_def alloc_item_def)
  show ?case
    unfolding eq using bs fr by (intro exI [where x = "new_node s # bs"]) simp
qed

section \<open>Deadlines\<close>

text \<open>The reference: the waiting values in the order of adding, each with the number of ticks left.\<close>

type_synonym 'v deadlines = "('v \<times> nat) list"

definition due_now :: "'v deadlines \<Rightarrow> 'v list" where
  "due_now d = map fst (filter (\<lambda>(v, k). k = 1) d)"

definition later :: "'v deadlines \<Rightarrow> 'v deadlines" where
  "later d = map (\<lambda>(v, k). (v, k - 1)) (filter (\<lambda>(v, k). k \<noteq> 1) d)"

datatype 'v mon_op = Add 'v | Tick

text \<open>In a tick the callbacks for the due values add the values \<open>adds\<close> gives.\<close>

fun deadline_step :: "nat \<Rightarrow> ('v \<Rightarrow> 'v list) \<Rightarrow> 'v mon_op \<Rightarrow> 'v deadlines \<times> 'v list \<Rightarrow> 'v deadlines \<times> 'v list" where
  "deadline_step n adds (Add v) (d, out) = (d @ [(v, n)], out)"
| "deadline_step n adds Tick (d, out) =
     (later d @ map (\<lambda>v. (v, n)) (concat (map adds (due_now d))), out @ due_now d)"

text \<open>The loop calls \<open>onTimerTick\<close> only while the timer is enabled.\<close>

fun mon_step :: "('v \<Rightarrow> 'v list) \<Rightarrow> 'v mon_op \<Rightarrow> 'v monitor \<Rightarrow> cxx_error + 'v monitor" where
  "mon_step adds (Add v) s = mon_add v s"
| "mon_step adds Tick s = (if mon_timer s then onTimerTick (\<lambda>v. map CallAdd (adds v)) s else Inr s)"

fun mon_run :: "('v \<Rightarrow> 'v list) \<Rightarrow> 'v mon_op list \<Rightarrow> 'v monitor \<Rightarrow> cxx_error + 'v monitor" where
  "mon_run adds [] s = Inr s"
| "mon_run adds (x # xs) s = (case mon_step adds x s of Inl e \<Rightarrow> Inl e | Inr s1 \<Rightarrow> mon_run adds xs s1)"

text \<open>The values in the slots of a ring, the current one first, with their ticks.\<close>

fun tagged :: "nat \<Rightarrow> 'v list list \<Rightarrow> 'v deadlines" where
  "tagged k [] = []"
| "tagged k (x # xs) = map (\<lambda>v. (v, k)) x @ tagged (Suc k) xs"

definition due :: "'v list list \<Rightarrow> 'v deadlines" where
  "due xs = tagged 1 (tl xs) @ map (\<lambda>v. (v, length xs)) (hd xs)"

lemma tagged_append: "tagged k (xs @ [x]) = tagged k xs @ map (\<lambda>v. (v, k + length xs)) x"
  by (induction xs arbitrary: k) auto

lemma due_tagged_later: "filter (\<lambda>(v, k). k = 1) (tagged (Suc (Suc k)) xs) = []"
  "map (\<lambda>(v, k). (v, k - 1)) (filter (\<lambda>(v, k). k \<noteq> 1) (tagged (Suc (Suc k)) xs)) = tagged (Suc k) xs"
  by (induction xs arbitrary: k) (auto simp: filter_map o_def)

lemma length_tagged: "length (tagged k xs) = length (concat xs)"
  by (induction xs arbitrary: k) auto

lemma length_due: "xs \<noteq> [] \<Longrightarrow> length (due xs) = length (concat xs)"
  by (cases xs) (auto simp: due_def length_tagged)

lemma due_tick:
  assumes "xs \<noteq> []"
  shows "due_now (due xs) = hd (tl xs @ [hd xs])" and "later (due xs) = due ([] # tl (tl xs @ [hd xs]))"
proof -
  obtain x xs' where xs: "xs = x # xs'" using assms by (cases xs) auto
  show "due_now (due xs) = hd (tl xs @ [hd xs])"
    using due_tagged_later(1) [of 0 "tl xs'"] 
    by (cases xs') (auto simp: xs due_def due_now_def filter_map o_def numeral_2_eq_2)
  show "later (due xs) = due ([] # tl (tl xs @ [hd xs]))"
    using due_tagged_later(2) [of 0 "tl xs'"]
    by (cases xs') (auto simp: xs due_def later_def filter_map o_def numeral_2_eq_2 tagged_append)
qed

lemma due_add: "due ((x @ [v]) # xs) = due (x # xs) @ [(v, Suc (length xs))]"
  by (simp add: due_def)

section \<open>The monitor is a queue of deadlines\<close>

definition mon_is :: "nat \<Rightarrow> 'v monitor \<Rightarrow> 'v deadlines \<Rightarrow> bool" where
  "mon_is n s d \<longleftrightarrow> (\<exists>as. ring_of s as \<and> length as = n \<and> d = due (map (slot s) as) \<and> value_number s = int (length d) \<and>
     mon_timer s = (d \<noteq> []))"

lemma mon_isI: "\<lbrakk>ring_of s as; length as = n; d = due (map (slot s) as); value_number s = int (length d); mon_timer s = (d \<noteq> [])\<rbrakk>
    \<Longrightarrow> mon_is n s d"
  unfolding mon_is_def by blast

lemma initialize_is:
  assumes "curr_item s = None" and "nodes s = Map.empty" and "value_number s = 0" and "1 \<le> n"
  shows "\<exists>s'. mon_initialize (int n) s = (True, s') \<and> mon_is n s' [] \<and> handed s' = handed s \<and> mon_cb s' = mon_cb s"
proof -
  let ?s1 = "snd (alloc_item (s\<lparr>mon_timer := False\<rparr>))\<lparr>curr_item := Some (new_node s)\<rparr>" and ?k = "nat (int n - 1)"
  have "chain_of ?s1 [new_node s]" "dom (nodes ?s1) = set [new_node s]"
    using assms by (auto simp: chain_of_def alloc_item_def)
  from grow_ring_chain [OF this, of ?k] obtain bs s2 where
    g: "grow_ring ?k (new_node s) ?s1 = (last (new_node s # bs), s2)" "length bs = ?k" and c: "chain_of s2 (new_node s # bs)"
    and d: "dom (nodes s2) = set (new_node s # bs)"
    and f: "curr_item s2 = Some (new_node s)" "value_number s2 = 0" "\<not> mon_timer s2" "mon_cb s2 = mon_cb s" "handed s2 = handed s"
    using assms(3) by (auto simp: alloc_item_def)
  let ?as = "new_node s # bs" and ?s' = "set_next (last (new_node s # bs)) (Some (new_node s)) s2"
  have len: "length ?as = n" using g(2) assms(4) by simp
  have eq: "mon_initialize (int n) s = (True, ?s')"
    using g(1) assms(4) by (simp add: mon_initialize_def alloc_item_def)
  have at: "\<exists>x. nodes ?s' (?as ! i) = Some x \<and> nxt x = Some (?as ! (Suc i mod length ?as)) \<and> items x = []" if i: "i < length ?as" for i
  proof -
    obtain x where x: "nodes s2 (?as ! i) = Some x" "items x = []" "Suc i < length ?as \<longrightarrow> nxt x = Some (?as ! Suc i)"
      using c i unfolding chain_of_def by blast
    have "?as ! i = last ?as \<longleftrightarrow> Suc i = length ?as"
      using i c nth_eq_iff_index_eq [of ?as i "length ?as - 1"] by (auto simp: chain_of_def last_conv_nth simp del: last.simps)
    then show ?thesis
      using x i by (cases "Suc i = length ?as") (auto simp: set_next_def simp del: last.simps)
  qed
  have dom: "dom (nodes ?s') = set ?as"
  proof -
    have "dom (nodes ?s') = dom (nodes s2)" by (auto simp: set_next_def split: if_splits)
    then show ?thesis using d by simp
  qed
  have "ring_of ?s' ?as"
    unfolding ring_of_def
  proof (intro conjI ballI allI impI)
    show "\<exists>x. nodes ?s' (?as ! i) = Some x \<and> nxt x = Some (?as ! (Suc i mod length ?as))" if "i < length ?as" for i
      using at [OF that] by blast
  qed (use c f dom in \<open>auto simp: chain_of_def set_next_def\<close>)
  moreover have "map (slot ?s') ?as = replicate n []"
  proof (rule nth_equalityI)
    show "map (slot ?s') ?as ! i = replicate n [] ! i" if "i < length (map (slot ?s') ?as)" for i
    proof -
      have i: "i < length ?as" using that by simp
      obtain x where "nodes ?s' (?as ! i) = Some x" "items x = []" using at [OF i] by blast
      then have "slot ?s' (?as ! i) = []" by (simp add: slot_def)
      then show ?thesis using i len by (simp only: nth_map nth_replicate length_map)
    qed
  qed (use len in simp)
  moreover have "due (replicate n []) = []"
  proof -
    have "tagged k (replicate m []) = []" for k m
      by (induction m arbitrary: k) auto
    then show ?thesis using assms(4) by (cases n) (auto simp: due_def)
  qed
  ultimately have "ring_of ?s' ?as" "[] = due (map (slot ?s') ?as)"
    by metis+
  moreover have "value_number ?s' = int (length [])" "mon_timer ?s' = ([] \<noteq> [])"
    using f by (simp_all add: set_next_def)
  ultimately have "mon_is n ?s' []"
    unfolding mon_is_def using len by blast
  then show ?thesis
    using eq f by (simp add: set_next_def)
qed

lemma slot_update: "slot (s\<lparr>nodes := (nodes s)(a \<mapsto> x), curr_item := p, value_number := v, mon_timer := t\<rparr>) b =
    (if b = a then items x else slot s b)"
  by (simp add: slot_def)

lemma add_is:
  assumes "mon_is n s d"
  shows "\<exists>s'. mon_add v s = Inr s' \<and> mon_is n s' (d @ [(v, n)]) \<and> handed s' = handed s \<and> mon_cb s' = mon_cb s"
proof -
  obtain a as where r: "ring_of s (a # as)" "length (a # as) = n" and d: "d = due (map (slot s) (a # as))"
    and num: "value_number s = int (length d)" "mon_timer s = (d \<noteq> [])"
    using assms unfolding mon_is_def ring_of_def by (metis list.exhaust)
  obtain x where x: "nodes s a = Some x"
    using r(1) unfolding ring_of_def by fastforce
  let ?s' = "s\<lparr>nodes := (nodes s)(a \<mapsto> x\<lparr>items := items x @ [v]\<rparr>),
         mon_timer := mon_timer s \<or> value_number s = 0, value_number := value_number s + 1\<rparr>"
  have eq: "mon_add v s = Inr ?s'"
    using r(1) x by (simp add: mon_add_def the_item_def ring_of_def)
  have a: "a \<notin> set as" using r(1) by (simp add: ring_of_def)
  have slots: "map (slot ?s') (a # as) = (slot s a @ [v]) # map (slot s) as"
    using x a by (auto simp: slot_def)
  have "due (map (slot ?s') (a # as)) = d @ [(v, n)]"
    unfolding slots using r(2) by (simp add: d due_add)
  moreover have "ring_of ?s' (a # as)"
  proof -
    have dm: "dom (nodes ?s') = dom (nodes s)" using x by auto
    have "\<exists>y. nodes ?s' b = Some y \<and> nxt y = p" if "\<exists>y. nodes s b = Some y \<and> nxt y = p" for b p
      using that x by auto
    then show ?thesis
      using r(1) dm unfolding ring_of_def by simp
  qed
  ultimately have "mon_is n ?s' (d @ [(v, n)])"
    unfolding mon_is_def using r(2) num by (intro exI [where x = "a # as"]) simp
  then show ?thesis using eq by simp
qed

lemma calls_is:
  assumes "mon_is n s d"
  shows "\<exists>s'. mon_calls (map CallAdd vs) s = Inr s' \<and> mon_is n s' (d @ map (\<lambda>v. (v, n)) vs) \<and> handed s' = handed s \<and> mon_cb s' = mon_cb s"
  using assms
proof (induction vs arbitrary: s d)
  case (Cons v vs)
  obtain s1 where s1: "mon_add v s = Inr s1" "mon_is n s1 (d @ [(v, n)])" "handed s1 = handed s" "mon_cb s1 = mon_cb s"
    using add_is [OF Cons.prems] by blast
  then show ?case
    using Cons.IH [OF s1(2)] by auto
qed auto

lemma hand_over_is:
  assumes "mon_is n s d" and "mon_cb s"
  shows "\<exists>s'. hand_over (\<lambda>v. map CallAdd (adds v)) vs s = Inr s' \<and> mon_is n s' (d @ map (\<lambda>v. (v, n)) (concat (map adds vs))) \<and>
     handed s' = handed s @ vs \<and> mon_cb s'"
  using assms
proof (induction vs arbitrary: s d)
  case (Cons v vs)
  have "mon_is n (s\<lparr>handed := handed s @ [v]\<rparr>) d"
    using Cons.prems(1) unfolding mon_is_def ring_of_def slot_def by simp
  then obtain s1 where s1: "mon_calls (map CallAdd (adds v)) (s\<lparr>handed := handed s @ [v]\<rparr>) = Inr s1"
    "mon_is n s1 (d @ map (\<lambda>v. (v, n)) (adds v))" "handed s1 = handed s @ [v]" "mon_cb s1"
    using calls_is [of n _ d "adds v"] Cons.prems(2) by fastforce
  then show ?case
    using Cons.IH [OF s1(2,4)] Cons.prems(2) by auto
qed auto

lemma tick_is:
  assumes "mon_is n s d" and "mon_cb s"
  shows "\<exists>s'. onTimerTick (\<lambda>v. map CallAdd (adds v)) s = Inr s' \<and>
     mon_is n s' (later d @ map (\<lambda>v. (v, n)) (concat (map adds (due_now d)))) \<and> handed s' = handed s @ due_now d \<and> mon_cb s'"
proof -
  obtain as where r: "ring_of s as" "length as = n" and d: "d = due (map (slot s) as)"
    and num: "value_number s = int (length d)" "mon_timer s = (d \<noteq> [])"
    using assms(1) unfolding mon_is_def by blast
  let ?bs = "tl as @ [hd as]"
  have ne: "as \<noteq> []" and dist: "distinct as" using r(1) by (auto simp: ring_of_def)
  have dist': "distinct ?bs" "set ?bs = set as"
    using dist ne by (cases as, auto)+
  have at: "\<exists>x. nodes s (as ! i) = Some x \<and> nxt x = Some (as ! (Suc i mod length as))" if "i < length as" for i
    using r(1) that by (simp add: ring_of_def)
  have rot: "?bs ! i = as ! (Suc i mod length as)" if "i < length as" for i
  proof -
    obtain a cs where as: "as = a # cs" using ne by (cases as) auto
    show ?thesis
      using that by (cases "i = length cs") (auto simp: as nth_append)
  qed
  obtain x where x: "nodes s (hd as) = Some x" "nxt x = Some (hd ?bs)"
    using at [of 0] rot [of 0] ne by (auto simp: hd_conv_nth)
  have "hd ?bs \<in> dom (nodes s)" using r(1) dist'(2) list.set_sel(1) [of ?bs] by (simp add: ring_of_def)
  then obtain y where y: "nodes s (hd ?bs) = Some y" by blast
  have tls: "tl (map (slot s) as) @ [hd (map (slot s) as)] = map (slot s) ?bs"
    using ne by (cases as) auto
  have ms: "map (slot s) as \<noteq> []" using ne by simp
  have "due_now d = slot s (hd ?bs)"
    unfolding d due_tick(1) [OF ms] tls by (rule list.map_sel) simp
  then have items: "items y = due_now d"
    using y by (simp add: slot_def)
  let ?n = "value_number s - int (length (items y))"
  let ?s = "s\<lparr>curr_item := Some (hd ?bs), nodes := (nodes s)(hd ?bs \<mapsto> y\<lparr>items := []\<rparr>),
     value_number := ?n, mon_timer := mon_timer s \<and> ?n \<noteq> 0\<rparr>"
  have tick: "onTimerTick cb s = (if mon_cb s then hand_over cb (items y) ?s else Inr ?s)" for cb
    using r(1) x y by (simp add: onTimerTick_def the_item_def ring_of_def Let_def)
  have slots: "map (slot ?s) ?bs = [] # tl (map (slot s) ?bs)"
  proof -
    obtain b bs where bs: "?bs = b # bs" "b \<notin> set bs" using dist'(1) by (cases ?bs) auto
    then show ?thesis by (auto simp: slot_def)
  qed
  have later: "later d = due (map (slot ?s) ?bs)"
    unfolding d due_tick(2) [OF ms] tls slots ..
  have count: "length d = length (due_now d) + length (later d)"
    using sum_length_filter_compl [of "\<lambda>(v, k). k = 1" d] by (simp add: due_now_def later_def case_prod_unfold)
  have "ring_of ?s ?bs"
    unfolding ring_of_def
  proof (intro conjI allI impI)
    fix i
    assume i: "i < length ?bs"
    then have i': "i < length as" "Suc i mod length as < length as" using ne by (cases as; simp)+
    obtain z where z: "nodes s (as ! (Suc i mod length as)) = Some z" "nxt z = Some (as ! (Suc (Suc i mod length as) mod length as))"
      using at [OF i'(2)] by blast
    have "?bs ! (Suc i mod length ?bs) = as ! (Suc (Suc i mod length as) mod length as)"
      using rot [OF i'(2)] ne by (cases as) auto
    then show "\<exists>x. nodes ?s (?bs ! i) = Some x \<and> nxt x = Some (?bs ! (Suc i mod length ?bs))"
      using z rot [OF i'(1)] y by auto
  next
    show "dom (nodes ?s) = set ?bs"
      using r(1) dist'(2) y by (auto simp: ring_of_def)
    show "\<forall>a \<in> set ?bs. a < new_node ?s"
      using r(1) dist'(2) by (auto simp: ring_of_def)
  qed (use dist' in auto)
  moreover have "length ?bs = n" using r(2) ne by (cases as) auto
  moreover have n: "value_number ?s = int (length (later d))" using num(1) count items by simp
  moreover have "mon_timer ?s = (later d \<noteq> [])"
    using num(2) n by (auto simp: later_def)
  ultimately have rel: "mon_is n ?s (later d)"
    using later by (blast intro: mon_isI)
  show ?thesis
    using hand_over_is [OF rel, of adds "due_now d"] assms(2) tick items by simp
qed

section \<open>Clean up\<close>

fun linked :: "(node \<Rightarrow> 'v poll_item option) \<Rightarrow> node ptr \<Rightarrow> node list \<Rightarrow> bool" where
  "linked m p [] \<longleftrightarrow> p = None"
| "linked m p (b # bs) \<longleftrightarrow> p = Some b \<and> (\<exists>x. m b = Some x \<and> linked m (nxt x) bs)"

lemma linked_cong: "(\<And>b. b \<in> set bs \<Longrightarrow> m b = m' b) \<Longrightarrow> linked m p bs = linked m' p bs"
  by (induction bs arbitrary: p) auto

lemma free_ring_linked:
  assumes "linked (nodes s) p bs" and "distinct bs" and "length bs \<le> n"
  shows "\<exists>s'. free_ring n p s = Inr s' \<and> s' = s\<lparr>nodes := nodes s |` (- set bs)\<rparr>"
  using assms
proof (induction bs arbitrary: n p s)
  case Nil
  then show ?case by (cases n) auto
next
  case (Cons b bs)
  then obtain m x where n: "n = Suc m" and p: "p = Some b" and x: "nodes s b = Some x" "linked (nodes s) (nxt x) bs"
    by (cases n) auto
  let ?s = "s\<lparr>nodes := (nodes s)(b := None)\<rparr>"
  have "linked (nodes ?s) (nxt x) bs"
    using x(2) Cons.prems(2) by (subst linked_cong [where m' = "nodes s"]) auto
  then have "\<exists>s'. free_ring m (nxt x) ?s = Inr s' \<and> s' = ?s\<lparr>nodes := nodes ?s |` (- set bs)\<rparr>"
    by (rule Cons.IH) (use Cons.prems(2,3) n in simp_all)
  then obtain s' where "free_ring m (nxt x) ?s = Inr s'" "s' = ?s\<lparr>nodes := nodes ?s |` (- set bs)\<rparr>"
    by blast
  moreover have "(nodes s)(b := None) |` (- set bs) = nodes s |` (- set (b # bs))"
    by (rule ext) (auto simp: restrict_map_def)
  ultimately show ?case
    using n p x by (simp add: the_item_def)
qed

lemma linked_nth:
  assumes "bs \<noteq> []" and "\<forall>i < length bs. \<exists>x. m (bs ! i) = Some x \<and> nxt x = (if Suc i < length bs then Some (bs ! Suc i) else None)"
  shows "linked m (Some (hd bs)) bs"
  using assms
proof (induction bs)
  case (Cons b bs)
  obtain x where x: "m b = Some x" "nxt x = (if Suc 0 < length (b # bs) then Some ((b # bs) ! Suc 0) else None)"
    using Cons.prems(2) [rule_format, of 0] by auto
  show ?case
  proof (cases "bs = []")
    case True
    then show ?thesis using x by simp
  next
    case False
    have "linked m (Some (hd bs)) bs"
      by (rule Cons.IH [OF False]) (use Cons.prems(2) in fastforce)
    then show ?thesis using x False by (simp add: hd_conv_nth)
  qed
qed simp

lemma cleanup_ring:
  assumes r: "ring_of s as"
  shows "\<exists>s'. mon_cleanup s = Inr s' \<and> nodes s' = Map.empty \<and> curr_item s' = None \<and> value_number s' = 0 \<and>
     mon_timer s' = (mon_timer s \<and> \<not> value_number s > 0) \<and> \<not> mon_cb s' \<and> handed s' = handed s"
proof -
  obtain a bs where as: "as = a # bs" using r by (cases as) (auto simp: ring_of_def)
  let ?cs = "bs @ [a]"
  have at: "\<exists>x. nodes s (as ! i) = Some x \<and> nxt x = Some (as ! (Suc i mod length as))" if "i < length as" for i
    using r that by (simp add: ring_of_def)
  have dist: "distinct ?cs" using r by (auto simp: ring_of_def as)
  let ?s1 = "s\<lparr>mon_timer := mon_timer s \<and> \<not> value_number s > 0, value_number := 0\<rparr>"
  let ?s2 = "(set_next a None ?s1)\<lparr>curr_item := None\<rparr>"
  obtain x where x: "nodes s a = Some x" "nxt x = Some (hd ?cs)"
    using at [of 0] by (cases bs) (auto simp: as hd_conv_nth)
  have "linked (nodes ?s2) (Some (hd ?cs)) ?cs"
  proof (rule linked_nth)
    show "\<forall>i < length ?cs. \<exists>x. nodes ?s2 (?cs ! i) = Some x \<and> nxt x = (if Suc i < length ?cs then Some (?cs ! Suc i) else None)"
    proof (intro allI impI)
      fix i
      assume i: "i < length ?cs"
      show "\<exists>x. nodes ?s2 (?cs ! i) = Some x \<and> nxt x = (if Suc i < length ?cs then Some (?cs ! Suc i) else None)"
      proof (cases "i = length bs")
        case True
        then show ?thesis using x by (simp add: set_next_def)
      next
        case False
        then have j: "i < length bs" using i by simp
        obtain y where y: "nodes s (bs ! i) = Some y" "nxt y = Some (as ! (Suc (Suc i) mod length as))"
          using at [of "Suc i"] j by (auto simp: as)
        have "as ! (Suc (Suc i) mod length as) = ?cs ! Suc i"
          using j by (cases "Suc i = length bs") (auto simp: as nth_append)
        moreover have "bs ! i \<noteq> a" using dist nth_mem [OF j] by auto
        ultimately show ?thesis using y j by (simp add: set_next_def nth_append)
      qed
    qed
  qed simp
  moreover have "length ?cs \<le> new_node s"
  proof -
    have "set as \<subseteq> {..<new_node s}" using r by (auto simp: ring_of_def)
    then have "card (set as) \<le> new_node s" using card_mono [of "{..<new_node s}"] by fastforce
    then show ?thesis using r distinct_card [of as] by (simp add: ring_of_def as)
  qed
  ultimately obtain s' where s': "free_ring (new_node s) (Some (hd ?cs)) ?s2 = Inr s'" "s' = ?s2\<lparr>nodes := nodes ?s2 |` (- set ?cs)\<rparr>"
    using free_ring_linked [OF _ dist] by blast
  have "nodes s' = Map.empty"
  proof (rule ext)
    fix b
    have "dom (nodes s) = set ?cs" using r by (auto simp: ring_of_def as)
    then show "nodes s' b = None" by (auto simp: s'(2) set_next_def restrict_map_def domIff)
  qed
  then show ?thesis
    using r x s' as by (simp add: mon_cleanup_def the_item_def ring_of_def set_next_def)
qed

section \<open>Properties\<close>

lemma tagged_bounds: "(v, k) \<in> set (tagged j xs) \<Longrightarrow> j \<le> k \<and> k < j + length xs"
  by (induction xs arbitrary: j) fastforce+

lemma mon_is_bounds:
  assumes "mon_is n s d" and "(v, k) \<in> set d"
  shows "1 \<le> k \<and> k \<le> n"
proof -
  obtain as where as: "as \<noteq> []" "length as = n" "d = due (map (slot s) as)"
    using assms(1) unfolding mon_is_def ring_of_def by blast
  then show ?thesis
    using assms(2) tagged_bounds [of v k 1 "tl (map (slot s) as)"] by (cases as) (auto simp: due_def)
qed

lemma concat_no_calls: "concat (map (\<lambda>t. []) xs) = []"
  by (induction xs) auto

lemma later_covers: "fst ` set d - set (due_now d) \<subseteq> fst ` set (later d)"
  by (force simp: due_now_def later_def image_iff)

lemma mon_run_is:
  assumes "mon_is n s d" and "mon_cb s"
  shows "\<exists>s'. mon_run adds ops s = Inr s' \<and> mon_is n s' (fst (fold (deadline_step n adds) ops (d, handed s))) \<and>
     handed s' = snd (fold (deadline_step n adds) ops (d, handed s)) \<and> mon_cb s'"
  using assms
proof (induction ops arbitrary: s d)
  case (Cons x ops)
  have "\<exists>s1. mon_step adds x s = Inr s1 \<and> mon_is n s1 (fst (deadline_step n adds x (d, handed s))) \<and>
      handed s1 = snd (deadline_step n adds x (d, handed s)) \<and> mon_cb s1"
  proof (cases x)
    case (Add v)
    then show ?thesis using add_is [OF Cons.prems(1), of v] Cons.prems(2) by auto
  next
    case Tick
    show ?thesis
    proof (cases "mon_timer s")
      case True
      then show ?thesis using Tick tick_is [OF Cons.prems, of adds] by auto
    next
      case False
      then have "d = []" using Cons.prems(1) by (auto simp: mon_is_def)
      then show ?thesis using Tick False Cons.prems by (simp add: due_now_def later_def)
    qed
  qed
  then obtain s1 where s1: "mon_step adds x s = Inr s1" "mon_is n s1 (fst (deadline_step n adds x (d, handed s)))"
      "handed s1 = snd (deadline_step n adds x (d, handed s))" "mon_cb s1"
    by blast
  then show ?case
    using Cons.IH [OF s1(2,4)] by simp
qed auto

text \<open>(C18) A monitor initialised with \<open>n\<close> check times, whatever values are added to it between ticks and by
  the callbacks: no operation fails, the callback gets exactly the values that a list of countdowns
  hands out (each value counts down from \<open>n\<close> and is handed out, in the order of adding, in the tick
  that takes it to zero), and the timer is enabled exactly while a value waits.\<close>

theorem monitor_is_countdown:
  assumes "1 \<le> n"
  shows "\<exists>s. mon_run adds ops (mon_setCallback (snd (mon_initialize (int n) mon_new))) = Inr s \<and>
     (let (d, out) = fold (deadline_step n adds) ops ([], []) in handed s = out \<and> (mon_timer s \<longleftrightarrow> d \<noteq> []))"
proof -
  obtain s0 where s0: "mon_initialize (int n) (mon_new :: 'a monitor) = (True, s0)" "mon_is n s0 []" "handed s0 = []"
    using initialize_is [of "mon_new :: 'a monitor" n] assms by (auto simp: mon_new_def)
  have "mon_is n (mon_setCallback s0) []"
    using s0(2) unfolding mon_is_def mon_setCallback_def ring_of_def slot_def by simp
  from mon_run_is [OF this, of adds ops] obtain s where
    "mon_run adds ops (mon_setCallback s0) = Inr s" "mon_is n s (fst (fold (deadline_step n adds) ops ([], [])))"
    "handed s = snd (fold (deadline_step n adds) ops ([], []))"
    using s0(3) by (auto simp: mon_setCallback_def)
  then show ?thesis
    using s0(1) by (auto simp: mon_is_def split: prod.split)
qed

lemma monitor_is_countdown_witness:
  "\<exists>s. mon_run (\<lambda>v. if v = 7 then [8] else []) [Add (7 :: nat), Tick, Add 9, Tick, Tick, Tick]
       (mon_setCallback (snd (mon_initialize 2 mon_new))) = Inr s \<and> handed s = [7, 9, 8] \<and> \<not> mon_timer s"
  using monitor_is_countdown [of 2 "\<lambda>v. if v = 7 then [8] else []" "[Add (7 :: nat), Tick, Add 9, Tick, Tick, Tick]"]
  by (simp add: due_now_def later_def)

text \<open>A callback that cleans the monitor up empties \<open>cb_\<close>; the next value of the same tick is then handed
  to an empty \<open>std::function\<close>.\<close>

lemma cleanup_in_callback_throws:
  "(let s0 = mon_setCallback (snd (mon_initialize 1 mon_new)) in
     case mon_add (1 :: nat) s0 of Inl e \<Rightarrow> False | Inr s1 \<Rightarrow>
       (case mon_add 2 s1 of Inl e \<Rightarrow> False | Inr s2 \<Rightarrow> (case onTimerTick (\<lambda>v. [CallCleanup]) s2 of Inl e \<Rightarrow> e = NullDeref | Inr s3 \<Rightarrow> False)))"
  by code_simp

end
