(* ===== verification/Request_Pool.thy ===== *)
theory Request_Pool
  imports Timeout_Monitor
begin

text \<open>
  The request pool of \<open>modules/eventx/request_pool.hpp\<close>: a cabinet of request contexts whose tokens a
  timeout monitor watches. The pool is a client of the token store and of the monitor. The user's
  timeout action does not call the pool. The theorem accounts for every context that is handed in.
\<close>

section \<open>The pool\<close>

record 'a req_pool =
  req_cab :: "'a cabinet"
  req_mon :: "token monitor"
  timed_out :: "'a list"      \<comment> \<open>given to the timeout action and deleted\<close>
  cleaned :: "'a list"        \<comment> \<open>deleted by \<open>cleanup\<close>\<close>

definition req_new :: "'a req_pool" where
  "req_new = \<lparr>req_cab = cab_empty, req_mon = mon_new, timed_out = [], cleaned = []\<rparr>"

definition req_initialize :: "int \<Rightarrow> 'a req_pool \<Rightarrow> bool \<times> 'a req_pool" where
  "req_initialize check_times s = (let (ok, m) = mon_initialize check_times (req_mon s) in (ok, s\<lparr>req_mon := m\<rparr>))"

definition setTimeoutAction :: "'a req_pool \<Rightarrow> 'a req_pool" where
  "setTimeoutAction s = s\<lparr>req_mon := mon_setCallback (req_mon s)\<rparr>"

definition on_timeout :: "token \<Rightarrow> 'a req_pool \<Rightarrow> cxx_error + 'a req_pool" where
  "on_timeout t s = (case cab_free t (req_cab s) of
       Inl e \<Rightarrow> Inl e
     | Inr (p, c) \<Rightarrow> Inr (s\<lparr>req_cab := c, timed_out := timed_out s @ (case p of None \<Rightarrow> [] | Some x \<Rightarrow> [x])\<rparr>))"

fun on_timeouts :: "token list \<Rightarrow> 'a req_pool \<Rightarrow> cxx_error + 'a req_pool" where
  "on_timeouts [] s = Inr s"
| "on_timeouts (t # ts) s = (case on_timeout t s of Inl e \<Rightarrow> Inl e | Inr s1 \<Rightarrow> on_timeouts ts s1)"

text \<open>The tick of the monitor with the callback \<open>setTimeoutAction\<close> has installed.\<close>

definition req_tick :: "'a req_pool \<Rightarrow> cxx_error + 'a req_pool" where
  "req_tick s =
     (if mon_timer (req_mon s) then
        (case onTimerTick (\<lambda>t. []) (req_mon s) of
           Inl e \<Rightarrow> Inl e
         | Inr m \<Rightarrow> on_timeouts (drop (length (handed (req_mon s))) (handed m)) (s\<lparr>req_mon := m\<rparr>))
      else Inr s)"

definition newRequest :: "'a ptr \<Rightarrow> 'a req_pool \<Rightarrow> cxx_error + token \<times> 'a req_pool" where
  "newRequest p s = (case cab_alloc p (req_cab s) of
       Inl e \<Rightarrow> Inl e
     | Inr (t, c) \<Rightarrow> (case mon_add t (req_mon s) of
         Inl e \<Rightarrow> Inl e
       | Inr m \<Rightarrow> Inr (t, s\<lparr>req_cab := c, req_mon := m\<rparr>)))"

definition updateRequest :: "token \<Rightarrow> 'a ptr \<Rightarrow> 'a req_pool \<Rightarrow> bool \<times> 'a req_pool" where
  "updateRequest t p s = (let (ok, c) = cab_update t p (req_cab s) in (ok, s\<lparr>req_cab := c\<rparr>))"

definition removeRequest :: "token \<Rightarrow> 'a req_pool \<Rightarrow> cxx_error + 'a ptr \<times> 'a req_pool" where
  "removeRequest t s = (case cab_free t (req_cab s) of
       Inl e \<Rightarrow> Inl e
     | Inr (p, c) \<Rightarrow> Inr (p, s\<lparr>req_cab := c\<rparr>))"

definition req_cleanup :: "'a req_pool \<Rightarrow> cxx_error + 'a req_pool" where
  "req_cleanup s = (case mon_cleanup (req_mon s) of
       Inl e \<Rightarrow> Inl e
     | Inr m \<Rightarrow> (case cab_foreach (req_cab s) of
         Inl e \<Rightarrow> Inl e
       | Inr ps \<Rightarrow> Inr (s\<lparr>req_mon := m, cleaned := cleaned s @ concat (map (\<lambda>p. case p of None \<Rightarrow> [] | Some x \<Rightarrow> [x]) ps),
                        req_cab := cab_clear (req_cab s)\<rparr>)))"

section \<open>Runs\<close>

datatype 'a req_op = NewReq "'a ptr" | UpdateReq token "'a ptr" | RemoveReq token | ReqTick

text \<open>A run collects the contexts the user has got back from \<open>removeRequest\<close>, and those an
  \<open>updateRequest\<close> has replaced.\<close>

record 'a ledger =
  handed_in :: "'a list"
  got_back :: "'a list"
  replaced :: "'a list"

definition opt_list_of :: "'a ptr \<Rightarrow> 'a list" where
  "opt_list_of p = (case p of None \<Rightarrow> [] | Some x \<Rightarrow> [x])"

fun req_step :: "'a req_op \<Rightarrow> 'a req_pool \<times> 'a ledger \<Rightarrow> cxx_error + 'a req_pool \<times> 'a ledger" where
  "req_step (NewReq p) (s, g) = (case newRequest p s of
       Inl e \<Rightarrow> Inl e
     | Inr (t, s1) \<Rightarrow> Inr (s1, g\<lparr>handed_in := handed_in g @ opt_list_of p\<rparr>))"
| "req_step (UpdateReq t p) (s, g) = (case cab_at t (req_cab s) of
       Inl e \<Rightarrow> Inl e
     | Inr q \<Rightarrow> (let (ok, s1) = updateRequest t p s in
         Inr (s1, if ok then g\<lparr>handed_in := handed_in g @ opt_list_of p, replaced := replaced g @ opt_list_of q\<rparr> else g)))"
| "req_step (RemoveReq t) (s, g) = (case removeRequest t s of
       Inl e \<Rightarrow> Inl e
     | Inr (p, s1) \<Rightarrow> Inr (s1, g\<lparr>got_back := got_back g @ opt_list_of p\<rparr>))"
| "req_step ReqTick (s, g) = (case req_tick s of Inl e \<Rightarrow> Inl e | Inr s1 \<Rightarrow> Inr (s1, g))"

fun req_run :: "'a req_op list \<Rightarrow> 'a req_pool \<times> 'a ledger \<Rightarrow> cxx_error + 'a req_pool \<times> 'a ledger" where
  "req_run [] sg = Inr sg"
| "req_run (x # xs) sg = (case req_step x sg of Inl e \<Rightarrow> Inl e | Inr sg1 \<Rightarrow> req_run xs sg1)"

section \<open>The account\<close>

definition live :: "(token \<Rightarrow> 'a ptr option) \<Rightarrow> 'a multiset" where
  "live m = (\<Sum>t \<in> dom m. mset (opt_list_of (the (m t))))"

lemma live_upd: "\<lbrakk>finite (dom m); m t = None\<rbrakk> \<Longrightarrow> live (m(t \<mapsto> p)) = live m + mset (opt_list_of p)"
proof -
  assume m: "finite (dom m)" "m t = None"
  have "t \<notin> dom m" using m(2) by auto
  have "(\<Sum>u \<in> dom m. mset (opt_list_of (the ((m(t \<mapsto> p)) u)))) = live m"
    unfolding live_def by (rule sum.cong) (use m(2) in auto)
  then show ?thesis
    using m \<open>t \<notin> dom m\<close> by (simp add: live_def add.commute)
qed

lemma live_del:
  assumes "finite (dom m)" and "m t = Some p"
  shows "live m = live (m(t := None)) + mset (opt_list_of p)"
  using live_upd [of "m(t := None)" t p] assms by (simp add: fun_upd_idem)

lemma live_replace:
  assumes "finite (dom m)" and "m t = Some q"
  shows "live (m(t \<mapsto> p)) + mset (opt_list_of q) = live m + mset (opt_list_of p)"
  using live_upd [of "m(t := None)" t p] live_upd [of "m(t := None)" t q] assms by (simp add: fun_upd_idem)

definition pool_ok :: "nat \<Rightarrow> 'a req_pool \<Rightarrow> token deadlines \<Rightarrow> bool" where
  "pool_ok n s d \<longleftrightarrow> mon_is n (req_mon s) d \<and> mon_cb (req_mon s) \<and> cab_inv (req_cab s) \<and>
     dom (cab_lookup (req_cab s)) \<subseteq> fst ` set d"

definition accounted :: "'a req_pool \<Rightarrow> 'a ledger \<Rightarrow> bool" where
  "accounted s g \<longleftrightarrow> mset (handed_in g) =
     live (cab_lookup (req_cab s)) + mset (timed_out s) + mset (got_back g) + mset (replaced g)"

lemma finite_lookup: "cab_inv c \<Longrightarrow> finite (dom (cab_lookup c))"
  by (simp add: dom_cab_lookup)

lemma on_timeouts_ok:
  assumes "cab_inv (req_cab s)"
  shows "\<exists>s'. on_timeouts ts s = Inr s' \<and> cab_inv (req_cab s') \<and> cab_lookup (req_cab s') = cab_lookup (req_cab s) |` (- set ts) \<and>
     req_mon s' = req_mon s \<and>
     live (cab_lookup (req_cab s')) + mset (timed_out s') = live (cab_lookup (req_cab s)) + mset (timed_out s)"
  using assms
proof (induction ts arbitrary: s)
  case (Cons t ts)
  let ?m = "cab_lookup (req_cab s)"
  obtain c where c: "cab_free t (req_cab s) = Inr (case ?m t of Some p \<Rightarrow> p | None \<Rightarrow> None, c)" "cab_inv c"
      "cab_lookup c = ?m(t := None)"
    using cab.release_law [OF Cons.prems, of t] by blast
  let ?x = "opt_list_of (case ?m t of Some p \<Rightarrow> p | None \<Rightarrow> None)"
  let ?s = "s\<lparr>req_cab := c, timed_out := timed_out s @ ?x\<rparr>"
  have step: "on_timeout t s = Inr ?s"
    using c(1) by (simp add: on_timeout_def opt_list_of_def)
  have "live (?m(t := None)) + mset ?x = live ?m"
  proof (cases "?m t")
    case None
    then show ?thesis by (simp add: fun_upd_idem opt_list_of_def)
  next
    case (Some q)
    then show ?thesis using live_del [OF finite_lookup [OF Cons.prems] Some] by simp
  qed
  then have eq: "live (cab_lookup (req_cab ?s)) + mset (timed_out ?s) = live ?m + mset (timed_out s)"
    using c(3) by (simp add: ac_simps)
  have "cab_inv (req_cab ?s)" using c(2) by simp
  from Cons.IH [OF this] obtain s' where s': "on_timeouts ts ?s = Inr s'" "cab_inv (req_cab s')"
    "cab_lookup (req_cab s') = cab_lookup (req_cab ?s) |` (- set ts)" "req_mon s' = req_mon s"
    "live (cab_lookup (req_cab s')) + mset (timed_out s') = live ?m + mset (timed_out s)"
    using eq by auto
  have "?m(t := None) |` (- set ts) = ?m |` (- set (t # ts))"
    by (rule ext) (auto simp: restrict_map_def)
  then show ?case
    using s' step c(3) by simp
qed (auto simp: restrict_map_def)

lemma tick_ok:
  assumes "pool_ok n s d"
  shows "\<exists>s'. req_tick s = Inr s' \<and> pool_ok n s' (later d) \<and>
     live (cab_lookup (req_cab s')) + mset (timed_out s') = live (cab_lookup (req_cab s)) + mset (timed_out s)"
proof (cases "mon_timer (req_mon s)")
  case False
  then have "d = []" using assms by (auto simp: pool_ok_def mon_is_def)
  then show ?thesis using False assms by (simp add: req_tick_def later_def)
next
  case True
  obtain m where m: "onTimerTick (\<lambda>t. []) (req_mon s) = Inr m" "mon_is n m (later d)"
      "handed m = handed (req_mon s) @ due_now d" "mon_cb m"
    using tick_is [of n "req_mon s" d "\<lambda>t. []"] assms by (auto simp: pool_ok_def concat_no_calls)
  obtain s' where s': "on_timeouts (due_now d) (s\<lparr>req_mon := m\<rparr>) = Inr s'" "cab_inv (req_cab s')"
     "cab_lookup (req_cab s') = cab_lookup (req_cab s) |` (- set (due_now d))" "req_mon s' = m"
     "live (cab_lookup (req_cab s')) + mset (timed_out s') = live (cab_lookup (req_cab s)) + mset (timed_out s)"
    using on_timeouts_ok [of "s\<lparr>req_mon := m\<rparr>" "due_now d"] assms by (auto simp: pool_ok_def)
  have "fst ` set d - set (due_now d) \<subseteq> fst ` set (later d)" by (rule later_covers)
  then have "pool_ok n s' (later d)"
    using s' m assms unfolding pool_ok_def s'(3) dom_restrict by blast
  then show ?thesis
    using True m s' by (simp add: req_tick_def)
qed

lemma step_ok:
  assumes s: "pool_ok n s d" "accounted s g" and step: "req_step x (s, g) = Inr (s', g')"
  shows "\<exists>d'. pool_ok n s' d' \<and> accounted s' g'"
proof (cases x)
  case (NewReq p)
  then obtain t c m where c: "cab_alloc p (req_cab s) = Inr (t, c)" and m: "mon_add t (req_mon s) = Inr m"
    and eq: "s' = s\<lparr>req_cab := c, req_mon := m\<rparr>" "g' = g\<lparr>handed_in := handed_in g @ opt_list_of p\<rparr>"
    using step by (auto simp: newRequest_def split: sum.splits)
  have cab: "cab_inv c" "cab_lookup (req_cab s) t = None" "cab_lookup c = (cab_lookup (req_cab s))(t \<mapsto> p)"
    using cab.alloc_law [OF _ c] s(1) by (auto simp: pool_ok_def)
  have "mon_is n m (d @ [(t, n)])" "mon_cb m"
    using add_is [of n "req_mon s" d t] s(1) m by (auto simp: pool_ok_def)
  then have "pool_ok n s' (d @ [(t, n)])"
    using s(1) cab by (auto simp: pool_ok_def eq)
  moreover have "accounted s' g'"
    using s cab live_upd [OF finite_lookup cab(2), of p] by (auto simp: accounted_def eq pool_ok_def)
  ultimately show ?thesis by blast
next
  case (UpdateReq t p)
  have inv: "cab_inv (req_cab s)" using s(1) by (simp add: pool_ok_def)
  let ?m = "cab_lookup (req_cab s)"
  obtain c where c: "cab_update t p (req_cab s) = (?m t \<noteq> None, c)" "cab_inv c"
      "cab_lookup c = (if ?m t \<noteq> None then ?m(t \<mapsto> p) else ?m)"
    using cab.upd_law [OF inv, of t p] by blast
  have q: "cab_at t (req_cab s) = Inr (case ?m t of Some p \<Rightarrow> p | None \<Rightarrow> None)"
    by (rule cab.get_law [OF inv])
  have eq: "s' = s\<lparr>req_cab := c\<rparr>" "g' = (if ?m t \<noteq> None then g\<lparr>handed_in := handed_in g @ opt_list_of p,
      replaced := replaced g @ opt_list_of (case ?m t of Some p \<Rightarrow> p | None \<Rightarrow> None)\<rparr> else g)"
    using step UpdateReq c(1) q by (auto simp: updateRequest_def)
  have "pool_ok n s' d"
    using s(1) c by (auto simp: pool_ok_def eq split: if_splits)
  moreover have "accounted s' g'"
  proof (cases "?m t")
    case None
    then show ?thesis using s(2) c by (simp add: accounted_def eq)
  next
    case (Some r)
    then show ?thesis
      using s(2) c live_replace [OF finite_lookup [OF inv] Some, of p] by (simp add: accounted_def eq ac_simps)
  qed
  ultimately show ?thesis by blast
next
  case (RemoveReq t)
  have inv: "cab_inv (req_cab s)" using s(1) by (simp add: pool_ok_def)
  let ?m = "cab_lookup (req_cab s)"
  obtain c where c: "cab_free t (req_cab s) = Inr (case ?m t of Some p \<Rightarrow> p | None \<Rightarrow> None, c)" "cab_inv c"
      "cab_lookup c = ?m(t := None)"
    using cab.release_law [OF inv, of t] by blast
  have eq: "s' = s\<lparr>req_cab := c\<rparr>" "g' = g\<lparr>got_back := got_back g @ opt_list_of (case ?m t of Some p \<Rightarrow> p | None \<Rightarrow> None)\<rparr>"
    using step RemoveReq c(1) by (auto simp: removeRequest_def)
  have "pool_ok n s' d"
    using s(1) c by (auto simp: pool_ok_def eq)
  moreover have "accounted s' g'"
  proof (cases "?m t")
    case None
    then show ?thesis using s(2) c by (simp add: accounted_def eq opt_list_of_def fun_upd_idem)
  next
    case (Some r)
    then show ?thesis
      using s(2) c live_del [OF finite_lookup [OF inv] Some] by (simp add: accounted_def eq ac_simps)
  qed
  ultimately show ?thesis by blast
next
  case ReqTick
  then show ?thesis
    using tick_ok [OF s(1)] s(2) step by (auto simp: accounted_def split: sum.splits)
qed

lemma run_ok:
  assumes "pool_ok n s d" "accounted s g" and "req_run xs (s, g) = Inr (s', g')"
  shows "\<exists>d'. pool_ok n s' d' \<and> accounted s' g'"
  using assms
proof (induction xs arbitrary: s g d)
  case (Cons x xs)
  then obtain s1 g1 where 1: "req_step x (s, g) = Inr (s1, g1)" "req_run xs (s1, g1) = Inr (s', g')"
    by (auto split: sum.splits)
  obtain d1 where "pool_ok n s1 d1" "accounted s1 g1"
    using step_ok [OF Cons.prems(1,2) 1(1)] by blast
  then show ?case using Cons.IH 1(2) by blast
qed auto

lemma ticks_empty:
  assumes "pool_ok n s d" and "\<And>t k. (t, k) \<in> set d \<Longrightarrow> 1 \<le> k \<and> k \<le> j"
  shows "\<exists>s'. req_run (replicate j ReqTick) (s, g) = Inr (s', g) \<and> cab_lookup (req_cab s') = Map.empty \<and>
     mset (timed_out s') = live (cab_lookup (req_cab s)) + mset (timed_out s)"
  using assms
proof (induction j arbitrary: s d)
  case 0
  then have "d = []" by (cases d) force+
  then have "cab_lookup (req_cab s) = Map.empty" using 0(1) by (auto simp: pool_ok_def)
  then show ?case by (simp add: live_def)
next
  case (Suc j)
  obtain s1 where s1: "req_tick s = Inr s1" "pool_ok n s1 (later d)"
     "live (cab_lookup (req_cab s1)) + mset (timed_out s1) = live (cab_lookup (req_cab s)) + mset (timed_out s)"
    using tick_ok [OF Suc.prems(1)] by blast
  have "1 \<le> k \<and> k \<le> j" if "(t, k) \<in> set (later d)" for t k
    using that Suc.prems(2) by (force simp: later_def)
  from Suc.IH [OF s1(2) this] show ?case
    using s1 by auto
qed

lemma case_InrE:
  assumes "case r of Inl e \<Rightarrow> False | Inr p \<Rightarrow> P p" and "\<And>p. r = Inr p \<Longrightarrow> P p \<Longrightarrow> thesis"
  shows thesis
  using assms by (cases r) auto

text \<open>(C19) Settling of requests: after any run of a pool of \<open>n\<close> check times, every context that was handed in
  is in exactly one place: waiting in the pool, got back by \<open>removeRequest\<close>, timed out and deleted, or replaced by an
  \<open>updateRequest\<close> (which deletes nothing). After \<open>n\<close> further ticks nothing waits any more.\<close>

theorem requests_settle:
  assumes "1 \<le> n"
    and "req_run ops (setTimeoutAction (snd (req_initialize (int n) req_new)), \<lparr>handed_in = [], got_back = [], replaced = []\<rparr>) = Inr (s, g)"
  shows "mset (handed_in g) = live (cab_lookup (req_cab s)) + mset (timed_out s) + mset (got_back g) + mset (replaced g) \<and>
     (\<exists>s'. req_run (replicate n ReqTick) (s, g) = Inr (s', g) \<and> cab_lookup (req_cab s') = Map.empty \<and>
        mset (handed_in g) = mset (timed_out s') + mset (got_back g) + mset (replaced g))"
proof -
  obtain m where m: "mon_initialize (int n) (mon_new :: token monitor) = (True, m)" "mon_is n m []"
    using initialize_is [of "mon_new :: token monitor" n] assms(1) by (auto simp: mon_new_def)
  let ?s = "setTimeoutAction (snd (req_initialize (int n) req_new)) :: 'a req_pool"
  have s0: "?s = req_new\<lparr>req_mon := mon_setCallback m\<rparr>"
    using m(1) by (simp add: req_initialize_def req_new_def setTimeoutAction_def)
  have "mon_is n (mon_setCallback m) []"
    using m(2) unfolding mon_is_def mon_setCallback_def ring_of_def slot_def by simp
  moreover have empty: "cab_lookup cab_empty = Map.empty"
    by (rule ext) (simp add: cab_lookup_def cab_empty_def)
  moreover have "live (cab_lookup cab_empty) = {#}" unfolding empty by (simp add: live_def)
  ultimately have "pool_ok n ?s []" "accounted ?s \<lparr>handed_in = [], got_back = [], replaced = []\<rparr>"
    unfolding s0 by (simp_all add: pool_ok_def accounted_def req_new_def cab_inv_empty mon_setCallback_def)
  from run_ok [OF this assms(2)] obtain d where d: "pool_ok n s d" "accounted s g"
    by blast
  have "1 \<le> k \<and> k \<le> n" if "(t, k) \<in> set d" for t k
    by (rule mon_is_bounds [where s = "req_mon s", OF _ that]) (use d(1) in \<open>simp add: pool_ok_def\<close>)
  then obtain s' where "req_run (replicate n ReqTick) (s, g) = Inr (s', g)" "cab_lookup (req_cab s') = Map.empty"
      "mset (timed_out s') = live (cab_lookup (req_cab s)) + mset (timed_out s)"
    using ticks_empty [where j = n and g = g, OF d(1)] by blast
  then show ?thesis
    using d(2) by (auto simp: accounted_def)
qed

lemma requests_settle_witness:
  "\<exists>s g. req_run [NewReq (Some (5 :: nat)), ReqTick, NewReq (Some 6), RemoveReq (mk_token 2 1), ReqTick]
       (setTimeoutAction (snd (req_initialize 2 req_new)), \<lparr>handed_in = [], got_back = [], replaced = []\<rparr>) = Inr (s, g) \<and>
     timed_out s = [5] \<and> got_back g = [6] \<and>
     (\<exists>s'. req_run (replicate 2 ReqTick) (s, g) = Inr (s', g) \<and> cab_lookup (req_cab s') = Map.empty)"
proof -
  let ?ops = "[NewReq (Some (5 :: nat)), ReqTick, NewReq (Some 6), RemoveReq (mk_token 2 1), ReqTick]"
  let ?r = "req_run ?ops (setTimeoutAction (snd (req_initialize (int 2) req_new)), \<lparr>handed_in = [], got_back = [], replaced = []\<rparr>)"
  have "case ?r of Inl e \<Rightarrow> False | Inr p \<Rightarrow> timed_out (fst p) = [5] \<and> got_back (snd p) = [6]"
    by (simp add: req_initialize_def req_new_def setTimeoutAction_def mon_setCallback_def mon_initialize_def mon_new_def
        alloc_item_def set_next_def newRequest_def removeRequest_def req_tick_def on_timeout_def mon_add_def onTimerTick_def
        the_item_def cab_alloc_def cab_allocId_def cab_allocPos_def cab_empty_def cab_free_def token_isNull_def pos_max_def
        vector_max_size_def opt_list_of_def)
  then obtain p where p: "?r = Inr p" "timed_out (fst p) = [5] \<and> got_back (snd p) = [6]"
    by (rule case_InrE)
  obtain s g where sg: "p = (s, g)" by (rule prod.exhaust)
  have r: "?r = Inr (s, g)" by (rule p(1) [unfolded sg])
  have "\<exists>s'. req_run (replicate 2 ReqTick) (s, g) = Inr (s', g) \<and> cab_lookup (req_cab s') = Map.empty"
    using requests_settle [OF _ r] by fastforce
  moreover have "(2 :: int) = int 2" by simp
  ultimately show ?thesis
    using r p(2) unfolding sg fst_conv snd_conv \<open>(2 :: int) = int 2\<close> by blast
qed

end
