(* ===== verification/Module_Tree.thy ===== *)
theory Module_Tree
  imports Tbox_Prelude
begin

text \<open>
  The tree of application modules of \<open>modules/main/module.cpp\<close>: \<open>add\<close>, \<open>fillDefaultConfig\<close>,
  \<open>initialize\<close>, \<open>start\<close>, \<open>stop\<close>, \<open>cleanup\<close> and the destructor. A parent owns its children, so a
  module is a tree; the configuration is a value of nlohmann's JSON, of which the code uses
  \<open>contains\<close> and \<open>operator[]\<close>, and these with the virtual hooks are parameters. The log keeps the
  calls of the hooks. Not modelled: the variables of a module and \<open>toJson\<close>.
\<close>

section \<open>Modules\<close>

datatype mod_state = mNone | mInited | mRunning

datatype module = Module (mod_id: nat) (mod_name: string) (mod_state: mod_state) (has_parent: bool) (mod_items: "item list")
  and item = Item (item_module: module) (item_required: bool)

datatype hook = HInit nat bool | HStart nat bool | HStop nat | HCleanup nat

text \<open>The JSON operations, and the results of the hooks, which may depend on the calls so far.\<close>

record 'j env =
  contains :: "'j \<Rightarrow> string \<Rightarrow> bool"
  field :: "'j \<Rightarrow> string \<Rightarrow> 'j"
  put :: "'j \<Rightarrow> string \<Rightarrow> 'j \<Rightarrow> 'j"
  on_fill :: "nat \<Rightarrow> 'j \<Rightarrow> 'j"
  on_init :: "nat \<Rightarrow> 'j \<Rightarrow> hook list \<Rightarrow> bool"
  on_start :: "nat \<Rightarrow> hook list \<Rightarrow> bool"

definition module_new :: "nat \<Rightarrow> string \<Rightarrow> module" where
  "module_new i nm = Module i nm mNone False []"

text \<open>\<open>add\<close>: the result, this module and the child, which now belongs to it when the result is true.\<close>

definition mod_add :: "module ptr \<Rightarrow> bool \<Rightarrow> module \<Rightarrow> bool \<times> module" where
  "mod_add child required m =
     (if mod_state m \<noteq> mNone then (False, m)
      else case child of
        None \<Rightarrow> (False, m)
      | Some c \<Rightarrow>
          if has_parent c then (False, m)
          else if \<exists>x \<in> set (mod_items m). mod_name (item_module x) = mod_name c then (False, m)
          else (True, case m of Module i nm st p cs \<Rightarrow>
             Module i nm st p (cs @ [Item (case c of Module j nj sj pj xs \<Rightarrow> Module j nj sj True xs) required])))"

definition renamed :: "string \<Rightarrow> module \<Rightarrow> module" where
  "renamed nm c = (case c of Module j nj sj pj xs \<Rightarrow> Module j nm sj pj xs)"

text \<open>\<open>addAs\<close> writes the new name into the child first (the pointer is used unchecked) and takes it
  back when \<open>add\<close> refuses.\<close>

definition mod_addAs :: "module ptr \<Rightarrow> string \<Rightarrow> bool \<Rightarrow> module \<Rightarrow> (bool \<times> module) option" where
  "mod_addAs child nm required m = (case child of
       None \<Rightarrow> None
     | Some c \<Rightarrow> Some (mod_add (Some (renamed nm c)) required m))"

fun fill_config :: "'j env \<Rightarrow> 'j \<Rightarrow> module \<Rightarrow> 'j" and fill_items :: "'j env \<Rightarrow> 'j \<Rightarrow> item list \<Rightarrow> 'j" where
  "fill_config E js (Module i nm st p cs) =
     (if nm = [] then fill_items E (on_fill E i js) cs
      else put E js nm (fill_items E (on_fill E i (field E js nm)) cs))"
| "fill_items E js [] = js"
| "fill_items E js (Item m r # cs) = fill_items E (fill_config E js m) cs"

fun mod_initialize :: "'j env \<Rightarrow> 'j \<Rightarrow> module \<Rightarrow> hook list \<Rightarrow> bool \<times> module \<times> hook list"
  and init_items :: "'j env \<Rightarrow> 'j \<Rightarrow> item list \<Rightarrow> hook list \<Rightarrow> bool \<times> item list \<times> hook list" where
  "mod_initialize E js (Module i nm st p cs) l =
     (if st \<noteq> mNone then (False, Module i nm st p cs, l)
      else if nm \<noteq> [] \<and> \<not> contains E js nm then (False, Module i nm st p cs, l)
      else let js_this = (if nm = [] then js else field E js nm) in
        if \<not> on_init E i js_this l then (False, Module i nm st p cs, l @ [HInit i False])
        else case init_items E js_this cs (l @ [HInit i True]) of
          (ok, cs', l') \<Rightarrow> (ok, Module i nm (if ok then mInited else st) p cs', l'))"
| "init_items E js [] l = (True, [], l)"
| "init_items E js (Item m r # cs) l = (case mod_initialize E js m l of
       (ok, m', l1) \<Rightarrow>
         if \<not> ok \<and> r then (False, Item m' r # cs, l1)
         else case init_items E js cs l1 of (ok', cs', l2) \<Rightarrow> (ok', Item m' r # cs', l2))"

fun mod_start :: "'j env \<Rightarrow> module \<Rightarrow> hook list \<Rightarrow> bool \<times> module \<times> hook list"
  and start_items :: "'j env \<Rightarrow> item list \<Rightarrow> hook list \<Rightarrow> bool \<times> item list \<times> hook list" where
  "mod_start E (Module i nm st p cs) l =
     (if st \<noteq> mInited then (False, Module i nm st p cs, l)
      else if \<not> on_start E i l then (False, Module i nm st p cs, l @ [HStart i False])
      else case start_items E cs (l @ [HStart i True]) of
        (ok, cs', l') \<Rightarrow> (ok, Module i nm (if ok then mRunning else st) p cs', l'))"
| "start_items E [] l = (True, [], l)"
| "start_items E (Item m r # cs) l = (case mod_start E m l of
       (ok, m', l1) \<Rightarrow>
         if \<not> ok \<and> r then (False, Item m' r # cs, l1)
         else case start_items E cs l1 of (ok', cs', l2) \<Rightarrow> (ok', Item m' r # cs', l2))"

text \<open>\<open>stop\<close> and \<open>cleanup\<close> go through the children from the last to the first.\<close>

fun mod_stop :: "module \<Rightarrow> hook list \<Rightarrow> module \<times> hook list"
  and stop_items :: "item list \<Rightarrow> hook list \<Rightarrow> item list \<times> hook list" where
  "mod_stop (Module i nm st p cs) l =
     (if st \<noteq> mRunning then (Module i nm st p cs, l)
      else case stop_items cs l of (cs', l') \<Rightarrow> (Module i nm mInited p cs', l' @ [HStop i]))"
| "stop_items [] l = ([], l)"
| "stop_items (Item m r # cs) l = (case stop_items cs l of
       (cs', l1) \<Rightarrow> case mod_stop m l1 of (m', l2) \<Rightarrow> (Item m' r # cs', l2))"

lemma size_stop [simp]:
  "size (fst (mod_stop m l)) = size m"
  "size_list size (fst (stop_items cs l)) = size_list size cs"
  by (induction m l and cs l rule: mod_stop_stop_items.induct) (auto split: prod.splits)

lemma stop_keeps:
  "mod_id (fst (mod_stop m l)) = mod_id m" "mod_name (fst (mod_stop m l)) = mod_name m"
  by (cases m; auto split: prod.splits)+

lemma size_mod_items: "size_list size (mod_items m) < size m"
  by (cases m) simp

lemma size_stopped: "mod_stop m l = (m1, l1) \<Longrightarrow> size_list size (mod_items m1) < size m"
  using size_mod_items [of m1] size_stop(1) [of m l] by simp

function (sequential) mod_cleanup :: "module \<Rightarrow> hook list \<Rightarrow> module \<times> hook list"
  and cleanup_items :: "item list \<Rightarrow> hook list \<Rightarrow> item list \<times> hook list" where
  "mod_cleanup (Module i nm st p cs) l =
     (if st = mNone then (Module i nm st p cs, l)
      else case mod_stop (Module i nm st p cs) l of
        (m1, l1) \<Rightarrow> case cleanup_items (mod_items m1) l1 of
          (cs', l2) \<Rightarrow> (Module i nm mNone p cs', l2 @ [HCleanup i]))"
| "cleanup_items [] l = ([], l)"
| "cleanup_items (Item m r # cs) l = (case cleanup_items cs l of
       (cs', l1) \<Rightarrow> case mod_cleanup m l1 of (m', l2) \<Rightarrow> (Item m' r # cs', l2))"
  by pat_completeness auto

termination
  by (relation "measure (\<lambda>x. case x of Inl (m, l) \<Rightarrow> size m | Inr (cs, l) \<Rightarrow> size_list size cs)")
     (auto dest!: size_stopped [OF sym] simp del: mod_stop.simps split: if_splits)

text \<open>The destructor: the object is no longer one of the derived class, so \<open>cleanup\<close> calls the empty
  hooks of the base class for this module; then the children are deleted in order.\<close>

definition base_cleanup :: "module \<Rightarrow> hook list \<Rightarrow> item list \<times> hook list" where
  "base_cleanup m l =
     (if mod_state m = mNone then (mod_items m, l)
      else case (if mod_state m = mRunning then stop_items (mod_items m) l else (mod_items m, l)) of
        (cs, l1) \<Rightarrow> cleanup_items cs l1)"

lemma size_cleanup [simp]:
  "size (fst (mod_cleanup m l)) = size m"
  "size_list size (fst (cleanup_items cs l)) = size_list size cs"
proof (induction m l and cs l rule: mod_cleanup_cleanup_items.induct)
  case (1 i nm st p cs l)
  show ?case
  proof (cases "st = mNone")
    case False
    obtain m1 l1 where s: "mod_stop (Module i nm st p cs) l = (m1, l1)" by (rule prod.exhaust)
    have "size_list size (mod_items m1) = size_list size cs"
      using size_stop(1) [of "Module i nm st p cs" l] s by (cases m1) simp
    then show ?thesis
      using 1 [OF False s [symmetric]] s False by (simp del: mod_stop.simps add: case_prod_unfold)
  qed simp
qed (auto split: prod.splits)

lemma size_base_cleanup: "base_cleanup m l = (cs, l1) \<Longrightarrow> size_list size cs < size m"
proof -
  assume "base_cleanup m l = (cs, l1)"
  then have "size_list size cs = size_list size (mod_items m)"
    by (auto simp: base_cleanup_def split: if_splits prod.splits) (metis fst_conv size_stop(2) size_cleanup(2))+
  then show ?thesis using size_mod_items [of m] by simp
qed

function (sequential) mod_delete :: "module \<Rightarrow> hook list \<Rightarrow> hook list" and delete_items :: "item list \<Rightarrow> hook list \<Rightarrow> hook list" where
  "mod_delete m l = (case base_cleanup m l of (cs, l1) \<Rightarrow> delete_items cs l1)"
| "delete_items [] l = l"
| "delete_items (Item m r # cs) l = delete_items cs (mod_delete m l)"
  by pat_completeness auto

termination
  by (relation "measure (\<lambda>x. case x of Inl (m, l) \<Rightarrow> size m | Inr (cs, l) \<Rightarrow> size_list size cs)")
     (auto simp: case_prod_unfold size_base_cleanup [OF prod.collapse [symmetric]])

section \<open>The whole life\<close>

text \<open>All modules of a tree in preorder; a tree with every state set to \<open>st\<close>.\<close>

fun ids :: "module \<Rightarrow> nat list" and ids_items :: "item list \<Rightarrow> nat list" where
  "ids (Module i nm st p cs) = i # ids_items cs"
| "ids_items [] = []"
| "ids_items (Item m r # cs) = ids m @ ids_items cs"

fun all_in :: "mod_state \<Rightarrow> module \<Rightarrow> module" and all_items_in :: "mod_state \<Rightarrow> item list \<Rightarrow> item list" where
  "all_in st (Module i nm st' p cs) = Module i nm st p (all_items_in st cs)"
| "all_items_in st [] = []"
| "all_items_in st (Item m r # cs) = Item (all_in st m) r # all_items_in st cs"

text \<open>The configuration has a field for every named module.\<close>

fun configured :: "'j env \<Rightarrow> 'j \<Rightarrow> module \<Rightarrow> bool" and configured_items :: "'j env \<Rightarrow> 'j \<Rightarrow> item list \<Rightarrow> bool" where
  "configured E js (Module i nm st p cs) \<longleftrightarrow> (nm \<noteq> [] \<longrightarrow> contains E js nm) \<and>
     configured_items E (if nm = [] then js else field E js nm) cs"
| "configured_items E js [] \<longleftrightarrow> True"
| "configured_items E js (Item m r # cs) \<longleftrightarrow> configured E js m \<and> configured_items E js cs"

lemma initialize_all:
  "\<forall>i js l. on_init E i js l \<Longrightarrow> configured E js m \<Longrightarrow> mod_initialize E js (all_in mNone m) l = (True, all_in mInited m, l @ map (\<lambda>i. HInit i True) (ids m))"
  "\<forall>i js l. on_init E i js l \<Longrightarrow> configured_items E js cs \<Longrightarrow> init_items E js (all_items_in mNone cs) l =
      (True, all_items_in mInited cs, l @ map (\<lambda>i. HInit i True) (ids_items cs))"
  by (induction E js m and E js cs arbitrary: l and l rule: configured_configured_items.induct) (auto simp: Let_def)

lemma start_all:
  assumes "\<And>i l. on_start E i l"
  shows "mod_start E (all_in mInited m) l = (True, all_in mRunning m, l @ map (\<lambda>i. HStart i True) (ids m))"
    and "start_items E (all_items_in mInited cs) l = (True, all_items_in mRunning cs, l @ map (\<lambda>i. HStart i True) (ids_items cs))"
  by (induction m and cs arbitrary: l and l rule: ids_ids_items.induct) (auto simp: assms)

lemma stop_all:
  "mod_stop (all_in mRunning m) l = (all_in mInited m, l @ map HStop (rev (ids m)))"
  "stop_items (all_items_in mRunning cs) l = (all_items_in mInited cs, l @ map HStop (rev (ids_items cs)))"
  by (induction m and cs arbitrary: l and l rule: ids_ids_items.induct) auto

lemma cleanup_all:
  "mod_cleanup (all_in mInited m) l = (all_in mNone m, l @ map HCleanup (rev (ids m)))"
  "cleanup_items (all_items_in mInited cs) l = (all_items_in mNone cs, l @ map HCleanup (rev (ids_items cs)))"
  by (induction m and cs arbitrary: l and l rule: ids_ids_items.induct) auto

section \<open>The order of the hooks of one module\<close>

text \<open>The phase of a module by the hooks called: 0 before a successful \<open>onInit\<close> and after \<open>onCleanup\<close>,
  1 after a successful \<open>onInit\<close>, 2 after a successful \<open>onStart\<close>; \<open>None\<close> when a hook came out of turn.\<close>

fun advance :: "nat \<Rightarrow> hook \<Rightarrow> nat option \<Rightarrow> nat option" where
  "advance j h None = None"
| "advance j (HInit i ok) (Some k) = (if i \<noteq> j then Some k else if k \<le> 1 then Some (if ok then 1 else k) else None)"
| "advance j (HStart i ok) (Some k) = (if i \<noteq> j then Some k else if 1 \<le> k then Some (if ok then 2 else k) else None)"
| "advance j (HStop i) (Some k) = (if i \<noteq> j then Some k else if k = 2 then Some 1 else None)"
| "advance j (HCleanup i) (Some k) = (if i \<noteq> j then Some k else if 1 \<le> k then Some 0 else None)"

definition phase :: "hook list \<Rightarrow> nat \<Rightarrow> nat option" where
  "phase l j = fold (advance j) l (Some 0)"

lemma phase_snoc [simp]: "phase (l @ [h]) j = advance j h (phase l j)"
  by (simp add: phase_def)

definition agrees :: "mod_state \<Rightarrow> nat option \<Rightarrow> bool" where
  "agrees st k \<longleftrightarrow> (case st of mNone \<Rightarrow> k = Some 0 \<or> k = Some 1 | mInited \<Rightarrow> k = Some 1 \<or> k = Some 2 | mRunning \<Rightarrow> k = Some 2)"

fun in_turn :: "(nat \<Rightarrow> nat option) \<Rightarrow> module \<Rightarrow> bool" and items_in_turn :: "(nat \<Rightarrow> nat option) \<Rightarrow> item list \<Rightarrow> bool" where
  "in_turn f (Module i nm st p cs) \<longleftrightarrow> agrees st (f i) \<and> items_in_turn f cs"
| "items_in_turn f [] \<longleftrightarrow> True"
| "items_in_turn f (Item m r # cs) \<longleftrightarrow> in_turn f m \<and> items_in_turn f cs"

lemma in_turn_cong:
  "(\<And>i. i \<in> set (ids m) \<Longrightarrow> f i = g i) \<Longrightarrow> in_turn f m = in_turn g m"
  "(\<And>i. i \<in> set (ids_items cs) \<Longrightarrow> f i = g i) \<Longrightarrow> items_in_turn f cs = items_in_turn g cs"
  by (induction f m and f cs rule: in_turn_items_in_turn.induct) auto

text \<open>An operation on a tree keeps the modules and the turns, and does not touch other modules.\<close>

definition keeps :: "module \<Rightarrow> hook list \<Rightarrow> module \<Rightarrow> hook list \<Rightarrow> bool" where
  "keeps m l m' l' \<longleftrightarrow> ids m' = ids m \<and> (\<forall>j. j \<notin> set (ids m) \<longrightarrow> phase l' j = phase l j) \<and>
     (distinct (ids m) \<longrightarrow> in_turn (phase l) m \<longrightarrow> in_turn (phase l') m')"

definition keeps_items :: "item list \<Rightarrow> hook list \<Rightarrow> item list \<Rightarrow> hook list \<Rightarrow> bool" where
  "keeps_items cs l cs' l' \<longleftrightarrow> ids_items cs' = ids_items cs \<and> (\<forall>j. j \<notin> set (ids_items cs) \<longrightarrow> phase l' j = phase l j) \<and>
     (distinct (ids_items cs) \<longrightarrow> items_in_turn (phase l) cs \<longrightarrow> items_in_turn (phase l') cs')"

lemma keeps_trans: "keeps m l m1 l1 \<Longrightarrow> keeps m1 l1 m2 l2 \<Longrightarrow> keeps m l m2 l2"
  by (simp add: keeps_def)

lemma keeps_items_Cons:
  assumes "keeps m l m' l1" and "keeps_items cs l1 cs' l2"
  shows "keeps_items (Item m r # cs) l (Item m' r # cs') l2"
proof -
  have "in_turn (phase l2) m' = in_turn (phase l1) m'" if "distinct (ids_items (Item m r # cs))"
    by (rule in_turn_cong) (use assms that in \<open>auto simp: keeps_def keeps_items_def\<close>)
  moreover have "items_in_turn (phase l1) cs = items_in_turn (phase l) cs" if "distinct (ids_items (Item m r # cs))"
    by (rule in_turn_cong) (use assms that in \<open>auto simp: keeps_def\<close>)
  ultimately show ?thesis
    using assms by (auto simp: keeps_def keeps_items_def)
qed

text \<open>The same where the later children come first.\<close>

lemma keeps_items_rev:
  assumes "keeps_items cs l cs' l1" and "keeps m l1 m' l2"
  shows "keeps_items (Item m r # cs) l (Item m' r # cs') l2"
proof -
  have "in_turn (phase l1) m = in_turn (phase l) m" if "distinct (ids_items (Item m r # cs))"
    by (rule in_turn_cong) (use assms that in \<open>auto simp: keeps_items_def\<close>)
  moreover have "items_in_turn (phase l2) cs' = items_in_turn (phase l1) cs'" if "distinct (ids_items (Item m r # cs))"
    by (rule in_turn_cong) (use assms that in \<open>auto simp: keeps_def keeps_items_def\<close>)
  ultimately show ?thesis
    using assms by (auto simp: keeps_def keeps_items_def)
qed

lemma keeps_refl: "keeps m l m l" "keeps_items cs l cs l"
  by (simp_all add: keeps_def keeps_items_def)

text \<open>A module whose hook is called, before and after its children.\<close>

lemma keeps_stutter: "keeps_items cs l (cs :: item list) (l @ [h])" if "\<And>j. j \<in> set (ids_items cs) \<Longrightarrow> phase (l @ [h]) j = phase l j"
  "\<And>j. j \<notin> set (ids_items cs) \<Longrightarrow> phase (l @ [h]) j = phase l j"
  using that in_turn_cong(2) [of cs "phase (l @ [h])" "phase l"] by (auto simp: keeps_items_def)

lemma advance_other: "(case h of HInit i ok \<Rightarrow> i | HStart i ok \<Rightarrow> i | HStop i \<Rightarrow> i | HCleanup i \<Rightarrow> i) \<noteq> j \<Longrightarrow> advance j h k = k"
  by (cases h; cases k) auto

lemma keeps_node:
  assumes cs: "keeps_items cs (l @ h0) cs' l1"
    and h0: "\<And>j. j \<noteq> i \<Longrightarrow> phase (l @ h0) j = phase l j" and h1: "\<And>j. j \<noteq> i \<Longrightarrow> phase (l1 @ h1) j = phase l1 j"
    and turn: "agrees st (phase l i) \<Longrightarrow> phase l1 i = phase (l @ h0) i \<Longrightarrow> agrees st' (phase (l1 @ h1) i)"
  shows "keeps (Module i nm st p cs) l (Module i nm st' p cs') (l1 @ h1)"
  unfolding keeps_def
proof (intro conjI impI allI)
  show "ids (Module i nm st' p cs') = ids (Module i nm st p cs)"
    using cs by (simp add: keeps_items_def)
  show "phase (l1 @ h1) j = phase l j" if "j \<notin> set (ids (Module i nm st p cs))" for j
    using that cs h0 h1 by (auto simp: keeps_items_def)
  assume d: "distinct (ids (Module i nm st p cs))" and t: "in_turn (phase l) (Module i nm st p cs)"
  have i: "i \<notin> set (ids_items cs)" "distinct (ids_items cs)" "ids_items cs' = ids_items cs"
    using d cs by (auto simp: keeps_items_def)
  have "items_in_turn (phase (l @ h0)) cs = items_in_turn (phase l) cs"
    by (rule in_turn_cong) (metis h0 i(1))
  then have "items_in_turn (phase l1) cs'"
    using cs t i by (simp add: keeps_items_def)
  moreover have "items_in_turn (phase (l1 @ h1)) cs' = items_in_turn (phase l1) cs'"
    by (rule in_turn_cong) (metis h1 i(1,3))
  ultimately show "in_turn (phase (l1 @ h1)) (Module i nm st' p cs')"
    using turn t cs i by (simp add: keeps_items_def)
qed

lemma phase_Nil [simp]: "phase (l @ []) = phase l"
  by simp

lemma keeps_call:
  assumes "\<And>j. j \<noteq> i \<Longrightarrow> advance j h (phase l j) = phase l j"
    and "agrees st (phase l i) \<Longrightarrow> agrees st' (advance i h (phase l i))"
  shows "keeps (Module i nm st p cs) l (Module i nm st' p cs) (l @ [h])"
  unfolding keeps_def
proof (intro conjI allI impI)
  assume d: "distinct (ids (Module i nm st p cs))" and t: "in_turn (phase l) (Module i nm st p cs)"
  have "items_in_turn (phase (l @ [h])) cs = items_in_turn (phase l) cs"
    by (rule in_turn_cong) (use d assms(1) in fastforce)
  then show "in_turn (phase (l @ [h])) (Module i nm st' p cs)"
    using assms(2) t by simp
next
  show "phase (l @ [h]) j = phase l j" if "j \<notin> set (ids (Module i nm st p cs))" for j
    using that assms(1) [of j] by simp
qed simp

lemma initialize_keeps:
  "mod_initialize E js m l = (ok, m', l') \<Longrightarrow> keeps m l m' l'"
  "init_items E js cs l = (ok, cs', l') \<Longrightarrow> keeps_items cs l cs' l'"
proof (induction E js m l and E js cs l arbitrary: ok m' l' and ok cs' l' rule: mod_initialize_init_items.induct)
  case (1 E js i nm st p cs l)
  let ?js = "if nm = [] then js else field E js nm"
  consider (no) "m' = Module i nm st p cs" "l' = l"
    | (fail) "st = mNone" "m' = Module i nm st p cs" "l' = l @ [HInit i False]"
    | (go) cs1 l1 ok1 where "st = mNone" "init_items E ?js cs (l @ [HInit i True]) = (ok1, cs1, l1)"
        "m' = Module i nm (if ok1 then mInited else st) p cs1" "l' = l1" "\<not> (nm \<noteq> [] \<and> \<not> contains E js nm)" "on_init E i ?js l"
    using "1.prems" by (auto simp: Let_def split: if_splits prod.splits)
  then show ?case
  proof cases
    case no
    then show ?thesis by (simp add: keeps_refl)
  next
    case fail
    have "keeps (Module i nm st p cs) l (Module i nm st p cs) (l @ [HInit i False])"
      by (rule keeps_call) (auto simp: advance_other agrees_def fail(1))
    then show ?thesis using fail by simp
  next
    case go
    have "keeps_items cs (l @ [HInit i True]) cs1 l1"
      using "1.IH" go by auto
    then have "keeps (Module i nm st p cs) l (Module i nm (if ok1 then mInited else st) p cs1) (l1 @ [])"
      by (rule keeps_node) (auto simp: advance_other agrees_def go(1))
    then show ?thesis using go by simp
  qed
next
  case (2 E js l)
  then show ?case by (simp add: keeps_refl)
next
  case (3 E js m r cs l)
  obtain ok1 m1 l1 where m1: "mod_initialize E js m l = (ok1, m1, l1)" by (rule prod_cases3)
  have k: "keeps m l m1 l1" by (rule "3.IH"(1) [OF m1])
  show ?case
  proof (cases "\<not> ok1 \<and> r")
    case True
    then have "cs' = Item m1 r # cs" "l' = l1" using "3.prems" m1 by auto
    then show ?thesis using keeps_items_Cons [OF k keeps_refl(2)] by simp
  next
    case False
    obtain ok2 cs2 l2 where cs2: "init_items E js cs l1 = (ok2, cs2, l2)" by (rule prod_cases3)
    have "keeps_items cs l1 cs2 l2" by (rule "3.IH"(2) [OF m1 [symmetric] refl False cs2])
    then show ?thesis using "3.prems" m1 cs2 False keeps_items_Cons [OF k] by auto
  qed
qed

lemma start_keeps:
  "mod_start E m l = (ok, m', l') \<Longrightarrow> keeps m l m' l'"
  "start_items E cs l = (ok, cs', l') \<Longrightarrow> keeps_items cs l cs' l'"
proof (induction E m l and E cs l arbitrary: ok m' l' and ok cs' l' rule: mod_start_start_items.induct)
  case (1 E i nm st p cs l)
  consider (no) "m' = Module i nm st p cs" "l' = l"
    | (fail) "st = mInited" "m' = Module i nm st p cs" "l' = l @ [HStart i False]"
    | (go) cs1 l1 ok1 where "st = mInited" "start_items E cs (l @ [HStart i True]) = (ok1, cs1, l1)"
        "m' = Module i nm (if ok1 then mRunning else st) p cs1" "l' = l1" "on_start E i l"
    using "1.prems" by (auto split: if_splits prod.splits)
  then show ?case
  proof cases
    case no
    then show ?thesis by (simp add: keeps_refl)
  next
    case fail
    have "keeps (Module i nm st p cs) l (Module i nm st p cs) (l @ [HStart i False])"
      by (rule keeps_call) (auto simp: advance_other agrees_def fail(1))
    then show ?thesis using fail by simp
  next
    case go
    have "keeps_items cs (l @ [HStart i True]) cs1 l1"
      using "1.IH" go by auto
    then have "keeps (Module i nm st p cs) l (Module i nm (if ok1 then mRunning else st) p cs1) (l1 @ [])"
      by (rule keeps_node) (auto simp: advance_other agrees_def go(1))
    then show ?thesis using go by simp
  qed
next
  case (2 E l)
  then show ?case by (simp add: keeps_refl)
next
  case (3 E m r cs l)
  obtain ok1 m1 l1 where m1: "mod_start E m l = (ok1, m1, l1)" by (rule prod_cases3)
  have k: "keeps m l m1 l1" by (rule "3.IH"(1) [OF m1])
  show ?case
  proof (cases "\<not> ok1 \<and> r")
    case True
    then have "cs' = Item m1 r # cs" "l' = l1" using "3.prems" m1 by auto
    then show ?thesis using keeps_items_Cons [OF k keeps_refl(2)] by simp
  next
    case False
    obtain ok2 cs2 l2 where cs2: "start_items E cs l1 = (ok2, cs2, l2)" by (rule prod_cases3)
    have "keeps_items cs l1 cs2 l2" by (rule "3.IH"(2) [OF m1 [symmetric] refl False cs2])
    then show ?thesis using "3.prems" m1 cs2 False keeps_items_Cons [OF k] by auto
  qed
qed

lemma stop_keeps_turn:
  "keeps m l (fst (mod_stop m l)) (snd (mod_stop m l))"
  "keeps_items cs l (fst (stop_items cs l)) (snd (stop_items cs l))"
proof (induction m l and cs l rule: mod_stop_stop_items.induct)
  case (1 i nm st p cs l)
  show ?case
  proof (cases "st = mRunning")
    case True
    obtain cs1 l1 where c: "stop_items cs l = (cs1, l1)" by (rule prod.exhaust)
    have "keeps_items cs (l @ []) cs1 l1" using 1 True c by simp
    then have "keeps (Module i nm st p cs) l (Module i nm mInited p cs1) (l1 @ [HStop i])"
      by (rule keeps_node) (auto simp: advance_other agrees_def True)
    then show ?thesis using True c by simp
  qed (simp add: keeps_refl)
next
  case (3 m r cs l)
  obtain cs1 l1 where c: "stop_items cs l = (cs1, l1)" by (rule prod.exhaust)
  obtain m2 l2 where m: "mod_stop m l1 = (m2, l2)" by (rule prod.exhaust)
  have "keeps_items cs l cs1 l1" "keeps m l1 m2 l2" using 3 c m by fastforce+
  then show ?case using keeps_items_rev c m by simp
qed (simp add: keeps_refl)

lemma cleanup_keeps_turn:
  "keeps m l (fst (mod_cleanup m l)) (snd (mod_cleanup m l))"
  "keeps_items cs l (fst (cleanup_items cs l)) (snd (cleanup_items cs l))"
proof (induction m l and cs l rule: mod_cleanup_cleanup_items.induct)
  case (1 i nm st p cs l)
  show ?case
  proof (cases "st = mNone")
    case False
    let ?m = "Module i nm st p cs"
    obtain m1 l1 where s: "mod_stop ?m l = (m1, l1)" by (rule prod.exhaust)
    have k1: "keeps ?m l m1 l1" using stop_keeps_turn(1) [of ?m l] s by simp
    obtain cs1 where m1: "m1 = Module i nm mInited p cs1"
      using s False by (cases st) (auto split: prod.splits)
    obtain cs2 l2 where c: "cleanup_items cs1 l1 = (cs2, l2)" by (rule prod.exhaust)
    have "keeps_items cs1 (l1 @ []) cs2 l2" using 1 [OF False s [symmetric]] m1 c by simp
    then have "keeps m1 l1 (Module i nm mNone p cs2) (l2 @ [HCleanup i])"
      unfolding m1 by (rule keeps_node) (auto simp: advance_other agrees_def)
    then show ?thesis
      using keeps_trans [OF k1] s m1 c False by simp
  qed (simp add: keeps_refl)
next
  case (3 m r cs l)
  obtain cs1 l1 where c: "cleanup_items cs l = (cs1, l1)" by (rule prod.exhaust)
  obtain m2 l2 where m: "mod_cleanup m l1 = (m2, l2)" by (rule prod.exhaust)
  have "keeps_items cs l cs1 l1" "keeps m l1 m2 l2" using 3 c m by fastforce+
  then show ?case using keeps_items_rev c m by simp
qed (simp add: keeps_refl)

section \<open>Properties\<close>

datatype 'j mod_op = OpInitialize 'j | OpStart | OpStop | OpCleanup

fun mod_do :: "'j env \<Rightarrow> 'j mod_op \<Rightarrow> module \<times> hook list \<Rightarrow> module \<times> hook list" where
  "mod_do E (OpInitialize js) (m, l) = snd (mod_initialize E js m l)"
| "mod_do E OpStart (m, l) = snd (mod_start E m l)"
| "mod_do E OpStop (m, l) = mod_stop m l"
| "mod_do E OpCleanup (m, l) = mod_cleanup m l"

lemma do_keeps: "mod_do E x (m, l) = (m', l') \<Longrightarrow> keeps m l m' l'"
proof (cases x)
  case (OpInitialize js)
  assume "mod_do E x (m, l) = (m', l')"
  then show ?thesis using OpInitialize initialize_keeps(1) [of E js m l] by (cases "mod_initialize E js m l") auto
next
  case OpStart
  assume "mod_do E x (m, l) = (m', l')"
  then show ?thesis using OpStart start_keeps(1) [of E m l] by (cases "mod_start E m l") auto
next
  case OpStop
  assume "mod_do E x (m, l) = (m', l')"
  then show ?thesis using OpStop stop_keeps_turn(1) [of m l] by simp
next
  case OpCleanup
  assume "mod_do E x (m, l) = (m', l')"
  then show ?thesis using OpCleanup cleanup_keeps_turn(1) [of m l] by simp
qed

lemma do_all_keeps: "fold (mod_do E) xs (m, l) = (m', l') \<Longrightarrow> keeps m l m' l'"
proof (induction xs arbitrary: m l)
  case (Cons x xs)
  obtain m1 l1 where 1: "mod_do E x (m, l) = (m1, l1)" by (rule prod.exhaust)
  show ?case
    by (rule keeps_trans [OF do_keeps [OF 1] Cons.IH]) (use Cons.prems 1 in simp)
qed (simp add: keeps_refl)

lemma all_in_turn: "in_turn (\<lambda>i. Some 0) (all_in mNone m)" "items_in_turn (\<lambda>i. Some 0) (all_items_in mNone cs)"
  by (induction m and cs rule: ids_ids_items.induct) (auto simp: agrees_def)

lemma ids_all_in [simp]: "ids (all_in st m) = ids m" "ids_items (all_items_in st cs) = ids_items cs"
  by (induction m and cs rule: ids_ids_items.induct) auto


text \<open>A module with two required children, of which the second has a child; the configuration is the
  list of the fields it has, the same at each level; the hooks \<open>onInit\<close> of \<open>bad\<close> fail.\<close>

definition app_tree :: module where
  "app_tree = Module 1 [] mNone False [
     Item (Module 2 ''log'' mNone True []) True,
     Item (Module 3 ''net'' mNone True [Item (Module 4 ''tcp'' mNone True []) False]) True]"

definition app_env :: "nat list \<Rightarrow> string list env" where
  "app_env bad = \<lparr>contains = (\<lambda>j n. n \<in> set j), field = (\<lambda>j n. j), put = (\<lambda>j n v. n # v), on_fill = (\<lambda>i j. j),
     on_init = (\<lambda>i j l. i \<notin> set bad), on_start = (\<lambda>i l. True)\<rparr>"


text \<open>(C31) A full life: when the configuration has every field and every hook succeeds, \<open>initialize\<close>, \<open>start\<close>,
  \<open>stop\<close> and \<open>cleanup\<close> call every module once each, parents before children and children in the order of adding on the
  way up, and in exactly the reverse order on the way down, and the tree is again as it was.\<close>

theorem module_life:
  assumes "configured E js m" and "\<And>i js l. on_init E i js l" and "\<And>i l. on_start E i l"
  shows "fold (mod_do E) [OpInitialize js, OpStart, OpStop, OpCleanup] (all_in mNone m, []) =
     (all_in mNone m, map (\<lambda>i. HInit i True) (ids m) @ map (\<lambda>i. HStart i True) (ids m) @ map HStop (rev (ids m)) @
        map HCleanup (rev (ids m)))"
  using assms(2) by (simp add: initialize_all(1) [OF _ assms(1)] start_all(1) [OF assms(3)] stop_all(1) cleanup_all(1))

lemma module_life_witness:
  "snd (fold (mod_do (app_env [])) [OpInitialize [''log'', ''net'', ''tcp''], OpStart, OpStop, OpCleanup] (all_in mNone app_tree, [])) =
     [HInit 1 True, HInit 2 True, HInit 3 True, HInit 4 True, HStart 1 True, HStart 2 True, HStart 3 True, HStart 4 True,
      HStop 4, HStop 3, HStop 2, HStop 1, HCleanup 4, HCleanup 3, HCleanup 2, HCleanup 1]"
proof -
  have "configured (app_env []) [''log'', ''net'', ''tcp''] app_tree"
    by (simp add: app_env_def app_tree_def)
  moreover have "ids app_tree = [1, 2, 3, 4]"
    by (simp add: app_tree_def)
  ultimately show ?thesis
    using module_life [of "app_env []" "[''log'', ''net'', ''tcp'']" app_tree] by (simp add: app_env_def)
qed

text \<open>When a required child fails to initialise, the modules before it stay initialised: the root is still
  in \<open>kNone\<close>, so its \<open>cleanup\<close> does nothing, a second \<open>initialize\<close> fails at the first child, and the
  destructors no longer reach the hooks of the class: \<open>onCleanup\<close> is never called.\<close>

lemma failed_initialize_never_cleaned:
  "(case mod_initialize (app_env [3]) [''log'', ''net'', ''tcp''] app_tree [] of (ok, m, l) \<Rightarrow>
     \<not> ok \<and> l = [HInit 1 True, HInit 2 True, HInit 3 False] \<and> mod_cleanup m l = (m, l) \<and>
     fst (mod_initialize (app_env []) [''log'', ''net'', ''tcp''] m l) = False \<and> mod_delete m l = l)"
  by (simp add: app_tree_def app_env_def Let_def base_cleanup_def)

text \<open>A module whose required child fails to start has had its \<open>onStart\<close>; \<open>cleanup\<close> stops the children that run,
  but \<open>onStop\<close> of the module itself is not called, so a resource that \<open>onStart\<close> took is not given back.\<close>

lemma failed_start_never_stopped:
  "(case mod_initialize (app_env []) [''log'', ''net'', ''tcp''] app_tree [] of (ok, m, l) \<Rightarrow>
    case mod_start ((app_env [])\<lparr>on_start := (\<lambda>i l. i \<noteq> 3)\<rparr>) m [] of (ok', m', l') \<Rightarrow>
     ok \<and> \<not> ok' \<and> snd (mod_cleanup m' l') =
       [HStart 1 True, HStart 2 True, HStart 3 False, HCleanup 4, HCleanup 3, HStop 2, HCleanup 2, HCleanup 1])"
  by (simp add: app_tree_def app_env_def Let_def)

end
