(* ===== verification/Cxx_String.thy ===== *)
theory Cxx_String
  imports Tbox_Prelude "HOL-Library.Monad_Syntax"
begin

text \<open>
  \<open>std::string\<close> as the code uses it, and \<open>modules/util/string.cpp\<close>: splitting, joining, stripping,
  replacing and the conversion between bytes and hexadecimal text. A position is a \<open>nat option\<close>, with
  \<open>None\<close> for \<open>npos\<close>.
\<close>

section \<open>\<open>std::string\<close>\<close>

type_synonym pos = "nat option"

fun find_in :: "string \<Rightarrow> string \<Rightarrow> nat option" where
  "find_in pat [] = (if pat = [] then Some 0 else None)"
| "find_in pat (c # s) = (if take (length pat) (c # s) = pat then Some 0 else map_option Suc (find_in pat s))"

fun find_where :: "(char \<Rightarrow> bool) \<Rightarrow> string \<Rightarrow> nat option" where
  "find_where P [] = None"
| "find_where P (c # s) = (if P c then Some 0 else map_option Suc (find_where P s))"

fun find_last :: "(char \<Rightarrow> bool) \<Rightarrow> string \<Rightarrow> nat option" where
  "find_last P [] = None"
| "find_last P (c # s) = (case find_last P s of Some i \<Rightarrow> Some (Suc i) | None \<Rightarrow> if P c then Some 0 else None)"

text \<open>\<open>find\<close>, \<open>find_first_of\<close> and \<open>find_first_not_of\<close> from a position.\<close>

definition from_pos :: "(string \<Rightarrow> nat option) \<Rightarrow> string \<Rightarrow> pos \<Rightarrow> pos" where
  "from_pos f s p = (case p of None \<Rightarrow> None | Some i \<Rightarrow> if i \<le> length s then map_option ((+) i) (f (drop i s)) else None)"

definition str_find :: "string \<Rightarrow> string \<Rightarrow> pos \<Rightarrow> pos" where
  "str_find s pat p = from_pos (find_in pat) s p"

definition first_of :: "string \<Rightarrow> string \<Rightarrow> pos \<Rightarrow> pos" where
  "first_of s cs p = from_pos (find_where (\<lambda>c. c \<in> set cs)) s p"

definition first_not_of :: "string \<Rightarrow> string \<Rightarrow> pos \<Rightarrow> pos" where
  "first_not_of s cs p = from_pos (find_where (\<lambda>c. c \<notin> set cs)) s p"

definition last_not_of :: "string \<Rightarrow> string \<Rightarrow> pos" where
  "last_not_of s cs = find_last (\<lambda>c. c \<notin> set cs) s"

text \<open>\<open>substr(i, n)\<close>; a count computed as \<open>e - i\<close> with \<open>e\<close> equal to \<open>npos\<close> or below \<open>i\<close> is larger than any
  string.\<close>

definition substr :: "string \<Rightarrow> nat \<Rightarrow> nat option \<Rightarrow> cxx_error + string" where
  "substr s i n = (if length s < i then Inl OutOfRange
     else Inr (case n of None \<Rightarrow> drop i s | Some k \<Rightarrow> take k (drop i s)))"

definition upto :: "pos \<Rightarrow> nat \<Rightarrow> nat option" where
  "upto e i = (case e of None \<Rightarrow> None | Some j \<Rightarrow> if i \<le> j then Some (j - i) else None)"

abbreviation code :: "char \<Rightarrow> nat" where
  "code c \<equiv> of_char c"

abbreviation blanks :: string where
  "blanks \<equiv> [CHR '' '', CHR 0x09]"

definition is_digit :: "char \<Rightarrow> bool" where
  "is_digit c \<longleftrightarrow> 48 \<le> code c \<and> code c \<le> 57"

text \<open>\<open>std::stoi\<close>: blanks, a sign, digits, and anything after them.\<close>

definition is_space :: "char \<Rightarrow> bool" where
  "is_space c \<longleftrightarrow> c = CHR '' '' \<or> 9 \<le> code c \<and> code c \<le> 13"

definition digits_value :: "string \<Rightarrow> int" where
  "digits_value ds = fold (\<lambda>d n. 10 * n + (of_char d - 48)) ds 0"

definition stoi :: "string \<Rightarrow> cxx_error + int" where
  "stoi s = (let t = dropWhile is_space s;
                 neg = (t \<noteq> [] \<and> hd t = CHR ''-'');
                 u = (if t \<noteq> [] \<and> (hd t = CHR ''-'' \<or> hd t = CHR ''+'') then tl t else t);
                 ds = takeWhile is_digit u;
                 v = (if neg then - digits_value ds else digits_value ds)
             in if ds = [] then Inl InvalidArgument
                else if v < - (2 ^ 31) \<or> 2 ^ 31 \<le> v then Inl OutOfRange else Inr v)"

section \<open>Split and join\<close>

partial_function (option) split_loop :: "string \<Rightarrow> string \<Rightarrow> nat \<Rightarrow> string list option" where
  "split_loop src sep start = (case str_find src sep (Some start) of
       None \<Rightarrow> Some [drop start src]
     | Some e \<Rightarrow> do { xs \<leftarrow> split_loop src sep (e + length sep); Some (take (e - start) (drop start src) # xs) })"

definition Split :: "string \<Rightarrow> string \<Rightarrow> string list option" where
  "Split src sep = split_loop src sep 0"

lemma from_pos_ge: "from_pos f s (Some i) = Some j \<Longrightarrow> i \<le> j"
  by (auto simp: from_pos_def split: if_splits)

lemma find_where_Some: "find_where P s = Some i \<Longrightarrow> i < length s \<and> P (s ! i) \<and> (\<forall>j < i. \<not> P (s ! j))"
proof (induction s arbitrary: i)
  case (Cons c s)
  then show ?case by (cases "P c") (auto simp: nth_Cons split: nat.split)
qed simp

lemma find_where_None: "find_where P s = None \<longleftrightarrow> (\<forall>c \<in> set s. \<not> P c)"
  by (induction s) auto

lemma from_where_Some:
  assumes "from_pos (find_where P) s (Some i) = Some j"
  shows "i \<le> j \<and> j < length s \<and> P (s ! j) \<and> (\<forall>k. i \<le> k \<and> k < j \<longrightarrow> \<not> P (s ! k))"
proof -
  obtain d where d: "i \<le> length s" "find_where P (drop i s) = Some d" "j = i + d"
    using assms by (auto simp: from_pos_def split: if_splits)
  show ?thesis
    using find_where_Some [OF d(2)] d(1,3) by (auto simp: nat_le_iff_add)
qed

lemma first_progress:
  assumes "first_not_of s cs (Some p) = Some i" and "first_of s cs (Some i) = Some e"
  shows "p \<le> i \<and> i < e \<and> e < length s"
  using from_where_Some [of _ s p i] from_where_Some [of _ s i e] assms
  by (auto simp: first_of_def first_not_of_def order_le_less)

function (sequential) space_loop :: "string \<Rightarrow> pos \<Rightarrow> string list" where
  "space_loop s None = []"
| "space_loop s (Some p) = (case first_not_of s blanks (Some p) of
       None \<Rightarrow> []
     | Some i \<Rightarrow> (case first_of s blanks (Some i) of
         None \<Rightarrow> [drop i s]
       | Some e \<Rightarrow> take (e - i) (drop i s) # space_loop s (Some e)))"
  by pat_completeness auto

termination
  by (relation "measure (\<lambda>(s, p). case p of None \<Rightarrow> 0 | Some i \<Rightarrow> Suc (length s - i))") (auto dest: first_progress)

definition SplitBySpace :: "string \<Rightarrow> string list" where
  "SplitBySpace s = space_loop s (Some 0)"

fun Join :: "string list \<Rightarrow> string \<Rightarrow> string" where
  "Join [] d = []"
| "Join [s] d = s"
| "Join (s # t # ss) d = s @ d @ Join (t # ss) d"

section \<open>Strip\<close>

definition StripLeft :: "string \<Rightarrow> string" where
  "StripLeft s = (case first_not_of s '' '' (Some 0) of None \<Rightarrow> [] | Some i \<Rightarrow> drop i s)"

definition StripRight :: "string \<Rightarrow> string" where
  "StripRight s = (case last_not_of s '' '' of None \<Rightarrow> [] | Some e \<Rightarrow> take (e + 1) s)"

definition Strip :: "string \<Rightarrow> string" where
  "Strip s = (case first_not_of s '' '' (Some 0) of
       None \<Rightarrow> []
     | Some i \<Rightarrow> (case last_not_of s '' '' of None \<Rightarrow> [] | Some e \<Rightarrow> take (e - i + 1) (drop i s)))"

text \<open>\<open>front\<close> and \<open>back\<close> of an empty string are undefined; with one quote the count wraps.\<close>

definition StripQuot :: "string \<Rightarrow> string option" where
  "StripQuot s = (if s = [] then None
     else if hd s = last s \<and> (hd s = CHR 0x27 \<or> hd s = CHR 0x22)
       then Some (if length s < 2 then drop 1 s else take (length s - 2) (drop 1 s))
     else Some s)"

section \<open>Bytes and hexadecimal text\<close>

definition hex_digits :: "bool \<Rightarrow> string" where
  "hex_digits uppercase = (if uppercase then ''0123456789ABCDEF'' else ''0123456789abcdef'')"

definition hex_byte :: "bool \<Rightarrow> u8 \<Rightarrow> string" where
  "hex_byte up b = [hex_digits up ! unat (drop_bit 4 b), hex_digits up ! unat (b AND 15)]"

definition RawDataToHexStr :: "bytes ptr \<Rightarrow> bool \<Rightarrow> string \<Rightarrow> string" where
  "RawDataToHexStr data up delimiter = (case data of
       None \<Rightarrow> []
     | Some bs \<Rightarrow> Join (map (hex_byte up) bs) delimiter)"

definition hexCharToValue :: "char \<Rightarrow> cxx_error + u8" where
  "hexCharToValue c =
     (if 48 \<le> code c \<and> code c \<le> 57 then Inr (of_nat (code c - 48))
      else if 65 \<le> code c \<and> code c \<le> 70 then Inr (of_nat (code c - 65 + 10))
      else if 97 \<le> code c \<and> code c \<le> 102 then Inr (of_nat (code c - 97 + 10))
      else Inl InvalidArgument)"

definition two_hex :: "char \<Rightarrow> char \<Rightarrow> cxx_error + u8" where
  "two_hex h l = (case hexCharToValue h of Inl e \<Rightarrow> Inl e | Inr a \<Rightarrow>
     (case hexCharToValue l of Inl e \<Rightarrow> Inl e | Inr b \<Rightarrow> Inr (push_bit 4 a OR (b AND 15))))"

text \<open>Into an array of \<open>out_len\<close> bytes: the bytes written, at most \<open>out_len\<close>.\<close>

fun hex_to_array :: "string \<Rightarrow> nat \<Rightarrow> cxx_error + bytes" where
  "hex_to_array (h # l # s) (Suc n) = (case two_hex h l of Inl e \<Rightarrow> Inl e | Inr b \<Rightarrow>
     (case hex_to_array s n of Inl e \<Rightarrow> Inl e | Inr bs \<Rightarrow> Inr (b # bs)))"
| "hex_to_array s n = Inr []"

text \<open>Words between characters of the delimiter.\<close>

function (sequential) hex_words :: "string \<Rightarrow> string \<Rightarrow> pos \<Rightarrow> cxx_error + bytes" where
  "hex_words s d None = Inr []"
| "hex_words s d (Some p) = (case first_not_of s d (Some p) of
       None \<Rightarrow> Inr []
     | Some i \<Rightarrow>
         (let e = (case first_of s d (Some i) of None \<Rightarrow> length s | Some e \<Rightarrow> e);
              v = (if e - i = 1 then hexCharToValue (s ! i)
                   else if e - i = 2 then two_hex (s ! i) (s ! (i + 1))
                   else Inl LengthError)
          in case v of Inl e' \<Rightarrow> Inl e' | Inr b \<Rightarrow>
            (case (if i < e then hex_words s d (Some e) else Inr []) of Inl e' \<Rightarrow> Inl e' | Inr bs \<Rightarrow> Inr (b # bs))))"
  by pat_completeness auto

termination
  by (relation "measure (\<lambda>(s, d, p). case p of None \<Rightarrow> 0 | Some i \<Rightarrow> Suc (length s - i))")
     (auto dest: first_progress simp: first_not_of_def dest!: from_where_Some)

text \<open>Pairs of characters between the outer blanks, or \<open>at\<close> throws.\<close>

fun hex_pairs :: "nat \<Rightarrow> string \<Rightarrow> cxx_error + bytes" where
  "hex_pairs 0 s = Inr []"
| "hex_pairs (Suc n) (h # l # s) = (case two_hex h l of Inl e \<Rightarrow> Inl e | Inr b \<Rightarrow>
     (case hex_pairs n s of Inl e \<Rightarrow> Inl e | Inr bs \<Rightarrow> Inr (b # bs)))"
| "hex_pairs (Suc n) s = Inl OutOfRange"

definition hex_block :: "string \<Rightarrow> cxx_error + bytes" where
  "hex_block s = (case first_not_of s blanks (Some 0) of
       None \<Rightarrow> Inl OutOfRange
     | Some i \<Rightarrow> (case last_not_of s blanks of
         None \<Rightarrow> Inl OutOfRange
       | Some e \<Rightarrow> hex_pairs ((e + 1 - i + 1) div 2) (drop i s)))"

definition HexStrToRawData :: "string \<Rightarrow> string \<Rightarrow> cxx_error + bytes" where
  "HexStrToRawData s delimiter = (if delimiter = [] then hex_block s else hex_words s delimiter (Some 0))"

section \<open>Replace and case\<close>

fun replace_loop :: "nat \<Rightarrow> string \<Rightarrow> string \<Rightarrow> nat \<Rightarrow> string \<Rightarrow> string" where
  "replace_loop 0 pat rep p s = s"
| "replace_loop (Suc n) pat rep p s = (case str_find s pat (Some p) of
       None \<Rightarrow> s
     | Some q \<Rightarrow> replace_loop n pat rep (q + length rep) (take q s @ rep @ drop (q + length pat) s))"

definition Replace :: "string \<Rightarrow> string \<Rightarrow> nat \<Rightarrow> nat \<Rightarrow> string \<Rightarrow> string" where
  "Replace pat rep start cnt s =
     (if s = [] \<or> length s < start then s
      else replace_loop (if cnt = 0 then 4294967295 else cnt) pat rep start s)"

definition to_upper_char :: "char \<Rightarrow> char" where
  "to_upper_char c = (if 97 \<le> code c \<and> code c \<le> 122 then char_of (code c - 32) else c)"

definition to_lower_char :: "char \<Rightarrow> char" where
  "to_lower_char c = (if 65 \<le> code c \<and> code c \<le> 90 then char_of (code c + 32) else c)"

definition ToUpper :: "string \<Rightarrow> string" where
  "ToUpper s = map to_upper_char s"

definition ToLower :: "string \<Rightarrow> string" where
  "ToLower s = map to_lower_char s"

definition IsStartWith :: "string \<Rightarrow> string \<Rightarrow> bool" where
  "IsStartWith s t = (if length s < length t then False else str_find s t (Some 0) = Some 0)"

definition IsEndWith :: "string \<Rightarrow> string \<Rightarrow> bool" where
  "IsEndWith s t = (if length s < length t then False else str_find s t (Some (length s - length t)) \<noteq> None)"

end
