(* ===== verification/Util_String.thy ===== *)
theory Util_String
  imports Cxx_String
begin

text \<open>
  What the functions of \<open>modules/util/string.cpp\<close> promise: splitting and joining are inverse, stripping
  removes exactly the outer blanks, and bytes survive the way to hexadecimal text and back.
\<close>

section \<open>Finding\<close>

lemma find_in_Some:
  "find_in pat s = Some i \<Longrightarrow> i + length pat \<le> length s \<and> take (length pat) (drop i s) = pat \<and>
     (\<forall>j < i. take (length pat) (drop j s) \<noteq> pat)"
proof (induction s arbitrary: i)
  case (Cons c s)
  show ?case
  proof (cases "take (length pat) (c # s) = pat")
    case True
    then have "length pat \<le> length (c # s)" by (metis length_take min.cobounded1)
    then show ?thesis using True Cons.prems by auto
  next
    case False
    then obtain k where k: "find_in pat s = Some k" "i = Suc k" using Cons.prems by auto
    have "take (length pat) (drop j (c # s)) \<noteq> pat" if "j < i" for j
      using Cons.IH [OF k(1)] False that k(2) by (cases j) auto
    then show ?thesis using Cons.IH [OF k(1)] k(2) by auto
  qed
qed (auto split: if_splits)

lemma find_in_None: "find_in pat s = None \<Longrightarrow> j \<le> length s \<Longrightarrow> take (length pat) (drop j s) \<noteq> pat"
proof (induction s arbitrary: j)
  case (Cons c s)
  then show ?case by (cases j) (auto split: if_splits)
next
  case Nil
  then show ?case by (cases pat) auto
qed

lemma find_in_iff:
  "find_in pat s = Some i \<longleftrightarrow> i \<le> length s \<and> take (length pat) (drop i s) = pat \<and> (\<forall>j < i. take (length pat) (drop j s) \<noteq> pat)"
proof
  assume i: "i \<le> length s \<and> take (length pat) (drop i s) = pat \<and> (\<forall>j < i. take (length pat) (drop j s) \<noteq> pat)"
  show "find_in pat s = Some i"
  proof (cases "find_in pat s")
    case None
    then show ?thesis using find_in_None i by blast
  next
    case (Some k)
    then show ?thesis using find_in_Some [OF Some] i by (metis linorder_neqE_nat)
  qed
qed (use find_in_Some in fastforce)

lemma str_find_Some:
  assumes "str_find s pat (Some p) = Some e"
  shows "p \<le> e \<and> e + length pat \<le> length s \<and> take (length pat) (drop e s) = pat"
proof -
  obtain k where k: "p \<le> length s" "find_in pat (drop p s) = Some k" "e = p + k"
    using assms by (auto simp: str_find_def from_pos_def split: if_splits)
  then show ?thesis
    using find_in_Some [OF k(2)] by (auto simp: add.commute add.left_commute)
qed

section \<open>Split and join\<close>

declare split_loop.simps [code]

lemma Join_Cons: "xs \<noteq> [] \<Longrightarrow> Join (x # xs) d = x @ d @ Join xs d"
  by (cases xs) auto

lemma split_loop_join:
  assumes "sep \<noteq> []" and "p \<le> length src"
  shows "\<exists>xs. split_loop src sep p = Some xs \<and> xs \<noteq> [] \<and> Join xs sep = drop p src"
  using assms(2)
proof (induction "length src - p" arbitrary: p rule: less_induct)
  case less
  show ?case
  proof (cases "str_find src sep (Some p)")
    case None
    then show ?thesis by (subst split_loop.simps) simp
  next
    case (Some e)
    have e: "p \<le> e" "e + length sep \<le> length src" "take (length sep) (drop e src) = sep"
      using str_find_Some [OF Some] by auto
    have "length src - (e + length sep) < length src - p"
      using e assms(1) by (cases sep) auto
    from less.hyps [OF this e(2)] obtain xs where
      xs: "split_loop src sep (e + length sep) = Some xs" "xs \<noteq> []" "Join xs sep = drop (e + length sep) src"
      by blast
    have "drop p src = take (e - p) (drop p src) @ drop e src"
      using e(1) by (metis append_take_drop_id drop_drop le_add_diff_inverse2)
    moreover have "drop e src = sep @ drop (e + length sep) src"
      using e(3) by (metis append_take_drop_id drop_drop add.commute)
    ultimately have "Join (take (e - p) (drop p src) # xs) sep = drop p src"
      using xs by (simp add: Join_Cons)
    then show ?thesis
      using Some xs(1) by (subst split_loop.simps) simp
  qed
qed

text \<open>For a separator of one character, splitting finds the pieces that were joined.\<close>

lemma find_char_in:
  assumes "c \<notin> set x"
  shows "find_in [c] (x @ c # s) = Some (length x)" and "find_in [c] x = None"
  using assms by (induction x) auto

lemma split_loop_of_join:
  assumes "xs \<noteq> []" and "\<forall>x \<in> set xs. c \<notin> set x"
  shows "split_loop (pre @ Join xs [c]) [c] (length pre) = Some xs"
  using assms
proof (induction xs arbitrary: pre)
  case (Cons x xs)
  show ?case
  proof (cases "xs = []")
    case True
    then show ?thesis
      using Cons.prems find_char_in(2) by (subst split_loop.simps) (simp add: str_find_def from_pos_def)
  next
    case False
    have f: "str_find (pre @ Join (x # xs) [c]) [c] (Some (length pre)) = Some (length pre + length x)"
      using Cons.prems False find_char_in(1) by (simp add: str_find_def from_pos_def Join_Cons)
    have "split_loop ((pre @ x @ [c]) @ Join xs [c]) [c] (length (pre @ x @ [c])) = Some xs"
      by (rule Cons.IH [OF False]) (use Cons.prems in auto)
    then show ?thesis
      using False f by (subst split_loop.simps) (simp add: Join_Cons)
  qed
qed simp

lemma Split_Join: "\<lbrakk>xs \<noteq> []; \<forall>x \<in> set xs. c \<notin> set x\<rbrakk> \<Longrightarrow> Split (Join xs [c]) [c] = Some xs"
  using split_loop_of_join [of xs c "[]"] by (simp add: Split_def)

lemma split_loop_empty:
  assumes "split_loop src sep start = Some xs"
  shows "sep = [] \<and> start \<le> length src \<longrightarrow> False"
  using assms
proof (rule split_loop.raw_induct [where P = "\<lambda>src sep start xs. sep = [] \<and> start \<le> length src \<longrightarrow> False", rotated])
  fix f :: "string \<Rightarrow> string \<Rightarrow> nat \<Rightarrow> string list option" and src sep start xs
  assume IH: "\<And>src sep start xs. f src sep start = Some xs \<Longrightarrow> sep = [] \<and> start \<le> length src \<longrightarrow> False"
    and eq: "(case str_find src sep (Some start) of
       None \<Rightarrow> Some [drop start src]
     | Some e \<Rightarrow> do { xs \<leftarrow> f src sep (e + length sep); Some (take (e - start) (drop start src) # xs) }) = Some xs"
  show "sep = [] \<and> start \<le> length src \<longrightarrow> False"
  proof
    assume a: "sep = [] \<and> start \<le> length src"
    have "find_in [] (drop start src) = Some 0"
      by (cases "drop start src") auto
    then have "str_find src sep (Some start) = Some start"
      using a by (simp add: str_find_def from_pos_def)
    then obtain ys where "f src sep start = Some ys"
      using eq a by (auto split: bind_splits)
    then show False using IH a by blast
  qed
qed

text \<open>\<open>Split\<close> and \<open>Join\<close>: with a separator that is not empty \<open>Split\<close> returns and joining its pieces
  gives the source back; pieces without the separator character are found again; and with an empty separator the
  loop of \<open>Split\<close> never ends.\<close>

theorem split_join:
  "(sep \<noteq> [] \<longrightarrow> (\<exists>xs. Split src sep = Some xs \<and> Join xs sep = src)) \<and>
   (ys \<noteq> [] \<and> (\<forall>y \<in> set ys. c \<notin> set y) \<longrightarrow> Split (Join ys [c]) [c] = Some ys) \<and>
   Split src [] = None"
proof (intro conjI impI)
  show "\<exists>xs. Split src sep = Some xs \<and> Join xs sep = src" if "sep \<noteq> []"
    using split_loop_join [OF that, of 0 src] by (auto simp: Split_def)
  show "Split (Join ys [c]) [c] = Some ys" if "ys \<noteq> [] \<and> (\<forall>y \<in> set ys. c \<notin> set y)"
    using Split_Join that by blast
  show "Split src [] = None"
    using split_loop_empty [of src "[]" 0] by (cases "split_loop src [] 0") (auto simp: Split_def)
qed

lemma split_join_witness: "Split ''a,,b'' '','' = Some [''a'', [], ''b''] \<and> Split ''a'' [] = None"
  using split_join [of "'',''" "''a,,b''" "[''a'', [], ''b'']" "CHR '',''"] split_join [of "[]" "''a''"] by simp

section \<open>Hexadecimal text\<close>

lemma hex_value_digit:
  fixes n :: u8
  assumes "n < 16"
  shows "hexCharToValue (hex_digits up ! unat n) = Inr n" and "hex_digits up ! unat n \<noteq> CHR '' ''"
proof -
  have "unat n < 16" using assms by (simp add: word_less_nat_alt)
  then have "unat n \<in> set [0..<16]" by simp
  moreover have "\<forall>k \<in> set [0..<16]. hexCharToValue (hex_digits up ! k) = Inr (of_nat k) \<and> hex_digits up ! k \<noteq> CHR '' ''"
    by (cases up) (simp_all add: hex_digits_def hexCharToValue_def upt_conv_Cons)
  ultimately show "hexCharToValue (hex_digits up ! unat n) = Inr n" "hex_digits up ! unat n \<noteq> CHR '' ''"
    by auto
qed

lemma two_hex_byte: "hex_byte up b = [h, l] \<Longrightarrow> two_hex h l = Inr b"
proof -
  assume a: "hex_byte up b = [h, l]"
  have low: "b AND 15 = take_bit 4 b"
    by (simp add: take_bit_eq_mask mask_eq_exp_minus_1)
  have "unat (drop_bit 4 b) = unat b div 16" "unat (take_bit 4 b) = unat b mod 16"
    by (simp_all add: drop_bit_eq_div take_bit_eq_mod unat_div unat_mod)
  moreover have "unat b < 256" using unsigned_less [of b] by simp
  ultimately have n: "drop_bit 4 b < 16" "b AND 15 < 16"
    unfolding low by (simp_all add: word_less_nat_alt less_mult_imp_div_less)
  have "push_bit 4 (drop_bit 4 b) OR (b AND 15 AND 15) = b"
  proof (rule bit_eqI)
    fix k
    assume "possible_bit TYPE(8 word) k"
    then show "bit (push_bit 4 (drop_bit 4 b) OR (b AND 15 AND 15)) k = bit b k"
      using bit_mask_iff [of 4 k, where ?'a = "8 word"]
      by (auto simp: bit_simps mask_eq_exp_minus_1 not_le)
  qed
  then show "two_hex h l = Inr b"
    using a hex_value_digit(1) [OF n(1), of up] hex_value_digit(1) [OF n(2), of up] by (auto simp: hex_byte_def two_hex_def)
qed

lemma hex_byte_two: "\<exists>h l. hex_byte up b = [h, l] \<and> two_hex h l = Inr b \<and> (\<exists>u v. hexCharToValue h = Inr u \<and> hexCharToValue l = Inr v)"
proof -
  obtain h l where hl: "hex_byte up b = [h, l]" by (simp add: hex_byte_def)
  have "two_hex h l = Inr b" by (rule two_hex_byte [OF hl])
  then have "\<exists>u v. hexCharToValue h = Inr u \<and> hexCharToValue l = Inr v"
    by (auto simp: two_hex_def split: sum.splits)
  then show ?thesis using hl two_hex_byte by blast
qed

lemma Join_concat: "Join xs [] = concat xs"
  by (induction xs "[] :: string" rule: Join.induct) auto

lemma hex_pairs_bytes: "hex_pairs (length bs) (concat (map (hex_byte up) bs) @ r) = Inr bs"
proof (induction bs)
  case (Cons b bs)
  obtain h l where "hex_byte up b = [h, l]" "two_hex h l = Inr b" using hex_byte_two by blast
  then show ?case using Cons by simp
qed simp

lemma hex_to_array_bytes: "hex_to_array (concat (map (hex_byte up) bs)) n = Inr (take n bs)"
proof (induction bs arbitrary: n)
  case (Cons b bs)
  obtain h l where "hex_byte up b = [h, l]" "two_hex h l = Inr b" using hex_byte_two by blast
  then show ?case using Cons by (cases n) auto
qed simp

lemma find_last_snoc: "P x \<Longrightarrow> find_last P (xs @ [x]) = Some (length xs)"
  by (induction xs) auto

lemma blank_not_hex: "c \<in> set blanks \<Longrightarrow> hexCharToValue c = Inl InvalidArgument"
  by (auto simp: hexCharToValue_def)

lemma length_hex_bytes: "length (concat (map (hex_byte up) bs)) = 2 * length bs"
  by (induction bs) (auto simp: hex_byte_def)

lemma hex_block_bytes:
  assumes "bs \<noteq> []"
  shows "hex_block (concat (map (hex_byte up) bs)) = Inr bs"
proof -
  let ?s = "concat (map (hex_byte up) bs)"
  obtain b bs' where bs: "bs = b # bs'" using assms by (cases bs) auto
  obtain ds d where ds: "bs = ds @ [d]" using assms by (cases bs rule: rev_cases) auto
  obtain h l u where b: "hex_byte up b = [h, l]" "hexCharToValue h = Inr u" using hex_byte_two by blast
  obtain h' l' v where d: "hex_byte up d = [h', l']" "hexCharToValue l' = Inr v" using hex_byte_two by blast
  have "h \<notin> set blanks" "l' \<notin> set blanks" using b(2) d(2) blank_not_hex by fastforce+
  then have f: "first_not_of ?s blanks (Some 0) = Some 0"
    using b(1) by (simp add: bs first_not_of_def from_pos_def)
  have "?s = (concat (map (hex_byte up) ds) @ [h']) @ [l']"
    using d(1) by (simp add: ds)
  then have "last_not_of ?s blanks = Some (length (concat (map (hex_byte up) ds) @ [h']))"
    unfolding last_not_of_def using find_last_snoc [where P = "\<lambda>c. c \<notin> set blanks", OF \<open>l' \<notin> set blanks\<close>] by (simp only:)
  moreover have "length (concat (map (hex_byte up) ds) @ [h']) = 2 * length bs - 1"
    by (simp add: length_hex_bytes ds)
  moreover have "(2 * length bs - 1 + 1 - 0 + 1) div 2 = length bs"
    using assms by (cases bs) auto
  ultimately show ?thesis
    using f hex_pairs_bytes [of bs up "[]"] by (simp add: hex_block_def)
qed

lemma find_where_skip: "(\<forall>x \<in> set xs. \<not> P x) \<Longrightarrow> P y \<Longrightarrow> find_where P (xs @ y # ys) = Some (length xs)"
  by (induction xs) auto

lemma hex_words_bytes:
  assumes c: "hexCharToValue c = Inl InvalidArgument" and "bs \<noteq> []"
    and "p \<le> length pre" and "\<forall>x \<in> set (drop p pre). x = c"
  shows "hex_words (pre @ Join (map (hex_byte up) bs) [c]) [c] (Some p) = Inr bs"
  using assms(2-4)
proof (induction bs arbitrary: pre p)
  case (Cons b bs)
  let ?s = "pre @ Join (map (hex_byte up) (b # bs)) [c]"
  obtain h l u v where b: "hex_byte up b = [h, l]" "two_hex h l = Inr b" "hexCharToValue h = Inr u" "hexCharToValue l = Inr v"
    using hex_byte_two by blast
  have hl: "h \<noteq> c" "l \<noteq> c" using b c by auto
  obtain r where r: "Join (map (hex_byte up) (b # bs)) [c] = h # l # r" "r = (if bs = [] then [] else c # Join (map (hex_byte up) bs) [c])"
    using b(1) by (cases bs) auto
  have s: "?s = pre @ h # l # r" unfolding r(1) ..
  have f: "first_not_of ?s [c] (Some p) = Some (length pre)"
    unfolding s using Cons.prems(2,3) hl(1) find_where_skip [of "drop p pre" "\<lambda>x. x \<noteq> c" h "l # r"]
    by (simp add: first_not_of_def from_pos_def)
  have e: "first_of ?s [c] (Some (length pre)) = (if bs = [] then None else Some (length pre + 2))"
    unfolding s using hl by (simp add: first_of_def from_pos_def r(2))
  have at: "?s ! length pre = h" "?s ! (length pre + 1) = l" "length ?s = length pre + 2 + length r"
    unfolding s by (simp_all add: nth_append)
  show ?case
  proof (cases "bs = []")
    case True
    then show ?thesis using f e at b(2) r(2) hex_words.simps(2) [of ?s "[c]" p] hex_words.simps(2) [of ?s "[c]" "length ?s"]
      by (simp add: Let_def first_not_of_def from_pos_def)
  next
    case False
    have "?s = (pre @ [h, l, c]) @ Join (map (hex_byte up) bs) [c]"
      using r False by simp
    moreover have "hex_words ((pre @ [h, l, c]) @ Join (map (hex_byte up) bs) [c]) [c] (Some (length pre + 2)) = Inr bs"
      by (rule Cons.IH [OF False]) auto
    ultimately have "hex_words ?s [c] (Some (length pre + 2)) = Inr bs" by simp
    then show ?thesis using f e at b(2) False hex_words.simps(2) [of ?s "[c]" p] by (simp add: Let_def)
  qed
qed simp

text \<open>Bytes to hexadecimal text and back: whatever the case of the digits, the text without delimiter
  is read back (also into an array, up to its length), and so is the text with any delimiter character that is no
  hexadecimal digit.\<close>

theorem hex_roundtrip:
  assumes "bs \<noteq> []" and "hexCharToValue c = Inl InvalidArgument"
  shows "HexStrToRawData (RawDataToHexStr (Some bs) up []) [] = Inr bs \<and>
     HexStrToRawData (RawDataToHexStr (Some bs) up [c]) [c] = Inr bs \<and>
     hex_to_array (RawDataToHexStr (Some bs) up []) n = Inr (take n bs)"
  using assms hex_block_bytes [OF assms(1)] hex_words_bytes [OF assms(2,1), of 0 "[]" up] hex_to_array_bytes
  by (simp add: HexStrToRawData_def RawDataToHexStr_def Join_concat)

lemma hex_roundtrip_witness:
  "RawDataToHexStr (Some [0x1f, 0xa0]) True '' '' = ''1F A0'' \<and> HexStrToRawData ''1F A0'' '' '' = Inr [0x1f, 0xa0]"
proof -
  have "RawDataToHexStr (Some [0x1f, 0xa0]) True '' '' = ''1F A0''"
    by (simp add: RawDataToHexStr_def hex_byte_def hex_digits_def)
  moreover have "hexCharToValue CHR '' '' = Inl InvalidArgument"
    by (simp add: hexCharToValue_def)
  ultimately show ?thesis
    using hex_roundtrip [of "[0x1f, 0xa0]" "CHR '' ''" True 0] by simp
qed

text \<open>A text of blanks only, also the empty one, makes the block form index at \<open>npos\<close> and throw \<open>out_of_range\<close>,
  where the form with a delimiter gives no bytes.\<close>

lemma hex_of_blanks:
  "HexStrToRawData [] [] = Inl OutOfRange" "HexStrToRawData '' '' [] = Inl OutOfRange" "HexStrToRawData '' '' '' '' = Inr []"
  by (simp_all add: HexStrToRawData_def hex_block_def first_not_of_def from_pos_def)

end
