(* ===== verification/Http_Url.thy ===== *)
theory Http_Url
  imports Util_String
begin

text \<open>
  Addresses of \<open>modules/http/url.cpp\<close>: percent encoding, and printing and parsing of hosts, paths and
  whole addresses. The parsers change the fields of the object they are given and report success, so
  they return both. A \<open>std::map\<close> of strings is the list of its entries in the order of the keys.
\<close>

section \<open>Percent encoding\<close>

definition path_special_chars :: string where
  "path_special_chars = '' +&=<>'' @ [CHR 0x22] @ ''#,%{}|'' @ [CHR 0x5C] @ ''^[]'' @ [CHR 0x60] @ '';?:@$''"

definition full_special_chars :: string where
  "full_special_chars = path_special_chars @ ''/.''"

definition HexCharToValue :: "char \<Rightarrow> cxx_error + u8" where
  "HexCharToValue c =
     (if 48 \<le> code c \<and> code c \<le> 57 then Inr (of_nat (code c - 48))
      else if 65 \<le> code c \<and> code c \<le> 70 then Inr (of_nat (code c - 65 + 10))
      else if 97 \<le> code c \<and> code c \<le> 102 then Inr (of_nat (code c - 97 + 10))
      else Inl OutOfRange)"

text \<open>\<open>std::isprint\<close> in the C locale.\<close>

definition is_print :: "char \<Rightarrow> bool" where
  "is_print c \<longleftrightarrow> 32 \<le> code c \<and> code c \<le> 126"

definition encode_char :: "bool \<Rightarrow> char \<Rightarrow> string" where
  "encode_char path_mode c =
     (if c \<in> set (if path_mode then path_special_chars else full_special_chars) \<or> \<not> is_print c
      then (let uc = of_nat (code c) :: u8
            in [CHR ''%'', hex_digits True ! unat (drop_bit 4 uc), hex_digits True ! unat (uc AND 15)])
      else [c])"

definition UrlEncode :: "string \<Rightarrow> bool \<Rightarrow> string" where
  "UrlEncode s path_mode = concat (map (encode_char path_mode) s)"

datatype decode_state = dNone | dStart | dHalfHex

fun decode_loop :: "decode_state \<Rightarrow> u8 \<Rightarrow> string \<Rightarrow> cxx_error + string" where
  "decode_loop st tmp [] = Inr []"
| "decode_loop dNone tmp (c # s) =
     (if c = CHR ''%'' then decode_loop dStart 0 s
      else case decode_loop dNone tmp s of Inl e \<Rightarrow> Inl e | Inr r \<Rightarrow> Inr (c # r))"
| "decode_loop dStart tmp (c # s) = (case HexCharToValue c of
       Inl e \<Rightarrow> Inl e
     | Inr v \<Rightarrow> decode_loop dHalfHex (push_bit 4 v) s)"
| "decode_loop dHalfHex tmp (c # s) = (case HexCharToValue c of
       Inl e \<Rightarrow> Inl e
     | Inr v \<Rightarrow> (case decode_loop dNone (tmp OR v) s of Inl e \<Rightarrow> Inl e | Inr r \<Rightarrow> Inr (char_of (unat (tmp OR v)) # r)))"

definition UrlDecode :: "string \<Rightarrow> cxx_error + string" where
  "UrlDecode s = decode_loop dNone 0 s"

section \<open>Addresses\<close>

type_synonym smap = "(string \<times> string) list"

fun str_less :: "string \<Rightarrow> string \<Rightarrow> bool" where
  "str_less [] t \<longleftrightarrow> t \<noteq> []"
| "str_less (c # s) [] \<longleftrightarrow> False"
| "str_less (c # s) (d # t) \<longleftrightarrow> code c < code d \<or> c = d \<and> str_less s t"

fun sm_put :: "string \<Rightarrow> string \<Rightarrow> smap \<Rightarrow> smap" where
  "sm_put k v [] = [(k, v)]"
| "sm_put k v ((k', v') # m) =
     (if str_less k k' then (k, v) # (k', v') # m else if k = k' then (k, v) # m else (k', v') # sm_put k v m)"

record url_host =
  h_user :: string
  h_password :: string
  h_host :: string
  h_port :: u16

record url_path =
  p_path :: string
  p_params :: smap
  p_query :: smap
  p_frag :: string

record url =
  u_scheme :: string
  u_host :: url_host
  u_path :: url_path

fun dec :: "nat \<Rightarrow> string" where
  "dec n = (if n < 10 then [char_of (48 + n)] else dec (n div 10) @ [char_of (48 + n mod 10)])"

declare dec.simps [simp del]

definition UrlHostToString :: "url_host \<Rightarrow> string" where
  "UrlHostToString h =
     (if h_user h \<noteq> [] then h_user h @ (if h_password h \<noteq> [] then '':'' @ h_password h else []) @ ''@'' else []) @
     h_host h @ (if h_port h \<noteq> 0 then '':'' @ dec (unat (h_port h)) else [])"

definition print_pair :: "string \<times> string \<Rightarrow> string" where
  "print_pair kv = UrlEncode (fst kv) False @ ''='' @ UrlEncode (snd kv) False"

definition UrlPathToString :: "url_path \<Rightarrow> string" where
  "UrlPathToString p =
     UrlEncode (p_path p) True @
     concat (map (\<lambda>kv. '';'' @ print_pair kv) (p_params p)) @
     (if p_query p \<noteq> [] then ''?'' @ Join (map print_pair (p_query p)) ''&'' else []) @
     (if p_frag p \<noteq> [] then ''#'' @ p_frag p else [])"

definition UrlToString :: "url \<Rightarrow> string" where
  "UrlToString u = (if u_scheme u \<noteq> [] then u_scheme u @ ''://'' else []) @ UrlHostToString (u_host u) @ UrlPathToString (u_path u)"

text \<open>The separators below are not empty, so \<open>Split\<close> returns.\<close>

definition split_on :: "char \<Rightarrow> string \<Rightarrow> string list" where
  "split_on c s = (case Split s [c] of Some xs \<Rightarrow> xs | None \<Rightarrow> [])"

text \<open>The loop over \<open>key=value\<close> strings; on a failure the entries before it stay in the map.\<close>

fun put_pairs :: "string list \<Rightarrow> smap \<Rightarrow> bool \<times> smap" where
  "put_pairs [] m = (True, m)"
| "put_pairs (s # ss) m =
     (let kv = split_on (CHR ''='') s
      in if length kv \<noteq> 2 \<or> kv ! 0 = [] then (False, m)
         else case UrlDecode (kv ! 1) of
           Inl e \<Rightarrow> (False, m)
         | Inr v \<Rightarrow> (case UrlDecode (kv ! 0) of Inl e \<Rightarrow> (False, m) | Inr k \<Rightarrow> put_pairs ss (sm_put k v m)))"

text \<open>The first position of three that was found.\<close>

definition first_pos :: "pos \<Rightarrow> pos \<Rightarrow> pos \<Rightarrow> pos" where
  "first_pos a b c = (if a \<noteq> None then a else if b \<noteq> None then b else c)"

definition piece :: "string \<Rightarrow> nat \<Rightarrow> pos \<Rightarrow> string" where
  "piece s i e = (case upto e i of None \<Rightarrow> drop i s | Some k \<Rightarrow> take k (drop i s))"

definition StringToUrlPath :: "string \<Rightarrow> url_path \<Rightarrow> bool \<times> url_path" where
  "StringToUrlPath s p0 =
     (if s = [] \<or> hd s \<noteq> CHR ''/'' then (False, p0)
      else let semi = first_of s '';'' (Some 0); query = first_of s ''?'' (Some 0); pound = first_of s ''#'' (Some 0) in
        case UrlDecode (piece s 0 (first_pos semi query pound)) of
          Inl e \<Rightarrow> (False, p0)
        | Inr d \<Rightarrow>
            (let p1 = p0\<lparr>p_path := d\<rparr>;
                 (ok1, p2) = (case semi of
                    None \<Rightarrow> (True, p1)
                  | Some i \<Rightarrow> (case put_pairs (split_on (CHR '';'') (piece s (i + 1) (first_pos None query pound))) (p_params p1) of
                      (ok, m) \<Rightarrow> (ok, p1\<lparr>p_params := m\<rparr>)))
             in if \<not> ok1 then (False, p2)
                else let (ok2, p3) = (case query of
                    None \<Rightarrow> (True, p2)
                  | Some i \<Rightarrow> (case put_pairs (split_on (CHR ''&'') (piece s (i + 1) pound)) (p_query p2) of
                      (ok, m) \<Rightarrow> (ok, p2\<lparr>p_query := m\<rparr>)))
                in if \<not> ok2 then (False, p3)
                   else case pound of
                     None \<Rightarrow> (True, p3)
                   | Some i \<Rightarrow> (case UrlDecode (drop (i + 1) s) of
                       Inl e \<Rightarrow> (False, p3)
                     | Inr f \<Rightarrow> (True, p3\<lparr>p_frag := f\<rparr>))))"

text \<open>\<open>user:password@host:port\<close>; the port is an \<open>int\<close> stored into 16 bits.\<close>

definition StringToUrlHost :: "string \<Rightarrow> url_host \<Rightarrow> bool \<times> url_host" where
  "StringToUrlHost s h0 =
     (let at_pos = first_of s ''@'' (Some 0);
          (ok, h1, start) = (case at_pos of
             None \<Rightarrow> (True, h0, 0)
           | Some i \<Rightarrow>
               (let colon = first_of s '':'' (Some 0) in
                if (case colon of None \<Rightarrow> True | Some j \<Rightarrow> i < j) then
                  (case UrlDecode (take i s) of
                     Inl e \<Rightarrow> (False, h0, 0)
                   | Inr u \<Rightarrow> (True, h0\<lparr>h_user := u, h_password := []\<rparr>, i + 1))
                else (case colon of
                    None \<Rightarrow> (True, h0, 0)
                  | Some j \<Rightarrow> (case UrlDecode (take j s) of
                      Inl e \<Rightarrow> (False, h0, 0)
                    | Inr u \<Rightarrow> (case UrlDecode (take (i - j - 1) (drop (j + 1) s)) of
                        Inl e \<Rightarrow> (False, h0\<lparr>h_user := u\<rparr>, 0)
                      | Inr pw \<Rightarrow> (True, h0\<lparr>h_user := u, h_password := pw\<rparr>, i + 1))))))
      in if \<not> ok then (False, h1)
         else case first_of s '':'' (Some start) of
           None \<Rightarrow> (case UrlDecode (drop start s) of
               Inl e \<Rightarrow> (False, h1)
             | Inr d \<Rightarrow> (True, h1\<lparr>h_host := d, h_port := 0\<rparr>))
         | Some j \<Rightarrow> (case UrlDecode (take (j - start) (drop start s)) of
               Inl e \<Rightarrow> (False, h1)
             | Inr d \<Rightarrow> (case stoi (drop (j + 1) s) of
                 Inl e \<Rightarrow> (False, h1\<lparr>h_host := d\<rparr>)
               | Inr n \<Rightarrow> (True, h1\<lparr>h_host := d, h_port := word_of_int n\<rparr>))))"

definition StringToUrl :: "string \<Rightarrow> url \<Rightarrow> bool \<times> url" where
  "StringToUrl s u0 =
     (let (u1, start) = (case str_find s ''://'' (Some 0) of
             None \<Rightarrow> (u0, 0)
           | Some i \<Rightarrow> (u0\<lparr>u_scheme := take i s\<rparr>, i + 3));
          slash = first_of s ''/'' (Some start);
          host_str = piece s start slash;
          path_str = (case slash of None \<Rightarrow> ''/'' | Some i \<Rightarrow> drop i s);
          (ok, h) = StringToUrlHost host_str (u_host u1);
          u2 = u1\<lparr>u_host := h\<rparr>
      in if \<not> ok then (False, u2)
         else case StringToUrlPath path_str (u_path u2) of (ok', p) \<Rightarrow> (ok', u2\<lparr>u_path := p\<rparr>))"

section \<open>Percent encoding is undone\<close>

lemma decode_tmp: "decode_loop dNone t s = decode_loop dNone t' s"
proof (induction s arbitrary: t t')
  case (Cons a s)
  have "decode_loop dNone t s = decode_loop dNone t' s" by (rule Cons.IH)
  then show ?case by simp
qed simp

lemma HexCharToValue_eq: "hexCharToValue c = Inr v \<Longrightarrow> HexCharToValue c = Inr v"
  by (auto simp: HexCharToValue_def hexCharToValue_def split: if_splits)

lemma byte_halves: "push_bit 4 (drop_bit 4 b) OR (b AND 15) = (b :: u8)"
proof (rule bit_eqI)
  fix k
  assume "possible_bit TYPE(8 word) k"
  then show "bit (push_bit 4 (drop_bit 4 b) OR (b AND 15)) k = bit b k"
    using bit_mask_iff [of 4 k, where ?'a = "8 word"] by (auto simp: bit_simps mask_eq_exp_minus_1 not_le)
qed

lemma byte_half_less: "drop_bit 4 (b :: u8) < 16" "(b :: u8) AND 15 < 16"
proof -
  have low: "b AND 15 = take_bit 4 b"
    by (simp add: take_bit_eq_mask mask_eq_exp_minus_1)
  have "unat (drop_bit 4 b) = unat b div 16" "unat (take_bit 4 b) = unat b mod 16"
    by (simp_all add: drop_bit_eq_div take_bit_eq_mod unat_div unat_mod)
  moreover have "unat b < 256" using unsigned_less [of b] by simp
  ultimately show "drop_bit 4 b < 16" "b AND 15 < 16"
    unfolding low by (simp_all add: word_less_nat_alt less_mult_imp_div_less)
qed

lemma char_byte: "char_of (unat (of_nat (code c) :: u8)) = c"
proof -
  have "code c < 256" by (rule nat_of_char_less_256)
  then show ?thesis by (simp add: unat_of_nat)
qed

lemma encode_char_cases:
  obtains b :: u8 where "encode_char m c = [CHR ''%'', hex_digits True ! unat (drop_bit 4 b), hex_digits True ! unat (b AND 15)]"
      and "char_of (unat b) = c"
    | "encode_char m c = [c]" and "c \<notin> set path_special_chars" and "is_print c"
proof (cases "c \<in> set (if m then path_special_chars else full_special_chars) \<or> \<not> is_print c")
  case True
  have "encode_char m c = [CHR ''%'', hex_digits True ! unat (drop_bit 4 (of_nat (code c) :: u8)),
      hex_digits True ! unat ((of_nat (code c) :: u8) AND 15)]"
    unfolding encode_char_def Let_def using True by (simp only: if_True)
  then show thesis by (rule that(1)) (rule char_byte)
next
  case False
  then show thesis using that(2) by (auto simp: encode_char_def full_special_chars_def split: if_splits)
qed

lemma decode_encode_char:
  "decode_loop dNone t (encode_char m c @ r) = (case decode_loop dNone 0 r of Inl e \<Rightarrow> Inl e | Inr x \<Rightarrow> Inr (c # x))"
proof (cases rule: encode_char_cases [where m = m and c = c])
  case (1 b)
  have "HexCharToValue (hex_digits True ! unat (drop_bit 4 b)) = Inr (drop_bit 4 b)"
    "HexCharToValue (hex_digits True ! unat (b AND 15)) = Inr (b AND 15)"
    by (rule HexCharToValue_eq, rule hex_value_digit, rule byte_half_less)+
  then show ?thesis
    using 1 decode_tmp [of b r 0] byte_halves [of b] by (simp split: sum.split)
next
  case 2
  then have "c \<noteq> CHR ''%''" by (auto simp: path_special_chars_def)
  then show ?thesis using 2 decode_tmp [of t r 0] by simp
qed

lemma decode_encode: "UrlDecode (UrlEncode s m) = Inr s"
  unfolding UrlDecode_def UrlEncode_def by (induction s) (simp_all add: decode_encode_char)

lemma encode_char_plain:
  assumes "d \<in> set path_special_chars" and "d \<noteq> CHR ''%''"
  shows "d \<notin> set (encode_char m c)"
proof -
  have "hex_digits True ! unat n \<noteq> d" if "n < 16" for n :: u8
  proof -
    have "hexCharToValue (hex_digits True ! unat n) = Inr n" by (rule hex_value_digit [OF that])
    moreover have "hexCharToValue d = Inl InvalidArgument"
      using assms(1) by (auto simp: path_special_chars_def hexCharToValue_def)
    ultimately show ?thesis by auto
  qed
  then show ?thesis
    using assms byte_half_less by (cases rule: encode_char_cases [where m = m and c = c]) auto
qed

lemma encode_no_CR: "CHR 0x0D \<notin> set (UrlEncode s m)"
proof -
  have hex: "CHR 0x0D \<noteq> hex_digits True ! unat n" if "n < 16" for n :: u8
  proof
    assume "CHR 0x0D = hex_digits True ! unat n"
    then have "hexCharToValue (CHR 0x0D) = Inr n" using hex_value_digit(1) [OF that, of True] by simp
    then show False by (simp add: hexCharToValue_def)
  qed
  have "CHR 0x0D \<notin> set (encode_char m c)" for c
  proof (cases rule: encode_char_cases [where m = m and c = c])
    case (1 b)
    then show ?thesis using hex [OF byte_half_less(1)] hex [OF byte_half_less(2)] by simp
  next
    case 2
    then show ?thesis by (auto simp: is_print_def)
  qed
  then show ?thesis by (auto simp: UrlEncode_def)
qed

lemma encode_plain: "d \<in> set path_special_chars \<Longrightarrow> d \<noteq> CHR ''%'' \<Longrightarrow> d \<notin> set (UrlEncode s m)"
  using encode_char_plain by (auto simp: UrlEncode_def)

lemma encode_empty: "UrlEncode s m = [] \<longleftrightarrow> s = []"
  by (cases s) (auto simp: UrlEncode_def encode_char_def Let_def)

text \<open>Percent encoding: decoding gives every encoded text back, in both modes, and an encoded text
  contains none of the separators.\<close>

theorem url_encoding:
  "UrlDecode (UrlEncode s m) = Inr s \<and> set (UrlEncode s m) \<inter> set ''+&=<>#,;?:@ '' = {}"
  using decode_encode encode_plain by (auto simp: path_special_chars_def)

section \<open>A printed path is read back\<close>

lemma str_less_asym: "str_less a b \<Longrightarrow> \<not> str_less b a"
proof (induction a b rule: str_less.induct)
  case (1 t)
  then show ?case by (cases t) auto
qed (auto dest: less_asym)

lemma str_less_irrefl: "\<not> str_less a a"
  by (induction a) auto

lemma sm_put_last: "(\<forall>x \<in> set m. str_less (fst x) k) \<Longrightarrow> sm_put k v m = m @ [(k, v)]"
  by (induction m) (auto dest: str_less_asym simp: str_less_irrefl)

definition sorted_map :: "smap \<Rightarrow> bool" where
  "sorted_map m \<longleftrightarrow> sorted_wrt (\<lambda>x y. str_less (fst x) (fst y)) m"

lemma split_on_Join: "\<lbrakk>xs \<noteq> []; \<forall>x \<in> set xs. c \<notin> set x\<rbrakk> \<Longrightarrow> split_on c (Join xs [c]) = xs"
  by (simp add: split_on_def Split_Join)

lemma put_printed:
  assumes "\<forall>kv \<in> set kvs. fst kv \<noteq> []" and "sorted_map (m @ kvs)"
  shows "put_pairs (map print_pair kvs) m = (True, m @ kvs)"
  using assms
proof (induction kvs arbitrary: m)
  case (Cons kv kvs)
  obtain k v where kv: "kv = (k, v)" by (rule prod.exhaust)
  have "split_on (CHR ''='') (Join [UrlEncode k False, UrlEncode v False] ''='') = [UrlEncode k False, UrlEncode v False]"
    by (rule split_on_Join) (use encode_plain [of "CHR ''=''"] in \<open>auto simp: path_special_chars_def\<close>)
  then have s: "split_on (CHR ''='') (print_pair kv) = [UrlEncode k False, UrlEncode v False]"
    by (simp add: print_pair_def kv)
  have "sm_put k v m = m @ [(k, v)]"
    by (rule sm_put_last) (use Cons.prems(2) kv in \<open>auto simp: sorted_map_def sorted_wrt_append\<close>)
  then have "put_pairs (map print_pair (kv # kvs)) m = put_pairs (map print_pair kvs) (m @ [(k, v)])"
    using s Cons.prems(1) by (simp add: Let_def decode_encode encode_empty kv)
  also have "\<dots> = (True, (m @ [(k, v)]) @ kvs)"
    by (rule Cons.IH) (use Cons.prems kv in simp_all)
  finally show ?case using kv by simp
qed simp

lemma first_of_app:
  assumes "c \<notin> set xs"
  shows "first_of (xs @ ys) [c] (Some 0) = (case first_of ys [c] (Some 0) of None \<Rightarrow> None | Some i \<Rightarrow> Some (length xs + i))"
proof -
  have "find_where (\<lambda>x. x = c) (xs @ ys) = map_option ((+) (length xs)) (find_where (\<lambda>x. x = c) ys)"
    using assms by (induction xs) (cases "find_where (\<lambda>x. x = c) ys"; auto)+
  then show ?thesis by (simp add: first_of_def from_pos_def option.map_comp o_def split: option.split)
qed

lemma first_of_hit [simp]: "first_of (c # ys) [c] (Some 0) = Some 0"
  by (simp add: first_of_def from_pos_def)

lemma first_of_miss: "c \<notin> set xs \<Longrightarrow> first_of xs [c] (Some 0) = None"
  by (auto simp: first_of_def from_pos_def find_where_None)

lemma print_pair_plain: "d \<in> set path_special_chars \<Longrightarrow> d \<noteq> CHR ''%'' \<Longrightarrow> d \<noteq> CHR ''='' \<Longrightarrow> d \<notin> set (print_pair kv)"
  by (simp add: print_pair_def encode_plain)

lemma params_join:
  "ps \<noteq> [] \<Longrightarrow> concat (map (\<lambda>kv. '';'' @ print_pair kv) ps) = CHR '';'' # Join (map print_pair ps) '';''"
proof (induction ps)
  case (Cons p ps)
  then show ?case by (cases "ps = []") (simp_all add: Join_Cons)
qed simp

lemma Join_plain: "d \<notin> set sep \<Longrightarrow> \<forall>x \<in> set xs. d \<notin> set x \<Longrightarrow> d \<notin> set (Join xs sep)"
  by (induction xs sep rule: Join.induct) auto

lemma piece_mid: "i = length a \<Longrightarrow> e = Some (length a + length b) \<Longrightarrow> piece (a @ b @ c) i e = b"
  "i = length a \<Longrightarrow> e = None \<Longrightarrow> piece (a @ b) i e = b"
  by (simp_all add: piece_def upto_def)

definition params_text :: "smap \<Rightarrow> string" where
  "params_text ps = concat (map (\<lambda>kv. '';'' @ print_pair kv) ps)"

lemma params_text_eq: "params_text ps = (if ps = [] then [] else CHR '';'' # Join (map print_pair ps) '';'')"
  by (simp add: params_text_def params_join [simplified])

definition query_text :: "smap \<Rightarrow> string" where
  "query_text qs = (if qs \<noteq> [] then ''?'' @ Join (map print_pair qs) ''&'' else [])"

definition frag_text :: "string \<Rightarrow> string" where
  "frag_text f = (if f \<noteq> [] then ''#'' @ f else [])"

lemma pairs_plain:
  assumes "d \<in> set ''?#;&''"
  shows "\<forall>x \<in> set (map print_pair ps). d \<notin> set x"
proof -
  have "d \<in> set path_special_chars \<and> d \<noteq> CHR ''%'' \<and> d \<noteq> CHR ''=''"
    using assms by (auto simp: path_special_chars_def)
  then show ?thesis by (simp add: print_pair_plain)
qed

lemma params_plain: "CHR ''?'' \<notin> set (params_text ps)" "CHR ''#'' \<notin> set (params_text ps)"
  using pairs_plain [of "CHR ''?''" ps] pairs_plain [of "CHR ''#''" ps] by (auto simp: params_text_def)

lemma query_plain: "CHR '';'' \<notin> set (query_text qs)" "CHR ''#'' \<notin> set (query_text qs)"
  using Join_plain [OF _ pairs_plain, of "CHR '';''" "''&''" qs] Join_plain [OF _ pairs_plain, of "CHR ''#''" "''&''" qs]
  by (auto simp: query_text_def)

lemma positions:
  assumes E: "CHR '';'' \<notin> set E" "CHR ''?'' \<notin> set E" "CHR ''#'' \<notin> set E"
    and f: "CHR '';'' \<notin> set f" "CHR ''?'' \<notin> set f"
  shows "first_of (E @ params_text ps @ query_text qs @ frag_text f) '';'' (Some 0) = (if ps = [] then None else Some (length E))"
    and "first_of (E @ params_text ps @ query_text qs @ frag_text f) ''?'' (Some 0) =
      (if qs = [] then None else Some (length (E @ params_text ps)))"
    and "first_of (E @ params_text ps @ query_text qs @ frag_text f) ''#'' (Some 0) =
      (if f = [] then None else Some (length (E @ params_text ps @ query_text qs)))"
proof -
  have fr: "CHR '';'' \<notin> set (frag_text f)" "CHR ''?'' \<notin> set (frag_text f)" using f by (auto simp: frag_text_def)
  have none: "first_of (query_text qs @ frag_text f) '';'' (Some 0) = None"
    by (rule first_of_miss) (use query_plain fr in simp)
  show "first_of (E @ params_text ps @ query_text qs @ frag_text f) '';'' (Some 0) = (if ps = [] then None else Some (length E))"
    using E none by (simp add: first_of_app params_text_eq)
  have "first_of (query_text qs @ frag_text f) ''?'' (Some 0) = (if qs = [] then None else Some 0)"
    using first_of_miss [OF fr(2)] by (simp add: query_text_def)
  then show "first_of (E @ params_text ps @ query_text qs @ frag_text f) ''?'' (Some 0) =
      (if qs = [] then None else Some (length (E @ params_text ps)))"
    using E params_plain by (simp add: first_of_app)
  have "first_of (frag_text f) ''#'' (Some 0) = (if f = [] then None else Some 0)"
    by (simp add: frag_text_def first_of_miss)
  then show "first_of (E @ params_text ps @ query_text qs @ frag_text f) ''#'' (Some 0) =
      (if f = [] then None else Some (length (E @ params_text ps @ query_text qs)))"
    using E params_plain query_plain by (simp add: first_of_app)
qed

lemma pieces:
  fixes E ps qs f
  defines "S \<equiv> E @ params_text ps @ query_text qs @ frag_text f"
    and "semi \<equiv> if ps = [] then None else Some (length E)"
    and "query \<equiv> if qs = [] then None else Some (length (E @ params_text ps))"
    and "pound \<equiv> if f = [] then None else Some (length (E @ params_text ps @ query_text qs))"
  shows "piece S 0 (first_pos semi query pound) = E"
    and "ps \<noteq> [] \<Longrightarrow> piece S (length E + 1) (first_pos None query pound) = Join (map print_pair ps) '';''"
    and "qs \<noteq> [] \<Longrightarrow> piece S (length (E @ params_text ps) + 1) pound = Join (map print_pair qs) ''&''"
    and "f \<noteq> [] \<Longrightarrow> drop (length (E @ params_text ps @ query_text qs) + 1) S = f"
proof -
  let ?P = "params_text ps" and ?Q = "query_text qs" and ?F = "frag_text f"
  have e: "(ps = []) = (?P = [])" "(qs = []) = (?Q = [])" "(f = []) = (?F = [])"
    by (simp_all add: params_text_eq query_text_def frag_text_def)
  show "piece S 0 (first_pos semi query pound) = E"
    unfolding S_def semi_def query_def pound_def e first_pos_def
    using piece_mid(1) [of 0 "[]" "Some (length E)" E "?P @ ?Q @ ?F"] piece_mid(2) [of 0 "[]" None E] by auto
  show "piece S (length E + 1) (first_pos None query pound) = Join (map print_pair ps) '';''" if ps: "ps \<noteq> []"
  proof -
    let ?J = "Join (map print_pair ps) '';''"
    have P: "?P = CHR '';'' # ?J" using ps by (simp add: params_text_eq)
    have "S = (E @ '';'') @ ?J @ ?Q @ ?F" by (simp add: S_def P)
    moreover have "piece ((E @ '';'') @ ?J @ ?Q @ ?F) (length E + 1) (first_pos None query pound) = ?J"
      unfolding query_def pound_def e(2,3) first_pos_def
      using piece_mid(1) [of "length E + 1" "E @ '';''" "Some (length E + 1 + length ?J)" ?J "?Q @ ?F"]
        piece_mid(2) [of "length E + 1" "E @ '';''" None ?J] by (auto simp: P)
    ultimately show ?thesis by simp
  qed
  show "piece S (length (E @ ?P) + 1) pound = Join (map print_pair qs) ''&''" if qs: "qs \<noteq> []"
  proof -
    let ?K = "Join (map print_pair qs) ''&''"
    have Q: "?Q = CHR ''?'' # ?K" using qs by (simp add: query_text_def)
    have "S = (E @ ?P @ ''?'') @ ?K @ ?F" by (simp add: S_def Q)
    moreover have "piece ((E @ ?P @ ''?'') @ ?K @ ?F) (length (E @ ?P) + 1) pound = ?K"
      unfolding pound_def e(3)
      using piece_mid(1) [of "length (E @ ?P) + 1" "E @ ?P @ ''?''" "Some (length (E @ ?P) + 1 + length ?K)" ?K ?F]
        piece_mid(2) [of "length (E @ ?P) + 1" "E @ ?P @ ''?''" None ?K] by (auto simp: Q add.assoc)
    ultimately show ?thesis by simp
  qed
  show "drop (length (E @ ?P @ ?Q) + 1) S = f" if "f \<noteq> []"
    using that by (simp add: S_def frag_text_def)
qed

lemma url_path_roundtrip_aux:
  assumes "p_path p \<noteq> []" and "hd (p_path p) = CHR ''/''"
    and "sorted_map (p_params p)" and "sorted_map (p_query p)"
    and "[] \<notin> fst ` set (p_params p)" and "[] \<notin> fst ` set (p_query p)"
    and "set (p_frag p) \<inter> set ''%;?'' = {}"
  shows "StringToUrlPath (UrlPathToString p) \<lparr>p_path = [], p_params = [], p_query = [], p_frag = []\<rparr> = (True, p)"
proof -
  let ?E = "UrlEncode (p_path p) True" and ?ps = "p_params p" and ?qs = "p_query p" and ?f = "p_frag p"
  let ?S = "?E @ params_text ?ps @ query_text ?qs @ frag_text ?f"
  have S: "UrlPathToString p = ?S"
    by (simp add: UrlPathToString_def params_text_def query_text_def frag_text_def)
  obtain r where r: "p_path p = CHR ''/'' # r" using assms(1,2) by (cases "p_path p") auto
  have hd: "?S \<noteq> []" "hd ?S = CHR ''/''"
    by (simp_all add: r UrlEncode_def encode_char_def path_special_chars_def is_print_def)
  have plain: "CHR '';'' \<notin> set ?E" "CHR ''?'' \<notin> set ?E" "CHR ''#'' \<notin> set ?E"
    by (rule encode_plain; simp add: path_special_chars_def)+
  have frag: "CHR '';'' \<notin> set ?f" "CHR ''?'' \<notin> set ?f" "CHR ''%'' \<notin> set ?f" using assms(7) by auto
  have dec_frag: "UrlDecode ?f = Inr ?f"
  proof -
    have "decode_loop dNone t f = Inr f" if "CHR ''%'' \<notin> set f" for t f
      using that by (induction f) auto
    then show ?thesis using frag(3) by (simp add: UrlDecode_def)
  qed
  have put: "put_pairs (split_on c (Join (map print_pair m) [c])) [] = (True, m)"
    if "m \<noteq> []" "c \<in> set ''?#;&''" "[] \<notin> fst ` set m" "sorted_map m" for c m
    using that put_printed [of m "[]"] pairs_plain [OF that(2), of m] split_on_Join [of "map print_pair m" c] by force
  define semi query pound where "semi = (if ?ps = [] then None else Some (length ?E))"
    and "query = (if ?qs = [] then None else Some (length (?E @ params_text ?ps)))"
    and "pound = (if ?f = [] then None else Some (length (?E @ params_text ?ps @ query_text ?qs)))"
  note pos = positions [where ps = ?ps and qs = ?qs, OF plain frag(1,2), folded semi_def query_def pound_def]
  note pc = pieces [where ps = ?ps and E = ?E and qs = ?qs and f = ?f, folded semi_def query_def pound_def]
  have a: "UrlDecode (piece ?S 0 (first_pos semi query pound)) = Inr (p_path p)"
    unfolding pc(1) by (rule decode_encode)
  have b: "(case semi of None \<Rightarrow> (True, p1)
      | Some i \<Rightarrow> (case put_pairs (split_on (CHR '';'') (piece ?S (i + 1) (first_pos None query pound))) (p_params p1) of
          (ok, m) \<Rightarrow> (ok, p1\<lparr>p_params := m\<rparr>))) = (True, p1\<lparr>p_params := ?ps\<rparr>)" if "p_params p1 = []" for p1
    using that pc(2) put [of ?ps "CHR '';''"] assms(3,5) by (cases "?ps = []") (simp_all add: semi_def)
  have c: "(case query of None \<Rightarrow> (True, p2)
      | Some i \<Rightarrow> (case put_pairs (split_on (CHR ''&'') (piece ?S (i + 1) pound)) (p_query p2) of
          (ok, m) \<Rightarrow> (ok, p2\<lparr>p_query := m\<rparr>))) = (True, p2\<lparr>p_query := ?qs\<rparr>)" if "p_query p2 = []" for p2
    using that pc(3) put [of ?qs "CHR ''&''"] assms(4,6) by (cases "?qs = []") (simp_all add: query_def)
  have d: "(case pound of None \<Rightarrow> (True, p3)
      | Some i \<Rightarrow> (case UrlDecode (drop (i + 1) ?S) of Inl e \<Rightarrow> (False, p3) | Inr f \<Rightarrow> (True, p3\<lparr>p_frag := f\<rparr>))) =
      (True, p3\<lparr>p_frag := ?f\<rparr>)" if "p_frag p3 = []" for p3
    using that pc(4) dec_frag by (cases "?f = []") (simp_all add: pound_def)
  define q0 where "q0 = \<lparr>p_path = [], p_params = [], p_query = [], p_frag = []\<rparr>"
  have q0: "p_params (q0\<lparr>p_path := p_path p\<rparr>) = []" "p_query (q0\<lparr>p_path := p_path p, p_params := ?ps\<rparr>) = []"
    "p_frag (q0\<lparr>p_path := p_path p, p_params := ?ps, p_query := ?qs\<rparr>) = []"
    by (simp_all add: q0_def)
  have "q0\<lparr>p_path := p_path p, p_params := ?ps, p_query := ?qs, p_frag := ?f\<rparr> = p"
    by (cases p) (simp add: q0_def)
  then show ?thesis
    unfolding S q0_def [symmetric] StringToUrlPath_def pos Let_def a
    by (simp only: hd simp_thms if_False if_True sum.case prod.case b [OF q0(1)] c [OF q0(2)] d [OF q0(3)])
qed



text \<open>Where printing and parsing disagree: the user, the password and the host are printed unencoded and
  the parser takes the first \<open>@\<close>; the port is cut to 16 bits; \<open>://\<close> in a query is taken for the end of the scheme;
  and a path parsed into an object that has been used keeps the old query.\<close>

lemma host_not_encoded:
  "StringToUrlHost (UrlHostToString \<lparr>h_user = ''a@b'', h_password = [], h_host = ''h'', h_port = 0\<rparr>)
      \<lparr>h_user = [], h_password = [], h_host = [], h_port = 0\<rparr> =
   (True, \<lparr>h_user = ''a'', h_password = [], h_host = ''b@h'', h_port = 0\<rparr>)"
  by (simp add: UrlHostToString_def StringToUrlHost_def first_of_def from_pos_def UrlDecode_def)

lemma port_truncated:
  "StringToUrlHost ''h:65537'' \<lparr>h_user = [], h_password = [], h_host = [], h_port = 0\<rparr> =
   (True, \<lparr>h_user = [], h_password = [], h_host = ''h'', h_port = 1\<rparr>)"
  by (simp add: StringToUrlHost_def first_of_def from_pos_def UrlDecode_def stoi_def is_space_def is_digit_def digits_value_def)

lemma scheme_in_query:
  "u_scheme (snd (StringToUrl ''/go?u=http://x''
     \<lparr>u_scheme = [], u_host = \<lparr>h_user = [], h_password = [], h_host = [], h_port = 0\<rparr>,
      u_path = \<lparr>p_path = [], p_params = [], p_query = [], p_frag = []\<rparr>\<rparr>)) = ''/go?u=http''"
  by (simp add: StringToUrl_def str_find_def from_pos_def piece_def upto_def first_of_def StringToUrlHost_def UrlDecode_def split: prod.split)

lemma path_keeps_query:
  "StringToUrlPath ''/b'' \<lparr>p_path = ''/a'', p_params = [], p_query = [(''x'', ''1'')], p_frag = []\<rparr> =
   (True, \<lparr>p_path = ''/b'', p_params = [], p_query = [(''x'', ''1'')], p_frag = []\<rparr>)"
  by (simp add: StringToUrlPath_def first_of_def from_pos_def piece_def upto_def first_pos_def UrlDecode_def)

end
