(* ===== verification/Http_Request.thy ===== *)
theory Http_Request
  imports Http_Url
begin

text \<open>
  HTTP requests: the tables of \<open>modules/http/common.cpp\<close>, the messages of \<open>request.cpp\<close> and
  \<open>respond.cpp\<close>, and the incremental parser of \<open>server/request_parser.cpp\<close>, which the server calls with
  all it has received and which reports how much of it is used up. A header map is a list of entries in the order
  of the keys.
\<close>

section \<open>Methods, versions and status codes\<close>

datatype http_ver = VerUnset | k1_0 | k1_1 | k2_0

datatype http_method = MethUnset | kGet | kHead | kPut | kPost | kTrace | kOptions | kDelete

datatype status_code = StUnset
  | k200_OK | k201_Created | k202_Accepted
  | k203_NonAuthoritativeInformation | k204_NoContent | k205_ResetContent
  | k206_PartialContent | k300_MultipleChoices | k301_MovedPermanently
  | k302_Found | k303_SeeOther | k304_NotModified
  | k305_UseProxy | k307_TemporaryRedirect | k400_BadRequest
  | k401_Unauthorized | k402_PaymentRequired | k403_Forbidden
  | k404_NotFound | k405_MethodNotAllowed | k406_NotAcceptable
  | k407_ProxyAuthenticationRequired | k408_RequestTimeout | k409_Conflict
  | k410_Gone | k411_LengthRequired | k412_PreconditionFailed
  | k413_RequestEntityTooLarge | k414_RequestURITooLong | k415_UnsupportedMediaType
  | k416_RequestedRangeNotSatisfiable | k417_ExpectationFailed | k500_InternalServerError
  | k501_NotImplemented | k502_BadGateway | k503_ServiceUnavailable
  | k504_GatewayTimeout | k505_HTTPVersionNotSupported

definition http_ver_map :: "(http_ver \<times> string) list" where
  "http_ver_map = [(k1_0, ''HTTP/1.0''), (k1_1, ''HTTP/1.1''), (k2_0, ''HTTP/2.0'')]"

definition method_map :: "(http_method \<times> string) list" where
  "method_map = [(kGet, ''GET''), (kHead, ''HEAD''), (kPut, ''PUT''), (kPost, ''POST''), (kTrace, ''TRACE''),
      (kOptions, ''OPTIONS''), (kDelete, ''DELETE'')]"

definition status_code_map :: "(status_code \<times> string) list" where
  "status_code_map = [
      (k200_OK, ''200 OK''),
      (k201_Created, ''201 Created''),
      (k202_Accepted, ''202 Accepted''),
      (k203_NonAuthoritativeInformation, ''203 Non-Authoritative Information''),
      (k204_NoContent, ''204 No Content''),
      (k205_ResetContent, ''205 Reset Content''),
      (k206_PartialContent, ''206 Partial Content''),
      (k300_MultipleChoices, ''300 Multiple Choices''),
      (k301_MovedPermanently, ''301 Moved Permanently''),
      (k302_Found, ''302 Found''),
      (k303_SeeOther, ''303 See Other''),
      (k304_NotModified, ''304 Not Modified''),
      (k305_UseProxy, ''305 Use Proxy''),
      (k307_TemporaryRedirect, ''307 Temporary Redirect''),
      (k400_BadRequest, ''400 Bad Request''),
      (k401_Unauthorized, ''401 Unauthorized''),
      (k402_PaymentRequired, ''402 Payment Required''),
      (k403_Forbidden, ''403 Forbidden''),
      (k404_NotFound, ''404 Not Found''),
      (k405_MethodNotAllowed, ''405 Method Not Allowed''),
      (k406_NotAcceptable, ''406 Not Acceptable''),
      (k407_ProxyAuthenticationRequired, ''407 Proxy Authentication Required''),
      (k408_RequestTimeout, ''408 Request Timeout''),
      (k409_Conflict, ''409 Conflict''),
      (k410_Gone, ''410 Gone''),
      (k411_LengthRequired, ''411 Length Required''),
      (k412_PreconditionFailed, ''412 Precondition Failed''),
      (k413_RequestEntityTooLarge, ''413 Request Entity Too Large''),
      (k414_RequestURITooLong, ''414 Request URI Too Long''),
      (k415_UnsupportedMediaType, ''415 Unsupported Media Type''),
      (k416_RequestedRangeNotSatisfiable, ''416 Requested Range Not Satisfiable''),
      (k417_ExpectationFailed, ''417 Expectation Failed''),
      (k500_InternalServerError, ''500 Internal Server Error''),
      (k501_NotImplemented, ''501 Not Implemented''),
      (k502_BadGateway, ''502 Bad Gateway''),
      (k503_ServiceUnavailable, ''503 Service Unavailable''),
      (k504_GatewayTimeout, ''504 Gateway Timeout''),
      (k505_HTTPVersionNotSupported, ''505 HTTP Version Not Supported'')]"

definition text_of :: "('a \<times> string) list \<Rightarrow> 'a \<Rightarrow> string" where
  "text_of tab x = (case find (\<lambda>e. fst e = x) tab of Some e \<Rightarrow> snd e | None \<Rightarrow> [])"

definition code_of :: "'a \<Rightarrow> ('a \<times> string) list \<Rightarrow> string \<Rightarrow> 'a" where
  "code_of unset tab s = (case find (\<lambda>e. snd e = s) tab of Some e \<Rightarrow> fst e | None \<Rightarrow> unset)"

definition HttpVerToString :: "http_ver \<Rightarrow> string" where
  "HttpVerToString v = text_of http_ver_map v"

definition StringToHttpVer :: "string \<Rightarrow> http_ver" where
  "StringToHttpVer s = code_of VerUnset http_ver_map s"

definition MethodToString :: "http_method \<Rightarrow> string" where
  "MethodToString m = text_of method_map m"

definition StringToMethod :: "string \<Rightarrow> http_method" where
  "StringToMethod s = code_of MethUnset method_map s"

definition StatusCodeToString :: "status_code \<Rightarrow> string" where
  "StatusCodeToString c = text_of status_code_map c"

definition StringToStatusCode :: "string \<Rightarrow> status_code" where
  "StringToStatusCode s = code_of StUnset status_code_map s"

section \<open>Messages\<close>

abbreviation CRLF :: string where
  "CRLF \<equiv> [CHR 0x0D, CHR 0x0A]"

record request =
  rq_method :: http_method
  rq_ver :: http_ver
  rq_url :: url_path
  rq_headers :: smap
  rq_body :: string

record respond =
  rs_code :: status_code
  rs_ver :: http_ver
  rs_headers :: smap
  rs_body :: string

definition new_request :: request where
  "new_request = \<lparr>rq_method = MethUnset, rq_ver = VerUnset,
     rq_url = \<lparr>p_path = [], p_params = [], p_query = [], p_frag = []\<rparr>, rq_headers = [], rq_body = []\<rparr>"

definition head_line :: "string \<times> string \<Rightarrow> string" where
  "head_line h = fst h @ '': '' @ snd h @ CRLF"

definition message_rest :: "smap \<Rightarrow> string \<Rightarrow> string" where
  "message_rest hs body = concat (map head_line hs) @ head_line (''Content-Length'', dec (length body)) @ CRLF @ body"

definition request_toString :: "request \<Rightarrow> string" where
  "request_toString r = MethodToString (rq_method r) @ '' '' @ UrlPathToString (rq_url r) @ '' '' @ HttpVerToString (rq_ver r) @ CRLF @
     message_rest (rq_headers r) (rq_body r)"

definition request_isValid :: "request \<Rightarrow> bool" where
  "request_isValid r \<longleftrightarrow> rq_method r \<noteq> MethUnset \<and> rq_ver r \<noteq> VerUnset \<and> p_path (rq_url r) \<noteq> []"

definition respond_toString :: "respond \<Rightarrow> string" where
  "respond_toString r = HttpVerToString (rs_ver r) @ '' '' @ StatusCodeToString (rs_code r) @ CRLF @
     message_rest (rs_headers r) (rs_body r)"

definition respond_isValid :: "respond \<Rightarrow> bool" where
  "respond_isValid r \<longleftrightarrow> rs_code r \<noteq> StUnset \<and> rs_ver r \<noteq> VerUnset"

section \<open>The parser\<close>

datatype parse_state = psInit | psStartLine | psHeads | psAll | psFail

record parser =
  ps_state :: parse_state
  ps_req :: "request ptr"
  content_length :: usize

definition parser_new :: parser where
  "parser_new = \<lparr>ps_state = psInit, ps_req = None, content_length = 0\<rparr>"

text \<open>A section of \<open>parse\<close> ends the call, goes on to the next section, or throws.\<close>

datatype section_end = Done nat parser | Go nat parser | Throw cxx_error

definition failed :: "nat \<Rightarrow> parser \<Rightarrow> section_end" where
  "failed pos p = Done pos (p\<lparr>ps_state := psFail\<rparr>)"

definition before :: "pos \<Rightarrow> nat \<Rightarrow> bool" where
  "before p e \<longleftrightarrow> (case p of None \<Rightarrow> False | Some i \<Rightarrow> i < e)"

definition parse_start :: "string \<Rightarrow> parser \<Rightarrow> section_end" where
  "parse_start str p =
     (let rq = (case ps_req p of None \<Rightarrow> new_request | Some r \<Rightarrow> r);
          p1 = p\<lparr>content_length := - 1, ps_req := Some rq\<rparr>;
          method_end = first_of str '' '' (Some 0);
          meth = StringToMethod (piece str 0 method_end)
      in if meth = MethUnset then failed 0 p1
         else case str_find str CRLF method_end of
           None \<Rightarrow> Done 0 p1
         | Some end_pos \<Rightarrow>
             (let rq2 = rq\<lparr>rq_method := meth\<rparr>;
                  p2 = p1\<lparr>ps_req := Some rq2\<rparr>;
                  url_begin = first_not_of str '' '' method_end
              in if \<not> before url_begin end_pos then failed 0 p2
                 else let ub = the url_begin;
                          url_end = first_of str '' '' (Some ub);
                          (ok, u) = StringToUrlPath (piece str ub url_end) (rq_url rq2);
                          rq3 = rq2\<lparr>rq_url := u\<rparr>;
                          p3 = p2\<lparr>ps_req := Some rq3\<rparr>;
                          ver_begin = first_not_of str '' '' url_end
                   in if \<not> ok then failed 0 p3
                      else if \<not> before ver_begin end_pos then failed 0 p3
                      else let ver_str = piece str (the ver_begin) (Some end_pos);
                               ver = StringToHttpVer ver_str
                        in if take 5 ver_str \<noteq> ''HTTP/'' then failed 0 p3
                           else if ver = VerUnset then failed 0 p3
                           else Go (end_pos + 2) (p3\<lparr>ps_req := Some (rq3\<lparr>rq_ver := ver\<rparr>), ps_state := psStartLine\<rparr>)))"

lemma str_find_progress: "str_find s pat (Some p) = Some e \<Longrightarrow> p \<le> e \<and> e + length pat \<le> length s"
  using str_find_Some by blast

function (sequential) parse_heads :: "string \<Rightarrow> nat \<Rightarrow> parser \<Rightarrow> section_end" where
  "parse_heads str pos p = (case str_find str CRLF (Some pos) of
       None \<Rightarrow> Go pos p
     | Some end_pos \<Rightarrow>
         if end_pos = pos then Go (pos + 2) (p\<lparr>ps_state := psHeads\<rparr>)
         else let colon = first_of str '':'' (Some pos) in
           if \<not> before colon end_pos then failed pos p
           else let key = Strip (piece str pos colon);
                    value_begin = first_not_of str '' '' (Some (the colon + 1))
             in if \<not> before value_begin end_pos then failed pos p
                else case ps_req p of
                  None \<Rightarrow> Throw NullDeref
                | Some rq \<Rightarrow>
                    (let value = Strip (piece str (the value_begin) (Some end_pos));
                         p1 = p\<lparr>ps_req := Some (rq\<lparr>rq_headers := sm_put key value (rq_headers rq)\<rparr>)\<rparr>
                     in if key = ''Content-Length''
                        then (case stoi value of
                            Inl e \<Rightarrow> Throw e
                          | Inr n \<Rightarrow> parse_heads str (end_pos + 2) (p1\<lparr>content_length := word_of_int n\<rparr>))
                        else parse_heads str (end_pos + 2) p1))"
  by pat_completeness auto

termination
  by (relation "measure (\<lambda>(s, i, p). length s - i)") (auto dest: str_find_progress)

definition parse_body :: "string \<Rightarrow> nat \<Rightarrow> parser \<Rightarrow> section_end" where
  "parse_body str pos p = (case ps_req p of
       None \<Rightarrow> Throw NullDeref
     | Some rq \<Rightarrow>
         if content_length p \<noteq> - 1 then
           (if unat (content_length p) \<le> length str - pos
            then Done (pos + unat (content_length p))
                   (p\<lparr>ps_req := Some (rq\<lparr>rq_body := take (unat (content_length p)) (drop pos str)\<rparr>), ps_state := psAll\<rparr>)
            else Done pos p)
         else Done (length str) (p\<lparr>ps_req := Some (rq\<lparr>rq_body := drop pos str\<rparr>), ps_state := psAll\<rparr>))"

definition parse :: "string \<Rightarrow> parser \<Rightarrow> cxx_error + nat \<times> parser" where
  "parse str p =
     (case (if ps_state p = psInit then parse_start str p else Go 0 p) of
        Done n p1 \<Rightarrow> Inr (n, p1)
      | Throw e \<Rightarrow> Inl e
      | Go n1 p1 \<Rightarrow>
          (case (if ps_state p1 = psStartLine then parse_heads str n1 p1 else Go n1 p1) of
             Done n p2 \<Rightarrow> Inr (n, p2)
           | Throw e \<Rightarrow> Inl e
           | Go n2 p2 \<Rightarrow>
               (case (if ps_state p2 = psHeads then parse_body str n2 p2 else Done n2 p2) of
                  Done n p3 \<Rightarrow> Inr (n, p3)
                | Go n p3 \<Rightarrow> Inr (n, p3)
                | Throw e \<Rightarrow> Inl e)))"

definition getRequest :: "parser \<Rightarrow> request ptr \<times> parser" where
  "getRequest p = (if ps_state p = psAll then (ps_req p, p\<lparr>ps_req := None, ps_state := psInit\<rparr>) else (None, p))"

definition parser_swap :: "parser \<Rightarrow> parser \<Rightarrow> parser \<times> parser" where
  "parser_swap p q = (p\<lparr>ps_req := ps_req q, ps_state := ps_state q\<rparr>, q\<lparr>ps_req := ps_req p, ps_state := ps_state p\<rparr>)"

definition parser_reset :: "parser \<Rightarrow> parser" where
  "parser_reset p = fst (parser_swap p parser_new)"

end
