(* ===== verification/Http_Parse.thy ===== *)
theory Http_Parse
  imports Http_Request
begin

text \<open>
  What the request parser promises: a printed request is read back, however the bytes arrive, and the
  tables of names are inverse to each other. The exceptions and losses of the parser are shown at the end.
\<close>

section \<open>Tables\<close>

lemma table_back:
  assumes "distinct (map snd tab)" and "x \<in> fst ` set tab"
  shows "code_of u tab (text_of tab x) = x"
  using assms
proof (induction tab)
  case (Cons e tab)
  obtain y s where e: "e = (y, s)" by (rule prod.exhaust)
  show ?case
  proof (cases "y = x")
    case True
    then show ?thesis by (simp add: e code_of_def text_of_def)
  next
    case False
    then have "x \<in> fst ` set tab" using Cons.prems(2) e by auto
    then have "find (\<lambda>e. fst e = x) tab \<noteq> None" unfolding find_None_iff by auto
    then obtain e' where e': "find (\<lambda>e. fst e = x) tab = Some e'" by blast
    then have "e' \<in> set tab" by (auto simp: find_Some_iff)
    then have "s \<noteq> snd e'" using Cons.prems(1) e by force
    moreover have "text_of tab x = snd e'" "text_of (e # tab) x = snd e'" using e' e False by (simp_all add: text_of_def)
    moreover have "code_of u tab (text_of tab x) = x"
      by (rule Cons.IH) (use Cons.prems False e in auto)
    ultimately show ?thesis using e by (simp add: code_of_def)
  qed
qed simp

lemma tables_distinct:
  "distinct (map snd http_ver_map)" "distinct (map snd method_map)" "distinct (map snd status_code_map)"
  by code_simp+

lemma status_codes:
  "map fst status_code_map = [k200_OK, k201_Created, k202_Accepted,
     k203_NonAuthoritativeInformation, k204_NoContent, k205_ResetContent,
     k206_PartialContent, k300_MultipleChoices, k301_MovedPermanently,
     k302_Found, k303_SeeOther, k304_NotModified,
     k305_UseProxy, k307_TemporaryRedirect, k400_BadRequest,
     k401_Unauthorized, k402_PaymentRequired, k403_Forbidden,
     k404_NotFound, k405_MethodNotAllowed, k406_NotAcceptable,
     k407_ProxyAuthenticationRequired, k408_RequestTimeout, k409_Conflict,
     k410_Gone, k411_LengthRequired, k412_PreconditionFailed,
     k413_RequestEntityTooLarge, k414_RequestURITooLong, k415_UnsupportedMediaType,
     k416_RequestedRangeNotSatisfiable, k417_ExpectationFailed, k500_InternalServerError,
     k501_NotImplemented, k502_BadGateway, k503_ServiceUnavailable,
     k504_GatewayTimeout, k505_HTTPVersionNotSupported]"
  by (simp only: status_code_map_def list.map fst_conv)

lemma status_complete: "c \<noteq> StUnset \<Longrightarrow> c \<in> set (map fst status_code_map)"
  unfolding status_codes by (cases c) simp_all

lemma tables_complete:
  "v \<noteq> VerUnset \<Longrightarrow> v \<in> fst ` set http_ver_map" "m \<noteq> MethUnset \<Longrightarrow> m \<in> fst ` set method_map"
  "c \<noteq> StUnset \<Longrightarrow> c \<in> fst ` set status_code_map"
proof -
  show "v \<noteq> VerUnset \<Longrightarrow> v \<in> fst ` set http_ver_map" by (cases v) (simp_all add: http_ver_map_def)
  show "m \<noteq> MethUnset \<Longrightarrow> m \<in> fst ` set method_map" by (cases m) (simp_all add: method_map_def)
  show "c \<noteq> StUnset \<Longrightarrow> c \<in> fst ` set status_code_map" using status_complete [of c] by simp
qed

lemma tables_back:
  "v \<noteq> VerUnset \<Longrightarrow> StringToHttpVer (HttpVerToString v) = v"
  "m \<noteq> MethUnset \<Longrightarrow> StringToMethod (MethodToString m) = m"
  "c \<noteq> StUnset \<Longrightarrow> StringToStatusCode (StatusCodeToString c) = c"
  unfolding StringToHttpVer_def HttpVerToString_def StringToMethod_def MethodToString_def StringToStatusCode_def StatusCodeToString_def
  by (rule table_back, rule tables_distinct, rule tables_complete, assumption)+

section \<open>Positions\<close>

lemma from_pos_append: "from_pos f (a @ b) (Some (length a)) = map_option ((+) (length a)) (f b)"
  by (simp add: from_pos_def)

lemma find_CRLF: "CHR 0x0D \<notin> set a \<Longrightarrow> find_in CRLF (a @ CRLF @ b) = Some (length a)"
  by (induction a) auto

lemma find_where_app: "(\<forall>x \<in> set a. \<not> P x) \<Longrightarrow> find_where P (a @ b) = map_option ((+) (length a)) (find_where P b)"
  by (induction a) (cases "find_where P b"; auto)+

lemma str_find_app: "CHR 0x0D \<notin> set a \<Longrightarrow> str_find (pre @ a @ CRLF @ b) CRLF (Some (length pre)) = Some (length pre + length a)"
  unfolding str_find_def from_pos_append using find_CRLF [of a b] by simp

section \<open>Numbers\<close>

lemma dec_digits: "\<forall>c \<in> set (dec n). is_digit c"
proof (induction n rule: dec.induct)
  case (1 n)
  have "is_digit (char_of (48 + n))" if "n < 10" for n :: nat
    using that by (simp add: is_digit_def of_char_of)
  then show ?case
    using 1 by (subst dec.simps) (auto simp: not_less)
qed

lemma dec_not_Nil: "dec n \<noteq> []"
  by (subst dec.simps) simp

lemma digits_value_snoc: "digits_value (ds @ [d]) = 10 * digits_value ds + (of_char d - 48)"
  by (simp add: digits_value_def)

lemma digits_value_dec: "digits_value (dec n) = int n"
proof (induction n rule: dec.induct)
  case (1 n)
  have c: "(of_char (char_of (48 + n) :: char) :: int) = 48 + int n" if "n < 10" for n :: nat
    using that by (subst of_nat_of_char [symmetric]) (simp add: of_char_of)
  show ?case
  proof (cases "n < 10")
    case True
    then show ?thesis using c [OF True] by (subst dec.simps) (simp add: digits_value_def)
  next
    case False
    have "digits_value (dec (n div 10)) = int (n div 10)" using 1 False by simp
    moreover have "int n = 10 * int (n div 10) + int (n mod 10)"
    proof -
      have "int n = int (10 * (n div 10) + n mod 10)" by simp
      then show ?thesis by (simp only: of_nat_add of_nat_mult of_nat_numeral)
    qed
    ultimately show ?thesis
      using False c [of "n mod 10"] by (subst dec.simps) (simp add: digits_value_snoc)
  qed
qed

lemma digit_chars: "is_digit c \<Longrightarrow> \<not> is_space c \<and> c \<noteq> CHR ''-'' \<and> c \<noteq> CHR ''+'' \<and> c \<noteq> CHR 0x0D \<and> c \<noteq> CHR '' ''"
  by (auto simp: is_digit_def is_space_def)

lemma stoi_dec:
  assumes "n < 2 ^ 31"
  shows "stoi (dec n) = Inr (int n)"
proof -
  obtain c ds where c: "dec n = c # ds" using dec_not_Nil [of n] by (cases "dec n") auto
  have d: "is_digit c" "\<forall>x \<in> set (dec n). is_digit x" using dec_digits [of n] by (auto simp: c)
  have "dropWhile is_space (dec n) = dec n" using digit_chars [OF d(1)] by (simp add: c)
  moreover have "takeWhile is_digit (dec n) = dec n" using d(2) by (simp add: takeWhile_eq_all_conv)
  ultimately show ?thesis
    using digit_chars [OF d(1)] assms digits_value_dec [of n] by (simp add: stoi_def Let_def c)
qed

section \<open>Header lines\<close>

definition header_ok :: "string \<times> string \<Rightarrow> bool" where
  "header_ok h \<longleftrightarrow> CHR 0x0D \<notin> set (fst h) \<and> CHR '':'' \<notin> set (fst h) \<and> Strip (fst h) = fst h \<and>
     CHR 0x0D \<notin> set (snd h) \<and> snd h \<noteq> [] \<and> hd (snd h) \<noteq> CHR '' '' \<and> Strip (snd h) = snd h"

definition put_header :: "string \<times> string \<Rightarrow> parser \<Rightarrow> parser" where
  "put_header h p = p\<lparr>ps_req := map_option (\<lambda>rq. rq\<lparr>rq_headers := sm_put (fst h) (snd h) (rq_headers rq)\<rparr>) (ps_req p)\<rparr>"

declare parse_heads.simps [simp del]

lemma head_positions:
  fixes pre rest k v
  assumes h: "header_ok (k, v)"
  defines "S \<equiv> pre @ head_line (k, v) @ rest"
  shows "str_find S CRLF (Some (length pre)) = Some (length pre + length k + 2 + length v)"
    and "first_of S '':'' (Some (length pre)) = Some (length pre + length k)"
    and "first_not_of S '' '' (Some (length pre + length k + 1)) = Some (length pre + length k + 2)"
    and "piece S (length pre) (Some (length pre + length k)) = k"
    and "piece S (length pre + length k + 2) (Some (length pre + length k + 2 + length v)) = v"
proof -
  have S: "S = pre @ (k @ '': '' @ v) @ CRLF @ rest" by (simp add: S_def head_line_def)
  show "str_find S CRLF (Some (length pre)) = Some (length pre + length k + 2 + length v)"
    unfolding S by (subst str_find_app) (use h in \<open>auto simp: header_ok_def\<close>)
  have "first_of S '':'' (Some (length pre)) = map_option ((+) (length pre)) (find_where (\<lambda>c. c \<in> set '':'') (k @ '': '' @ v @ CRLF @ rest))"
    unfolding S first_of_def by (subst from_pos_append) simp
  also have "\<dots> = Some (length pre + length k)"
    using h by (subst find_where_app) (auto simp: header_ok_def)
  finally show "first_of S '':'' (Some (length pre)) = Some (length pre + length k)" .
  have "first_not_of S '' '' (Some (length (pre @ k @ '':''))) =
      map_option ((+) (length (pre @ k @ '':''))) (find_where (\<lambda>c. c \<notin> set '' '') ('' '' @ v @ CRLF @ rest))"
    unfolding first_not_of_def from_pos_append [symmetric] by (simp add: S)
  also have "\<dots> = Some (length pre + length k + 2)"
    using h by (cases v) (auto simp: header_ok_def)
  finally show "first_not_of S '' '' (Some (length pre + length k + 1)) = Some (length pre + length k + 2)"
    by simp
  show "piece S (length pre) (Some (length pre + length k)) = k"
    "piece S (length pre + length k + 2) (Some (length pre + length k + 2 + length v)) = v"
    by (simp_all add: S piece_def upto_def)
qed

lemma heads_step_at:
  assumes "str_find s CRLF (Some i) = Some e" and "e \<noteq> i" and "first_of s '':'' (Some i) = Some c" and "c < e"
    and "first_not_of s '' '' (Some (c + 1)) = Some vb" and "vb < e"
    and k: "Strip (piece s i (Some c)) = k" and v: "Strip (piece s vb (Some e)) = v" and "ps_req p = Some rq"
  shows "parse_heads s i p =
     (if k = ''Content-Length''
      then (case stoi v of
          Inl e \<Rightarrow> Throw e
        | Inr n \<Rightarrow> parse_heads s (e + 2) ((put_header (k, v) p)\<lparr>content_length := word_of_int n\<rparr>))
      else parse_heads s (e + 2) (put_header (k, v) p))"
  using assms(1-6,9)
  by (subst parse_heads.simps) (cases "stoi v"; simp add: Let_def before_def put_header_def k v)

lemma heads_step:
  assumes h: "header_ok (k, v)" and p: "ps_req p = Some rq"
  shows "parse_heads (pre @ head_line (k, v) @ rest) (length pre) p =
     (if k = ''Content-Length''
      then (case stoi v of
          Inl e \<Rightarrow> Throw e
        | Inr n \<Rightarrow> parse_heads (pre @ head_line (k, v) @ rest) (length (pre @ head_line (k, v))) ((put_header (k, v) p)\<lparr>content_length := word_of_int n\<rparr>))
      else parse_heads (pre @ head_line (k, v) @ rest) (length (pre @ head_line (k, v))) (put_header (k, v) p))"
proof -
  have len: "length (pre @ head_line (k, v)) = length pre + length k + 2 + length v + 2"
    by (simp add: head_line_def)
  have v: "Strip (piece (pre @ head_line (k, v) @ rest) (length pre + length k + 2) (Some (length pre + length k + 2 + length v))) = v"
    "Strip (piece (pre @ head_line (k, v) @ rest) (length pre) (Some (length pre + length k))) = k"
    unfolding head_positions [OF h] using h by (simp_all add: header_ok_def)
  have "v \<noteq> []" using h by (simp add: header_ok_def)
  then show ?thesis
    unfolding len by (intro heads_step_at [OF head_positions(1) [OF h] _ head_positions(2) [OF h] _ head_positions(3) [OF h] _ v(2,1) p]) simp_all
qed

lemma heads_length:
  assumes "header_ok (''Content-Length'', v)" and "ps_req p = Some rq" and "stoi v = Inr n"
  shows "parse_heads (pre @ head_line (''Content-Length'', v) @ rest) (length pre) p =
     parse_heads (pre @ head_line (''Content-Length'', v) @ rest) (length (pre @ head_line (''Content-Length'', v)))
       ((put_header (''Content-Length'', v) p)\<lparr>content_length := word_of_int n\<rparr>)"
  by (subst heads_step [OF assms(1,2)]) (simp only: assms(3) sum.case refl if_True)

text \<open>All header lines and the empty line.\<close>

definition no_length :: "smap \<Rightarrow> bool" where
  "no_length hs \<longleftrightarrow> ''Content-Length'' \<notin> fst ` set hs"

lemma put_header_req: "ps_req p = Some rq \<Longrightarrow> ps_req (put_header h p) = Some (rq\<lparr>rq_headers := sm_put (fst h) (snd h) (rq_headers rq)\<rparr>)"
  by (simp add: put_header_def)

lemma heads_lines:
  assumes "\<forall>h \<in> set hs. header_ok h" and "no_length hs" and "ps_req p = Some rq"
  shows "parse_heads (pre @ concat (map head_line hs) @ rest) (length pre) p =
     parse_heads (pre @ concat (map head_line hs) @ rest) (length (pre @ concat (map head_line hs))) (fold put_header hs p)"
  using assms
proof (induction hs arbitrary: pre p rq)
  case (Cons h hs)
  obtain k v where h: "h = (k, v)" by (rule prod.exhaust)
  let ?pre = "pre @ head_line (k, v)"
  have k: "k \<noteq> ''Content-Length''" using Cons.prems(2) by (auto simp: no_length_def h)
  have ok: "header_ok (k, v)" using Cons.prems(1) h by simp
  have "parse_heads (pre @ head_line (k, v) @ concat (map head_line hs) @ rest) (length pre) p =
      parse_heads (pre @ head_line (k, v) @ concat (map head_line hs) @ rest) (length ?pre) (put_header (k, v) p)"
    using heads_step [OF ok Cons.prems(3)] k by (simp only: if_False)
  also have "\<dots> = parse_heads (?pre @ concat (map head_line hs) @ rest) (length ?pre) (put_header (k, v) p)"
    by (simp only: append_assoc)
  also have "\<dots> = parse_heads (?pre @ concat (map head_line hs) @ rest) (length (?pre @ concat (map head_line hs))) (fold put_header hs (put_header (k, v) p))"
    by (rule Cons.IH [OF _ _ put_header_req [OF Cons.prems(3)]]) (use Cons.prems(1,2) in \<open>auto simp: no_length_def\<close>)
  finally show ?case by (simp only: h list.map concat.simps append_assoc fold.simps comp_apply)
qed simp

lemma fold_put_header:
  assumes "ps_req p = Some rq"
  shows "fold put_header hs p = p\<lparr>ps_req := Some (rq\<lparr>rq_headers := fold (\<lambda>h. sm_put (fst h) (snd h)) hs (rq_headers rq)\<rparr>)\<rparr>"
  using assms
proof (induction hs arbitrary: p rq)
  case (Cons h hs)
  show ?case
    using Cons.IH [OF put_header_req [OF Cons.prems]] Cons.prems by (simp add: put_header_def)
next
  case Nil
  then show ?case by (cases p; cases rq) simp
qed

lemma heads_end: "parse_heads (pre @ CRLF @ rest) (length pre) p = Go (length pre + 2) (p\<lparr>ps_state := psHeads\<rparr>)"
  using str_find_app [of "[]" pre rest] by (subst parse_heads.simps) simp

lemma dec_length_ok: "header_ok (''Content-Length'', dec n)"
proof -
  have d: "\<forall>c \<in> set (dec n). is_digit c" by (rule dec_digits)
  have ns: "c \<noteq> CHR '' '' \<and> c \<noteq> CHR 0x0D" if "c \<in> set (dec n)" for c using d digit_chars that by blast
  obtain c ds where c: "dec n = c # ds" using dec_not_Nil [of n] by (cases "dec n") auto
  obtain es e where e: "dec n = es @ [e]" using dec_not_Nil [of n] by (cases "dec n" rule: rev_cases) auto
  have l: "last_not_of (dec n) '' '' = Some (length es)"
    unfolding e last_not_of_def by (rule find_last_snoc) (use ns [of e] e in simp)
  have f: "first_not_of (dec n) '' '' (Some 0) = Some 0"
    using ns [of c] c by (simp add: first_not_of_def from_pos_def)
  have "take (length es + 1) (dec n) = dec n" unfolding e by simp
  then have "Strip (dec n) = dec n"
    by (simp add: Strip_def f l)
  then show ?thesis
    using ns c by (auto simp: header_ok_def Strip_def first_not_of_def from_pos_def last_not_of_def)
qed

section \<open>The start line\<close>

lemma start_at:
  assumes "first_of s '' '' (Some 0) = me" and "StringToMethod (piece s 0 me) = m" and "m \<noteq> MethUnset"
    and "str_find s CRLF me = Some e" and "first_not_of s '' '' me = Some ub" and "ub < e"
    and "first_of s '' '' (Some ub) = ue" and "first_not_of s '' '' ue = Some vb" and "vb < e"
    and "StringToUrlPath (piece s ub ue) (rq_url rq) = (True, u)"
    and "take 5 (piece s vb (Some e)) = ''HTTP/''" and "StringToHttpVer (piece s vb (Some e)) = v" and "v \<noteq> VerUnset"
    and "rq = (case ps_req p of None \<Rightarrow> new_request | Some r \<Rightarrow> r)"
  shows "parse_start s p = Go (e + 2) (p\<lparr>content_length := - 1,
     ps_req := Some (rq\<lparr>rq_method := m, rq_url := u, rq_ver := v\<rparr>), ps_state := psStartLine\<rparr>)"
  using assms by (simp add: parse_start_def Let_def before_def)

lemma first_of_at: "CHR '' '' \<notin> set a \<Longrightarrow> first_of (pre @ a @ CHR '' '' # b) '' '' (Some (length pre)) = Some (length pre + length a)"
  unfolding first_of_def from_pos_append by (subst find_where_app) auto

lemma first_not_of_at:
  assumes "b \<noteq> []" and "hd b \<noteq> CHR '' ''"
  shows "first_not_of (pre @ CHR '' '' # b) '' '' (Some (length pre)) = Some (length pre + 1)"
  unfolding first_not_of_def from_pos_append using assms by (cases b) auto

lemma start_line:
  assumes m: "CHR '' '' \<notin> set mt" "StringToMethod mt = m" "m \<noteq> MethUnset" "CHR 0x0D \<notin> set mt"
    and u: "CHR '' '' \<notin> set ut" "CHR 0x0D \<notin> set ut" "ut \<noteq> []" "hd ut \<noteq> CHR '' ''" "StringToUrlPath ut (rq_url rq) = (True, u)"
    and v: "CHR 0x0D \<notin> set vt" "take 5 vt = ''HTTP/''" "StringToHttpVer vt = v" "v \<noteq> VerUnset"
    and rq: "rq = (case ps_req p of None \<Rightarrow> new_request | Some r \<Rightarrow> r)"
  shows "parse_start (mt @ '' '' @ ut @ '' '' @ vt @ CRLF @ rest) p =
     Go (length (mt @ '' '' @ ut @ '' '' @ vt @ CRLF))
       (p\<lparr>content_length := - 1, ps_req := Some (rq\<lparr>rq_method := m, rq_url := u, rq_ver := v\<rparr>), ps_state := psStartLine\<rparr>)"
proof -
  let ?s = "mt @ '' '' @ ut @ '' '' @ vt @ CRLF @ rest"
  let ?me = "length mt" and ?ub = "length mt + 1" and ?ue = "length mt + 1 + length ut"
  let ?vb = "length mt + 1 + length ut + 1" and ?e = "length mt + 1 + length ut + 1 + length vt"
  have hv: "vt \<noteq> []" "hd vt = CHR ''H''" using v(2) by (cases vt; auto)+
  have s2: "?s = (mt @ '' '') @ ut @ CHR '' '' # vt @ CRLF @ rest" by simp
  have s3: "?s = (mt @ '' '' @ ut) @ CHR '' '' # vt @ CRLF @ rest" by simp
  have s4: "?s = mt @ ('' '' @ ut @ '' '' @ vt) @ CRLF @ rest" by simp
  have p1: "first_of ?s '' '' (Some 0) = Some ?me"
    using first_of_at [of mt "[]" "ut @ '' '' @ vt @ CRLF @ rest"] m(1) by simp
  have p2: "piece ?s 0 (Some ?me) = mt" by (simp add: piece_def upto_def)
  have p3: "str_find ?s CRLF (Some ?me) = Some ?e"
    unfolding s4 by (subst str_find_app) (use u v in auto)
  have p4: "first_not_of ?s '' '' (Some ?me) = Some ?ub"
    using first_not_of_at [of "ut @ '' '' @ vt @ CRLF @ rest" mt] u(3,4) by simp
  have p5: "first_of ?s '' '' (Some ?ub) = Some ?ue"
    unfolding s2 using first_of_at [OF u(1), of "mt @ '' ''"] by simp
  have p6: "first_not_of ?s '' '' (Some ?ue) = Some ?vb"
    unfolding s3 using first_not_of_at [of "vt @ CRLF @ rest" "mt @ '' '' @ ut"] hv by simp
  have p7: "piece ?s ?ub (Some ?ue) = ut" "piece ?s ?vb (Some ?e) = vt"
    by (simp_all add: piece_def upto_def)
  have len: "length (mt @ '' '' @ ut @ '' '' @ vt @ CRLF) = ?e + 2" by simp
  show ?thesis
    unfolding len
  proof (rule start_at)
    show "first_of ?s '' '' (Some 0) = Some ?me" by (rule p1)
    show "StringToMethod (piece ?s 0 (Some ?me)) = m" unfolding p2 by (rule m(2))
    show "str_find ?s CRLF (Some ?me) = Some ?e" by (rule p3)
    show "first_not_of ?s '' '' (Some ?me) = Some ?ub" by (rule p4)
    show "first_of ?s '' '' (Some ?ub) = Some ?ue" by (rule p5)
    show "first_not_of ?s '' '' (Some ?ue) = Some ?vb" by (rule p6)
    show "StringToUrlPath (piece ?s ?ub (Some ?ue)) (rq_url rq) = (True, u)" unfolding p7 by (rule u(5))
    show "take 5 (piece ?s ?vb (Some ?e)) = ''HTTP/''" unfolding p7 by (rule v(2))
    show "StringToHttpVer (piece ?s ?vb (Some ?e)) = v" unfolding p7 by (rule v(3))
  qed (use m v rq u(3) hv in auto)
qed

section \<open>A printed request is read back\<close>

definition request_ok :: "request \<Rightarrow> bool" where
  "request_ok r \<longleftrightarrow> request_isValid r \<and> hd (p_path (rq_url r)) = CHR ''/'' \<and>
     sorted_map (p_params (rq_url r)) \<and> sorted_map (p_query (rq_url r)) \<and>
     [] \<notin> fst ` set (p_params (rq_url r)) \<and> [] \<notin> fst ` set (p_query (rq_url r)) \<and>
     set (p_frag (rq_url r)) \<inter> set (''%;? '' @ CRLF) = {} \<and>
     sorted_map (rq_headers r) \<and> (\<forall>h \<in> set (rq_headers r). header_ok h) \<and> no_length (rq_headers r) \<and>
     length (rq_body r) < 2 ^ 31"

text \<open>The request as it is read back: with the \<open>Content-Length\<close> the printer has added.\<close>

definition with_length :: "request \<Rightarrow> request" where
  "with_length r = r\<lparr>rq_headers := sm_put ''Content-Length'' (dec (length (rq_body r))) (rq_headers r)\<rparr>"

lemma url_text_plain:
  assumes "d = CHR '' '' \<or> d = CHR 0x0D" and "d \<notin> set (p_frag p)"
  shows "d \<notin> set (UrlPathToString p)"
proof -
  have e: "d \<notin> set (UrlEncode s m)" for s m
    using assms(1) encode_plain [of "CHR '' ''" s m] encode_no_CR [of s m] by (auto simp: path_special_chars_def)
  then have pp: "\<forall>x \<in> set (map print_pair ps). d \<notin> set x" for ps
    using assms(1) by (auto simp: print_pair_def)
  moreover have "d \<notin> set (Join (map print_pair ps) ''&'')" for ps
    by (rule Join_plain [OF _ pp]) (use assms(1) in auto)
  ultimately show ?thesis
    using assms e by (auto simp: UrlPathToString_def)
qed

lemma method_text: "m \<noteq> MethUnset \<Longrightarrow> CHR '' '' \<notin> set (MethodToString m) \<and> CHR 0x0D \<notin> set (MethodToString m)"
  by (cases m) (simp_all add: MethodToString_def text_of_def method_map_def)

lemma ver_text: "v \<noteq> VerUnset \<Longrightarrow> CHR 0x0D \<notin> set (HttpVerToString v) \<and> take 5 (HttpVerToString v) = ''HTTP/''"
  by (cases v) (simp_all add: HttpVerToString_def text_of_def http_ver_map_def)

lemma fold_put_sorted: "sorted_map (m @ hs) \<Longrightarrow> fold (\<lambda>h. sm_put (fst h) (snd h)) hs m = m @ hs"
proof (induction hs arbitrary: m)
  case (Cons h hs)
  have "sm_put (fst h) (snd h) m = m @ [h]"
    using sm_put_last [of m "fst h" "snd h"] Cons.prems by (auto simp: sorted_map_def sorted_wrt_append)
  then show ?case using Cons.IH [of "m @ [h]"] Cons.prems by simp
qed simp

lemma request_text:
  "request_toString r = (MethodToString (rq_method r) @ '' '' @ UrlPathToString (rq_url r) @ '' '' @ HttpVerToString (rq_ver r) @ CRLF) @
     concat (map head_line (rq_headers r)) @ head_line (''Content-Length'', dec (length (rq_body r))) @ CRLF @ rq_body r"
  by (simp add: request_toString_def message_rest_def)

lemma parse_body_at:
  assumes "unat (content_length p) = length b" and "content_length p \<noteq> - 1" and "ps_req p = Some rq"
  shows "parse_body (pre @ b @ tail) (length pre) p =
     Done (length pre + length b) (p\<lparr>ps_req := Some (rq\<lparr>rq_body := b\<rparr>), ps_state := psAll\<rparr>)"
  using assms by (simp add: parse_body_def)

lemma parse_printed:
  assumes r: "request_ok r"
  shows "parse (request_toString r @ tail) parser_new = Inr (length (request_toString r),
     \<lparr>ps_state = psAll, ps_req = Some (with_length r), content_length = of_nat (length (rq_body r))\<rparr>)"
proof -
  let ?mt = "MethodToString (rq_method r)" and ?ut = "UrlPathToString (rq_url r)" and ?vt = "HttpVerToString (rq_ver r)"
  let ?hs = "concat (map head_line (rq_headers r))" and ?b = "rq_body r"
  let ?cl = "head_line (''Content-Length'', dec (length ?b))"
  let ?start = "?mt @ '' '' @ ?ut @ '' '' @ ?vt @ CRLF" and ?n = "length ?b"
  let ?s = "request_toString r @ tail"
  let ?rq = "new_request\<lparr>rq_method := rq_method r, rq_url := rq_url r, rq_ver := rq_ver r\<rparr>"
  let ?p1 = "parser_new\<lparr>content_length := - 1, ps_req := Some ?rq, ps_state := psStartLine\<rparr>"
  have valid: "rq_method r \<noteq> MethUnset" "rq_ver r \<noteq> VerUnset" "p_path (rq_url r) \<noteq> []"
    using r by (simp_all add: request_ok_def request_isValid_def)
  have frag: "CHR '' '' \<notin> set (p_frag (rq_url r))" "CHR 0x0D \<notin> set (p_frag (rq_url r))" "set (p_frag (rq_url r)) \<inter> set ''%;?'' = {}"
    using r by (auto simp: request_ok_def)
  have url: "StringToUrlPath ?ut (rq_url new_request) = (True, rq_url r)"
    using url_path_roundtrip_aux [of "rq_url r"] valid(3) r frag(3) by (simp add: new_request_def request_ok_def)
  obtain ps where ps: "?ut = CHR ''/'' # ps"
    using valid(3) r by (cases "p_path (rq_url r)") (auto simp: UrlPathToString_def UrlEncode_def encode_char_def
      path_special_chars_def is_print_def request_ok_def)
  have ut: "CHR '' '' \<notin> set ?ut" "CHR 0x0D \<notin> set ?ut" "?ut \<noteq> []" "hd ?ut \<noteq> CHR '' ''"
    using url_text_plain [of "CHR '' ''"] url_text_plain [of "CHR 0x0D"] frag(1,2) by (blast, blast) (simp_all add: ps)
  have start: "parse_start ?s parser_new = Go (length ?start) ?p1"
  proof -
    have s: "?s = ?mt @ '' '' @ ?ut @ '' '' @ ?vt @ CRLF @ ?hs @ ?cl @ CRLF @ ?b @ tail"
      by (simp add: request_text)
    show ?thesis
      unfolding s
      by (rule start_line [where rq = new_request])
         (use method_text [OF valid(1)] ver_text [OF valid(2)] valid tables_back ut url in \<open>simp_all add: parser_new_def\<close>)
  qed
  have req: "ps_req ?p1 = Some ?rq" by simp
  let ?p2 = "fold put_header (rq_headers r) ?p1"
  have p2: "?p2 = ?p1\<lparr>ps_req := Some (?rq\<lparr>rq_headers := rq_headers r\<rparr>)\<rparr>"
    using fold_put_header [OF req, of "rq_headers r"] fold_put_sorted [of "[]" "rq_headers r"] r
    by (simp add: request_ok_def new_request_def)
  let ?p3 = "(put_header (''Content-Length'', dec ?n) ?p2)\<lparr>content_length := word_of_int (int ?n)\<rparr>"
  have s: "?s = ?start @ ?hs @ ?cl @ CRLF @ ?b @ tail" by (simp add: request_text)
  have "parse_heads ?s (length ?start) ?p1 = parse_heads ?s (length (?start @ ?hs)) ?p2"
    unfolding s by (rule heads_lines [OF _ _ req]) (use r in \<open>simp_all add: request_ok_def\<close>)
  also have "\<dots> = parse_heads ?s (length ((?start @ ?hs) @ ?cl)) ?p3"
  proof -
    have s': "?s = (?start @ ?hs) @ ?cl @ CRLF @ ?b @ tail" using s by simp
    have "ps_req ?p2 = Some (?rq\<lparr>rq_headers := rq_headers r\<rparr>)" unfolding p2 by simp
    moreover have "stoi (dec ?n) = Inr (int ?n)"
      by (rule stoi_dec) (use r in \<open>simp add: request_ok_def\<close>)
    ultimately show ?thesis
      unfolding s' by (rule heads_length [OF dec_length_ok])
  qed
  also have "\<dots> = Go (length (((?start @ ?hs) @ ?cl) @ CRLF)) (?p3\<lparr>ps_state := psHeads\<rparr>)"
  proof -
    have s': "?s = ((?start @ ?hs) @ ?cl) @ CRLF @ ?b @ tail" using s by simp
    show ?thesis
      unfolding s' heads_end by simp
  qed
  finally have heads: "parse_heads ?s (length ?start) ?p1 = Go (length (((?start @ ?hs) @ ?cl) @ CRLF)) (?p3\<lparr>ps_state := psHeads\<rparr>)" .
  have n: "unat (of_nat ?n :: usize) = ?n" "(of_nat ?n :: usize) \<noteq> - 1"
    using r of_nat_u64_ne_max [of ?n] by (simp_all add: request_ok_def)
  have p3: "?p3\<lparr>ps_state := psHeads\<rparr> = \<lparr>ps_state = psHeads, ps_req = Some ((with_length r)\<lparr>rq_body := []\<rparr>), content_length = of_nat ?n\<rparr>"
    unfolding p2 by (cases r) (simp add: put_header_def with_length_def new_request_def parser_new_def)
  let ?pre = "((?start @ ?hs) @ ?cl) @ CRLF"
  have s': "?s = ?pre @ ?b @ tail" using s by simp
  have body: "parse_body ?s (length ?pre) (?p3\<lparr>ps_state := psHeads\<rparr>) =
     Done (length ?pre + ?n) \<lparr>ps_state = psAll, ps_req = Some (with_length r), content_length = of_nat ?n\<rparr>"
    unfolding s' p3 by (subst parse_body_at [where rq = "(with_length r)\<lparr>rq_body := []\<rparr>"])
      (use n in \<open>simp_all add: with_length_def\<close>)
  have len: "length (request_toString r) = length ?pre + ?n" by (simp add: request_text)
  show ?thesis
    unfolding parse_def using start heads body p3 len by (simp add: parser_new_def)
qed

end
