(* ===== verification/Tcp_Server.thy ===== *)
theory Tcp_Server
  imports Cabinet
begin

text \<open>
  The TCP server of \<open>modules/network/tcp_server.cpp\<close> and its connections (\<open>tcp_connection.cpp\<close>): connections
  live in a store, a cabinet gives out their tokens, and what was sent to a client and what has been received and not
  yet read is kept with the descriptor. \<open>sp_buffered_fd_\<close> is null (\<open>None\<close>) once a connection is closed; the
  deletion of connections is deferred to the loop.
\<close>

type_synonym addr = nat

record wire =
  wire_out :: "string list"   \<comment> \<open>the texts handed to \<open>send\<close>, in order\<close>
  wire_in :: string           \<comment> \<open>received and not yet read\<close>
  rd_shut :: bool

record tcp_conn =
  tc_fd :: "wire ptr"
  tc_ctx :: "addr ptr"

datatype tcp_state = tcpNone | tcpInited | tcpRunning

record tcp_server =
  ts_state :: tcp_state
  ts_conns :: "addr cabinet"
  ts_objs :: "addr \<Rightarrow> tcp_conn option"
  ts_dying :: "addr list"     \<comment> \<open>handed to \<open>runNext\<close> for deletion\<close>

definition tcp_new :: tcp_server where
  "tcp_new = \<lparr>ts_state = tcpNone, ts_conns = cab_empty, ts_objs = Map.empty, ts_dying = []\<rparr>"

section \<open>One connection\<close>

definition conn_open :: tcp_conn where
  "conn_open = \<lparr>tc_fd = Some \<lparr>wire_out = [], wire_in = [], rd_shut = False\<rparr>, tc_ctx = None\<rparr>"

definition conn_send :: "string \<Rightarrow> tcp_conn \<Rightarrow> bool \<times> tcp_conn" where
  "conn_send d c = (case tc_fd c of
       None \<Rightarrow> (False, c)
     | Some w \<Rightarrow> (True, c\<lparr>tc_fd := Some (w\<lparr>wire_out := wire_out w @ [d]\<rparr>)\<rparr>))"

definition conn_shutdown :: "tcp_conn \<Rightarrow> bool \<times> tcp_conn" where
  "conn_shutdown c = (case tc_fd c of
       None \<Rightarrow> (False, c)
     | Some w \<Rightarrow> (True, c\<lparr>tc_fd := Some (w\<lparr>rd_shut := True\<rparr>)\<rparr>))"

definition conn_disconnect :: "tcp_conn \<Rightarrow> bool \<times> tcp_conn" where
  "conn_disconnect c = (case tc_fd c of None \<Rightarrow> (False, c) | Some w \<Rightarrow> (True, c\<lparr>tc_fd := None\<rparr>))"

section \<open>The server\<close>

definition put_tcp :: "addr \<Rightarrow> tcp_conn \<Rightarrow> tcp_server \<Rightarrow> tcp_server" where
  "put_tcp a c s = s\<lparr>ts_objs := (ts_objs s)(a \<mapsto> c)\<rparr>"

text \<open>The object a token stands for, if any.\<close>

definition conn_at :: "token \<Rightarrow> tcp_server \<Rightarrow> cxx_error + (addr \<times> tcp_conn) option" where
  "conn_at t s = (case cab_at t (ts_conns s) of
       Inl e \<Rightarrow> Inl e
     | Inr None \<Rightarrow> Inr None
     | Inr (Some a) \<Rightarrow> (case ts_objs s a of None \<Rightarrow> Inl UseAfterFree | Some c \<Rightarrow> Inr (Some (a, c))))"

definition isClientValid :: "token \<Rightarrow> tcp_server \<Rightarrow> cxx_error + bool" where
  "isClientValid t s = (case cab_at t (ts_conns s) of Inl e \<Rightarrow> Inl e | Inr p \<Rightarrow> Inr (p \<noteq> None))"

definition tcp_send :: "token \<Rightarrow> string \<Rightarrow> tcp_server \<Rightarrow> cxx_error + bool \<times> tcp_server" where
  "tcp_send t d s = (case conn_at t s of
       Inl e \<Rightarrow> Inl e
     | Inr None \<Rightarrow> Inr (False, s)
     | Inr (Some (a, c)) \<Rightarrow> (case conn_send d c of (ok, c') \<Rightarrow> Inr (ok, put_tcp a c' s)))"

definition tcp_shutdown :: "token \<Rightarrow> tcp_server \<Rightarrow> cxx_error + bool \<times> tcp_server" where
  "tcp_shutdown t s = (case conn_at t s of
       Inl e \<Rightarrow> Inl e
     | Inr None \<Rightarrow> Inr (False, s)
     | Inr (Some (a, c)) \<Rightarrow> (case conn_shutdown c of (ok, c') \<Rightarrow> Inr (ok, put_tcp a c' s)))"

definition setContext :: "token \<Rightarrow> addr \<Rightarrow> tcp_server \<Rightarrow> cxx_error + tcp_server" where
  "setContext t x s = (case conn_at t s of
       Inl e \<Rightarrow> Inl e
     | Inr None \<Rightarrow> Inr s
     | Inr (Some (a, c)) \<Rightarrow> Inr (put_tcp a (c\<lparr>tc_ctx := Some x\<rparr>) s))"

definition getContext :: "token \<Rightarrow> tcp_server \<Rightarrow> cxx_error + addr ptr" where
  "getContext t s = (case conn_at t s of
       Inl e \<Rightarrow> Inl e
     | Inr None \<Rightarrow> Inr None
     | Inr (Some (a, c)) \<Rightarrow> Inr (tc_ctx c))"

definition tcp_disconnect :: "token \<Rightarrow> tcp_server \<Rightarrow> cxx_error + bool \<times> tcp_server" where
  "tcp_disconnect t s = (case cab_free t (ts_conns s) of
       Inl e \<Rightarrow> Inl e
     | Inr (None, c) \<Rightarrow> Inr (False, s\<lparr>ts_conns := c\<rparr>)
     | Inr (Some a, c) \<Rightarrow> (case ts_objs s a of
           None \<Rightarrow> Inl UseAfterFree
         | Some tc \<Rightarrow> Inr (True, (put_tcp a (snd (conn_disconnect tc)) s)\<lparr>ts_conns := c, ts_dying := ts_dying s @ [a]\<rparr>)))"

text \<open>A new connection at address \<open>a\<close>: the part of \<open>onTcpConnected\<close> before the callback.\<close>

definition tcp_onConnected :: "addr \<Rightarrow> tcp_server \<Rightarrow> cxx_error + token \<times> tcp_server" where
  "tcp_onConnected a s = (case cab_alloc (Some a) (ts_conns s) of
       Inl e \<Rightarrow> Inl e
     | Inr (t, c) \<Rightarrow> Inr (t, (put_tcp a conn_open s)\<lparr>ts_conns := c\<rparr>))"

text \<open>The peer closed: \<open>TcpConnection::onSocketClosed\<close> up to the callback, and the part of
  \<open>TcpServer::onTcpDisconnected\<close> after it.\<close>

definition tcp_onSocketClosed :: "token \<Rightarrow> tcp_server \<Rightarrow> cxx_error + tcp_server" where
  "tcp_onSocketClosed t s = (case conn_at t s of
       Inl e \<Rightarrow> Inl e
     | Inr None \<Rightarrow> Inl NullDeref
     | Inr (Some (a, c)) \<Rightarrow> (case tc_fd c of None \<Rightarrow> Inl NullDeref | Some w \<Rightarrow> Inr (put_tcp a (c\<lparr>tc_fd := None\<rparr>) s)))"

definition tcp_onDisconnected :: "token \<Rightarrow> tcp_server \<Rightarrow> cxx_error + tcp_server" where
  "tcp_onDisconnected t s = (case cab_free t (ts_conns s) of
       Inl e \<Rightarrow> Inl e
     | Inr (p, c) \<Rightarrow> Inr (s\<lparr>ts_conns := c, ts_dying := ts_dying s @ (case p of None \<Rightarrow> [] | Some a \<Rightarrow> [a])\<rparr>))"

text \<open>The loop runs the deferred deletions.\<close>

fun delete_all :: "addr list \<Rightarrow> tcp_server \<Rightarrow> cxx_error + tcp_server" where
  "delete_all [] s = Inr s"
| "delete_all (a # as) s =
     (if ts_objs s a = None then Inl UseAfterFree else delete_all as (s\<lparr>ts_objs := (ts_objs s)(a := None)\<rparr>))"

definition tcp_runNext :: "tcp_server \<Rightarrow> cxx_error + tcp_server" where
  "tcp_runNext s = delete_all (ts_dying s) (s\<lparr>ts_dying := []\<rparr>)"

definition tcp_initialize :: "bool \<Rightarrow> tcp_server \<Rightarrow> bool \<times> tcp_server" where
  "tcp_initialize bound s = (if ts_state s \<noteq> tcpNone then (False, s)
     else if bound then (True, s\<lparr>ts_state := tcpInited\<rparr>) else (False, s))"

definition tcp_start :: "bool \<Rightarrow> tcp_server \<Rightarrow> bool \<times> tcp_server" where
  "tcp_start listening s = (if ts_state s \<noteq> tcpInited then (False, s)
     else if listening then (True, s\<lparr>ts_state := tcpRunning\<rparr>) else (False, s))"

fun foreach_delete :: "addr ptr list \<Rightarrow> tcp_server \<Rightarrow> cxx_error + tcp_server" where
  "foreach_delete [] s = Inr s"
| "foreach_delete (None # ps) s = Inl NullDeref"
| "foreach_delete (Some a # ps) s =
     (if ts_objs s a = None then Inl UseAfterFree else foreach_delete ps (s\<lparr>ts_objs := (ts_objs s)(a := None)\<rparr>))"

definition tcp_stop :: "tcp_server \<Rightarrow> cxx_error + tcp_server" where
  "tcp_stop s = (if ts_state s \<noteq> tcpRunning then Inr s
     else case cab_foreach (ts_conns s) of
       Inl e \<Rightarrow> Inl e
     | Inr ps \<Rightarrow> (case foreach_delete ps s of
         Inl e \<Rightarrow> Inl e
       | Inr s' \<Rightarrow> Inr (s'\<lparr>ts_conns := cab_clear (ts_conns s'), ts_state := tcpInited\<rparr>)))"

definition tcp_cleanup :: "tcp_server \<Rightarrow> cxx_error + tcp_server" where
  "tcp_cleanup s = (if ts_state s = tcpNone then Inr s
     else case tcp_stop s of Inl e \<Rightarrow> Inl e | Inr s' \<Rightarrow> Inr (s'\<lparr>ts_state := tcpNone\<rparr>))"

end
