(* ===== verification/Http_Server.thy ===== *)
theory Http_Server
  imports Http_Request Tcp_Server "HOL-Library.AList"
begin

text \<open>
  The HTTP server of \<open>modules/http/server/server_imp.cpp\<close> with its contexts (\<open>context.cpp\<close>) and the router
  (\<open>router.cpp\<close>): requests that arrive one after the other on a connection may be answered in any order, and the
  server sends the answers in the order of the requests. A \<open>Connection\<close> is an object at an address that is the
  context of its TCP connection. A middleware is a function that edits the response and then drops the request, calls
  the next one, or keeps the request and decides later; the indices are integers, whose wrap after \<open>2 ^ 31\<close> requests on one
  connection is not modelled.
\<close>

section \<open>Connections\<close>

definition int_max :: int where
  "int_max = 2147483647"

record connection =
  req_parser :: parser
  req_index :: int
  res_index :: int
  close_index :: int
  res_buff :: "(int \<times> respond) list"

definition connection_new :: connection where
  "connection_new = \<lparr>req_parser = parser_new, req_index = 0, res_index = 0, close_index = int_max, res_buff = []\<rparr>"

lemma delete_shorter: "map_of m k = Some v \<Longrightarrow> length (AList.delete k m) < length m"
  by (induction m) (auto simp: AList.delete_eq le_imp_less_Suc)

text \<open>The answers that were waiting for this one, until a gap or the last one; the second component is what
  has been sent.\<close>

function (sequential) flush_buff :: "connection \<times> string list \<Rightarrow> connection \<times> string list" where
  "flush_buff (c, out) = (case map_of (res_buff c) (res_index c) of
       None \<Rightarrow> (c, out)
     | Some r \<Rightarrow>
         (let c' = c\<lparr>res_buff := AList.delete (res_index c) (res_buff c), res_index := res_index c + 1\<rparr>;
              out' = out @ [respond_toString r]
          in if res_index c' > close_index c' then (c', out') else flush_buff (c', out')))"
  by pat_completeness auto
termination
  by (relation "measure (\<lambda>(c, out). length (res_buff c))") (auto simp: delete_shorter)

definition commit_conn :: "int \<Rightarrow> respond \<Rightarrow> connection \<times> string list \<Rightarrow> connection \<times> string list" where
  "commit_conn i r x = (case x of (c, out) \<Rightarrow>
     if i = res_index c then
       (let c' = c\<lparr>res_index := res_index c + 1\<rparr>; out' = out @ [respond_toString r]
        in if res_index c' > close_index c' then (c', out') else flush_buff (c', out'))
     else (c\<lparr>res_buff := AList.update i r (res_buff c)\<rparr>, out))"

section \<open>Requests and middlewares\<close>

definition IsLastRequest :: "request \<Rightarrow> bool" where
  "IsLastRequest r = (case map_of (rq_headers r) ''Connection'' of
       None \<Rightarrow> rq_ver r = k1_0
     | Some v \<Rightarrow> (if rq_ver r = k1_0 then str_find v ''keep-alive'' (Some 0) = None
                 else str_find v ''close'' (Some 0) \<noteq> None))"

record http_context =
  cx_token :: token
  cx_index :: int
  cx_req :: request
  cx_res :: respond

definition context_new :: "token \<Rightarrow> int \<Rightarrow> request \<Rightarrow> http_context" where
  "context_new t i rq = \<lparr>cx_token = t, cx_index = i, cx_req = rq,
     cx_res = \<lparr>rs_code = k404_NotFound, rs_ver = k1_1, rs_headers = [], rs_body = []\<rparr>\<rparr>"

datatype verdict = DropIt | CallNext | KeepIt

type_synonym middleware = "request \<Rightarrow> respond \<Rightarrow> respond \<times> verdict"

text \<open>\<open>handle\<close> from position \<open>k\<close> of the chain: the context as the middlewares leave it, and the position of
  the one that kept it. An empty function is not called and does not call the next one.\<close>

function (sequential) http_handle :: "middleware option list \<Rightarrow> nat \<Rightarrow> http_context \<Rightarrow> http_context \<times> nat option" where
  "http_handle cbs k c =
     (if length cbs \<le> k then (c, None)
      else case cbs ! k of
        None \<Rightarrow> (c, None)
      | Some f \<Rightarrow> (case f (cx_req c) (cx_res c) of
            (r, DropIt) \<Rightarrow> (c\<lparr>cx_res := r\<rparr>, None)
          | (r, KeepIt) \<Rightarrow> (c\<lparr>cx_res := r\<rparr>, Some k)
          | (r, CallNext) \<Rightarrow> http_handle cbs (k + 1) (c\<lparr>cx_res := r\<rparr>)))"
  by pat_completeness auto

termination
  by (relation "measure (\<lambda>(cbs, k, c). length cbs - k)") auto

declare http_handle.simps [simp del] flush_buff.simps [simp del]

section \<open>The router\<close>

type_synonym router = "string \<Rightarrow> middleware option option"

definition route_prefix :: "http_method \<Rightarrow> string" where
  "route_prefix m = (case m of kGet \<Rightarrow> ''get:'' | kPut \<Rightarrow> ''put:'' | kPost \<Rightarrow> ''post:'' | kDelete \<Rightarrow> ''del:'' | _ \<Rightarrow> [])"

definition router_get :: "string \<Rightarrow> middleware option \<Rightarrow> router \<Rightarrow> router" where
  "router_get path cb r = r(''get:'' @ path \<mapsto> cb)"

definition router_post :: "string \<Rightarrow> middleware option \<Rightarrow> router \<Rightarrow> router" where
  "router_post path cb r = r(''post:'' @ path \<mapsto> cb)"

definition router_put :: "string \<Rightarrow> middleware option \<Rightarrow> router \<Rightarrow> router" where
  "router_put path cb r = r(''put:'' @ path \<mapsto> cb)"

definition router_del :: "string \<Rightarrow> middleware option \<Rightarrow> router \<Rightarrow> router" where
  "router_del path cb r = r(''del:'' @ path \<mapsto> cb)"

definition router_handle :: "router \<Rightarrow> middleware" where
  "router_handle r rq rs = (case r (route_prefix (rq_method rq) @ p_path (rq_url rq)) of
       Some (Some cb) \<Rightarrow> cb rq rs
     | _ \<Rightarrow> (rs, CallNext))"

section \<open>The server\<close>

datatype http_state = httpNone | httpInited | httpRunning

record http_server =
  hs_state :: http_state
  hs_tcp :: tcp_server
  hs_cbs :: "middleware option list"
  hs_conns :: "addr set"                       \<comment> \<open>\<open>conns_\<close>\<close>
  hs_objs :: "addr \<Rightarrow> connection option"       \<comment> \<open>the \<open>Connection\<close> objects alive\<close>

definition http_new :: http_server where
  "http_new = \<lparr>hs_state = httpNone, hs_tcp = tcp_new, hs_cbs = [], hs_conns = {}, hs_objs = Map.empty\<rparr>"

definition use_mw :: "middleware option \<Rightarrow> http_server \<Rightarrow> http_server" where
  "use_mw cb s = s\<lparr>hs_cbs := hs_cbs s @ [cb]\<rparr>"

definition put_conn :: "addr \<Rightarrow> connection \<Rightarrow> http_server \<Rightarrow> http_server" where
  "put_conn a c s = s\<lparr>hs_objs := (hs_objs s)(a \<mapsto> c)\<rparr>"

definition drop_conn :: "addr \<Rightarrow> http_server \<Rightarrow> http_server" where
  "drop_conn a s = s\<lparr>hs_conns := hs_conns s - {a}, hs_objs := (hs_objs s)(a := None)\<rparr>"

text \<open>The \<open>Connection\<close> that is the context of a token: \<open>getContext\<close>, the assertion that it is not null,
  and its first use.\<close>

definition connection_of :: "token \<Rightarrow> http_server \<Rightarrow> cxx_error + addr \<times> connection" where
  "connection_of t s = (case getContext t (hs_tcp s) of
       Inl e \<Rightarrow> Inl e
     | Inr None \<Rightarrow> Inl AssertFail
     | Inr (Some a) \<Rightarrow> (case hs_objs s a of None \<Rightarrow> Inl UseAfterFree | Some c \<Rightarrow> Inr (a, c)))"

fun send_all :: "token \<Rightarrow> string list \<Rightarrow> tcp_server \<Rightarrow> cxx_error + tcp_server" where
  "send_all t [] s = Inr s"
| "send_all t (d # ds) s = (case tcp_send t d s of Inl e \<Rightarrow> Inl e | Inr (_, s') \<Rightarrow> send_all t ds s')"

definition commitRespond :: "token \<Rightarrow> int \<Rightarrow> respond \<Rightarrow> http_server \<Rightarrow> cxx_error + http_server" where
  "commitRespond t i r s = (case isClientValid t (hs_tcp s) of
       Inl e \<Rightarrow> Inl e
     | Inr False \<Rightarrow> Inr s
     | Inr True \<Rightarrow> (case connection_of t s of
         Inl e \<Rightarrow> Inl e
       | Inr (a, c) \<Rightarrow> (case commit_conn i r (c, []) of (c', out) \<Rightarrow>
           (case send_all t out (hs_tcp s) of
              Inl e \<Rightarrow> Inl e
            | Inr tcp \<Rightarrow> Inr (put_conn a c' (s\<lparr>hs_tcp := tcp\<rparr>))))))"

text \<open>\<open>Context::~Context\<close>\<close>

definition context_delete :: "http_context \<Rightarrow> http_server \<Rightarrow> cxx_error + http_server" where
  "context_delete c s = commitRespond (cx_token c) (cx_index c) (cx_res c) s"

text \<open>\<open>kept\<close> are the contexts middlewares hold, with the position of the middleware.\<close>

type_synonym kept = "(http_context \<times> nat) list"

definition finish_handle :: "http_context \<times> nat option \<Rightarrow> http_server \<times> kept \<Rightarrow> cxx_error + http_server \<times> kept" where
  "finish_handle x sk = (case (x, sk) of
       ((c, Some k), (s, kept)) \<Rightarrow> Inr (s, kept @ [(c, k)])
     | ((c, None), (s, kept)) \<Rightarrow> (case context_delete c s of Inl e \<Rightarrow> Inl e | Inr s' \<Rightarrow> Inr (s', kept)))"

text \<open>A complete request of connection \<open>a\<close>.\<close>

definition onRequest :: "token \<Rightarrow> addr \<Rightarrow> connection \<Rightarrow> request \<Rightarrow> http_server \<times> kept \<Rightarrow> cxx_error + http_server \<times> kept" where
  "onRequest t a c rq sk = (case sk of (s, kept) \<Rightarrow>
     let i = req_index c;
         c1 = c\<lparr>close_index := (if IsLastRequest rq then i else close_index c), req_index := i + 1\<rparr>
     in case (if IsLastRequest rq then map_sum id snd (tcp_shutdown t (hs_tcp s)) else Inr (hs_tcp s)) of
          Inl e \<Rightarrow> Inl e
        | Inr tcp \<Rightarrow> finish_handle (http_handle (hs_cbs s) 0 (context_new t i rq)) (put_conn a c1 (s\<lparr>hs_tcp := tcp\<rparr>), kept))"

text \<open>The loop over the receive buffer; the buffer that is left is the first component of the result.\<close>

partial_function (option) receive_loop ::
  "token \<Rightarrow> addr \<Rightarrow> string \<Rightarrow> http_server \<times> kept \<Rightarrow> (cxx_error + string \<times> http_server \<times> kept) option" where
  "receive_loop t a buff sk =
     (if buff = [] then Some (Inr (buff, sk))
      else case hs_objs (fst sk) a of
        None \<Rightarrow> Some (Inl UseAfterFree)
      | Some c \<Rightarrow> (case parse buff (req_parser c) of
          Inl e \<Rightarrow> Some (Inl e)
        | Inr (n, p) \<Rightarrow>
            (if ps_state p = psAll then
               (case getRequest p of
                  (None, _) \<Rightarrow> Some (Inl NullDeref)
                | (Some rq, p') \<Rightarrow> (case onRequest t a (c\<lparr>req_parser := p'\<rparr>) rq sk of
                    Inl e \<Rightarrow> Some (Inl e)
                  | Inr sk' \<Rightarrow> receive_loop t a (drop n buff) sk'))
             else if ps_state p = psFail then
               Some (case tcp_disconnect t (hs_tcp (fst sk)) of
                  Inl e \<Rightarrow> Inl e
                | Inr (_, tcp) \<Rightarrow> Inr (drop n buff, drop_conn a ((fst sk)\<lparr>hs_tcp := tcp\<rparr>), snd sk))
             else Some (Inr (drop n buff, put_conn a (c\<lparr>req_parser := p\<rparr>) (fst sk), snd sk)))))"

definition onTcpReceived :: "token \<Rightarrow> string \<Rightarrow> http_server \<times> kept \<Rightarrow> (cxx_error + string \<times> http_server \<times> kept) option" where
  "onTcpReceived t buff sk = (case connection_of t (fst sk) of
       Inl e \<Rightarrow> Some (Inl e)
     | Inr (a, c) \<Rightarrow> (if close_index c \<noteq> int_max then Some (Inr ([], sk)) else receive_loop t a buff sk))"

definition onTcpConnected :: "token \<Rightarrow> addr \<Rightarrow> http_server \<Rightarrow> cxx_error + http_server" where
  "onTcpConnected t a s = (case setContext t a (hs_tcp s) of
       Inl e \<Rightarrow> Inl e
     | Inr tcp \<Rightarrow> Inr (s\<lparr>hs_tcp := tcp, hs_objs := (hs_objs s)(a \<mapsto> connection_new), hs_conns := insert a (hs_conns s)\<rparr>))"

definition onTcpDisconnected :: "token \<Rightarrow> http_server \<Rightarrow> cxx_error + http_server" where
  "onTcpDisconnected t s = (case connection_of t s of Inl e \<Rightarrow> Inl e | Inr (a, c) \<Rightarrow> Inr (drop_conn a s))"

definition onTcpSendCompleted :: "token \<Rightarrow> http_server \<Rightarrow> cxx_error + http_server" where
  "onTcpSendCompleted t s = (case isClientValid t (hs_tcp s) of
       Inl e \<Rightarrow> Inl e
     | Inr False \<Rightarrow> Inr s
     | Inr True \<Rightarrow> (case connection_of t s of
         Inl e \<Rightarrow> Inl e
       | Inr (a, c) \<Rightarrow>
           (if res_index c > close_index c then
              (case tcp_disconnect t (hs_tcp s) of
                 Inl e \<Rightarrow> Inl e
               | Inr (_, tcp) \<Rightarrow> Inr (drop_conn a (s\<lparr>hs_tcp := tcp\<rparr>)))
            else Inr s)))"

definition http_initialize :: "bool \<Rightarrow> http_server \<Rightarrow> bool \<times> http_server" where
  "http_initialize bound s = (case tcp_initialize bound (hs_tcp s) of
       (False, tcp) \<Rightarrow> (False, s\<lparr>hs_tcp := tcp\<rparr>)
     | (True, tcp) \<Rightarrow> (True, s\<lparr>hs_tcp := tcp, hs_state := httpInited\<rparr>))"

definition http_start :: "bool \<Rightarrow> http_server \<Rightarrow> bool \<times> http_server" where
  "http_start listening s = (case tcp_start listening (hs_tcp s) of
       (False, tcp) \<Rightarrow> (False, s\<lparr>hs_tcp := tcp\<rparr>)
     | (True, tcp) \<Rightarrow> (True, s\<lparr>hs_tcp := tcp, hs_state := httpRunning\<rparr>))"

definition http_stop :: "http_server \<Rightarrow> cxx_error + http_server" where
  "http_stop s = (if hs_state s \<noteq> httpRunning then Inr s
     else case tcp_stop (hs_tcp s) of Inl e \<Rightarrow> Inl e | Inr tcp \<Rightarrow> Inr (s\<lparr>hs_tcp := tcp, hs_state := httpInited\<rparr>))"

text \<open>\<open>cleanup\<close> deletes every \<open>Connection\<close> in \<open>conns_\<close>.\<close>

definition http_cleanup :: "http_server \<Rightarrow> cxx_error + http_server" where
  "http_cleanup s = (if hs_state s = httpNone then Inr s
     else case http_stop s of
       Inl e \<Rightarrow> Inl e
     | Inr s1 \<Rightarrow> (case tcp_cleanup (hs_tcp s1) of
         Inl e \<Rightarrow> Inl e
       | Inr tcp \<Rightarrow>
           (if hs_conns s1 \<subseteq> dom (hs_objs s1)
            then Inr (s1\<lparr>hs_tcp := tcp, hs_cbs := [], hs_objs := hs_objs s1 |` (- hs_conns s1), hs_conns := {}, hs_state := httpNone\<rparr>)
            else Inl UseAfterFree)))"

end
