(* ===== verification/Http_Order.thy ===== *)
theory Http_Order
  imports Http_Server
begin

text \<open>
  The order of the answers on a connection: whatever the order in which the requests are answered, what is sent is the
  longest run of answered requests from the first, in the order of the requests. The requests and their answers are an
  abstract list; the counters and the buffer of the code are a refinement of it.
\<close>

datatype conn_op = NewReq bool | Answer nat respond   \<comment> \<open>\<open>NewReq True\<close> closes the connection\<close>

text \<open>The abstract connection: the requests in order, each with its answer once it has one, and whether the
  last one closes the connection.\<close>

type_synonym spec_conn = "respond option list \<times> bool"

fun spec_op :: "conn_op \<Rightarrow> spec_conn \<Rightarrow> spec_conn" where
  "spec_op (NewReq cl) (ans, closing) = (ans @ [None], cl)"
| "spec_op (Answer i r) (ans, closing) = (ans[i := Some r], closing)"

text \<open>A client that sends no request after a closing one, and every request answered at most once.\<close>

fun op_ok :: "conn_op \<Rightarrow> spec_conn \<Rightarrow> bool" where
  "op_ok (NewReq cl) (ans, closing) \<longleftrightarrow> \<not> closing"
| "op_ok (Answer i r) (ans, closing) \<longleftrightarrow> i < length ans \<and> ans ! i = None"

fun ops_ok :: "conn_op list \<Rightarrow> spec_conn \<Rightarrow> bool" where
  "ops_ok [] x \<longleftrightarrow> True"
| "ops_ok (e # es) x \<longleftrightarrow> op_ok e x \<and> ops_ok es (spec_op e x)"

text \<open>What the code does to its connection.\<close>

fun code_op :: "conn_op \<Rightarrow> connection \<times> string list \<Rightarrow> connection \<times> string list" where
  "code_op (NewReq cl) (c, out) =
     (c\<lparr>close_index := (if cl then req_index c else close_index c), req_index := req_index c + 1\<rparr>, out)"
| "code_op (Answer i r) (c, out) = commit_conn (int i) r (c, out)"

definition answered :: "respond option list \<Rightarrow> respond option list" where
  "answered ans = takeWhile (\<lambda>x. x \<noteq> None) ans"

text \<open>The relation: the first \<open>res_index\<close> requests are answered and their answers were sent, the buffer
  holds the answers after the first gap.\<close>

definition conn_rel :: "spec_conn \<Rightarrow> connection \<times> string list \<Rightarrow> bool" where
  "conn_rel x y \<longleftrightarrow> (case (x, y) of ((ans, closing), (c, out)) \<Rightarrow>
     (\<exists>n \<le> length ans. res_index c = int n \<and> req_index c = int (length ans) \<and>
        int (length ans) < int_max \<and> (closing \<longrightarrow> ans \<noteq> []) \<and>
        close_index c = (if closing then int (length ans) - 1 else int_max) \<and>
        out = map (respond_toString \<circ> the) (take n ans) \<and>
        (\<forall>i < n. ans ! i \<noteq> None) \<and>
        (\<forall>k. map_of (res_buff c) k = (if int n \<le> k \<and> k < int (length ans) then ans ! nat k else None))))"

text \<open>While the buffer is flushed the first request that was not sent may have its answer.\<close>

definition at_gap :: "spec_conn \<Rightarrow> connection \<Rightarrow> bool" where
  "at_gap x c \<longleftrightarrow> (case x of (ans, closing) \<Rightarrow> nat (res_index c) < length ans \<longrightarrow> ans ! nat (res_index c) = None)"

lemma answered_take:
  assumes "n \<le> length ans" and "\<forall>i < n. ans ! i \<noteq> None" and "n < length ans \<longrightarrow> ans ! n = None"
  shows "answered ans = take n ans"
  unfolding answered_def
proof (rule takeWhile_eq_take_P_nth [symmetric, THEN sym])
  show "i < n \<Longrightarrow> i < length ans \<Longrightarrow> ans ! i \<noteq> None" for i using assms(2) by blast
  show "n < length ans \<Longrightarrow> \<not> ans ! n \<noteq> None" using assms(3) by simp
qed

lemma flush_rel:
  "conn_rel x (c, out) \<Longrightarrow> conn_rel x (flush_buff (c, out)) \<and> at_gap x (fst (flush_buff (c, out)))"
proof (induction "(c, out)" arbitrary: c out rule: flush_buff.induct)
  case (1 c out)
  obtain ans closing where x: "x = (ans, closing)" by (rule prod.exhaust)
  obtain n where n: "n \<le> length ans" "res_index c = int n" "req_index c = int (length ans)" "int (length ans) < int_max"
      "closing \<longrightarrow> ans \<noteq> []" "close_index c = (if closing then int (length ans) - 1 else int_max)"
      "out = map (respond_toString \<circ> the) (take n ans)" "\<forall>i < n. ans ! i \<noteq> None"
      "\<forall>k. map_of (res_buff c) k = (if int n \<le> k \<and> k < int (length ans) then ans ! nat k else None)"
    using "1.prems" unfolding conn_rel_def x by auto
  show ?case
  proof (cases "map_of (res_buff c) (res_index c)")
    case None
    then have "n < length ans \<longrightarrow> ans ! n = None" using n(2,9) by (auto split: if_splits)
    then have "at_gap x c" by (simp add: at_gap_def x n(2))
    then show ?thesis using None "1.prems" by (simp add: flush_buff.simps)
  next
    case (Some r)
    then have r: "n < length ans" "ans ! n = Some r" using n(2,9) by (auto split: if_splits)
    let ?c = "c\<lparr>res_buff := AList.delete (res_index c) (res_buff c), res_index := res_index c + 1\<rparr>"
    let ?out = "out @ [respond_toString r]"
    have rel: "conn_rel x (?c, ?out)"
      unfolding conn_rel_def x prod.case
    proof (intro exI [of _ "Suc n"] conjI)
      show "?out = map (respond_toString \<circ> the) (take (Suc n) ans)" using n(7) r by (simp add: take_Suc_conv_app_nth)
      show "\<forall>i < Suc n. ans ! i \<noteq> None" using n(8) r less_Suc_eq by auto
      show "\<forall>k. map_of (res_buff ?c) k = (if int (Suc n) \<le> k \<and> k < int (length ans) then ans ! nat k else None)"
        using n(2,9) by (auto simp: delete_conv')
    qed (use n r in simp_all)
    show ?thesis
    proof (cases "res_index ?c > close_index ?c")
      case True
      then have "at_gap x ?c" using n by (auto simp: at_gap_def x split: if_splits)
      then show ?thesis using Some True rel by (subst (1 2) flush_buff.simps) (simp add: Let_def)
    next
      case False
      have e: "flush_buff (c, out) = flush_buff (?c, ?out)"
        using Some False by (subst flush_buff.simps) (simp add: Let_def)
      show ?thesis unfolding e by (rule "1.hyps" [OF Some refl refl False rel])
    qed
  qed
qed

lemma code_op_rel:
  assumes "conn_rel x (c, out)" and "at_gap x c" and "op_ok e x" and "length (fst (spec_op e x)) < 2147483647"
  shows "conn_rel (spec_op e x) (code_op e (c, out)) \<and> at_gap (spec_op e x) (fst (code_op e (c, out)))"
proof -
  obtain ans closing where x: "x = (ans, closing)" by (rule prod.exhaust)
  obtain n where n: "n \<le> length ans" "res_index c = int n" "req_index c = int (length ans)" "int (length ans) < int_max"
      "closing \<longrightarrow> ans \<noteq> []" "close_index c = (if closing then int (length ans) - 1 else int_max)"
      "out = map (respond_toString \<circ> the) (take n ans)" "\<forall>i < n. ans ! i \<noteq> None"
      "\<forall>k. map_of (res_buff c) k = (if int n \<le> k \<and> k < int (length ans) then ans ! nat k else None)"
    using assms(1) unfolding conn_rel_def x by auto
  have gap: "n < length ans \<longrightarrow> ans ! n = None" using assms(2) by (simp add: at_gap_def x n(2))
  show ?thesis
  proof (cases e)
    case (NewReq cl)
    have "\<not> closing" using assms(3) by (simp add: NewReq x)
    have "conn_rel (ans @ [None], cl) (c\<lparr>close_index := (if cl then req_index c else close_index c), req_index := req_index c + 1\<rparr>, out)"
      unfolding conn_rel_def prod.case
    proof (intro exI [of _ n] conjI)
      show "\<forall>i < n. (ans @ [None]) ! i \<noteq> None" using n(1,8) by (simp add: nth_append)
      show "int (length (ans @ [None])) < int_max" using assms(4) by (simp add: NewReq x int_max_def)
      show "\<forall>k. map_of (res_buff (c\<lparr>close_index := (if cl then req_index c else close_index c), req_index := req_index c + 1\<rparr>)) k =
         (if int n \<le> k \<and> k < int (length (ans @ [None])) then (ans @ [None]) ! nat k else None)"
        using n(9) by (auto simp: nth_append)
    qed (use n \<open>\<not> closing\<close> in simp_all)
    then show ?thesis
      using gap n(1,2) by (simp add: NewReq x at_gap_def nth_append)
  next
    case (Answer i r)
    have i: "i < length ans" "ans ! i = None" using assms(3) by (simp_all add: Answer x)
    then have "n \<le> i" using n(8) not_less by blast
    show ?thesis
    proof (cases "i = n")
      case True
      let ?ans = "ans[n := Some r]" and ?c = "c\<lparr>res_index := res_index c + 1\<rparr>" and ?out = "out @ [respond_toString r]"
      have rel: "conn_rel (?ans, closing) (?c, ?out)"
        unfolding conn_rel_def prod.case
      proof (intro exI [of _ "Suc n"] conjI)
        show "?out = map (respond_toString \<circ> the) (take (Suc n) ?ans)"
          using n(7) i True by (simp add: take_Suc_conv_app_nth)
        show "\<forall>j < Suc n. ?ans ! j \<noteq> None" using n(8) i True by (auto simp: less_Suc_eq)
        show "\<forall>k. map_of (res_buff ?c) k = (if int (Suc n) \<le> k \<and> k < int (length ?ans) then ?ans ! nat k else None)"
        proof
          fix k
          show "map_of (res_buff ?c) k = (if int (Suc n) \<le> k \<and> k < int (length ?ans) then ?ans ! nat k else None)"
            using n(9) i True by (cases "k = int n") auto
        qed
      qed (use n i True in simp_all)
      have e: "code_op e (c, out) = (if res_index ?c > close_index ?c then (?c, ?out) else flush_buff (?c, ?out))"
        by (simp add: Answer commit_conn_def True n(2) Let_def)
      show ?thesis
      proof (cases "res_index ?c > close_index ?c")
        case c: True
        then have "at_gap (?ans, closing) ?c" using n by (auto simp: at_gap_def split: if_splits)
        then show ?thesis using rel c unfolding e by (simp add: Answer x True)
      next
        case False
        show ?thesis using flush_rel [OF rel] False unfolding e by (simp add: Answer x True)
      qed
    next
      case False
      then have ni: "n < i" using \<open>n \<le> i\<close> by simp
      have "conn_rel (ans[i := Some r], closing) (c\<lparr>res_buff := AList.update (int i) r (res_buff c)\<rparr>, out)"
        unfolding conn_rel_def prod.case
      proof (intro exI [of _ n] conjI)
        show "\<forall>j < n. ans[i := Some r] ! j \<noteq> None" using n(8) ni by simp
        show "out = map (respond_toString \<circ> the) (take n (ans[i := Some r]))" using n(7) ni by simp
        show "\<forall>k. map_of (res_buff (c\<lparr>res_buff := AList.update (int i) r (res_buff c)\<rparr>)) k =
            (if int n \<le> k \<and> k < int (length (ans[i := Some r])) then ans[i := Some r] ! nat k else None)"
          using n(9) i ni by (auto simp: update_conv' nth_list_update)
      qed (use n in simp_all)
      then show ?thesis
        using gap ni n(2) by (simp add: Answer x False commit_conn_def at_gap_def)
    qed
  qed
qed

lemma code_ops_rel:
  assumes "ops_ok es x" and "conn_rel x (c, out)" and "at_gap x c" and "length (fst x) + length es < 2147483647"
  shows "conn_rel (fold spec_op es x) (fold code_op es (c, out)) \<and> at_gap (fold spec_op es x) (fst (fold code_op es (c, out)))"
  using assms
proof (induction es arbitrary: x c out)
  case (Cons e es)
  have l: "length (fst (spec_op e x)) \<le> length (fst x) + 1" by (cases e; cases x) auto
  have "conn_rel (spec_op e x) (code_op e (c, out)) \<and> at_gap (spec_op e x) (fst (code_op e (c, out)))"
    by (rule code_op_rel) (use Cons.prems l in auto)
  then show ?case
    using Cons.IH [of "spec_op e x" "fst (code_op e (c, out))" "snd (code_op e (c, out))"] Cons.prems l by simp
qed simp

lemma rel_new: "conn_rel ([], False) (connection_new, [])" "at_gap ([], False) connection_new"
  by (auto simp: conn_rel_def connection_new_def int_max_def at_gap_def)


text \<open>Three requests, the last of which closes; the answers come in the order 1, 0, 2.\<close>

definition example_ops :: "respond \<Rightarrow> conn_op list" where
  "example_ops r = [NewReq False, NewReq False, Answer 1 (r\<lparr>rs_body := ''b''\<rparr>), NewReq True, Answer 0 r, Answer 2 (r\<lparr>rs_body := ''c''\<rparr>)]"

lemma example_spec: "fold spec_op (example_ops r) ([], False) = ([Some r, Some (r\<lparr>rs_body := ''b''\<rparr>), Some (r\<lparr>rs_body := ''c''\<rparr>)], True)"
  by (simp add: example_ops_def)


text \<open>When a client sends a request after a closing one in the same piece, the server takes it, and the order of the answers
  decides whether its answer is sent: after the last answer the code sends an answer that is next in turn, but not one that waits.\<close>

lemma answer_after_close:
  "snd (fold code_op [NewReq True, NewReq False, Answer 0 r, Answer 1 r] (connection_new, [])) = [respond_toString r, respond_toString r]"
  "snd (fold code_op [NewReq True, NewReq False, Answer 1 r, Answer 0 r] (connection_new, [])) = [respond_toString r]"
  by (simp_all add: connection_new_def commit_conn_def flush_buff.simps int_max_def)

text \<open>The keep-alive of a version 1.0 client is recognised in lower case only, where the usual spelling and
  the comment of the code say \<open>Keep-Alive\<close>.\<close>

lemma keep_alive_case:
  "IsLastRequest (new_request\<lparr>rq_ver := k1_0, rq_headers := [(''Connection'', ''Keep-Alive'')]\<rparr>)"
  "\<not> IsLastRequest (new_request\<lparr>rq_ver := k1_0, rq_headers := [(''Connection'', ''keep-alive'')]\<rparr>)"
  by (simp_all add: IsLastRequest_def new_request_def str_find_def from_pos_def)

text \<open>A route is taken by exactly the requests of its method and path.\<close>

lemma router_get_hit:
  assumes "p_path (rq_url rq) \<noteq> []" and "hd (p_path (rq_url rq)) = CHR ''/''" and "hd path = CHR ''/''"
  shows "router_handle (router_get path (Some f) r) rq rs =
     (if rq_method rq = kGet \<and> p_path (rq_url rq) = path then f rq rs else router_handle r rq rs)"
  using assms
  by (cases "rq_method rq"; cases "p_path (rq_url rq)") (auto simp: router_handle_def router_get_def route_prefix_def)

end
