(* ===== verification/Http_Serve.thy ===== *)
theory Http_Serve
  imports Http_Props Http_Order
begin

text \<open>
  The HTTP server over whole runs: clients connect, send bytes cut in any way, close or are closed, and the
  middlewares keep requests and answer them later. No run uses a deleted object or a null pointer or fails an assertion,
  every call returns, and pipelined requests are handed out in order.
\<close>

section \<open>What every call of the parser leaves\<close>

definition parser_ready :: "parser \<Rightarrow> bool" where
  "parser_ready p \<longleftrightarrow> ps_state p \<in> {psInit, psStartLine, psHeads} \<and> (ps_state p \<noteq> psInit \<longrightarrow> ps_req p \<noteq> None) \<and>
     (ps_state p = psHeads \<longrightarrow> content_length p \<noteq> 0 \<and> content_length p \<noteq> - 1)"

fun start_end :: "section_end \<Rightarrow> bool" where
  "start_end (Done i p) \<longleftrightarrow> ps_state p \<in> {psInit, psFail}"
| "start_end (Go i p) \<longleftrightarrow> 2 \<le> i \<and> ps_state p = psStartLine \<and> ps_req p \<noteq> None"
| "start_end (Throw e) \<longleftrightarrow> True"

fun heads_end' :: "nat \<Rightarrow> section_end \<Rightarrow> bool" where
  "heads_end' j (Done i p) \<longleftrightarrow> ps_state p = psFail"
| "heads_end' j (Go i p) \<longleftrightarrow> ps_req p \<noteq> None \<and> (ps_state p = psStartLine \<or> ps_state p = psHeads \<and> j + 2 \<le> i)"
| "heads_end' j (Throw e) \<longleftrightarrow> True"

lemma heads_end'_mono: "heads_end' k x \<Longrightarrow> j \<le> k \<Longrightarrow> heads_end' j x"
  by (cases x) auto

lemma parse_start_end: "ps_state p = psInit \<Longrightarrow> start_end (parse_start s p)"
  by (auto simp: parse_start_def Let_def failed_def split: option.splits prod.splits if_splits)

lemma parse_heads_end: "\<lbrakk>ps_state p = psStartLine; ps_req p \<noteq> None\<rbrakk> \<Longrightarrow> heads_end' i (parse_heads s i p)"
proof (induction s i p rule: parse_heads.induct)
  case (1 s i p)
  obtain rq where rq: "ps_req p = Some rq" using "1.prems" by auto
  show ?case
  proof (cases "str_find s CRLF (Some i)")
    case None
    then show ?thesis using "1.prems" by (subst parse_heads.simps) simp
  next
    case (Some e)
    have e: "i \<le> e" "e + 2 \<le> length s" using str_find_progress [OF Some] by auto
    show ?thesis
    proof (cases "e = i \<or> \<not> before (first_of s '':'' (Some i)) e \<or>
        \<not> before (first_not_of s '' '' (Some (the (first_of s '':'' (Some i)) + 1))) e")
      case True
      then show ?thesis
        using "1.prems" Some e rq by (subst parse_heads.simps) (auto simp: Let_def failed_def)
    next
      case False
      note IH = "1.IH" [OF Some _ refl _ refl refl _ rq refl refl]
      show ?thesis
        using IH "1.prems" Some e rq False
        by (subst parse_heads.simps) (auto simp: Let_def split: sum.split intro: heads_end'_mono)
    qed
  qed
qed

lemma parse_body_end:
  assumes "ps_state p = psHeads" and "ps_req p \<noteq> None" and "i \<le> length s" and "s \<noteq> []" and "0 < i \<or> content_length p \<noteq> 0 \<and> content_length p \<noteq> - 1"
  shows "\<exists>n p'. parse_body s i p = Done n p' \<and> ps_req p' \<noteq> None \<and>
     (ps_state p' = psAll \<and> 0 < n \<or> parser_ready p')"
proof -
  obtain rq where rq: "ps_req p = Some rq" using assms(2) by auto
  have "content_length p \<noteq> 0 \<Longrightarrow> 0 < unat (content_length p)" by (simp add: unat_gt_0)
  then show ?thesis
    using assms rq by (cases "content_length p = - 1") (auto simp: parse_body_def parser_ready_def)
qed

text \<open>One call on a parser that is ready, with something to read.\<close>

definition parse_result :: "nat \<Rightarrow> nat \<times> parser \<Rightarrow> bool" where
  "parse_result len x \<longleftrightarrow> (case x of (n, p) \<Rightarrow> ps_state p = psFail \<or> parser_ready p \<or>
     ps_state p = psAll \<and> 0 < n \<and> ps_req p \<noteq> None)"

lemma parse_steps:
  assumes p: "parser_ready p" and s: "s \<noteq> []" and r: "parse s p = Inr x"
  shows "parse_result (length s) x"
proof -
  let ?a = "if ps_state p = psInit then parse_start s p else Go 0 p"
  have inv: "parser_inv p" using p by (auto simp: parser_inv_def parser_ready_def)
  have ok: "end_ok (length s) ?a" using inv parse_start_ok by auto
  have body: "parse_result (length s) x"
    if "(case (if ps_state q = psHeads then parse_body s i q else Done i q) of Done n p3 \<Rightarrow> Inr (n, p3) | Go n p3 \<Rightarrow> Inr (n, p3) | Throw e \<Rightarrow> Inl e) = Inr x"
      "i \<le> length s" "ps_req q \<noteq> None" "ps_state q = psStartLine \<or> ps_state q = psHeads \<and> (0 < i \<or> content_length q \<noteq> 0 \<and> content_length q \<noteq> - 1)"
    for i q
  proof (cases "ps_state q = psHeads")
    case True
    from parse_body_end [OF True that(3,2) s] that(4) True
    obtain n p' where "parse_body s i q = Done n p'" "ps_req p' \<noteq> None" "ps_state p' = psAll \<and> 0 < n \<or> parser_ready p'" by auto
    then show ?thesis using that(1) True by (auto simp: parse_result_def)
  next
    case False
    then have "parser_ready q" "x = (i, q)" using that by (auto simp: parser_ready_def)
    then show ?thesis by (simp add: parse_result_def)
  qed
  have heads: "parse_result (length s) x"
    if "?a = Go i q" "ps_state q = psStartLine" "ps_req q \<noteq> None" "i \<le> length s" for i q
  proof (cases "parse_heads s i q")
    case (Done n p')
    have "parse s p = Inr (n, p')" unfolding parse_def that(1) section_end.case using that(2) Done by simp
    then show ?thesis using r parse_heads_end [OF that(2,3), of i s] Done by (auto simp: parse_result_def)
  next
    case (Throw e)
    have "parse s p = Inl e" unfolding parse_def that(1) section_end.case using that(2) Throw by simp
    then show ?thesis using r by simp
  next
    case (Go j q')
    have e: "heads_end' i (Go j q')" using parse_heads_end [OF that(2,3), of i s] Go by simp
    have "parser_inv q" using that(3) by (simp add: parser_inv_def)
    then have j: "j \<le> length s" using parse_heads_ok [OF that(4) _ that(2)] Go by simp
    have "parse s p = (case (if ps_state q' = psHeads then parse_body s j q' else Done j q') of Done n p3 \<Rightarrow> Inr (n, p3) | Go n p3 \<Rightarrow> Inr (n, p3) | Throw e \<Rightarrow> Inl e)"
      unfolding parse_def that(1) section_end.case using that(2) Go by simp
    then show ?thesis using r e j by (intro body) auto
  qed
  show ?thesis
  proof (cases "ps_state p = psInit")
    case True
    then show ?thesis
    proof (cases "parse_start s p")
      case (Done n p')
      then have "x = (n, p')" using r True by (simp add: parse_def)
      then show ?thesis using parse_start_end [OF True, of s] Done by (auto simp: parse_result_def parser_ready_def)
    next
      case (Go i q)
      then show ?thesis using parse_start_end [OF True, of s] ok True by (intro heads) auto
    next
      case (Throw e)
      then show ?thesis using r True by (simp add: parse_def)
    qed
  next
    case False
    then have q: "?a = Go 0 p" "ps_req p \<noteq> None" using p by (auto simp: parser_ready_def)
    show ?thesis
    proof (cases "ps_state p = psStartLine")
      case True
      then show ?thesis using heads [OF q(1) True q(2)] by simp
    next
      case h: False
      then have hs: "ps_state p = psHeads" using p False by (auto simp: parser_ready_def)
      have "parse s p = (case (if ps_state p = psHeads then parse_body s 0 p else Done 0 p) of Done n p3 \<Rightarrow> Inr (n, p3) | Go n p3 \<Rightarrow> Inr (n, p3) | Throw e \<Rightarrow> Inl e)"
        unfolding parse_def q(1) section_end.case using h by simp
      then show ?thesis using r p hs by (intro body [OF _ _ q(2)]) (auto simp: parser_ready_def)
    qed
  qed
qed

lemma parse_ends:
  assumes "parser_ready p" and "s \<noteq> []"
  shows "(\<exists>e \<in> {InvalidArgument, OutOfRange}. parse s p = Inl e) \<or> (\<exists>n p'. parse s p = Inr (n, p') \<and> n \<le> length s \<and> parse_result (length s) (n, p'))"
proof -
  have "parser_inv p" using assms(1) by (auto simp: parser_inv_def parser_ready_def)
  from parse_inv [OF this, of s] show ?thesis using parse_steps [OF assms] by (cases "parse s p") auto
qed


section \<open>The server's invariant\<close>

text \<open>\<open>client s t a w x c\<close>: token \<open>t\<close> stands for the open TCP connection at \<open>a\<close>, whose context is the
  \<open>Connection\<close> at \<open>x\<close>.\<close>

definition client :: "http_server \<Rightarrow> token \<Rightarrow> addr \<Rightarrow> wire \<Rightarrow> addr \<Rightarrow> connection \<Rightarrow> bool" where
  "client s t a w x c \<longleftrightarrow> cab_lookup (ts_conns (hs_tcp s)) t = Some (Some a) \<and>
     ts_objs (hs_tcp s) a = Some \<lparr>tc_fd = Some w, tc_ctx = Some x\<rparr> \<and> hs_objs s x = Some c"

definition served :: "http_server \<Rightarrow> token \<Rightarrow> addr \<Rightarrow> addr \<Rightarrow> bool" where
  "served s t a x \<longleftrightarrow> (\<exists>w c. client s t a w x c \<and> parser_ready (req_parser c))"

definition http_inv :: "http_server \<Rightarrow> bool" where
  "http_inv s \<longleftrightarrow> cab_inv (ts_conns (hs_tcp s)) \<and>
     (\<forall>t. cab_lookup (ts_conns (hs_tcp s)) t \<noteq> None \<longrightarrow> (\<exists>a x. served s t a x)) \<and>
     (\<forall>t u a b x y. served s t a x \<and> served s u b y \<and> (a = b \<or> x = y) \<longrightarrow> t = u) \<and>
     distinct (ts_dying (hs_tcp s)) \<and>
     (\<forall>a \<in> set (ts_dying (hs_tcp s)). ts_objs (hs_tcp s) a \<noteq> None \<and> (\<forall>t x. \<not> served s t a x)) \<and>
     hs_conns s = dom (hs_objs s)"

lemma served_unique: "served s t a x \<Longrightarrow> served s t b y \<Longrightarrow> a = b \<and> x = y"
  by (auto simp: served_def client_def)

lemma http_invD:
  assumes "http_inv s"
  shows "cab_inv (ts_conns (hs_tcp s))"
    and "cab_lookup (ts_conns (hs_tcp s)) t \<noteq> None \<Longrightarrow> \<exists>a x. served s t a x"
    and "served s t a x \<Longrightarrow> served s u b y \<Longrightarrow> a = b \<or> x = y \<Longrightarrow> t = u"
    and "distinct (ts_dying (hs_tcp s))"
    and "a \<in> set (ts_dying (hs_tcp s)) \<Longrightarrow> ts_objs (hs_tcp s) a \<noteq> None"
    and "a \<in> set (ts_dying (hs_tcp s)) \<Longrightarrow> \<not> served s t a x"
    and "hs_conns s = dom (hs_objs s)"
  using assms unfolding http_inv_def by blast+

text \<open>What the operations see of a client.\<close>

lemma client_at:
  assumes "cab_inv (ts_conns (hs_tcp s))" and "client s t a w x c"
  shows "conn_at t (hs_tcp s) = Inr (Some (a, \<lparr>tc_fd = Some w, tc_ctx = Some x\<rparr>))"
    and "isClientValid t (hs_tcp s) = Inr True" and "connection_of t s = Inr (x, c)"
proof -
  have "cab_at t (ts_conns (hs_tcp s)) = Inr (Some a)"
    using cab.get_law [OF assms(1), of t] assms(2) by (simp add: client_def)
  then show "conn_at t (hs_tcp s) = Inr (Some (a, \<lparr>tc_fd = Some w, tc_ctx = Some x\<rparr>))" and "isClientValid t (hs_tcp s) = Inr True"
    using assms(2) by (simp_all add: conn_at_def isClientValid_def client_def)
  then show "connection_of t s = Inr (x, c)"
    using assms(2) by (simp add: connection_of_def getContext_def client_def)
qed

lemma no_client:
  assumes "http_inv s" and "cab_lookup (ts_conns (hs_tcp s)) t = None"
  shows "isClientValid t (hs_tcp s) = Inr False" and "conn_at t (hs_tcp s) = Inr None"
  using cab.get_law [OF http_invD(1) [OF assms(1)], of t] assms(2) by (simp_all add: isClientValid_def conn_at_def)

text \<open>Writing to a client in place: its descriptor and its \<open>Connection\<close>.\<close>

definition write_client :: "addr \<Rightarrow> wire \<Rightarrow> addr \<Rightarrow> connection \<Rightarrow> http_server \<Rightarrow> http_server" where
  "write_client a w x c s = put_conn x c (s\<lparr>hs_tcp := put_tcp a \<lparr>tc_fd = Some w, tc_ctx = Some x\<rparr> (hs_tcp s)\<rparr>)"

lemma write_client_client:
  "client s t a w x c \<Longrightarrow> client (write_client a w' x c' s) t a w' x c'"
  by (simp add: client_def write_client_def put_conn_def put_tcp_def)

lemma write_client_served:
  assumes "http_inv s" and "served s t a x" and "parser_ready (req_parser c)"
  shows "served (write_client a w x c s) u b y \<longleftrightarrow> served s u b y"
proof (cases "u = t")
  case True
  have "served (write_client a w x c s) t a x"
    using assms(2,3) write_client_client unfolding served_def by blast
  then show ?thesis using assms(2) True served_unique by blast
next
  case False
  show ?thesis
  proof
    assume l: "served (write_client a w x c s) u b y"
    have "b \<noteq> a"
    proof
      assume "b = a"
      obtain b' y' where b': "served s u b' y'"
        using http_invD(2) [OF assms(1), of u] l by (auto simp: served_def client_def write_client_def put_conn_def put_tcp_def)
      moreover have "b' = b" using b' l by (auto simp: served_def client_def write_client_def put_conn_def put_tcp_def)
      ultimately show False using http_invD(3) [OF assms(1) assms(2) b'] \<open>b = a\<close> False by blast
    qed
    obtain b' y' where b': "served s u b' y'"
      using http_invD(2) [OF assms(1), of u] l by (auto simp: served_def client_def write_client_def put_conn_def put_tcp_def)
    have "y' \<noteq> x" using http_invD(3) [OF assms(1) assms(2) b'] False by blast
    moreover have "b' = b \<and> y' = y"
      using b' l \<open>b \<noteq> a\<close> by (auto simp: served_def client_def write_client_def put_conn_def put_tcp_def)
    ultimately show "served s u b y" using b' by blast
  next
    assume r: "served s u b y"
    then have "b \<noteq> a" "y \<noteq> x" using http_invD(3) [OF assms(1) assms(2) r] False by blast+
    then show "served (write_client a w x c s) u b y"
      using r by (auto simp: served_def client_def write_client_def put_conn_def put_tcp_def)
  qed
qed

lemma write_client_inv:
  assumes "http_inv s" and "served s t a x" and "parser_ready (req_parser c)"
  shows "http_inv (write_client a w x c s)"
proof -
  note sv = write_client_served [OF assms]
  have "x \<in> hs_conns s" using assms(2) http_invD(7) [OF assms(1)] by (auto simp: served_def client_def)
  then have "hs_conns (write_client a w x c s) = dom (hs_objs (write_client a w x c s))"
    using http_invD(7) [OF assms(1)] by (auto simp: write_client_def put_conn_def)
  moreover have "ts_conns (hs_tcp (write_client a w x c s)) = ts_conns (hs_tcp s)"
    "ts_dying (hs_tcp (write_client a w x c s)) = ts_dying (hs_tcp s)"
    "\<And>b. ts_objs (hs_tcp s) b \<noteq> None \<Longrightarrow> ts_objs (hs_tcp (write_client a w x c s)) b \<noteq> None"
    by (simp_all add: write_client_def put_conn_def put_tcp_def)
  ultimately show ?thesis
    using assms(1) unfolding http_inv_def sv by simp
qed


section \<open>Answers\<close>

lemma send_all_client:
  assumes "cab_inv (ts_conns (hs_tcp s))" and "client s t a w x c"
  shows "send_all t ds (hs_tcp s) = Inr (put_tcp a \<lparr>tc_fd = Some (w\<lparr>wire_out := wire_out w @ ds\<rparr>), tc_ctx = Some x\<rparr> (hs_tcp s))"
  using assms
proof (induction ds arbitrary: s w)
  case Nil
  then show ?case by (simp add: put_tcp_def client_def fun_upd_idem)
next
  case (Cons d ds)
  let ?w = "w\<lparr>wire_out := wire_out w @ [d]\<rparr>"
  let ?s = "s\<lparr>hs_tcp := put_tcp a \<lparr>tc_fd = Some ?w, tc_ctx = Some x\<rparr> (hs_tcp s)\<rparr>"
  have "tcp_send t d (hs_tcp s) = Inr (True, hs_tcp ?s)"
    using client_at(1) [OF Cons.prems] by (simp add: tcp_send_def conn_send_def)
  moreover have "send_all t ds (hs_tcp ?s) = Inr (put_tcp a \<lparr>tc_fd = Some (?w\<lparr>wire_out := wire_out ?w @ ds\<rparr>), tc_ctx = Some x\<rparr> (hs_tcp ?s))"
    by (rule Cons.IH) (use Cons.prems in \<open>simp_all add: client_def put_tcp_def\<close>)
  ultimately show ?case by (simp add: put_tcp_def)
qed

lemma flush_parser: "req_parser (fst (flush_buff y)) = req_parser (fst y)"
  by (induction y rule: flush_buff.induct) (subst flush_buff.simps, simp add: Let_def split: option.split)

lemma commit_parser: "req_parser (fst (commit_conn i r (c, out))) = req_parser c"
  by (simp add: commit_conn_def Let_def flush_parser)

lemma commit_client:
  assumes "cab_inv (ts_conns (hs_tcp s))" and "client s t a w x c" and "commit_conn i r (c, []) = (c', out)"
  shows "commitRespond t i r s = Inr (write_client a (w\<lparr>wire_out := wire_out w @ out\<rparr>) x c' s)"
  using client_at [OF assms(1,2)] send_all_client [OF assms(1,2), of out] assms(3)
  by (simp add: commitRespond_def write_client_def)

lemma commit_any:
  assumes "http_inv s"
  shows "\<exists>s'. commitRespond t i r s = Inr s' \<and> http_inv s' \<and> served s' = served s \<and> hs_cbs s' = hs_cbs s"
proof (cases "cab_lookup (ts_conns (hs_tcp s)) t")
  case None
  then show ?thesis using no_client [OF assms None] assms by (simp add: commitRespond_def)
next
  case (Some p)
  then obtain a x where sv: "served s t a x" using http_invD(2) [OF assms] by blast
  then obtain w c where c: "client s t a w x c" "parser_ready (req_parser c)" by (auto simp: served_def)
  obtain c' out where o: "commit_conn i r (c, []) = (c', out)" by (rule prod.exhaust)
  have "req_parser c' = req_parser c" using commit_parser [of i r c "[]"] o by simp
  with c have r: "parser_ready (req_parser c')" by simp
  have "served (write_client a (w\<lparr>wire_out := wire_out w @ out\<rparr>) x c' s) = served s"
    by (intro ext write_client_served [OF assms sv r])
  then show ?thesis
    using commit_client [OF http_invD(1) [OF assms] c(1) o] write_client_inv [OF assms sv r]
    by (simp add: write_client_def put_conn_def)
qed

section \<open>Requests\<close>

lemma handle_context: "cx_token (fst (http_handle cbs k c)) = cx_token c \<and> cx_index (fst (http_handle cbs k c)) = cx_index c"
proof (induction cbs k c rule: http_handle.induct)
  case (1 cbs k c)
  show ?case
    by (subst (1 2) http_handle.simps) (use "1.IH" in \<open>auto split: option.split prod.split verdict.split\<close>)
qed

lemma finish_any:
  assumes "http_inv s"
  shows "\<exists>s' k'. finish_handle y (s, k) = Inr (s', k') \<and> http_inv s' \<and> served s' = served s \<and> hs_cbs s' = hs_cbs s"
proof -
  obtain c v where y: "y = (c, v)" by (rule prod.exhaust)
  show ?thesis
  proof (cases v)
    case None
    obtain s' where "context_delete c s = Inr s'" "http_inv s'" "served s' = served s" "hs_cbs s' = hs_cbs s"
      using commit_any [OF assms] unfolding context_delete_def by blast
    then show ?thesis by (simp add: finish_handle_def y None)
  next
    case (Some i)
    then show ?thesis using assms by (simp add: finish_handle_def y)
  qed
qed

lemma onRequest_any:
  assumes inv: "http_inv s" and sv: "served s t a x" and p: "parser_ready (req_parser c)"
  shows "\<exists>s' k'. onRequest t x c rq (s, k) = Inr (s', k') \<and> http_inv s' \<and> served s' = served s \<and> hs_cbs s' = hs_cbs s"
proof -
  obtain w c0 where c0: "client s t a w x c0" using sv by (auto simp: served_def)
  let ?last = "IsLastRequest rq" and ?i = "req_index c"
  let ?c = "c\<lparr>close_index := (if ?last then ?i else close_index c), req_index := ?i + 1\<rparr>"
  let ?w = "if ?last then w\<lparr>rd_shut := True\<rparr> else w"
  let ?s = "write_client a ?w x ?c s"
  have same: "put_tcp a \<lparr>tc_fd = Some w, tc_ctx = Some x\<rparr> (hs_tcp s) = hs_tcp s"
    using c0 by (simp add: put_tcp_def client_def fun_upd_idem)
  have e: "onRequest t x c rq (s, k) = finish_handle (http_handle (hs_cbs s) 0 (context_new t ?i rq)) (?s, k)"
    using client_at(1) [OF http_invD(1) [OF inv] c0] same
    by (simp add: onRequest_def tcp_shutdown_def conn_shutdown_def write_client_def Let_def)
  have r: "parser_ready (req_parser ?c)" using p by simp
  have "served ?s = served s" by (intro ext write_client_served [OF inv sv r])
  moreover have "http_inv ?s" by (rule write_client_inv [OF inv sv r])
  moreover have "hs_cbs ?s = hs_cbs s" by (simp add: write_client_def put_conn_def)
  ultimately show ?thesis unfolding e using finish_any [of ?s] by metis
qed

section \<open>Closing\<close>

lemma close_state:
  assumes inv: "http_inv s" and sv: "served s t a x"
    and cab: "cab_inv cab" "cab_lookup cab = (cab_lookup (ts_conns (hs_tcp s)))(t := None)"
  shows "http_inv (drop_conn x (s\<lparr>hs_tcp := (put_tcp a \<lparr>tc_fd = None, tc_ctx = Some x\<rparr> (hs_tcp s))
     \<lparr>ts_conns := cab, ts_dying := ts_dying (hs_tcp s) @ [a]\<rparr>\<rparr>))" (is "http_inv ?s")
proof -
  have sv': "served ?s u b y \<longleftrightarrow> u \<noteq> t \<and> served s u b y" for u b y
  proof
    assume l: "served ?s u b y"
    then have u: "u \<noteq> t" using cab(2) by (auto simp: served_def client_def drop_conn_def put_tcp_def)
    then obtain b' y' where b': "served s u b' y'"
      using http_invD(2) [OF inv, of u] l cab(2) by (auto simp: served_def client_def drop_conn_def put_tcp_def)
    then have "b' \<noteq> a" "y' \<noteq> x" using http_invD(3) [OF inv sv b'] u by blast+
    then show "u \<noteq> t \<and> served s u b y"
      using b' l u cab(2) by (auto simp: served_def client_def drop_conn_def put_tcp_def)
  next
    assume r: "u \<noteq> t \<and> served s u b y"
    then have "b \<noteq> a" "y \<noteq> x" using http_invD(3) [OF inv sv, of u b y] by blast+
    then show "served ?s u b y"
      using r cab(2) by (auto simp: served_def client_def drop_conn_def put_tcp_def)
  qed
  have objs: "ts_objs (hs_tcp s) a \<noteq> None" using sv by (auto simp: served_def client_def)
  have na: "a \<notin> set (ts_dying (hs_tcp s))" using http_invD(6) [OF inv, of a t x] sv by blast
  show ?thesis
    unfolding http_inv_def sv'
  proof (intro conjI allI impI ballI)
    show "cab_inv (ts_conns (hs_tcp ?s))" using cab(1) by (simp add: drop_conn_def)
    fix u assume "cab_lookup (ts_conns (hs_tcp ?s)) u \<noteq> None"
    then have "u \<noteq> t" "cab_lookup (ts_conns (hs_tcp s)) u \<noteq> None" using cab(2) by (auto simp: drop_conn_def split: if_splits)
    then show "\<exists>b y. u \<noteq> t \<and> served s u b y" using http_invD(2) [OF inv] by blast
  next
    fix u v b y b' y'
    assume "(u \<noteq> t \<and> served s u b y) \<and> (v \<noteq> t \<and> served s v b' y') \<and> (b = b' \<or> y = y')"
    then show "u = v" using http_invD(3) [OF inv] by blast
  next
    show "distinct (ts_dying (hs_tcp ?s))" using http_invD(4) [OF inv] na by (simp add: drop_conn_def)
  next
    fix b assume b: "b \<in> set (ts_dying (hs_tcp ?s))"
    then show "ts_objs (hs_tcp ?s) b \<noteq> None" using http_invD(5) [OF inv] objs by (auto simp: drop_conn_def put_tcp_def)
    fix u y
    show "\<not> (u \<noteq> t \<and> served s u b y)"
      using b http_invD(6) [OF inv, of b u y] http_invD(3) [OF inv sv, of u b y] by (auto simp: drop_conn_def)
  next
    show "hs_conns ?s = dom (hs_objs ?s)" using http_invD(7) [OF inv] by (auto simp: drop_conn_def)
  qed
qed

lemma disconnect_client:
  assumes inv: "http_inv s" and sv: "served s t a x"
  shows "\<exists>tcp. tcp_disconnect t (hs_tcp s) = Inr (True, tcp) \<and> http_inv (drop_conn x (s\<lparr>hs_tcp := tcp\<rparr>))"
proof -
  obtain w c where c: "client s t a w x c" using sv by (auto simp: served_def)
  obtain cab where cab: "cab_free t (ts_conns (hs_tcp s)) = Inr (Some a, cab)" "cab_inv cab"
      "cab_lookup cab = (cab_lookup (ts_conns (hs_tcp s)))(t := None)"
    using cab.release_law [OF http_invD(1) [OF inv], of t] c by (auto simp: client_def)
  then show ?thesis
    using close_state [OF inv sv cab(2,3)] c by (simp add: tcp_disconnect_def client_def conn_disconnect_def put_tcp_def)
qed


section \<open>The receive loop ends\<close>

abbreviation stoi_error :: "cxx_error \<Rightarrow> bool" where
  "stoi_error e \<equiv> e = InvalidArgument \<or> e = OutOfRange"

lemma write_same:
  assumes "client s t a w x c0"
  shows "put_conn x c s = write_client a w x c s"
  using assms by (simp add: write_client_def put_conn_def put_tcp_def client_def fun_upd_idem)

lemma receive_loop_ends:
  assumes "http_inv s" and "served s t a x"
  shows "\<exists>res. receive_loop t x buff (s, k) = Some res \<and>
     (case res of Inl e \<Rightarrow> stoi_error e | Inr (rest, s', k') \<Rightarrow> http_inv s')"
  using assms
proof (induction buff arbitrary: s k rule: length_induct)
  case (1 buff)
  obtain w c where c: "client s t a w x c" "parser_ready (req_parser c)" using "1.prems"(2) by (auto simp: served_def)
  have o: "hs_objs s x = Some c" using c(1) by (simp add: client_def)
  show ?case
  proof (cases "buff = []")
    case True
    then show ?thesis using "1.prems"(1) by (simp add: receive_loop.simps)
  next
    case ne: False
    from parse_ends [OF c(2) ne]
    consider e where "parse buff (req_parser c) = Inl e" "stoi_error e"
      | n p where "parse buff (req_parser c) = Inr (n, p)" "n \<le> length buff" "parse_result (length buff) (n, p)" by auto
    then show ?thesis
    proof cases
      case 1
      then show ?thesis using ne o by (subst receive_loop.simps) simp
    next
      case p: 2
      show ?thesis
      proof (cases "ps_state p = psAll")
        case True
        then obtain rq where rq: "0 < n" "ps_req p = Some rq" using p(3) by (auto simp: parse_result_def parser_ready_def)
        let ?p = "p\<lparr>ps_req := None, ps_state := psInit\<rparr>"
        have "parser_ready (req_parser (c\<lparr>req_parser := ?p\<rparr>))" by (simp add: parser_ready_def)
        from onRequest_any [OF "1.prems" this] obtain s' k' where
          s': "onRequest t x (c\<lparr>req_parser := ?p\<rparr>) rq (s, k) = Inr (s', k')" "http_inv s'" "served s' = served s" by blast
        have e: "receive_loop t x buff (s, k) = receive_loop t x (drop n buff) (s', k')"
          using ne o p(1) True rq s'(1) by (subst receive_loop.simps) (simp add: getRequest_def)
        show ?thesis unfolding e
          by (rule "1.IH" [rule_format]) (use ne rq(1) s'(2,3) "1.prems"(2) in simp_all)
      next
        case na: False
        show ?thesis
        proof (cases "ps_state p = psFail")
          case True
          obtain tcp where "tcp_disconnect t (hs_tcp s) = Inr (True, tcp)" "http_inv (drop_conn x (s\<lparr>hs_tcp := tcp\<rparr>))"
            using disconnect_client [OF "1.prems"] by blast
          then show ?thesis using ne o p(1) True by (subst receive_loop.simps) simp
        next
          case False
          then have "parser_ready (req_parser (c\<lparr>req_parser := p\<rparr>))" using p(3) na by (simp add: parse_result_def)
          from write_client_inv [OF "1.prems" this, of w] show ?thesis
            using ne o p(1) na False write_same [OF c(1)] by (subst receive_loop.simps) simp
        qed
      qed
    qed
  qed
qed

lemma onTcpReceived_ends:
  assumes inv: "http_inv s" and sv: "served s t a x"
  shows "\<exists>res. onTcpReceived t buff (s, k) = Some res \<and>
     (case res of Inl e \<Rightarrow> stoi_error e | Inr (rest, s', k') \<Rightarrow> http_inv s')"
proof -
  obtain w c where c: "client s t a w x c" using sv by (auto simp: served_def)
  show ?thesis
    using receive_loop_ends [OF assms] inv client_at(3) [OF http_invD(1) [OF inv] c] by (simp add: onTcpReceived_def)
qed

section \<open>Runs\<close>

text \<open>What happens to a server: a connection is accepted (with the addresses of the two new objects), bytes
  arrive, a client closes, everything was sent, a middleware answers a request it kept or passes it on, and the loop runs the
  deferred deletions. Events of clients that are gone do not happen.\<close>

datatype http_event =
    Accept addr addr | Arrive token string | PeerClosed token | SendDone token
  | AnswerKept nat "respond \<Rightarrow> respond" | PassOn nat | Deletions

text \<open>The receive buffer of an open connection.\<close>

definition fd_of :: "token \<Rightarrow> tcp_server \<Rightarrow> (addr \<times> wire) option" where
  "fd_of t s = (case conn_at t s of Inr (Some (a, tc)) \<Rightarrow> (case tc_fd tc of Some w \<Rightarrow> Some (a, w) | None \<Rightarrow> None) | _ \<Rightarrow> None)"

definition keep_rest :: "token \<Rightarrow> string \<Rightarrow> http_server \<Rightarrow> http_server" where
  "keep_rest t rest s = (case conn_at t (hs_tcp s) of
       Inr (Some (a, tc)) \<Rightarrow> (case tc_fd tc of
           Some w \<Rightarrow> s\<lparr>hs_tcp := put_tcp a (tc\<lparr>tc_fd := Some (w\<lparr>wire_in := rest\<rparr>)\<rparr>) (hs_tcp s)\<rparr>
         | None \<Rightarrow> s)
     | _ \<Rightarrow> s)"

type_synonym http_world = "http_server \<times> kept"

fun take_nth :: "nat \<Rightarrow> 'a list \<Rightarrow> ('a \<times> 'a list) option" where
  "take_nth i xs = (if i < length xs then Some (xs ! i, take i xs @ drop (Suc i) xs) else None)"

definition with_server :: "kept \<Rightarrow> cxx_error + http_server \<Rightarrow> (cxx_error + http_world) option" where
  "with_server k r = Some (map_sum id (\<lambda>s. (s, k)) r)"

fun http_step :: "http_event \<Rightarrow> http_world \<Rightarrow> (cxx_error + http_world) option" where
  "http_step (Accept a x) (s, k) =
     (if ts_objs (hs_tcp s) a \<noteq> None \<or> hs_objs s x \<noteq> None then Some (Inr (s, k))
      else case tcp_onConnected a (hs_tcp s) of
        Inl e \<Rightarrow> Some (Inl e)
      | Inr (t, tcp) \<Rightarrow> with_server k (onTcpConnected t x (s\<lparr>hs_tcp := tcp\<rparr>)))"
| "http_step (Arrive t data) (s, k) = (case fd_of t (hs_tcp s) of
       None \<Rightarrow> Some (Inr (s, k))
     | Some (a, w) \<Rightarrow> (case onTcpReceived t (wire_in w @ data) (s, k) of
           None \<Rightarrow> None
         | Some (Inl e) \<Rightarrow> Some (Inl e)
         | Some (Inr (rest, s', k')) \<Rightarrow> Some (Inr (keep_rest t rest s', k'))))"
| "http_step (PeerClosed t) (s, k) = (case fd_of t (hs_tcp s) of
       None \<Rightarrow> Some (Inr (s, k))
     | Some _ \<Rightarrow> (case tcp_onSocketClosed t (hs_tcp s) of
           Inl e \<Rightarrow> Some (Inl e)
         | Inr tcp \<Rightarrow> (case onTcpDisconnected t (s\<lparr>hs_tcp := tcp\<rparr>) of
             Inl e \<Rightarrow> Some (Inl e)
           | Inr s' \<Rightarrow> (case tcp_onDisconnected t (hs_tcp s') of
               Inl e \<Rightarrow> Some (Inl e)
             | Inr tcp' \<Rightarrow> Some (Inr (s'\<lparr>hs_tcp := tcp'\<rparr>, k))))))"
| "http_step (SendDone t) (s, k) = with_server k (onTcpSendCompleted t s)"
| "http_step (AnswerKept i f) (s, k) = (case take_nth i k of
       None \<Rightarrow> Some (Inr (s, k))
     | Some ((c, _), k') \<Rightarrow> with_server k' (context_delete (c\<lparr>cx_res := f (cx_res c)\<rparr>) s))"
| "http_step (PassOn i) (s, k) = (case take_nth i k of
       None \<Rightarrow> Some (Inr (s, k))
     | Some ((c, j), k') \<Rightarrow> Some (finish_handle (http_handle (hs_cbs s) (j + 1) c) (s, k')))"
| "http_step Deletions (s, k) = with_server k (map_sum id (\<lambda>tcp. s\<lparr>hs_tcp := tcp\<rparr>) (tcp_runNext (hs_tcp s)))"

fun http_run :: "http_event list \<Rightarrow> http_world \<Rightarrow> (cxx_error + http_world) option" where
  "http_run [] sk = Some (Inr sk)"
| "http_run (e # es) sk = (case http_step e sk of
       None \<Rightarrow> None
     | Some (Inl x) \<Rightarrow> Some (Inl x)
     | Some (Inr sk') \<Rightarrow> http_run es sk')"

lemma accept_inv:
  assumes inv: "http_inv s" and new: "ts_objs (hs_tcp s) a = None" "hs_objs s x = None"
    and al: "tcp_onConnected a (hs_tcp s) = Inr (t, tcp)"
  shows "\<exists>s'. onTcpConnected t x (s\<lparr>hs_tcp := tcp\<rparr>) = Inr s' \<and> http_inv s'"
proof -
  obtain cab where cab: "cab_alloc (Some a) (ts_conns (hs_tcp s)) = Inr (t, cab)"
      "tcp = (put_tcp a conn_open (hs_tcp s))\<lparr>ts_conns := cab\<rparr>"
    using al by (auto simp: tcp_onConnected_def split: sum.splits prod.splits)
  note law = cab.alloc_law [OF http_invD(1) [OF inv] cab(1)]
  let ?tc = "conn_open\<lparr>tc_ctx := Some x\<rparr>"
  have at: "conn_at t tcp = Inr (Some (a, conn_open))"
    using cab.get_law [of cab t] law by (simp add: conn_at_def cab(2) put_tcp_def)
  let ?s = "s\<lparr>hs_tcp := put_tcp a ?tc tcp, hs_objs := (hs_objs s)(x \<mapsto> connection_new), hs_conns := insert x (hs_conns s)\<rparr>"
  have e: "onTcpConnected t x (s\<lparr>hs_tcp := tcp\<rparr>) = Inr ?s"
    using at by (simp add: onTcpConnected_def setContext_def)
  have ready: "parser_ready (req_parser connection_new)" by (simp add: connection_new_def parser_new_def parser_ready_def)
  have t: "served ?s t a x"
    using law ready by (auto simp: served_def client_def put_tcp_def cab(2) conn_open_def)
  have sv: "served ?s u b y \<longleftrightarrow> (u = t \<and> b = a \<and> y = x) \<or> (u \<noteq> t \<and> served s u b y)" for u b y
  proof (cases "u = t")
    case True
    then show ?thesis using t served_unique by blast
  next
    case False
    have "served ?s u b y \<longleftrightarrow> served s u b y"
    proof
      assume l: "served ?s u b y"
      then obtain b' y' where b': "served s u b' y'"
        using http_invD(2) [OF inv, of u] law False by (auto simp: served_def client_def put_tcp_def cab(2))
      then have "b' \<noteq> a" "y' \<noteq> x" using new by (auto simp: served_def client_def)
      then show "served s u b y"
        using b' l law False by (auto simp: served_def client_def put_tcp_def cab(2))
    next
      assume r: "served s u b y"
      then have "b \<noteq> a" "y \<noteq> x" using new by (auto simp: served_def client_def)
      then show "served ?s u b y"
        using r law False by (auto simp: served_def client_def put_tcp_def cab(2))
    qed
    then show ?thesis using False by simp
  qed
  have old: "served s u b y \<Longrightarrow> b \<noteq> a \<and> y \<noteq> x \<and> u \<noteq> t" for u b y
    using new law by (auto simp: served_def client_def)
  have "http_inv ?s"
    unfolding http_inv_def sv
  proof (intro conjI allI impI ballI)
    show "cab_inv (ts_conns (hs_tcp ?s))" using law by (simp add: put_tcp_def cab(2))
    fix u assume "cab_lookup (ts_conns (hs_tcp ?s)) u \<noteq> None"
    then have "u = t \<or> u \<noteq> t \<and> cab_lookup (ts_conns (hs_tcp s)) u \<noteq> None" using law by (auto simp: put_tcp_def cab(2))
    then show "\<exists>b y. (u = t \<and> b = a \<and> y = x) \<or> (u \<noteq> t \<and> served s u b y)" using http_invD(2) [OF inv] by blast
  next
    fix u v b y b' y'
    assume "((u = t \<and> b = a \<and> y = x) \<or> (u \<noteq> t \<and> served s u b y)) \<and>
      ((v = t \<and> b' = a \<and> y' = x) \<or> (v \<noteq> t \<and> served s v b' y')) \<and> (b = b' \<or> y = y')"
    then show "u = v" using old http_invD(3) [OF inv] by blast
  next
    show "distinct (ts_dying (hs_tcp ?s))" using http_invD(4) [OF inv] by (simp add: put_tcp_def cab(2))
  next
    fix b assume "b \<in> set (ts_dying (hs_tcp ?s))"
    then have b: "b \<in> set (ts_dying (hs_tcp s))" by (simp add: put_tcp_def cab(2))
    then show "ts_objs (hs_tcp ?s) b \<noteq> None" using http_invD(5) [OF inv] by (simp add: put_tcp_def cab(2))
    fix u y
    have "b \<noteq> a" using http_invD(5) [OF inv b] new(1) by auto
    then show "\<not> ((u = t \<and> b = a \<and> y = x) \<or> (u \<noteq> t \<and> served s u b y))" using http_invD(6) [OF inv b] by blast
  next
    show "hs_conns ?s = dom (hs_objs ?s)" using http_invD(7) [OF inv] by simp
  qed
  with e show ?thesis by blast
qed


lemma fd_of_client:
  assumes "http_inv s" and "fd_of t (hs_tcp s) = Some (a, w)"
  shows "\<exists>x c. client s t a w x c \<and> parser_ready (req_parser c)"
proof -
  have "cab_lookup (ts_conns (hs_tcp s)) t \<noteq> None"
  proof
    assume "cab_lookup (ts_conns (hs_tcp s)) t = None"
    from no_client(2) [OF assms(1) this] assms(2) show False by (simp add: fd_of_def)
  qed
  then obtain b x w' c where c: "client s t b w' x c" "parser_ready (req_parser c)"
    using http_invD(2) [OF assms(1)] unfolding served_def by blast
  then show ?thesis
    using assms(2) client_at(1) [OF http_invD(1) [OF assms(1)] c(1)] by (auto simp: fd_of_def)
qed

lemma keep_rest_inv:
  assumes inv: "http_inv s"
  shows "http_inv (keep_rest t rest s)"
proof (cases "fd_of t (hs_tcp s)")
  case None
  then have "keep_rest t rest s = s"
    by (auto simp: fd_of_def keep_rest_def split: sum.splits option.splits)
  then show ?thesis using inv by simp
next
  case (Some y)
  obtain a w where y: "y = (a, w)" by (rule prod.exhaust)
  obtain x c where c: "client s t a w x c" "parser_ready (req_parser c)"
    using fd_of_client [OF inv] Some y by blast
  have "keep_rest t rest s = write_client a (w\<lparr>wire_in := rest\<rparr>) x c s"
    using client_at(1) [OF http_invD(1) [OF inv] c(1)] c(1)
    by (simp add: keep_rest_def write_client_def put_conn_def client_def put_tcp_def fun_upd_idem)
  then show ?thesis using write_client_inv [OF inv _ c(2)] c unfolding served_def by metis
qed

lemma delete_all_ok:
  "\<lbrakk>distinct as; \<forall>a \<in> set as. ts_objs s a \<noteq> None\<rbrakk> \<Longrightarrow> delete_all as s = Inr (s\<lparr>ts_objs := ts_objs s |` (- set as)\<rparr>)"
proof (induction as arbitrary: s)
  case (Cons a as)
  let ?s = "s\<lparr>ts_objs := (ts_objs s)(a := None)\<rparr>"
  have "\<forall>b \<in> set as. ts_objs ?s b \<noteq> None" using Cons.prems by auto
  then have ih: "delete_all as ?s = Inr (?s\<lparr>ts_objs := ts_objs ?s |` (- set as)\<rparr>)" 
    using Cons.prems(1) by (intro Cons.IH) simp_all
  have eq: "ts_objs ?s |` (- set as) = ts_objs s |` (- set (a # as))"
    by (auto simp: restrict_map_def fun_eq_iff)
  have "?s\<lparr>ts_objs := ts_objs ?s |` (- set as)\<rparr> = s\<lparr>ts_objs := ts_objs s |` (- set (a # as))\<rparr>"
    unfolding eq by simp
  with ih have "delete_all as ?s = Inr (s\<lparr>ts_objs := ts_objs s |` (- set (a # as))\<rparr>)" by (simp only:)
  then show ?case using Cons.prems(2) by simp
qed (simp add: restrict_map_def)

lemma deletions_inv:
  assumes inv: "http_inv s"
  shows "\<exists>tcp. tcp_runNext (hs_tcp s) = Inr tcp \<and> http_inv (s\<lparr>hs_tcp := tcp\<rparr>)"
proof -
  let ?d = "set (ts_dying (hs_tcp s))"
  let ?tcp = "(hs_tcp s)\<lparr>ts_dying := [], ts_objs := ts_objs (hs_tcp s) |` (- ?d)\<rparr>"
  have e: "tcp_runNext (hs_tcp s) = Inr ?tcp"
    using delete_all_ok [of "ts_dying (hs_tcp s)" "(hs_tcp s)\<lparr>ts_dying := []\<rparr>"] http_invD(4,5) [OF inv]
    by (simp add: tcp_runNext_def)
  have sv: "served (s\<lparr>hs_tcp := ?tcp\<rparr>) u b y \<longleftrightarrow> served s u b y" for u b y
    using http_invD(6) [OF inv, of b u y] by (auto simp: served_def client_def restrict_map_def)
  have "http_inv (s\<lparr>hs_tcp := ?tcp\<rparr>)"
    using inv unfolding http_inv_def sv by simp
  with e show ?thesis by blast
qed

lemma peer_closed_inv:
  assumes inv: "http_inv s" and c: "client s t a w x c" "parser_ready (req_parser c)"
  shows "\<exists>s'. http_step (PeerClosed t) (s, k) = Some (Inr (s', k)) \<and> http_inv s'"
proof -
  note ci = http_invD(1) [OF inv]
  let ?tcp = "put_tcp a \<lparr>tc_fd = None, tc_ctx = Some x\<rparr> (hs_tcp s)"
  have at: "conn_at t (hs_tcp s) = Inr (Some (a, \<lparr>tc_fd = Some w, tc_ctx = Some x\<rparr>))" by (rule client_at(1) [OF ci c(1)])
  then have fd: "fd_of t (hs_tcp s) = Some (a, w)" by (simp add: fd_of_def)
  have 1: "tcp_onSocketClosed t (hs_tcp s) = Inr ?tcp" using at by (simp add: tcp_onSocketClosed_def)
  have "cab_at t (ts_conns (hs_tcp s)) = Inr (Some a)" using cab.get_law [OF ci, of t] c(1) by (simp add: client_def)
  then have 2: "onTcpDisconnected t (s\<lparr>hs_tcp := ?tcp\<rparr>) = Inr (drop_conn x (s\<lparr>hs_tcp := ?tcp\<rparr>))"
    using c(1) by (simp add: onTcpDisconnected_def connection_of_def getContext_def conn_at_def put_tcp_def client_def)
  obtain cab where cab: "cab_free t (ts_conns (hs_tcp s)) = Inr (Some a, cab)" "cab_inv cab"
      "cab_lookup cab = (cab_lookup (ts_conns (hs_tcp s)))(t := None)"
    using cab.release_law [OF ci, of t] c(1) by (auto simp: client_def)
  then have 3: "tcp_onDisconnected t (hs_tcp (drop_conn x (s\<lparr>hs_tcp := ?tcp\<rparr>))) =
      Inr (?tcp\<lparr>ts_conns := cab, ts_dying := ts_dying (hs_tcp s) @ [a]\<rparr>)"
    by (simp add: tcp_onDisconnected_def drop_conn_def put_tcp_def)
  have sv: "served s t a x" using c unfolding served_def by blast
  let ?fin = "?tcp\<lparr>ts_conns := cab, ts_dying := ts_dying (hs_tcp s) @ [a]\<rparr>"
  have "(drop_conn x (s\<lparr>hs_tcp := ?tcp\<rparr>))\<lparr>hs_tcp := ?fin\<rparr> = drop_conn x (s\<lparr>hs_tcp := ?fin\<rparr>)" by (simp add: drop_conn_def)
  then show ?thesis
    using fd 1 2 3 close_state [OF inv sv cab(2,3)] by simp
qed

lemma send_done_inv:
  assumes inv: "http_inv s"
  shows "\<exists>s'. onTcpSendCompleted t s = Inr s' \<and> http_inv s'"
proof (cases "cab_lookup (ts_conns (hs_tcp s)) t")
  case None
  then show ?thesis using no_client [OF inv None] inv by (simp add: onTcpSendCompleted_def)
next
  case (Some p)
  then obtain a x where sv: "served s t a x" using http_invD(2) [OF inv] by blast
  then obtain w c where c: "client s t a w x c" by (auto simp: served_def)
  show ?thesis
    using client_at [OF http_invD(1) [OF inv] c] disconnect_client [OF inv sv] inv
    by (auto simp: onTcpSendCompleted_def)
qed

lemma http_step_inv:
  assumes inv: "http_inv s"
  shows "\<exists>res. http_step e (s, k) = Some res \<and>
     (case res of Inl x \<Rightarrow> stoi_error x \<or> x = LengthError | Inr (s', k') \<Rightarrow> http_inv s')"
proof (cases e)
  case (Accept a x)
  show ?thesis
  proof (cases "ts_objs (hs_tcp s) a \<noteq> None \<or> hs_objs s x \<noteq> None")
    case False
    show ?thesis
    proof (cases "tcp_onConnected a (hs_tcp s)")
      case (Inl y)
      then have "y = LengthError"
        using cab_alloc_error [OF http_invD(1) [OF inv]] by (auto simp: tcp_onConnected_def split: sum.splits prod.splits)
      then show ?thesis using Inl False by (simp add: Accept)
    next
      case (Inr y)
      obtain t tcp where y: "y = (t, tcp)" by (rule prod.exhaust)
      have "ts_objs (hs_tcp s) a = None" "hs_objs s x = None" using False by simp_all
      from accept_inv [OF inv this Inr [unfolded y]] obtain s' where "onTcpConnected t x (s\<lparr>hs_tcp := tcp\<rparr>) = Inr s'" "http_inv s'" by blast
      then show ?thesis using Inr y False by (simp add: Accept with_server_def)
    qed
  qed (use inv in \<open>simp add: Accept\<close>)
next
  case (Arrive t data)
  show ?thesis
  proof (cases "fd_of t (hs_tcp s)")
    case None
    then show ?thesis using inv by (simp add: Arrive)
  next
    case (Some y)
    obtain a w where y: "y = (a, w)" by (rule prod.exhaust)
    obtain x c where "client s t a w x c" "parser_ready (req_parser c)" using fd_of_client [OF inv] Some y by blast
    then have "served s t a x" unfolding served_def by blast
    from onTcpReceived_ends [OF inv this, of "wire_in w @ data" k] obtain res where
      res: "onTcpReceived t (wire_in w @ data) (s, k) = Some res"
        "case res of Inl e \<Rightarrow> stoi_error e | Inr (rest, s', k') \<Rightarrow> http_inv s'" by blast
    show ?thesis
    proof (cases res)
      case (Inl x)
      then show ?thesis using res Some y by (simp add: Arrive)
    next
      case (Inr z)
      obtain rest s' k' where z: "z = (rest, s', k')" by (rule prod_cases3)
      then show ?thesis using res Some y Inr keep_rest_inv [of s'] by (simp add: Arrive)
    qed
  qed
next
  case (PeerClosed t)
  show ?thesis
  proof (cases "fd_of t (hs_tcp s)")
    case None
    then show ?thesis using inv by (simp add: PeerClosed)
  next
    case (Some y)
    obtain a w where y: "y = (a, w)" by (rule prod.exhaust)
    obtain x c where c: "client s t a w x c" "parser_ready (req_parser c)" using fd_of_client [OF inv] Some y by blast
    from peer_closed_inv [OF inv c, of k] obtain s' where "http_step (PeerClosed t) (s, k) = Some (Inr (s', k))" "http_inv s'" by blast
    then show ?thesis by (simp only: PeerClosed option.simps) simp
  qed
next
  case (SendDone t)
  then show ?thesis using send_done_inv [OF inv, of t] by (auto simp: with_server_def)
next
  case (AnswerKept i f)
  show ?thesis
  proof (cases "take_nth i k")
    case (Some y)
    obtain c j k' where y: "y = ((c, j), k')" by (metis prod.exhaust)
    show ?thesis
      using commit_any [OF inv, of "cx_token c" "cx_index c" "f (cx_res c)"] Some y
      by (auto simp: AnswerKept with_server_def context_delete_def simp del: take_nth.simps)
  qed (use inv in \<open>simp add: AnswerKept\<close>)
next
  case (PassOn i)
  show ?thesis
  proof (cases "take_nth i k")
    case (Some y)
    obtain c j k' where y: "y = ((c, j), k')" by (metis prod.exhaust)
    show ?thesis
      using finish_any [OF inv, of "http_handle (hs_cbs s) (j + 1) c" k'] Some y
      by (auto simp: PassOn simp del: take_nth.simps)
  qed (use inv in \<open>simp add: PassOn\<close>)
next
  case Deletions
  then show ?thesis using deletions_inv [OF inv] by (auto simp: with_server_def)
qed

lemma http_run_inv:
  "http_inv s \<Longrightarrow> \<exists>res. http_run es (s, k) = Some res \<and>
     (case res of Inl x \<Rightarrow> stoi_error x \<or> x = LengthError | Inr (s', k') \<Rightarrow> http_inv s')"
proof (induction es arbitrary: s k)
  case (Cons e es)
  obtain res where res: "http_step e (s, k) = Some res"
    "case res of Inl x \<Rightarrow> stoi_error x \<or> x = LengthError | Inr (s', k') \<Rightarrow> http_inv s'"
    using http_step_inv [OF Cons.prems] by blast
  show ?case
  proof (cases res)
    case (Inl x)
    then show ?thesis using res by simp
  next
    case (Inr y)
    obtain s' k' where y: "y = (s', k')" by (rule prod.exhaust)
    from Cons.IH [of s' k'] show ?thesis using res Inr y by simp
  qed
qed simp

lemma new_server_inv: "http_inv (http_new\<lparr>hs_cbs := cbs, hs_state := st, hs_tcp := tcp_new\<lparr>ts_state := tst\<rparr>\<rparr>)"
  using cab_inv_empty by (auto simp: http_inv_def http_new_def tcp_new_def served_def client_def cab_lookup_def cab_empty_def)



definition started :: http_server where
  "started = http_new\<lparr>hs_state := httpRunning, hs_cbs := [Some (\<lambda>rq rs. (rs, KeepIt))], hs_tcp := tcp_new\<lparr>ts_state := tcpRunning\<rparr>\<rparr>"

lemma started_is:
  "\<exists>s1. http_initialize True (fold use_mw [Some (\<lambda>rq rs. (rs, KeepIt))] http_new) = (True, s1) \<and> http_start True s1 = (True, started)"
  by (simp add: http_initialize_def tcp_initialize_def http_start_def tcp_start_def use_mw_def http_new_def tcp_new_def started_def)


section \<open>Pipelined requests\<close>

lemma parse_start_again: "\<lbrakk>ps_state p = psInit; ps_req p = None\<rbrakk> \<Longrightarrow> parse_start s p = parse_start s parser_new"
  by (cases p) (simp add: parse_start_def parser_new_def)

lemma parse_again:
  assumes "ps_state p = psInit" and "ps_req p = None"
  shows "parse s p = parse s parser_new"
  unfolding parse_def parse_start_again [OF assms] using assms(1) by (simp add: parser_new_def)

definition keep_mw :: "middleware option list" where
  "keep_mw = [Some (\<lambda>rq rs. (rs, KeepIt))]"

definition kept_from :: "token \<Rightarrow> int \<Rightarrow> request list \<Rightarrow> kept" where
  "kept_from t i rs = map (\<lambda>(j, r). (context_new t (i + int j) (with_length r), 0)) (enumerate 0 rs)"

lemma kept_from_Cons: "kept_from t i (r # rs) = (context_new t i (with_length r), 0) # kept_from t (i + 1) rs"
proof -
  have "enumerate (Suc 0) rs = map (\<lambda>(j, r). (Suc j, r)) (enumerate 0 rs)"
    by (rule nth_equalityI) (simp_all add: nth_enumerate_eq)
  then show ?thesis by (simp add: kept_from_def case_prod_beta comp_def algebra_simps)
qed

lemma printed_not_empty: "request_toString r \<noteq> []"
  by (simp add: request_toString_def)

lemma receive_requests:
  assumes "http_inv s" and "client s t a w x c" and "ps_state (req_parser c) = psInit" and "ps_req (req_parser c) = None"
    and "hs_cbs s = keep_mw" and "\<forall>r \<in> set rs. request_ok r"
  shows "\<exists>s'. receive_loop t x (concat (map request_toString rs)) (s, k) = Some (Inr ([], s', k @ kept_from t (req_index c) rs)) \<and> http_inv s'"
  using assms
proof (induction rs arbitrary: s w c k)
  case Nil
  then show ?case by (simp add: receive_loop.simps kept_from_def)
next
  case (Cons r rs)
  let ?rest = "concat (map request_toString rs)"
  let ?p = "\<lparr>ps_state = psAll, ps_req = Some (with_length r), content_length = of_nat (length (rq_body r))\<rparr>"
  let ?q = "?p\<lparr>ps_req := None, ps_state := psInit\<rparr>" and ?n = "length (request_toString r)" and ?i = "req_index c"
  have p: "parse (request_toString r @ ?rest) (req_parser c) = Inr (?n, ?p)"
    using parse_again [OF Cons.prems(3,4)] parse_printed [of r ?rest] Cons.prems(6) by simp
  let ?last = "IsLastRequest (with_length r)"
  let ?c = "c\<lparr>req_parser := ?q, close_index := (if ?last then ?i else close_index c), req_index := ?i + 1\<rparr>"
  let ?w = "if ?last then w\<lparr>rd_shut := True\<rparr> else w"
  let ?s = "write_client a ?w x ?c s"
  have ready: "parser_ready (req_parser c)" "parser_ready (req_parser ?c)"
    using Cons.prems(3) by (simp_all add: parser_ready_def)
  have sv: "served s t a x" using Cons.prems(2) ready(1) unfolding served_def by blast
  have same: "put_tcp a \<lparr>tc_fd = Some w, tc_ctx = Some x\<rparr> (hs_tcp s) = hs_tcp s"
    using Cons.prems(2) by (simp add: put_tcp_def client_def fun_upd_idem)
  have "http_handle (hs_cbs s) 0 (context_new t ?i (with_length r)) = (context_new t ?i (with_length r), Some 0)"
    using Cons.prems(5) by (subst http_handle.simps) (simp add: keep_mw_def)
  then have on: "onRequest t x (c\<lparr>req_parser := ?q\<rparr>) (with_length r) (s, k) = Inr (?s, k @ [(context_new t ?i (with_length r), 0)])"
    using client_at(1) [OF http_invD(1) [OF Cons.prems(1)] Cons.prems(2)] same
    by (simp add: onRequest_def tcp_shutdown_def conn_shutdown_def write_client_def Let_def finish_handle_def)
  have o: "hs_objs s x = Some c" using Cons.prems(2) by (simp add: client_def)
  have loop: "receive_loop t x (request_toString r @ ?rest) (s, k) =
      receive_loop t x ?rest (?s, k @ [(context_new t ?i (with_length r), 0)])"
    using p o on printed_not_empty [of r] by (subst receive_loop.simps) (simp add: getRequest_def)
  have "http_inv ?s" by (rule write_client_inv [OF Cons.prems(1) sv ready(2)])
  moreover have "client ?s t a ?w x ?c" by (rule write_client_client [OF Cons.prems(2)])
  moreover have "hs_cbs ?s = keep_mw" using Cons.prems(5) by (simp add: write_client_def put_conn_def)
  ultimately obtain s' where "receive_loop t x ?rest (?s, k @ [(context_new t ?i (with_length r), 0)]) =
      Some (Inr ([], s', (k @ [(context_new t ?i (with_length r), 0)]) @ kept_from t (req_index ?c) rs))" "http_inv s'"
    using Cons.IH [of ?s ?w ?c "k @ [(context_new t ?i (with_length r), 0)]"] Cons.prems(6) by auto
  then show ?case using loop by (simp add: kept_from_Cons)
qed


lemma first_client:
  "\<exists>s w. http_step (Accept 1 1) (started, []) = Some (Inr (s, [])) \<and> client s (mk_token 1 0) 1 w 1 connection_new \<and> hs_cbs s = keep_mw"
  by (simp add: started_def http_new_def tcp_new_def tcp_onConnected_def cab_alloc_def cab_allocId_def cab_allocPos_def
      cab_empty_def vector_max_size_def pos_max_def empty_cell_def put_tcp_def conn_open_def onTcpConnected_def setContext_def conn_at_def
      cab_at_def token_isNull_def with_server_def client_def cab_lookup_def Let_def keep_mw_def)


section \<open>An answer for the wrong client\<close>

text \<open>\<open>TcpServer::stop\<close> clears its cabinet, which restarts the ids of the tokens. A request of the first
  client that is kept over a stop and a start has the token of the next client, so its answer goes to that one.\<close>

lemma answer_to_wrong_client:
  "case http_step (Accept 1 1) (started, []) of
     Some (Inr (s1, _)) \<Rightarrow> fd_of (mk_token 1 0) (hs_tcp s1) \<noteq> None \<and>
       (case http_stop s1 of
          Inr s2 \<Rightarrow> fd_of (mk_token 1 0) (hs_tcp s2) = None \<and>
            (case http_step (Accept 2 2) (snd (http_start True s2), []) of
               Some (Inr (s3, _)) \<Rightarrow>
                 (case commitRespond (mk_token 1 0) 0 r s3 of
                    Inr s4 \<Rightarrow> map_option (wire_out \<circ> snd) (fd_of (mk_token 1 0) (hs_tcp s4)) = Some [respond_toString r]
                  | Inl _ \<Rightarrow> False)
             | _ \<Rightarrow> False)
        | Inl _ \<Rightarrow> False)
   | _ \<Rightarrow> False"
  by (simp add: started_def http_new_def tcp_new_def tcp_onConnected_def cab_alloc_def cab_allocId_def cab_allocPos_def
      cab_empty_def vector_max_size_def pos_max_def empty_cell_def put_tcp_def conn_open_def onTcpConnected_def setContext_def conn_at_def
      cab_at_def token_isNull_def with_server_def fd_of_def http_stop_def tcp_stop_def cab_foreach_def cab_clear_def http_start_def
      tcp_start_def commitRespond_def isClientValid_def connection_of_def getContext_def commit_conn_def connection_new_def
      flush_buff.simps int_max_def tcp_send_def conn_send_def put_conn_def Let_def)

end
