(* ===== verification/Buffered_Fd.thy ===== *)
theory Buffered_Fd
  imports Buffer
begin

text \<open>
  The buffered descriptor of \<open>modules/network/buffered_fd.cpp\<close>, through which every connection, serial line and
  standard stream sends and receives. What a system call answers is an argument of the step: \<open>write\<close>
  takes some of the bytes, would block, or fails, and \<open>readv\<close> gives pieces until it gives none. The bytes the kernel took and
  the bytes handed over to the receiver are kept in the state as ghost fields.
\<close>

datatype bfd_state = fdEmpty | fdInited | fdRunning

datatype wresult = Wrote nat | WAgain | WError

datatype rresult = Got bytes | RZero | RAgain | RError

text \<open>An event is null, disabled or enabled.\<close>

record bfd =
  bf_state :: bfd_state
  bf_wev :: "bool ptr"
  bf_rev :: "bool ptr"
  send_buff :: buffer
  recv_buff :: buffer
  bf_threshold :: usize
  wr_out :: block            \<comment> \<open>the bytes the kernel took\<close>
  rd_taken :: block          \<comment> \<open>the bytes the receive callback consumed or the bound receiver got\<close>
  completes :: nat           \<comment> \<open>calls of the send-complete callback\<close>
  closes :: nat              \<comment> \<open>calls of the read-zero callback\<close>

definition bfd_new :: bfd where
  "bfd_new = \<lparr>bf_state = fdEmpty, bf_wev = None, bf_rev = None, send_buff = buf_init, recv_buff = buf_init, bf_threshold = 0,
     wr_out = [], rd_taken = [], completes = 0, closes = 0\<rparr>"

definition bfd_initialize :: "bool \<Rightarrow> bool \<Rightarrow> bool \<Rightarrow> bfd \<Rightarrow> bool \<times> bfd" where
  "bfd_initialize fd_null rd wr s =
     (if fd_null \<or> \<not> rd \<and> \<not> wr \<or> bf_state s \<noteq> fdEmpty then (False, s)
      else (True, s\<lparr>bf_rev := (if rd then Some False else None), bf_wev := (if wr then Some False else None), bf_state := fdInited\<rparr>))"

definition setReceiveCallback :: "usize \<Rightarrow> bfd \<Rightarrow> bfd" where
  "setReceiveCallback n s = s\<lparr>bf_threshold := n\<rparr>"

definition bfd_enable :: "bfd \<Rightarrow> bool \<times> bfd" where
  "bfd_enable s =
     (if bf_state s = fdRunning then (True, s)
      else if bf_state s \<noteq> fdInited then (False, s)
      else (True, s\<lparr>bf_rev := map_option (\<lambda>_. True) (bf_rev s), bf_state := fdRunning\<rparr>))"

definition bfd_disable :: "bfd \<Rightarrow> bool \<times> bfd" where
  "bfd_disable s =
     (if bf_state s = fdInited then (True, s)
      else if bf_state s \<noteq> fdRunning then (False, s)
      else (True, s\<lparr>bf_rev := map_option (\<lambda>_. False) (bf_rev s), bf_wev := map_option (\<lambda>_. False) (bf_wev s), bf_state := fdInited\<rparr>))"

section \<open>Sending\<close>

definition to_buffer :: "(usize \<Rightarrow> bool) \<Rightarrow> bytes \<Rightarrow> bfd \<Rightarrow> cxx_error + bfd" where
  "to_buffer avail d s = (case buf_append avail d (send_buff s) of Inl e \<Rightarrow> Inl e | Inr (_, b) \<Rightarrow> Inr (s\<lparr>send_buff := b\<rparr>))"

definition wait_writable :: "bfd \<Rightarrow> bfd" where
  "wait_writable s = s\<lparr>bf_wev := Some True\<rparr>"

definition bfd_send :: "(usize \<Rightarrow> bool) \<Rightarrow> wresult \<Rightarrow> bytes \<Rightarrow> bfd \<Rightarrow> cxx_error + bool \<times> bfd" where
  "bfd_send avail r d s =
     (if bf_wev s = None then Inr (False, s)
      else if bf_state s \<noteq> fdRunning \<or> buf_readableSize (send_buff s) > 0 then map_sum id (Pair True) (to_buffer avail d s)
      else case r of
        Wrote n \<Rightarrow>
          (let s1 = s\<lparr>wr_out := wr_out s @ map Some (take n d)\<rparr>
           in if n < length d then map_sum id (\<lambda>s2. (True, wait_writable s2)) (to_buffer avail (drop n d) s1)
              else Inr (True, wait_writable s1))
      | WAgain \<Rightarrow> map_sum id (\<lambda>s2. (True, wait_writable s2)) (to_buffer avail d s)
      | WError \<Rightarrow> Inr (True, s))"

definition onWriteCallback :: "wresult \<Rightarrow> bfd \<Rightarrow> cxx_error + bfd" where
  "onWriteCallback r s =
     (if buf_readableSize (send_buff s) = 0 then
        Inr (s\<lparr>bf_wev := map_option (\<lambda>_. False) (bf_wev s), completes := completes s + 1\<rparr>)
      else case read_block (buffer_ptr (send_buff s)) (read_index (send_buff s)) (buf_readableSize (send_buff s)) of
        Inl e \<Rightarrow> Inl e
      | Inr d \<Rightarrow>
          (case r of
             Wrote n \<Rightarrow> (let k = min n (length d)
                in Inr (s\<lparr>wr_out := wr_out s @ take k d, send_buff := buf_hasRead (of_nat k) (send_buff s)\<rparr>))
           | _ \<Rightarrow> Inr s))"

section \<open>Receiving\<close>

text \<open>One piece from \<open>readv\<close>: first into the writable part of the buffer, the rest by way of \<open>extbuf\<close>.\<close>

definition take_piece :: "(usize \<Rightarrow> bool) \<Rightarrow> bytes \<Rightarrow> buffer \<Rightarrow> cxx_error + buffer" where
  "take_piece avail d b =
     (let w = buf_writableSize b
      in case write_block (buffer_ptr b) (write_index b) (map Some (take (unat w) d)) of
           Inl e \<Rightarrow> Inl e
         | Inr p \<Rightarrow>
             (if length d > unat w then
                (case buf_append avail (drop (unat w) d) (buf_hasWritten w (b\<lparr>buffer_ptr := p\<rparr>)) of Inl e \<Rightarrow> Inl e | Inr (_, b') \<Rightarrow> Inr b')
              else Inr (buf_hasWritten (of_nat (length d)) (b\<lparr>buffer_ptr := p\<rparr>))))"

fun take_pieces :: "(usize \<Rightarrow> bool) \<Rightarrow> rresult list \<Rightarrow> buffer \<Rightarrow> cxx_error + buffer" where
  "take_pieces avail (Got d # rs) b = (case take_piece avail d b of Inl e \<Rightarrow> Inl e | Inr b' \<Rightarrow> take_pieces avail rs b')"
| "take_pieces avail rs b = Inr b"

text \<open>Who gets the bytes: a bound receiver all of them, the callback, which reads some of them, when there
  are at least \<open>receive_threshold_\<close>, and nobody drops them.\<close>

datatype bfd_sink = Bound | Callback "block \<Rightarrow> nat" | Nobody

definition deliver :: "bfd_sink \<Rightarrow> bfd \<Rightarrow> cxx_error + bfd" where
  "deliver k s = (case read_block (buffer_ptr (recv_buff s)) (read_index (recv_buff s)) (buf_readableSize (recv_buff s)) of
       Inl e \<Rightarrow> Inl e
     | Inr d \<Rightarrow>
        (case k of
           Bound \<Rightarrow> Inr (s\<lparr>rd_taken := rd_taken s @ d, recv_buff := buf_hasReadAll (recv_buff s)\<rparr>)
         | _ \<Rightarrow>
            (if buf_readableSize (recv_buff s) \<ge> bf_threshold s then
               (case k of
                  Callback f \<Rightarrow> (let n = min (f d) (length d)
                     in Inr (s\<lparr>rd_taken := rd_taken s @ take n d, recv_buff := buf_hasRead (of_nat n) (recv_buff s)\<rparr>))
                | _ \<Rightarrow> Inr (s\<lparr>recv_buff := buf_hasReadAll (recv_buff s)\<rparr>))
             else Inr s)))"

definition onReadCallback :: "(usize \<Rightarrow> bool) \<Rightarrow> bfd_sink \<Rightarrow> rresult list \<Rightarrow> bfd \<Rightarrow> cxx_error + bfd" where
  "onReadCallback avail k rs s = (case rs of
       Got d # rs' \<Rightarrow> (case take_pieces avail rs (recv_buff s) of
           Inl e \<Rightarrow> Inl e
         | Inr b \<Rightarrow> deliver k (s\<lparr>recv_buff := b\<rparr>))
     | RZero # rs' \<Rightarrow> Inr (s\<lparr>closes := closes s + 1\<rparr>)
     | _ \<Rightarrow> Inr s)"


section \<open>Runs\<close>

text \<open>What happens to a descriptor: the user sends, enables and disables, and the loop calls back when the
  descriptor is writable or readable and the event is enabled. The run keeps what was sent and what arrived.\<close>

datatype fd_op = FSend bytes wresult | FEnable | FDisable | FWritable wresult | FReadable "rresult list"

record fd_run =
  fd :: bfd
  sent :: bytes
  arrived :: bytes

fun pieces_of :: "rresult list \<Rightarrow> bytes" where
  "pieces_of (Got d # rs) = d @ pieces_of rs"
| "pieces_of rs = []"

fun fd_step :: "(usize \<Rightarrow> bool) \<Rightarrow> bfd_sink \<Rightarrow> fd_op \<Rightarrow> fd_run \<Rightarrow> cxx_error + fd_run" where
  "fd_step avail k (FSend d r) x = (case bfd_send avail r d (fd x) of
       Inl e \<Rightarrow> Inl e
     | Inr (ok, s) \<Rightarrow> Inr (x\<lparr>fd := s, sent := (if ok then sent x @ d else sent x)\<rparr>))"
| "fd_step avail k FEnable x = Inr (x\<lparr>fd := snd (bfd_enable (fd x))\<rparr>)"
| "fd_step avail k FDisable x = Inr (x\<lparr>fd := snd (bfd_disable (fd x))\<rparr>)"
| "fd_step avail k (FWritable r) x =
     (if bf_wev (fd x) = Some True then map_sum id (\<lambda>s. x\<lparr>fd := s\<rparr>) (onWriteCallback r (fd x)) else Inr x)"
| "fd_step avail k (FReadable rs) x =
     (if bf_rev (fd x) = Some True
      then map_sum id (\<lambda>s. x\<lparr>fd := s, arrived := arrived x @ pieces_of rs\<rparr>) (onReadCallback avail k rs (fd x)) else Inr x)"

fun fd_steps :: "(usize \<Rightarrow> bool) \<Rightarrow> bfd_sink \<Rightarrow> fd_op list \<Rightarrow> fd_run \<Rightarrow> cxx_error + fd_run" where
  "fd_steps avail k [] x = Inr x"
| "fd_steps avail k (e # es) x = (case fd_step avail k e x of Inl err \<Rightarrow> Inl err | Inr x' \<Rightarrow> fd_steps avail k es x')"

fun op_bytes :: "fd_op \<Rightarrow> nat" where
  "op_bytes (FSend d r) = length d"
| "op_bytes (FReadable rs) = length (pieces_of rs)"
| "op_bytes e = 0"

text \<open>A direct \<open>write\<close> in \<open>send\<close> that fails drops the data.\<close>

fun no_failure :: "fd_op \<Rightarrow> bool" where
  "no_failure (FSend d WError) = False"
| "no_failure e = True"

definition fd_inv :: "fd_run \<Rightarrow> bool" where
  "fd_inv x \<longleftrightarrow> buf_inv (send_buff (fd x)) \<and> buf_inv (recv_buff (fd x)) \<and>
     wr_out (fd x) @ buf_content (send_buff (fd x)) = map Some (sent x) \<and>
     rd_taken (fd x) @ buf_content (recv_buff (fd x)) = map Some (arrived x) \<and>
     unat (write_index (send_buff (fd x))) \<le> length (sent x) \<and>
     unat (write_index (recv_buff (fd x))) \<le> length (arrived x)"

lemma fd_invD:
  assumes "fd_inv x"
  shows "buf_inv (send_buff (fd x))" "buf_inv (recv_buff (fd x))"
    "wr_out (fd x) @ buf_content (send_buff (fd x)) = map Some (sent x)"
    "rd_taken (fd x) @ buf_content (recv_buff (fd x)) = map Some (arrived x)"
    "unat (write_index (send_buff (fd x))) \<le> length (sent x)"
    "unat (write_index (recv_buff (fd x))) \<le> length (arrived x)"
  using assms by (simp_all add: fd_inv_def)

lemma readable_zero: "buf_inv b \<Longrightarrow> buf_readableSize b = 0 \<longleftrightarrow> buf_content b = []"
  using length_buf_content [of b] by (metis length_0_conv unat_eq_zero)

text \<open>Appending to the send buffer.\<close>

lemma to_buffer_cases:
  assumes inv: "buf_inv (send_buff s)" and small: "unat (write_index (send_buff s)) + length d < 9223372036854775808"
  shows "to_buffer avail d s = Inl BadAlloc \<or>
    (\<exists>b. to_buffer avail d s = Inr (s\<lparr>send_buff := b\<rparr>) \<and> buf_inv b \<and> buf_content b = buf_content (send_buff s) @ map Some d \<and>
       unat (write_index b) \<le> unat (write_index (send_buff s)) + length d)"
proof (cases "buf_append avail d (send_buff s)")
  case (Inl e)
  then show ?thesis using buf_append_error [OF inv small Inl] by (simp add: to_buffer_def)
next
  case (Inr y)
  obtain n b where y: "y = (n, b)" by (rule prod.exhaust)
  show ?thesis
    using Inr y buf_append_spec [OF inv small Inr [unfolded y]] buf_append_write_index [OF inv Inr [unfolded y] small]
    by (auto simp: to_buffer_def intro!: exI [of _ b])
qed

lemma send_inv:
  assumes inv: "fd_inv x" and small: "length (sent x) + length d < 9223372036854775808" and r: "r \<noteq> WError"
  shows "bfd_send avail r d (fd x) = Inl BadAlloc \<or>
    (\<exists>ok s. bfd_send avail r d (fd x) = Inr (ok, s) \<and> fd_inv (x\<lparr>fd := s, sent := (if ok then sent x @ d else sent x)\<rparr>))"
proof -
  note i = fd_invD [OF inv]
  let ?s = "fd x" and ?b = "send_buff (fd x)"
  have sm: "unat (write_index ?b) + length d < 9223372036854775808" using i(5) small by simp
  show ?thesis
  proof (cases "bf_wev ?s = None")
    case True
    then show ?thesis using inv by (auto simp: bfd_send_def intro!: exI [of _ False])
  next
    case False
    show ?thesis
    proof (cases "bf_state ?s \<noteq> fdRunning \<or> buf_readableSize ?b > 0")
      case True
      then have e: "bfd_send avail r d ?s = map_sum id (Pair True) (to_buffer avail d ?s)"
        using False by (simp only: bfd_send_def if_False if_True simp_thms)
      show ?thesis
        unfolding e using to_buffer_cases [OF i(1) sm, of avail] i by (auto simp: fd_inv_def)
    next
      case direct: False
      then have empty: "buf_content ?b = []" using readable_zero [OF i(1)] by (simp add: word_greater_zero_iff)
      show ?thesis
      proof (cases r)
        case (Wrote n)
        let ?s1 = "?s\<lparr>wr_out := wr_out ?s @ map Some (take n d)\<rparr>"
        have e: "bfd_send avail r d ?s =
          (if n < length d then map_sum id (\<lambda>s2. (True, wait_writable s2)) (to_buffer avail (drop n d) ?s1) else Inr (True, wait_writable ?s1))"
          using False direct by (auto simp: bfd_send_def Wrote Let_def)
        show ?thesis
        proof (cases "n < length d")
          case True
          have "unat (write_index (send_buff ?s1)) + length (drop n d) < 9223372036854775808" using sm by simp
          from to_buffer_cases [OF _ this, of avail] i(1)
          consider "to_buffer avail (drop n d) ?s1 = Inl BadAlloc"
            | b where "to_buffer avail (drop n d) ?s1 = Inr (?s1\<lparr>send_buff := b\<rparr>)" "buf_inv b"
                "buf_content b = map Some (drop n d)" "unat (write_index b) \<le> unat (write_index ?b) + length (drop n d)"
            using empty by auto
          then show ?thesis
          proof cases
            case 1
            then show ?thesis unfolding e using True by simp
          next
            case 2
            have j: "map Some (take n d) @ map Some (drop n d) = map Some d" by (metis append_take_drop_id map_append)
            let ?s2 = "wait_writable (?s1\<lparr>send_buff := b\<rparr>)"
            have r: "bfd_send avail (Wrote n) d ?s = Inr (True, ?s2)" using e True 2(1) unfolding Wrote by simp
            have "(wr_out ?s @ map Some (take n d)) @ buf_content b = map Some (sent x @ d)" using 2(3) i(3) empty j by simp
            then have "fd_inv (x\<lparr>fd := ?s2, sent := sent x @ d\<rparr>)"
              using i(2,4,5,6) 2(2,4) by (simp add: fd_inv_def wait_writable_def)
            then show ?thesis unfolding Wrote using r by (intro disjI2 exI [of _ True] exI [of _ ?s2]) simp
          qed
        next
          case False
          then show ?thesis unfolding e using i empty by (auto simp: fd_inv_def wait_writable_def)
        qed
      next
        case WAgain
        have e: "bfd_send avail r d ?s = map_sum id (\<lambda>s2. (True, wait_writable s2)) (to_buffer avail d ?s)"
          using False direct by (auto simp: bfd_send_def WAgain)
        show ?thesis
          unfolding e using to_buffer_cases [OF i(1) sm, of avail] i by (auto simp: fd_inv_def wait_writable_def)
      qed (use r in simp)
    qed
  qed
qed

lemma read_all: "buf_inv b \<Longrightarrow> read_block (buffer_ptr b) (read_index b) (buf_readableSize b) = Inr (buf_content b)"
  using read_block_all [of b] by (simp add: buf_readableSize_def)

lemma hasRead_nat:
  assumes inv: "buf_inv b" and n: "n \<le> length (buf_content b)"
  shows "buf_inv (buf_hasRead (of_nat n) b)" "buf_content (buf_hasRead (of_nat n) b) = drop n (buf_content b)"
    "unat (write_index (buf_hasRead (of_nat n) b)) \<le> unat (write_index b)"
proof -
  have l: "length (buf_content b) = unat (buf_readableSize b)" by (rule length_buf_content [OF inv])
  then have u: "unat (of_nat n :: usize) = n" using n unat_u64_less [of "buf_readableSize b"] by simp
  show "buf_inv (buf_hasRead (of_nat n) b)" "buf_content (buf_hasRead (of_nat n) b) = drop n (buf_content b)"
    "unat (write_index (buf_hasRead (of_nat n) b)) \<le> unat (write_index b)"
    using buf_hasRead_spec [OF inv, of "of_nat n"] u n l by (auto simp: word_le_nat_alt)
qed

lemma writable_inv:
  assumes inv: "fd_inv x"
  shows "\<exists>s. onWriteCallback r (fd x) = Inr s \<and> fd_inv (x\<lparr>fd := s\<rparr>)"
proof -
  note i = fd_invD [OF inv]
  let ?c = "buf_content (send_buff (fd x))"
  show ?thesis
  proof (cases "?c = []")
    case True
    then show ?thesis using readable_zero [OF i(1)] i by (simp add: onWriteCallback_def fd_inv_def)
  next
    case False
    have "onWriteCallback r (fd x) = (case r of Wrote n \<Rightarrow> (let k = min n (length ?c)
        in Inr ((fd x)\<lparr>wr_out := wr_out (fd x) @ take k ?c, send_buff := buf_hasRead (of_nat k) (send_buff (fd x))\<rparr>)) | _ \<Rightarrow> Inr (fd x))"
      using False readable_zero [OF i(1)] read_all [OF i(1)] by (simp add: onWriteCallback_def)
    moreover have "fd_inv (x\<lparr>fd := (fd x)\<lparr>wr_out := wr_out (fd x) @ take k ?c, send_buff := buf_hasRead (of_nat k) (send_buff (fd x))\<rparr>\<rparr>)"
      if "k \<le> length ?c" for k
      using hasRead_nat [OF i(1) that] i by (auto simp: fd_inv_def)
    ultimately show ?thesis using inv by (cases r) (auto simp: Let_def)
  qed
qed


text \<open>What \<open>readv\<close> puts into the buffer extends its content.\<close>

lemma hasWritten_index: "unat (write_index b) + n < 9223372036854775808 \<Longrightarrow> unat (write_index (buf_hasWritten (of_nat n) b)) \<le> unat (write_index b) + n"
proof -
  assume a: "unat (write_index b) + n < 9223372036854775808"
  then have "unat (write_index b + of_nat n) = unat (write_index b) + n" by (subst unat_add_lt) simp_all
  then show ?thesis by (auto simp: buf_hasWritten_def word_less_nat_alt)
qed

lemma fill_writable:
  assumes inv: "buf_inv b" and n: "length src \<le> unat (buf_writableSize b)" and small: "unat (write_index b) + length src < 9223372036854775808"
  shows "\<exists>p. write_block (buffer_ptr b) (write_index b) (map Some src) = Inr p \<and>
     buf_inv (buf_hasWritten (of_nat (length src)) (b\<lparr>buffer_ptr := p\<rparr>)) \<and>
     buf_content (buf_hasWritten (of_nat (length src)) (b\<lparr>buffer_ptr := p\<rparr>)) = buf_content b @ map Some src \<and>
     unat (write_index (buf_hasWritten (of_nat (length src)) (b\<lparr>buffer_ptr := p\<rparr>))) \<le> unat (write_index b) + length src"
proof (cases "buffer_ptr b")
  case None
  then have s: "src = []" "b\<lparr>buffer_ptr := None\<rparr> = b" using inv n buf_writableSize_unat [OF inv] by (auto simp: buf_inv_def)
  have "buf_hasWritten 0 b = b" using inv by (auto simp: buf_hasWritten_def buf_inv_def dest: leD)
  then have h: "buf_hasWritten 0 (b\<lparr>buffer_ptr := None\<rparr>) = b" unfolding s(2) .
  show ?thesis using None inv s(1) h by (simp add: write_block_def)
next
  case (Some m)
  have "unat (write_index b) + length src \<le> length m"
    using inv n buf_writableSize_unat [OF inv] buf_inv_nat [OF inv] Some by (auto simp: buf_inv_def)
  then obtain m' where m': "mem_write m (unat (write_index b)) (map Some src) = Some m'" by (simp add: mem_write_def)
  have u: "unat (of_nat (length src) :: usize) = length src" using small by simp
  show ?thesis
    using buf_hasWritten_spec [OF inv, of "of_nat (length src)" m "map Some src" m'] n u Some m'
      hasWritten_index [of "b\<lparr>buffer_ptr := Some m'\<rparr>" "length src"] small
    by (simp add: write_block_def)
qed

lemma take_piece_cases:
  assumes inv: "buf_inv b" and small: "unat (write_index b) + length d < 9223372036854775808"
  shows "take_piece avail d b = Inl BadAlloc \<or>
    (\<exists>b'. take_piece avail d b = Inr b' \<and> buf_inv b' \<and> buf_content b' = buf_content b @ map Some d \<and>
       unat (write_index b') \<le> unat (write_index b) + length d)"
proof -
  let ?w = "buf_writableSize b"
  let ?k = "min (unat ?w) (length d)"
  have t: "take (unat ?w) d = take ?k d" by (simp add: min_def)
  have "length (take ?k d) \<le> unat ?w" "unat (write_index b) + length (take ?k d) < 9223372036854775808" using small by auto
  from fill_writable [OF inv this] obtain p where
    p: "write_block (buffer_ptr b) (write_index b) (map Some (take (unat ?w) d)) = Inr p"
      "buf_inv (buf_hasWritten (of_nat ?k) (b\<lparr>buffer_ptr := p\<rparr>))"
      "buf_content (buf_hasWritten (of_nat ?k) (b\<lparr>buffer_ptr := p\<rparr>)) = buf_content b @ map Some (take ?k d)"
      "unat (write_index (buf_hasWritten (of_nat ?k) (b\<lparr>buffer_ptr := p\<rparr>))) \<le> unat (write_index b) + ?k"
    unfolding t by auto
  show ?thesis
  proof (cases "length d > unat ?w")
    case False
    then have k: "?k = length d" by simp
    show ?thesis using p False unfolding k by (simp add: take_piece_def Let_def)
  next
    case True
    then have k: "?k = unat ?w" by simp
    let ?b = "buf_hasWritten ?w (b\<lparr>buffer_ptr := p\<rparr>)"
    have q: "buf_inv ?b" "buf_content ?b = buf_content b @ map Some (take (unat ?w) d)" "unat (write_index ?b) \<le> unat (write_index b) + unat ?w"
      using p(2-4) unfolding k by simp_all
    have sm: "unat (write_index ?b) + length (drop (unat ?w) d) < 9223372036854775808" using q(3) True small by simp
    have e: "take_piece avail d b = (case buf_append avail (drop (unat ?w) d) ?b of Inl e \<Rightarrow> Inl e | Inr (_, b') \<Rightarrow> Inr b')"
      using p(1) True by (simp add: take_piece_def Let_def)
    have j: "map Some (take (unat ?w) d) @ map Some (drop (unat ?w) d) = map Some d" by (metis append_take_drop_id map_append)
    show ?thesis
    proof (cases "buf_append avail (drop (unat ?w) d) ?b")
      case (Inl x)
      then show ?thesis using buf_append_error [OF q(1) sm Inl] unfolding e by simp
    next
      case (Inr y)
      obtain n b' where y: "y = (n, b')" by (rule prod.exhaust)
      show ?thesis
        using buf_append_spec [OF q(1) sm Inr [unfolded y]] buf_append_write_index [OF q(1) Inr [unfolded y] sm] Inr y q(2,3) True j
        unfolding e by (auto intro!: exI [of _ b'])
    qed
  qed
qed

lemma take_pieces_cases:
  assumes "buf_inv b" and "unat (write_index b) + length (pieces_of rs) < 9223372036854775808"
  shows "take_pieces avail rs b = Inl BadAlloc \<or>
    (\<exists>b'. take_pieces avail rs b = Inr b' \<and> buf_inv b' \<and> buf_content b' = buf_content b @ map Some (pieces_of rs) \<and>
       unat (write_index b') \<le> unat (write_index b) + length (pieces_of rs))"
  using assms
proof (induction avail rs b rule: take_pieces.induct)
  case (1 avail d rs b)
  have "unat (write_index b) + length d < 9223372036854775808" using "1.prems"(2) by simp
  from take_piece_cases [OF "1.prems"(1) this, of avail] consider "take_piece avail d b = Inl BadAlloc"
    | b1 where "take_piece avail d b = Inr b1" "buf_inv b1" "buf_content b1 = buf_content b @ map Some d"
        "unat (write_index b1) \<le> unat (write_index b) + length d" by auto
  then show ?case
  proof cases
    case 2
    have "unat (write_index b1) + length (pieces_of rs) < 9223372036854775808" using 2(4) "1.prems"(2) by simp
    from "1.IH" [OF 2(1,2) this] show ?thesis using 2 by auto
  qed simp
qed simp_all

lemma not_got:
  assumes "\<nexists>d rs'. rs = Got d # rs'"
  shows "pieces_of rs = [] \<and> (onReadCallback avail k rs s = Inr s \<or> onReadCallback avail k rs s = Inr (s\<lparr>closes := closes s + 1\<rparr>))"
proof (cases rs)
  case (Cons a rs')
  then show ?thesis using assms by (cases a) (simp_all add: onReadCallback_def)
qed (simp add: onReadCallback_def)

lemma readable_inv:
  assumes inv: "fd_inv x" and small: "length (arrived x) + length (pieces_of rs) < 9223372036854775808" and k: "k \<noteq> Nobody"
  shows "onReadCallback avail k rs (fd x) = Inl BadAlloc \<or>
    (\<exists>s. onReadCallback avail k rs (fd x) = Inr s \<and> fd_inv (x\<lparr>fd := s, arrived := arrived x @ pieces_of rs\<rparr>))"
proof -
  note i = fd_invD [OF inv]
  have dl: "\<exists>s. deliver k ((fd x)\<lparr>recv_buff := b\<rparr>) = Inr s \<and> fd_inv (x\<lparr>fd := s, arrived := arrived x @ pieces_of rs\<rparr>)"
    if b: "buf_inv b" "buf_content b = buf_content (recv_buff (fd x)) @ map Some (pieces_of rs)"
      "unat (write_index b) \<le> length (arrived x) + length (pieces_of rs)" for b
  proof -
    let ?s = "(fd x)\<lparr>recv_buff := b\<rparr>" and ?c = "buf_content b"
    have part: "fd_inv (x\<lparr>fd := ?s\<lparr>rd_taken := rd_taken ?s @ take n ?c, recv_buff := buf_hasRead (of_nat n) b\<rparr>, arrived := arrived x @ pieces_of rs\<rparr>)"
      if "n \<le> length ?c" for n
    proof -
      have "(rd_taken (fd x) @ take n ?c) @ drop n ?c = map Some (arrived x @ pieces_of rs)"
        using i(4) b(2) by (simp only: append_assoc append_take_drop_id map_append) (simp flip: append_assoc)
      then show ?thesis using hasRead_nat [OF b(1) that] i b(1,3) by (simp add: fd_inv_def)
    qed
    have all: "fd_inv (x\<lparr>fd := ?s\<lparr>rd_taken := rd_taken ?s @ ?c, recv_buff := buf_hasReadAll b\<rparr>, arrived := arrived x @ pieces_of rs\<rparr>)"
    proof -
      have "buf_inv (buf_hasReadAll b)" "buf_content (buf_hasReadAll b) = []" "write_index (buf_hasReadAll b) = 0"
        using b(1) by (auto simp: buf_hasReadAll_def buf_inv_def buf_content_def split: option.splits)
      then show ?thesis using i b by (auto simp: fd_inv_def)
    qed
    have none: "fd_inv (x\<lparr>fd := ?s, arrived := arrived x @ pieces_of rs\<rparr>)" using i b by (auto simp: fd_inv_def)
    show ?thesis
    proof (cases k)
      case Bound
      then show ?thesis using all read_all [OF b(1)] by (simp add: deliver_def)
    next
      case (Callback f)
      show ?thesis
      proof (cases "buf_readableSize b \<ge> bf_threshold (fd x)")
        case True
        then show ?thesis using part [of "min (f ?c) (length ?c)"] read_all [OF b(1)] Callback by (simp add: deliver_def Let_def)
      next
        case False
        then show ?thesis using none read_all [OF b(1)] Callback by (simp add: deliver_def)
      qed
    qed (use k in simp)
  qed
  show ?thesis
  proof (cases "\<exists>d rs'. rs = Got d # rs'")
    case True
    then have e: "onReadCallback avail k rs (fd x) = (case take_pieces avail rs (recv_buff (fd x)) of Inl e \<Rightarrow> Inl e | Inr b \<Rightarrow> deliver k ((fd x)\<lparr>recv_buff := b\<rparr>))"
      by (auto simp: onReadCallback_def)
    have "unat (write_index (recv_buff (fd x))) + length (pieces_of rs) < 9223372036854775808" using i(6) small by simp
    from take_pieces_cases [OF i(2) this, of avail] consider "take_pieces avail rs (recv_buff (fd x)) = Inl BadAlloc"
      | b where "take_pieces avail rs (recv_buff (fd x)) = Inr b" "buf_inv b"
          "buf_content b = buf_content (recv_buff (fd x)) @ map Some (pieces_of rs)"
          "unat (write_index b) \<le> unat (write_index (recv_buff (fd x))) + length (pieces_of rs)" by auto
    then show ?thesis
    proof cases
      case 1
      then show ?thesis unfolding e by simp
    next
      case 2
      have "unat (write_index b) \<le> length (arrived x) + length (pieces_of rs)" using 2(4) i(6) by simp
      from dl [OF 2(2,3) this] show ?thesis unfolding e using 2(1) by simp
    qed
  next
    case False
    then have p: "pieces_of rs = []"
      and r: "onReadCallback avail k rs (fd x) = Inr (fd x) \<or> onReadCallback avail k rs (fd x) = Inr ((fd x)\<lparr>closes := closes (fd x) + 1\<rparr>)"
      using not_got by blast+
    have "fd_inv (x\<lparr>fd := fd x, arrived := arrived x @ []\<rparr>)" "fd_inv (x\<lparr>fd := (fd x)\<lparr>closes := closes (fd x) + 1\<rparr>, arrived := arrived x @ []\<rparr>)"
      using inv by (simp_all add: fd_inv_def)
    then show ?thesis unfolding p using r by blast
  qed
qed


section \<open>Order\<close>

lemma fd_step_inv:
  assumes inv: "fd_inv x" and k: "k \<noteq> Nobody" and ok: "no_failure e"
    and small: "length (sent x) + length (arrived x) + op_bytes e < 9223372036854775808"
  shows "fd_step avail k e x = Inl BadAlloc \<or> (\<exists>x'. fd_step avail k e x = Inr x' \<and> fd_inv x' \<and>
     length (sent x') + length (arrived x') \<le> length (sent x) + length (arrived x) + op_bytes e)"
proof (cases e)
  case (FSend d r)
  have "length (sent x) + length d < 9223372036854775808" "r \<noteq> WError" using small ok FSend by auto
  from send_inv [OF inv this, of avail] show ?thesis by (auto simp: FSend)
next
  case FEnable
  have "fd_inv (x\<lparr>fd := snd (bfd_enable (fd x))\<rparr>)" using inv by (simp add: fd_inv_def bfd_enable_def)
  then show ?thesis by (simp add: FEnable)
next
  case FDisable
  have "fd_inv (x\<lparr>fd := snd (bfd_disable (fd x))\<rparr>)" using inv by (simp add: fd_inv_def bfd_disable_def)
  then show ?thesis by (simp add: FDisable)
next
  case (FWritable r)
  then show ?thesis using writable_inv [OF inv, of r] inv by auto
next
  case (FReadable rs)
  have "length (arrived x) + length (pieces_of rs) < 9223372036854775808" using small FReadable by simp
  from readable_inv [OF inv this k, of avail] show ?thesis using inv by (auto simp: FReadable)
qed

lemma fd_steps_inv:
  assumes "fd_inv x" and "k \<noteq> Nobody" and "\<forall>e \<in> set es. no_failure e"
    and "length (sent x) + length (arrived x) + sum_list (map op_bytes es) < 9223372036854775808"
  shows "fd_steps avail k es x = Inl BadAlloc \<or> (\<exists>x'. fd_steps avail k es x = Inr x' \<and> fd_inv x')"
  using assms
proof (induction es arbitrary: x)
  case (Cons e es)
  have "length (sent x) + length (arrived x) + op_bytes e < 9223372036854775808" "no_failure e" using Cons.prems by auto
  from fd_step_inv [OF Cons.prems(1,2) this(2,1), of avail] consider "fd_step avail k e x = Inl BadAlloc"
    | x' where "fd_step avail k e x = Inr x'" "fd_inv x'"
        "length (sent x') + length (arrived x') \<le> length (sent x) + length (arrived x) + op_bytes e" by auto
  then show ?case
  proof cases
    case 2
    then show ?thesis using Cons.IH [of x'] Cons.prems by simp
  qed simp
qed simp

definition fd_start :: "bfd \<Rightarrow> fd_run" where
  "fd_start s = \<lparr>fd = s, sent = [], arrived = []\<rparr>"

lemma start_inv: "bfd_initialize False rd wr bfd_new = (True, s) \<Longrightarrow> fd_inv (fd_start (setReceiveCallback n s))"
  by (auto simp: bfd_initialize_def bfd_new_def setReceiveCallback_def fd_start_def fd_inv_def buf_init_def split: if_splits)
     (simp_all flip: buf_init_def)

text \<open>(C4) Both directions of a descriptor are streams: over any run of sending, enabling, disabling and
  callbacks of the loop, whatever part of the bytes each \<open>write\<close> takes and in whatever pieces they arrive, the bytes the
  kernel took and those still in the send buffer are the bytes of the accepted sends, in order, and the bytes the receiver
  got and those still in the receive buffer are the bytes that arrived, in order. The only exception
  is \<open>bad_alloc\<close>. A direct write of \<open>send\<close> that fails is excluded: it drops its bytes.\<close>

theorem fd_streams_in_order:
  assumes "bfd_initialize False rd wr bfd_new = (True, s)" and "k \<noteq> Nobody" and "\<forall>e \<in> set es. no_failure e"
    and "sum_list (map op_bytes es) < 9223372036854775808"
  shows "case fd_steps avail k es (fd_start (setReceiveCallback n s)) of
     Inl e \<Rightarrow> e = BadAlloc
   | Inr x \<Rightarrow> wr_out (fd x) @ buf_content (send_buff (fd x)) = map Some (sent x) \<and>
       rd_taken (fd x) @ buf_content (recv_buff (fd x)) = map Some (arrived x)"
proof -
  have "length (sent (fd_start (setReceiveCallback n s))) + length (arrived (fd_start (setReceiveCallback n s))) + sum_list (map op_bytes es) < 9223372036854775808"
    using assms(4) by (simp add: fd_start_def)
  from fd_steps_inv [OF start_inv [OF assms(1)] assms(2,3) this, of avail] show ?thesis
    by (auto dest: fd_invD(3,4))
qed

definition fd_example :: "fd_op list" where
  "fd_example = [FEnable, FSend [1, 2, 3] (Wrote 1), FSend [4] WAgain, FWritable (Wrote 2), FReadable [Got [7], Got [8], RAgain], FWritable (Wrote 1), FWritable WAgain]"

lemma fd_streams_in_order_witness:
  "case fd_steps (\<lambda>_. True) (Callback length) fd_example (fd_start (setReceiveCallback 0 (snd (bfd_initialize False True True bfd_new)))) of
     Inl e \<Rightarrow> e = BadAlloc
   | Inr x \<Rightarrow> wr_out (fd x) @ buf_content (send_buff (fd x)) = map Some (sent x) \<and>
       rd_taken (fd x) @ buf_content (recv_buff (fd x)) = map Some (arrived x)"
proof -
  have "bfd_initialize False True True bfd_new = (True, snd (bfd_initialize False True True bfd_new))"
    by (simp add: bfd_initialize_def bfd_new_def)
  from fd_streams_in_order [OF this, of "Callback length" fd_example] show ?thesis by (simp add: fd_example_def)
qed

section \<open>Everything is sent\<close>

text \<open>A running descriptor with something to send waits for the writable event.\<close>

definition awake :: "bfd \<Rightarrow> bool" where
  "awake s \<longleftrightarrow> bf_state s = fdRunning \<and> bf_wev s \<noteq> None \<and> (buf_readableSize (send_buff s) > 0 \<longrightarrow> bf_wev s = Some True)"

lemma send_awake: "awake s \<Longrightarrow> bfd_send avail r d s = Inr (ok, s') \<Longrightarrow> awake s'"
  by (auto simp: bfd_send_def awake_def to_buffer_def wait_writable_def Let_def split: if_splits wresult.splits sum.splits prod.splits)

lemma write_awake: "awake s \<Longrightarrow> bf_wev s = Some True \<Longrightarrow> onWriteCallback r s = Inr s' \<Longrightarrow> awake s'"
  by (auto simp: onWriteCallback_def awake_def Let_def split: if_splits sum.splits wresult.splits)

lemma deliver_send_side: "deliver k s = Inr s' \<Longrightarrow> bf_state s' = bf_state s \<and> bf_wev s' = bf_wev s \<and> send_buff s' = send_buff s \<and> wr_out s' = wr_out s"
  by (auto simp: deliver_def Let_def split: sum.splits bfd_sink.splits if_splits)

lemma read_send_side: "onReadCallback avail k rs s = Inr s' \<Longrightarrow> bf_state s' = bf_state s \<and> bf_wev s' = bf_wev s \<and> send_buff s' = send_buff s \<and> wr_out s' = wr_out s"
  by (auto simp: onReadCallback_def dest: deliver_send_side split: list.splits rresult.splits sum.splits)

lemma step_awake:
  assumes "awake (fd x)" and "fd_step avail k e x = Inr x'" and "e \<noteq> FDisable"
  shows "awake (fd x')"
proof (cases e)
  case (FSend d r)
  then show ?thesis using assms send_awake by (fastforce split: sum.splits)
next
  case (FWritable r)
  show ?thesis
  proof (cases "bf_wev (fd x) = Some True")
    case True
    then show ?thesis using assms write_awake [OF assms(1) True] by (cases "onWriteCallback r (fd x)") (auto simp: FWritable)
  qed (use assms in \<open>simp add: FWritable\<close>)
next
  case (FReadable rs)
  show ?thesis
  proof (cases "onReadCallback avail k rs (fd x)")
    case (Inr s)
    then show ?thesis using assms read_send_side [OF Inr] by (auto simp: FReadable awake_def split: if_splits)
  qed (use assms in \<open>auto simp: FReadable split: if_splits\<close>)
qed (use assms in \<open>auto simp: awake_def bfd_enable_def\<close>)

lemma steps_awake:
  "\<lbrakk>awake (fd x); fd_steps avail k es x = Inr x'; FDisable \<notin> set es\<rbrakk> \<Longrightarrow> awake (fd x')"
proof (induction es arbitrary: x)
  case (Cons e es)
  then obtain x1 where "fd_step avail k e x = Inr x1" "fd_steps avail k es x1 = Inr x'" by (auto split: sum.splits)
  then show ?case using Cons.IH [of x1] Cons.prems step_awake [of x avail k e x1] by auto
qed simp

text \<open>Once idle, the writable events that still come change nothing.\<close>

lemma idle_writes:
  "bf_wev (fd x) = Some False \<Longrightarrow> fd_steps avail k (map (\<lambda>n. FWritable (Wrote n)) ns) x = Inr x"
  by (induction ns) simp_all

lemma drain:
  assumes "fd_inv x" and "bf_wev (fd x) = Some True" and "\<forall>n \<in> set ns. 0 < n"
    and "length (buf_content (send_buff (fd x))) < length ns"
  shows "\<exists>x'. fd_steps avail k (map (\<lambda>n. FWritable (Wrote n)) ns) x = Inr x' \<and>
     wr_out (fd x') = map Some (sent x) \<and> buf_content (send_buff (fd x')) = [] \<and>
     completes (fd x') = completes (fd x) + 1 \<and> bf_wev (fd x') = Some False"
  using assms
proof (induction ns arbitrary: x)
  case (Cons n ns)
  note i = fd_invD [OF Cons.prems(1)]
  let ?c = "buf_content (send_buff (fd x))"
  show ?case
  proof (cases "?c = []")
    case True
    let ?x = "x\<lparr>fd := (fd x)\<lparr>bf_wev := Some False, completes := completes (fd x) + 1\<rparr>\<rparr>"
    have s: "fd_step avail k (FWritable (Wrote n)) x = Inr ?x"
      using True Cons.prems(2) readable_zero [OF i(1)] by (simp add: onWriteCallback_def)
    have "fd_steps avail k (map (\<lambda>n. FWritable (Wrote n)) ns) ?x = Inr ?x" by (rule idle_writes) simp
    then show ?thesis using s True i(3) by simp
  next
    case False
    let ?k = "min n (length ?c)"
    let ?x = "x\<lparr>fd := (fd x)\<lparr>wr_out := wr_out (fd x) @ take ?k ?c, send_buff := buf_hasRead (of_nat ?k) (send_buff (fd x))\<rparr>\<rparr>"
    have w: "onWriteCallback (Wrote n) (fd x) = Inr (fd ?x)"
      using False readable_zero [OF i(1)] read_all [OF i(1)] by (simp add: onWriteCallback_def Let_def)
    then have s: "fd_step avail k (FWritable (Wrote n)) x = Inr ?x" using Cons.prems(2) by simp
    have "fd_inv ?x" using writable_inv [OF Cons.prems(1), of "Wrote n"] w by simp
    moreover have "0 < ?k" using False Cons.prems(3) by simp
    then have "length ?c - ?k < length ns" using Cons.prems(4) diff_less [of ?k "length ?c"] by (cases ?c) simp_all
    then have "length (buf_content (send_buff (fd ?x))) < length ns"
      using hasRead_nat(2) [OF i(1), of ?k] by simp
    ultimately have "\<exists>x'. fd_steps avail k (map (\<lambda>n. FWritable (Wrote n)) ns) ?x = Inr x' \<and>
     wr_out (fd x') = map Some (sent ?x) \<and> buf_content (send_buff (fd x')) = [] \<and>
     completes (fd x') = completes (fd ?x) + 1 \<and> bf_wev (fd x') = Some False"
      using Cons.prems(2,3) by (intro Cons.IH) simp_all
    then show ?thesis using s by simp
  qed
qed simp

text \<open>(C5) Everything that is sent reaches the kernel: when a descriptor was enabled before the first send and not
  disabled since, then after any run, as soon as the kernel takes at least one byte at each of as many writable events as there
  are bytes left, and one more, the kernel has all bytes of all sends in order, the buffer is empty, the send-complete
  callback is called exactly once, if anything is due, and the writable event is switched off.\<close>

theorem sends_complete:
  assumes "bfd_initialize False rd True bfd_new = (True, s)" and "k \<noteq> Nobody" and "\<forall>e \<in> set es. no_failure e \<and> e \<noteq> FDisable"
    and "sum_list (map op_bytes es) < 9223372036854775808"
    and "fd_steps avail k (FEnable # es) (fd_start (setReceiveCallback n s)) = Inr x"
    and "\<forall>m \<in> set ns. 0 < m" and "length (buf_content (send_buff (fd x))) < length ns"
  shows "\<exists>x'. fd_steps avail k (map (\<lambda>m. FWritable (Wrote m)) ns) x = Inr x' \<and>
     wr_out (fd x') = map Some (sent x) \<and> buf_content (send_buff (fd x')) = [] \<and>
     completes (fd x') = completes (fd x) + of_bool (bf_wev (fd x) = Some True) \<and> bf_wev (fd x') = Some False"
proof -
  let ?x0 = "fd_start (setReceiveCallback n s)"
  obtain x1 where x1: "fd_step avail k FEnable ?x0 = Inr x1" "fd_steps avail k es x1 = Inr x"
    using assms(5) by (auto split: sum.splits)
  have a1: "awake (fd x1)"
    using assms(1) x1(1) by (auto simp: bfd_initialize_def bfd_new_def setReceiveCallback_def fd_start_def bfd_enable_def awake_def
        buf_readableSize_def buf_init_def split: if_splits)
  have aw: "awake (fd x)" by (rule steps_awake [OF a1 x1(2)]) (use assms(3) in auto)
  have "length (sent ?x0) + length (arrived ?x0) + sum_list (map op_bytes (FEnable # es)) < 9223372036854775808"
    "\<forall>e \<in> set (FEnable # es). no_failure e" using assms(3,4) by (auto simp: fd_start_def)
  with fd_steps_inv [OF start_inv [OF assms(1)] assms(2), of "FEnable # es" n avail] assms(5) have inv: "fd_inv x" by auto
  show ?thesis
  proof (cases "bf_wev (fd x) = Some True")
    case True
    then show ?thesis using drain [OF inv True assms(6,7), of avail k] by simp
  next
    case False
    then have f: "bf_wev (fd x) = Some False" "buf_content (send_buff (fd x)) = []"
      using aw readable_zero [OF fd_invD(1) [OF inv]] by (auto simp: awake_def word_greater_zero_iff)
    then show ?thesis using idle_writes [OF f(1), of avail k ns] fd_invD(3) [OF inv] by simp
  qed
qed

lemma sends_complete_witness:
  "\<exists>x x'. fd_steps (\<lambda>_. True) Bound [FEnable, FSend [1, 2, 3] WAgain] (fd_start (setReceiveCallback 0 (snd (bfd_initialize False True True bfd_new)))) = Inr x \<and>
     fd_steps (\<lambda>_. True) Bound (map (\<lambda>m. FWritable (Wrote m)) [1, 1, 1, 1]) x = Inr x' \<and> wr_out (fd x') = [Some 1, Some 2, Some 3]"
proof -
  let ?s = "snd (bfd_initialize False True True bfd_new)"
  have i: "bfd_initialize False True True bfd_new = (True, ?s)" by (simp add: bfd_initialize_def bfd_new_def)
  let ?b = "\<lparr>buffer_ptr = Some [Some 1, Some 2, Some 3, None, None, None], buffer_size = 6, read_index = 0, write_index = 3\<rparr>"
  have "buf_append (\<lambda>_. True) [1, 2, 3] buf_init = Inr (3, ?b)" by code_simp
  then have r: "fd_steps (\<lambda>_. True) Bound [FEnable, FSend [1, 2, 3] WAgain] (fd_start (setReceiveCallback 0 ?s)) =
     Inr \<lparr>fd = (fd (fd_start ?s))\<lparr>bf_rev := Some True, bf_state := fdRunning, bf_wev := Some True, send_buff := ?b\<rparr>, sent = [1, 2, 3], arrived = []\<rparr>"
    by (simp add: fd_start_def setReceiveCallback_def bfd_initialize_def bfd_new_def bfd_enable_def bfd_send_def to_buffer_def wait_writable_def
        buf_readableSize_def) (simp add: buf_init_def)
  have "buf_content ?b = [Some 1, Some 2, Some 3]" by (simp add: buf_content_def mem_slice_def)
  with sends_complete [OF i, of Bound "[FSend [1, 2, 3] WAgain]" "\<lambda>_. True" 0 _ "[1, 1, 1, 1]"] r
  show ?thesis by fastforce
qed

section \<open>A send before enable\<close>

text \<open>\<open>enable\<close> switches only the read event on, and \<open>send\<close> with bytes in the buffer only appends. So bytes
  that were sent before \<open>enable\<close>, or left when the descriptor was disabled, stay in the buffer, and everything sent later behind
  them, whatever happens.\<close>

definition stuck :: "block \<Rightarrow> bfd \<Rightarrow> bool" where
  "stuck out s \<longleftrightarrow> bf_wev s = Some False \<and> buf_readableSize (send_buff s) > 0 \<and> wr_out s = out"

lemma send_before_enable_stuck:
  assumes "bfd_initialize False rd True bfd_new = (True, s)" and "d \<noteq> []" and "length d < 9223372036854775808"
    and "fd_steps avail k [FSend d r, FEnable] (fd_start s) = Inr x"
  shows "stuck [] (fd x) \<and> bf_state (fd x) = fdRunning"
proof -
  have s: "bf_state s = fdInited" "bf_wev s = Some False" "wr_out s = []" "send_buff s = buf_init"
    using assms(1) by (auto simp: bfd_initialize_def bfd_new_def split: if_splits)
  have sm: "unat (write_index (send_buff s)) + length d < 9223372036854775808" using assms(3) by (simp add: s buf_init_def)
  have b: "buf_inv (send_buff s)" by (simp add: s)
  from to_buffer_cases [OF b sm, of avail] obtain c where c: "to_buffer avail d s = Inr (s\<lparr>send_buff := c\<rparr>)" "buf_inv c" "buf_content c = map Some d"
    using assms(4) by (auto simp: s fd_start_def bfd_send_def)
  then have "buf_readableSize c > 0" using readable_zero [OF c(2)] assms(2) by (simp add: word_greater_zero_iff)
  then show ?thesis using assms(4) c(1) s by (auto simp: fd_start_def bfd_send_def bfd_enable_def stuck_def)
qed

lemma stuck_step:
  assumes st: "stuck out (fd x)" and step: "fd_step avail k e x = Inr x'" and inv: "fd_inv x"
    and small: "length (sent x) + op_bytes e < 9223372036854775808"
  shows "stuck out (fd x')"
proof (cases e)
  case (FSend d r)
  have s: "unat (write_index (send_buff (fd x))) + length d < 9223372036854775808" using small fd_invD(5) [OF inv] FSend by simp
  have "bfd_send avail r d (fd x) = map_sum id (Pair True) (to_buffer avail d (fd x))" using st by (simp add: bfd_send_def stuck_def)
  with step to_buffer_cases [OF fd_invD(1) [OF inv] s, of avail]
  obtain b where b: "x' = x\<lparr>fd := (fd x)\<lparr>send_buff := b\<rparr>, sent := sent x @ d\<rparr>" "buf_inv b" "buf_content b = buf_content (send_buff (fd x)) @ map Some d"
    by (auto simp: FSend)
  then have "buf_readableSize b > 0"
    using st readable_zero [OF b(2)] readable_zero [OF fd_invD(1) [OF inv]] by (auto simp: stuck_def word_greater_zero_iff)
  then show ?thesis using b(1) st by (simp add: stuck_def)
next
  case (FReadable rs)
  show ?thesis
  proof (cases "onReadCallback avail k rs (fd x)")
    case (Inr s)
    then show ?thesis using st step read_send_side [OF Inr] by (auto simp: FReadable stuck_def split: if_splits)
  qed (use st step in \<open>auto simp: FReadable split: if_splits\<close>)
qed (use st step in \<open>auto simp: stuck_def bfd_enable_def bfd_disable_def\<close>)

end
