(* ===== verification/Thread_Pool.thy ===== *)
theory Thread_Pool
  imports Cabinet
begin

text \<open>
  The thread pool of \<open>modules/eventx/thread_pool.cpp\<close>. The main thread and the workers interleave: a step is
  what one thread does without another being able to see a state in between. Everything under the mutex is one step, except the
  wait of a worker: evaluating the predicate, blocking on it and reading the stop flag again are steps that hold the mutex,
  because \<open>cleanup\<close> and \<open>initialize\<close> write the stop flag, and \<open>cleanup\<close> notifies, without it. Tasks live in a store at addresses \<open>malloc\<close> chooses; a
  worker is named by the number of its creation.
\<close>

type_synonym addr = nat

record tp_task =
  tk_token :: token
  tk_main_cb :: bool
  tk_no :: nat              \<comment> \<open>ghost: the number of the call of \<open>execute\<close>\<close>

text \<open>Where a worker is in \<open>threadProc\<close>.\<close>

datatype wpc =
    AtTop                    \<comment> \<open>about to lock and decide whether to stay\<close>
  | Checking                 \<comment> \<open>holds the mutex, about to evaluate the predicate of \<open>wait\<close>\<close>
  | Deciding                 \<comment> \<open>holds the mutex, the predicate was true\<close>
  | Blocking                 \<comment> \<open>holds the mutex, the predicate was false\<close>
  | Waiting                  \<comment> \<open>blocked on the condition variable\<close>
  | Woken                    \<comment> \<open>notified, about to lock again\<close>
  | Picked "addr ptr"        \<comment> \<open>has taken a task and released the mutex\<close>
  | Running addr             \<comment> \<open>the token is in \<open>doing_tasks_token\<close>\<close>
  | Ran addr                 \<comment> \<open>the task returned and its callback is posted\<close>
  | Leaving                  \<comment> \<open>has decided to leave, about to take itself out\<close>
  | Gone

text \<open>Where the main thread is: in \<open>execute\<close> before \<open>notify_one\<close>, and the stages of \<open>cleanup\<close>.\<close>

datatype mpc = MIdle | MNotify | MStop "nat list" | MNotifyAll "nat list" | MJoin "nat list" | MInitFlag

datatype posted = PostJoin nat | PostCb nat

record tpool =
  is_ready :: bool
  min_thread :: usize
  max_thread :: usize
  lock_by :: "nat option"
  undo_cab :: "addr cabinet"
  undo_toks :: "token list list"
  doing :: "token set"
  idle_num :: usize
  thr_cab :: "nat cabinet"
  stop_flag :: bool
  undo_peak :: usize
  tasks :: "addr \<Rightarrow> tp_task option"
  wk :: "nat \<Rightarrow> (wpc \<times> token) option"
  wk_count :: nat
  main_at :: mpc
  loop_posts :: "posted list"
  created :: nat            \<comment> \<open>ghost: calls of \<open>execute\<close>\<close>
  ran_log :: "nat list"     \<comment> \<open>ghost: the tasks run, in order\<close>
  dropped :: "nat list"     \<comment> \<open>ghost: the tasks cancelled or cleaned up\<close>

definition tp_new :: tpool where
  "tp_new = \<lparr>is_ready = False, min_thread = 0, max_thread = 0, lock_by = None, undo_cab = cab_empty, undo_toks = replicate 5 [],
     doing = {}, idle_num = 0, thr_cab = cab_empty, stop_flag = False, undo_peak = 0, tasks = Map.empty, wk = Map.empty,
     wk_count = 0, main_at = MIdle, loop_posts = [], created = 0, ran_log = [], dropped = []\<rparr>"

section \<open>The main thread\<close>

definition createWorker :: "tpool \<Rightarrow> cxx_error + tpool" where
  "createWorker s = (case cab_alloc None (thr_cab s) of
       Inl e \<Rightarrow> Inl e
     | Inr (t, c) \<Rightarrow> Inr (s\<lparr>thr_cab := snd (cab_update t (Some (wk_count s)) c),
                          wk := (wk s)(wk_count s \<mapsto> (AtTop, t)), wk_count := wk_count s + 1\<rparr>))"

fun createWorkers :: "nat \<Rightarrow> tpool \<Rightarrow> cxx_error + tpool" where
  "createWorkers 0 s = Inr s"
| "createWorkers (Suc n) s = (case createWorker s of Inl e \<Rightarrow> Inl e | Inr s' \<Rightarrow> createWorkers n s')"

text \<open>\<open>initialize\<close> up to the end of the locked part; the stop flag and \<open>is_ready\<close> are set after it, in a
  step of their own.\<close>

definition tp_initialize :: "int \<Rightarrow> int \<Rightarrow> tpool \<Rightarrow> cxx_error + bool \<times> tpool" where
  "tp_initialize mn mx s =
     (if is_ready s then Inr (False, s)
      else if mx < 0 \<or> mn < 0 \<or> mn > mx \<or> mx = 0 then Inr (False, s)
      else map_sum id (\<lambda>s'. (True, s'\<lparr>main_at := MInitFlag\<rparr>))
        (createWorkers (nat mn) (s\<lparr>min_thread := word_of_int mn, max_thread := word_of_int mx\<rparr>)))"

definition initialize_end :: "tpool \<Rightarrow> tpool" where
  "initialize_end s = s\<lparr>stop_flag := False, is_ready := True, main_at := MIdle\<rparr>"

definition level_of :: "int \<Rightarrow> nat" where
  "level_of prio = nat ((if prio < - 2 then - 2 else if prio > 2 then 2 else prio) + 2)"

definition push_level :: "nat \<Rightarrow> token \<Rightarrow> token list list \<Rightarrow> token list list" where
  "push_level l t qs = qs[l := (qs ! l) @ [t]]"

text \<open>\<open>execute\<close> with the block \<open>a\<close> that the task pool gives, up to the end of the locked part.\<close>

definition tp_execute :: "addr \<Rightarrow> bool \<Rightarrow> int \<Rightarrow> tpool \<Rightarrow> cxx_error + token \<times> tpool" where
  "tp_execute a cb prio s =
     (if \<not> is_ready s then Inr (null_token, s)
      else case cab_alloc (Some a) (undo_cab s) of
        Inl e \<Rightarrow> Inl e
      | Inr (t, c) \<Rightarrow>
          (let s1 = s\<lparr>tasks := (tasks s)(a \<mapsto> \<lparr>tk_token = t, tk_main_cb = cb, tk_no = created s\<rparr>), created := created s + 1,
                      undo_cab := c, undo_toks := push_level (level_of prio) t (undo_toks s), main_at := MNotify\<rparr>
           in if cab_size (undo_cab s1) > idle_num s1 then
                (if cab_size (thr_cab s1) < max_thread s1 then map_sum id (Pair t) (createWorker s1)
                 else Inr (t, if undo_peak s1 < cab_size (undo_cab s1) then s1\<lparr>undo_peak := cab_size (undo_cab s1)\<rparr> else s1))
              else Inr (t, s1)))"

text \<open>\<open>notify_one\<close> wakes one of the blocked workers, if there is one.\<close>

definition cv_waiting :: "tpool \<Rightarrow> nat \<Rightarrow> bool" where
  "cv_waiting s w \<longleftrightarrow> map_option fst (wk s w) = Some Waiting"

definition set_pc :: "nat \<Rightarrow> wpc \<Rightarrow> tpool \<Rightarrow> tpool" where
  "set_pc w p s = s\<lparr>wk := (wk s)(w := map_option (\<lambda>(_, t). (p, t)) (wk s w))\<rparr>"

definition wake_all :: "tpool \<Rightarrow> tpool" where
  "wake_all s = s\<lparr>wk := (\<lambda>w. map_option (\<lambda>(p, t). (if p = Waiting then Woken else p, t)) (wk s w))\<rparr>"

datatype task_status = kWaiting | kExecuting | kNotFound

definition getTaskStatus :: "token \<Rightarrow> tpool \<Rightarrow> cxx_error + task_status" where
  "getTaskStatus t s = (case cab_at t (undo_cab s) of
       Inl e \<Rightarrow> Inl e
     | Inr p \<Rightarrow> Inr (if p \<noteq> None then kWaiting else if t \<in> doing s then kExecuting else kNotFound))"

text \<open>The level whose queue holds the token.\<close>

fun find_level :: "token \<Rightarrow> token list list \<Rightarrow> nat option" where
  "find_level t [] = None"
| "find_level t (q # qs) = (if t \<in> set q then Some 0 else map_option Suc (find_level t qs))"

text \<open>The end of a task that will not run: its token is freed and its block returned.\<close>

definition drop_task :: "token \<Rightarrow> tpool \<Rightarrow> cxx_error + tpool" where
  "drop_task t s = (case cab_free t (undo_cab s) of
       Inl e \<Rightarrow> Inl e
     | Inr (None, c) \<Rightarrow> Inl AssertFail
     | Inr (Some a, c) \<Rightarrow> (case tasks s a of
           None \<Rightarrow> Inl UseAfterFree
         | Some tk \<Rightarrow> Inr (s\<lparr>undo_cab := c, tasks := (tasks s)(a := None), dropped := dropped s @ [tk_no tk]\<rparr>)))"

definition tp_cancel :: "token \<Rightarrow> tpool \<Rightarrow> cxx_error + nat \<times> tpool" where
  "tp_cancel t s =
     (if t \<in> doing s then Inr (2, s)
      else case find_level t (undo_toks s) of
        None \<Rightarrow> Inr (1, s)
      | Some l \<Rightarrow> map_sum id (Pair 0) (drop_task t (s\<lparr>undo_toks := (undo_toks s)[l := remove1 t (undo_toks s ! l)]\<rparr>)))"

fun drop_all :: "token list \<Rightarrow> tpool \<Rightarrow> cxx_error + tpool" where
  "drop_all [] s = Inr s"
| "drop_all (t # ts) s = (case drop_task t s of Inl e \<Rightarrow> Inl e | Inr s' \<Rightarrow> drop_all ts s')"

text \<open>\<open>cleanup\<close>: the locked part gives the threads to join; then the flag, the notification and the joins.\<close>

definition tp_cleanup :: "tpool \<Rightarrow> cxx_error + tpool" where
  "tp_cleanup s =
     (if \<not> is_ready s then Inr s
      else case drop_all (concat (undo_toks s)) s of
        Inl e \<Rightarrow> Inl e
      | Inr s1 \<Rightarrow> (case cab_foreach (thr_cab s1) of
          Inl e \<Rightarrow> Inl e
        | Inr ps \<Rightarrow> (if None \<in> set ps then Inl NullDeref
                    else Inr (s1\<lparr>undo_toks := replicate 5 [], thr_cab := cab_clear (thr_cab s1), main_at := MStop (map the ps)\<rparr>))))"

definition cleanup_step :: "tpool \<Rightarrow> tpool option" where
  "cleanup_step s = (case main_at s of
       MStop ws \<Rightarrow> Some (s\<lparr>stop_flag := True, main_at := MNotifyAll ws\<rparr>)
     | MNotifyAll ws \<Rightarrow> Some ((wake_all s)\<lparr>main_at := MJoin ws\<rparr>)
     | MJoin [] \<Rightarrow> Some (s\<lparr>is_ready := False, main_at := MIdle\<rparr>)
     | MJoin (w # ws) \<Rightarrow> (case wk s w of Some (Gone, t) \<Rightarrow> Some (s\<lparr>main_at := MJoin ws\<rparr>) | _ \<Rightarrow> None)
     | _ \<Rightarrow> None)"

section \<open>The workers\<close>

definition shouldThreadExitWaiting :: "tpool \<Rightarrow> bool" where
  "shouldThreadExitWaiting s \<longleftrightarrow> stop_flag s \<or> (\<exists>q \<in> set (undo_toks s). q \<noteq> [])"

text \<open>The front of the first queue that is not empty.\<close>

fun pop_front :: "token list list \<Rightarrow> (token \<times> token list list) option" where
  "pop_front [] = None"
| "pop_front ([] # qs) = map_option (\<lambda>(t, qs'). (t, [] # qs')) (pop_front qs)"
| "pop_front ((t # ts) # qs) = Some (t, ts # qs)"

definition popOneTask :: "tpool \<Rightarrow> cxx_error + addr ptr \<times> tpool" where
  "popOneTask s = (case pop_front (undo_toks s) of
       None \<Rightarrow> Inr (None, s)
     | Some (t, qs) \<Rightarrow> (case cab_free t (undo_cab s) of
         Inl e \<Rightarrow> Inl e
       | Inr (p, c) \<Rightarrow> Inr (p, s\<lparr>undo_toks := qs, undo_cab := c\<rparr>)))"

text \<open>One step of worker \<open>w\<close>; \<open>None\<close> when it cannot go on.\<close>

definition worker_step :: "nat \<Rightarrow> tpool \<Rightarrow> (cxx_error + tpool) option" where
  "worker_step w s = (case wk s w of
       None \<Rightarrow> None
     | Some (pc, tt) \<Rightarrow> (case pc of
         AtTop \<Rightarrow>
           (if lock_by s \<noteq> None then None
            else if idle_num s \<ge> cab_size (undo_cab s) \<and> cab_size (thr_cab s) > min_thread s
            then Some (Inr (set_pc w Leaving s))
            else Some (Inr (set_pc w Checking (s\<lparr>idle_num := idle_num s + 1, lock_by := Some w\<rparr>))))
       | Checking \<Rightarrow>
           Some (Inr (set_pc w (if shouldThreadExitWaiting s then Deciding else Blocking) s))
       | Deciding \<Rightarrow>
           (let s1 = s\<lparr>idle_num := idle_num s - 1, lock_by := None\<rparr>
                 in if stop_flag s then Some (Inr (set_pc w Gone s1))
                    else Some (case popOneTask s1 of Inl e \<Rightarrow> Inl e | Inr (p, s2) \<Rightarrow> Inr (set_pc w (Picked p) s2)))
       | Blocking \<Rightarrow> Some (Inr (set_pc w Waiting (s\<lparr>lock_by := None\<rparr>)))
       | Waiting \<Rightarrow> None
       | Woken \<Rightarrow> (if lock_by s \<noteq> None then None else Some (Inr (set_pc w Checking (s\<lparr>lock_by := Some w\<rparr>))))
       | Picked None \<Rightarrow> Some (Inr (set_pc w AtTop s))
       | Picked (Some a) \<Rightarrow>
           (if lock_by s \<noteq> None then None
            else case tasks s a of
              None \<Rightarrow> Some (Inl UseAfterFree)
            | Some tk \<Rightarrow> Some (Inr (set_pc w (Running a) (s\<lparr>doing := insert (tk_token tk) (doing s)\<rparr>))))
       | Running a \<Rightarrow> (case tasks s a of
              None \<Rightarrow> Some (Inl UseAfterFree)
            | Some tk \<Rightarrow> Some (Inr (set_pc w (Ran a) (s\<lparr>ran_log := ran_log s @ [tk_no tk],
                  loop_posts := (if tk_main_cb tk then loop_posts s @ [PostCb (tk_no tk)] else loop_posts s)\<rparr>))))
       | Ran a \<Rightarrow>
           (if lock_by s \<noteq> None then None
            else case tasks s a of
              None \<Rightarrow> Some (Inl UseAfterFree)
            | Some tk \<Rightarrow> Some (Inr (set_pc w AtTop (s\<lparr>doing := doing s - {tk_token tk}, tasks := (tasks s)(a := None)\<rparr>))))
       | Leaving \<Rightarrow>
           (if lock_by s \<noteq> None then None
            else Some (case cab_free tt (thr_cab s) of
              Inl e \<Rightarrow> Inl e
            | Inr (None, c) \<Rightarrow> Inl AssertFail
            | Inr (Some x, c) \<Rightarrow> Inr (set_pc w Gone (s\<lparr>thr_cab := c, loop_posts := loop_posts s @ [PostJoin x]\<rparr>))))
       | Gone \<Rightarrow> None))"

record snapshot =
  ss_thread_num :: usize
  ss_idle_thread_num :: usize
  ss_undo_task_num :: "nat list"
  ss_doing_task_num :: nat
  ss_undo_task_peak_num :: usize

definition tp_snapshot :: "tpool \<Rightarrow> snapshot" where
  "tp_snapshot s = \<lparr>ss_thread_num = cab_size (thr_cab s), ss_idle_thread_num = idle_num s, ss_undo_task_num = map length (undo_toks s),
     ss_doing_task_num = card (doing s), ss_undo_task_peak_num = undo_peak s\<rparr>"

section \<open>Runs\<close>

datatype tp_event =
    Init int int | InitEnd | Execute addr bool int | NotifyOne nat | NotifyNone | Cancel token | Cleanup | CleanupStep
  | Worker nat | Spurious nat

text \<open>The main thread enters the mutex only when no worker holds it, and calls the next operation only when
  the last one has returned. \<open>None\<close> is a step that cannot happen.\<close>

definition main_free :: "tpool \<Rightarrow> bool" where
  "main_free s \<longleftrightarrow> main_at s = MIdle \<and> lock_by s = None"

fun tp_step :: "tp_event \<Rightarrow> tpool \<Rightarrow> (cxx_error + tpool) option" where
  "tp_step (Init mn mx) s = (if main_free s then Some (map_sum id snd (tp_initialize mn mx s)) else None)"
| "tp_step InitEnd s = (if main_at s = MInitFlag then Some (Inr (initialize_end s)) else None)"
| "tp_step (Execute a cb prio) s =
     (if main_free s \<and> tasks s a = None then Some (map_sum id snd (tp_execute a cb prio s)) else None)"
| "tp_step (NotifyOne w) s =
     (if main_at s = MNotify \<and> cv_waiting s w then Some (Inr (set_pc w Woken (s\<lparr>main_at := MIdle\<rparr>))) else None)"
| "tp_step NotifyNone s =
     (if main_at s = MNotify \<and> (\<forall>w < wk_count s. \<not> cv_waiting s w) then Some (Inr (s\<lparr>main_at := MIdle\<rparr>)) else None)"
| "tp_step (Cancel t) s = (if main_free s then Some (map_sum id snd (tp_cancel t s)) else None)"
| "tp_step Cleanup s = (if main_free s then Some (tp_cleanup s) else None)"
| "tp_step CleanupStep s = map_option Inr (cleanup_step s)"
| "tp_step (Worker w) s = worker_step w s"
| "tp_step (Spurious w) s = (if cv_waiting s w then Some (Inr (set_pc w Woken s)) else None)"

fun tp_run :: "tp_event list \<Rightarrow> tpool \<Rightarrow> (cxx_error + tpool) option" where
  "tp_run [] s = Some (Inr s)"
| "tp_run (e # es) s = (case tp_step e s of
       None \<Rightarrow> None
     | Some (Inl x) \<Rightarrow> Some (Inl x)
     | Some (Inr s') \<Rightarrow> tp_run es s')"

end
