(* ===== verification/Thread_Pool_Safe.thy ===== *)
theory Thread_Pool_Safe
  imports Thread_Pool
begin

text \<open>
  What holds of the thread pool whatever the interleaving: every task is in one place at a time, so it is run at
  most once and never after it was cancelled, and no task is used after its block was returned.
\<close>

section \<open>Places of tasks\<close>

text \<open>\<open>L\<close> looks up the tokens of waiting tasks, \<open>q\<close> are the queues one after the other, \<open>T\<close> is the
  store, \<open>H\<close> tells which task a worker has in hand and \<open>U\<close> whether it still has to run it; \<open>log\<close> are the tasks
  run or dropped, \<open>n\<close> the number of tasks handed in.\<close>

definition pending :: "(token \<Rightarrow> addr ptr option) \<Rightarrow> (nat \<Rightarrow> addr option) \<Rightarrow> (nat \<Rightarrow> bool) \<Rightarrow> addr \<Rightarrow> bool" where
  "pending L H U a \<longleftrightarrow> (\<exists>t. L t = Some (Some a)) \<or> (\<exists>w. H w = Some a \<and> U w)"

definition places :: "(token \<Rightarrow> addr ptr option) \<Rightarrow> token list \<Rightarrow> (addr \<Rightarrow> tp_task option) \<Rightarrow> (nat \<Rightarrow> addr option) \<Rightarrow> bool" where
  "places L q T H \<longleftrightarrow> distinct q \<and> (\<forall>t. t \<in> set q \<longleftrightarrow> L t \<noteq> None) \<and>
     (\<forall>t p. L t = Some p \<longrightarrow> (\<exists>a tk. p = Some a \<and> T a = Some tk \<and> tk_token tk = t)) \<and>
     (\<forall>w a. H w = Some a \<longrightarrow> T a \<noteq> None \<and> (\<forall>t. L t \<noteq> Some (Some a))) \<and>
     (\<forall>v w a. H v = Some a \<and> H w = Some a \<longrightarrow> v = w)"

definition numbered :: "(addr \<Rightarrow> bool) \<Rightarrow> (addr \<Rightarrow> tp_task option) \<Rightarrow> nat \<Rightarrow> nat list \<Rightarrow> bool" where
  "numbered P T n log \<longleftrightarrow> distinct log \<and>
     (\<forall>k. k < n \<longleftrightarrow> k \<in> set log \<or> (\<exists>a tk. P a \<and> T a = Some tk \<and> tk_no tk = k)) \<and>
     (\<forall>a tk. P a \<and> T a = Some tk \<longrightarrow> tk_no tk \<notin> set log) \<and>
     (\<forall>a b ta tb. P a \<and> P b \<and> T a = Some ta \<and> T b = Some tb \<and> tk_no ta = tk_no tb \<longrightarrow> a = b)"

lemma placesD:
  assumes "places L q T H"
  shows "distinct q" "t \<in> set q \<longleftrightarrow> L t \<noteq> None"
    "L t = Some p \<Longrightarrow> \<exists>a tk. p = Some a \<and> T a = Some tk \<and> tk_token tk = t"
    "H w = Some a \<Longrightarrow> T a \<noteq> None" "H w = Some a \<Longrightarrow> L t \<noteq> Some (Some a)" "H v = Some a \<Longrightarrow> H w = Some a \<Longrightarrow> v = w"
  using assms unfolding places_def by blast+

lemma token_unique: "places L q T H \<Longrightarrow> L t = Some (Some a) \<Longrightarrow> L u = Some (Some a) \<Longrightarrow> t = u"
  using placesD(3) [of L q T H t "Some a"] placesD(3) [of L q T H u "Some a"] by auto

lemma places_submit:
  assumes p: "places L q T H" and new: "L t = None" "T a = None" and q': "distinct q'" "set q' = insert t (set q)" and tk: "tk_token tk = t"
  shows "places (L(t \<mapsto> Some a)) q' (T(a \<mapsto> tk)) H"
  unfolding places_def
proof (intro conjI allI impI)
  fix u r assume *: "(L(t \<mapsto> Some a)) u = Some r"
  show "\<exists>b k. r = Some b \<and> (T(a \<mapsto> tk)) b = Some k \<and> tk_token k = u"
  proof (cases "u = t")
    case False
    then obtain b k where b: "r = Some b" "T b = Some k" "tk_token k = u" using placesD(3) [OF p, of u r] * by auto
    then have "b \<noteq> a" using new(2) by auto
    then show ?thesis using b by auto
  qed (use * tk in auto)
next
  fix w b assume h: "H w = Some b"
  then show "(T(a \<mapsto> tk)) b \<noteq> None" using placesD(4) [OF p] by simp
  fix u show "(L(t \<mapsto> Some a)) u \<noteq> Some (Some b)"
    using h placesD(4,5) [OF p h] new(2) by auto
qed (use placesD(1,2) [OF p] q' placesD(6) [OF p] in auto)

lemma places_remove:
  assumes p: "places L q T H" and t: "L t = Some (Some a)" and q': "distinct q'" "set q' = set q - {t}"
  shows "places (L(t := None)) q' (T(a := None)) H"
  unfolding places_def
proof (intro conjI allI impI)
  fix u r assume u: "(L(t := None)) u = Some r"
  then obtain b k where b: "r = Some b" "T b = Some k" "tk_token k = u" "u \<noteq> t" using placesD(3) [OF p, of u r] by (auto split: if_splits)
  then have "b \<noteq> a" using token_unique [OF p t, of u] u by auto
  then show "\<exists>b k. r = Some b \<and> (T(a := None)) b = Some k \<and> tk_token k = u" using b by auto
next
  fix w b assume h: "H w = Some b"
  then have "b \<noteq> a" using placesD(5) [OF p h, of t] t by auto
  then show "(T(a := None)) b \<noteq> None" using placesD(4) [OF p h] by simp
  fix u show "(L(t := None)) u \<noteq> Some (Some b)" using placesD(5) [OF p h] by simp
qed (use placesD(1,2) [OF p] q' placesD(6) [OF p] in auto)

lemma places_pick:
  assumes p: "places L q T H" and t: "L t = Some (Some a)" and q': "distinct q'" "set q' = set q - {t}" and w: "H w = None"
  shows "places (L(t := None)) q' T (H(w \<mapsto> a))"
  unfolding places_def
proof (intro conjI allI impI)
  fix u r assume "(L(t := None)) u = Some r"
  then show "\<exists>b k. r = Some b \<and> T b = Some k \<and> tk_token k = u" using placesD(3) [OF p, of u r] by (auto split: if_splits)
next
  fix v b assume h: "(H(w \<mapsto> a)) v = Some b"
  then show "T b \<noteq> None" using placesD(4) [OF p, of v b] placesD(3) [OF p t] by (auto split: if_splits)
  fix u show "(L(t := None)) u \<noteq> Some (Some b)"
    using h placesD(5) [OF p, of v b u] token_unique [OF p t, of u] by (auto split: if_splits)
next
  fix v v' b assume h: "(H(w \<mapsto> a)) v = Some b \<and> (H(w \<mapsto> a)) v' = Some b"
  have "H x \<noteq> Some a" for x using placesD(5) [OF p, of x a t] t by blast
  then show "v = v'" using h placesD(6) [OF p, of v b v'] by (auto split: if_splits)
qed (use placesD(1,2) [OF p] q' in auto)

lemma places_finish:
  assumes p: "places L q T H" and w: "H w = Some a"
  shows "places L q (T(a := None)) (H(w := None))"
  unfolding places_def
proof (intro conjI allI impI)
  fix u r assume u: "L u = Some r"
  then obtain b k where b: "r = Some b" "T b = Some k" "tk_token k = u" using placesD(3) [OF p, of u r] by blast
  then have "b \<noteq> a" using placesD(5) [OF p w, of u] u by auto
  then show "\<exists>b k. r = Some b \<and> (T(a := None)) b = Some k \<and> tk_token k = u" using b by auto
next
  fix v b assume h: "(H(w := None)) v = Some b"
  then have v: "v \<noteq> w" "H v = Some b" by (auto split: if_splits)
  then have "b \<noteq> a" using placesD(6) [OF p w, of v] by auto
  then show "(T(a := None)) b \<noteq> None" using placesD(4) [OF p v(2)] by simp
  fix u show "L u \<noteq> Some (Some b)" using placesD(5) [OF p v(2)] .
qed (use placesD(1,2,6) [OF p] in \<open>auto split: if_splits\<close>)

section \<open>Numbers of tasks\<close>

lemma numberedD:
  assumes "numbered P T n log"
  shows "distinct log" "k < n \<longleftrightarrow> k \<in> set log \<or> (\<exists>a tk. P a \<and> T a = Some tk \<and> tk_no tk = k)"
    "P a \<Longrightarrow> T a = Some tk \<Longrightarrow> tk_no tk \<notin> set log"
    "P a \<Longrightarrow> P b \<Longrightarrow> T a = Some ta \<Longrightarrow> T b = Some tb \<Longrightarrow> tk_no ta = tk_no tb \<Longrightarrow> a = b"
  using assms unfolding numbered_def by blast+

lemma numbered_submit:
  assumes n: "numbered P T n log" and a: "T a = None" "tk_no tk = n" and P': "\<And>b. P' b \<longleftrightarrow> b = a \<or> P b"
  shows "numbered P' (T(a \<mapsto> tk)) (Suc n) log"
proof -
  have old: "tk_no tb \<noteq> n" if "P b" "T b = Some tb" for b tb using numberedD(2) [OF n, of n] that by blast
  show ?thesis
    unfolding numbered_def
  proof (intro conjI allI impI)
    show "distinct log" by (rule numberedD(1) [OF n])
    fix k
    have "(\<exists>b t. P' b \<and> (T(a \<mapsto> tk)) b = Some t \<and> tk_no t = k) \<longleftrightarrow> k = n \<or> (\<exists>b t. P b \<and> T b = Some t \<and> tk_no t = k)"
    proof
      assume "\<exists>b t. P' b \<and> (T(a \<mapsto> tk)) b = Some t \<and> tk_no t = k"
      then show "k = n \<or> (\<exists>b t. P b \<and> T b = Some t \<and> tk_no t = k)" using a P' by (auto split: if_splits)
    next
      assume "k = n \<or> (\<exists>b t. P b \<and> T b = Some t \<and> tk_no t = k)"
      then show "\<exists>b t. P' b \<and> (T(a \<mapsto> tk)) b = Some t \<and> tk_no t = k"
      proof
        assume "k = n"
        then show ?thesis using a P' by (intro exI [of _ a] exI [of _ tk]) simp
      next
        assume "\<exists>b t. P b \<and> T b = Some t \<and> tk_no t = k"
        then obtain b t where b: "P b" "T b = Some t" "tk_no t = k" by blast
        then have "b \<noteq> a" using a(1) by auto
        then show ?thesis using b P' by (intro exI [of _ b] exI [of _ t]) simp
      qed
    qed
    then show "k < Suc n \<longleftrightarrow> k \<in> set log \<or> (\<exists>b t. P' b \<and> (T(a \<mapsto> tk)) b = Some t \<and> tk_no t = k)"
      using numberedD(2) [OF n, of k] by auto
  next
    fix b t assume b: "P' b \<and> (T(a \<mapsto> tk)) b = Some t"
    have "n \<notin> set log" using numberedD(2) [OF n, of n] by blast
    then show "tk_no t \<notin> set log" using b a P' numberedD(3) [OF n] by (auto split: if_splits)
  next
    fix b c tb tc assume h: "P' b \<and> P' c \<and> (T(a \<mapsto> tk)) b = Some tb \<and> (T(a \<mapsto> tk)) c = Some tc \<and> tk_no tb = tk_no tc"
    have b: "if b = a then tk_no tb = n else P b \<and> T b = Some tb" using h P' a(2) by auto
    have c: "if c = a then tk_no tc = n else P c \<and> T c = Some tc" using h P' a(2) by auto
    show "b = c"
    proof (cases "b = a \<or> c = a")
      case True
      then show ?thesis using b c old [of b tb] old [of c tc] h by (metis (full_types))
    next
      case False
      then show ?thesis using b c h numberedD(4) [OF n, of b c tb tc] by simp
    qed
  qed
qed

text \<open>A task leaves the pending ones and enters the log.\<close>

lemma numbered_log:
  assumes n: "numbered P T n log" and a: "P a" "T a = Some tk" and log': "distinct log'" "set log' = insert (tk_no tk) (set log)"
    and P': "\<And>b. P' b \<longleftrightarrow> P b \<and> b \<noteq> a" and T': "\<And>b. b \<noteq> a \<Longrightarrow> T' b = T b"
  shows "numbered P' T' n log'"
  unfolding numbered_def
proof (intro conjI allI impI)
  show "distinct log'" by (rule log'(1))
  fix k
  have "(\<exists>b t. P' b \<and> T' b = Some t \<and> tk_no t = k) \<longleftrightarrow> (\<exists>b t. P b \<and> b \<noteq> a \<and> T b = Some t \<and> tk_no t = k)"
    using P' T' by metis
  then show "k < n \<longleftrightarrow> k \<in> set log' \<or> (\<exists>b t. P' b \<and> T' b = Some t \<and> tk_no t = k)"
    using numberedD(2) [OF n, of k] log'(2) a by (metis insert_iff option.inject)
next
  fix b t assume b: "P' b \<and> T' b = Some t"
  then have c: "P b" "b \<noteq> a" "T b = Some t" using P' T' by auto
  then have "tk_no t \<noteq> tk_no tk" using numberedD(4) [OF n c(1) a(1) c(3) a(2)] by blast
  then show "tk_no t \<notin> set log'" using numberedD(3) [OF n c(1,3)] log'(2) by simp
next
  fix b c tb tc assume "P' b \<and> P' c \<and> T' b = Some tb \<and> T' c = Some tc \<and> tk_no tb = tk_no tc"
  then show "b = c" using P' T' numberedD(4) [OF n, of b c tb tc] by auto
qed

lemma numbered_same:
  "numbered P T n log \<Longrightarrow> (\<And>b. P' b \<longleftrightarrow> P b) \<Longrightarrow> (\<And>b. P b \<Longrightarrow> T' b = T b) \<Longrightarrow> numbered P' T' n log"
proof -
  assume n: "numbered P T n log" and P': "\<And>b. P' b \<longleftrightarrow> P b" and T': "\<And>b. P b \<Longrightarrow> T' b = T b"
  have e: "P' a \<and> T' a = Some k \<longleftrightarrow> P a \<and> T a = Some k" for a k using P' T' by auto
  show "numbered P' T' n log"
    unfolding numbered_def
  proof (intro conjI allI impI)
    show "distinct log" by (rule numberedD(1) [OF n])
    fix k
    have "(\<exists>b t. P' b \<and> T' b = Some t \<and> tk_no t = k) \<longleftrightarrow> (\<exists>b t. P b \<and> T b = Some t \<and> tk_no t = k)" using e by blast
    then show "k < n \<longleftrightarrow> k \<in> set log \<or> (\<exists>b t. P' b \<and> T' b = Some t \<and> tk_no t = k)" using numberedD(2) [OF n, of k] by simp
  next
    fix b t assume "P' b \<and> T' b = Some t"
    then show "tk_no t \<notin> set log" using e numberedD(3) [OF n, of b t] by blast
  next
    fix b c tb tc assume "P' b \<and> P' c \<and> T' b = Some tb \<and> T' c = Some tc \<and> tk_no tb = tk_no tc"
    then show "b = c" using e numberedD(4) [OF n, of b c tb tc] by blast
  qed
qed


section \<open>The invariant of the pool\<close>

fun in_hand :: "wpc \<Rightarrow> addr option" where
  "in_hand (Picked p) = p"
| "in_hand (Running a) = Some a"
| "in_hand (Ran a) = Some a"
| "in_hand _ = None"

fun unrun :: "wpc \<Rightarrow> bool" where
  "unrun (Ran a) = False"
| "unrun _ = True"

definition hand_of :: "tpool \<Rightarrow> nat \<Rightarrow> addr option" where
  "hand_of s w = (case wk s w of None \<Rightarrow> None | Some (pc, t) \<Rightarrow> in_hand pc)"

definition unrun_of :: "tpool \<Rightarrow> nat \<Rightarrow> bool" where
  "unrun_of s w = (case wk s w of None \<Rightarrow> True | Some (pc, t) \<Rightarrow> unrun pc)"

definition queued :: "tpool \<Rightarrow> token list" where
  "queued s = concat (undo_toks s)"

definition tp_inv :: "tpool \<Rightarrow> bool" where
  "tp_inv s \<longleftrightarrow> cab_inv (undo_cab s) \<and> cab_inv (thr_cab s) \<and> length (undo_toks s) = 5 \<and>
     (\<forall>w. wk s w \<noteq> None \<longrightarrow> w < wk_count s) \<and>
     places (cab_lookup (undo_cab s)) (queued s) (tasks s) (hand_of s) \<and>
     numbered (pending (cab_lookup (undo_cab s)) (hand_of s) (unrun_of s)) (tasks s) (created s) (ran_log s @ dropped s)"

lemma tp_invD:
  assumes "tp_inv s"
  shows "cab_inv (undo_cab s)" "cab_inv (thr_cab s)" "length (undo_toks s) = 5" "wk s w \<noteq> None \<Longrightarrow> w < wk_count s"
    "places (cab_lookup (undo_cab s)) (queued s) (tasks s) (hand_of s)"
    "numbered (pending (cab_lookup (undo_cab s)) (hand_of s) (unrun_of s)) (tasks s) (created s) (ran_log s @ dropped s)"
  using assms unfolding tp_inv_def by blast+

lemma set_pc_fields [simp]:
  "undo_cab (set_pc w p s) = undo_cab s" "thr_cab (set_pc w p s) = thr_cab s" "undo_toks (set_pc w p s) = undo_toks s"
  "tasks (set_pc w p s) = tasks s" "created (set_pc w p s) = created s" "ran_log (set_pc w p s) = ran_log s"
  "dropped (set_pc w p s) = dropped s" "wk_count (set_pc w p s) = wk_count s" "queued (set_pc w p s) = queued s"
  "lock_by (set_pc w p s) = lock_by s" "main_at (set_pc w p s) = main_at s" "stop_flag (set_pc w p s) = stop_flag s"
  "min_thread (set_pc w p s) = min_thread s" "max_thread (set_pc w p s) = max_thread s" "is_ready (set_pc w p s) = is_ready s"
  by (simp_all add: set_pc_def queued_def)

lemma hand_set_pc:
  assumes "wk s w \<noteq> None"
  shows "hand_of (set_pc w p s) = (hand_of s)(w := in_hand p)" "unrun_of (set_pc w p s) = (unrun_of s)(w := unrun p)"
  using assms by (auto simp: hand_of_def unrun_of_def set_pc_def fun_eq_iff split: option.splits)

text \<open>Steps that move no task.\<close>

lemma inv_same:
  assumes "tp_inv s" and "undo_cab s' = undo_cab s" "thr_cab s' = thr_cab s \<or> cab_inv (thr_cab s')" "undo_toks s' = undo_toks s"
    "tasks s' = tasks s" "created s' = created s" "ran_log s' = ran_log s" "dropped s' = dropped s"
    "hand_of s' = hand_of s" "\<And>w. hand_of s w \<noteq> None \<Longrightarrow> unrun_of s' w = unrun_of s w" "\<And>w. wk s' w \<noteq> None \<Longrightarrow> w < wk_count s'"
  shows "tp_inv s'"
proof -
  have "pending (cab_lookup (undo_cab s)) (hand_of s) (unrun_of s') b \<longleftrightarrow> pending (cab_lookup (undo_cab s)) (hand_of s) (unrun_of s) b" for b
    using assms(10) unfolding pending_def by (metis option.distinct(1))
  then show ?thesis
    using assms numbered_same [OF tp_invD(6) [OF assms(1)]] unfolding tp_inv_def queued_def by auto
qed

lemma inv_set_pc:
  assumes "tp_inv s" and "wk s w = Some (pc, t)" and "in_hand p = in_hand pc" and "in_hand pc = None \<or> unrun p = unrun pc"
  shows "tp_inv (set_pc w p s)"
proof (rule inv_same [OF assms(1)])
  have h: "hand_of s w = in_hand pc" "unrun_of s w = unrun pc" "wk s w \<noteq> None" using assms(2) by (simp_all add: hand_of_def unrun_of_def)
  show "hand_of (set_pc w p s) = hand_of s" using h assms(3) by (simp add: hand_set_pc fun_upd_idem)
  show "hand_of s v \<noteq> None \<Longrightarrow> unrun_of (set_pc w p s) v = unrun_of s v" for v using h assms(4) by (auto simp: hand_set_pc)
  show "wk (set_pc w p s) v \<noteq> None \<Longrightarrow> v < wk_count (set_pc w p s)" for v
    using tp_invD(4) [OF assms(1)] by (auto simp: set_pc_def split: if_splits)
qed simp_all

section \<open>The queues\<close>

lemma find_level_Some: "find_level t qs = Some l \<Longrightarrow> l < length qs \<and> t \<in> set (qs ! l)"
  by (induction qs arbitrary: l) (auto split: if_splits)

lemma find_level_None: "find_level t qs = None \<longleftrightarrow> t \<notin> set (concat qs)"
  by (induction qs) (auto split: if_splits)

lemma concat_update:
  assumes "l < length qs"
  shows "mset (concat (qs[l := q])) + mset (qs ! l) = mset (concat qs) + mset q"
  using assms by (induction qs arbitrary: l) (auto split: nat.splits)

lemma pop_front_concat: "pop_front qs = Some (t, qs') \<Longrightarrow> concat qs = t # concat qs' \<and> length qs' = length qs"
  by (induction qs arbitrary: qs' rule: pop_front.induct) auto

lemma pop_front_None: "pop_front qs = None \<longleftrightarrow> concat qs = []"
  by (induction qs rule: pop_front.induct) auto

lemma level_less: "level_of prio < 5"
  by (auto simp: level_of_def)


section \<open>Steps of the main thread\<close>

lemma places_queue: "places L q T H \<Longrightarrow> distinct q' \<Longrightarrow> set q' = set q \<Longrightarrow> places L q' T H"
  unfolding places_def by metis

text \<open>The invariant with the queues given apart, for the operations that change cabinet and queues one after the other.\<close>

definition tp_inv_q :: "token list \<Rightarrow> tpool \<Rightarrow> bool" where
  "tp_inv_q q s \<longleftrightarrow> cab_inv (undo_cab s) \<and> cab_inv (thr_cab s) \<and> (\<forall>w. wk s w \<noteq> None \<longrightarrow> w < wk_count s) \<and>
     places (cab_lookup (undo_cab s)) q (tasks s) (hand_of s) \<and>
     numbered (pending (cab_lookup (undo_cab s)) (hand_of s) (unrun_of s)) (tasks s) (created s) (ran_log s @ dropped s)"

lemma tp_inv_q: "tp_inv s \<longleftrightarrow> length (undo_toks s) = 5 \<and> tp_inv_q (queued s) s"
  by (auto simp: tp_inv_def tp_inv_q_def)

lemma tp_inv_q_frame:
  "tp_inv_q q s \<Longrightarrow> tp_inv_q q (s\<lparr>undo_toks := qs\<rparr>)" "tp_inv_q q s \<Longrightarrow> tp_inv_q q (s\<lparr>main_at := m\<rparr>)"
  by (simp_all add: tp_inv_q_def hand_of_def [abs_def] unrun_of_def [abs_def])

lemma tp_inv_q_set: "tp_inv_q q s \<Longrightarrow> distinct q' \<Longrightarrow> set q' = set q \<Longrightarrow> tp_inv_q q' s"
  unfolding tp_inv_q_def using places_queue by blast

lemma createWorker_cases:
  assumes inv: "tp_inv_q q s"
  shows "createWorker s = Inl LengthError \<or> (\<exists>s'. createWorker s = Inr s' \<and> tp_inv_q q s' \<and> undo_toks s' = undo_toks s)"
proof (cases "cab_alloc None (thr_cab s)")
  case (Inl e)
  have ct: "cab_inv (thr_cab s)" using inv by (simp add: tp_inv_q_def)
  show ?thesis using cab_alloc_error [OF ct, of None e] Inl by (simp add: createWorker_def)
next
  case (Inr y)
  obtain t c where y: "y = (t, c)" by (rule prod.exhaust)
  have ct: "cab_inv (thr_cab s)" using inv by (simp add: tp_inv_q_def)
  have c: "cab_inv c" using cab.alloc_law [OF ct Inr [unfolded y]] by blast
  obtain c' where c': "cab_update t (Some (wk_count s)) c = (cab_lookup c t \<noteq> None, c')" "cab_inv c'"
    using cab.upd_law [OF c, of t "Some (wk_count s)"] by blast
  let ?s = "s\<lparr>thr_cab := c', wk := (wk s)(wk_count s \<mapsto> (AtTop, t)), wk_count := wk_count s + 1\<rparr>"
  have n: "wk s (wk_count s) = None" using inv unfolding tp_inv_q_def by (metis less_irrefl)
  have h: "hand_of ?s = hand_of s" "unrun_of ?s = unrun_of s" using n by (auto simp: hand_of_def unrun_of_def fun_eq_iff)
  have "tp_inv_q q ?s"
    using inv c'(2) h unfolding tp_inv_q_def by (auto simp: less_Suc_eq)
  then show ?thesis using Inr y c'(1) by (simp add: createWorker_def)
qed

lemma createWorkers_cases:
  "tp_inv_q q s \<Longrightarrow> createWorkers n s = Inl LengthError \<or> (\<exists>s'. createWorkers n s = Inr s' \<and> tp_inv_q q s' \<and> undo_toks s' = undo_toks s)"
proof (induction n arbitrary: s)
  case (Suc n)
  from createWorker_cases [OF Suc.prems] show ?case using Suc.IH by fastforce
qed simp

lemma pending_remove:
  assumes p: "places L q T H" and a: "L t = Some (Some a)"
  shows "pending (L(t := None)) H U b \<longleftrightarrow> pending L H U b \<and> b \<noteq> a"
proof
  assume "pending (L(t := None)) H U b"
  then consider u where "u \<noteq> t" "L u = Some (Some b)" | w where "H w = Some b" "U w" unfolding pending_def by (auto split: if_splits)
  then show "pending L H U b \<and> b \<noteq> a"
  proof cases
    case 1
    then show ?thesis using token_unique [OF p a, of u] unfolding pending_def by blast
  next
    case 2
    then show ?thesis using placesD(5) [OF p, of w b t] a unfolding pending_def by blast
  qed
next
  assume "pending L H U b \<and> b \<noteq> a"
  then have ba: "b \<noteq> a" and "(\<exists>u. L u = Some (Some b)) \<or> (\<exists>w. H w = Some b \<and> U w)" by (simp_all add: pending_def)
  then consider u where "L u = Some (Some b)" | w where "H w = Some b" "U w" by blast
  then show "pending (L(t := None)) H U b"
  proof cases
    case 1
    then have "(L(t := None)) u = Some (Some b)" using a ba by auto
    then show ?thesis unfolding pending_def by blast
  qed (auto simp: pending_def)
qed

lemma drop_task_ok:
  assumes inv: "tp_inv_q q s" and t: "t \<in> set q"
  shows "\<exists>s' a tk. drop_task t s = Inr s' \<and> tp_inv_q (remove1 t q) s' \<and> undo_toks s' = undo_toks s \<and> main_at s' = main_at s \<and>
     cab_lookup (undo_cab s) t = Some (Some a) \<and> tasks s a = Some tk \<and> dropped s' = dropped s @ [tk_no tk] \<and> ran_log s' = ran_log s"
proof -
  have c: "cab_inv (undo_cab s)" and p: "places (cab_lookup (undo_cab s)) q (tasks s) (hand_of s)"
    and nm: "numbered (pending (cab_lookup (undo_cab s)) (hand_of s) (unrun_of s)) (tasks s) (created s) (ran_log s @ dropped s)"
    using inv by (simp_all add: tp_inv_q_def)
  obtain a tk where a: "cab_lookup (undo_cab s) t = Some (Some a)" "tasks s a = Some tk" "tk_token tk = t"
    using placesD(2) [OF p, of t] placesD(3) [OF p, of t] t by auto
  obtain c' where c': "cab_free t (undo_cab s) = Inr (Some a, c')" "cab_inv c'" "cab_lookup c' = (cab_lookup (undo_cab s))(t := None)"
    using cab.release_law [OF c, of t] a(1) by auto
  let ?s = "s\<lparr>undo_cab := c', tasks := (tasks s)(a := None), dropped := dropped s @ [tk_no tk]\<rparr>"
  have h: "hand_of ?s = hand_of s" "unrun_of ?s = unrun_of s" by (simp_all add: hand_of_def [abs_def] unrun_of_def [abs_def])
  have pl: "places (cab_lookup c') (remove1 t q) ((tasks s)(a := None)) (hand_of s)"
    unfolding c'(3) by (rule places_remove [OF p a(1)]) (use placesD(1) [OF p] in \<open>simp_all add: set_remove1_eq\<close>)
  have pe: "pending (cab_lookup (undo_cab s)) (hand_of s) (unrun_of s) a" using a(1) by (auto simp: pending_def)
  have "pending (cab_lookup c') (hand_of s) (unrun_of s) b \<longleftrightarrow> pending (cab_lookup (undo_cab s)) (hand_of s) (unrun_of s) b \<and> b \<noteq> a" for b
    unfolding c'(3) by (rule pending_remove [OF p a(1)])
  then have "numbered (pending (cab_lookup c') (hand_of s) (unrun_of s)) ((tasks s)(a := None)) (created s) (ran_log s @ dropped s @ [tk_no tk])"
    using numberedD(1,3) [OF nm] pe a(2) by (intro numbered_log [OF nm pe a(2)]) auto
  then have "tp_inv_q (remove1 t q) ?s" using inv pl c'(2) h by (simp add: tp_inv_q_def)
  then show ?thesis using c'(1) a by (auto simp: drop_task_def)
qed

lemma drop_all_ok:
  "tp_inv_q (ts @ q) s \<Longrightarrow> \<exists>s'. drop_all ts s = Inr s' \<and> tp_inv_q q s' \<and> undo_toks s' = undo_toks s"
proof (induction ts arbitrary: s)
  case (Cons t ts)
  from drop_task_ok [OF Cons.prems, of t] obtain s1 where "drop_task t s = Inr s1" "tp_inv_q (ts @ q) s1" "undo_toks s1 = undo_toks s" by auto
  then show ?case using Cons.IH [of s1] by simp
qed simp

lemma pending_submit:
  assumes "L t = None"
  shows "pending (L(t \<mapsto> Some a)) H U b \<longleftrightarrow> b = a \<or> pending L H U b"
proof
  assume "pending (L(t \<mapsto> Some a)) H U b"
  then consider u where "(L(t \<mapsto> Some a)) u = Some (Some b)" | w where "H w = Some b" "U w" unfolding pending_def by blast
  then show "b = a \<or> pending L H U b" unfolding pending_def by cases (auto split: if_splits)
next
  assume "b = a \<or> pending L H U b"
  then consider "b = a" | u where "L u = Some (Some b)" | w where "H w = Some b" "U w" unfolding pending_def by blast
  then show "pending (L(t \<mapsto> Some a)) H U b"
  proof cases
    case 1
    then have "(L(t \<mapsto> Some a)) t = Some (Some b)" by simp
    then show ?thesis unfolding pending_def by blast
  next
    case 2
    then have "(L(t \<mapsto> Some a)) u = Some (Some b)" using assms by auto
    then show ?thesis unfolding pending_def by blast
  qed (auto simp: pending_def)
qed

lemma execute_cases:
  assumes inv: "tp_inv s" and a: "tasks s a = None"
  shows "tp_execute a cb prio s = Inl LengthError \<or> (\<exists>t s'. tp_execute a cb prio s = Inr (t, s') \<and> tp_inv s')"
proof (cases "is_ready s")
  case True
  note i = tp_invD [OF inv]
  show ?thesis
  proof (cases "cab_alloc (Some a) (undo_cab s)")
    case (Inl e)
    then show ?thesis using cab_alloc_error [OF i(1), of "Some a" e] True by (simp add: tp_execute_def)
  next
    case (Inr y)
    obtain t c where y: "y = (t, c)" by (rule prod.exhaust)
    note law = cab.alloc_law [OF i(1) Inr [unfolded y]]
    let ?tk = "\<lparr>tk_token = t, tk_main_cb = cb, tk_no = created s\<rparr>"
    let ?qs = "push_level (level_of prio) t (undo_toks s)"
    let ?s = "s\<lparr>tasks := (tasks s)(a \<mapsto> ?tk), created := created s + 1, undo_cab := c, undo_toks := ?qs, main_at := MNotify\<rparr>"
    have l: "level_of prio < length (undo_toks s)" using level_less i(3) by simp
    have q: "mset (concat ?qs) = add_mset t (mset (queued s))"
      using concat_update [OF l, of "undo_toks s ! level_of prio @ [t]"] by (simp add: push_level_def queued_def)
    then have qs: "set (concat ?qs) = insert t (set (queued s))" by (metis set_mset_add_mset_insert set_mset_mset)
    have tq: "t \<notin> set (queued s)" using law placesD(2) [OF i(5), of t] by simp
    then have "distinct (t # queued s)" using placesD(1) [OF i(5)] by simp
    then have qd: "distinct (concat ?qs)" using q by (metis mset.simps(2) mset_eq_imp_distinct_iff)
    have h: "hand_of ?s = hand_of s" "unrun_of ?s = unrun_of s" by (simp_all add: hand_of_def [abs_def] unrun_of_def [abs_def])
    have pl: "places (cab_lookup c) (concat ?qs) ((tasks s)(a \<mapsto> ?tk)) (hand_of s)"
      using law by (auto intro!: places_submit [OF i(5) _ a qd qs])
    have "pending (cab_lookup c) (hand_of s) (unrun_of s) b \<longleftrightarrow> b = a \<or> pending (cab_lookup (undo_cab s)) (hand_of s) (unrun_of s) b" for b
      using law by (simp add: pending_submit)
    then have "numbered (pending (cab_lookup c) (hand_of s) (unrun_of s)) ((tasks s)(a \<mapsto> ?tk)) (Suc (created s)) (ran_log s @ dropped s)"
      by (intro numbered_submit [OF i(6) a]) simp_all
    then have s: "tp_inv_q (concat ?qs) ?s" using i law pl h by (simp add: tp_inv_q_def)
    have len: "length ?qs = 5" using i(3) by (simp add: push_level_def)
    have done_inv: "tp_inv s2" if "tp_inv_q (concat ?qs) s2" "undo_toks s2 = ?qs" for s2
      using that len by (simp add: tp_inv_q queued_def)
    show ?thesis
    proof (cases "cab_size (undo_cab ?s) > idle_num ?s")
      case False
      then show ?thesis using True Inr y done_inv [OF s] by (simp add: tp_execute_def Let_def)
    next
      case more: True
      show ?thesis
      proof (cases "cab_size (thr_cab ?s) < max_thread ?s")
        case True
        from createWorker_cases [OF s] show ?thesis
        proof
          assume "createWorker ?s = Inl LengthError"
          then show ?thesis using \<open>is_ready s\<close> Inr y more True by (simp add: tp_execute_def Let_def)
        next
          assume "\<exists>s'. createWorker ?s = Inr s' \<and> tp_inv_q (concat ?qs) s' \<and> undo_toks s' = undo_toks ?s"
          then obtain s' where s': "createWorker ?s = Inr s'" "tp_inv_q (concat ?qs) s'" "undo_toks s' = ?qs" by auto
          have "tp_execute a cb prio s = Inr (t, s')"
            using \<open>is_ready s\<close> Inr y more True s'(1) by (simp add: tp_execute_def Let_def)
          then show ?thesis using done_inv [OF s'(2,3)] by blast
        qed
      next
        case False
        let ?s2 = "if undo_peak ?s < cab_size (undo_cab ?s) then ?s\<lparr>undo_peak := cab_size (undo_cab ?s)\<rparr> else ?s"
        have "tp_inv_q (concat ?qs) (?s\<lparr>undo_peak := n\<rparr>)" for n
          using s by (simp add: tp_inv_q_def hand_of_def [abs_def] unrun_of_def [abs_def])
        then have "tp_inv ?s2" using s by (intro done_inv) auto
        moreover have "tp_execute a cb prio s = Inr (t, ?s2)"
          using \<open>is_ready s\<close> Inr y more False by (simp add: tp_execute_def Let_def)
        ultimately show ?thesis by blast
      qed
    qed
  qed
qed (use inv in \<open>simp add: tp_execute_def\<close>)

lemma cancel_inv:
  assumes inv: "tp_inv s"
  shows "\<exists>k s'. tp_cancel t s = Inr (k, s') \<and> tp_inv s'"
proof (cases "t \<in> doing s \<or> find_level t (undo_toks s) = None")
  case True
  then show ?thesis using inv by (auto simp: tp_cancel_def)
next
  case False
  then obtain l where l: "find_level t (undo_toks s) = Some l" by blast
  note i = tp_invD [OF inv] and f = find_level_Some [OF l]
  let ?qs = "(undo_toks s)[l := remove1 t (undo_toks s ! l)]"
  have 1: "mset (concat ?qs) + mset (undo_toks s ! l) = mset (queued s) + mset (remove1 t (undo_toks s ! l))"
    using concat_update [of l "undo_toks s"] f unfolding queued_def by blast
  have 2: "mset (undo_toks s ! l) = add_mset t (mset (remove1 t (undo_toks s ! l)))" using f by simp
  have "add_mset t (mset (concat ?qs)) + mset (remove1 t (undo_toks s ! l)) = mset (queued s) + mset (remove1 t (undo_toks s ! l))"
    using 1 unfolding 2 by (simp only: union_mset_add_mset_left union_mset_add_mset_right)
  then have "mset (queued s) = add_mset t (mset (concat ?qs))" by (simp only: add_right_cancel)
  then have "mset (concat ?qs) = mset (remove1 t (queued s))" by simp
  then have q: "distinct (concat ?qs)" "set (concat ?qs) = set (remove1 t (queued s))"
    using placesD(1) [OF i(5)] by (metis distinct_remove1 mset_eq_imp_distinct_iff, metis set_mset_mset)
  have "tp_inv_q (queued s) (s\<lparr>undo_toks := ?qs\<rparr>)" using inv tp_inv_q tp_inv_q_frame(1) by blast
  moreover have "t \<in> set (queued s)" using f by (auto simp: queued_def)
  ultimately obtain s' where s': "drop_task t (s\<lparr>undo_toks := ?qs\<rparr>) = Inr s'" "tp_inv_q (remove1 t (queued s)) s'" "undo_toks s' = ?qs"
    using drop_task_ok [of "queued s" "s\<lparr>undo_toks := ?qs\<rparr>" t] by auto
  have "tp_inv s'" using tp_inv_q_set [OF s'(2) q] s'(3) i(3) by (simp add: tp_inv_q queued_def)
  then show ?thesis using False l s'(1) by (simp add: tp_cancel_def)
qed

end
