(* ===== verification/Thread_Pool_Run.thy ===== *)
theory Thread_Pool_Run
  imports Thread_Pool_Safe
begin

text \<open>
  The invariant of the thread pool through the steps of the workers and of \<open>cleanup\<close>, and what follows for whole
  runs: where every task is, and which errors a run can end in.
\<close>

section \<open>Steps of a worker\<close>

lemma inv_frame:
  "tp_inv s \<Longrightarrow> tp_inv (s\<lparr>lock_by := l\<rparr>)" "tp_inv s \<Longrightarrow> tp_inv (s\<lparr>idle_num := i\<rparr>)" "tp_inv s \<Longrightarrow> tp_inv (s\<lparr>main_at := m\<rparr>)"
  "tp_inv s \<Longrightarrow> tp_inv (s\<lparr>doing := D\<rparr>)" "tp_inv s \<Longrightarrow> tp_inv (s\<lparr>loop_posts := ps\<rparr>)" "tp_inv s \<Longrightarrow> tp_inv (s\<lparr>stop_flag := b\<rparr>)"
  "tp_inv s \<Longrightarrow> tp_inv (s\<lparr>is_ready := b\<rparr>)" "tp_inv s \<Longrightarrow> tp_inv (s\<lparr>min_thread := n\<rparr>)" "tp_inv s \<Longrightarrow> tp_inv (s\<lparr>max_thread := n\<rparr>)"
  "tp_inv s \<Longrightarrow> cab_inv c \<Longrightarrow> tp_inv (s\<lparr>thr_cab := c\<rparr>)"
  by (simp_all add: tp_inv_def queued_def hand_of_def [abs_def] unrun_of_def [abs_def])

lemma inv_move:
  assumes "tp_inv s" and "wk s w = Some (pc, t)" and "in_hand p = None" and "in_hand pc = None"
  shows "tp_inv (set_pc w p s)"
proof (rule inv_same [OF assms(1)])
  have h: "hand_of s w = None" "wk s w \<noteq> None" using assms(2,4) by (simp_all add: hand_of_def)
  show "hand_of (set_pc w p s) = hand_of s" using h assms(3) by (simp add: hand_set_pc fun_upd_idem)
  show "hand_of s v \<noteq> None \<Longrightarrow> unrun_of (set_pc w p s) v = unrun_of s v" for v using h by (auto simp: hand_set_pc)
  show "wk (set_pc w p s) v \<noteq> None \<Longrightarrow> v < wk_count (set_pc w p s)" for v
    using tp_invD(4) [OF assms(1)] by (auto simp: set_pc_def split: if_splits)
qed simp_all

lemma inv_wake_all: "tp_inv s \<Longrightarrow> tp_inv (wake_all s)"
proof (rule inv_same)
  assume inv: "tp_inv s"
  show "hand_of (wake_all s) = hand_of s" by (auto simp: fun_eq_iff hand_of_def wake_all_def split: option.splits)
  show "hand_of s w \<noteq> None \<Longrightarrow> unrun_of (wake_all s) w = unrun_of s w" for w
    by (auto simp: hand_of_def unrun_of_def wake_all_def split: option.splits)
  show "wk (wake_all s) w \<noteq> None \<Longrightarrow> w < wk_count (wake_all s)" for w
    using tp_invD(4) [OF inv, of w] by (auto simp: wake_all_def)
qed (simp_all add: wake_all_def)

lemma wk_set_pc: "wk (set_pc w p s) v = (if v = w then map_option (\<lambda>(_, t). (p, t)) (wk s w) else wk s v)"
  by (simp add: set_pc_def)

lemma pending_same: "(\<And>w. H w \<noteq> None \<Longrightarrow> U' w = U w) \<Longrightarrow> pending L H U' b \<longleftrightarrow> pending L H U b"
  unfolding pending_def by (metis option.distinct(1))

lemma pending_pick:
  assumes p: "places L q T H" and t: "L t = Some (Some a)" and w: "H w = None" and u: "u"
  shows "pending (L(t := None)) (H(w \<mapsto> a)) (U(w := u)) b \<longleftrightarrow> pending L H U b"
proof
  assume "pending (L(t := None)) (H(w \<mapsto> a)) (U(w := u)) b"
  then consider v where "v \<noteq> t" "L v = Some (Some b)" | "b = a" | v where "H v = Some b" "U v"
    unfolding pending_def using u by (auto split: if_splits)
  then show "pending L H U b" unfolding pending_def using t by cases blast+
next
  assume "pending L H U b"
  then consider "b = a" | v where "b \<noteq> a" "L v = Some (Some b)" | v where "H v = Some b" "U v" unfolding pending_def by blast
  then show "pending (L(t := None)) (H(w \<mapsto> a)) (U(w := u)) b"
  proof cases
    case 1
    then have "(H(w \<mapsto> a)) w = Some b \<and> (U(w := u)) w" using u by simp
    then show ?thesis unfolding pending_def by blast
  next
    case 2
    then have "(L(t := None)) v = Some (Some b)" using t by auto
    then show ?thesis unfolding pending_def by blast
  next
    case 3
    then have "(H(w \<mapsto> a)) v = Some b \<and> (U(w := u)) v" using w by auto
    then show ?thesis unfolding pending_def by blast
  qed
qed

lemma pop_ok:
  assumes inv: "tp_inv s" and w: "hand_of s w = None" "wk s w \<noteq> None"
  shows "\<exists>p s'. popOneTask s = Inr (p, s') \<and> tp_inv (set_pc w (Picked p) s') \<and> thr_cab s' = thr_cab s \<and> wk s' = wk s \<and> wk_count s' = wk_count s \<and> (p = None \<longleftrightarrow> queued s = [])"
proof (cases "pop_front (undo_toks s)")
  case None
  obtain pc t where pc: "wk s w = Some (pc, t)" using w(2) by auto
  then have "in_hand pc = None" using w(1) by (simp add: hand_of_def)
  then have "tp_inv (set_pc w (Picked None) s)" by (intro inv_move [OF inv pc]) simp_all
  then show ?thesis using None pop_front_None [of "undo_toks s"] by (simp add: popOneTask_def queued_def)
next
  case (Some y)
  obtain t qs where y: "y = (t, qs)" by (rule prod.exhaust)
  note i = tp_invD [OF inv]
  have q: "queued s = t # concat qs" "length qs = 5" using pop_front_concat [OF Some [unfolded y]] i(3) by (simp_all add: queued_def)
  obtain a where a: "cab_lookup (undo_cab s) t = Some (Some a)"
    using placesD(2) [OF i(5), of t] placesD(3) [OF i(5), of t] q(1) by auto
  obtain c where c: "cab_free t (undo_cab s) = Inr (Some a, c)" "cab_inv c" "cab_lookup c = (cab_lookup (undo_cab s))(t := None)"
    using cab.release_law [OF i(1), of t] a by auto
  let ?s = "s\<lparr>undo_toks := qs, undo_cab := c\<rparr>"
  have hs: "hand_of ?s = hand_of s" "unrun_of ?s = unrun_of s" by (simp_all add: hand_of_def [abs_def] unrun_of_def [abs_def])
  have h: "hand_of (set_pc w (Picked (Some a)) ?s) = (hand_of s)(w \<mapsto> a)" "unrun_of (set_pc w (Picked (Some a)) ?s) = (unrun_of s)(w := True)"
    using w(2) hand_set_pc [of ?s w "Picked (Some a)"] hs by simp_all
  have d: "distinct (concat qs)" "set (concat qs) = set (queued s) - {t}" using placesD(1) [OF i(5)] q(1) by auto
  have "places (cab_lookup c) (concat qs) (tasks s) ((hand_of s)(w \<mapsto> a))"
    unfolding c(3) by (rule places_pick [OF i(5) a d w(1)])
  moreover have "numbered (pending (cab_lookup c) ((hand_of s)(w \<mapsto> a)) ((unrun_of s)(w := True))) (tasks s) (created s) (ran_log s @ dropped s)"
    unfolding c(3) by (rule numbered_same [OF i(6)]) (simp_all only: pending_pick [OF i(5) a w(1)])
  moreover have "wk (set_pc w (Picked (Some a)) ?s) v \<noteq> None \<Longrightarrow> v < wk_count s" for v
    using i(4) [of v] by (auto simp: wk_set_pc split: if_splits)
  moreover have "queued (set_pc w (Picked (Some a)) ?s) = concat qs" by (simp add: queued_def)
  ultimately have "tp_inv (set_pc w (Picked (Some a)) ?s)"
    using h i(2) c(2) q(2) unfolding tp_inv_def by simp
  then show ?thesis using Some y c(1) q(1) by (simp add: popOneTask_def)
qed

lemma pending_ran:
  assumes p: "places L q T H" and w: "H w = Some a"
  shows "pending L H (U(w := False)) b \<longleftrightarrow> pending L H U b \<and> b \<noteq> a"
proof
  assume "pending L H (U(w := False)) b"
  then consider t where "L t = Some (Some b)" | v where "v \<noteq> w" "H v = Some b" "U v" unfolding pending_def by (auto split: if_splits)
  then show "pending L H U b \<and> b \<noteq> a"
  proof cases
    case 1
    then show ?thesis using placesD(5) [OF p w] unfolding pending_def by blast
  next
    case 2
    then show ?thesis using placesD(6) [OF p w, of v] unfolding pending_def by blast
  qed
next
  assume "pending L H U b \<and> b \<noteq> a"
  then have b: "b \<noteq> a" and "(\<exists>u. L u = Some (Some b)) \<or> (\<exists>v. H v = Some b \<and> U v)" by (simp_all add: pending_def)
  then consider u where "L u = Some (Some b)" | v where "H v = Some b" "U v" by blast
  then show "pending L H (U(w := False)) b"
  proof cases
    case 2
    then have "H v = Some b \<and> (U(w := False)) v" using w b by auto
    then show ?thesis unfolding pending_def by blast
  qed (auto simp: pending_def)
qed

lemma pending_done:
  assumes w: "\<not> U w"
  shows "pending L (H(w := None)) (U(w := u)) b \<longleftrightarrow> pending L H U b"
proof -
  have "(H(w := None)) v = Some b \<and> (U(w := u)) v \<longleftrightarrow> H v = Some b \<and> U v" for v using w by auto
  then show ?thesis unfolding pending_def by blast
qed

lemma task_run_ok:
  assumes inv: "tp_inv s" and w: "wk s w = Some (Running a, t)"
  shows "\<exists>tk. tasks s a = Some tk \<and> tp_inv (set_pc w (Ran a) (s\<lparr>ran_log := ran_log s @ [tk_no tk], loop_posts := ps\<rparr>))"
proof -
  note i = tp_invD [OF inv]
  have h: "hand_of s w = Some a" "unrun_of s w" using w by (simp_all add: hand_of_def unrun_of_def)
  obtain tk where tk: "tasks s a = Some tk" using placesD(4) [OF i(5) h(1)] by blast
  let ?s = "s\<lparr>ran_log := ran_log s @ [tk_no tk], loop_posts := ps\<rparr>"
  have hs: "hand_of ?s = hand_of s" "unrun_of ?s = unrun_of s" by (simp_all add: hand_of_def [abs_def] unrun_of_def [abs_def])
  have h': "hand_of (set_pc w (Ran a) ?s) = hand_of s" "unrun_of (set_pc w (Ran a) ?s) = (unrun_of s)(w := False)"
    using w hand_set_pc [of ?s w "Ran a"] hs h(1) by (simp_all add: fun_upd_idem)
  have pe: "pending (cab_lookup (undo_cab s)) (hand_of s) (unrun_of s) a" using h by (auto simp: pending_def)
  have "numbered (pending (cab_lookup (undo_cab s)) (hand_of s) ((unrun_of s)(w := False))) (tasks s) (created s)
      ((ran_log s @ [tk_no tk]) @ dropped s)"
    using numberedD(1,3) [OF i(6)] pe tk
    by (intro numbered_log [OF i(6) pe tk] pending_ran [OF i(5) h(1)]) auto
  moreover have "wk (set_pc w (Ran a) ?s) v \<noteq> None \<Longrightarrow> v < wk_count s" for v
    using i(4) [of v] by (auto simp: wk_set_pc split: if_splits)
  ultimately have "tp_inv (set_pc w (Ran a) ?s)" using i h' unfolding tp_inv_def by (simp add: queued_def)
  then show ?thesis using tk by blast
qed

lemma give_back_ok:
  assumes inv: "tp_inv s" and w: "wk s w = Some (Ran a, t)"
  shows "\<exists>tk. tasks s a = Some tk \<and> tp_inv (set_pc w AtTop (s\<lparr>doing := D, tasks := (tasks s)(a := None)\<rparr>))"
proof -
  note i = tp_invD [OF inv]
  have h: "hand_of s w = Some a" "\<not> unrun_of s w" using w by (simp_all add: hand_of_def unrun_of_def)
  obtain tk where tk: "tasks s a = Some tk" using placesD(4) [OF i(5) h(1)] by blast
  let ?s = "s\<lparr>doing := D, tasks := (tasks s)(a := None)\<rparr>"
  have hs: "hand_of ?s = hand_of s" "unrun_of ?s = unrun_of s" by (simp_all add: hand_of_def [abs_def] unrun_of_def [abs_def])
  have h': "hand_of (set_pc w AtTop ?s) = (hand_of s)(w := None)" "unrun_of (set_pc w AtTop ?s) = (unrun_of s)(w := True)"
    using w hand_set_pc [of ?s w AtTop] hs by simp_all
  have "\<not> pending (cab_lookup (undo_cab s)) (hand_of s) (unrun_of s) a"
    using placesD(5,6) [OF i(5) h(1)] h(2) unfolding pending_def by blast
  then have "numbered (pending (cab_lookup (undo_cab s)) ((hand_of s)(w := None)) ((unrun_of s)(w := True)))
      ((tasks s)(a := None)) (created s) (ran_log s @ dropped s)"
    by (intro numbered_same [OF i(6)]) (auto simp: pending_done [where U = "unrun_of s" and w = w, OF h(2)])
  moreover have "places (cab_lookup (undo_cab s)) (queued s) ((tasks s)(a := None)) ((hand_of s)(w := None))"
    by (rule places_finish [OF i(5) h(1)])
  moreover have "wk (set_pc w AtTop ?s) v \<noteq> None \<Longrightarrow> v < wk_count s" for v
    using i(4) [of v] by (auto simp: wk_set_pc split: if_splits)
  ultimately have "tp_inv (set_pc w AtTop ?s)" using i h' unfolding tp_inv_def by (simp add: queued_def)
  then show ?thesis using tk by blast
qed

section \<open>The threads in the cabinet\<close>

text \<open>The cabinet of threads holds no null pointer; until \<open>cleanup\<close> empties it, the token of every worker that has
  not left finds its own thread.\<close>

definition no_null :: "tpool \<Rightarrow> bool" where
  "no_null s \<longleftrightarrow> (\<forall>t. cab_lookup (thr_cab s) t \<noteq> Some None)"

definition roster :: "tpool \<Rightarrow> bool" where
  "roster s \<longleftrightarrow> (\<forall>w pc t. wk s w = Some (pc, t) \<and> pc \<noteq> Gone \<longrightarrow> cab_lookup (thr_cab s) t = Some (Some w))"

lemma worker_ok:
  assumes inv: "tp_inv s" "no_null s" and st: "worker_step w s = Some r"
  shows "(\<exists>s'. r = Inr s' \<and> tp_inv s' \<and> no_null s' \<and> (roster s \<longrightarrow> roster s')) \<or> (r = Inl AssertFail \<and> \<not> roster s)"
proof -
  have keep: "no_null s' \<and> (roster s \<longrightarrow> roster s')"
    if "thr_cab s' = thr_cab s" "wk s' = (wk s)(w := map_option (\<lambda>(_, t). (p, t)) (wk s w))" "\<forall>t. wk s w \<noteq> Some (Gone, t)" for s' p
    using inv(2) that by (fastforce simp: no_null_def roster_def split: if_splits)
  obtain pc t where w: "wk s w = Some (pc, t)" using st by (auto simp: worker_step_def split: option.splits)
  have ng: "pc \<noteq> Gone" using st w by (auto simp: worker_step_def)
  have step: "tp_inv (set_pc w p s') \<Longrightarrow> thr_cab s' = thr_cab s \<Longrightarrow> wk s' = wk s \<Longrightarrow> r = Inr (set_pc w p s') \<Longrightarrow> ?thesis" for p s'
    using keep [of "set_pc w p s'" p] w ng by (auto simp: set_pc_def)
  have mv: "tp_inv s' \<Longrightarrow> wk s' = wk s \<Longrightarrow> in_hand p = None \<Longrightarrow> in_hand pc = None \<Longrightarrow> tp_inv (set_pc w p s')" for s' p
    using inv_move [of s' w pc t p] w by simp
  show ?thesis
  proof (cases pc)
    case AtTop
    show ?thesis
    proof (cases "idle_num s \<ge> cab_size (undo_cab s) \<and> cab_size (thr_cab s) > min_thread s")
      case True
      then have "r = Inr (set_pc w Leaving s)" using st w AtTop by (auto simp: worker_step_def split: if_splits)
      then show ?thesis by (intro step [of Leaving s] mv [OF inv(1)]) (simp_all add: AtTop)
    next
      case False
      then have "r = Inr (set_pc w Checking (s\<lparr>idle_num := idle_num s + 1, lock_by := Some w\<rparr>))"
        using st w AtTop by (auto simp: worker_step_def split: if_splits)
      then show ?thesis using inv(1) by (intro step [of Checking "s\<lparr>idle_num := idle_num s + 1, lock_by := Some w\<rparr>"] mv) (simp_all add: AtTop inv_frame)
    qed
  next
    case Checking
    then have "r = Inr (set_pc w (if shouldThreadExitWaiting s then Deciding else Blocking) s)" using st w by (simp add: worker_step_def)
    then show ?thesis by (intro step [of _ s] mv [OF inv(1)]) (simp_all add: Checking)
  next
    case Deciding
    let ?s = "s\<lparr>idle_num := idle_num s - 1, lock_by := None\<rparr>"
    have i: "tp_inv ?s" using inv(1) by (simp add: inv_frame)
    show ?thesis
    proof (cases "stop_flag s")
      case True
      then have "r = Inr (set_pc w Gone ?s)" using st w Deciding by (simp add: worker_step_def)
      then show ?thesis using i by (intro step [of Gone ?s] mv) (simp_all add: Deciding)
    next
      case False
      have h: "hand_of ?s w = None" "wk ?s w \<noteq> None" using w Deciding by (simp_all add: hand_of_def)
      obtain p s2 where s2: "popOneTask ?s = Inr (p, s2)" "tp_inv (set_pc w (Picked p) s2)" "thr_cab s2 = thr_cab s" "wk s2 = wk s"
        using pop_ok [OF i h] by auto
      then have "r = Inr (set_pc w (Picked p) s2)" using st w Deciding False by (simp add: worker_step_def)
      then show ?thesis using s2 by (intro step [of "Picked p" s2]) simp_all
    qed
  next
    case Blocking
    then have "r = Inr (set_pc w Waiting (s\<lparr>lock_by := None\<rparr>))" using st w by (simp add: worker_step_def)
    then show ?thesis using inv(1) by (intro step [of Waiting "s\<lparr>lock_by := None\<rparr>"] mv) (simp_all add: Blocking inv_frame)
  next
    case Waiting
    then show ?thesis using st w by (simp add: worker_step_def)
  next
    case Woken
    then have "r = Inr (set_pc w Checking (s\<lparr>lock_by := Some w\<rparr>))" using st w by (simp add: worker_step_def split: if_splits)
    then show ?thesis using inv(1) by (intro step [of Checking "s\<lparr>lock_by := Some w\<rparr>"] mv) (simp_all add: Woken inv_frame)
  next
    case (Picked p)
    show ?thesis
    proof (cases p)
      case None
      then have "r = Inr (set_pc w AtTop s)" using st w Picked by (simp add: worker_step_def)
      then show ?thesis by (intro step [of AtTop s] mv [OF inv(1)]) (simp_all add: Picked None)
    next
      case (Some a)
      have h: "hand_of s w = Some a" using w Picked Some by (simp add: hand_of_def)
      obtain tk where tk: "tasks s a = Some tk" using placesD(4) [OF tp_invD(5) [OF inv(1)] h] by blast
      let ?s = "s\<lparr>doing := insert (tk_token tk) (doing s)\<rparr>"
      have "r = Inr (set_pc w (Running a) ?s)" using st w Picked Some tk by (simp add: worker_step_def split: if_splits)
      moreover have "tp_inv (set_pc w (Running a) ?s)"
        by (rule inv_set_pc [of ?s w pc t]) (use inv(1) w Picked Some in \<open>simp_all add: inv_frame\<close>)
      ultimately show ?thesis by (intro step [of "Running a" ?s]) simp_all
    qed
  next
    case (Running a)
    let ?ps = "\<lambda>tk. if tk_main_cb tk then loop_posts s @ [PostCb (tk_no tk)] else loop_posts s"
    obtain tk where tk: "tasks s a = Some tk" using placesD(4) [OF tp_invD(5) [OF inv(1)], of w a] w Running by (auto simp: hand_of_def)
    let ?s = "s\<lparr>ran_log := ran_log s @ [tk_no tk], loop_posts := ?ps tk\<rparr>"
    have "r = Inr (set_pc w (Ran a) ?s)" using st w Running tk by (simp add: worker_step_def)
    moreover have "tp_inv (set_pc w (Ran a) ?s)" using task_run_ok [OF inv(1), of w a t "?ps tk"] w Running tk by auto
    ultimately show ?thesis by (intro step [of "Ran a" ?s]) simp_all
  next
    case (Ran a)
    obtain tk where tk: "tasks s a = Some tk" using give_back_ok [OF inv(1), of w a t] w Ran by blast
    let ?s = "s\<lparr>doing := doing s - {tk_token tk}, tasks := (tasks s)(a := None)\<rparr>"
    have "r = Inr (set_pc w AtTop ?s)" using st w Ran tk by (simp add: worker_step_def split: if_splits)
    moreover have "tp_inv (set_pc w AtTop ?s)" using give_back_ok [OF inv(1), of w a t] w Ran by blast
    ultimately show ?thesis by (intro step [of AtTop ?s]) simp_all
  next
    case Leaving
    note ct = tp_invD(2) [OF inv(1)]
    obtain c where c: "cab_free t (thr_cab s) = Inr (case cab_lookup (thr_cab s) t of Some p \<Rightarrow> p | None \<Rightarrow> None, c)"
        "cab_inv c" "cab_lookup c = (cab_lookup (thr_cab s))(t := None)"
      using cab.release_law [OF ct, of t] by blast
    show ?thesis
    proof (cases "cab_lookup (thr_cab s) t")
      case None
      then have "r = Inl AssertFail" using st w Leaving c(1) by (simp add: worker_step_def split: if_splits)
      moreover have "\<not> roster s" using w Leaving None unfolding roster_def by fastforce
      ultimately show ?thesis by simp
    next
      case (Some p)
      then obtain x where x: "p = Some x" using inv(2) unfolding no_null_def by (cases p) auto
      let ?s = "s\<lparr>thr_cab := c, loop_posts := loop_posts s @ [PostJoin x]\<rparr>"
      have r: "r = Inr (set_pc w Gone ?s)" using st w Leaving c(1) Some x by (simp add: worker_step_def split: if_splits)
      have "tp_inv ?s" using inv(1) c(2) by (simp add: inv_frame)
      then have "tp_inv (set_pc w Gone ?s)" using mv [of ?s Gone] Leaving by simp
      moreover have "no_null (set_pc w Gone ?s)" using inv(2) c(3) by (simp add: no_null_def)
      moreover have "roster (set_pc w Gone ?s)" if ro: "roster s"
        unfolding roster_def
      proof (intro allI impI)
        fix v pv u assume h: "wk (set_pc w Gone ?s) v = Some (pv, u) \<and> pv \<noteq> Gone"
        then have v: "v \<noteq> w" "wk s v = Some (pv, u)" by (auto simp: wk_set_pc w split: if_splits)
        then have u: "cab_lookup (thr_cab s) u = Some (Some v)" using ro h unfolding roster_def by blast
        have "cab_lookup (thr_cab s) t = Some (Some w)" using ro w Leaving unfolding roster_def by fastforce
        then have "u \<noteq> t" using u v(1) by auto
        then show "cab_lookup (thr_cab (set_pc w Gone ?s)) u = Some (Some v)" using u c(3) by simp
      qed
      ultimately show ?thesis using r by blast
    qed
  next
    case Gone
    then show ?thesis using ng by simp
  qed
qed

section \<open>Steps of the main thread\<close>

lemma foreach_cells:
  assumes "list_all cell_ok cs"
  shows "\<exists>ps. cab_foreach_cells cs = Inr ps \<and> (\<forall>p \<in> set ps. \<exists>i < length cs. used (cs ! i) \<and> cell_slot (cs ! i) = ObjPtr p)"
  using assms
proof (induction cs)
  case (Cons x xs)
  then obtain ps where ps: "cab_foreach_cells xs = Inr ps" "\<forall>p \<in> set ps. \<exists>i < length xs. used (xs ! i) \<and> cell_slot (xs ! i) = ObjPtr p"
    by auto
  have tl: "\<forall>p \<in> set ps. \<exists>i < length (x # xs). used ((x # xs) ! i) \<and> cell_slot ((x # xs) ! i) = ObjPtr p"
    using ps(2) by (metis Suc_less_eq length_Cons nth_Cons_Suc)
  show ?case
  proof (cases "used x")
    case True
    then obtain obj where o: "cell_slot x = ObjPtr obj" using Cons.prems by (auto simp: cell_ok_def)
    then have "cab_foreach_cells (x # xs) = Inr (obj # ps)" using ps(1) True by (simp add: used_def)
    moreover have "\<exists>i < length (x # xs). used ((x # xs) ! i) \<and> cell_slot ((x # xs) ! i) = ObjPtr obj"
      using True o by (intro exI [of _ 0]) simp
    ultimately show ?thesis using tl by auto
  next
    case False
    then have "cab_foreach_cells (x # xs) = Inr ps" using ps(1) by (simp add: used_def)
    then show ?thesis using tl by auto
  qed
qed simp

lemma foreach_ok:
  assumes "cab_inv c"
  shows "\<exists>ps. cab_foreach c = Inr ps \<and> (\<forall>p \<in> set ps. \<exists>t. cab_lookup c t = Some p)"
proof -
  obtain fs where inv: "cab_inv_via fs c" using assms by (rule cab_invE)
  then have ok: "list_all cell_ok (cells c)" and len: "length (cells c) \<le> vector_max_size" by (simp_all add: cab_inv_via_def)
  obtain ps where ps: "cab_foreach_cells (cells c) = Inr ps"
    "\<forall>p \<in> set ps. \<exists>i < length (cells c). used (cells c ! i) \<and> cell_slot (cells c ! i) = ObjPtr p" using foreach_cells [OF ok] by blast
  have "\<exists>t. cab_lookup c t = Some p" if p: "p \<in> set ps" for p
  proof -
    obtain i where i: "i < length (cells c)" "used (cells c ! i)" "cell_slot (cells c ! i) = ObjPtr p" using ps(2) p by blast
    have "unat (of_nat i :: usize) = i" using i(1) len by (simp add: vector_max_size_def)
    then have "cab_lookup c \<lparr>tok_id = cell_id (cells c ! i), tok_pos = of_nat i\<rparr> = Some p"
      using i by (simp add: cab_lookup_def used_def)
    then show ?thesis by blast
  qed
  then show ?thesis using ps(1) by (auto simp: cab_foreach_def)
qed

lemma nr_frame: "thr_cab s' = thr_cab s \<Longrightarrow> wk s' = wk s \<Longrightarrow> no_null s' = no_null s \<and> roster s' = roster s"
  by (simp add: no_null_def roster_def)

lemma nr_pc: "thr_cab s' = thr_cab s \<Longrightarrow> (\<And>w p t. wk s' w = Some (p, t) \<Longrightarrow> p \<noteq> Gone \<Longrightarrow> \<exists>p'. p' \<noteq> Gone \<and> wk s w = Some (p', t))
   \<Longrightarrow> (no_null s \<longrightarrow> no_null s') \<and> (roster s \<longrightarrow> roster s')"
  unfolding no_null_def roster_def by metis

lemma createWorker_nr:
  assumes cw: "createWorker s = Inr s'" and inv: "cab_inv (thr_cab s)" and nn: "no_null s"
  shows "no_null s' \<and> (roster s \<longrightarrow> roster s') \<and> cab_inv (thr_cab s')"
proof -
  obtain t c where al: "cab_alloc None (thr_cab s) = Inr (t, c)" using cw by (auto simp: createWorker_def split: sum.splits)
  note law = cab.alloc_law [OF inv al]
  obtain c' where c': "cab_update t (Some (wk_count s)) c = (cab_lookup c t \<noteq> None, c')" "cab_inv c'"
      "cab_lookup c' = (cab_lookup (thr_cab s))(t \<mapsto> Some (wk_count s))"
    using cab.upd_law [of c t "Some (wk_count s)"] law by auto
  have s': "s' = s\<lparr>thr_cab := c', wk := (wk s)(wk_count s \<mapsto> (AtTop, t)), wk_count := wk_count s + 1\<rparr>"
    using cw al c'(1) by (simp add: createWorker_def)
  have "no_null s'" using nn c'(3) by (simp add: s' no_null_def)
  moreover have "roster s'" if ro: "roster s"
    unfolding roster_def
  proof (intro allI impI)
    fix v p u assume h: "wk s' v = Some (p, u) \<and> p \<noteq> Gone"
    show "cab_lookup (thr_cab s') u = Some (Some v)"
    proof (cases "v = wk_count s")
      case True
      then show ?thesis using h c'(3) by (simp add: s')
    next
      case False
      then have "cab_lookup (thr_cab s) u = Some (Some v)" using h ro unfolding roster_def by (auto simp: s')
      then show ?thesis using law c'(3) by (auto simp: s')
    qed
  qed
  ultimately show ?thesis using c'(2) by (simp add: s')
qed

lemma createWorkers_nr:
  "createWorkers n s = Inr s' \<Longrightarrow> cab_inv (thr_cab s) \<Longrightarrow> no_null s \<Longrightarrow> no_null s' \<and> (roster s \<longrightarrow> roster s')"
proof (induction n arbitrary: s)
  case (Suc n)
  then obtain s1 where s1: "createWorker s = Inr s1" "createWorkers n s1 = Inr s'" by (auto split: sum.splits)
  then show ?case using createWorker_nr [OF s1(1) Suc.prems(2,3)] Suc.IH [OF s1(2)] by blast
qed simp

lemma drop_task_frame: "drop_task t s = Inr s' \<Longrightarrow> thr_cab s' = thr_cab s \<and> wk s' = wk s"
  by (auto simp: drop_task_def split: sum.splits option.splits)

lemma drop_all_frame: "drop_all ts s = Inr s' \<Longrightarrow> thr_cab s' = thr_cab s \<and> wk s' = wk s"
  by (induction ts arbitrary: s) (auto dest: drop_task_frame split: sum.splits)

lemma cancel_frame: "tp_cancel t s = Inr (k, s') \<Longrightarrow> thr_cab s' = thr_cab s \<and> wk s' = wk s"
proof -
  assume c: "tp_cancel t s = Inr (k, s')"
  show ?thesis
  proof (cases "t \<in> doing s \<or> find_level t (undo_toks s) = None")
    case False
    then obtain l where l: "find_level t (undo_toks s) = Some l" by blast
    then have "drop_task t (s\<lparr>undo_toks := (undo_toks s)[l := remove1 t (undo_toks s ! l)]\<rparr>) = Inr s'"
      using c False by (auto simp: tp_cancel_def map_sum_def split: sum.splits)
    from drop_task_frame [OF this] show ?thesis by simp
  qed (use c in \<open>auto simp: tp_cancel_def split: if_splits\<close>)
qed

lemma execute_nr:
  assumes ex: "tp_execute a cb prio s = Inr (t, s')" and inv: "tp_inv s" "no_null s"
  shows "no_null s' \<and> (roster s \<longrightarrow> roster s')"
proof (cases "thr_cab s' = thr_cab s \<and> wk s' = wk s")
  case True
  then show ?thesis using nr_frame inv(2) by blast
next
  case False
  obtain c where c: "createWorker (s\<lparr>tasks := (tasks s)(a \<mapsto> \<lparr>tk_token = t, tk_main_cb = cb, tk_no = created s\<rparr>), created := created s + 1,
      undo_cab := c, undo_toks := push_level (level_of prio) t (undo_toks s), main_at := MNotify\<rparr>) = Inr s'"
    using ex False by (auto simp: tp_execute_def Let_def map_sum_def split: if_splits sum.splits)
  have "no_null (s\<lparr>tasks := T, created := n, undo_cab := c, undo_toks := qs, main_at := m\<rparr>)" for T n c qs m
    using inv(2) by (simp add: no_null_def)
  then show ?thesis using createWorker_nr [OF c] tp_invD(2) [OF inv(1)] by (simp add: roster_def)
qed

lemma cleanup_ok:
  assumes inv: "tp_inv s" "no_null s"
  shows "\<exists>s'. tp_cleanup s = Inr s' \<and> tp_inv s' \<and> no_null s'"
proof (cases "is_ready s")
  case True
  have "tp_inv_q (concat (undo_toks s) @ []) s" using inv(1) by (simp add: tp_inv_q queued_def)
  from drop_all_ok [OF this] obtain s1 where s1: "drop_all (concat (undo_toks s)) s = Inr s1" "tp_inv_q [] s1" by blast
  have f: "thr_cab s1 = thr_cab s" using drop_all_frame [OF s1(1)] by blast
  obtain ps where ps: "cab_foreach (thr_cab s1) = Inr ps" "\<forall>p \<in> set ps. \<exists>t. cab_lookup (thr_cab s) t = Some p"
    using foreach_ok [OF tp_invD(2) [OF inv(1)]] f by auto
  then have nn: "None \<notin> set ps" using inv(2) unfolding no_null_def by blast
  let ?s = "s1\<lparr>undo_toks := replicate 5 [], thr_cab := cab_clear (thr_cab s1), main_at := MStop (map the ps)\<rparr>"
  have "tp_cleanup s = Inr ?s" using True s1(1) ps(1) nn by (simp add: tp_cleanup_def)
  moreover have "tp_inv ?s"
    using s1(2) cab_inv_clear by (simp add: tp_inv_q tp_inv_q_def queued_def hand_of_def [abs_def] unrun_of_def [abs_def])
  moreover have "no_null ?s" by (simp add: no_null_def cab_lookup_clear)
  ultimately show ?thesis by blast
qed (use inv in \<open>simp add: tp_cleanup_def\<close>)

lemma initialize_ok:
  assumes inv: "tp_inv s" "no_null s"
  shows "tp_initialize mn mx s = Inl LengthError \<or>
     (\<exists>b s'. tp_initialize mn mx s = Inr (b, s') \<and> tp_inv s' \<and> no_null s' \<and> (roster s \<longrightarrow> roster s'))"
proof (cases "is_ready s \<or> (mx < 0 \<or> mn < 0 \<or> mn > mx \<or> mx = 0)")
  case True
  then show ?thesis using inv by (auto simp: tp_initialize_def)
next
  case False
  let ?s = "s\<lparr>min_thread := word_of_int mn, max_thread := word_of_int mx\<rparr>"
  have i: "tp_inv ?s" "no_null ?s" "roster ?s = roster s" using inv by (simp_all add: inv_frame no_null_def roster_def)
  have "tp_inv_q (queued s) ?s" "length (undo_toks s) = 5" using i(1) by (simp_all add: tp_inv_q queued_def)
  from createWorkers_cases [OF this(1), of "nat mn"] show ?thesis
  proof
    assume "createWorkers (nat mn) ?s = Inl LengthError"
    then show ?thesis using False by (simp add: tp_initialize_def)
  next
    assume "\<exists>s'. createWorkers (nat mn) ?s = Inr s' \<and> tp_inv_q (queued s) s' \<and> undo_toks s' = undo_toks ?s"
    then obtain s' where s': "createWorkers (nat mn) ?s = Inr s'" "tp_inv_q (queued s) s'" "undo_toks s' = undo_toks s" by auto
    have "tp_inv s'" using s' \<open>length (undo_toks s) = 5\<close> by (simp add: tp_inv_q queued_def)
    then have "tp_inv (s'\<lparr>main_at := MInitFlag\<rparr>)" by (rule inv_frame)
    moreover have "no_null (s'\<lparr>main_at := MInitFlag\<rparr>) \<and> (roster s \<longrightarrow> roster (s'\<lparr>main_at := MInitFlag\<rparr>))"
      using createWorkers_nr [OF s'(1)] tp_invD(2) [OF i(1)] i by (simp add: no_null_def roster_def)
    moreover have "tp_initialize mn mx s = Inr (True, s'\<lparr>main_at := MInitFlag\<rparr>)" using False s'(1) by (simp add: tp_initialize_def)
    ultimately show ?thesis by blast
  qed
qed

section \<open>Whole runs\<close>

lemma cv_waiting_iff: "cv_waiting s w \<longleftrightarrow> (\<exists>t. wk s w = Some (Waiting, t))"
  by (auto simp: cv_waiting_def)

lemma step_set_pc_nr:
  assumes "thr_cab s' = thr_cab s" "wk s' = wk s" "cv_waiting s w" "p \<noteq> Gone"
  shows "(no_null s \<longrightarrow> no_null (set_pc w p s')) \<and> (roster s \<longrightarrow> roster (set_pc w p s'))"
  by (rule nr_pc) (use assms in \<open>auto simp: wk_set_pc cv_waiting_iff split: if_splits\<close>)

lemma cleanup_step_ok:
  assumes "cleanup_step s = Some s'" and inv: "tp_inv s" "no_null s"
  shows "tp_inv s' \<and> no_null s' \<and> (roster s \<longrightarrow> roster s')"
proof -
  have wake: "(no_null s \<longrightarrow> no_null (wake_all s)) \<and> (roster s \<longrightarrow> roster (wake_all s))"
    by (rule nr_pc) (auto simp: wake_all_def split: if_splits)
  have f: "no_null (x\<lparr>main_at := m\<rparr>) = no_null x" "roster (x\<lparr>main_at := m\<rparr>) = roster x" for x m
    by (simp_all add: no_null_def roster_def)
  show ?thesis
  proof (cases "main_at s")
    case (MNotifyAll ws)
    then have "s' = (wake_all s)\<lparr>main_at := MJoin ws\<rparr>" using assms(1) by (simp add: cleanup_step_def)
    then show ?thesis using inv wake f inv_frame(3) [OF inv_wake_all [OF inv(1)]] by simp
  next
    case (MStop ws)
    then have s': "s' = s\<lparr>stop_flag := True, main_at := MNotifyAll ws\<rparr>" using assms(1) by (simp add: cleanup_step_def)
    show ?thesis using inv unfolding s' by (simp add: inv_frame no_null_def roster_def)
  next
    case (MJoin ws)
    then consider "s' = s\<lparr>is_ready := False, main_at := MIdle\<rparr>" | vs where "s' = s\<lparr>main_at := MJoin vs\<rparr>"
      using assms(1) by (auto simp: cleanup_step_def split: list.splits option.splits prod.splits wpc.splits)
    then show ?thesis
    proof cases
      case 1
      show ?thesis using inv unfolding 1 by (simp add: inv_frame no_null_def roster_def)
    next
      case 2
      then show ?thesis using inv by (simp add: inv_frame f)
    qed
  qed (use assms(1) in \<open>simp_all add: cleanup_step_def\<close>)
qed

lemma pool_step_ok:
  assumes inv: "tp_inv s" "no_null s" and st: "tp_step e s = Some r"
  shows "(\<exists>s'. r = Inr s' \<and> tp_inv s' \<and> no_null s' \<and> (roster s \<and> e \<noteq> Cleanup \<longrightarrow> roster s')) \<or>
     r = Inl LengthError \<or> (r = Inl AssertFail \<and> \<not> roster s)"
proof (cases e)
  case (Init mn mx)
  then have r: "r = map_sum id snd (tp_initialize mn mx s)" using st by (auto split: if_splits)
  from initialize_ok [OF inv, of mn mx] show ?thesis by (auto simp: r)
next
  case InitEnd
  then have r: "r = Inr (initialize_end s)" using st by (auto split: if_splits)
  show ?thesis using inv unfolding r initialize_end_def by (simp add: inv_frame no_null_def roster_def)
next
  case (Execute a cb prio)
  then have r: "r = map_sum id snd (tp_execute a cb prio s)" "tasks s a = None" using st by (auto split: if_splits)
  from execute_cases [OF inv(1) r(2), of cb prio] show ?thesis
  proof
    assume "\<exists>t s'. tp_execute a cb prio s = Inr (t, s') \<and> tp_inv s'"
    then obtain t s' where s': "tp_execute a cb prio s = Inr (t, s')" "tp_inv s'" by blast
    then show ?thesis using execute_nr [OF s'(1) inv] by (simp add: r(1))
  qed (simp add: r(1))
next
  case (NotifyOne w)
  then have w: "cv_waiting s w" and r: "r = Inr (set_pc w Woken (s\<lparr>main_at := MIdle\<rparr>))" using st by (auto split: if_splits)
  obtain t where t: "wk s w = Some (Waiting, t)" using w by (auto simp: cv_waiting_iff)
  have "tp_inv (set_pc w Woken (s\<lparr>main_at := MIdle\<rparr>))" by (rule inv_move [of _ w Waiting t]) (use inv(1) t in \<open>simp_all add: inv_frame\<close>)
  then show ?thesis using step_set_pc_nr [of "s\<lparr>main_at := MIdle\<rparr>" s w Woken] w inv(2) by (simp add: r)
next
  case NotifyNone
  then have r: "r = Inr (s\<lparr>main_at := MIdle\<rparr>)" using st by (auto split: if_splits)
  show ?thesis using inv unfolding r by (simp add: inv_frame no_null_def roster_def)
next
  case (Cancel t)
  then have r: "r = map_sum id snd (tp_cancel t s)" using st by (auto split: if_splits)
  obtain k s' where s': "tp_cancel t s = Inr (k, s')" "tp_inv s'" using cancel_inv [OF inv(1)] by blast
  then show ?thesis using nr_frame [of s' s] cancel_frame [OF s'(1)] inv(2) by (simp add: r)
next
  case Cleanup
  then have r: "r = tp_cleanup s" using st by (auto split: if_splits)
  from cleanup_ok [OF inv] show ?thesis using Cleanup by (auto simp: r)
next
  case CleanupStep
  then obtain s' where s': "cleanup_step s = Some s'" "r = Inr s'" using st by auto
  then show ?thesis using cleanup_step_ok [OF s'(1) inv] by simp
next
  case (Worker w)
  then show ?thesis using worker_ok [OF inv, of w r] st by auto
next
  case (Spurious w)
  then have w: "cv_waiting s w" and r: "r = Inr (set_pc w Woken s)" using st by (auto split: if_splits)
  obtain t where t: "wk s w = Some (Waiting, t)" using w by (auto simp: cv_waiting_iff)
  have "tp_inv (set_pc w Woken s)" by (rule inv_move [of _ w Waiting t]) (use inv(1) t in simp_all)
  then show ?thesis using step_set_pc_nr [of s s w Woken] w inv(2) by (simp add: r)
qed

lemma pool_run_ok:
  assumes "tp_inv s" "no_null s" "tp_run es s = Some r"
  shows "(\<exists>s'. r = Inr s' \<and> tp_inv s' \<and> no_null s' \<and> (roster s \<and> Cleanup \<notin> set es \<longrightarrow> roster s')) \<or>
     r = Inl LengthError \<or> (r = Inl AssertFail \<and> \<not> (roster s \<and> Cleanup \<notin> set es))"
  using assms
proof (induction es arbitrary: s)
  case (Cons e es)
  obtain r1 where r1: "tp_step e s = Some r1" using Cons.prems(3) by (auto split: option.splits)
  from pool_step_ok [OF Cons.prems(1,2) r1] consider
      s1 where "r1 = Inr s1" "tp_inv s1" "no_null s1" "roster s \<and> e \<noteq> Cleanup \<longrightarrow> roster s1"
    | "r1 = Inl LengthError" | "r1 = Inl AssertFail" "\<not> roster s" by blast
  then show ?case
  proof cases
    case 1
    then have "tp_run es s1 = Some r" using Cons.prems(3) r1 by simp
    from Cons.IH [OF 1(2,3) this] show ?thesis using 1(4) by auto
  qed (use Cons.prems(3) r1 in simp_all)
qed auto

lemma new_ok: "tp_inv tp_new" "no_null tp_new" "roster tp_new"
proof -
  have l: "cab_lookup cab_empty = (Map.empty :: token \<Rightarrow> 'a ptr option)" by (auto simp: cab_lookup_def cab_empty_def)
  show "tp_inv tp_new"
    by (simp add: tp_inv_def tp_new_def queued_def hand_of_def [abs_def] cab_inv_empty l places_def numbered_def pending_def)
  show "no_null tp_new" "roster tp_new" by (simp_all add: no_null_def roster_def tp_new_def l)
qed

lemma run_result: "(case r of Some (Inr s) \<Rightarrow> P s | _ \<Rightarrow> False) \<Longrightarrow> \<exists>s. r = Some (Inr s) \<and> P s"
  by (auto split: option.splits sum.splits)

lemma run_failed: "(case r of Some (Inl e) \<Rightarrow> P e | _ \<Rightarrow> False) \<Longrightarrow> \<exists>e. r = Some (Inl e) \<and> P e"
  by (auto split: option.splits sum.splits)

lemma replicate_5: "replicate 5 x = [x, x, x, x, x]"
  by (simp add: eval_nat_numeral)

lemmas tp_eval = tp_new_def tp_initialize_def createWorker_def initialize_end_def main_free_def tp_execute_def tp_cancel_def tp_cleanup_def
  drop_task_def cleanup_step_def wake_all_def set_pc_def worker_step_def popOneTask_def shouldThreadExitWaiting_def level_of_def
  push_level_def cv_waiting_def cab_alloc_def cab_allocId_def cab_allocPos_def cab_empty_def cab_size_def cab_update_def cab_free_def
  cab_at_def cab_clear_def cab_foreach_def token_isNull_def vector_max_size_def Let_def
  replicate_5 numeral_2_eq_2 numeral_3_eq_3

definition task_queued :: "tpool \<Rightarrow> nat \<Rightarrow> bool" where
  "task_queued s k \<longleftrightarrow> (\<exists>t a tk. t \<in> set (concat (undo_toks s)) \<and> cab_at t (undo_cab s) = Inr (Some a) \<and>
     tasks s a = Some tk \<and> tk_token tk = t \<and> tk_no tk = k)"

definition task_in_hand :: "tpool \<Rightarrow> nat \<Rightarrow> bool" where
  "task_in_hand s k \<longleftrightarrow> (\<exists>w pc u a tk. wk s w = Some (pc, u) \<and> in_hand pc = Some a \<and> unrun pc \<and> tasks s a = Some tk \<and> tk_no tk = k)"

text \<open>
  (C11) For every interleaving of the main thread and the workers, each task that \<open>execute\<close> took is in exactly one place: it was run,
  or it was dropped by \<open>cancel\<close> or \<open>cleanup\<close>, or its token waits in a queue, or one worker has it in hand and has not
  run it yet. So no task runs twice, none runs after \<open>cancel\<close> returned 0, and none is lost.
\<close>

theorem pool_tasks_once:
  assumes "tp_run es tp_new = Some (Inr s)"
  shows "distinct (ran_log s @ dropped s) \<and>
     (\<forall>k. (k < created s \<longleftrightarrow> k \<in> set (ran_log s @ dropped s) \<or> task_queued s k \<or> task_in_hand s k) \<and>
          \<not> (task_queued s k \<and> task_in_hand s k) \<and> \<not> (k \<in> set (ran_log s @ dropped s) \<and> (task_queued s k \<or> task_in_hand s k)))"
proof -
  have "tp_inv s" using pool_run_ok [OF new_ok(1,2) assms] by auto
  note i = tp_invD [OF this]
  let ?P = "pending (cab_lookup (undo_cab s)) (hand_of s) (unrun_of s)"
  have q: "task_queued s k \<longleftrightarrow> (\<exists>t a tk. cab_lookup (undo_cab s) t = Some (Some a) \<and> tasks s a = Some tk \<and> tk_no tk = k)" for k
  proof
    assume "task_queued s k"
    then show "\<exists>t a tk. cab_lookup (undo_cab s) t = Some (Some a) \<and> tasks s a = Some tk \<and> tk_no tk = k"
      using cab.get_law [OF i(1)] unfolding task_queued_def by (fastforce split: option.splits)
  next
    assume "\<exists>t a tk. cab_lookup (undo_cab s) t = Some (Some a) \<and> tasks s a = Some tk \<and> tk_no tk = k"
    then obtain t a tk where t: "cab_lookup (undo_cab s) t = Some (Some a)" "tasks s a = Some tk" "tk_no tk = k" by blast
    then have "t \<in> set (concat (undo_toks s))" "tk_token tk = t" "cab_at t (undo_cab s) = Inr (Some a)"
      using placesD(2) [OF i(5), of t] placesD(3) [OF i(5) t(1)] cab.get_law [OF i(1), of t] by (auto simp: queued_def)
    then show "task_queued s k" using t unfolding task_queued_def by blast
  qed
  have h: "task_in_hand s k \<longleftrightarrow> (\<exists>w a tk. hand_of s w = Some a \<and> unrun_of s w \<and> tasks s a = Some tk \<and> tk_no tk = k)" for k
    unfolding task_in_hand_def hand_of_def unrun_of_def by (fastforce split: option.splits)
  have qh: "task_queued s k \<or> task_in_hand s k \<longleftrightarrow> (\<exists>a tk. ?P a \<and> tasks s a = Some tk \<and> tk_no tk = k)" for k
    unfolding q h pending_def by blast
  have "\<not> (task_queued s k \<and> task_in_hand s k)" for k
  proof
    assume "task_queued s k \<and> task_in_hand s k"
    then obtain t a ta w b tb where *: "cab_lookup (undo_cab s) t = Some (Some a)" "tasks s a = Some ta" "tk_no ta = k"
      "hand_of s w = Some b" "unrun_of s w" "tasks s b = Some tb" "tk_no tb = k" unfolding q h by blast
    then have "?P a" "?P b" by (auto simp: pending_def)
    then have "a = b" using numberedD(4) [OF i(6), of a b ta tb] * by simp
    then show False using placesD(5) [OF i(5) *(4), of t] *(1) by simp
  qed
  then show ?thesis using numberedD(1,2,3) [OF i(6)] unfolding qh by blast
qed

lemma pool_tasks_once_witness:
  "\<exists>s. tp_run [Init 1 1, InitEnd, Execute 5 True 0, NotifyNone, Execute 6 False (- 7), NotifyNone,
      Worker 0, Worker 0, Worker 0, Worker 0, Worker 0] tp_new = Some (Inr s) \<and>
     ran_log s = [1] \<and> (task_queued s 0 \<or> task_in_hand s 0) \<and> distinct (ran_log s @ dropped s)"
proof -
  let ?es = "[Init 1 1, InitEnd, Execute 5 True 0, NotifyNone, Execute 6 False (- 7), NotifyNone,
      Worker 0, Worker 0, Worker 0, Worker 0, Worker 0]"
  have "case tp_run ?es tp_new of Some (Inr s) \<Rightarrow> created s = 2 \<and> ran_log s = [1] \<and> dropped s = [] | _ \<Rightarrow> False"
    by (simp add: tp_eval)
  from run_result [OF this] obtain s where s: "tp_run ?es tp_new = Some (Inr s)" "created s = 2" "ran_log s = [1]" "dropped s = []"
    by blast
  have "distinct (ran_log s @ dropped s)" "0 < created s \<longleftrightarrow> 0 \<in> set (ran_log s @ dropped s) \<or> task_queued s 0 \<or> task_in_hand s 0"
    using pool_tasks_once [OF s(1)] by blast+
  moreover from this(2) have "task_queued s 0 \<or> task_in_hand s 0" unfolding s(2,3,4) by simp
  ultimately show ?thesis using s(1,3) by blast
qed

text \<open>
  (C13) A run of the pool ends in no error other than these: a container at its maximal size, or, only when \<open>cleanup\<close> was called, the
  assertion of a worker that leaves and finds that \<open>cleanup\<close> has emptied the cabinet of threads. No task is used after its block
  was returned and no null thread is joined.
\<close>

theorem pool_errors:
  assumes "tp_run es tp_new = Some (Inl e)"
  shows "e = LengthError \<or> (e = AssertFail \<and> Cleanup \<in> set es)"
  using pool_run_ok [OF new_ok(1,2) assms] new_ok(3) by auto

text \<open>The assertion does fail: a second worker is created for a second task, and it decides to leave when the first one is idle
  again; \<open>cleanup\<close> comes before it takes itself out.\<close>

lemma pool_errors_witness:
  "tp_run [Init 0 1, InitEnd, Execute 5 False 0, NotifyNone, Worker 0, Worker 0, Worker 0, Worker 0, Worker 0, Worker 0, Worker 0,
      Cleanup, Worker 0] tp_new = Some (Inl AssertFail) \<and> AssertFail \<noteq> LengthError"
proof -
  let ?es = "[Init 0 1, InitEnd, Execute 5 False 0, NotifyNone, Worker 0, Worker 0, Worker 0, Worker 0, Worker 0, Worker 0, Worker 0,
      Cleanup, Worker 0]"
  have "case tp_run ?es tp_new of Some (Inl e) \<Rightarrow> e \<noteq> LengthError | _ \<Rightarrow> False" by (simp add: tp_eval)
  from run_failed [OF this] obtain e where e: "tp_run ?es tp_new = Some (Inl e)" "e \<noteq> LengthError" by blast
  then have "e = AssertFail" using pool_errors [OF e(1)] by blast
  then show ?thesis using e(1) by simp
qed

end
