(* ===== verification/Thread_Pool_Live.thy ===== *)
theory Thread_Pool_Live
  imports Thread_Pool_Run
begin

text \<open>
  Progress of the thread pool. A pool of fixed size never strands a task; a pool whose workers may leave can, and
  \<open>cleanup\<close> can wait for ever.
\<close>

section \<open>A pool of fixed size\<close>

definition pc_of :: "tpool \<Rightarrow> nat \<Rightarrow> wpc option" where
  "pc_of s w = map_option fst (wk s w)"

fun locked :: "wpc \<Rightarrow> bool" where
  "locked Checking = True"
| "locked Deciding = True"
| "locked Blocking = True"
| "locked _ = False"

definition fixed_size :: "tpool \<Rightarrow> bool" where
  "fixed_size s \<longleftrightarrow> is_ready s \<and> \<not> stop_flag s \<and> (main_at s = MIdle \<or> main_at s = MNotify) \<and>
     cab_size (thr_cab s) = min_thread s \<and> max_thread s = min_thread s \<and> wk s 0 \<noteq> None \<and>
     (\<forall>w. pc_of s w \<noteq> Some Gone \<and> pc_of s w \<noteq> Some Leaving)"

definition lock_held :: "tpool \<Rightarrow> bool" where
  "lock_held s \<longleftrightarrow> (\<forall>w. lock_by s = Some w \<longleftrightarrow> (\<exists>p. pc_of s w = Some p \<and> locked p)) \<and>
     (\<forall>w. pc_of s w = Some Blocking \<longrightarrow> queued s = [])"

definition awake :: "tpool \<Rightarrow> bool" where
  "awake s \<longleftrightarrow> (queued s \<noteq> [] \<and> main_at s = MIdle \<longrightarrow> (\<exists>w. pc_of s w \<noteq> None \<and> pc_of s w \<noteq> Some Waiting))"

lemma pc_of_set_pc: "pc_of (set_pc w p s) v = (if v = w \<and> pc_of s w \<noteq> None then Some p else pc_of s v)"
  by (cases "wk s w") (auto simp: pc_of_def wk_set_pc)

lemma cv_waiting_pc: "cv_waiting s w \<longleftrightarrow> pc_of s w = Some Waiting"
  by (simp add: cv_waiting_def pc_of_def)

lemma should_exit: "shouldThreadExitWaiting s \<longleftrightarrow> stop_flag s \<or> queued s \<noteq> []"
  by (auto simp: shouldThreadExitWaiting_def queued_def)

text \<open>The steps of a worker of such a pool.\<close>

lemma worker_fixed:
  assumes fx: "fixed_size s" and lk: "lock_held s" and st: "worker_step w s = Some (Inr s')"
  shows "\<exists>pc p. pc_of s w = Some pc \<and> pc_of s' = (pc_of s)(w \<mapsto> p) \<and> p \<noteq> Gone \<and> p \<noteq> Leaving \<and> thr_cab s' = thr_cab s \<and>
     is_ready s' = is_ready s \<and> stop_flag s' = stop_flag s \<and> main_at s' = main_at s \<and> min_thread s' = min_thread s \<and>
     max_thread s' = max_thread s \<and> (p = Blocking \<longrightarrow> queued s' = []) \<and> (p = Waiting \<longrightarrow> pc = Blocking) \<and> (queued s = [] \<longrightarrow> queued s' = []) \<and>
     (if locked pc then lock_by s = Some w else p = Checking \<longrightarrow> lock_by s = None) \<and> (locked p \<longrightarrow> lock_by s' = Some w) \<and>
     (\<not> locked p \<longrightarrow> lock_by s' = (if locked pc then None else lock_by s)) \<and> (p = Checking \<or> locked pc \<or> \<not> locked p)"
proof -
  obtain pc t where w: "wk s w = Some (pc, t)" using st by (auto simp: worker_step_def split: option.splits)
  have pcw: "pc_of s w = Some pc" using w by (simp add: pc_of_def)
  have ns: "\<not> stop_flag s" and nl: "pc \<noteq> Leaving" "pc \<noteq> Gone" using fx pcw by (auto simp: fixed_size_def)
  have pcs: "pc_of (set_pc w p x) = (pc_of s)(w \<mapsto> p)" if "wk x = wk s" for p x
    using that pcw by (auto simp: pc_of_def fun_eq_iff wk_set_pc w)
  have lw: "locked pc \<Longrightarrow> lock_by s = Some w" using lk pcw by (auto simp: lock_held_def)
  have q: "queued (set_pc w p x) = queued x" for p x by simp
  show ?thesis
  proof (cases pc)
    case AtTop
    have "\<not> min_thread s < cab_size (thr_cab s)" using fx by (simp add: fixed_size_def)
    then have s': "s' = set_pc w Checking (s\<lparr>idle_num := idle_num s + 1, lock_by := Some w\<rparr>)" and "lock_by s = None"
      using st w AtTop by (auto simp: worker_step_def split: if_splits)
    then show ?thesis unfolding s' using pcw AtTop by (intro exI [of _ pc] exI [of _ Checking]) (simp add: pcs queued_def)
  next
    case Checking
    then have s': "s' = set_pc w (if queued s \<noteq> [] then Deciding else Blocking) s" using st w ns by (simp add: worker_step_def should_exit)
    show ?thesis unfolding s' using pcw Checking lw
      by (intro exI [of _ pc] exI [of _ "if queued s \<noteq> [] then Deciding else Blocking"]) (simp add: pcs)
  next
    case Deciding
    let ?s = "s\<lparr>idle_num := idle_num s - 1, lock_by := None\<rparr>"
    obtain p x where px: "popOneTask ?s = Inr (p, x)" "s' = set_pc w (Picked p) x"
      using st w ns Deciding by (auto simp: worker_step_def Let_def split: sum.splits)
    have x: "wk x = wk s" "thr_cab x = thr_cab s" "is_ready x = is_ready s" "stop_flag x = stop_flag s" "main_at x = main_at s"
      "min_thread x = min_thread s" "max_thread x = max_thread s" "lock_by x = None" "queued s = [] \<longrightarrow> queued x = []"
      using px(1) pop_front_None [of "undo_toks s"] by (auto simp: popOneTask_def queued_def split: option.splits sum.splits)
    show ?thesis unfolding px(2) using pcw Deciding lw x by (intro exI [of _ pc] exI [of _ "Picked p"]) (simp add: pcs)
  next
    case Blocking
    then have s': "s' = set_pc w Waiting (s\<lparr>lock_by := None\<rparr>)" using st w by (simp add: worker_step_def)
    show ?thesis unfolding s' using pcw Blocking lw by (intro exI [of _ pc] exI [of _ Waiting]) (simp add: pcs queued_def)
  next
    case Waiting
    then show ?thesis using st w by (simp add: worker_step_def)
  next
    case Woken
    then have s': "s' = set_pc w Checking (s\<lparr>lock_by := Some w\<rparr>)" and "lock_by s = None"
      using st w by (auto simp: worker_step_def split: if_splits)
    then show ?thesis unfolding s' using pcw Woken by (intro exI [of _ pc] exI [of _ Checking]) (simp add: pcs queued_def)
  next
    case (Picked p)
    then consider "p = None" "s' = set_pc w AtTop s" | a D where "s' = set_pc w (Running a) (s\<lparr>doing := D\<rparr>)"
      using st w by (cases p) (auto simp: worker_step_def split: option.splits if_splits)
    then show ?thesis
    proof cases
      case 1
      show ?thesis unfolding 1(2) using pcw Picked by (intro exI [of _ pc] exI [of _ AtTop]) (simp add: pcs)
    next
      case 2
      show ?thesis unfolding 2 using pcw Picked by (intro exI [of _ pc] exI [of _ "Running a"]) (simp add: pcs queued_def)
    qed
  next
    case (Running a)
    then obtain l ps where s': "s' = set_pc w (Ran a) (s\<lparr>ran_log := l, loop_posts := ps\<rparr>)"
      using st w by (auto simp: worker_step_def split: option.splits)
    show ?thesis unfolding s' using pcw Running by (intro exI [of _ pc] exI [of _ "Ran a"]) (simp add: pcs queued_def)
  next
    case (Ran a)
    then obtain D T where s': "s' = set_pc w AtTop (s\<lparr>doing := D, tasks := T\<rparr>)"
      using st w by (auto simp: worker_step_def split: option.splits if_splits)
    show ?thesis unfolding s' using pcw Ran by (intro exI [of _ pc] exI [of _ AtTop]) (simp add: pcs queued_def)
  qed (use nl in simp_all)
qed

definition steady :: "tpool \<Rightarrow> bool" where
  "steady s \<longleftrightarrow> tp_inv s \<and> no_null s \<and> roster s \<and> fixed_size s \<and> lock_held s \<and> awake s"

lemma lock_set:
  assumes lk: "lock_held s" and pc: "pc_of s w = Some pc" and pcs: "pc_of s' = (pc_of s)(w \<mapsto> p)"
    and b: "p = Blocking \<longrightarrow> queued s' = []" and q: "queued s = [] \<longrightarrow> queued s' = []"
    and l: "if locked pc then lock_by s = Some w else p = Checking \<longrightarrow> lock_by s = None" and p: "locked p \<longrightarrow> lock_by s' = Some w"
    and np: "\<not> locked p \<longrightarrow> lock_by s' = (if locked pc then None else lock_by s)" and c: "p = Checking \<or> locked pc \<or> \<not> locked p"
  shows "lock_held s'"
  unfolding lock_held_def
proof (intro conjI allI impI)
  fix v
  have old: "lock_by s = Some v \<longleftrightarrow> (\<exists>r. pc_of s v = Some r \<and> locked r)" for v using lk by (simp add: lock_held_def)
  show "lock_by s' = Some v \<longleftrightarrow> (\<exists>r. pc_of s' v = Some r \<and> locked r)"
  proof (cases "v = w")
    case True
    show ?thesis using True pcs p np old [of w] pc by (cases "locked p") auto
  next
    case False
    have "lock_by s' = Some v \<longleftrightarrow> lock_by s = Some v"
    proof (cases "locked p")
      case True
      then show ?thesis using p l c False by (auto split: if_splits)
    next
      case np': False
      then show ?thesis using np l False by (auto split: if_splits)
    qed
    then show ?thesis using old [of v] pcs False by simp
  qed
next
  fix v assume "pc_of s' v = Some Blocking"
  then show "queued s' = []" using lk pcs b q by (auto simp: lock_held_def split: if_splits)
qed

lemma worker_steady:
  assumes st: "steady s" and w: "worker_step w s = Some (Inr s')"
  shows "steady s'"
proof -
  have i: "tp_inv s" "no_null s" "roster s" "fixed_size s" "lock_held s" "awake s" using st by (simp_all add: steady_def)
  from worker_fixed [OF i(4,5) w] obtain pc p where f: "pc_of s w = Some pc" "pc_of s' = (pc_of s)(w \<mapsto> p)" "p \<noteq> Gone" "p \<noteq> Leaving"
     "thr_cab s' = thr_cab s" "is_ready s' = is_ready s" "stop_flag s' = stop_flag s" "main_at s' = main_at s" "min_thread s' = min_thread s"
     "max_thread s' = max_thread s" "p = Blocking \<longrightarrow> queued s' = []" "p = Waiting \<longrightarrow> pc = Blocking" "queued s = [] \<longrightarrow> queued s' = []"
     "if locked pc then lock_by s = Some w else p = Checking \<longrightarrow> lock_by s = None" "locked p \<longrightarrow> lock_by s' = Some w"
     "\<not> locked p \<longrightarrow> lock_by s' = (if locked pc then None else lock_by s)" "p = Checking \<or> locked pc \<or> \<not> locked p"
    by blast
  have "tp_inv s'" "no_null s'" "roster s'" using worker_ok [OF i(1,2) w] i(3) by auto
  moreover have "fixed_size s'"
  proof -
    have "pc_of s 0 \<noteq> None" using i(4) by (simp add: fixed_size_def pc_of_def)
    then have "pc_of s' 0 \<noteq> None" using f(2) by simp
    then have "wk s' 0 \<noteq> None" by (simp add: pc_of_def)
    then show ?thesis using i(4) f by (simp add: fixed_size_def)
  qed
  moreover have "lock_held s'" by (rule lock_set [OF i(5) f(1,2,11,13,14,15,16,17)])
  moreover have "awake s'"
    unfolding awake_def
  proof
    assume q: "queued s' \<noteq> [] \<and> main_at s' = MIdle"
    have "p \<noteq> Waiting" using q f(12,13) i(5) f(1) by (auto simp: lock_held_def)
    then show "\<exists>w. pc_of s' w \<noteq> None \<and> pc_of s' w \<noteq> Some Waiting" using f(2) by (intro exI [of _ w]) simp
  qed
  ultimately show ?thesis by (simp add: steady_def)
qed

text \<open>The steps of the main thread.\<close>

lemma no_locked: "lock_held s \<Longrightarrow> lock_by s = None \<Longrightarrow> pc_of s w = Some p \<Longrightarrow> \<not> locked p"
  by (auto simp: lock_held_def)

lemma lock_held_free:
  assumes "lock_held s" and "lock_by s = None" and "lock_by s' = None" and "wk s' = wk s"
  shows "lock_held s'"
proof -
  have pc: "pc_of s' = pc_of s" using assms(4) by (simp add: pc_of_def fun_eq_iff)
  have "\<not> locked p" if "pc_of s w = Some p" for w p using no_locked [OF assms(1,2) that] .
  then show ?thesis unfolding lock_held_def pc using assms(3) by fastforce
qed

lemma execute_shape:
  assumes ex: "tp_execute a cb prio s = Inr (t, s')" and r: "is_ready s" and f: "cab_size (thr_cab s) = max_thread s"
  shows "wk s' = wk s \<and> thr_cab s' = thr_cab s \<and> main_at s' = MNotify \<and> is_ready s' = is_ready s \<and> stop_flag s' = stop_flag s \<and>
     min_thread s' = min_thread s \<and> max_thread s' = max_thread s \<and> lock_by s' = lock_by s"
  using ex r f by (auto simp: tp_execute_def Let_def map_sum_def split: if_splits sum.splits)

lemma drop_task_shape: "drop_task t s = Inr s' \<Longrightarrow> undo_toks s' = undo_toks s \<and> main_at s' = main_at s \<and> is_ready s' = is_ready s \<and>
    stop_flag s' = stop_flag s \<and> min_thread s' = min_thread s \<and> max_thread s' = max_thread s \<and> lock_by s' = lock_by s"
  by (auto simp: drop_task_def split: sum.splits option.splits)

lemma cancel_shape:
  assumes "tp_cancel t s = Inr (k, s')"
  shows "main_at s' = main_at s \<and> is_ready s' = is_ready s \<and> stop_flag s' = stop_flag s \<and> min_thread s' = min_thread s \<and>
     max_thread s' = max_thread s \<and> lock_by s' = lock_by s \<and> (queued s = [] \<longrightarrow> queued s' = [])"
proof (cases "t \<in> doing s \<or> find_level t (undo_toks s) = None")
  case False
  then obtain l where l: "find_level t (undo_toks s) = Some l" by blast
  then have "drop_task t (s\<lparr>undo_toks := (undo_toks s)[l := remove1 t (undo_toks s ! l)]\<rparr>) = Inr s'"
    using assms False by (auto simp: tp_cancel_def map_sum_def split: sum.splits)
  moreover have "queued s \<noteq> []"
    using l find_level_None [of t "undo_toks s"] unfolding queued_def by (cases "concat (undo_toks s)") simp_all
  ultimately show ?thesis using drop_task_shape by fastforce
qed (use assms in \<open>auto simp: tp_cancel_def split: if_splits\<close>)

lemma wake_fixed:
  assumes fx: "fixed_size s" "lock_held s" and w: "cv_waiting s w" and x: "wk x = wk s" "thr_cab x = thr_cab s" "is_ready x = is_ready s"
    "stop_flag x = stop_flag s" "main_at x = MIdle \<or> main_at x = MNotify" "min_thread x = min_thread s" "max_thread x = max_thread s"
    "lock_by x = lock_by s" "queued x = queued s"
  shows "fixed_size (set_pc w Woken x) \<and> lock_held (set_pc w Woken x) \<and> awake (set_pc w Woken x)"
proof -
  have pcw: "pc_of s w = Some Waiting" using w by (simp add: cv_waiting_pc)
  have pcx: "pc_of x = pc_of s" using x(1) by (simp add: pc_of_def fun_eq_iff)
  have pc: "pc_of (set_pc w Woken x) v = (if v = w then Some Woken else pc_of s v)" for v using pc_of_set_pc [of w Woken x v] pcx pcw by simp
  have "wk (set_pc w Woken x) 0 \<noteq> None" using fx(1) x(1) by (auto simp: wk_set_pc fixed_size_def)
  then have "fixed_size (set_pc w Woken x)" using fx(1) x pc by (simp add: fixed_size_def)
  moreover have "lock_held (set_pc w Woken x)"
    unfolding lock_held_def
  proof (intro conjI allI impI)
    fix v
    have "lock_by s = Some v \<longleftrightarrow> (\<exists>p. pc_of s v = Some p \<and> locked p)" using fx(2) by (simp add: lock_held_def)
    then show "lock_by (set_pc w Woken x) = Some v \<longleftrightarrow> (\<exists>p. pc_of (set_pc w Woken x) v = Some p \<and> locked p)"
      using pc [of v] pcw x(8) by (cases "v = w") auto
  next
    fix v assume "pc_of (set_pc w Woken x) v = Some Blocking"
    then show "queued (set_pc w Woken x) = []" using pc [of v] fx(2) x(9) by (auto simp: lock_held_def split: if_splits)
  qed
  moreover have "awake (set_pc w Woken x)" unfolding awake_def using pc by (intro impI exI [of _ w]) simp
  ultimately show ?thesis by blast
qed

lemma main_idle:
  assumes "fixed_size s" "lock_held s" "lock_by s = None" "lock_by s' = None" "wk s' = wk s" "thr_cab s' = thr_cab s" "is_ready s' = is_ready s"
    "stop_flag s' = stop_flag s" "main_at s' = MIdle \<or> main_at s' = MNotify" "min_thread s' = min_thread s" "max_thread s' = max_thread s"
  shows "fixed_size s' \<and> lock_held s'"
proof -
  have pc: "pc_of s' = pc_of s" using assms(5) by (simp add: pc_of_def fun_eq_iff)
  show ?thesis using lock_held_free [OF assms(2,3,4,5)] assms pc by (simp add: fixed_size_def)
qed

lemma step_steady:
  assumes sy: "steady s" and e: "e \<noteq> Cleanup" and st: "tp_step e s = Some (Inr s')"
  shows "steady s'"
proof -
  have i: "tp_inv s" "no_null s" "roster s" "fixed_size s" "lock_held s" "awake s" using sy by (simp_all add: steady_def)
  have good: "tp_inv s'" "no_null s'" "roster s'" using pool_step_ok [OF i(1,2) st] i(3) e by auto
  have rdy: "is_ready s" "main_at s = MIdle \<or> main_at s = MNotify" using i(4) by (simp_all add: fixed_size_def)
  have "fixed_size s' \<and> lock_held s' \<and> awake s'"
  proof (cases e)
    case (Init mn mx)
    then have "s' = s" using st rdy by (auto simp: tp_initialize_def split: if_splits)
    then show ?thesis using i by simp
  next
    case InitEnd
    then show ?thesis using st rdy by (auto split: if_splits)
  next
    case (Execute a cb prio)
    then have fr: "main_free s" and "map_sum id snd (tp_execute a cb prio s) = Inr s'" using st by (auto split: if_splits)
    then obtain t where ex: "tp_execute a cb prio s = Inr (t, s')" by (cases "tp_execute a cb prio s") auto
    note sh = execute_shape [OF ex rdy(1)]
    have "cab_size (thr_cab s) = max_thread s" using i(4) by (simp add: fixed_size_def)
    note sh = sh [OF this]
    have "fixed_size s' \<and> lock_held s'" by (rule main_idle [OF i(4,5)]) (use sh fr in \<open>simp_all add: main_free_def\<close>)
    then show ?thesis using sh by (simp add: awake_def)
  next
    case (NotifyOne w)
    then have s': "s' = set_pc w Woken (s\<lparr>main_at := MIdle\<rparr>)" and w: "cv_waiting s w" using st by (auto split: if_splits)
    show ?thesis unfolding s' by (rule wake_fixed [OF i(4,5) w]) (simp_all add: queued_def)
  next
    case NotifyNone
    then have s': "s' = s\<lparr>main_at := MIdle\<rparr>" and nw: "\<forall>w < wk_count s. \<not> cv_waiting s w" using st by (auto split: if_splits)
    have pc: "pc_of s' = pc_of s" by (simp add: s' pc_of_def fun_eq_iff)
    have "wk s 0 \<noteq> None" using i(4) by (simp add: fixed_size_def)
    then have "pc_of s 0 \<noteq> None" "\<not> cv_waiting s 0" using nw tp_invD(4) [OF i(1), of 0] by (simp_all add: pc_of_def)
    then have "awake s'" unfolding awake_def pc by (intro impI exI [of _ 0]) (simp add: cv_waiting_pc)
    moreover have "fixed_size s'" using i(4) pc by (simp add: fixed_size_def s')
    moreover have "lock_held s'" using i(5) unfolding lock_held_def pc by (simp add: s' queued_def)
    ultimately show ?thesis by blast
  next
    case (Cancel t)
    then have fr: "main_free s" and "map_sum id snd (tp_cancel t s) = Inr s'" using st by (auto split: if_splits)
    then obtain k where c: "tp_cancel t s = Inr (k, s')" by (cases "tp_cancel t s") auto
    note sh = cancel_shape [OF c] and f = cancel_frame [OF c]
    have fl: "fixed_size s' \<and> lock_held s'" by (rule main_idle [OF i(4,5)]) (use sh f fr in \<open>simp_all add: main_free_def\<close>)
    have "pc_of s' = pc_of s" using f by (simp add: pc_of_def fun_eq_iff)
    then have "awake s'" using i(6) sh by (auto simp: awake_def)
    then show ?thesis using fl by blast
  next
    case CleanupStep
    then show ?thesis using st rdy by (auto simp: cleanup_step_def)
  next
    case (Worker w)
    then have "worker_step w s = Some (Inr s')" using st by simp
    from worker_steady [OF sy this] show ?thesis by (simp add: steady_def)
  next
    case (Spurious w)
    then have s': "s' = set_pc w Woken s" and w: "cv_waiting s w" using st by (auto split: if_splits)
    show ?thesis unfolding s' by (rule wake_fixed [OF i(4,5) w]) (use rdy in simp_all)
  qed (use e in simp)
  then show ?thesis using good by (simp add: steady_def)
qed

lemma run_steady: "steady s \<Longrightarrow> Cleanup \<notin> set es \<Longrightarrow> tp_run es s = Some (Inr s') \<Longrightarrow> steady s'"
proof (induction es arbitrary: s)
  case (Cons e es)
  then obtain s1 where s1: "tp_step e s = Some (Inr s1)" "tp_run es s1 = Some (Inr s')" by (auto split: option.splits sum.splits)
  have "steady s1" by (rule step_steady [OF Cons.prems(1) _ s1(1)]) (use Cons.prems(2) in auto)
  then show ?case using Cons.IH s1(2) Cons.prems(2) by simp
qed simp

lemma alloc_count: "cab_alloc p c = Inr (t, c') \<Longrightarrow> cab_size c' = cab_size c + 1"
  by (auto simp: cab_alloc_def cab_allocId_def cab_allocPos_def cab_size_def Let_def split: if_splits sum.splits cell_union.splits)

lemma update_count: "cab_size (snd (cab_update t p c)) = cab_size c"
  by (simp add: cab_update_def cab_size_def)

text \<open>What the workers of \<open>initialize\<close> look like.\<close>

lemma createWorkers_new:
  "createWorkers n s = Inr s' \<Longrightarrow> cab_size (thr_cab s') = cab_size (thr_cab s) + of_nat n \<and> wk_count s' = wk_count s + n \<and>
     (\<forall>w. wk s' w = wk s w \<or> pc_of s' w = Some AtTop) \<and> (\<forall>w. wk_count s \<le> w \<and> w < wk_count s + n \<longrightarrow> wk s' w \<noteq> None) \<and>
     min_thread s' = min_thread s \<and> max_thread s' = max_thread s \<and> lock_by s' = lock_by s \<and> queued s' = queued s"
proof (induction n arbitrary: s)
  case (Suc n)
  then obtain s1 where s1: "createWorker s = Inr s1" "createWorkers n s1 = Inr s'" by (auto split: sum.splits)
  obtain t c where c: "cab_alloc None (thr_cab s) = Inr (t, c)"
    "s1 = s\<lparr>thr_cab := snd (cab_update t (Some (wk_count s)) c), wk := (wk s)(wk_count s \<mapsto> (AtTop, t)), wk_count := wk_count s + 1\<rparr>"
    using s1(1) by (auto simp: createWorker_def split: sum.splits)
  have f: "cab_size (thr_cab s1) = cab_size (thr_cab s) + 1" "wk_count s1 = wk_count s + 1" "min_thread s1 = min_thread s"
    "max_thread s1 = max_thread s" "lock_by s1 = lock_by s" "queued s1 = queued s" "wk s1 = (wk s)(wk_count s \<mapsto> (AtTop, t))"
    using alloc_count [OF c(1)] by (simp_all add: c(2) update_count queued_def)
  note ih = Suc.IH [OF s1(2)]
  have "wk s' w = wk s w \<or> pc_of s' w = Some AtTop" for w
  proof -
    have "wk s' w = wk s1 w \<or> pc_of s' w = Some AtTop" using ih by blast
    then show ?thesis using f(7) by (cases "w = wk_count s") (auto simp: pc_of_def)
  qed
  moreover have "wk s' w \<noteq> None" if w: "wk_count s \<le> w" "w < wk_count s + Suc n" for w
  proof (cases "w = wk_count s")
    case True
    have "wk s' w = wk s1 w \<or> pc_of s' w = Some AtTop" using ih by blast
    moreover have "wk s1 w \<noteq> None" using f(7) True by simp
    ultimately show ?thesis by (auto simp: pc_of_def)
  next
    case False
    then have "wk_count s1 \<le> w \<and> w < wk_count s1 + n" using w f(2) by simp
    then show ?thesis using ih by blast
  qed
  ultimately show ?case using ih f by simp
qed auto

lemma initialized_steady:
  assumes run: "tp_run [Init n n, InitEnd] tp_new = Some (Inr s)" and n: "1 \<le> n"
  shows "steady s"
proof -
  let ?s = "tp_new\<lparr>min_thread := word_of_int n, max_thread := word_of_int n\<rparr>"
  have "tp_initialize n n tp_new = map_sum id (\<lambda>s'. (True, s'\<lparr>main_at := MInitFlag\<rparr>)) (createWorkers (nat n) ?s)"
    using n by (simp add: tp_initialize_def tp_new_def)
  then have run2: "(case map_sum id snd (map_sum id (\<lambda>s'. (True, s'\<lparr>main_at := MInitFlag\<rparr>)) (createWorkers (nat n) ?s)) of
      Inl x \<Rightarrow> Some (Inl x) | Inr s1 \<Rightarrow> tp_run [InitEnd] s1) = Some (Inr s)"
    using run by (simp add: main_free_def tp_new_def)
  then obtain x where x: "createWorkers (nat n) ?s = Inr x" by (cases "createWorkers (nat n) ?s") auto
  have s: "s = initialize_end (x\<lparr>main_at := MInitFlag\<rparr>)" using run2 unfolding x by simp
  note sh = createWorkers_new [OF x]
  have good: "tp_inv s" "no_null s" "roster s" using pool_run_ok [OF new_ok(1,2) run] new_ok(3) by auto
  have wk: "wk s = wk x" "pc_of s = pc_of x" by (simp_all add: s initialize_end_def pc_of_def fun_eq_iff)
  have pc: "pc_of s w = None \<or> pc_of s w = Some AtTop" for w
    using sh unfolding wk(2) by (auto simp: pc_of_def tp_new_def)
  have "word_of_int n = (of_nat (nat n) :: usize)" using n by simp
  then have sz: "cab_size (thr_cab x) = word_of_int n" using sh by (simp add: tp_new_def cab_empty_def cab_size_def)
  have "wk s 0 \<noteq> None" using sh n unfolding wk(1) by (simp add: tp_new_def)
  moreover have "pc_of s w \<noteq> Some Gone \<and> pc_of s w \<noteq> Some Leaving" for w using pc [of w] by auto
  ultimately have "fixed_size s" using sh sz by (simp add: fixed_size_def s initialize_end_def)
  moreover have "lock_held s"
  proof -
    have "lock_by s = None" using sh by (simp add: s initialize_end_def tp_new_def)
    then show ?thesis using pc unfolding lock_held_def by (metis locked.simps(4) option.distinct(1) option.inject wpc.distinct(5))
  qed
  moreover have "awake s" using sh by (simp add: awake_def s initialize_end_def tp_new_def queued_def)
  ultimately show ?thesis using good by (simp add: steady_def)
qed

section \<open>Progress\<close>

text \<open>The steps a worker is away from having run a task, when no other worker holds the mutex.\<close>

fun ticks :: "wpc \<Rightarrow> nat" where
  "ticks (Ran a) = 6"
| "ticks (Picked None) = 6"
| "ticks AtTop = 5"
| "ticks Woken = 5"
| "ticks Checking = 4"
| "ticks Deciding = 3"
| "ticks (Picked (Some a)) = 2"
| "ticks _ = 1"

definition ready_to_run :: "nat \<Rightarrow> wpc \<Rightarrow> tpool \<Rightarrow> bool" where
  "ready_to_run v pc s \<longleftrightarrow> pc_of s v = Some pc \<and> pc \<noteq> Waiting \<and> (lock_by s = None \<or> lock_by s = Some v) \<and>
     (queued s \<noteq> [] \<or> (\<exists>a. in_hand pc = Some a \<and> unrun pc))"

lemma worker_enabled:
  assumes sy: "steady s" and r: "ready_to_run v pc s"
  shows "\<exists>s'. worker_step v s = Some (Inr s')"
proof -
  have i: "tp_inv s" "no_null s" "roster s" "fixed_size s" "lock_held s" using sy by (simp_all add: steady_def)
  have pc: "pc_of s v = Some pc" "pc \<noteq> Waiting" using r by (simp_all add: ready_to_run_def)
  then obtain t where w: "wk s v = Some (pc, t)" by (auto simp: pc_of_def)
  have "pc \<noteq> Gone" "pc \<noteq> Leaving" using i(4) pc(1) by (auto simp: fixed_size_def)
  have un: "\<not> locked pc \<longrightarrow> lock_by s = None" using i(5) pc(1) r by (auto simp: lock_held_def ready_to_run_def)
  have "worker_step v s \<noteq> None"
  proof (cases pc)
    case (Picked p)
    then show ?thesis using w un by (cases p) (auto simp: worker_step_def split: option.splits)
  qed (use w un pc \<open>pc \<noteq> Gone\<close> in \<open>auto simp: worker_step_def Let_def split: option.splits\<close>)
  then obtain r where r: "worker_step v s = Some r" by blast
  from worker_ok [OF i(1,2) r] i(3) show ?thesis using r by auto
qed

lemma worker_advances:
  assumes sy: "steady s" and r: "ready_to_run v pc s" and st: "worker_step v s = Some (Inr s')"
  shows "(\<exists>k. ran_log s' = ran_log s @ [k]) \<or> (ran_log s' = ran_log s \<and> (\<exists>p. ready_to_run v p s' \<and> ticks p < ticks pc))"
proof -
  have i: "tp_inv s" "fixed_size s" "lock_held s" using sy by (simp_all add: steady_def)
  have pc: "pc_of s v = Some pc" "pc \<noteq> Waiting" using r by (simp_all add: ready_to_run_def)
  then obtain t where w: "wk s v = Some (pc, t)" by (auto simp: pc_of_def)
  have n: "pc \<noteq> Gone" "pc \<noteq> Leaving" "\<not> stop_flag s" using i(2) pc(1) by (auto simp: fixed_size_def)
  have q: "pc \<noteq> Blocking" using i(3) pc(1) r by (auto simp: lock_held_def ready_to_run_def)
  have l: "lock_by s = None \<or> lock_by s = Some v" using r by (simp add: ready_to_run_def)
  have move: "ran_log x = ran_log s \<Longrightarrow> wk x = wk s \<Longrightarrow> s' = set_pc v p x \<Longrightarrow> lock_by x = None \<or> lock_by x = Some v \<Longrightarrow> p \<noteq> Waiting \<Longrightarrow>
      ticks p < ticks pc \<Longrightarrow> queued x \<noteq> [] \<or> (\<exists>a. in_hand p = Some a \<and> unrun p) \<Longrightarrow> ?thesis" for x p
    using w by (intro disjI2) (auto simp: ready_to_run_def pc_of_def wk_set_pc intro!: exI [of _ p])
  show ?thesis
  proof (cases pc)
    case AtTop
    have "\<not> min_thread s < cab_size (thr_cab s)" using i(2) by (simp add: fixed_size_def)
    then have s': "s' = set_pc v Checking (s\<lparr>idle_num := idle_num s + 1, lock_by := Some v\<rparr>)"
      using st w AtTop by (auto simp: worker_step_def split: if_splits)
    show ?thesis by (rule move [OF _ _ s']) (use r AtTop in \<open>auto simp: ready_to_run_def queued_def\<close>)
  next
    case Checking
    then have "queued s \<noteq> []" using r by (simp add: ready_to_run_def)
    then have s': "s' = set_pc v Deciding s" using st w Checking by (simp add: worker_step_def should_exit)
    show ?thesis by (rule move [OF _ _ s']) (use r l Checking in \<open>auto simp: ready_to_run_def\<close>)
  next
    case Deciding
    let ?s = "s\<lparr>idle_num := idle_num s - 1, lock_by := None\<rparr>"
    have "queued s \<noteq> []" using r Deciding by (simp add: ready_to_run_def)
    then have qs: "queued ?s \<noteq> []" by (simp add: queued_def)
    have h: "hand_of ?s v = None" "wk ?s v \<noteq> None" using w Deciding by (simp_all add: hand_of_def)
    obtain p x where px: "popOneTask ?s = Inr (p, x)" "p \<noteq> None" using pop_ok [OF _ h] i(1) qs by (auto simp: inv_frame)
    have s': "s' = set_pc v (Picked p) x" using st w Deciding n px(1) by (simp add: worker_step_def)
    have "wk x = wk s" "ran_log x = ran_log s" "lock_by x = None"
      using px(1) by (auto simp: popOneTask_def split: option.splits sum.splits)
    then show ?thesis using px(2) Deciding by (intro move [OF _ _ s']) auto
  next
    case Woken
    then have s': "s' = set_pc v Checking (s\<lparr>lock_by := Some v\<rparr>)" using st w by (auto simp: worker_step_def split: if_splits)
    show ?thesis by (rule move [OF _ _ s']) (use r Woken in \<open>auto simp: ready_to_run_def queued_def\<close>)
  next
    case (Picked p)
    show ?thesis
    proof (cases p)
      case None
      then have s': "s' = set_pc v AtTop s" using st w Picked by (simp add: worker_step_def)
      show ?thesis by (rule move [OF _ _ s']) (use r l Picked None in \<open>auto simp: ready_to_run_def\<close>)
    next
      case (Some a)
      then obtain D where s': "s' = set_pc v (Running a) (s\<lparr>doing := D\<rparr>)"
        using st w Picked by (auto simp: worker_step_def split: option.splits if_splits)
      show ?thesis by (rule move [OF _ _ s']) (use l Picked Some in auto)
    qed
  next
    case (Running a)
    then show ?thesis using st w by (auto simp: worker_step_def split: option.splits)
  next
    case (Ran a)
    then obtain D T where s': "s' = set_pc v AtTop (s\<lparr>doing := D, tasks := T\<rparr>)"
      using st w by (auto simp: worker_step_def split: option.splits if_splits)
    show ?thesis by (rule move [OF _ _ s']) (use r l Ran in \<open>auto simp: ready_to_run_def queued_def\<close>)
  qed (use pc n q in simp_all)
qed

lemma worker_runs_one:
  "steady s \<Longrightarrow> ready_to_run v pc s \<Longrightarrow> \<exists>n s' k. n \<le> ticks pc \<and> tp_run (replicate n (Worker v)) s = Some (Inr s') \<and> ran_log s' = ran_log s @ [k]"
proof (induction "ticks pc" arbitrary: s pc rule: less_induct)
  case less
  obtain s1 where s1: "worker_step v s = Some (Inr s1)" using worker_enabled [OF less.prems] by blast
  have tk: "0 < ticks pc" by (cases pc rule: ticks.cases) simp_all
  from worker_advances [OF less.prems s1] show ?case
  proof
    assume "\<exists>k. ran_log s1 = ran_log s @ [k]"
    then show ?thesis using s1 tk by (intro exI [of _ 1]) simp
  next
    assume "ran_log s1 = ran_log s \<and> (\<exists>p. ready_to_run v p s1 \<and> ticks p < ticks pc)"
    then obtain p where p: "ran_log s1 = ran_log s" "ready_to_run v p s1" "ticks p < ticks pc" by blast
    from less.hyps [OF p(3) worker_steady [OF less.prems(1) s1] p(2)] obtain n s' k where
      "n \<le> ticks p" "tp_run (replicate n (Worker v)) s1 = Some (Inr s')" "ran_log s' = ran_log s @ [k]" using p(1) by auto
    then show ?thesis using s1 p(3) by (intro exI [of _ "Suc n"]) simp
  qed
qed

lemma tp_run_append:
  "tp_run (xs @ ys) s = (case tp_run xs s of None \<Rightarrow> None | Some (Inl e) \<Rightarrow> Some (Inl e) | Some (Inr s') \<Rightarrow> tp_run ys s')"
  by (induction xs arbitrary: s) (auto split: option.splits sum.splits)

lemma steady_progress:
  assumes sy: "steady s" and q: "queued s \<noteq> []" and m: "main_at s = MIdle"
  shows "\<exists>v n s' k. n \<le> 6 \<and> tp_run (replicate n (Worker v)) s = Some (Inr s') \<and> ran_log s' = ran_log s @ [k]"
proof -
  have i: "fixed_size s" "lock_held s" "awake s" using sy by (simp_all add: steady_def)
  obtain v pc where v: "pc_of s v = Some pc" "pc \<noteq> Waiting" "lock_by s = None \<or> lock_by s = Some v"
  proof (cases "lock_by s")
    case None
    then show ?thesis using that i(3) q m by (auto simp: awake_def)
  next
    case (Some v)
    then obtain pc where "pc_of s v = Some pc" "locked pc" using i(2) by (auto simp: lock_held_def)
    moreover from this(2) have "pc \<noteq> Waiting" by auto
    ultimately show ?thesis using that [of v pc] Some by blast
  qed
  then have "ready_to_run v pc s" using q by (simp add: ready_to_run_def)
  from worker_runs_one [OF sy this] obtain n s' k where n: "n \<le> ticks pc" "tp_run (replicate n (Worker v)) s = Some (Inr s')" "ran_log s' = ran_log s @ [k]"
    by blast
  have "ticks pc \<le> 6" by (cases pc rule: ticks.cases) simp_all
  then have "n \<le> 6" using n(1) by simp
  then show ?thesis using n(2,3) by blast
qed



section \<open>Where progress fails\<close>

text \<open>A worker may leave in a pool whose size is not fixed: it decides to leave when no task is unclaimed, releases the mutex, and takes
  itself out of the cabinet later. A task handed in between finds the cabinet full, so no worker is created for it, and nobody is
  left to run it: no thread can take a step until the next call of the program.\<close>

lemma leaving_strands_task:
  "case tp_run [Init 0 1, InitEnd, Execute 5 False 0, NotifyNone, Worker 0, Worker 0, Worker 0, Worker 0, Worker 0, Worker 0, Worker 0,
       Execute 6 False 0, NotifyNone, Worker 0] tp_new of
     Some (Inr s) \<Rightarrow> length (concat (undo_toks s)) = 1 \<and> ran_log s = [0] \<and> cab_size (thr_cab s) = 0 \<and> worker_step 0 s = None \<and> wk_count s = 1
   | _ \<Rightarrow> False"
  by (simp add: tp_eval)

text \<open>\<open>cleanup\<close> sets the stop flag and notifies without the mutex. A worker that has found nothing to do and is about to block
  does not see either, and \<open>cleanup\<close> waits to join it until a spurious wake-up.\<close>

lemma cleanup_deadlock:
  "case tp_run [Init 1 1, InitEnd, Cleanup, Worker 0, Worker 0, CleanupStep, CleanupStep, Worker 0] tp_new of
     Some (Inr s) \<Rightarrow> main_at s = MJoin [0] \<and> cleanup_step s = None \<and> cv_waiting s 0 \<and> worker_step 0 s = None \<and> wk_count s = 1
   | _ \<Rightarrow> False"
  by (simp add: tp_eval)

text \<open>A task that a worker has taken from its queue and not yet entered among the tasks being done is found in neither place:
  \<open>getTaskStatus\<close> says \<open>kNotFound\<close> and \<open>cancel\<close> returns 1, and the task runs afterwards.\<close>

lemma picked_task_not_found:
  "case tp_run [Init 1 1, InitEnd, Execute 5 False 0, NotifyNone, Worker 0, Worker 0, Worker 0] tp_new of
     Some (Inr s) \<Rightarrow> getTaskStatus \<lparr>tok_id = 1, tok_pos = 0\<rparr> s = Inr kNotFound \<and> map_sum id fst (tp_cancel \<lparr>tok_id = 1, tok_pos = 0\<rparr> s) = Inr 1 \<and>
       (case tp_run [Worker 0, Worker 0] s of Some (Inr s') \<Rightarrow> ran_log s' = [0] | _ \<Rightarrow> False)
   | _ \<Rightarrow> False"
  by (simp add: tp_eval getTaskStatus_def)

end
