(* ===== verification/Json_Text.thy ===== *)
theory Json_Text
  imports Cxx_String
begin

text \<open>
  JSON as \<open>modules/util/json.cpp\<close> reads it: the accessors of a parsed value, and the scan for the end of a JSON text
  in a stream of characters. The value type stands for \<open>nlohmann::json\<close>: integers are kept exactly, the other numbers
  by a code, and an object by its fields in order.
\<close>

type_synonym i32 = "32 word"

datatype json = JNull | JBool bool | JInt int | JFloat nat | JStr string | JArr "json list" | JObj "(string \<times> json) list"

section \<open>Accessors\<close>

definition contains :: "json \<Rightarrow> string \<Rightarrow> bool" where
  "contains js f = (case js of JObj fs \<Rightarrow> map_of fs f \<noteq> None | _ \<Rightarrow> False)"

definition at_field :: "json \<Rightarrow> string \<Rightarrow> json" where
  "at_field js f = (case js of JObj fs \<Rightarrow> (case map_of fs f of Some v \<Rightarrow> v | None \<Rightarrow> JNull) | _ \<Rightarrow> JNull)"

text \<open>\<open>get<int>\<close> of an integer keeps its low 32 bits.\<close>

definition get_int :: "json \<Rightarrow> i32 option" where
  "get_int js = (case js of JInt k \<Rightarrow> Some (word_of_int k) | _ \<Rightarrow> None)"

definition get_unsigned :: "json \<Rightarrow> u32 option" where
  "get_unsigned js = (case js of JInt k \<Rightarrow> if 0 \<le> k then Some (word_of_int k) else None | _ \<Rightarrow> None)"

definition get_bool :: "json \<Rightarrow> bool option" where
  "get_bool js = (case js of JBool b \<Rightarrow> Some b | _ \<Rightarrow> None)"

definition get_string :: "json \<Rightarrow> string option" where
  "get_string js = (case js of JStr s \<Rightarrow> Some s | _ \<Rightarrow> None)"

definition GetField :: "(json \<Rightarrow> 'a option) \<Rightarrow> json \<Rightarrow> string \<Rightarrow> 'a option" where
  "GetField get js f = (if \<not> contains js f then None else get (at_field js f))"

section \<open>The end of a text\<close>

definition is_graph :: "char \<Rightarrow> bool" where
  "is_graph c \<longleftrightarrow> 33 \<le> code c \<and> code c \<le> 126"

record scan =
  is_started :: bool
  braces_level :: int
  square_level :: int
  in_string :: bool

definition scan_new :: scan where
  "scan_new = \<lparr>is_started = False, braces_level = 0, square_level = 0, in_string = False\<rparr>"

text \<open>The backslashes before a quote, counted backwards down to position 1.\<close>

fun back_loop :: "string \<Rightarrow> nat \<Rightarrow> bool \<Rightarrow> bool" where
  "back_loop s 0 b = b"
| "back_loop s (Suc j) b = (if s ! Suc j = CHR 0x5C then back_loop s j (\<not> b) else b)"

definition count_bracket :: "char \<Rightarrow> scan \<Rightarrow> scan" where
  "count_bracket c st =
     (if c = CHR ''['' then st\<lparr>square_level := square_level st + 1\<rparr>
      else if c = CHR '']'' then st\<lparr>square_level := square_level st - 1\<rparr>
      else if c = CHR ''{'' then st\<lparr>braces_level := braces_level st + 1\<rparr>
      else if c = CHR ''}'' then st\<lparr>braces_level := braces_level st - 1\<rparr>
      else st)"

definition scan_char :: "string \<Rightarrow> nat \<Rightarrow> scan \<Rightarrow> scan" where
  "scan_char s i st =
     (let st1 = (if \<not> is_started st \<and> is_graph (s ! i) then st\<lparr>is_started := True\<rparr> else st)
      in if s ! i = CHR 0x22 then st1\<lparr>in_string := (if in_string st1 then back_loop s (i - 1) False else True)\<rparr>
         else if in_string st1 then st1 else count_bracket (s ! i) st1)"

text \<open>The result is the \<open>int\<close> that \<open>i + 1\<close> is converted to; 0 when the text does not end, -1 when it is not JSON.\<close>

function find_loop :: "string \<Rightarrow> nat \<Rightarrow> scan \<Rightarrow> int" where
  "find_loop s i st =
     (if i < length s then
        (let st1 = scan_char s i st
         in if in_string st \<and> s ! i \<noteq> CHR 0x22 then find_loop s (Suc i) st1
            else if braces_level st1 = 0 \<and> square_level st1 = 0 \<and> \<not> in_string st1 \<and> is_started st1
              then sint (of_nat (i + 1) :: i32)
            else if braces_level st1 < 0 \<or> square_level st1 < 0 then - 1
            else find_loop s (Suc i) st1)
      else 0)"
  by pat_completeness auto
termination
  by (relation "measure (\<lambda>(s, i, st). length s - i)") auto

declare find_loop.simps [simp del]

definition FindEndPos :: "string \<Rightarrow> int" where
  "FindEndPos s = find_loop s 0 scan_new"

section \<open>Texts with balanced brackets\<close>

text \<open>What a JSON text of an array or an object looks like to the scan: characters, string literals and nested
  brackets.\<close>

datatype lit_char = Ch char | Esc char

datatype chunk = Plain char | Lit "lit_char list" | Sq "chunk list" | Br "chunk list"

fun lit_text :: "lit_char \<Rightarrow> string" where
  "lit_text (Ch c) = [c]"
| "lit_text (Esc c) = [CHR 0x5C, c]"

fun lit_ok :: "lit_char \<Rightarrow> bool" where
  "lit_ok (Ch c) \<longleftrightarrow> c \<noteq> CHR 0x22 \<and> c \<noteq> CHR 0x5C"
| "lit_ok (Esc c) = True"

fun chunk_text :: "chunk \<Rightarrow> string" where
  "chunk_text (Plain c) = [c]"
| "chunk_text (Lit ls) = CHR 0x22 # concat (map lit_text ls) @ [CHR 0x22]"
| "chunk_text (Sq cs) = CHR ''['' # concat (map chunk_text cs) @ [CHR '']'']"
| "chunk_text (Br cs) = CHR ''{'' # concat (map chunk_text cs) @ [CHR ''}'']"

fun chunk_ok :: "chunk \<Rightarrow> bool" where
  "chunk_ok (Plain c) \<longleftrightarrow> c \<notin> {CHR 0x22, CHR ''['', CHR '']'', CHR ''{'', CHR ''}''}"
| "chunk_ok (Lit ls) \<longleftrightarrow> list_all lit_ok ls"
| "chunk_ok (Sq cs) \<longleftrightarrow> list_all chunk_ok cs"
| "chunk_ok (Br cs) \<longleftrightarrow> list_all chunk_ok cs"

fun bracketed :: "chunk \<Rightarrow> bool" where
  "bracketed (Sq cs) \<longleftrightarrow> list_all chunk_ok cs"
| "bracketed (Br cs) \<longleftrightarrow> list_all chunk_ok cs"
| "bracketed _ = False"

definition json_text :: "string \<Rightarrow> bool" where
  "json_text s \<longleftrightarrow> (\<exists>c. bracketed c \<and> s = chunk_text c)"

text \<open>The backslashes at the end of a string.\<close>

definition trail :: "string \<Rightarrow> nat" where
  "trail s = length (takeWhile (\<lambda>c. c = CHR 0x5C) (rev s))"

lemma trail_simps [simp]: "trail [] = 0" "trail (s @ [c]) = (if c = CHR 0x5C then Suc (trail s) else 0)"
  by (simp_all add: trail_def)

lemma back_loop_trail:
  assumes "i < length s" and "s ! 0 \<noteq> CHR 0x5C"
  shows "back_loop s i b = (odd (trail (take (Suc i) s)) \<noteq> b)"
  using assms(1)
proof (induction i arbitrary: b)
  case 0
  then have "take (Suc 0) s = [] @ [s ! 0]" by (cases s) simp_all
  then show ?case using assms(2) by (simp only: back_loop.simps trail_simps) simp
next
  case (Suc i)
  have "take (Suc (Suc i)) s = take (Suc i) s @ [s ! Suc i]" using Suc.prems by (simp add: take_Suc_conv_app_nth)
  then show ?case using Suc by (simp only: back_loop.simps trail_simps) auto
qed

section \<open>The scan of a text\<close>

text \<open>Inside a text: the scan has started, no level is negative and one is positive.\<close>

definition inside :: "scan \<Rightarrow> bool" where
  "inside st \<longleftrightarrow> is_started st \<and> 0 \<le> braces_level st \<and> 0 \<le> square_level st \<and> (0 < braces_level st \<or> 0 < square_level st)"

lemma find_step:
  assumes "s = pre @ c # rest"
  shows "find_loop s (length pre) st =
     (let st1 = scan_char s (length pre) st
      in if in_string st \<and> c \<noteq> CHR 0x22 then find_loop s (Suc (length pre)) st1
         else if braces_level st1 = 0 \<and> square_level st1 = 0 \<and> \<not> in_string st1 \<and> is_started st1 then sint (of_nat (length pre + 1) :: i32)
         else if braces_level st1 < 0 \<or> square_level st1 < 0 then - 1
         else find_loop s (Suc (length pre)) st1)"
  using assms by (subst find_loop.simps) simp

lemma step_in_string:
  assumes "s = pre @ c # rest" and "in_string st" and "is_started st" and "c \<noteq> CHR 0x22"
  shows "find_loop s (length pre) st = find_loop s (Suc (length pre)) st"
proof -
  have "scan_char s (length pre) st = st" using assms by (simp add: scan_char_def Let_def)
  then show ?thesis unfolding find_step [OF assms(1)] using assms(2,4) by simp
qed

lemma step_quote:
  assumes s: "s = pre @ CHR 0x22 # rest" and st: "inside st" and h: "s ! 0 \<noteq> CHR 0x5C" and ne: "pre \<noteq> []"
  shows "find_loop s (length pre) st = find_loop s (Suc (length pre)) (st\<lparr>in_string := \<not> in_string st \<or> odd (trail pre)\<rparr>)"
proof -
  obtain n where n: "length pre = Suc n" using ne by (cases pre) auto
  have "back_loop s n False = odd (trail (take (Suc n) s))"
    using back_loop_trail [of n s False] h n s by simp
  also have "take (Suc n) s = pre" using n s by simp
  finally have b: "back_loop s (length pre - 1) False = odd (trail pre)" using n by simp
  have sc: "scan_char s (length pre) st = st\<lparr>in_string := \<not> in_string st \<or> odd (trail pre)\<rparr>"
    using st s b by (simp add: scan_char_def Let_def inside_def)
  show ?thesis using st unfolding find_step [OF s] Let_def sc by (auto simp: inside_def)
qed

lemma scan_lits:
  assumes "list_all lit_ok ls" and "s = pre @ concat (map lit_text ls) @ rest" and "inside st" and "in_string st"
    and "s ! 0 \<noteq> CHR 0x5C" and "pre \<noteq> []" and "even (trail pre)"
  shows "find_loop s (length pre) st = find_loop s (length (pre @ concat (map lit_text ls))) st \<and> even (trail (pre @ concat (map lit_text ls)))"
  using assms
proof (induction ls arbitrary: pre)
  case (Cons l ls)
  have st: "is_started st" using Cons.prems(3) by (simp add: inside_def)
  show ?case
  proof (cases l)
    case (Ch c)
    have c: "c \<noteq> CHR 0x22" "c \<noteq> CHR 0x5C" using Cons.prems(1) Ch by simp_all
    have s: "s = (pre @ [c]) @ concat (map lit_text ls) @ rest" using Cons.prems(2) Ch by simp
    have "find_loop s (length pre) st = find_loop s (length (pre @ [c])) st"
      using step_in_string [of s pre c _ st] s Cons.prems(4) st c(1) by simp
    moreover have "even (trail (pre @ [c]))" using c(2) by simp
    ultimately show ?thesis using Cons.IH [OF _ s Cons.prems(3,4,5)] Cons.prems(1) Ch by simp
  next
    case (Esc c)
    have s1: "s = pre @ CHR 0x5C # c # concat (map lit_text ls) @ rest" using Cons.prems(2) Esc by simp
    have s2: "s = (pre @ [CHR 0x5C]) @ c # concat (map lit_text ls) @ rest" using s1 by simp
    have s3: "s = (pre @ [CHR 0x5C, c]) @ concat (map lit_text ls) @ rest" using s1 by simp
    have "find_loop s (length pre) st = find_loop s (length (pre @ [CHR 0x5C])) st"
      using step_in_string [OF s1 Cons.prems(4) st] by simp
    also have "\<dots> = find_loop s (length (pre @ [CHR 0x5C, c])) st"
    proof (cases "c = CHR 0x22")
      case True
      have "odd (trail (pre @ [CHR 0x5C]))" using Cons.prems(7) by simp
      then have "st\<lparr>in_string := \<not> in_string st \<or> odd (trail (pre @ [CHR 0x5C]))\<rparr> = st" using Cons.prems(4) by simp
      then show ?thesis using step_quote [of s "pre @ [CHR 0x5C]" _ st] s2 True Cons.prems(3,5) by simp
    next
      case False
      then show ?thesis using step_in_string [OF s2 Cons.prems(4) st] by simp
    qed
    finally have a: "find_loop s (length pre) st = find_loop s (length (pre @ [CHR 0x5C, c])) st" .
    have "pre @ [CHR 0x5C, c] = (pre @ [CHR 0x5C]) @ [c]" by simp
    then have "even (trail (pre @ [CHR 0x5C, c]))" using Cons.prems(7) by (simp only: trail_simps) simp
    then show ?thesis using a Cons.IH [OF _ s3 Cons.prems(3,4,5)] Cons.prems(1) Esc by simp
  qed
qed simp

lemma step_bracket:
  assumes s: "s = pre @ c # rest" and c: "c \<noteq> CHR 0x22" and st: "is_started st" "\<not> in_string st"
  shows "find_loop s (length pre) st = (let st1 = count_bracket c st in
      if braces_level st1 = 0 \<and> square_level st1 = 0 then sint (of_nat (length pre + 1) :: i32)
      else if braces_level st1 < 0 \<or> square_level st1 < 0 then - 1 else find_loop s (Suc (length pre)) st1)"
proof -
  have sc: "scan_char s (length pre) st = count_bracket c st" using s c st by (simp add: scan_char_def Let_def)
  have k: "in_string (count_bracket c st) = in_string st" "is_started (count_bracket c st) = is_started st" by (simp_all add: count_bracket_def)
  show ?thesis unfolding find_step [OF s] Let_def sc using st k by simp
qed

lemma scan_list:
  assumes "\<And>c pre rest. c \<in> set cs \<Longrightarrow> s = pre @ chunk_text c @ rest \<Longrightarrow> pre \<noteq> [] \<Longrightarrow>
      find_loop s (length pre) st = find_loop s (length (pre @ chunk_text c)) st"
    and "s = pre @ concat (map chunk_text cs) @ rest" and "pre \<noteq> []"
  shows "find_loop s (length pre) st = find_loop s (length (pre @ concat (map chunk_text cs))) st"
  using assms
proof (induction cs arbitrary: pre)
  case (Cons c cs)
  have s: "s = pre @ chunk_text c @ concat (map chunk_text cs) @ rest" "s = (pre @ chunk_text c) @ concat (map chunk_text cs) @ rest"
    using Cons.prems(2) by simp_all
  have "find_loop s (length pre) st = find_loop s (length (pre @ chunk_text c)) st" using Cons.prems(1) [OF _ s(1)] Cons.prems(3) by simp
  also have "\<dots> = find_loop s (length ((pre @ chunk_text c) @ concat (map chunk_text cs))) st"
    by (rule Cons.IH [OF _ s(2)]) (use Cons.prems in simp_all)
  finally show ?case by simp
qed simp

lemma scan_brackets:
  assumes s: "s = pre @ a # concat (map chunk_text cs) @ b # rest" and st: "inside st" "\<not> in_string st"
    and a: "a \<noteq> CHR 0x22" "b \<noteq> CHR 0x22" "inside (count_bracket a st)" "\<not> in_string (count_bracket a st)" "count_bracket b (count_bracket a st) = st"
    and IH: "\<And>c pre rest. c \<in> set cs \<Longrightarrow> s = pre @ chunk_text c @ rest \<Longrightarrow> pre \<noteq> [] \<Longrightarrow>
      find_loop s (length pre) (count_bracket a st) = find_loop s (length (pre @ chunk_text c)) (count_bracket a st)"
  shows "find_loop s (length pre) st = find_loop s (length (pre @ a # concat (map chunk_text cs) @ [b])) st"
proof -
  let ?st = "count_bracket a st" and ?p = "(pre @ [a]) @ concat (map chunk_text cs)"
  have "find_loop s (length pre) st = find_loop s (length (pre @ [a])) ?st"
    using step_bracket [OF s a(1)] st a(3) by (auto simp: inside_def Let_def)
  also have "\<dots> = find_loop s (length ?p) ?st" by (rule scan_list [OF IH]) (use s in simp_all)
  also have "\<dots> = find_loop s (Suc (length ?p)) st"
    using step_bracket [of s ?p b rest ?st] s a st by (auto simp: inside_def Let_def)
  finally show ?thesis by simp
qed

lemma scan_chunk:
  "chunk_ok c \<Longrightarrow> s = pre @ chunk_text c @ rest \<Longrightarrow> inside st \<Longrightarrow> \<not> in_string st \<Longrightarrow> s ! 0 \<noteq> CHR 0x5C \<Longrightarrow> pre \<noteq> [] \<Longrightarrow>
     find_loop s (length pre) st = find_loop s (length (pre @ chunk_text c)) st"
proof (induction c arbitrary: pre rest st)
  case (Plain c)
  have "count_bracket c st = st" using Plain.prems(1) by (simp add: count_bracket_def)
  then show ?case
    using step_bracket [of s pre c rest st] Plain.prems by (auto simp: inside_def Let_def)
next
  case (Lit ls)
  let ?st = "st\<lparr>in_string := True\<rparr>"
  have i: "inside ?st" using Lit.prems(3) by (simp add: inside_def)
  have s1: "s = pre @ CHR 0x22 # concat (map lit_text ls) @ CHR 0x22 # rest" using Lit.prems(2) by simp
  have s2: "s = (pre @ [CHR 0x22]) @ concat (map lit_text ls) @ CHR 0x22 # rest" using s1 by simp
  let ?p = "(pre @ [CHR 0x22]) @ concat (map lit_text ls)"
  have s3: "s = ?p @ CHR 0x22 # rest" using s1 by simp
  have 1: "find_loop s (length pre) st = find_loop s (length (pre @ [CHR 0x22])) ?st"
    using step_quote [OF s1 Lit.prems(3,5,6)] Lit.prems(4) by simp
  have ev: "even (trail (pre @ [CHR 0x22]))" "pre @ [CHR 0x22] \<noteq> []" "in_string ?st" "list_all lit_ok ls" using Lit.prems(1) by simp_all
  note 2 = scan_lits [OF ev(4) s2 i ev(3) Lit.prems(5) ev(2,1)]
  have "?st\<lparr>in_string := \<not> in_string ?st \<or> odd (trail ?p)\<rparr> = st" using 2 Lit.prems(4) by simp
  then have "find_loop s (length ?p) ?st = find_loop s (Suc (length ?p)) st"
    using step_quote [OF s3 i Lit.prems(5)] by simp
  then show ?case using 1 2 by simp
next
  case (Sq cs)
  let ?st = "st\<lparr>square_level := square_level st + 1\<rparr>"
  have st: "count_bracket CHR ''['' st = ?st" "count_bracket CHR '']'' ?st = st" by (simp_all add: count_bracket_def)
  have i: "inside ?st" "\<not> in_string ?st" using Sq.prems(3,4) by (auto simp: inside_def)
  have s: "s = pre @ CHR ''['' # concat (map chunk_text cs) @ CHR '']'' # rest" using Sq.prems(2) by simp
  have "find_loop s (length pre) st = find_loop s (length (pre @ CHR ''['' # concat (map chunk_text cs) @ [CHR '']''])) st"
    by (rule scan_brackets [OF s Sq.prems(3,4)]) (use Sq.IH Sq.prems(1,5) i in \<open>simp_all add: st list_all_iff\<close>)
  then show ?case by simp
next
  case (Br cs)
  let ?st = "st\<lparr>braces_level := braces_level st + 1\<rparr>"
  have st: "count_bracket CHR ''{'' st = ?st" "count_bracket CHR ''}'' ?st = st" by (simp_all add: count_bracket_def)
  have i: "inside ?st" "\<not> in_string ?st" using Br.prems(3,4) by (auto simp: inside_def)
  have s: "s = pre @ CHR ''{'' # concat (map chunk_text cs) @ CHR ''}'' # rest" using Br.prems(2) by simp
  have "find_loop s (length pre) st = find_loop s (length (pre @ CHR ''{'' # concat (map chunk_text cs) @ [CHR ''}''])) st"
    by (rule scan_brackets [OF s Br.prems(3,4)]) (use Br.IH Br.prems(1,5) i in \<open>simp_all add: st list_all_iff\<close>)
  then show ?case by simp
qed

lemma scan_blanks:
  assumes "s = pre @ ws @ rest" and "list_all (\<lambda>c. chunk_ok (Plain c) \<and> \<not> is_graph c) ws"
  shows "find_loop s (length pre) scan_new = find_loop s (length (pre @ ws)) scan_new"
  using assms
proof (induction ws arbitrary: pre)
  case (Cons w ws)
  have s: "s = pre @ w # ws @ rest" "s = (pre @ [w]) @ ws @ rest" using Cons.prems(1) by simp_all
  have "scan_char s (length pre) scan_new = scan_new"
    using Cons.prems s(1) by (auto simp: scan_char_def scan_new_def count_bracket_def Let_def)
  then have "find_loop s (length pre) scan_new = find_loop s (length (pre @ [w])) scan_new"
    unfolding find_step [OF s(1)] by (simp add: scan_new_def)
  then show ?case using Cons.IH [OF s(2)] Cons.prems(2) by simp
qed simp

lemma sint_small: "n < 2147483648 \<Longrightarrow> sint (of_nat n :: i32) = int n"
  by (simp add: signed_of_nat signed_take_bit_int_eq_self)

lemma find_end:
  assumes "json_text tx" and "list_all (\<lambda>c. chunk_ok (Plain c) \<and> \<not> is_graph c) ws" and "length (ws @ tx) < 2147483648"
  shows "FindEndPos (ws @ tx @ rest) = int (length (ws @ tx))"
proof -
  obtain c where c: "bracketed c" "tx = chunk_text c" using assms(1) by (auto simp: json_text_def)
  then obtain a b cs where tx: "tx = a # concat (map chunk_text cs) @ [b]" and cs: "list_all chunk_ok cs"
    and ab: "a = CHR ''['' \<and> b = CHR '']'' \<or> a = CHR ''{'' \<and> b = CHR ''}''" by (cases c) auto
  let ?s = "ws @ tx @ rest" and ?p = "(ws @ [a]) @ concat (map chunk_text cs)"
  define st0 where "st0 = scan_new\<lparr>is_started := True\<rparr>"
  let ?st = "count_bracket a st0"
  have s: "?s = ws @ a # concat (map chunk_text cs) @ b # rest" "?s = ?p @ b # rest" "?s = (ws @ [a]) @ concat (map chunk_text cs) @ b # rest"
    using tx by simp_all
  have i: "inside ?st" "\<not> in_string ?st" "count_bracket b ?st = st0"
    using ab by (auto simp: st0_def count_bracket_def scan_new_def inside_def)
  have h: "?s ! 0 \<noteq> CHR 0x5C"
  proof (cases ws)
    case Nil
    then show ?thesis using s(1) ab by auto
  next
    case (Cons w ws')
    then show ?thesis using assms(2) by (auto simp: is_graph_def)
  qed
  have "FindEndPos ?s = find_loop ?s (length ws) scan_new"
    using scan_blanks [of ?s "[]" ws "tx @ rest"] assms(2) by (simp add: FindEndPos_def)
  also have "\<dots> = find_loop ?s (length (ws @ [a])) ?st"
  proof -
    have g: "a \<noteq> CHR 0x22" "is_graph a" using ab by (auto simp: is_graph_def)
    have "scan_char ?s (length ws) scan_new = ?st" using s(1) g by (simp add: scan_char_def scan_new_def st0_def Let_def)
    then show ?thesis unfolding find_step [OF s(1)] Let_def using i g by (auto simp: inside_def)
  qed
  also have "\<dots> = find_loop ?s (length ?p) ?st"
    by (rule scan_list [OF _ s(3)]) (use scan_chunk [OF _ _ i(1,2) h] cs in \<open>simp_all add: list_all_iff\<close>)
  also have "\<dots> = sint (of_nat (length ?p + 1) :: i32)"
    using step_bracket [OF s(2), of ?st] i ab by (auto simp: st0_def scan_new_def inside_def Let_def)
  also have "length ?p + 1 = length (ws @ tx)" using tx by simp
  also have "sint (of_nat (length (ws @ tx)) :: i32) = int (length (ws @ tx))"
    by (rule sint_small [OF assms(3)])
  finally show ?thesis .
qed

text \<open>What the scan has decided on a prefix stays.\<close>

lemma back_loop_prefix: "j < length p \<Longrightarrow> back_loop (p @ q) j b = back_loop p j b"
  by (induction p j b rule: back_loop.induct) (simp_all add: nth_append)

lemma scan_char_prefix: "i < length p \<Longrightarrow> scan_char (p @ q) i st = scan_char p i st"
  by (cases i) (simp_all add: scan_char_def nth_append back_loop_prefix Let_def)

lemma find_prefix:
  "find_loop p i st \<noteq> 0 \<Longrightarrow> find_loop (p @ q) i st = find_loop p i st \<and>
     (find_loop p i st = - 1 \<or> (\<exists>k < length p. find_loop p i st = sint (of_nat (k + 1) :: i32)))"
proof (induction p i st rule: find_loop.induct)
  case (1 p i st)
  have i: "i < length p" using 1(3) find_loop.simps [of p i st] by (auto split: if_splits)
  let ?st = "scan_char p i st"
  have nth: "(p @ q) ! i = p ! i" "i < length (p @ q)" using i by (simp_all add: nth_append)
  note u = find_loop.simps [of p i st] find_loop.simps [of "p @ q" i st, unfolded scan_char_prefix [OF i] nth(1)]
  show ?case
  proof (cases "in_string st \<and> p ! i \<noteq> CHR 0x22")
    case True
    then show ?thesis using 1(1) [OF i refl True] 1(3) i nth(2) u by (simp add: Let_def)
  next
    case a: False
    show ?thesis
    proof (cases "braces_level ?st = 0 \<and> square_level ?st = 0 \<and> \<not> in_string ?st \<and> is_started ?st")
      case True
      then have e: "find_loop p i st = sint (of_nat (i + 1) :: i32)" "find_loop (p @ q) i st = sint (of_nat (i + 1) :: i32)"
        using a True i nth(2) unfolding u Let_def by auto
      show ?thesis unfolding e using i by blast
    next
      case b: False
      show ?thesis
      proof (cases "braces_level ?st < 0 \<or> square_level ?st < 0")
        case True
        then have e: "find_loop p i st = - 1" "find_loop (p @ q) i st = - 1"
          using a b True i nth(2) unfolding u Let_def by auto
        show ?thesis unfolding e by simp
      next
        case c: False
        have e: "find_loop p i st = find_loop p (Suc i) ?st" "find_loop (p @ q) i st = find_loop (p @ q) (Suc i) ?st"
          using a b c i nth(2) unfolding u Let_def by auto
        show ?thesis using 1(2) [OF i refl a b c] 1(3) unfolding e by blast
      qed
    qed
  qed
qed

lemma find_end_part:
  assumes "json_text tx" and "list_all (\<lambda>c. chunk_ok (Plain c) \<and> \<not> is_graph c) ws" and "length (ws @ tx) < 2147483648"
    and n: "n < length (ws @ tx)"
  shows "FindEndPos (take n (ws @ tx)) = 0"
proof -
  let ?p = "take n (ws @ tx)"
  have full: "FindEndPos (?p @ drop n (ws @ tx)) = int (length (ws @ tx))" using find_end [OF assms(1,2,3), of "[]"] by (simp only: append_take_drop_id append_Nil2)
  show "FindEndPos ?p = 0"
  proof (rule ccontr)
    assume "FindEndPos ?p \<noteq> 0"
    note pre = find_prefix [OF this [unfolded FindEndPos_def], of "drop n (ws @ tx)", folded FindEndPos_def]
    have "FindEndPos ?p = int (length (ws @ tx))" using conjunct1 [OF pre] full by argo
    moreover have "FindEndPos ?p = - 1 \<or> (\<exists>k < length ?p. FindEndPos ?p = sint (of_nat (k + 1) :: i32))" by (rule conjunct2 [OF pre])
    ultimately obtain k where k: "k < length ?p" "int (length (ws @ tx)) = sint (of_nat (k + 1) :: i32)" by auto
    have "sint (of_nat (k + 1) :: i32) = int (k + 1)" by (rule sint_small) (use k(1) n assms(3) in simp)
    then show False using k n by simp
  qed
qed

text \<open>
  (C29) The end of a text. Whatever follows it in the stream, and whatever blanks come before it, \<open>FindEndPos\<close> finds the end
  of the first array or object, past every bracket and quote inside its strings, escaped or not; and as long as only a part has
  come it answers 0.
\<close>

theorem find_end_of_text:
  assumes "json_text tx" and "list_all (\<lambda>c. chunk_ok (Plain c) \<and> \<not> is_graph c) ws" and "length (ws @ tx) < 2147483648"
  shows "FindEndPos (ws @ tx @ rest) = int (length (ws @ tx)) \<and>
     (n < length (ws @ tx) \<longrightarrow> FindEndPos (take n (ws @ tx)) = 0)"
  using find_end [OF assms] find_end_part [OF assms] by blast

lemma find_end_of_text_witness:
  "FindEndPos '' ]{}'' = - 1 \<and> FindEndPos '' [{}] [1]'' = 5 \<and> FindEndPos '' [{}'' = 0"
proof -
  let ?tx = "''[{}]''" and ?ws = "'' ''"
  have "json_text ?tx" unfolding json_text_def by (rule exI [of _ "Sq [Br []]"]) simp
  moreover have "list_all (\<lambda>c. chunk_ok (Plain c) \<and> \<not> is_graph c) ?ws" by (simp add: is_graph_def)
  ultimately have "FindEndPos (?ws @ ?tx @ '' [1]'') = int (length (?ws @ ?tx)) \<and> (4 < length (?ws @ ?tx) \<longrightarrow> FindEndPos (take 4 (?ws @ ?tx)) = 0)"
    by (rule find_end_of_text) simp
  moreover have "FindEndPos '' ]{}'' = - 1"
    by (simp add: FindEndPos_def find_loop.simps scan_char_def scan_new_def count_bracket_def is_graph_def Let_def)
  ultimately show ?thesis by simp
qed

end
