(* ===== verification/Json_Proto.thy ===== *)
theory Json_Proto
  imports Json_Text Serializer
begin

text \<open>
  JSON-RPC messages and their framing: \<open>modules/jsonrpc/proto.cpp\<close> and \<open>protos\<close>. The JSON library is a
  parameter: \<open>dump\<close> prints a value and \<open>parse\<close> reads one, or throws (\<open>None\<close>). What arrives is given to the
  callbacks as a list of messages. Texts are characters and streams bytes.
\<close>

section \<open>Messages\<close>

datatype rpc_msg = MsgRequest i32 string json | MsgRespond i32 i32 json

abbreviation int_json :: "i32 \<Rightarrow> json" where
  "int_json k \<equiv> JInt (sint k)"

definition request_json :: "i32 \<Rightarrow> string \<Rightarrow> json \<Rightarrow> json" where
  "request_json i method params = JObj ([(''jsonrpc'', JStr ''2.0''), (''method'', JStr method)] @
     (if i \<noteq> 0 then [(''id'', int_json i)] else []) @ (if params \<noteq> JNull then [(''params'', params)] else []))"

definition result_json :: "i32 \<Rightarrow> json \<Rightarrow> json" where
  "result_json i result = JObj [(''jsonrpc'', JStr ''2.0''), (''id'', int_json i), (''result'', result)]"

definition error_json :: "i32 \<Rightarrow> i32 \<Rightarrow> string \<Rightarrow> json" where
  "error_json i errcode message = JObj [(''jsonrpc'', JStr ''2.0''), (''id'', int_json i),
     (''error'', JObj ((''code'', int_json errcode) # (if message \<noteq> [] then [(''message'', JStr message)] else [])))]"

text \<open>\<open>onRecvJson\<close>; \<open>q\<close> and \<open>r\<close> tell whether the callbacks for requests and responds are set.\<close>

definition onRecvObject :: "bool \<Rightarrow> bool \<Rightarrow> json \<Rightarrow> rpc_msg list" where
  "onRecvObject q r js =
     (if GetField get_string js ''jsonrpc'' \<noteq> Some ''2.0'' then []
      else if contains js ''method'' then
        (if \<not> q then []
         else case GetField get_string js ''method'' of
           None \<Rightarrow> []
         | Some method \<Rightarrow> [MsgRequest (case GetField get_int js ''id'' of Some k \<Rightarrow> k | None \<Rightarrow> 0) method
               (if contains js ''params'' then at_field js ''params'' else JNull)])
      else if contains js ''result'' then
        (if \<not> r then []
         else case GetField get_int js ''id'' of None \<Rightarrow> [] | Some k \<Rightarrow> [MsgRespond k 0 (at_field js ''result'')])
      else if contains js ''error'' then
        (if \<not> r then []
         else case GetField get_int (at_field js ''error'') ''code'' of
           None \<Rightarrow> []
         | Some errcode \<Rightarrow> [MsgRespond (case GetField get_int js ''id'' of Some k \<Rightarrow> k | None \<Rightarrow> 0) errcode JNull])
      else [])"

fun onRecvJson :: "bool \<Rightarrow> bool \<Rightarrow> json \<Rightarrow> rpc_msg list" where
  "onRecvJson q r (JObj fs) = onRecvObject q r (JObj fs)"
| "onRecvJson q r (JArr xs) = concat (map (onRecvJson q r) xs)"
| "onRecvJson q r _ = []"

section \<open>Framing\<close>

type_synonym recv_result = "cxx_error + int \<times> rpc_msg list"

definition to_bytes :: "string \<Rightarrow> bytes" where
  "to_bytes = map (\<lambda>c. of_nat (code c))"

definition to_text :: "bytes \<Rightarrow> string" where
  "to_text = map (\<lambda>b. char_of (unat b))"

definition deliver_text :: "(string \<Rightarrow> json option) \<Rightarrow> bool \<Rightarrow> bool \<Rightarrow> string \<Rightarrow> int \<Rightarrow> recv_result" where
  "deliver_text parse q r tx n = (case parse tx of None \<Rightarrow> Inr (- 1, []) | Some js \<Rightarrow> Inr (n, onRecvJson q r js))"

text \<open>\<open>RawStreamProto\<close>: texts one after the other.\<close>

definition raw_sendJson :: "(json \<Rightarrow> string) \<Rightarrow> json \<Rightarrow> bytes" where
  "raw_sendJson dump js = to_bytes (dump js)"

definition raw_onRecvData :: "(string \<Rightarrow> json option) \<Rightarrow> bool \<Rightarrow> bool \<Rightarrow> bytes ptr \<Rightarrow> recv_result" where
  "raw_onRecvData parse q r p = (case p of
       None \<Rightarrow> Inl AssertFail
     | Some d \<Rightarrow>
         if length d < 2 then Inr (0, [])
         else let n = FindEndPos (to_text d)
              in if n > 0 then deliver_text parse q r (take (nat n) (to_text d)) n else Inr (0, []))"

text \<open>\<open>PacketProto\<close>: one text per packet.\<close>

definition packet_sendJson :: "(json \<Rightarrow> string) \<Rightarrow> json \<Rightarrow> bytes" where
  "packet_sendJson dump js = to_bytes (dump js)"

definition packet_onRecvData :: "(string \<Rightarrow> json option) \<Rightarrow> bool \<Rightarrow> bool \<Rightarrow> bytes ptr \<Rightarrow> recv_result" where
  "packet_onRecvData parse q r p = (case p of
       None \<Rightarrow> Inl AssertFail
     | Some d \<Rightarrow> if length d < 2 then Inr (0, []) else deliver_text parse q r (to_text d) (int (length d)))"

text \<open>\<open>HeaderStreamProto\<close>: a head code of 2 bytes and the length of the text in 4, then the text. The length and the size of the
  head are added in 32 bits.\<close>

definition header_sendJson :: "(json \<Rightarrow> string) \<Rightarrow> u16 \<Rightarrow> json \<Rightarrow> cxx_error + bytes" where
  "header_sendJson dump head js =
     map_sum id (ser_block \<circ> snd)
       (ser_items [I16 head, I32 (of_nat (length (dump js))), IBytes (to_bytes (dump js))] (ser_new_vector [] Big))"

definition header_onRecvData :: "(string \<Rightarrow> json option) \<Rightarrow> u16 \<Rightarrow> bool \<Rightarrow> bool \<Rightarrow> bytes ptr \<Rightarrow> recv_result" where
  "header_onRecvData parse head q r p = (case p of
       None \<Rightarrow> Inl AssertFail
     | Some d \<Rightarrow>
         if length d < 6 then Inr (0, [])
         else (case des_fetch16 (des_new d (of_nat (length d)) Big) of
           Inl e \<Rightarrow> Inl e
         | Inr (magic, d1) \<Rightarrow> (case des_fetch32 d1 of
             Inl e \<Rightarrow> Inl e
           | Inr (len, d2) \<Rightarrow>
               (let n = (case len of Some x \<Rightarrow> x | None \<Rightarrow> 0)
                in if (case magic of Some x \<Rightarrow> x | None \<Rightarrow> 0) \<noteq> head then Inr (- 2, [])
                   else if unat (n + 6) > length d then Inr (0, [])
                   else (case des_fetchNoCopy (ucast n) d2 of
                     (None, d3) \<Rightarrow> Inl NullDeref
                   | (Some off, d3) \<Rightarrow>
                       if unat off + unat n \<le> length d
                       then deliver_text parse q r (to_text (mem_slice d (unat off) (unat n))) (uint (des_pos d3))
                       else Inl OutOfRange)))))"

section \<open>Messages are read back\<close>

lemma word_of_sint [simp]: "word_of_int (sint (k :: i32)) = k"
  by simp

lemma request_read: "onRecvJson True r (request_json i method params) = [MsgRequest i method params]"
  by (auto simp: request_json_def onRecvObject_def GetField_def contains_def at_field_def get_string_def get_int_def)

lemma result_read: "onRecvJson q True (result_json i result) = [MsgRespond i 0 result]"
  by (simp add: result_json_def onRecvObject_def GetField_def contains_def at_field_def get_string_def get_int_def)

lemma error_read: "onRecvJson q True (error_json i errcode message) = [MsgRespond i errcode JNull]"
  by (simp add: error_json_def onRecvObject_def GetField_def contains_def at_field_def get_string_def get_int_def)

lemma text_bytes [simp]: "to_text (to_bytes s) = s" "length (to_bytes s) = length s" "length (to_text d) = length d"
proof -
  have "char_of (unat (of_nat (code c) :: u8)) = c" for c
    by (simp add: unat_of_nat)
  then show "to_text (to_bytes s) = s" by (simp add: to_text_def to_bytes_def comp_def map_idI)
qed (simp_all add: to_text_def to_bytes_def)

lemma to_text_simps: "to_text (a @ b) = to_text a @ to_text b" "to_text (take n a) = take n (to_text a)"
  by (simp_all add: to_text_def take_map)

section \<open>Frames are read back\<close>

lemma header_frame:
  assumes "length (dump js) + 6 \<le> vector_max"
  shows "header_sendJson dump head js =
     Inr (rev (shift_out 2 head) @ rev (shift_out 4 (of_nat (length (dump js)) :: u32)) @ to_bytes (dump js))"
proof -
  let ?its = "[I16 head, I32 (of_nat (length (dump js))), IBytes (to_bytes (dump js))]"
  have "\<exists>s'. ser_items ?its (ser_new_vector [] Big) = Inr (True, s') \<and> vec_at ([] @ encode_all (ser_endian (ser_new_vector [] Big)) ?its) s'"
    by (rule ser_items_vec) (use assms in \<open>simp_all add: vec_at_def ser_new_vector_def\<close>)
  then obtain s' where "ser_items ?its (ser_new_vector [] Big) = Inr (True, s')" "vec_at (encode_all Big ?its) s'"
    by (auto simp: ser_new_vector_def)
  then show ?thesis by (simp add: header_sendJson_def vec_at_def in_order_def)
qed

text \<open>What the head of six bytes says.\<close>

lemma header_read:
  assumes "length d \<le> vector_max" and "d = rev (shift_out 2 head) @ rev (shift_out 4 (n :: u32)) @ body"
  shows "\<exists>d1 d2. des_fetch16 (des_new d (of_nat (length d)) Big) = Inr (Some head, d1) \<and> des_fetch32 d1 = Inr (Some n, d2) \<and>
     des_at 6 d2 \<and> des_mem d2 = d"
proof -
  let ?d0 = "des_new d (of_nat (length d)) Big"
  have 0: "des_at 0 ?d0" "des_mem ?d0 = d" "des_endian ?d0 = Big" using assms(1) by (simp_all add: des_at_def des_new_def)
  have dr: "drop 0 (des_mem ?d0) = in_order (des_endian ?d0) (shift_out 2 head) @ rev (shift_out 4 n) @ body"
    unfolding 0(2,3) by (simp add: in_order_def assms(2))
  obtain d1 where d1': "des_word (of_nat 2) ?d0 = Inr (Some head, d1)" "des_at (0 + 2) d1" "des_mem d1 = des_mem ?d0"
    "des_endian d1 = des_endian ?d0" using des_word_at [OF 0(1) dr shift_in_out_16] by blast
  have d1: "des_fetch16 ?d0 = Inr (Some head, d1)" "des_at 2 d1" "des_mem d1 = d" "des_endian d1 = Big"
    using d1' unfolding des_fetch16_def 0(2,3) by (simp_all only: of_nat_numeral add_0)
  have "drop 2 (des_mem d1) = in_order (des_endian d1) (shift_out 4 n) @ body" using d1(3,4) assms(2) by (simp add: in_order_def)
  from des_word_at [OF d1(2) this shift_in_out_32] obtain d2 where "des_fetch32 d1 = Inr (Some n, d2)" "des_at 6 d2" "des_mem d2 = d"
    using d1(3) by (auto simp: des_fetch32_def)
  then show ?thesis using d1(1) by blast
qed

lemma header_receive:
  assumes "length d \<le> vector_max" and "d = rev (shift_out 2 head) @ rev (shift_out 4 (of_nat m :: u32)) @ body" and "m < 4294967290"
  shows "header_onRecvData parse head q r (Some d) =
     (if m > length body then Inr (0, []) else deliver_text parse q r (to_text (take m body)) (int (m + 6)))"
proof -
  let ?n = "of_nat m :: u32"
  obtain d1 d2 where d: "des_fetch16 (des_new d (of_nat (length d)) Big) = Inr (Some head, d1)" "des_fetch32 d1 = Inr (Some ?n, d2)"
    "des_at 6 d2" "des_mem d2 = d" using header_read [OF assms(1,2)] by blast
  have len: "length d = 6 + length body" using assms(2) by simp
  have "?n + 6 = of_nat (m + 6)" by simp
  then have n6: "unat (?n + 6) = m + 6" using assms(3) by (simp only: unat_of_nat) (simp add: take_bit_nat_eq_self)
  have n: "unat ?n = m" using assms(3) by (simp add: unat_of_nat take_bit_nat_eq_self)
  have "unat (ucast ?n :: usize) = m" using assms(3) by (simp add: unsigned_ucast_eq n take_bit_nat_eq_self)
  then have un: "(ucast ?n :: usize) = of_nat m" by (rule word_of_unat)
  show ?thesis
  proof (cases "m > length body")
    case True
    then have c: "\<not> length d < 6" "length d < unat (?n + 6)" using len n6 by simp_all
    show ?thesis using d(1,2) c True unfolding header_onRecvData_def Let_def by simp
  next
    case False
    have p: "des_pos d2 = 6" "des_size d2 = of_nat (length d)" using d(3,4) by (simp_all add: des_at_def)
    have e: "(6 :: usize) + of_nat m = of_nat (m + 6)" by simp
    have "of_nat (m + 6) \<le> (of_nat (length d) :: usize)" using of_nat_le_usize [of "m + 6" "length d"] False len assms(1) by simp
    then have "des_checkSize (of_nat m) d2" unfolding des_checkSize_def p e .
    then have f: "des_fetchNoCopy (ucast ?n) d2 = (Some 6, d2\<lparr>des_pos := of_nat (m + 6)\<rparr>)" unfolding un by (simp add: des_fetchNoCopy_def p)
    have sl: "mem_slice d 6 m = take m body" using assms(2) by (simp add: mem_slice_def)
    have "unat (of_nat (m + 6) :: usize) = m + 6" by (rule unat_of_nat_u64) (use assms(3) in simp)
    then have up: "uint (of_nat (m + 6) :: usize) = int (m + 6)" by (simp only: uint_nat)
    have c: "\<not> length d < 6" "\<not> length d < unat (?n + 6)" "unat (6 :: usize) + unat ?n \<le> length d" using len n6 n False by simp_all
    have pos: "des_pos (d2\<lparr>des_pos := of_nat (m + 6)\<rparr>) = of_nat (m + 6)" by simp
    have u6: "unat (6 :: usize) = 6" by simp
    show ?thesis unfolding header_onRecvData_def Let_def option.case if_not_P [OF c(1)] d(1,2) sum.case prod.case f
      if_not_P [OF c(2)] if_P [OF c(3)] using False unfolding u6 n sl pos up by simp
  qed
qed

lemma header_back:
  assumes "parse (dump js) = Some js" and "length (dump js) < 2147483648" and "length (dump js) + 6 + length rest \<le> vector_max"
  shows "\<exists>fr. header_sendJson dump head js = Inr fr \<and>
     header_onRecvData parse head q r (Some (fr @ rest)) = Inr (int (length fr), onRecvJson q r js)"
proof -
  let ?m = "length (dump js)" and ?b = "to_bytes (dump js)"
  let ?h = "rev (shift_out 2 head) @ rev (shift_out 4 (of_nat ?m :: u32))"
  have "header_onRecvData parse head q r (Some (?h @ ?b @ rest)) = deliver_text parse q r (to_text (take ?m (?b @ rest))) (int (?m + 6))"
    using header_receive [of "?h @ ?b @ rest" head ?m "?b @ rest" parse q r] assms(2,3) by simp
  then have "header_onRecvData parse head q r (Some ((?h @ ?b) @ rest)) = Inr (int (length (?h @ ?b)), onRecvJson q r js)"
    using assms(1) by (simp add: deliver_text_def)
  then show ?thesis using header_frame [of dump js head] assms(3) by simp
qed

lemma header_wait:
  assumes "n < 6 + m" and "m < 4294967290" and "length body = m" and "6 + m \<le> vector_max"
  shows "header_onRecvData parse head q r (Some (take n (rev (shift_out 2 head) @ rev (shift_out 4 (of_nat m :: u32)) @ body))) = Inr (0, [])"
proof (cases "n < 6")
  case True
  then have c: "length (take n (rev (shift_out 2 head) @ rev (shift_out 4 (of_nat m :: u32)) @ body)) < 6" unfolding length_take by linarith
  show ?thesis unfolding header_onRecvData_def option.case if_P [OF c] ..
next
  case False
  let ?d = "rev (shift_out 2 head) @ rev (shift_out 4 (of_nat m :: u32)) @ take (n - 6) body"
  have t: "take n (rev (shift_out 2 head) @ rev (shift_out 4 (of_nat m :: u32)) @ body) = ?d" using False by simp
  have "length ?d \<le> vector_max" "m > length (take (n - 6) body)" using assms False by simp_all
  then show ?thesis unfolding t using header_receive [OF _ refl assms(2), of head "take (n - 6) body" parse q r] by simp
qed

text \<open>
  (C28) Framing. A message sent with a head, or as a bare text, is read back from the front of the stream, whatever follows it: exactly
  its own bytes are consumed and the message is delivered once; and while a part of it is missing nothing is consumed or delivered.
  Only what the JSON library documents is assumed: what it prints it parses back, as a text of balanced brackets.
\<close>

theorem framing_roundtrip:
  assumes "parse (dump js) = Some js" and "json_text (dump js)" and "length (dump js) < 2147483648"
    and "length (dump js) + 6 + length rest \<le> vector_max"
  shows "\<exists>fr. header_sendJson dump head js = Inr fr \<and>
     header_onRecvData parse head q r (Some (fr @ rest)) = Inr (int (length fr), onRecvJson q r js) \<and>
     raw_onRecvData parse q r (Some (raw_sendJson dump js @ rest)) = Inr (int (length (raw_sendJson dump js)), onRecvJson q r js) \<and>
     (n < length fr \<longrightarrow> header_onRecvData parse head q r (Some (take n fr)) = Inr (0, [])) \<and>
     (n < length (raw_sendJson dump js) \<longrightarrow> raw_onRecvData parse q r (Some (take n (raw_sendJson dump js))) = Inr (0, []))"
proof -
  let ?m = "length (dump js)" and ?b = "to_bytes (dump js)"
  let ?h = "rev (shift_out 2 head) @ rev (shift_out 4 (of_nat ?m :: u32))"
  have fr: "header_sendJson dump head js = Inr (?h @ ?b)" using header_frame [of dump js head] assms(4) by simp
  have m: "?m < 4294967290" using assms(3) by simp
  have "header_onRecvData parse head q r (Some (?h @ ?b @ rest)) = deliver_text parse q r (to_text (take ?m (?b @ rest))) (int (?m + 6))"
    using header_receive [of "?h @ ?b @ rest" head ?m "?b @ rest" parse q r] m assms(4) by simp
  then have 1: "header_onRecvData parse head q r (Some ((?h @ ?b) @ rest)) = Inr (int (length (?h @ ?b)), onRecvJson q r js)"
    using assms(1) by (simp add: deliver_text_def)
  have 2: "n < length (?h @ ?b) \<Longrightarrow> header_onRecvData parse head q r (Some (take n (?h @ ?b))) = Inr (0, [])"
    using header_wait [of n ?m ?b parse head q r] m assms(4) by simp
  have two: "2 \<le> ?m"
  proof -
    obtain c where "bracketed c" "dump js = chunk_text c" using assms(2) by (auto simp: json_text_def)
    then show ?thesis by (cases c) simp_all
  qed
  have ne: "dump js \<noteq> []" using two by auto
  have end_pos: "FindEndPos (dump js @ to_text rest) = int ?m" and part: "n < ?m \<Longrightarrow> FindEndPos (take n (dump js)) = 0"
    using find_end [OF assms(2), of "[]"] find_end_part [OF assms(2), of "[]" n] assms(3) by simp_all
  have 3: "raw_onRecvData parse q r (Some (raw_sendJson dump js @ rest)) = Inr (int (length (raw_sendJson dump js)), onRecvJson q r js)"
    using two ne end_pos assms(1) by (simp add: raw_onRecvData_def raw_sendJson_def to_text_simps Let_def deliver_text_def)
  have 4: "n < length (raw_sendJson dump js) \<Longrightarrow> raw_onRecvData parse q r (Some (take n (raw_sendJson dump js))) = Inr (0, [])"
    using part by (simp add: raw_onRecvData_def raw_sendJson_def to_text_simps Let_def)
  show ?thesis using fr 1 2 3 4 by blast
qed

lemma framing_roundtrip_witness:
  "\<exists>dump parse js fr. js = request_json 1 ''f'' JNull \<and> header_sendJson dump 0x4D5A js = Inr fr \<and>
     header_onRecvData parse 0x4D5A True True (Some (fr @ [7, 8])) = Inr (int (length fr), [MsgRequest 1 ''f'' JNull]) \<and>
     raw_onRecvData parse True True (Some (take 2 (raw_sendJson dump js))) = Inr (0, [])"
proof -
  let ?js = "request_json 1 ''f'' JNull" and ?dump = "\<lambda>_ :: json. ''{1}''" and ?parse = "\<lambda>_ :: string. Some (request_json 1 ''f'' JNull)"
  have "json_text (?dump ?js)" unfolding json_text_def by (rule exI [of _ "Br [Plain CHR ''1'']"]) simp
  from framing_roundtrip [where parse = ?parse and dump = ?dump and js = ?js and rest = "[7, 8]" and head = "0x4D5A" and q = True and r = True
      and n = 2, OF refl this]
  obtain fr where "header_sendJson ?dump 0x4D5A ?js = Inr fr"
    "header_onRecvData ?parse 0x4D5A True True (Some (fr @ [7, 8])) = Inr (int (length fr), onRecvJson True True ?js)"
    "2 < length (raw_sendJson ?dump ?js) \<longrightarrow> raw_onRecvData ?parse True True (Some (take 2 (raw_sendJson ?dump ?js))) = Inr (0, [])"
    by (auto simp: vector_max_def)
  then show ?thesis unfolding request_read
    by (intro exI [of _ ?dump] exI [of _ ?parse] exI [of _ ?js] exI [of _ fr]) (simp add: raw_sendJson_def)
qed

text \<open>
  The length in the head is not checked against overflow: for every length of at least \<open>0xFFFFFFFA\<close> the sum with the six bytes of
  the head wraps around, the test that more bytes are needed fails, \<open>fetchNoCopy\<close> returns the null pointer and a string is made
  from it. Six bytes from the peer are enough.
\<close>

theorem header_length_wraps:
  assumes "4294967290 \<le> unat n" and "length rest < 4294967290"
  shows "header_onRecvData parse head q r (Some (rev (shift_out 2 head) @ rev (shift_out 4 (n :: u32)) @ rest)) = Inl NullDeref"
proof -
  let ?d = "rev (shift_out 2 head) @ rev (shift_out 4 n) @ rest"
  have len: "length ?d = 6 + length rest" "length ?d \<le> vector_max" using assms(2) by (simp_all add: vector_max_def)
  obtain d1 d2 where d: "des_fetch16 (des_new ?d (of_nat (length ?d)) Big) = Inr (Some head, d1)" "des_fetch32 d1 = Inr (Some n, d2)"
    "des_at 6 d2" "des_mem d2 = ?d" using header_read [OF len(2) refl] by blast
  have n: "unat n < 4294967296" using unsigned_less [of n] by simp
  have "unat (n + 6) = (unat n + unat (6 :: u32)) mod 2 ^ 32" using unat_word_ariths(1) [of n 6] by simp
  then have "unat (n + 6) \<le> length ?d" using n assms(1) len(1) by (auto simp: mod_if)
  then have c: "\<not> length ?d < 6" "\<not> length ?d < unat (n + 6)" using len(1) by linarith+
  have p: "des_pos d2 = of_nat 6" "des_size d2 = of_nat (length ?d)" using d(3,4) unfolding des_at_def by simp_all
  have u: "unat (ucast n :: usize) = unat n" using n by (simp add: unsigned_ucast_eq take_bit_nat_eq_self)
  have "unat (of_nat 6 + ucast n :: usize) = (unat (of_nat 6 :: usize) + unat (ucast n :: usize)) mod 2 ^ 64"
    using unat_word_ariths(1) [of "of_nat 6 :: usize" "ucast n"] by simp
  then have "unat (of_nat 6 + ucast n :: usize) = 6 + unat n" unfolding u using n by simp
  moreover have "unat (of_nat (length ?d) :: usize) = 6 + length rest" using unat_len [OF len(2)] len(1) by simp
  ultimately have "\<not> des_checkSize (ucast n) d2" unfolding des_checkSize_def p word_le_nat_alt using assms by linarith
  then have f: "des_fetchNoCopy (ucast n) d2 = (None, d2)" by (simp add: des_fetchNoCopy_def)
  show ?thesis unfolding header_onRecvData_def Let_def option.case if_not_P [OF c(1)] d(1,2) sum.case prod.case f
      if_not_P [OF c(2)] by simp
qed

lemma header_length_wraps_witness:
  "header_onRecvData (\<lambda>_. None) 0x4D5A True True (Some (rev (shift_out 2 (0x4D5A :: u16)) @ rev (shift_out 4 (0xFFFFFFFA :: u32)) @ [])) = Inl NullDeref"
  by (rule header_length_wraps) simp_all

text \<open>A raw stream whose text can never end, because a bracket closes that was not opened, is not reported: the answer is the one for
  a text that has not come whole, and nothing of it is ever consumed.\<close>

lemma raw_error_waits:
  "raw_onRecvData parse q r (Some (to_bytes '']{}'' @ rest)) = Inr (0, [])"
proof -
  have "FindEndPos ('']{}'' @ to_text rest) = - 1"
    unfolding FindEndPos_def by (subst find_loop.simps)
      (simp add: scan_char_def scan_new_def count_bracket_def is_graph_def Let_def)
  then show ?thesis by (simp add: raw_onRecvData_def to_text_simps Let_def)
qed

end
