(* ===== verification/Rpc.thy ===== *)
theory Rpc
  imports Json_Proto Timeout_Monitor
begin

text \<open>
  The remote procedure calls of \<open>modules/jsonrpc/rpc.cpp\<close>: requests and their callbacks, services, answers given at
  once or later, and two timeout monitors. A callback is a name, a call of it is logged; a service is a function
  of the request. Neither calls the \<open>Rpc\<close>. Messages to send are collected as JSON values.
\<close>

section \<open>The state\<close>

type_synonym service = "i32 \<Rightarrow> json \<Rightarrow> bool \<times> i32 \<times> json"

record rpc =
  proto_set :: bool
  method_services :: "string \<Rightarrow> service ptr"
  id_alloc :: i32
  request_callback :: "i32 \<Rightarrow> nat option"
  tobe_respond :: "i32 set"
  request_timeout :: "i32 monitor"
  respond_timeout :: "i32 monitor"
  sent :: "json list"
  called :: "(nat \<times> i32 \<times> json) list"     \<comment> \<open>ghost: the callbacks called, with error code and result\<close>
  requested :: "(i32 \<times> nat) list"         \<comment> \<open>ghost: the requests made with a callback\<close>

definition kRequestTimeout :: i32 where
  "kRequestTimeout = - 32000"

definition kMethodNotFound :: i32 where
  "kMethodNotFound = - 32601"

definition rpc_new :: rpc where
  "rpc_new = \<lparr>proto_set = False, method_services = (\<lambda>_. None), id_alloc = 0, request_callback = Map.empty, tobe_respond = {},
     request_timeout = mon_setCallback mon_new, respond_timeout = mon_setCallback mon_new, sent = [], called = [], requested = []\<rparr>"

definition rpc_initialize :: "int \<Rightarrow> rpc \<Rightarrow> bool \<times> rpc" where
  "rpc_initialize timeout_sec s = (True, s\<lparr>request_timeout := snd (mon_initialize timeout_sec (request_timeout s)),
     respond_timeout := snd (mon_initialize timeout_sec (respond_timeout s)), proto_set := True\<rparr>)"

definition rpc_cleanup :: "rpc \<Rightarrow> cxx_error + rpc" where
  "rpc_cleanup s = (case mon_cleanup (respond_timeout s) of
       Inl e \<Rightarrow> Inl e
     | Inr m2 \<Rightarrow> (case mon_cleanup (request_timeout s) of
         Inl e \<Rightarrow> Inl e
       | Inr m1 \<Rightarrow>
           if proto_set s then Inr (s\<lparr>respond_timeout := m2, request_timeout := m1, tobe_respond := {}, request_callback := Map.empty,
              method_services := (\<lambda>_. None), proto_set := False\<rparr>)
           else Inl NullDeref))"

definition send :: "json \<Rightarrow> rpc \<Rightarrow> cxx_error + rpc" where
  "send js s = (if proto_set s then Inr (s\<lparr>sent := sent s @ [js]\<rparr>) else Inl NullDeref)"

section \<open>Requests\<close>

definition rpc_request :: "string \<Rightarrow> json \<Rightarrow> nat option \<Rightarrow> rpc \<Rightarrow> cxx_error + rpc" where
  "rpc_request method params cb s = (case cb of
       None \<Rightarrow> send (request_json 0 method params) s
     | Some c \<Rightarrow>
         (let k = id_alloc s + 1
          in case mon_add k (request_timeout s) of
               Inl e \<Rightarrow> Inl e
             | Inr m \<Rightarrow> send (request_json k method params)
                 (s\<lparr>id_alloc := k, request_callback := (request_callback s)(k \<mapsto> c), request_timeout := m, requested := requested s @ [(k, c)]\<rparr>)))"

definition rpc_notify :: "string \<Rightarrow> json \<Rightarrow> rpc \<Rightarrow> cxx_error + rpc" where
  "rpc_notify method params s = rpc_request method params None s"

definition addService :: "string \<Rightarrow> service ptr \<Rightarrow> rpc \<Rightarrow> rpc" where
  "addService method f s = s\<lparr>method_services := (method_services s)(method := f)\<rparr>"

text \<open>The three forms of \<open>respond\<close>.\<close>

definition respond_with :: "i32 \<Rightarrow> json \<Rightarrow> rpc \<Rightarrow> cxx_error + rpc" where
  "respond_with k js s = (if k = 0 then Inr s else map_sum id (\<lambda>s'. s'\<lparr>tobe_respond := tobe_respond s' - {k}\<rparr>) (send js s))"

definition rpc_respond :: "i32 \<Rightarrow> i32 \<Rightarrow> json \<Rightarrow> rpc \<Rightarrow> cxx_error + rpc" where
  "rpc_respond k errcode js_result s =
     respond_with k (if errcode = 0 then result_json k js_result else error_json k errcode []) s"

definition respond_result :: "i32 \<Rightarrow> json \<Rightarrow> rpc \<Rightarrow> cxx_error + rpc" where
  "respond_result k js_result s = respond_with k (result_json k js_result) s"

definition respond_error :: "i32 \<Rightarrow> i32 \<Rightarrow> rpc \<Rightarrow> cxx_error + rpc" where
  "respond_error k errcode s = respond_with k (error_json k errcode []) s"

section \<open>What arrives\<close>

definition onRecvRequest :: "i32 \<Rightarrow> string \<Rightarrow> json \<Rightarrow> rpc \<Rightarrow> cxx_error + rpc" where
  "onRecvRequest k method params s = (case method_services s method of
       None \<Rightarrow> send (error_json k kMethodNotFound []) s
     | Some f \<Rightarrow>
         if k = 0 then Inr s
         else (let s1 = s\<lparr>tobe_respond := insert k (tobe_respond s)\<rparr>
               in case f k params of (now, errcode, result) \<Rightarrow>
                    if now then rpc_respond k errcode result s1
                    else map_sum id (\<lambda>m. s1\<lparr>respond_timeout := m\<rparr>) (mon_add k (respond_timeout s1))))"

definition finish_request :: "i32 \<Rightarrow> i32 \<Rightarrow> json \<Rightarrow> rpc \<Rightarrow> rpc" where
  "finish_request k errcode result s = (case request_callback s k of
       None \<Rightarrow> s
     | Some c \<Rightarrow> s\<lparr>called := called s @ [(c, errcode, result)], request_callback := (request_callback s)(k := None)\<rparr>)"

definition onRecvRespond :: "i32 \<Rightarrow> i32 \<Rightarrow> json \<Rightarrow> rpc \<Rightarrow> rpc" where
  "onRecvRespond k errcode result s = finish_request k errcode result s"

definition onRequestTimeout :: "i32 \<Rightarrow> rpc \<Rightarrow> rpc" where
  "onRequestTimeout k s = finish_request k kRequestTimeout JNull s"

definition onRespondTimeout :: "i32 \<Rightarrow> rpc \<Rightarrow> rpc" where
  "onRespondTimeout k s = s\<lparr>tobe_respond := tobe_respond s - {k}\<rparr>"

text \<open>The ticks of the two monitors, with the callbacks of the constructor.\<close>

definition request_tick :: "rpc \<Rightarrow> cxx_error + rpc" where
  "request_tick s =
     (if mon_timer (request_timeout s) then
        (case onTimerTick (\<lambda>_. []) (request_timeout s) of
           Inl e \<Rightarrow> Inl e
         | Inr m \<Rightarrow> Inr (fold onRequestTimeout (drop (length (handed (request_timeout s))) (handed m)) (s\<lparr>request_timeout := m\<rparr>)))
      else Inr s)"

definition respond_tick :: "rpc \<Rightarrow> cxx_error + rpc" where
  "respond_tick s =
     (if mon_timer (respond_timeout s) then
        (case onTimerTick (\<lambda>_. []) (respond_timeout s) of
           Inl e \<Rightarrow> Inl e
         | Inr m \<Rightarrow> Inr (fold onRespondTimeout (drop (length (handed (respond_timeout s))) (handed m)) (s\<lparr>respond_timeout := m\<rparr>)))
      else Inr s)"

fun rpc_recv :: "rpc_msg \<Rightarrow> rpc \<Rightarrow> cxx_error + rpc" where
  "rpc_recv (MsgRequest k method params) s = onRecvRequest k method params s"
| "rpc_recv (MsgRespond k errcode result) s = Inr (onRecvRespond k errcode result s)"

section \<open>Runs\<close>

datatype rpc_op = Request string json "nat option" | AddService string "service ptr" | Respond i32 i32 json | Recv rpc_msg | RequestTick | RespondTick

fun rpc_step :: "rpc_op \<Rightarrow> rpc \<Rightarrow> cxx_error + rpc" where
  "rpc_step (Request method params cb) s = rpc_request method params cb s"
| "rpc_step (AddService method f) s = Inr (addService method f s)"
| "rpc_step (Respond k errcode result) s = rpc_respond k errcode result s"
| "rpc_step (Recv m) s = rpc_recv m s"
| "rpc_step RequestTick s = request_tick s"
| "rpc_step RespondTick s = respond_tick s"

fun rpc_run :: "rpc_op list \<Rightarrow> rpc \<Rightarrow> cxx_error + rpc" where
  "rpc_run [] s = Inr s"
| "rpc_run (x # xs) s = (case rpc_step x s of Inl e \<Rightarrow> Inl e | Inr s' \<Rightarrow> rpc_run xs s')"

definition rpc_start :: "nat \<Rightarrow> rpc" where
  "rpc_start n = snd (rpc_initialize (int n) rpc_new)"

end
