(* ===== verification/Rpc_Props.thy ===== *)
theory Rpc_Props
  imports Rpc
begin

text \<open>
  Every request made with a callback is settled: its callback is called once, with the answer or with the timeout.
  And a call from one peer reaches the service of the other and comes back.
\<close>

section \<open>The invariant\<close>

text \<open>The callbacks that wait, in the order of the requests.\<close>

definition outstanding :: "rpc \<Rightarrow> nat list" where
  "outstanding s = map snd (filter (\<lambda>(k, c). request_callback s k \<noteq> None) (requested s))"

definition rpc_ok :: "nat \<Rightarrow> rpc \<Rightarrow> i32 deadlines \<Rightarrow> i32 deadlines \<Rightarrow> bool" where
  "rpc_ok n s d1 d2 \<longleftrightarrow> mon_is n (request_timeout s) d1 \<and> mon_cb (request_timeout s) \<and> mon_is n (respond_timeout s) d2 \<and>
     mon_cb (respond_timeout s) \<and> proto_set s \<and> dom (request_callback s) \<subseteq> fst ` set d1 \<and>
     map fst (requested s) = map of_nat [1..<Suc (length (requested s))] \<and> id_alloc s = of_nat (length (requested s)) \<and>
     (\<forall>k c. request_callback s k = Some c \<longrightarrow> (k, c) \<in> set (requested s)) \<and>
     mset (map snd (requested s)) = mset (map fst (called s)) + mset (outstanding s)"

lemma rpc_okD:
  assumes "rpc_ok n s d1 d2"
  shows "mon_is n (request_timeout s) d1" "mon_cb (request_timeout s)" "mon_is n (respond_timeout s) d2" "mon_cb (respond_timeout s)"
    "proto_set s" "dom (request_callback s) \<subseteq> fst ` set d1" "map fst (requested s) = map of_nat [1..<Suc (length (requested s))]"
    "id_alloc s = of_nat (length (requested s))" "request_callback s k = Some c \<Longrightarrow> (k, c) \<in> set (requested s)"
    "mset (map snd (requested s)) = mset (map fst (called s)) + mset (outstanding s)"
  using assms unfolding rpc_ok_def by blast+

lemma rpc_ok_frame:
  assumes "rpc_ok n s d1 d2"
  shows "rpc_ok n (s\<lparr>sent := js\<rparr>) d1 d2" "rpc_ok n (s\<lparr>method_services := ms\<rparr>) d1 d2" "rpc_ok n (s\<lparr>tobe_respond := ks\<rparr>) d1 d2"
  using assms by (simp_all add: rpc_ok_def outstanding_def)

lemma of_nat_inj: "i < 4294967296 \<Longrightarrow> j < 4294967296 \<Longrightarrow> (of_nat i :: i32) = of_nat j \<longleftrightarrow> i = j"
  by (auto simp: word_unat_eq_iff unat_of_nat take_bit_nat_eq_self)

lemma ids_distinct:
  assumes "map fst xs = map (of_nat :: nat \<Rightarrow> i32) [1..<Suc (length xs)]" and "length xs < 4294967295"
  shows "distinct (map fst xs)" and "of_nat (Suc (length xs)) \<notin> fst ` set xs"
proof -
  show "distinct (map fst xs)"
    unfolding assms(1) distinct_map using assms(2) by (auto simp: inj_on_def of_nat_inj)
  show "of_nat (Suc (length xs)) \<notin> fst ` set xs"
  proof
    assume "of_nat (Suc (length xs)) \<in> fst ` set xs"
    then have "of_nat (Suc (length xs)) \<in> set (map (of_nat :: nat \<Rightarrow> i32) [1..<Suc (length xs)])" using assms(1) by (metis list.set_map)
    then obtain j where j: "j \<in> set [1..<Suc (length xs)]" "(of_nat (Suc (length xs)) :: i32) = of_nat j" unfolding set_map image_iff by blast
    then have "j < Suc (length xs)" unfolding set_upt by simp
    with j(2) show False using of_nat_inj [of "Suc (length xs)" j] assms(2) by simp
  qed
qed

text \<open>A request that is settled leaves the ones that wait.\<close>

lemma filter_settled:
  assumes "distinct (map fst xs)" and "(k, c) \<in> set xs" and "m k \<noteq> None"
  shows "mset (map snd (filter (\<lambda>(j, c). m j \<noteq> None) xs)) = add_mset c (mset (map snd (filter (\<lambda>(j, c). (m(k := None)) j \<noteq> None) xs)))"
  using assms(1,2)
proof (induction xs)
  case (Cons x xs)
  obtain j b where x: "x = (j, b)" by (rule prod.exhaust)
  show ?case
  proof (cases "j = k")
    case True
    have "k \<notin> fst ` set xs" using Cons.prems(1) x True by simp
    then have same: "filter (\<lambda>(j, c). (m(k := None)) j \<noteq> None) xs = filter (\<lambda>(j, c). m j \<noteq> None) xs" by (intro filter_cong) force+
    have "b = c" using Cons.prems x True by (auto simp: image_iff)
    then show ?thesis using x True assms(3) same by simp
  next
    case False
    then have "(k, c) \<in> set xs" "distinct (map fst xs)" using Cons.prems x by auto
    then show ?thesis using Cons.IH x False by auto
  qed
qed simp

lemma rpc_finish_ok:
  assumes ok: "rpc_ok n s d1 d2" and few: "length (requested s) < 4294967295"
  shows "rpc_ok n (finish_request k e r s) d1 d2 \<and> requested (finish_request k e r s) = requested s \<and>
     request_callback (finish_request k e r s) = (request_callback s)(k := None)"
proof (cases "request_callback s k")
  case None
  then have "finish_request k e r s = s" "(request_callback s)(k := None) = request_callback s" by (auto simp: finish_request_def)
  then show ?thesis using ok by simp
next
  case (Some c)
  note i = rpc_okD [OF ok]
  let ?s = "s\<lparr>called := called s @ [(c, e, r)], request_callback := (request_callback s)(k := None)\<rparr>"
  have s: "finish_request k e r s = ?s" using Some by (simp add: finish_request_def)
  have "mset (outstanding s) = add_mset c (mset (outstanding ?s))"
    using filter_settled [OF ids_distinct(1) [OF i(7) few] i(9) [OF Some], of "request_callback s"] Some by (simp add: outstanding_def)
  then have "mset (map snd (requested ?s)) = mset (map fst (called ?s)) + mset (outstanding ?s)" using i(10) by simp
  moreover have "dom (request_callback ?s) \<subseteq> fst ` set d1" using i(6) by auto
  moreover have "request_callback ?s j = Some b \<Longrightarrow> (j, b) \<in> set (requested ?s)" for j b using i(9) by (auto split: if_splits)
  ultimately have "rpc_ok n ?s d1 d2" using i unfolding rpc_ok_def by simp
  then show ?thesis unfolding s by simp
qed

section \<open>Steps\<close>

text \<open>Where an answer comes from: the timeout, or a message that arrived for the request of that callback.\<close>

definition answer_from :: "(i32 \<times> nat) list \<Rightarrow> rpc_msg set \<Rightarrow> nat \<times> i32 \<times> json \<Rightarrow> bool" where
  "answer_from rq ms x = (case x of (c, e, r) \<Rightarrow> (e = kRequestTimeout \<and> r = JNull) \<or> (\<exists>k. (k, c) \<in> set rq \<and> MsgRespond k e r \<in> ms))"

definition sourced :: "rpc_msg set \<Rightarrow> rpc \<Rightarrow> bool" where
  "sourced ms s \<longleftrightarrow> list_all (answer_from (requested s) ms) (called s)"

lemma sourced_mono:
  "sourced ms s \<Longrightarrow> called s' = called s \<Longrightarrow> set (requested s) \<subseteq> set (requested s') \<Longrightarrow> ms \<subseteq> ms' \<Longrightarrow> sourced ms' s'"
  unfolding sourced_def answer_from_def list_all_iff by fastforce

lemma send_cases: "proto_set s \<Longrightarrow> send js s = Inr (s\<lparr>sent := sent s @ [js]\<rparr>)"
  by (simp add: send_def)

lemma respond_ok:
  assumes "rpc_ok n s d1 d2"
  shows "\<exists>s'. respond_with k js s = Inr s' \<and> rpc_ok n s' d1 d2 \<and> requested s' = requested s \<and> called s' = called s"
proof (cases "k = 0")
  case False
  have "respond_with k js s = Inr (s\<lparr>sent := sent s @ [js], tobe_respond := tobe_respond s - {k}\<rparr>)"
    using False rpc_okD(5) [OF assms] by (simp add: respond_with_def send_cases)
  moreover have "rpc_ok n (s\<lparr>sent := sent s @ [js], tobe_respond := tobe_respond s - {k}\<rparr>) d1 d2"
    by (rule rpc_ok_frame(3) [OF rpc_ok_frame(1) [OF assms]])
  ultimately show ?thesis by simp
qed (use assms in \<open>simp add: respond_with_def\<close>)

lemma request_ok:
  assumes ok: "rpc_ok n s d1 d2" and few: "length (requested s) < 4294967295"
  shows "\<exists>s' k. rpc_request m p (Some c) s = Inr s' \<and> rpc_ok n s' (d1 @ [(k, n)]) d2 \<and> requested s' = requested s @ [(k, c)] \<and>
     called s' = called s \<and> k \<noteq> 0 \<and> request_callback s' k = Some c \<and> sent s' = sent s @ [request_json k m p]"
proof -
  note i = rpc_okD [OF ok]
  let ?k = "id_alloc s + 1"
  have k: "?k = of_nat (Suc (length (requested s)))" using i(8) by simp
  obtain m1 where m1: "mon_add ?k (request_timeout s) = Inr m1" "mon_is n m1 (d1 @ [(?k, n)])" "mon_cb m1"
    using add_is [OF i(1), of ?k] i(2) by auto
  let ?s = "s\<lparr>id_alloc := ?k, request_callback := (request_callback s)(?k \<mapsto> c), request_timeout := m1, requested := requested s @ [(?k, c)],
     sent := sent s @ [request_json ?k m p]\<rparr>"
  have st: "rpc_request m p (Some c) s = Inr ?s" using m1(1) i(5) by (simp add: rpc_request_def Let_def send_def)
  have new: "?k \<notin> fst ` set (requested s)" using ids_distinct(2) [OF i(7) few] unfolding k .
  have nz: "?k \<noteq> 0" using of_nat_inj [of "Suc (length (requested s))" 0] few unfolding k by simp
  have "filter (\<lambda>(j, b). ((request_callback s)(?k \<mapsto> c)) j \<noteq> None) (requested s) = filter (\<lambda>(j, b). request_callback s j \<noteq> None) (requested s)"
    using new by (intro filter_cong) force+
  then have "outstanding ?s = outstanding s @ [c]" unfolding outstanding_def by simp
  then have "mset (map snd (requested ?s)) = mset (map fst (called ?s)) + mset (outstanding ?s)" using i(10) by simp
  moreover have "map fst (requested ?s) = map of_nat [1..<Suc (length (requested ?s))]" using i(7) k by simp
  moreover have "dom (request_callback ?s) \<subseteq> fst ` set (d1 @ [(?k, n)])" using i(6) by auto
  moreover have "request_callback ?s j = Some b \<Longrightarrow> (j, b) \<in> set (requested ?s)" for j b using i(9) by (auto split: if_splits)
  ultimately have "rpc_ok n ?s (d1 @ [(?k, n)]) d2" using i m1 k unfolding rpc_ok_def by simp
  then show ?thesis using st nz by (intro exI [of _ ?s] exI [of _ ?k]) simp
qed

lemma rpc_timeouts_ok:
  assumes "rpc_ok n s d1 d2" and "length (requested s) < 4294967295" and "sourced ms s"
  shows "rpc_ok n (fold onRequestTimeout ks s) d1 d2 \<and> requested (fold onRequestTimeout ks s) = requested s \<and>
     request_callback (fold onRequestTimeout ks s) = request_callback s |` (- set ks) \<and> sourced ms (fold onRequestTimeout ks s)"
  using assms
proof (induction ks arbitrary: s)
  case Nil
  then show ?case by (simp add: restrict_map_def)
next
  case (Cons k ks)
  let ?s = "onRequestTimeout k s"
  have s: "rpc_ok n ?s d1 d2" "requested ?s = requested s" "request_callback ?s = (request_callback s)(k := None)"
    using rpc_finish_ok [OF Cons.prems(1,2), of k kRequestTimeout JNull] by (simp_all add: onRequestTimeout_def)
  have "sourced ms ?s" using Cons.prems(3)
    by (auto simp: sourced_def onRequestTimeout_def finish_request_def answer_from_def list_all_iff split: option.splits)
  note IH = Cons.IH [OF s(1) _ this, unfolded s(2,3), OF Cons.prems(2)]
  have "(request_callback s)(k := None) |` (- set ks) = request_callback s |` (- set (k # ks))"
    by (rule ext) (simp add: restrict_map_def)
  then show ?case using IH unfolding fold_simps comp_def by metis
qed

lemma request_tick_ok:
  assumes ok: "rpc_ok n s d1 d2" and few: "length (requested s) < 4294967295" and src: "sourced ms s"
  shows "\<exists>s'. request_tick s = Inr s' \<and> rpc_ok n s' (later d1) d2 \<and> requested s' = requested s \<and> sourced ms s'"
proof (cases "mon_timer (request_timeout s)")
  case False
  then have "d1 = []" using rpc_okD(1) [OF ok] by (auto simp: mon_is_def)
  then show ?thesis using False ok src by (simp add: request_tick_def later_def)
next
  case True
  note i = rpc_okD [OF ok]
  obtain m where m: "onTimerTick (\<lambda>_. []) (request_timeout s) = Inr m" "mon_is n m (later d1)"
      "handed m = handed (request_timeout s) @ due_now d1" "mon_cb m"
    using tick_is [OF i(1,2), of "\<lambda>_. []"] by (auto simp: concat_no_calls)
  let ?s = "fold onRequestTimeout (due_now d1) s"
  have t: "rpc_ok n ?s d1 d2" "requested ?s = requested s" "request_callback ?s = request_callback s |` (- set (due_now d1))" "sourced ms ?s"
    using rpc_timeouts_ok [OF ok few src] by blast+
  have com: "fold onRequestTimeout ks (s\<lparr>request_timeout := m\<rparr>) = (fold onRequestTimeout ks s)\<lparr>request_timeout := m\<rparr>" for ks s
  proof (induction ks arbitrary: s)
    case (Cons k ks)
    have "onRequestTimeout k (s\<lparr>request_timeout := m\<rparr>) = (onRequestTimeout k s)\<lparr>request_timeout := m\<rparr>"
      by (cases s) (simp add: onRequestTimeout_def finish_request_def split: option.splits)
    then show ?case using Cons by (simp only: fold_simps comp_def)
  qed simp
  have st: "request_tick s = Inr (?s\<lparr>request_timeout := m\<rparr>)" using True m(1,3) by (simp add: request_tick_def com)
  have "fst ` set d1 - set (due_now d1) \<subseteq> fst ` set (later d1)" by (rule later_covers)
  then have "dom (request_callback ?s) \<subseteq> fst ` set (later d1)" using i(6) unfolding t(3) dom_restrict by blast
  then have "rpc_ok n (?s\<lparr>request_timeout := m\<rparr>) (later d1) d2"
    using t(1) m(2,4) unfolding rpc_ok_def outstanding_def by simp
  moreover have "sourced ms (?s\<lparr>request_timeout := m\<rparr>)" using t(4) by (simp add: sourced_def)
  ultimately show ?thesis using st t(2) by simp
qed

lemma respond_tick_ok:
  assumes ok: "rpc_ok n s d1 d2"
  shows "\<exists>s'. respond_tick s = Inr s' \<and> rpc_ok n s' d1 (later d2) \<and> requested s' = requested s \<and> called s' = called s"
proof (cases "mon_timer (respond_timeout s)")
  case False
  then have "d2 = []" using rpc_okD(3) [OF ok] by (auto simp: mon_is_def)
  then show ?thesis using False ok by (simp add: respond_tick_def later_def)
next
  case True
  note i = rpc_okD [OF ok]
  obtain m where m: "onTimerTick (\<lambda>_. []) (respond_timeout s) = Inr m" "mon_is n m (later d2)" "mon_cb m"
    using tick_is [OF i(3,4), of "\<lambda>_. []"] by (auto simp: concat_no_calls)
  have f: "\<exists>ts. fold onRespondTimeout ks x = x\<lparr>tobe_respond := ts\<rparr>" for ks x
  proof (induction ks arbitrary: x)
    case Nil
    show ?case by (rule exI [of _ "tobe_respond x"]) simp
  next
    case (Cons k ks)
    obtain ts where "fold onRespondTimeout ks (onRespondTimeout k x) = (onRespondTimeout k x)\<lparr>tobe_respond := ts\<rparr>" using Cons by blast
    moreover have "(onRespondTimeout k x)\<lparr>tobe_respond := ts\<rparr> = x\<lparr>tobe_respond := ts\<rparr>" by (simp add: onRespondTimeout_def)
    ultimately show ?case by (intro exI [of _ ts]) (simp only: fold_simps comp_def)
  qed
  obtain ts where ts: "respond_tick s = Inr (s\<lparr>respond_timeout := m, tobe_respond := ts\<rparr>)"
    using f [of "drop (length (handed (respond_timeout s))) (handed m)" "s\<lparr>respond_timeout := m\<rparr>"] True m(1) by (auto simp: respond_tick_def)
  have "rpc_ok n (s\<lparr>respond_timeout := m, tobe_respond := ts\<rparr>) d1 (later d2)" using i m unfolding rpc_ok_def outstanding_def by simp
  then show ?thesis using ts by simp
qed

fun has_callback :: "rpc_op \<Rightarrow> bool" where
  "has_callback (Request m p (Some c)) = True"
| "has_callback _ = False"

definition arrived :: "rpc_op list \<Rightarrow> rpc_msg set" where
  "arrived xs = {m. Recv m \<in> set xs}"

lemma rpc_step_ok:
  assumes ok: "rpc_ok n s d1 d2" and few: "length (requested s) + (if has_callback x then 1 else 0) < 4294967295" and src: "sourced ms s"
  shows "\<exists>s' e1 e2. rpc_step x s = Inr s' \<and> rpc_ok n s' e1 e2 \<and> sourced (ms \<union> arrived [x]) s' \<and>
     length (requested s') = length (requested s) + (if has_callback x then 1 else 0) \<and>
     map snd (requested s') = map snd (requested s) @ (case x of Request m p (Some c) \<Rightarrow> [c] | _ \<Rightarrow> [])"
proof (cases x)
  case (Request m p cb)
  show ?thesis
  proof (cases cb)
    case None
    have "rpc_step x s = Inr (s\<lparr>sent := sent s @ [request_json 0 m p]\<rparr>)"
      using Request None rpc_okD(5) [OF ok] by (simp add: rpc_request_def send_def)
    moreover have "sourced (ms \<union> arrived [x]) (s\<lparr>sent := sent s @ [request_json 0 m p]\<rparr>)" by (rule sourced_mono [OF src]) auto
    ultimately show ?thesis using rpc_ok_frame(1) [OF ok] Request None by auto
  next
    case (Some c)
    obtain s' k where s': "rpc_request m p (Some c) s = Inr s'" "rpc_ok n s' (d1 @ [(k, n)]) d2" "requested s' = requested s @ [(k, c)]" "called s' = called s"
      using request_ok [OF ok, of m p c] few Request Some by auto
    have "sourced (ms \<union> arrived [x]) s'" by (rule sourced_mono [OF src s'(4)]) (use s'(3) in auto)
    then show ?thesis using s' Request Some by auto
  qed
next
  case (AddService m f)
  have "sourced (ms \<union> arrived [x]) (s\<lparr>method_services := (method_services s)(m := f)\<rparr>)" by (rule sourced_mono [OF src]) auto
  then show ?thesis using rpc_ok_frame(2) [OF ok] AddService by (auto simp: addService_def)
next
  case (Respond k e r)
  obtain s' where s': "rpc_step x s = Inr s'" "rpc_ok n s' d1 d2" "requested s' = requested s" "called s' = called s"
    using respond_ok [OF ok] Respond by (auto simp: rpc_respond_def)
  have "sourced (ms \<union> arrived [x]) s'" by (rule sourced_mono [OF src s'(4)]) (use s'(3) in auto)
  then show ?thesis using s' Respond by auto
next
  case (Recv msg)
  show ?thesis
  proof (cases msg)
    case (MsgRequest k m p)
    have "\<exists>s' e2. onRecvRequest k m p s = Inr s' \<and> rpc_ok n s' d1 e2 \<and> requested s' = requested s \<and> called s' = called s"
    proof (cases "method_services s m")
      case None
      then show ?thesis using rpc_ok_frame(1) [OF ok] rpc_okD(5) [OF ok] by (auto simp: onRecvRequest_def send_def)
    next
      case (Some f)
      let ?s1 = "s\<lparr>tobe_respond := insert k (tobe_respond s)\<rparr>"
      have ok1: "rpc_ok n ?s1 d1 d2" by (rule rpc_ok_frame(3) [OF ok])
      obtain now e r where f: "f k p = (now, e, r)" by (rule prod_cases3)
      show ?thesis
      proof (cases "k = 0 \<or> now")
        case True
        obtain s' where "respond_with k (if e = 0 then result_json k r else error_json k e []) ?s1 = Inr s'" "rpc_ok n s' d1 d2"
            "requested s' = requested s" "called s' = called s"
          using respond_ok [OF ok1, of k] by auto
        then show ?thesis using True Some f ok by (auto simp: onRecvRequest_def Let_def rpc_respond_def)
      next
        case False
        obtain m2 where m2: "mon_add k (respond_timeout ?s1) = Inr m2" "mon_is n m2 (d2 @ [(k, n)])" "mon_cb m2"
          using add_is [OF rpc_okD(3) [OF ok1], of k] rpc_okD(4) [OF ok1] by auto
        have "rpc_ok n (?s1\<lparr>respond_timeout := m2\<rparr>) d1 (d2 @ [(k, n)])"
          using ok m2(2,3) unfolding rpc_ok_def outstanding_def by simp
        moreover have "onRecvRequest k m p s = Inr (?s1\<lparr>respond_timeout := m2\<rparr>)"
          using False Some f m2(1) by (simp add: onRecvRequest_def Let_def)
        ultimately show ?thesis by (intro exI [of _ "?s1\<lparr>respond_timeout := m2\<rparr>"] exI [of _ "d2 @ [(k, n)]"]) simp
      qed
    qed
    then obtain s' e2 where s': "rpc_step x s = Inr s'" "rpc_ok n s' d1 e2" "requested s' = requested s" "called s' = called s"
      using Recv MsgRequest by auto
    have "sourced (ms \<union> arrived [x]) s'" by (rule sourced_mono [OF src s'(4)]) (use s'(3) in auto)
    then show ?thesis using s' Recv by auto
  next
    case (MsgRespond k e r)
    let ?s = "finish_request k e r s"
    have f: "rpc_ok n ?s d1 d2" "requested ?s = requested s" using rpc_finish_ok [OF ok, of k e r] few by auto
    have old: "sourced (ms \<union> arrived [x]) s" by (rule sourced_mono [OF src]) auto
    have "MsgRespond k e r \<in> arrived [x]" using Recv MsgRespond by (simp add: arrived_def)
    then have "answer_from (requested s) (ms \<union> arrived [x]) (c, e, r)" if "request_callback s k = Some c" for c
      using rpc_okD(9) [OF ok that] unfolding answer_from_def by auto
    then have "sourced (ms \<union> arrived [x]) ?s"
      using old f(2) by (auto simp: sourced_def finish_request_def split: option.splits)
    then show ?thesis using f Recv MsgRespond by (auto simp: onRecvRespond_def)
  qed
next
  case RequestTick
  obtain s' where s': "request_tick s = Inr s'" "rpc_ok n s' (later d1) d2" "requested s' = requested s" "sourced ms s'"
    using request_tick_ok [OF ok _ src] few by auto
  have "sourced (ms \<union> arrived [x]) s'" by (rule sourced_mono [OF s'(4)]) auto
  then show ?thesis using s' RequestTick by auto
next
  case RespondTick
  obtain s' where s': "respond_tick s = Inr s'" "rpc_ok n s' d1 (later d2)" "requested s' = requested s" "called s' = called s"
    using respond_tick_ok [OF ok] by blast
  have "sourced (ms \<union> arrived [x]) s'" by (rule sourced_mono [OF src s'(4)]) (use s'(3) in auto)
  then show ?thesis using s' RespondTick by auto
qed

section \<open>Runs\<close>

definition callbacks :: "rpc_op list \<Rightarrow> nat list" where
  "callbacks xs = concat (map (\<lambda>x. case x of Request m p (Some c) \<Rightarrow> [c] | _ \<Rightarrow> []) xs)"

lemma length_callbacks: "length (callbacks (x # xs)) = (if has_callback x then 1 else 0) + length (callbacks xs)"
  by (cases x rule: has_callback.cases) (simp_all add: callbacks_def)

lemma rpc_run_ok:
  assumes "rpc_ok n s d1 d2" and "sourced ms s" and "length (requested s) + length (callbacks xs) < 4294967295"
  shows "\<exists>s' e1 e2. rpc_run xs s = Inr s' \<and> rpc_ok n s' e1 e2 \<and> sourced (ms \<union> arrived xs) s' \<and>
     map snd (requested s') = map snd (requested s) @ callbacks xs"
  using assms
proof (induction xs arbitrary: s d1 d2 ms)
  case Nil
  then show ?case by (auto simp: arrived_def callbacks_def)
next
  case (Cons x xs)
  from rpc_step_ok [OF Cons.prems(1) _ Cons.prems(2), of x] Cons.prems(3) obtain s1 e1 e2 where
    s1: "rpc_step x s = Inr s1" "rpc_ok n s1 e1 e2" "sourced (ms \<union> arrived [x]) s1"
      "length (requested s1) = length (requested s) + (if has_callback x then 1 else 0)"
      "map snd (requested s1) = map snd (requested s) @ (case x of Request m p (Some c) \<Rightarrow> [c] | _ \<Rightarrow> [])"
    by (auto simp: length_callbacks split: if_splits)
  have "length (requested s1) + length (callbacks xs) < 4294967295" using Cons.prems(3) s1(4) by (simp add: length_callbacks)
  from Cons.IH [OF s1(2,3) this] obtain s' f1 f2 where s': "rpc_run xs s1 = Inr s'" "rpc_ok n s' f1 f2"
    "sourced (ms \<union> arrived [x] \<union> arrived xs) s'" "map snd (requested s') = map snd (requested s1) @ callbacks xs" by blast
  have "ms \<union> arrived [x] \<union> arrived xs = ms \<union> arrived (x # xs)" by (auto simp: arrived_def)
  then show ?case using s' s1(1,5) by (auto simp: callbacks_def)
qed

lemma rpc_start_ok:
  assumes "1 \<le> n"
  shows "rpc_ok n (rpc_start n) [] []" "sourced ms (rpc_start n)" "requested (rpc_start n) = []"
proof -
  obtain m where m: "mon_initialize (int n) (mon_setCallback mon_new :: i32 monitor) = (True, m)" "mon_is n m []" "mon_cb m"
    using initialize_is [of "mon_setCallback mon_new :: i32 monitor" n] assms by (auto simp: mon_new_def mon_setCallback_def)
  have s: "rpc_start n = rpc_new\<lparr>request_timeout := m, respond_timeout := m, proto_set := True\<rparr>"
    using m(1) by (simp add: rpc_start_def rpc_initialize_def rpc_new_def)
  show "rpc_ok n (rpc_start n) [] []" unfolding s using m(2,3) by (simp add: rpc_ok_def outstanding_def rpc_new_def)
  show "sourced ms (rpc_start n)" "requested (rpc_start n) = []" unfolding s by (simp_all add: sourced_def rpc_new_def)
qed

lemma outstanding_empty: "request_callback s = Map.empty \<Longrightarrow> outstanding s = []"
  by (simp add: outstanding_def)

lemma request_ticks:
  assumes "rpc_ok n s d1 d2" and "length (requested s) < 4294967295" and "sourced ms s" and "\<And>t k. (t, k) \<in> set d1 \<Longrightarrow> 1 \<le> k \<and> k \<le> j"
  shows "\<exists>s'. rpc_run (replicate j RequestTick) s = Inr s' \<and> rpc_ok n s' [] d2 \<and> requested s' = requested s"
  using assms
proof (induction j arbitrary: s d1)
  case 0
  then have "d1 = []" by (cases d1) force+
  then show ?case using 0(1) by simp
next
  case (Suc j)
  obtain s1 where s1: "request_tick s = Inr s1" "rpc_ok n s1 (later d1) d2" "requested s1 = requested s" "sourced ms s1"
    using request_tick_ok [OF Suc.prems(1,2,3)] by blast
  have "1 \<le> k \<and> k \<le> j" if "(t, k) \<in> set (later d1)" for t k
    using that Suc.prems(4) by (force simp: later_def)
  from Suc.IH [OF s1(2) _ s1(4) this] show ?case using s1(1,3) Suc.prems(2) by simp
qed



section \<open>A call from one peer to the other\<close>

lemma answer_arrives:
  assumes ok: "rpc_ok n b d1 d2" and f: "method_services b m = Some f" "f k p = (True, e, r)" and k: "k \<noteq> 0"
  shows "\<exists>b1. rpc_recv (MsgRequest k m p) b = Inr b1 \<and> sent b1 = sent b @ [if e = 0 then result_json k r else error_json k e []]"
  using f k rpc_okD(5) [OF ok] by (auto simp: onRecvRequest_def rpc_respond_def respond_with_def send_def Let_def)

text \<open>
  (C26) A remote call. Both peers have done anything before. A request of one, framed and received by the other, reaches the service
  registered there; its answer, framed and received back, calls the callback of that request with the result of the service, or
  with its error code, and nothing else. Of the JSON library only that the two messages are parsed back is assumed.
\<close>

theorem rpc_call_completes:
  assumes a: "rpc_run xs (rpc_start n) = Inr a" "1 \<le> n" "length (callbacks xs) < 2147483648"
    and b: "rpc_run ys (rpc_start n') = Inr b" "1 \<le> n'" "length (callbacks ys) < 2147483648"
    and f: "method_services b m = Some f" "f k p = (True, e, r)" and k: "k = id_alloc a + 1"
    and q: "q = request_json k m p" "parse (dump q) = Some q" "length (dump q) < 2147483648"
    and w: "w = (if e = 0 then result_json k r else error_json k e [])" "parse (dump w) = Some w" "length (dump w) < 2147483648"
  shows "\<exists>a1 fq b1 fw a2. rpc_step (Request m p (Some c)) a = Inr a1 \<and> sent a1 = sent a @ [q] \<and> header_sendJson dump head q = Inr fq \<and>
     header_onRecvData parse head True True (Some fq) = Inr (int (length fq), [MsgRequest k m p]) \<and>
     rpc_step (Recv (MsgRequest k m p)) b = Inr b1 \<and> sent b1 = sent b @ [w] \<and> header_sendJson dump head w = Inr fw \<and>
     header_onRecvData parse head True True (Some fw) = Inr (int (length fw), [MsgRespond k e (if e = 0 then r else JNull)]) \<and>
     rpc_step (Recv (MsgRespond k e (if e = 0 then r else JNull))) a1 = Inr a2 \<and> called a2 = called a @ [(c, e, if e = 0 then r else JNull)]"
proof -
  obtain d1 d2 where oa: "rpc_ok n a d1 d2" "map snd (requested a) = callbacks xs"
    using rpc_run_ok [where ms = "{}" and xs = xs, OF rpc_start_ok(1,2) [OF a(2)]] rpc_start_ok(3) [OF a(2)] a(1,3) by auto
  obtain e1 e2 where ob: "rpc_ok n' b e1 e2"
    using rpc_run_ok [where ms = "{}" and xs = ys, OF rpc_start_ok(1,2) [OF b(2)]] rpc_start_ok(3) [OF b(2)] b(1,3) by auto
  have few: "length (requested a) < 4294967295" using arg_cong [OF oa(2), of length] a(3) by simp
  obtain a1 j where a1: "rpc_request m p (Some c) a = Inr a1" "requested a1 = requested a @ [(j, c)]" "called a1 = called a" "j \<noteq> 0"
      "request_callback a1 j = Some c" "sent a1 = sent a @ [request_json j m p]"
    using request_ok [OF oa(1) few, of m p c] by blast
  have "id_alloc a1 = k" using a1(1) k by (auto simp: rpc_request_def Let_def send_def split: sum.splits if_splits)
  moreover have "id_alloc a1 = j" using a1(1,2) by (auto simp: rpc_request_def Let_def send_def split: sum.splits if_splits)
  ultimately have j: "j = k" by simp
  have vm: "length (dump q) + 6 + length ([] :: bytes) \<le> vector_max" "length (dump w) + 6 + length ([] :: bytes) \<le> vector_max"
    using q(3) w(3) by (simp_all add: vector_max_def)
  obtain fq where fq: "header_sendJson dump head q = Inr fq" "header_onRecvData parse head True True (Some fq) = Inr (int (length fq), [MsgRequest k m p])"
    using header_back [where parse = parse and dump = dump and js = q and head = head and q = True and r = True, OF q(2,3) vm(1)] unfolding q(1) request_read by auto
  have wr: "onRecvJson True True w = [MsgRespond k e (if e = 0 then r else JNull)]" unfolding w(1) by (simp add: result_read error_read)
  obtain fw where fw: "header_sendJson dump head w = Inr fw"
    "header_onRecvData parse head True True (Some fw) = Inr (int (length fw), [MsgRespond k e (if e = 0 then r else JNull)])"
    using header_back [where parse = parse and dump = dump and js = w and head = head and q = True and r = True, OF w(2,3) vm(2)] unfolding wr by auto
  obtain b1 where b1: "rpc_recv (MsgRequest k m p) b = Inr b1" "sent b1 = sent b @ [w]"
    using answer_arrives [OF ob f] a1(4) j w(1) by auto
  let ?a2 = "finish_request k e (if e = 0 then r else JNull) a1"
  have "called ?a2 = called a @ [(c, e, if e = 0 then r else JNull)]" using a1(3,5) j by (simp add: finish_request_def)
  moreover have "rpc_step (Recv (MsgRespond k e (if e = 0 then r else JNull))) a1 = Inr ?a2" by (simp add: onRecvRespond_def)
  moreover have "rpc_step (Request m p (Some c)) a = Inr a1" "sent a1 = sent a @ [q]" using a1(1,6) j q(1) by simp_all
  moreover have "rpc_step (Recv (MsgRequest k m p)) b = Inr b1" using b1(1) by simp
  ultimately show ?thesis using fq fw b1(2) by blast
qed

lemma rpc_call_completes_witness:
  "\<exists>b a1 a2. rpc_run [AddService ''f'' (Some (\<lambda>k p. (True, 0, JInt 5)))] (rpc_start 3) = Inr b \<and>
     rpc_step (Request ''f'' JNull (Some 7)) (rpc_start 2) = Inr a1 \<and>
     rpc_step (Recv (MsgRespond 1 0 (JInt 5))) a1 = Inr a2 \<and> called a2 = [(7, 0, JInt 5)]"
proof -
  let ?f = "\<lambda>(k :: i32) (p :: json). (True, 0 :: i32, JInt 5)"
  let ?b = "addService ''f'' (Some ?f) (rpc_start 3)"
  let ?q = "request_json 1 ''f'' JNull" and ?w = "result_json 1 (JInt 5)"
  let ?dump = "\<lambda>js. if js = ?q then ''{1}'' else ''{2}''" and ?parse = "\<lambda>s. Some (if s = ''{1}'' then ?q else ?w)"
  have ne: "?w \<noteq> ?q" by (simp add: request_json_def result_json_def)
  have a: "rpc_run [] (rpc_start 2) = Inr (rpc_start 2)" and b: "rpc_run [AddService ''f'' (Some ?f)] (rpc_start 3) = Inr ?b" by simp_all
  have f: "method_services ?b ''f'' = Some ?f" by (simp add: addService_def)
  have i: "1 = id_alloc (rpc_start 2) + 1" "called (rpc_start 2) = []" by (simp_all add: rpc_start_def rpc_initialize_def rpc_new_def)
  have "\<exists>a1 fq b1 fw a2. rpc_step (Request ''f'' JNull (Some 7)) (rpc_start 2) = Inr a1 \<and> sent a1 = sent (rpc_start 2) @ [?q] \<and>
     header_sendJson ?dump 0 ?q = Inr fq \<and> header_onRecvData ?parse 0 True True (Some fq) = Inr (int (length fq), [MsgRequest 1 ''f'' JNull]) \<and>
     rpc_step (Recv (MsgRequest 1 ''f'' JNull)) ?b = Inr b1 \<and> sent b1 = sent ?b @ [?w] \<and> header_sendJson ?dump 0 ?w = Inr fw \<and>
     header_onRecvData ?parse 0 True True (Some fw) = Inr (int (length fw), [MsgRespond 1 0 (if (0 :: i32) = 0 then JInt 5 else JNull)]) \<and>
     rpc_step (Recv (MsgRespond 1 0 (if (0 :: i32) = 0 then JInt 5 else JNull))) a1 = Inr a2 \<and>
     called a2 = called (rpc_start 2) @ [(7, 0, if (0 :: i32) = 0 then JInt 5 else JNull)]"
    by (rule rpc_call_completes [OF a _ _ b _ _ f _ i(1) refl]) (simp_all add: callbacks_def ne)
  then show ?thesis using b i(2) by auto
qed

section \<open>After cleanup\<close>

text \<open>The callbacks of the timeout monitors are set in the constructor only, and \<open>cleanup\<close> of a monitor drops them: an \<open>Rpc\<close> that was
  cleaned up and initialized again never reports a timeout.\<close>

lemma no_timeouts_after_cleanup:
  "case rpc_cleanup (rpc_start 1) of
     Inr s \<Rightarrow> (case rpc_run [Request ''f'' JNull (Some 7), RequestTick, RequestTick] (snd (rpc_initialize 1 s)) of
        Inr s' \<Rightarrow> called s' = [] \<and> outstanding s' = [7] \<and> \<not> mon_timer (request_timeout s') | Inl e \<Rightarrow> False)
   | Inl e \<Rightarrow> False"
  by (simp add: rpc_start_def rpc_initialize_def rpc_new_def rpc_cleanup_def mon_cleanup_def mon_initialize_def mon_new_def
      mon_setCallback_def alloc_item_def set_next_def the_item_def rpc_request_def send_def mon_add_def request_tick_def onTimerTick_def
      outstanding_def Let_def)

text \<open>\<open>initialize\<close> returns true even when the monitors refuse the timeout: the first request with a callback then follows a null
  pointer. So does \<open>cleanup\<close> before \<open>initialize\<close>.\<close>

lemma bad_timeout_crashes:
  "fst (rpc_initialize 0 rpc_new) \<and> rpc_request m p (Some c) (snd (rpc_initialize 0 rpc_new)) = Inl NullDeref \<and> rpc_cleanup rpc_new = Inl NullDeref"
  by (simp add: rpc_initialize_def rpc_new_def mon_initialize_def mon_new_def mon_setCallback_def rpc_request_def mon_add_def the_item_def
      rpc_cleanup_def mon_cleanup_def Let_def)

end
