(* ===== verification/Spec2Isabelle.thy ===== *)
theory Spec2Isabelle
  imports Buffer Event_Loop_Task State_Machine Serializer Base64 Scalable_Integer Crc Aes Md5 Flow_Denotation
    Request_Pool Module_Tree Util_String Http_Serve Buffered_Fd Thread_Pool_Live Rpc_Props
begin

text \<open>
  A verification library for cpp-tbox, a C++ service framework around one event loop. Paths are
  below \<open>src/modules\<close>.

  The program. A process runs one event loop (\<open>event\<close>) that dispatches timers, descriptors and deferred tasks;
  everything else is called from it. \<open>base\<close> and \<open>util\<close> supply the containers, buffers and codecs, \<open>eventx\<close>
  adds helpers on top of the loop, \<open>flow\<close> runs state machines and trees of actions as tasks of the loop,
  \<open>http\<close> and \<open>network\<close> receive bytes into a buffer and parse them, \<open>jsonrpc\<close> calls services of
  a peer, and \<open>main\<close> builds the tree of
  modules of an application and takes it through its life.

  Conventions (theory Tbox_Prelude). A class is a record, a pointer an option, \<open>size_t\<close> a 64-bit word, a C++
  exception or undefined read the left side of a sum over \<open>cxx_error\<close>. Objects that point to each other live in a
  store, a function from addresses. Callbacks of the user are data the model interprets or parameters.

  Containers.
  \<^item> Cabinet: \<open>base/cabinet.hpp\<close>. Cells, the intrusive free list and tokens. Locale \<open>token_store\<close> is the contract
    its users rely on; a token is never valid again after it was freed.
  \<^item> Byte_Fifo, Buffer: \<open>util/buffer.cpp\<close>. Locale \<open>byte_fifo\<close> and its interpretation \<open>bufq\<close> on the buffer: bytes
    come out in the order they went in.
  \<^item> Std_Heap: the heap algorithms of the standard library as the timers use them, with locale \<open>std_heap\<close>.
  \<^item> Object_Pool: \<open>base/object_pool.hpp\<close>. Locales \<open>object_store\<close> and \<open>allocator\<close>; \<open>malloc\<close> is a parameter, with
    the first-fit allocator as its instance.

  The event loop.
  \<^item> Event_Loop: state and steps of \<open>event/common_loop*.cpp\<close>: the two queues, the timer heap over the cabinet and
    the pool, the wake-up descriptor. Callbacks are sequences of loop calls.
  \<^item> Event_Loop_Timer, Event_Loop_Reach, Event_Loop_Task: the invariant of the timers and the states reached in whole
    runs, the refinement of the timers to a map (locale \<open>timer_service\<close>), order of expiry, termination, order and
    cancellation of tasks, and that no wake-up is lost. The handlers recurse on the tasks or timers left, with fuel
    that the termination theorem bounds.

  Flow.
  \<^item> State_Machine: \<open>flow/state_machine.cpp\<close>. Machines in a store; every operation takes fuel above the nesting
    depth, which \<open>sm_operations_return\<close> shows to be enough.
  \<^item> Flow_Action, Flow_Run, Flow_Build: \<open>flow/action.cpp\<close> and \<open>flow/actions\<close>: the life of an action, the composites,
    their handlers and the construction and destruction of trees. Fuel is one more than the rank of the object.
  \<^item> Flow_Type, Flow_Sound, Flow_Handlers, Flow_Props: well-typed stores, and that every operation returns and
    keeps them; behaviours a user has to know.
  \<^item> Flow_Semantics, Flow_Meaning, Flow_Denotation: a big-step relation for trees of actions and the proof that the
    code, run by the loop, computes it.

  On top of the loop.
  \<^item> Timeout_Monitor, Request_Pool: \<open>eventx/timeout_monitor_impl.hpp\<close> and \<open>eventx/request_pool.hpp\<close>: a ring of poll
    items refined to a list of countdowns, and the cabinet of requests over it.
  \<^item> Module_Tree: \<open>main/module.cpp\<close>: the hooks of the modules are called in turn whatever fails.
  \<^item> Buffered_Fd: \<open>network/buffered_fd.cpp\<close>: a descriptor with a buffer in each direction. What the system calls
    answer is an argument of each step, so the theorems hold for every way the kernel cuts the bytes.
  \<^item> Thread_Pool: \<open>eventx/thread_pool.cpp\<close>, the main thread and the workers as interleaved steps of a state with the
    mutex in it. Thread_Pool_Safe, Thread_Pool_Run: the invariant (every task in one place) and its preservation by every step;
    Thread_Pool_Live: progress of a pool of fixed size, and runs where a task or \<open>cleanup\<close> is stuck.

  Text, HTTP and codecs.
  \<^item> Cxx_String, Util_String: \<open>std::string\<close> searches and \<open>util/string.cpp\<close>.
  \<^item> Http_Url: \<open>http/url.cpp\<close>. Http_Request: \<open>http/common.cpp\<close>, \<open>request.cpp\<close>, \<open>respond.cpp\<close> and
    \<open>server/request_parser.cpp\<close>. Http_Parse, Http_Props: printed requests are read back; what the parser does with
    any bytes.
  \<^item> Tcp_Server: \<open>network/tcp_server.cpp\<close> and \<open>tcp_connection.cpp\<close> over the cabinet: connections, their tokens and
    their deferred deletion. Http_Server: \<open>http/server/server_imp.cpp\<close>, \<open>context.cpp\<close> and \<open>router.cpp\<close> over it.
    Http_Order: the answers of a connection go out in the order of its requests, whatever the order they are given in.
    Http_Serve: no run of the server uses a deleted connection, and pipelined requests are all taken.
  \<^item> Json_Text: the accessors and the scan for the end of a text of \<open>util/json.cpp\<close>; Json_Proto: \<open>jsonrpc/proto.cpp\<close> and
    the framings of \<open>jsonrpc/protos\<close>, with \<open>dump\<close> and \<open>parse\<close> of the vendored JSON library as parameters; Rpc, Rpc_Props:
    \<open>jsonrpc/rpc.cpp\<close> over the timeout monitor: every request is settled once, and a call goes through to the other peer and back.
  \<^item> Serializer, Base64, Scalable_Integer, Crc: \<open>util/serializer.cpp\<close>, \<open>base64.cpp\<close>, \<open>scalable_integer.cpp\<close>,
    \<open>crc.cpp\<close>, \<open>checksum.cpp\<close>. Aes, Md5: \<open>crypto\<close>.

  Not modelled: the system calls themselves (their answers are arguments where Buffered_Fd and the loop use them) and what is
  built directly on them: acceptors, connectors, datagram sockets, serial ports, processes, files, the waiting of the engines;
  threads other than those of the thread pool; coroutines (a body suspends in the middle of C++ code); log and
  trace output, the terminal, calendars, the bindings of libdbus and libmosquitto, and vendored code.
\<close>

end
